(* ===== verification/Adou_Prelude.thy ===== *)
theory Adou_Prelude
  imports Main "HOL-Library.Word"
begin

text \<open>
  Shared vocabulary of the development: names for the C integer types, the C conversions
  between them, the environment of a native component (an arbitrary function of the history
  of calls made so far) and generic facts about lists and words that the components share.
\<close>

unbundle bit_operations_syntax

type_synonym byte = "8 word"
type_synonym u8 = "8 word"
type_synonym u16 = "16 word"
type_synonym u32 = "32 word"
type_synonym u64 = "64 word"

text \<open>
  Collections of rewrite rules: \<open>event_simps\<close> evaluates interpretations of call histories,
  \<open>c_defs\<close> holds the constants of the C headers.
\<close>

named_theorems event_simps
named_theorems c_defs

section \<open>C integer conversions\<close>

text \<open>
  The cast \<open>(int) x\<close> of a 64-bit value keeps the low 32 bits and reads them as two's
  complement.
\<close>

definition to_int32 :: "int \<Rightarrow> int" where
  "to_int32 x = signed_take_bit 31 x"

definition INT32_MAX :: int where
  [c_defs]: "INT32_MAX = 2147483647"

lemma to_int32_id [simp]: "- 2147483648 \<le> x \<Longrightarrow> x \<le> 2147483647 \<Longrightarrow> to_int32 x = x"
  unfolding to_int32_def by (rule signed_take_bit_int_eq_self) simp_all

lemma to_int32_range: "- 2147483648 \<le> to_int32 x \<and> to_int32 x \<le> 2147483647"
  using signed_take_bit_int_greater_eq_minus_exp [of 31 x] signed_take_bit_int_less_exp [of 31 x]
  by (simp add: to_int32_def)

section \<open>Error numbers of the target platform (Darwin errno.h)\<close>

definition EINTR :: int where [c_defs]: "EINTR = 4"
definition EIO :: int where [c_defs]: "EIO = 5"
definition ENOMEM :: int where [c_defs]: "ENOMEM = 12"
definition EEXIST :: int where [c_defs]: "EEXIST = 17"
definition EINVAL :: int where [c_defs]: "EINVAL = 22"
definition EAGAIN :: int where [c_defs]: "EAGAIN = 35"
definition EWOULDBLOCK :: int where [c_defs]: "EWOULDBLOCK = EAGAIN"
definition ENOSYS :: int where [c_defs]: "ENOSYS = 78"

section \<open>Lists\<close>

lemma take_append_take_drop: "take n xs @ take m (drop n xs) = take (n + m) xs"
  by (simp add: take_add)

lemma map_upt_shift: "map f [i..<i + n] = map (\<lambda>j. f (i + j)) [0..<n]"
  by (rule nth_equalityI) simp_all

section \<open>Call results\<close>

lemma not_isl_unit: "\<not> isl (x :: 'e + unit) \<longleftrightarrow> x = Inr ()"
  by (cases x) auto

end
