(* ===== verification/Term_Native.thy ===== *)
theory Term_Native
  imports Adou_Prelude
begin

text \<open>
  The terminal layer of \<open>native/term.c\<close>: one-shot non-blocking writes and reads, raw mode and
  the window size.

  The operating system is a parameter: a \<open>term_os\<close> gives the answer of every call as a
  function of the whole history of calls made before it, so a theorem over all \<open>term_os\<close> holds
  for every behaviour of the kernel, of other processes and of signals. Every call appends one
  event to the history, and what the file descriptor went through (its status flags, its
  terminal attributes, the bytes it accepted) is read off the history.
\<close>

section \<open>Data\<close>

text \<open>The part of \<open>struct termios\<close> that the code reads or writes, at Darwin's widths.\<close>

record termios =
  c_iflag :: u64
  c_oflag :: u64
  c_cflag :: u64
  c_lflag :: u64
  c_cc :: "byte list"

definition O_NONBLOCK :: u32 where [c_defs]: "O_NONBLOCK = 0x4"
definition BRKINT :: u64 where [c_defs]: "BRKINT = 0x2"
definition INPCK :: u64 where [c_defs]: "INPCK = 0x10"
definition ISTRIP :: u64 where [c_defs]: "ISTRIP = 0x20"
definition ICRNL :: u64 where [c_defs]: "ICRNL = 0x100"
definition IXON :: u64 where [c_defs]: "IXON = 0x200"
definition OPOST :: u64 where [c_defs]: "OPOST = 0x1"
definition CS8 :: u64 where [c_defs]: "CS8 = 0x300"
definition ECHO :: u64 where [c_defs]: "ECHO = 0x8"
definition ISIG :: u64 where [c_defs]: "ISIG = 0x80"
definition ICANON :: u64 where [c_defs]: "ICANON = 0x100"
definition IEXTEN :: u64 where [c_defs]: "IEXTEN = 0x400"
definition VMIN :: nat where [c_defs]: "VMIN = 16"
definition VTIME :: nat where [c_defs]: "VTIME = 17"

text \<open>
  One event per system call, with its arguments and its answer: \<open>Inl e\<close> is the return value
  -1 with \<open>errno = e\<close>. The mutex calls return their error number, 0 for success.
\<close>

datatype term_event =
    EvLock int
  | EvUnlock int
  | EvGetFl int "int + u32"
  | EvSetFl int u32 "int + unit"
  | EvWrite int "byte list" "int + nat"
  | EvRead int nat "int + byte list"
  | EvTcget int "int + termios"
  | EvTcset int termios "int + unit"
  | EvTcflush int "int + unit"
  | EvIsatty int int
  | EvWinsize int "int + (u16 \<times> u16)"

type_synonym term_trace = "term_event list"

record term_os =
  os_lock :: "term_trace \<Rightarrow> int"
  os_unlock :: "term_trace \<Rightarrow> int"
  os_getfl :: "term_trace \<Rightarrow> int \<Rightarrow> int + u32"
  os_setfl :: "term_trace \<Rightarrow> int \<Rightarrow> u32 \<Rightarrow> int + unit"
  os_write :: "term_trace \<Rightarrow> int \<Rightarrow> byte list \<Rightarrow> int + nat"
  os_read :: "term_trace \<Rightarrow> int \<Rightarrow> nat \<Rightarrow> int + byte list"
  os_tcget :: "term_trace \<Rightarrow> int \<Rightarrow> int + termios"
  os_tcset :: "term_trace \<Rightarrow> int \<Rightarrow> termios \<Rightarrow> int + unit"
  os_tcflush :: "term_trace \<Rightarrow> int \<Rightarrow> int + unit"
  os_isatty :: "term_trace \<Rightarrow> int \<Rightarrow> int"
  os_winsize :: "term_trace \<Rightarrow> int \<Rightarrow> int + (u16 \<times> u16)"

text \<open>The static \<open>terminal_state\<close>.\<close>

record terminal_state_t =
  active :: bool
  fd :: int
  saved_termios :: termios

text \<open>A static object starts as zero bytes except for the fields with an initializer.\<close>

definition zero_termios :: termios where
  "zero_termios = \<lparr>c_iflag = 0, c_oflag = 0, c_cflag = 0, c_lflag = 0, c_cc = replicate 20 0\<rparr>"

definition terminal_state :: terminal_state_t where
  "terminal_state = \<lparr>active = False, fd = -1, saved_termios = zero_termios\<rparr>"

section \<open>Calls\<close>

text \<open>Each call asks the environment and records the answer.\<close>

definition c_lock :: "term_os \<Rightarrow> term_trace \<Rightarrow> int \<times> term_trace" where
  "c_lock os tr = (let r = os_lock os tr in (r, tr @ [EvLock r]))"

definition c_unlock :: "term_os \<Rightarrow> term_trace \<Rightarrow> int \<times> term_trace" where
  "c_unlock os tr = (let r = os_unlock os tr in (r, tr @ [EvUnlock r]))"

definition c_getfl :: "term_os \<Rightarrow> int \<Rightarrow> term_trace \<Rightarrow> (int + u32) \<times> term_trace" where
  "c_getfl os f tr = (let r = os_getfl os tr f in (r, tr @ [EvGetFl f r]))"

definition c_setfl :: "term_os \<Rightarrow> int \<Rightarrow> u32 \<Rightarrow> term_trace \<Rightarrow> (int + unit) \<times> term_trace" where
  "c_setfl os f v tr = (let r = os_setfl os tr f v in (r, tr @ [EvSetFl f v r]))"

definition c_write :: "term_os \<Rightarrow> int \<Rightarrow> byte list \<Rightarrow> term_trace \<Rightarrow> (int + nat) \<times> term_trace" where
  "c_write os f bs tr = (let r = os_write os tr f bs in (r, tr @ [EvWrite f bs r]))"

definition c_read :: "term_os \<Rightarrow> int \<Rightarrow> nat \<Rightarrow> term_trace \<Rightarrow> (int + byte list) \<times> term_trace" where
  "c_read os f n tr = (let r = os_read os tr f n in (r, tr @ [EvRead f n r]))"

definition c_tcget :: "term_os \<Rightarrow> int \<Rightarrow> term_trace \<Rightarrow> (int + termios) \<times> term_trace" where
  "c_tcget os f tr = (let r = os_tcget os tr f in (r, tr @ [EvTcget f r]))"

definition c_tcset :: "term_os \<Rightarrow> int \<Rightarrow> termios \<Rightarrow> term_trace \<Rightarrow> (int + unit) \<times> term_trace" where
  "c_tcset os f t tr = (let r = os_tcset os tr f t in (r, tr @ [EvTcset f t r]))"

definition c_tcflush :: "term_os \<Rightarrow> int \<Rightarrow> term_trace \<Rightarrow> (int + unit) \<times> term_trace" where
  "c_tcflush os f tr = (let r = os_tcflush os tr f in (r, tr @ [EvTcflush f r]))"

lemmas call_defs = c_lock_def c_unlock_def c_getfl_def c_setfl_def c_write_def c_read_def
  c_tcget_def c_tcset_def c_tcflush_def Let_def

section \<open>adou\_term\_write\<close>

text \<open>
  A buffer argument is \<open>None\<close> for the null pointer, otherwise the memory it points to. The
  callee reads \<open>length\<close> bytes of it.
\<close>

definition buf_bytes :: "byte list option \<Rightarrow> int \<Rightarrow> byte list" where
  "buf_bytes buf len = (case buf of None \<Rightarrow> [] | Some bs \<Rightarrow> take (nat len) bs)"

definition bad_buffer :: "byte list option \<Rightarrow> int \<Rightarrow> bool" where
  "bad_buffer buf len \<longleftrightarrow> len < 0 \<or> (len > 0 \<and> buf = None)"

text \<open>The \<open>for (;;)\<close> loop: one write attempt, repeated at most 16 times while interrupted.\<close>

function term_write_loop ::
  "term_os \<Rightarrow> int \<Rightarrow> byte list \<Rightarrow> nat \<Rightarrow> term_trace \<Rightarrow> (int + nat) \<times> term_trace" where
  "term_write_loop os native_fd bs retries tr =
     (case c_write os native_fd bs tr of
        (Inr n, tr') \<Rightarrow> (Inr n, tr')
      | (Inl e, tr') \<Rightarrow>
          if e = EINTR \<and> retries < 16 then term_write_loop os native_fd bs (retries + 1) tr'
          else (Inl e, tr'))"
  by pat_completeness auto
termination
  by (relation "measure (\<lambda>(os, f, bs, retries, tr). 16 - retries)") auto

declare term_write_loop.simps [simp del]

text \<open>The \<open>done\<close> label: unlock, and report an unlock failure unless there is a result.\<close>

definition term_write_done :: "term_os \<Rightarrow> int \<Rightarrow> term_trace \<Rightarrow> int \<times> term_trace" where
  "term_write_done os result tr =
     (case c_unlock os tr of (unlock_result, tr') \<Rightarrow>
        (if unlock_result \<noteq> 0 \<and> result = 0 then - unlock_result else result, tr'))"

text \<open>The write attempt with its result code, and the restoration of the flags after it.\<close>

definition write_result :: "int + nat \<Rightarrow> int" where
  "write_result count =
     (case count of
        Inr n \<Rightarrow> to_int32 (int n)
      | Inl e \<Rightarrow> if e = EAGAIN \<or> e = EWOULDBLOCK then 0 else - e)"

definition term_write_attempt ::
  "term_os \<Rightarrow> int \<Rightarrow> u32 \<Rightarrow> bool \<Rightarrow> byte list \<Rightarrow> term_trace \<Rightarrow> int \<times> term_trace" where
  "term_write_attempt os native_fd flags was_nonblocking bs tr =
     (case term_write_loop os native_fd bs 0 tr of (count, tr1) \<Rightarrow>
        let result = write_result count in
        if \<not> was_nonblocking then
          (case c_setfl os native_fd flags tr1 of
             (Inl e, tr2) \<Rightarrow> (- e, tr2)
           | (Inr _, tr2) \<Rightarrow> (result, tr2))
        else (result, tr1))"

text \<open>What happens while the mutex is held.\<close>

definition term_write_section ::
  "term_os \<Rightarrow> int \<Rightarrow> byte list \<Rightarrow> term_trace \<Rightarrow> int \<times> term_trace" where
  "term_write_section os native_fd bs tr =
     (case c_getfl os native_fd tr of
        (Inl e, tr1) \<Rightarrow> (- e, tr1)
      | (Inr flags, tr1) \<Rightarrow>
          let was_nonblocking = (flags AND O_NONBLOCK \<noteq> 0) in
          if \<not> was_nonblocking then
            (case c_setfl os native_fd (flags OR O_NONBLOCK) tr1 of
               (Inl e, tr2) \<Rightarrow> (- e, tr2)
             | (Inr _, tr2) \<Rightarrow> term_write_attempt os native_fd flags was_nonblocking bs tr2)
          else term_write_attempt os native_fd flags was_nonblocking bs tr1)"

definition adou_term_write ::
  "term_os \<Rightarrow> int \<Rightarrow> byte list option \<Rightarrow> int \<Rightarrow> term_trace \<Rightarrow> int \<times> term_trace" where
  "adou_term_write os fd0 buf len tr =
     (if bad_buffer buf len then (- EINVAL, tr)
      else case c_lock os tr of (lock_result, tr1) \<Rightarrow>
        if lock_result \<noteq> 0 then (- lock_result, tr1)
        else case term_write_section os (to_int32 fd0) (buf_bytes buf len) tr1 of
          (result, tr2) \<Rightarrow> term_write_done os result tr2)"

section \<open>adou\_term\_read\<close>

text \<open>
  The second component is the data the kernel put into the caller's buffer.
\<close>

definition read_result :: "int + byte list \<Rightarrow> int" where
  "read_result count =
     (case count of
        Inr bs \<Rightarrow> int (length bs)
      | Inl e \<Rightarrow> if e = EINTR then -2
                 else if e = EAGAIN \<or> e = EWOULDBLOCK then -1
                 else - 1000000 - e)"

definition read_bytes :: "int + byte list \<Rightarrow> byte list" where
  "read_bytes count = (case count of Inr bs \<Rightarrow> bs | Inl _ \<Rightarrow> [])"

definition adou_term_read ::
  "term_os \<Rightarrow> int \<Rightarrow> bool \<Rightarrow> int \<Rightarrow> term_trace \<Rightarrow> int \<times> byte list \<times> term_trace" where
  "adou_term_read os fd0 buf_is_null len tr =
     (if len < 0 \<or> (len > 0 \<and> buf_is_null) then (- 1000000 - EINVAL, [], tr)
      else let native_fd = to_int32 fd0 in
        case c_getfl os native_fd tr of
          (Inl e, tr1) \<Rightarrow> (- 1000000 - e, [], tr1)
        | (Inr flags, tr1) \<Rightarrow>
            let was_nonblocking = (flags AND O_NONBLOCK \<noteq> 0) in
            if \<not> was_nonblocking then
              (case c_setfl os native_fd (flags OR O_NONBLOCK) tr1 of
                 (Inl e, tr2) \<Rightarrow> (- 1000000 - e, [], tr2)
               | (Inr _, tr2) \<Rightarrow>
                   (case c_read os native_fd (nat len) tr2 of (count, tr3) \<Rightarrow>
                      (case c_setfl os native_fd flags tr3 of
                         (Inl e, tr4) \<Rightarrow> (- 1000000 - e, read_bytes count, tr4)
                       | (Inr _, tr4) \<Rightarrow> (read_result count, read_bytes count, tr4))))
            else
              (case c_read os native_fd (nat len) tr1 of (count, tr3) \<Rightarrow>
                 (read_result count, read_bytes count, tr3)))"

section \<open>Raw mode\<close>

definition make_raw :: "termios \<Rightarrow> termios" where
  "make_raw t = t\<lparr>
     c_iflag := c_iflag t AND NOT (BRKINT OR ICRNL OR INPCK OR ISTRIP OR IXON),
     c_oflag := c_oflag t AND NOT OPOST,
     c_cflag := c_cflag t OR CS8,
     c_lflag := c_lflag t AND NOT (ECHO OR ICANON OR IEXTEN OR ISIG),
     c_cc := (c_cc t)[VMIN := 1, VTIME := 0]\<rparr>"

definition adou_term_is_tty :: "term_os \<Rightarrow> int \<Rightarrow> term_trace \<Rightarrow> int \<times> term_trace" where
  "adou_term_is_tty os fd0 tr =
     (let r = os_isatty os tr (to_int32 fd0)
      in (if r = 1 then 1 else 0, tr @ [EvIsatty (to_int32 fd0) r]))"

definition adou_term_restore_raw ::
  "term_os \<Rightarrow> int \<Rightarrow> terminal_state_t \<Rightarrow> term_trace \<Rightarrow> int \<times> terminal_state_t \<times> term_trace" where
  "adou_term_restore_raw os fd0 st tr =
     (let native_fd = to_int32 fd0 in
      if \<not> active st \<or> fd st \<noteq> native_fd then (0, st, tr)
      else
        case c_tcflush os native_fd tr of (f1, tr1) \<Rightarrow>
        case c_tcset os native_fd (saved_termios st) tr1 of (s, tr2) \<Rightarrow>
        case c_tcflush os native_fd tr2 of (f2, tr3) \<Rightarrow>
        let r1 = (case f1 of Inl e \<Rightarrow> - e | Inr _ \<Rightarrow> 0);
            r2 = (case s of Inl e \<Rightarrow> if r1 = 0 then - e else r1 | Inr _ \<Rightarrow> r1);
            r3 = (case f2 of Inl e \<Rightarrow> if r2 = 0 then - e else r2 | Inr _ \<Rightarrow> r2)
        in (r3, st\<lparr>active := False, fd := -1\<rparr>, tr3))"

text \<open>
  Entering raw mode. \<open>tcgetattr\<close> stores into \<open>saved_termios\<close> only when it succeeds; the
  failing paths after it leave the new copy there but do not set \<open>active\<close>.
\<close>

definition enter_raw_calls ::
  "term_os \<Rightarrow> int \<Rightarrow> terminal_state_t \<Rightarrow> term_trace \<Rightarrow> int \<times> terminal_state_t \<times> term_trace" where
  "enter_raw_calls os native_fd st tr =
     (case c_tcget os native_fd tr of
        (Inl e, tr1) \<Rightarrow> (- e, st, tr1)
      | (Inr t, tr1) \<Rightarrow>
          let st1 = st\<lparr>saved_termios := t\<rparr>; raw = make_raw t in
          case c_tcflush os native_fd tr1 of
            (Inl e, tr2) \<Rightarrow> (- e, st1, tr2)
          | (Inr _, tr2) \<Rightarrow>
              (case c_tcset os native_fd raw tr2 of
                 (Inl e, tr3) \<Rightarrow> (- e, st1, tr3)
               | (Inr _, tr3) \<Rightarrow>
                   (case c_tcflush os native_fd tr3 of
                      (Inl e, tr4) \<Rightarrow> (- e, st1, tr4)
                    | (Inr _, tr4) \<Rightarrow>
                        (0, st1\<lparr>active := True, fd := native_fd\<rparr>, tr4))))"

definition adou_term_enter_raw ::
  "term_os \<Rightarrow> int \<Rightarrow> terminal_state_t \<Rightarrow> term_trace \<Rightarrow> int \<times> terminal_state_t \<times> term_trace" where
  "adou_term_enter_raw os fd0 st tr =
     (let native_fd = to_int32 fd0 in
      if active st then
        if fd st = native_fd then (0, st, tr)
        else case adou_term_restore_raw os (fd st) st tr of
          (_, st1, tr1) \<Rightarrow> enter_raw_calls os native_fd st1 tr1
      else enter_raw_calls os native_fd st tr)"

text \<open>The window size; \<open>rows\<close> and \<open>columns\<close> say whether the pointers are non-null.\<close>

definition adou_term_size ::
  "term_os \<Rightarrow> int \<Rightarrow> bool \<Rightarrow> bool \<Rightarrow> term_trace \<Rightarrow> int \<times> int option \<times> int option \<times> term_trace" where
  "adou_term_size os fd0 rows columns tr =
     (let r = os_winsize os tr (to_int32 fd0); tr1 = tr @ [EvWinsize (to_int32 fd0) r] in
      case r of
        Inl e \<Rightarrow> (- e, None, None, tr1)
      | Inr (ws_row, ws_col) \<Rightarrow>
          (0,
           if rows then Some (if ws_row > 0 then uint ws_row else 24) else None,
           if columns then Some (if ws_col > 0 then uint ws_col else 80) else None,
           tr1))"

section \<open>Reading the history\<close>

text \<open>
  What a descriptor went through, as a function of the history: its status flags, its
  terminal attributes and the bytes it accepted.
\<close>

fun fl_step :: "term_event \<Rightarrow> (int \<Rightarrow> u32) \<Rightarrow> int \<Rightarrow> u32" where
  "fl_step (EvSetFl f v (Inr _)) fl = fl(f := v)"
| "fl_step _ fl = fl"

definition fd_flags :: "(int \<Rightarrow> u32) \<Rightarrow> term_trace \<Rightarrow> int \<Rightarrow> u32" where
  "fd_flags f0 tr = fold fl_step tr f0"

fun tc_step :: "term_event \<Rightarrow> (int \<Rightarrow> termios) \<Rightarrow> int \<Rightarrow> termios" where
  "tc_step (EvTcset f t (Inr _)) a = a(f := t)"
| "tc_step _ a = a"

definition tc_attr :: "(int \<Rightarrow> termios) \<Rightarrow> term_trace \<Rightarrow> int \<Rightarrow> termios" where
  "tc_attr a0 tr = fold tc_step tr a0"

fun event_bytes :: "int \<Rightarrow> term_event \<Rightarrow> byte list" where
  "event_bytes f (EvWrite g bs (Inr n)) = (if f = g then take n bs else [])"
| "event_bytes f _ = []"

definition accepted :: "int \<Rightarrow> term_trace \<Rightarrow> byte list" where
  "accepted f tr = concat (map (event_bytes f) tr)"

fun is_lock_event :: "term_event \<Rightarrow> bool" where
  "is_lock_event (EvLock _) = True"
| "is_lock_event (EvUnlock _) = True"
| "is_lock_event _ = False"

fun is_write_event :: "term_event \<Rightarrow> bool" where
  "is_write_event (EvWrite _ _ _) = True"
| "is_write_event _ = False"

lemma fd_flags_simps [event_simps]:
  "fd_flags f0 [] = f0"
  "fd_flags f0 (e # us) = fd_flags (fl_step e f0) us"
  "fd_flags f0 (tr @ us) = fd_flags (fd_flags f0 tr) us"
  by (simp_all add: fd_flags_def)

lemma tc_attr_simps [event_simps]:
  "tc_attr a0 [] = a0"
  "tc_attr a0 (e # us) = tc_attr (tc_step e a0) us"
  "tc_attr a0 (tr @ us) = tc_attr (tc_attr a0 tr) us"
  by (simp_all add: tc_attr_def)

lemma accepted_simps [event_simps]:
  "accepted f [] = []"
  "accepted f (tr @ us) = accepted f tr @ accepted f us"
  "accepted f (e # us) = event_bytes f e @ accepted f us"
  by (simp_all add: accepted_def)

section \<open>What the code relies on (POSIX)\<close>

text \<open>
  Error numbers are positive, \<open>pthread_mutex_lock\<close> and \<open>pthread_mutex_unlock\<close> return 0 or an
  error number.
\<close>

definition errno_positive :: "term_os \<Rightarrow> bool" where
  "errno_positive os \<longleftrightarrow>
     (\<forall>tr. 0 \<le> os_lock os tr \<and> 0 \<le> os_unlock os tr) \<and>
     (\<forall>tr f e. os_getfl os tr f = Inl e \<longrightarrow> 0 < e) \<and>
     (\<forall>tr f v e. os_setfl os tr f v = Inl e \<longrightarrow> 0 < e) \<and>
     (\<forall>tr f bs e. os_write os tr f bs = Inl e \<longrightarrow> 0 < e) \<and>
     (\<forall>tr f n e. os_read os tr f n = Inl e \<longrightarrow> 0 < e) \<and>
     (\<forall>tr f e. os_tcget os tr f = Inl e \<longrightarrow> 0 < e) \<and>
     (\<forall>tr f t e. os_tcset os tr f t = Inl e \<longrightarrow> 0 < e) \<and>
     (\<forall>tr f e. os_tcflush os tr f = Inl e \<longrightarrow> 0 < e)"

text \<open>\<open>F_GETFL\<close> reports the flags the last successful \<open>F_SETFL\<close> of this descriptor stored.\<close>

definition getfl_reports :: "(int \<Rightarrow> u32) \<Rightarrow> term_os \<Rightarrow> bool" where
  "getfl_reports f0 os \<longleftrightarrow> (\<forall>tr f v. os_getfl os tr f = Inr v \<longrightarrow> v = fd_flags f0 tr f)"

text \<open>\<open>tcgetattr\<close> reports the attributes the last successful \<open>tcsetattr\<close> stored.\<close>

definition tcget_reports :: "(int \<Rightarrow> termios) \<Rightarrow> term_os \<Rightarrow> bool" where
  "tcget_reports a0 os \<longleftrightarrow> (\<forall>tr f t. os_tcget os tr f = Inr t \<longrightarrow> t = tc_attr a0 tr f)"

text \<open>\<open>write\<close> and \<open>read\<close> never transfer more than they were asked to.\<close>

definition transfer_bounded :: "term_os \<Rightarrow> bool" where
  "transfer_bounded os \<longleftrightarrow>
     (\<forall>tr f bs n. os_write os tr f bs = Inr n \<longrightarrow> n \<le> length bs) \<and>
     (\<forall>tr f n bs. os_read os tr f n = Inr bs \<longrightarrow> length bs \<le> n)"

lemma errno_positiveD:
  assumes "errno_positive os"
  shows "0 \<le> os_lock os tr" "0 \<le> os_unlock os tr"
    "os_getfl os tr f = Inl e \<Longrightarrow> 0 < e" "os_setfl os tr f v = Inl e \<Longrightarrow> 0 < e"
    "os_write os tr f bs = Inl e \<Longrightarrow> 0 < e" "os_read os tr f n = Inl e \<Longrightarrow> 0 < e"
    "os_tcget os tr f = Inl e \<Longrightarrow> 0 < e" "os_tcset os tr f t = Inl e \<Longrightarrow> 0 < e"
    "os_tcflush os tr f = Inl e \<Longrightarrow> 0 < e"
  by (use assms in \<open>simp_all add: errno_positive_def\<close>)

section \<open>Writes\<close>

text \<open>The loop makes a number of interrupted attempts and one final one.\<close>

lemma term_write_loop_events:
  "term_write_loop os f bs k tr = (r, tr') \<Longrightarrow> k \<le> 16 \<Longrightarrow>
   \<exists>j\<le>16 - k. tr' = tr @ replicate j (EvWrite f bs (Inl EINTR)) @ [EvWrite f bs r]
      \<and> r = os_write os (tr @ replicate j (EvWrite f bs (Inl EINTR))) f bs"
proof (induction os f bs k tr arbitrary: r tr' rule: term_write_loop.induct)
  case (1 os f bs k tr)
  define w where "w = os_write os tr f bs"
  show ?case
  proof (cases "w = Inl EINTR \<and> k < 16")
    case True
    let ?tr1 = "tr @ [EvWrite f bs w]"
    have c: "c_write os f bs tr = (Inl EINTR, ?tr1)"
      using True by (simp add: c_write_def w_def [symmetric] Let_def)
    have rec: "term_write_loop os f bs (k + 1) ?tr1 = (r, tr')"
      using "1.prems"(1) True c by (simp add: term_write_loop.simps [of os f bs k tr])
    obtain j where "j \<le> 16 - (k + 1)"
      and "tr' = ?tr1 @ replicate j (EvWrite f bs (Inl EINTR)) @ [EvWrite f bs r]"
      and "r = os_write os (?tr1 @ replicate j (EvWrite f bs (Inl EINTR))) f bs"
      using "1.IH" [OF c [symmetric] refl _ rec] True by auto
    then show ?thesis
      using True by (intro exI [of _ "Suc j"]) auto
  next
    case False
    then have "r = w" and "tr' = tr @ [EvWrite f bs w]"
      using "1.prems"(1)
      by (auto simp: term_write_loop.simps [of os f bs k tr] c_write_def Let_def w_def [symmetric]
          split: sum.splits if_splits)
    then show ?thesis
      by (intro exI [of _ 0]) (simp add: w_def)
  qed
qed

text \<open>Interrupted attempts change nothing that the history is read for.\<close>

lemma interrupted_writes [event_simps]:
  "fd_flags f0 (replicate j (EvWrite f bs (Inl e))) = f0"
  "tc_attr a0 (replicate j (EvWrite f bs (Inl e))) = a0"
  "accepted g (replicate j (EvWrite f bs (Inl e))) = []"
  by (induction j; simp add: fd_flags_def tc_attr_def accepted_def)+



text \<open>A call never takes the mutex inside the section it protects.\<close>

definition lock_free :: "term_trace \<Rightarrow> bool" where
  "lock_free ev \<longleftrightarrow> list_all (\<lambda>e. \<not> is_lock_event e) ev"

lemma term_write_attempt_events:
  assumes "term_write_attempt os f flags nb bs tr = (r, tr')"
  shows "\<exists>j c tr1 ev2. j \<le> 16 \<and> c = os_write os tr1 f bs
     \<and> tr' = tr @ replicate j (EvWrite f bs (Inl EINTR)) @ EvWrite f bs c # ev2
     \<and> (if nb then ev2 = [] \<and> r = write_result c
        else \<exists>s tr2. s = os_setfl os tr2 f flags \<and> ev2 = [EvSetFl f flags s]
               \<and> r = (case s of Inl e \<Rightarrow> - e | Inr _ \<Rightarrow> write_result c))"
proof -
  obtain c tr1 where w: "term_write_loop os f bs 0 tr = (c, tr1)"
    by fastforce
  then obtain j where j: "j \<le> 16"
    and tr1: "tr1 = tr @ replicate j (EvWrite f bs (Inl EINTR)) @ [EvWrite f bs c]"
    and c: "c = os_write os (tr @ replicate j (EvWrite f bs (Inl EINTR))) f bs"
    using term_write_loop_events [OF w] by auto
  show ?thesis
  proof (cases nb)
    case True
    with assms w have "r = write_result c" "tr' = tr1"
      by (simp_all add: term_write_attempt_def)
    with True j c tr1 show ?thesis by auto
  next
    case False
    define s where "s = os_setfl os tr1 f flags"
    from assms w False have "r = (case s of Inl e \<Rightarrow> - e | Inr _ \<Rightarrow> write_result c)"
      and "tr' = tr1 @ [EvSetFl f flags s]"
      by (auto simp: term_write_attempt_def c_setfl_def Let_def s_def split: sum.splits)
    with False j c tr1 s_def show ?thesis
      by (intro exI [of _ j] exI [of _ c] exI [of _ "[EvSetFl f flags s]"]
          exI [of _ "tr @ replicate j (EvWrite f bs (Inl EINTR))"]) auto
  qed
qed

text \<open>
  The section as a whole: at most 17 write attempts, no mutex call, and, when it reports
  success, the bytes it reports were accepted and the flags are back.
\<close>

definition section_ok ::
  "(int \<Rightarrow> u32) \<Rightarrow> int \<Rightarrow> byte list \<Rightarrow> term_trace \<Rightarrow> int \<Rightarrow> term_trace \<Rightarrow> bool" where
  "section_ok f0 f bs tr r ev \<longleftrightarrow>
     lock_free ev \<and> length (filter is_write_event ev) \<le> 17 \<and> (\<forall>g. g \<noteq> f \<longrightarrow> accepted g ev = [])
     \<and> (0 \<le> r \<longrightarrow> fd_flags f0 (tr @ ev) = fd_flags f0 tr
          \<and> accepted f ev = take (nat r) bs \<and> r \<le> int (length bs))"

lemma write_result_accepted:
  assumes "errno_positive os" "transfer_bounded os" "int (length bs) \<le> INT32_MAX"
    and "c = os_write os tr f bs"
  shows "0 \<le> write_result c \<Longrightarrow> event_bytes f (EvWrite f bs c) = take (nat (write_result c)) bs
     \<and> write_result c \<le> int (length bs)"
proof (cases c)
  case (Inl e)
  assume "0 \<le> write_result c"
  moreover have "0 < e"
    using assms(4) Inl errno_positiveD(5) [OF assms(1)] by metis
  ultimately show ?thesis
    using Inl by (auto simp: write_result_def split: if_splits)
next
  case (Inr n)
  have "n \<le> length bs"
    using assms(2,4) Inr unfolding transfer_bounded_def by metis
  moreover from this have "to_int32 (int n) = int n"
    using assms(3) by (intro to_int32_id) (auto simp: c_defs)
  ultimately show ?thesis
    using Inr by (simp add: write_result_def)
qed

lemma fl_step_write [simp]: "fl_step (EvWrite f bs c) = id" "fl_step (EvGetFl f v) = id"
  by (auto simp: fun_eq_iff)


lemma lock_free_simps [event_simps]:
  "lock_free []"
  "lock_free (e # ev) \<longleftrightarrow> \<not> is_lock_event e \<and> lock_free ev"
  "lock_free (ev @ us) \<longleftrightarrow> lock_free ev \<and> lock_free us"
  "lock_free (replicate j (EvWrite f bs c))"
  by (auto simp: lock_free_def list_all_iff)

lemma term_write_attempt_ok:
  assumes os: "errno_positive os" "transfer_bounded os" and len: "int (length bs) \<le> INT32_MAX"
    and run: "term_write_attempt os f flags nb bs tr = (r, tr')"
  shows "\<exists>ev. tr' = tr @ ev \<and> lock_free ev \<and> length (filter is_write_event ev) \<le> 17
     \<and> (\<forall>g. g \<noteq> f \<longrightarrow> accepted g ev = [])
     \<and> (0 \<le> r \<longrightarrow> (\<forall>fl. fd_flags fl ev = (if nb then fl else fl(f := flags)))
          \<and> accepted f ev = take (nat r) bs \<and> r \<le> int (length bs))"
proof -
  obtain j c tr1 ev2 where j: "j \<le> 16" and c: "c = os_write os tr1 f bs"
    and tr': "tr' = tr @ replicate j (EvWrite f bs (Inl EINTR)) @ EvWrite f bs c # ev2"
    and r: "if nb then ev2 = [] \<and> r = write_result c
        else \<exists>s tr2. s = os_setfl os tr2 f flags \<and> ev2 = [EvSetFl f flags s]
               \<and> r = (case s of Inl e \<Rightarrow> - e | Inr _ \<Rightarrow> write_result c)"
    using term_write_attempt_events [OF run] by blast
  let ?ev = "replicate j (EvWrite f bs (Inl EINTR)) @ EvWrite f bs c # ev2"
  have ev2: "(nb \<and> ev2 = [] \<and> r = write_result c) \<or>
    (\<not> nb \<and> (\<exists>s. ev2 = [EvSetFl f flags s] \<and> (0 \<le> r \<longrightarrow> s = Inr () \<and> r = write_result c)))"
  proof (cases nb)
    case False
    then obtain s tr2 where s: "s = os_setfl os tr2 f flags" "ev2 = [EvSetFl f flags s]"
      "r = (case s of Inl e \<Rightarrow> - e | Inr _ \<Rightarrow> write_result c)"
      using r by auto
    with False errno_positiveD(4) [OF os(1), of tr2 f flags] show ?thesis
      by (cases s) fastforce+
  qed (use r in auto)
  then have "lock_free ?ev" and "length (filter is_write_event ?ev) \<le> 17"
    and "\<forall>g. g \<noteq> f \<longrightarrow> accepted g ?ev = []"
    using j by (auto simp: event_simps split: sum.splits) (case_tac [!] c; simp)+
  moreover have "accepted f ?ev = take (nat r) bs \<and> r \<le> int (length bs)
      \<and> (\<forall>fl. fd_flags fl ?ev = (if nb then fl else fl(f := flags)))" if "0 \<le> r"
    using ev2 that write_result_accepted [OF os len c] by (auto simp: event_simps)
  ultimately show ?thesis
    using tr' by blast
qed


lemma set_clear_flag: "v AND O_NONBLOCK = 0 \<Longrightarrow> fl f = v \<Longrightarrow> (fl(f := v OR O_NONBLOCK))(f := v) = fl"
  by auto

lemma term_write_section_ok:
  assumes os: "errno_positive os" "transfer_bounded os" and len: "int (length bs) \<le> INT32_MAX"
    and rep: "getfl_reports f0 os"
    and run: "term_write_section os f bs tr = (r, tr')"
  shows "\<exists>ev. tr' = tr @ ev \<and> section_ok f0 f bs tr r ev"
proof (cases "os_getfl os tr f")
  case (Inl e)
  then have "r = - e" "tr' = tr @ [EvGetFl f (Inl e)]" "0 < e"
    using run errno_positiveD(3) [OF os(1)]
    by (auto simp: term_write_section_def call_defs)
  then show ?thesis
    by (intro exI [of _ "[EvGetFl f (Inl e)]"]) (simp add: section_ok_def event_simps)
next
  case (Inr v)
  let ?g = "EvGetFl f (Inr v)"
  have v: "fd_flags f0 tr f = v"
    using rep Inr by (simp add: getfl_reports_def)
  show ?thesis
  proof (cases "v AND O_NONBLOCK = 0")
    case True
    let ?s = "os_setfl os (tr @ [?g]) f (v OR O_NONBLOCK)"
    let ?sv = "EvSetFl f (v OR O_NONBLOCK) ?s"
    show ?thesis
    proof (cases ?s)
      case (Inl e)
      then have "r = - e" "tr' = tr @ [?g, ?sv]" "0 < e"
        using run \<open>os_getfl os tr f = Inr v\<close> True errno_positiveD(4) [OF os(1)]
        by (auto simp: term_write_section_def call_defs)
      then show ?thesis
        using Inl by (intro exI [of _ "[?g, ?sv]"]) (simp add: section_ok_def event_simps)
    next
      case (Inr u)
      then have "term_write_attempt os f v False bs (tr @ [?g, ?sv]) = (r, tr')"
        using run \<open>os_getfl os tr f = Inr v\<close> True
        by (simp add: term_write_section_def call_defs)
      from term_write_attempt_ok [OF os len this] obtain ev where
        "tr' = (tr @ [?g, ?sv]) @ ev" "lock_free ev" "length (filter is_write_event ev) \<le> 17"
        "\<forall>g. g \<noteq> f \<longrightarrow> accepted g ev = []"
        "0 \<le> r \<longrightarrow> (\<forall>fl. fd_flags fl ev = fl(f := v)) \<and> accepted f ev = take (nat r) bs
           \<and> r \<le> int (length bs)"
        by auto
      then show ?thesis
        using Inr v by (intro exI [of _ "[?g, ?sv] @ ev"])
          (auto simp: section_ok_def event_simps)
    qed
  next
    case False
    then have "term_write_attempt os f v True bs (tr @ [?g]) = (r, tr')"
      using run Inr by (simp add: term_write_section_def call_defs)
    from term_write_attempt_ok [OF os len this] obtain ev where
      "tr' = (tr @ [?g]) @ ev" "lock_free ev" "length (filter is_write_event ev) \<le> 17"
      "\<forall>g. g \<noteq> f \<longrightarrow> accepted g ev = []"
      "0 \<le> r \<longrightarrow> (\<forall>fl. fd_flags fl ev = fl) \<and> accepted f ev = take (nat r) bs
         \<and> r \<le> int (length bs)"
      by auto
    then show ?thesis
      by (intro exI [of _ "[?g] @ ev"]) (auto simp: section_ok_def event_simps)
  qed
qed

text \<open>One call: the check and the lock before the section, the unlock after it.\<close>

lemma adou_term_write_events:
  assumes os: "errno_positive os" "transfer_bounded os" and len: "len \<le> INT32_MAX"
    and rep: "getfl_reports f0 os"
    and run: "adou_term_write os fd0 buf len tr = (r, tr')"
  shows "(r < 0 \<and> tr' = tr) \<or> (\<exists>l. l \<noteq> 0 \<and> r < 0 \<and> tr' = tr @ [EvLock l]) \<or>
    (\<exists>r0 ev u. tr' = tr @ EvLock 0 # ev @ [EvUnlock u] \<and> (0 \<le> r \<longrightarrow> r0 = r)
       \<and> section_ok f0 (to_int32 fd0) (buf_bytes buf len) (tr @ [EvLock 0]) r0 ev)"
proof (cases "bad_buffer buf len \<or> os_lock os tr \<noteq> 0")
  case True
  then show ?thesis
    using run errno_positiveD(1) [OF os(1), of tr]
    by (auto simp: adou_term_write_def c_lock_def Let_def c_defs split: if_splits)
next
  case False
  let ?bs = "buf_bytes buf len"
  obtain r0 tr2 where sec: "term_write_section os (to_int32 fd0) ?bs (tr @ [EvLock 0]) = (r0, tr2)"
    by fastforce
  have "int (length ?bs) \<le> INT32_MAX"
    using len False by (auto simp: buf_bytes_def bad_buffer_def c_defs split: option.splits)
  from term_write_section_ok [OF os this rep sec] obtain ev where
    ev: "tr2 = (tr @ [EvLock 0]) @ ev"
      "section_ok f0 (to_int32 fd0) ?bs (tr @ [EvLock 0]) r0 ev" by blast
  have "term_write_done os r0 tr2 = (r, tr')"
    using run sec False by (simp add: adou_term_write_def c_lock_def)
  then have "tr' = tr2 @ [EvUnlock (os_unlock os tr2)]" "0 \<le> r \<longrightarrow> r0 = r"
    using errno_positiveD(2) [OF os(1), of tr2]
    by (auto simp: term_write_done_def c_unlock_def Let_def split: if_splits)
  with ev show ?thesis by auto
qed

lemma term_write_section_shape:
  assumes run: "term_write_section os f bs tr = (r, tr')"
  shows "\<exists>ev. tr' = tr @ ev \<and> lock_free ev \<and> length (filter is_write_event ev) \<le> 17"
proof -
  have att: "\<exists>ev. tr' = t @ ev \<and> lock_free ev \<and> length (filter is_write_event ev) \<le> 17"
    if a: "term_write_attempt os f flags nb bs t = (r, tr')" for flags nb t
  proof -
    obtain j c ev2 where j: "j \<le> 16"
      and t: "tr' = t @ replicate j (EvWrite f bs (Inl EINTR)) @ EvWrite f bs c # ev2"
      and ev2: "ev2 = [] \<or> (\<exists>s. ev2 = [EvSetFl f flags s])"
      using term_write_attempt_events [OF a] by (auto split: if_splits)
    with j show ?thesis
      by (intro exI [of _ "replicate j (EvWrite f bs (Inl EINTR)) @ EvWrite f bs c # ev2"])
        (auto simp: event_simps)
  qed
  obtain us where us: "lock_free us" "filter is_write_event us = []"
    and "tr' = tr @ us \<or> (\<exists>flags nb. term_write_attempt os f flags nb bs (tr @ us) = (r, tr'))"
  proof (cases "os_getfl os tr f")
    case (Inl e)
    then show thesis
      using run that [of "[EvGetFl f (Inl e)]"]
      by (simp add: term_write_section_def call_defs event_simps)
  next
    case (Inr v)
    let ?s = "os_setfl os (tr @ [EvGetFl f (Inr v)]) f (v OR O_NONBLOCK)"
    show thesis
      using run Inr that [of "[EvGetFl f (Inr v)]"]
        that [of "[EvGetFl f (Inr v), EvSetFl f (v OR O_NONBLOCK) ?s]"]
      by (auto simp: term_write_section_def call_defs event_simps split: sum.splits if_splits)
  qed
  then consider "tr' = tr @ us"
    | flags nb where "term_write_attempt os f flags nb bs (tr @ us) = (r, tr')" by blast
  then show ?thesis
  proof cases
    case 2
    from att [OF this] obtain ev where "tr' = (tr @ us) @ ev" "lock_free ev"
      "length (filter is_write_event ev) \<le> 17" by blast
    with us show ?thesis by (intro exI [of _ "us @ ev"]) (simp add: event_simps)
  qed (use us in auto)
qed

text \<open>
  C5. A call of adou_term_write with a bad buffer makes no system call and a failed lock makes
  no other; otherwise every call lies between one lock and one unlock of the write mutex, with
  no lock operation in between and at most 17 write attempts (the first and 16 EINTR retries).
\<close>

theorem term_write_bracketed:
  "if bad_buffer buf len then adou_term_write os fd0 buf len tr = (- EINVAL, tr)
   else if os_lock os tr \<noteq> 0
   then adou_term_write os fd0 buf len tr = (- os_lock os tr, tr @ [EvLock (os_lock os tr)])
   else \<exists>ev u. snd (adou_term_write os fd0 buf len tr) = tr @ EvLock 0 # ev @ [EvUnlock u]
     \<and> lock_free ev \<and> length (filter is_write_event ev) \<le> 17"
proof (cases "bad_buffer buf len \<or> os_lock os tr \<noteq> 0")
  case True
  then show ?thesis
    by (auto simp: adou_term_write_def c_lock_def Let_def)
next
  case False
  obtain r0 tr2 where
    sec: "term_write_section os (to_int32 fd0) (buf_bytes buf len) (tr @ [EvLock 0]) = (r0, tr2)"
    by fastforce
  with False have "snd (adou_term_write os fd0 buf len tr) = tr2 @ [EvUnlock (os_unlock os tr2)]"
    by (simp add: adou_term_write_def c_lock_def term_write_done_def c_unlock_def Let_def)
  with term_write_section_shape [OF sec] False show ?thesis by auto
qed

lemma adou_term_write_ok:
  assumes "errno_positive os" "transfer_bounded os" "getfl_reports f0 os" "len \<le> INT32_MAX"
    and "adou_term_write os fd0 buf len tr = (r, tr')" and "0 \<le> r"
  shows "fd_flags f0 tr' = fd_flags f0 tr \<and> r \<le> len
     \<and> accepted (to_int32 fd0) tr' = accepted (to_int32 fd0) tr @ take (nat r) (buf_bytes buf len)
     \<and> (\<forall>g. g \<noteq> to_int32 fd0 \<longrightarrow> accepted g tr' = accepted g tr)"
proof -
  let ?f = "to_int32 fd0"
  obtain ev u where tr': "tr' = tr @ EvLock 0 # ev @ [EvUnlock u]"
    and sec: "section_ok f0 ?f (buf_bytes buf len) (tr @ [EvLock 0]) r ev"
    using adou_term_write_events [OF assms(1,2,4,3,5)] \<open>0 \<le> r\<close> by auto
  have "int (length (buf_bytes buf len)) \<le> len" if "0 \<le> len"
    using that by (auto simp: buf_bytes_def split: option.splits)
  moreover have "0 \<le> len"
    using assms(5,6) by (auto simp: adou_term_write_def bad_buffer_def c_defs split: if_splits)
  ultimately show ?thesis
    using sec \<open>0 \<le> r\<close> by (auto simp: tr' section_ok_def event_simps)
qed

text \<open>
  C6. For lengths up to INT32_MAX, when adou_term_write returns a count, the status flags of
  every descriptor are what they were (O_NONBLOCK does not leak), the count is at most the
  length, exactly that prefix of the buffer reached the descriptor and no other descriptor
  received anything.
\<close>

theorem term_write_restores_flags_and_reports_bytes:
  assumes "errno_positive os" "transfer_bounded os" "getfl_reports f0 os" "len \<le> INT32_MAX"
    and "adou_term_write os fd0 buf len tr = (r, tr')" and "0 \<le> r"
  shows "fd_flags f0 tr' = fd_flags f0 tr \<and> r \<le> len
     \<and> accepted (to_int32 fd0) tr' = accepted (to_int32 fd0) tr @ take (nat r) (buf_bytes buf len)
     \<and> (\<forall>g. g \<noteq> to_int32 fd0 \<longrightarrow> accepted g tr' = accepted g tr)"
  using assms by (rule adou_term_write_ok)

text \<open>
  A kernel for the witnesses: every call succeeds, a write takes at most three bytes, a read
  delivers an escape sequence, and flags and attributes are those of the history.
\<close>

definition demo_termios :: termios where
  "demo_termios = \<lparr>c_iflag = 0x2b02, c_oflag = 0x3, c_cflag = 0x4b00, c_lflag = 0x5cb,
     c_cc = replicate 20 0\<rparr>"

definition demo_os :: term_os where
  "demo_os = \<lparr>
     os_lock = (\<lambda>tr. 0), os_unlock = (\<lambda>tr. 0),
     os_getfl = (\<lambda>tr f. Inr (fd_flags (\<lambda>_. 2) tr f)), os_setfl = (\<lambda>tr f v. Inr ()),
     os_write = (\<lambda>tr f bs. Inr (min 3 (length bs))),
     os_read = (\<lambda>tr f n. Inr (take n [27, 91, 65])),
     os_tcget = (\<lambda>tr f. Inr (tc_attr (\<lambda>_. demo_termios) tr f)), os_tcset = (\<lambda>tr f t. Inr ()),
     os_tcflush = (\<lambda>tr f. Inr ()), os_isatty = (\<lambda>tr f. 1), os_winsize = (\<lambda>tr f. Inr (40, 0))\<rparr>"

lemma demo_os_ok [simp]:
  "errno_positive demo_os" "transfer_bounded demo_os"
  "getfl_reports (\<lambda>_. 2) demo_os" "tcget_reports (\<lambda>_. demo_termios) demo_os"
  by (auto simp: demo_os_def errno_positive_def transfer_bounded_def getfl_reports_def
      tcget_reports_def)

theorem term_write_restores_flags_and_reports_bytes_witness:
  "fst (adou_term_write demo_os 1 (Some [104, 101, 108, 108, 111]) 5 []) = 3 \<and>
   accepted 1 (snd (adou_term_write demo_os 1 (Some [104, 101, 108, 108, 111]) 5 []))
     = [104, 101, 108]"
proof -
  let ?run = "adou_term_write demo_os 1 (Some [104, 101, 108, 108, 111]) 5 []"
  have r: "fst ?run = 3"
    by (simp add: demo_os_def adou_term_write_def bad_buffer_def term_write_section_def
        term_write_attempt_def term_write_loop.simps term_write_done_def write_result_def
        buf_bytes_def call_defs fd_flags_def c_defs)
  have "accepted (to_int32 1) (snd ?run) = accepted (to_int32 1) []
      @ take (nat (fst ?run)) (buf_bytes (Some [104, 101, 108, 108, 111]) 5)"
    using term_write_restores_flags_and_reports_bytes
      [OF demo_os_ok(1,2,3), of 5 1 "Some [104, 101, 108, 108, 111]" "[]"]
    by (simp add: r prod_eq_iff c_defs)
  with r show ?thesis by (simp add: buf_bytes_def accepted_simps)
qed

section \<open>Reads\<close>

text \<open>
  What one read did, read off its events: the answer it returns is the answer the kernel gave,
  and the status flags are back.
\<close>

definition read_outcome :: "(int \<Rightarrow> u32) \<Rightarrow> int \<Rightarrow> int \<Rightarrow> term_trace \<Rightarrow> int \<Rightarrow> byte list \<Rightarrow> term_trace \<Rightarrow> bool" where
  "read_outcome f0 f len tr r bs ev \<longleftrightarrow>
     (let c = (if r = -1 then Inl EAGAIN else if r = -2 then Inl EINTR else Inr bs) in
      EvRead f (nat len) c \<in> set ev \<and> fd_flags f0 (tr @ ev) = fd_flags f0 tr
      \<and> (0 \<le> r \<longrightarrow> r = int (length bs) \<and> r \<le> len) \<and> (r < 0 \<longrightarrow> r \<in> {-1, -2} \<and> bs = []))"

text \<open>
  The failures: the code is the error number of the call that failed, which is the first or the
  last change of the flags, or the read itself with an error number of its own.
\<close>

definition read_failure :: "(int \<Rightarrow> u32) \<Rightarrow> int \<Rightarrow> int \<Rightarrow> term_trace \<Rightarrow> int \<Rightarrow> term_trace \<Rightarrow> bool" where
  "read_failure f0 f len tr r ev \<longleftrightarrow>
     (\<exists>e. 0 < e \<and> r = - 1000000 - e \<and>
       (ev = [EvGetFl f (Inl e)] \<or>
        (\<exists>v. ev = [EvGetFl f (Inr v), EvSetFl f (v OR O_NONBLOCK) (Inl e)]) \<or>
        (\<exists>v c. ev = [EvGetFl f (Inr v), EvSetFl f (v OR O_NONBLOCK) (Inr ()), EvRead f (nat len) c,
           EvSetFl f v (Inl e)]) \<or>
        e \<notin> {EINTR, EAGAIN, EWOULDBLOCK} \<and> EvRead f (nat len) (Inl e) \<in> set ev \<and>
          fd_flags f0 (tr @ ev) = fd_flags f0 tr))"

lemma adou_term_read_cases:
  assumes os: "errno_positive os" "transfer_bounded os" "getfl_reports f0 os"
    and run: "adou_term_read os fd0 False len tr = (r, bs, tr')" and "0 \<le> len"
  shows "\<exists>ev. tr' = tr @ ev \<and>
    (read_outcome f0 (to_int32 fd0) len tr r bs ev \<or> read_failure f0 (to_int32 fd0) len tr r ev)"
proof -
  let ?f = "to_int32 fd0"
  have res: "0 \<le> read_result c \<and> read_result c = int (length (read_bytes c)) \<and>
        read_result c \<le> len \<and> c = Inr (read_bytes c)
      \<or> read_result c = -1 \<and> c = Inl EAGAIN \<and> read_bytes c = []
      \<or> read_result c = -2 \<and> c = Inl EINTR \<and> read_bytes c = []
      \<or> (\<exists>e. c = Inl e \<and> 0 < e \<and> e \<notin> {EINTR, EAGAIN, EWOULDBLOCK} \<and> read_result c = - 1000000 - e)" if c: "c = os_read os tr1 ?f (nat len)" for c tr1
  proof (cases c)
    case (Inl e)
    with c have "0 < e"
      using errno_positiveD(6) [OF os(1)] by metis
    with Inl show ?thesis
      by (auto simp: read_result_def read_bytes_def EWOULDBLOCK_def)
  next
    case (Inr d)
    with c have "length d \<le> nat len"
      using os(2) unfolding transfer_bounded_def by metis
    with Inr \<open>0 \<le> len\<close> show ?thesis
      by (simp add: read_result_def read_bytes_def)
  qed
  show ?thesis
  proof (cases "os_getfl os tr ?f")
    case (Inl e)
    then show ?thesis
      using run \<open>0 \<le> len\<close> errno_positiveD(3) [OF os(1)]
      by (auto simp: adou_term_read_def call_defs read_failure_def)
  next
    case (Inr v)
    let ?g = "EvGetFl ?f (Inr v)"
    have v: "fd_flags f0 tr ?f = v"
      using os(3) Inr by (simp add: getfl_reports_def)
    show ?thesis
    proof (cases "v AND O_NONBLOCK = 0")
      case False
      define c where "c = os_read os (tr @ [?g]) ?f (nat len)"
      have "r = read_result c" "bs = read_bytes c" "tr' = tr @ [?g, EvRead ?f (nat len) c]"
        using run Inr False \<open>0 \<le> len\<close>
        by (auto simp: adou_term_read_def call_defs c_def)
      with res [OF c_def] show ?thesis
        by (intro exI [of _ "[?g, EvRead ?f (nat len) c]"])
          (auto simp: read_outcome_def read_failure_def event_simps Let_def)
    next
      case True
      let ?sv = "EvSetFl ?f (v OR O_NONBLOCK) (os_setfl os (tr @ [?g]) ?f (v OR O_NONBLOCK))"
      define c where "c = os_read os (tr @ [?g, ?sv]) ?f (nat len)"
      let ?rd = "EvRead ?f (nat len) c"
      define s where "s = os_setfl os (tr @ [?g, ?sv, ?rd]) ?f v"
      show ?thesis
      proof (cases "isl (os_setfl os (tr @ [?g]) ?f (v OR O_NONBLOCK)) \<or> isl s")
        case True
        note fails = True
        show ?thesis
        proof (cases "os_setfl os (tr @ [?g]) ?f (v OR O_NONBLOCK)")
          case (Inl e)
          then have "tr' = tr @ [?g, EvSetFl ?f (v OR O_NONBLOCK) (Inl e)]" "r = - 1000000 - e"
            using run \<open>os_getfl os tr ?f = Inr v\<close> \<open>v AND O_NONBLOCK = 0\<close> \<open>0 \<le> len\<close>
            by (simp_all add: adou_term_read_def call_defs)
          then show ?thesis
            using errno_positiveD(4) [OF os(1) Inl] by (auto simp: read_failure_def)
        next
          case (Inr u)
          with fails obtain e where e: "s = Inl e" by (auto simp: isl_def)
          then have "tr' = tr @ [?g, EvSetFl ?f (v OR O_NONBLOCK) (Inr ()), ?rd, EvSetFl ?f v (Inl e)]" "r = - 1000000 - e"
            using run \<open>os_getfl os tr ?f = Inr v\<close> \<open>v AND O_NONBLOCK = 0\<close> \<open>0 \<le> len\<close> Inr
            by (simp_all add: adou_term_read_def call_defs c_def s_def)
          then show ?thesis
            using errno_positiveD(4) [OF os(1) e [unfolded s_def]] by (auto simp: read_failure_def)
        qed
      next
        case False
        then have "r = read_result c" "bs = read_bytes c"
          "tr' = tr @ [?g, ?sv, ?rd, EvSetFl ?f v s]"
          using run Inr True \<open>0 \<le> len\<close>
          by (auto simp: adou_term_read_def call_defs c_def s_def isl_def split: sum.splits)
        moreover have "os_setfl os (tr @ [?g]) ?f (v OR O_NONBLOCK) = Inr ()" "s = Inr ()"
          using False by (simp_all add: not_isl_unit)
        ultimately show ?thesis
          using res [OF c_def] v by (intro exI [of _ "[?g, ?sv, ?rd, EvSetFl ?f v s]"])
            (auto simp: read_outcome_def read_failure_def event_simps Let_def)
      qed
    qed
  qed
qed

lemma adou_term_read_ok:
  assumes os: "errno_positive os" "transfer_bounded os" "getfl_reports f0 os"
    and run: "adou_term_read os fd0 False len tr = (r, bs, tr')" and "0 \<le> len"
  shows "\<exists>ev. tr' = tr @ ev \<and>
    (read_outcome f0 (to_int32 fd0) len tr r bs ev \<or> r < - 1000000)"
  using adou_term_read_cases [OF assms] by (auto simp: read_failure_def)

text \<open>
  C7. adou_term_read returns the count and exactly the bytes of one read, -1 when that read
  failed with EAGAIN, -2 when it failed with EINTR, each with the status flags restored; any
  other result is -1000000 - e, where e is the error of the call that failed: reading,
  changing or restoring the flags, or a read whose error is neither EAGAIN, EWOULDBLOCK nor
  EINTR, after which the flags are restored too.
\<close>

theorem term_read_classifies:
  assumes os: "errno_positive os" "transfer_bounded os" "getfl_reports f0 os"
    and run: "adou_term_read os fd0 False len tr = (r, bs, tr')" and "0 \<le> len"
  shows "\<exists>ev. tr' = tr @ ev \<and>
    (read_outcome f0 (to_int32 fd0) len tr r bs ev \<or> read_failure f0 (to_int32 fd0) len tr r ev)"
  using assms by (rule adou_term_read_cases)


theorem term_read_classifies_witness:
  "\<exists>ev. snd (snd (adou_term_read demo_os 0 False 2 [])) = [] @ ev \<and>
     read_outcome (\<lambda>_. 2) 0 2 [] 2 [27, 91] ev"
proof -
  let ?run = "adou_term_read demo_os 0 False 2 []"
  have r: "fst ?run = 2" "fst (snd ?run) = [27, 91]"
    by (simp_all add: demo_os_def adou_term_read_def read_result_def read_bytes_def call_defs
        fd_flags_def c_defs)
  moreover have "\<not> read_failure f0 f len tr 2 ev" for f0 f len tr ev
    by (auto simp: read_failure_def)
  ultimately show ?thesis
    using term_read_classifies [OF demo_os_ok(1,2,3), of 0 2 "[]" 2 "[27, 91]" "snd (snd ?run)"]
    by (simp add: prod_eq_iff)
qed

section \<open>Raw mode\<close>

lemma make_raw_idem: "make_raw (make_raw t) = make_raw t"
  by (simp add: make_raw_def and.assoc list_update_swap c_defs)

text \<open>A successful entry of raw mode, by its events.\<close>

lemma enter_raw_success:
  assumes "\<not> active st" "adou_term_enter_raw os fd0 st tr = (0, st1, tr1)" "errno_positive os"
  shows "\<exists>t. os_tcget os tr (to_int32 fd0) = Inr t
    \<and> st1 = \<lparr>active = True, fd = to_int32 fd0, saved_termios = t\<rparr>
    \<and> (\<exists>u w. tr1 = tr @ [EvTcget (to_int32 fd0) (Inr t), EvTcflush (to_int32 fd0) u,
         EvTcset (to_int32 fd0) (make_raw t) (Inr ()), EvTcflush (to_int32 fd0) w])"
  using assms errno_positiveD(7-9) [OF assms(3)]
  by (cases st) (fastforce simp: adou_term_enter_raw_def enter_raw_calls_def call_defs
      split: sum.splits)

lemma restore_raw_success:
  assumes "active st" "fd st = to_int32 fd0" "adou_term_restore_raw os fd0 st tr = (0, st1, tr1)"
    and "errno_positive os"
  shows "st1 = st\<lparr>active := False, fd := -1\<rparr>
    \<and> (\<exists>u w. tr1 = tr @ [EvTcflush (to_int32 fd0) u,
         EvTcset (to_int32 fd0) (saved_termios st) (Inr ()), EvTcflush (to_int32 fd0) w])"
proof -
  let ?f = "to_int32 fd0"
  define f1 where "f1 = os_tcflush os tr ?f"
  define s where "s = os_tcset os (tr @ [EvTcflush ?f f1]) ?f (saved_termios st)"
  define f2 where
    "f2 = os_tcflush os (tr @ [EvTcflush ?f f1, EvTcset ?f (saved_termios st) s]) ?f"
  define code where "code = (case s of Inl e \<Rightarrow> (case f1 of Inl d \<Rightarrow> - d | Inr _ \<Rightarrow> - e)
    | Inr _ \<Rightarrow> (case f1 of Inl d \<Rightarrow> - d | Inr _ \<Rightarrow> 0))"
  have pos: "f1 = Inl e \<Longrightarrow> 0 < e" "s = Inl e \<Longrightarrow> 0 < e" "f2 = Inl e \<Longrightarrow> 0 < e" for e
    using errno_positiveD(8,9) [OF assms(4)] by (auto simp: f1_def s_def f2_def)
  have "adou_term_restore_raw os fd0 st tr =
     ((case f2 of Inl e \<Rightarrow> if code = 0 then - e else code | Inr _ \<Rightarrow> code),
      st\<lparr>active := False, fd := -1\<rparr>,
      tr @ [EvTcflush ?f f1, EvTcset ?f (saved_termios st) s, EvTcflush ?f f2])"
    using assms(1,2) pos(1)
    by (auto simp: adou_term_restore_raw_def call_defs code_def f1_def [symmetric]
        s_def [symmetric] f2_def [symmetric] split: sum.splits)
  with assms(3) have "st1 = st\<lparr>active := False, fd := -1\<rparr>" "code = 0"
    and tr1: "tr1 = tr @ [EvTcflush ?f f1, EvTcset ?f (saved_termios st) s, EvTcflush ?f f2]"
    using pos(3) by (auto split: sum.splits if_splits)
  moreover have "s = Inr ()"
    using \<open>code = 0\<close> pos(1,2) by (cases s; cases f1) (auto simp: code_def)
  ultimately show ?thesis by blast
qed

text \<open>
  Entering raw mode and restoring it, both successfully, leaves the terminal attributes of
  every descriptor as they were and the module inactive; in between the descriptor has the
  attributes make_raw computes.
\<close>

theorem raw_session_restores_attributes:
  assumes os: "errno_positive os" "tcget_reports a0 os" and "\<not> active st"
    and ent: "adou_term_enter_raw os fd0 st tr = (0, st1, tr1)"
    and res: "adou_term_restore_raw os fd0 st1 (tr1 @ mid) = (0, st2, tr2)"
  shows "tc_attr a0 tr1 (to_int32 fd0) = make_raw (tc_attr a0 tr (to_int32 fd0))
    \<and> tc_attr a0 tr2 (to_int32 fd0) = tc_attr a0 tr (to_int32 fd0)
    \<and> (\<forall>g. g \<noteq> to_int32 fd0 \<longrightarrow> tc_attr a0 tr2 g = tc_attr a0 (tr1 @ mid) g)
    \<and> \<not> active st2"
proof -
  let ?f = "to_int32 fd0"
  obtain t u w where t: "os_tcget os tr ?f = Inr t"
    and st1: "st1 = \<lparr>active = True, fd = ?f, saved_termios = t\<rparr>"
    and tr1: "tr1 = tr @ [EvTcget ?f (Inr t), EvTcflush ?f u,
       EvTcset ?f (make_raw t) (Inr ()), EvTcflush ?f w]"
    using enter_raw_success [OF assms(3) ent os(1)] by blast
  have "active st1" "fd st1 = ?f"
    by (simp_all add: st1)
  from restore_raw_success [OF this res os(1)] obtain u' w' where st2: "st2 = st1\<lparr>active := False, fd := -1\<rparr>"
    and tr2: "tr2 = (tr1 @ mid) @ [EvTcflush ?f u', EvTcset ?f (saved_termios st1) (Inr ()),
       EvTcflush ?f w']"
    by blast
  have "t = tc_attr a0 tr ?f"
    using os(2) t by (simp add: tcget_reports_def)
  then show ?thesis
    using st1 st2 by (simp add: tr2 tr1 tc_attr_def)
qed


theorem raw_session_restores_attributes_witness:
  "let (c1, st1, tr1) = adou_term_enter_raw demo_os 0 terminal_state [];
       (c2, st2, tr2) = adou_term_restore_raw demo_os 0 st1 (tr1 @ [])
   in c1 = 0 \<and> c2 = 0 \<and> tc_attr (\<lambda>_. demo_termios) tr1 0 = make_raw demo_termios
      \<and> tc_attr (\<lambda>_. demo_termios) tr2 0 = demo_termios \<and> \<not> active st2"
proof -
  obtain c1 st1 tr1 where ent: "adou_term_enter_raw demo_os 0 terminal_state [] = (c1, st1, tr1)"
    using prod_cases3 by blast
  obtain c2 st2 tr2 where res: "adou_term_restore_raw demo_os 0 st1 (tr1 @ []) = (c2, st2, tr2)"
    using prod_cases3 by blast
  have c: "c1 = 0" "c2 = 0"
    using ent res by (auto simp: demo_os_def adou_term_enter_raw_def enter_raw_calls_def
        adou_term_restore_raw_def terminal_state_def call_defs)
  have "\<not> active terminal_state"
    by (simp add: terminal_state_def)
  from raw_session_restores_attributes [OF demo_os_ok(1,4) this ent [unfolded c] res [unfolded c]]
  show ?thesis
    using c by (simp add: ent res tc_attr_def del: append_Nil2)
qed

text \<open>
  The calls in any order: every history that alternates entering and restoring raw mode on any
  descriptors, from the program's start.
\<close>

inductive raw_reach :: "term_os \<Rightarrow> terminal_state_t \<Rightarrow> term_trace \<Rightarrow> bool" for os where
  raw_start: "raw_reach os terminal_state []"
| raw_enter: "raw_reach os st tr \<Longrightarrow> adou_term_enter_raw os fd0 st tr = (r, st', tr') \<Longrightarrow>
    raw_reach os st' tr'"
| raw_restore: "raw_reach os st tr \<Longrightarrow> adou_term_restore_raw os fd0 st tr = (r, st', tr') \<Longrightarrow>
    raw_reach os st' tr'"

text \<open>The terminal accepts new attributes and input flushes.\<close>

definition attr_calls_succeed :: "term_os \<Rightarrow> bool" where
  "attr_calls_succeed os \<longleftrightarrow>
     (\<forall>tr f t. os_tcset os tr f t = Inr ()) \<and> (\<forall>tr f. os_tcflush os tr f = Inr ())"

definition one_raw_terminal :: "(int \<Rightarrow> termios) \<Rightarrow> terminal_state_t \<Rightarrow> term_trace \<Rightarrow> bool" where
  "one_raw_terminal a0 st tr \<longleftrightarrow>
     (if active st
      then saved_termios st = a0 (fd st) \<and> to_int32 (fd st) = fd st
         \<and> tc_attr a0 tr = a0(fd st := make_raw (a0 (fd st)))
      else fd st = -1 \<and> tc_attr a0 tr = a0)"

lemma to_int32_idem [simp]: "to_int32 (to_int32 x) = to_int32 x"
  using to_int32_range [of x] by simp

lemma restore_keeps_one_raw:
  assumes "attr_calls_succeed os" "one_raw_terminal a0 st tr"
    and "adou_term_restore_raw os fd0 st tr = (r, st', tr')"
  shows "one_raw_terminal a0 st' tr' \<and> (to_int32 fd0 = fd st \<longrightarrow> \<not> active st')"
  using assms
  by (auto simp: adou_term_restore_raw_def call_defs attr_calls_succeed_def one_raw_terminal_def
      event_simps split: if_splits)

lemma enter_calls_keep_one_raw:
  assumes "attr_calls_succeed os" "tcget_reports a0 os" "one_raw_terminal a0 st tr" "\<not> active st"
    and "enter_raw_calls os (to_int32 fd0) st tr = (r, st', tr')"
  shows "one_raw_terminal a0 st' tr'"
proof (cases "os_tcget os tr (to_int32 fd0)")
  case (Inr t)
  then have "t = tc_attr a0 tr (to_int32 fd0)"
    using assms(2) by (simp add: tcget_reports_def)
  with assms Inr show ?thesis
    by (auto simp: enter_raw_calls_def call_defs attr_calls_succeed_def one_raw_terminal_def
        event_simps)
qed (use assms in \<open>auto simp: enter_raw_calls_def call_defs one_raw_terminal_def event_simps\<close>)

text \<open>
  C8. After any sequence of enter and restore calls whose attribute calls succeed, every
  descriptor other than the active one has its original attributes, the active one has the raw
  attributes and its originals are saved: at most one terminal is raw.
\<close>

theorem at_most_one_raw_terminal:
  assumes "raw_reach os st tr" "attr_calls_succeed os" "tcget_reports a0 os"
  shows "one_raw_terminal a0 st tr"
  using assms(1)
proof (induction rule: raw_reach.induct)
  case raw_start
  show ?case by (simp add: one_raw_terminal_def terminal_state_def event_simps)
next
  case (raw_enter st tr fd0 r st' tr')
  show ?case
  proof (cases "active st \<and> fd st = to_int32 fd0")
    case True
    with raw_enter show ?thesis by (simp add: adou_term_enter_raw_def)
  next
    case False
    obtain r1 st1 tr1 where res: "adou_term_restore_raw os (fd st) st tr = (r1, st1, tr1)"
      using prod_cases3 by blast
    note one = restore_keeps_one_raw [OF assms(2) raw_enter.IH res]
    show ?thesis
    proof (cases "active st")
      case True
      with False raw_enter.hyps(2) res
      have "enter_raw_calls os (to_int32 fd0) st1 tr1 = (r, st', tr')"
        by (simp add: adou_term_enter_raw_def)
      moreover have "\<not> active st1"
        using one raw_enter.IH True by (simp add: one_raw_terminal_def)
      ultimately show ?thesis
        using one enter_calls_keep_one_raw [OF assms(2,3)] by blast
    next
      case False
      with raw_enter.hyps(2) have "enter_raw_calls os (to_int32 fd0) st tr = (r, st', tr')"
        by (simp add: adou_term_enter_raw_def)
      then show ?thesis
        using enter_calls_keep_one_raw [OF assms(2,3) raw_enter.IH False] by blast
    qed
  qed
next
  case (raw_restore st tr fd0 r st' tr')
  then show ?case using restore_keeps_one_raw [OF assms(2)] by blast
qed


theorem at_most_one_raw_terminal_witness:
  "\<exists>st tr. raw_reach demo_os st tr \<and> active st \<and> fd st = 1
     \<and> tc_attr (\<lambda>_. demo_termios) tr = (\<lambda>_. demo_termios)(1 := make_raw demo_termios)"
proof -
  obtain c st tr where ent: "adou_term_enter_raw demo_os 0 terminal_state [] = (c, st, tr)"
    using prod_cases3 by blast
  obtain c' st' tr' where ent': "adou_term_enter_raw demo_os 1 st tr = (c', st', tr')"
    using prod_cases3 by blast
  have reach: "raw_reach demo_os st' tr'"
    by (rule raw_enter [OF raw_enter [OF raw_start ent] ent'])
  have "attr_calls_succeed demo_os"
    by (simp add: attr_calls_succeed_def demo_os_def)
  from at_most_one_raw_terminal [OF reach this demo_os_ok(4)]
  have one: "one_raw_terminal (\<lambda>_. demo_termios) st' tr'" .
  have "active st'" "fd st' = 1"
    using ent ent' by (auto simp: demo_os_def adou_term_enter_raw_def enter_raw_calls_def
        adou_term_restore_raw_def terminal_state_def call_defs)
  with reach one show ?thesis
    unfolding one_raw_terminal_def by (intro exI [of _ st'] exI [of _ tr']) auto
qed

text \<open>
  When the second tcflush of adou_term_enter_raw fails, the call reports an error, the
  terminal keeps the raw attributes and the module stays inactive, so a following
  adou_term_restore_raw reports success without restoring anything.
\<close>

theorem enter_raw_late_failure_leaves_raw:
  assumes "\<not> active st" "adou_term_enter_raw os fd0 st tr = (r, st1, tr1)"
    and "os_tcget os tr (to_int32 fd0) = Inr t"
    and "last tr1 = EvTcflush (to_int32 fd0) (Inl e)" "EvTcset (to_int32 fd0) (make_raw t) (Inr ()) \<in> set (drop (length tr) tr1)"
  shows "r = - e \<and> tc_attr a0 tr1 (to_int32 fd0) = make_raw t \<and> \<not> active st1
    \<and> adou_term_restore_raw os fd0 st1 tr2 = (0, st1, tr2)"
  using assms
  by (auto simp: adou_term_enter_raw_def enter_raw_calls_def adou_term_restore_raw_def call_defs
      event_simps split: sum.splits)

definition late_failure_os :: term_os where
  "late_failure_os = demo_os\<lparr>os_tcflush := (\<lambda>tr f. if length tr < 3 then Inr () else Inl EIO)\<rparr>"

theorem enter_raw_late_failure_leaves_raw_witness:
  "let (r, st1, tr1) = adou_term_enter_raw late_failure_os 0 terminal_state []
   in r = - EIO \<and> tc_attr (\<lambda>_. demo_termios) tr1 0 = make_raw demo_termios
      \<and> adou_term_restore_raw late_failure_os 0 st1 tr1 = (0, st1, tr1)"
proof -
  let ?t = "make_raw demo_termios"
  let ?tr = "[EvTcget 0 (Inr demo_termios), EvTcflush 0 (Inr ()), EvTcset 0 ?t (Inr ()),
    EvTcflush 0 (Inl EIO)]"
  let ?st = "terminal_state\<lparr>saved_termios := demo_termios\<rparr>"
  have run: "adou_term_enter_raw late_failure_os 0 terminal_state [] = (- EIO, ?st, ?tr)"
    and get: "os_tcget late_failure_os [] (to_int32 0) = Inr demo_termios"
    by (simp_all add: late_failure_os_def demo_os_def adou_term_enter_raw_def
        enter_raw_calls_def terminal_state_def tc_attr_def call_defs)
  have "\<not> active terminal_state" by (simp add: terminal_state_def)
  from enter_raw_late_failure_leaves_raw [OF this run get, of EIO "\<lambda>_. demo_termios" ?tr]
  show ?thesis by (simp add: run)
qed

end
