(* ===== verification/Term_Client.thy ===== *)
theory Term_Client
  imports Term_Native
begin

text \<open>
  The terminal object of \<open>src/tui/term.n\<close>: the loops that drive the one-shot calls of
  \<open>native/term.c\<close> until a whole text is written or some input arrives, and the opening and
  restoring of the terminal. \<open>co.sleep\<close> only yields to other coroutines and the debug log is
  off by default; neither changes this state.
\<close>

section \<open>Data\<close>

definition bytes_of :: "string \<Rightarrow> byte list" where
  "bytes_of s = map of_char s"

definition ESC :: string where
  "ESC = [CHR 0x1B]"

definition STDIN :: int where "STDIN = 0"
definition STDOUT :: int where "STDOUT = 1"

definition KEYBOARD_PROTOCOL_ON :: "byte list" where
  "KEYBOARD_PROTOCOL_ON = bytes_of (ESC @ ''[>1u'')"
definition KEYBOARD_PROTOCOL_OFF :: "byte list" where
  "KEYBOARD_PROTOCOL_OFF = bytes_of (ESC @ ''[<u'')"
definition BRACKETED_PASTE_ON :: "byte list" where
  "BRACKETED_PASTE_ON = bytes_of (ESC @ ''[?2004h'')"
definition BRACKETED_PASTE_OFF :: "byte list" where
  "BRACKETED_PASTE_OFF = bytes_of (ESC @ ''[?2004l'')"
definition CURSOR_HIDE :: "byte list" where
  "CURSOR_HIDE = bytes_of (ESC @ ''[?25l'')"
definition CURSOR_SHOW :: "byte list" where
  "CURSOR_SHOW = bytes_of (ESC @ ''[?25h'')"

definition TERM_WRITE_RETRY_LIMIT :: nat where [c_defs]: "TERM_WRITE_RETRY_LIMIT = 400"
definition INPUT_EINTR_RETRY_LIMIT :: nat where [c_defs]: "INPUT_EINTR_RETRY_LIMIT = 100"
definition INPUT_READ_WOULD_BLOCK :: int where [c_defs]: "INPUT_READ_WOULD_BLOCK = -1"
definition INPUT_READ_INTERRUPTED :: int where [c_defs]: "INPUT_READ_INTERRUPTED = -2"

record terminal_t =
  input_fd :: int
  output_fd :: int
  is_active :: bool
  eof :: bool
  restored :: bool

text \<open>The errors the functions throw.\<close>

datatype term_error =
    NotATerminal
  | EnterRawFailed int
  | RestoreFailed int
  | SizeFailed int
  | ReadInterrupted
  | ReadFailed int
  | WriteNoProgress
  | WriteFailed int

section \<open>Writing a text\<close>

function terminal_write_loop ::
  "term_os \<Rightarrow> int \<Rightarrow> byte list \<Rightarrow> nat \<Rightarrow> nat \<Rightarrow> term_trace \<Rightarrow> (term_error + unit) \<times> term_trace" where
  "terminal_write_loop os output buf written stalled tr =
     (if written < length buf then
        (case adou_term_write os output (Some (drop written buf)) (int (length buf - written)) tr of
           (count, tr') \<Rightarrow>
             if count > 0 then terminal_write_loop os output buf (written + nat count) 0 tr'
             else if count = 0 then
               (if stalled + 1 > TERM_WRITE_RETRY_LIMIT then (Inl WriteNoProgress, tr')
                else terminal_write_loop os output buf written (stalled + 1) tr')
             else (Inl (WriteFailed count), tr'))
      else (Inr (), tr))"
  by pat_completeness auto
termination
  by (relation "measures [\<lambda>(os, out, buf, written, stalled, tr). length buf - written,
                          \<lambda>(os, out, buf, written, stalled, tr). 401 - stalled]")
    (auto simp: c_defs)

declare terminal_write_loop.simps [simp del]

definition terminal_write ::
  "term_os \<Rightarrow> terminal_t \<Rightarrow> byte list \<Rightarrow> term_trace \<Rightarrow> (term_error + unit) \<times> term_trace" where
  "terminal_write os self txt tr =
     (if txt = [] then (Inr (), tr) else terminal_write_loop os (output_fd self) txt 0 0 tr)"

section \<open>Reading\<close>

definition eintr_retry_allowed :: "nat \<Rightarrow> nat \<Rightarrow> bool" where
  "eintr_retry_allowed attempts lim \<longleftrightarrow> attempts < lim"

text \<open>
  The read loop waits as long as the kernel answers \<open>EAGAIN\<close>, so it may not return.
\<close>

partial_function (option) terminal_read_loop ::
  "term_os \<Rightarrow> int \<Rightarrow> nat \<Rightarrow> term_trace \<Rightarrow> ((term_error + byte list) \<times> term_trace) option" where
  "terminal_read_loop os input attempts tr =
     (case adou_term_read os input False 4096 tr of (count, bs, tr') \<Rightarrow>
        if count = INPUT_READ_WOULD_BLOCK then terminal_read_loop os input attempts tr'
        else if count = INPUT_READ_INTERRUPTED then
          (if eintr_retry_allowed attempts INPUT_EINTR_RETRY_LIMIT
           then terminal_read_loop os input (attempts + 1) tr'
           else Some (Inl ReadInterrupted, tr'))
        else if count < 0 then Some (Inl (ReadFailed count), tr')
        else Some (Inr (take (nat count) bs), tr'))"

text \<open>An empty result of the loop is the end of the input, recorded in \<open>eof\<close>.\<close>

definition terminal_read ::
  "term_os \<Rightarrow> terminal_t \<Rightarrow> term_trace \<Rightarrow>
     ((term_error + byte list) \<times> terminal_t \<times> term_trace) option" where
  "terminal_read os self tr =
     (if eof self then Some (Inr [], self, tr)
      else case terminal_read_loop os (input_fd self) 0 tr of
        None \<Rightarrow> None
      | Some (Inl err, tr') \<Rightarrow> Some (Inl err, self, tr')
      | Some (Inr bs, tr') \<Rightarrow> Some (Inr bs, (if bs = [] then self\<lparr>eof := True\<rparr> else self), tr'))"

section \<open>Opening and restoring\<close>

definition is_tty :: "term_os \<Rightarrow> int \<Rightarrow> term_trace \<Rightarrow> bool \<times> term_trace" where
  "is_tty os f tr = (case adou_term_is_tty os f tr of (r, tr') \<Rightarrow> (r \<noteq> 0, tr'))"

definition terminal_open ::
  "term_os \<Rightarrow> terminal_state_t \<Rightarrow> term_trace \<Rightarrow>
     (term_error + terminal_t) \<times> terminal_state_t \<times> term_trace" where
  "terminal_open os st tr =
     (case is_tty os STDIN tr of (in_tty, tr1) \<Rightarrow>
        if \<not> in_tty then (Inl NotATerminal, st, tr1)
        else case is_tty os STDOUT tr1 of (out_tty, tr2) \<Rightarrow>
          if \<not> out_tty then (Inl NotATerminal, st, tr2)
          else case adou_term_enter_raw os STDIN st tr2 of (code, st1, tr3) \<Rightarrow>
            if code \<noteq> 0 then (Inl (EnterRawFailed code), st1, tr3)
            else let terminal = \<lparr>input_fd = STDIN, output_fd = STDOUT, is_active = True,
                                 eof = False, restored = False\<rparr> in
              case terminal_write os terminal
                     (BRACKETED_PASTE_ON @ CURSOR_HIDE @ KEYBOARD_PROTOCOL_ON) tr3 of
                (Inl err, tr4) \<Rightarrow> (Inl err, st1, tr4)
              | (Inr _, tr4) \<Rightarrow> (Inr terminal, st1, tr4))"

definition terminal_restore ::
  "term_os \<Rightarrow> terminal_t \<Rightarrow> terminal_state_t \<Rightarrow> term_trace \<Rightarrow>
     (term_error + unit) \<times> terminal_t \<times> terminal_state_t \<times> term_trace" where
  "terminal_restore os self st tr =
     (if restored self then (Inr (), self, st, tr)
      else case terminal_write os self
                  (KEYBOARD_PROTOCOL_OFF @ BRACKETED_PASTE_OFF @ CURSOR_SHOW) tr of
        (Inl err, tr1) \<Rightarrow> (Inl err, self, st, tr1)
      | (Inr _, tr1) \<Rightarrow>
          (case adou_term_restore_raw os (input_fd self) st tr1 of (code, st1, tr2) \<Rightarrow>
             if code \<noteq> 0 then (Inl (RestoreFailed code), self, st1, tr2)
             else (Inr (), self\<lparr>restored := True, is_active := False\<rparr>, st1, tr2)))"

section \<open>Writing delivers the whole text\<close>

text \<open>
  What a run of the loop guarantees: a normal return means everything from \<open>written\<close> on was
  accepted; giving up on a stalled terminal means a proper prefix of it was.
\<close>

definition write_outcome ::
  "(int \<Rightarrow> u32) \<Rightarrow> int \<Rightarrow> byte list \<Rightarrow> term_trace \<Rightarrow> term_error + unit \<Rightarrow> term_trace \<Rightarrow> bool" where
  "write_outcome f0 f rest tr res tr' \<longleftrightarrow>
     (res = Inr () \<longrightarrow> fd_flags f0 tr' = fd_flags f0 tr \<and> accepted f tr' = accepted f tr @ rest) \<and>
     (res = Inl WriteNoProgress \<longrightarrow> fd_flags f0 tr' = fd_flags f0 tr \<and>
        (\<exists>k<length rest. accepted f tr' = accepted f tr @ take k rest))"

lemma write_outcome_step:
  assumes "write_outcome f0 f (drop n rest) tr1 res tr'" "n \<le> length rest"
    and "fd_flags f0 tr1 = fd_flags f0 tr" "accepted f tr1 = accepted f tr @ take n rest"
  shows "write_outcome f0 f rest tr res tr'"
proof -
  have "\<exists>k'<length rest. accepted f tr' = accepted f tr @ take k' rest"
    if "k < length (drop n rest)" "accepted f tr' = accepted f tr1 @ take k (drop n rest)" for k
    using that assms(2,4) by (intro exI [of _ "n + k"]) (simp add: take_add)
  then show ?thesis
    using assms unfolding write_outcome_def
    by (metis append.assoc append_take_drop_id)
qed

lemma terminal_write_loop_outcome:
  assumes os: "errno_positive os" "transfer_bounded os" "getfl_reports f0 os"
    and len: "int (length buf) \<le> INT32_MAX"
  shows "terminal_write_loop os out buf written stalled tr = (res, tr') \<Longrightarrow>
    write_outcome f0 (to_int32 out) (drop written buf) tr res tr'"
  using os len
proof (induction os out buf written stalled tr arbitrary: res tr' rule: terminal_write_loop.induct)
  case (1 os out buf written stalled tr)
  note unfold = terminal_write_loop.simps [of os out buf written stalled tr]
  show ?case
  proof (cases "written < length buf")
    case False
    with 1 show ?thesis by (auto simp: unfold write_outcome_def)
  next
    case True
    let ?rest = "drop written buf" and ?f = "to_int32 out"
    let ?len = "int (length buf - written)"
    obtain count tr1 where call: "adou_term_write os out (Some ?rest) ?len tr = (count, tr1)"
      by fastforce
    have "?len \<le> INT32_MAX" using "1.prems"(5) by simp
    note call_ok = adou_term_write_ok [OF "1.prems"(2-4) this call]
    have ok: "fd_flags f0 tr1 = fd_flags f0 tr" "count \<le> ?len"
      "accepted ?f tr1 = accepted ?f tr @ take (nat count) ?rest" if "0 \<le> count"
      using call_ok [OF that] by (auto simp: buf_bytes_def)
    consider (progress) "count > 0" | (stall) "count = 0" "stalled + 1 \<le> TERM_WRITE_RETRY_LIMIT"
      | (give_up) "count = 0" "stalled + 1 > TERM_WRITE_RETRY_LIMIT" | (fail) "count < 0"
      by linarith
    then show ?thesis
    proof cases
      case progress
      with "1.prems"(1) call True have
        loop: "terminal_write_loop os out buf (written + nat count) 0 tr1 = (res, tr')"
        by (simp add: unfold)
      note outcome = "1.IH"(1) [OF True call [symmetric] progress loop "1.prems"(2-5)]
      show ?thesis
        by (rule write_outcome_step [of _ _ "nat count" _ tr1])
          (use outcome ok progress in \<open>auto simp: add.commute\<close>)
    next
      case stall
      with "1.prems"(1) call True have
        loop: "terminal_write_loop os out buf written (stalled + 1) tr1 = (res, tr')"
        by (simp add: unfold)
      have "\<not> count > 0" "\<not> stalled + 1 > TERM_WRITE_RETRY_LIMIT" using stall by simp_all
      note outcome = "1.IH"(2) [OF True call [symmetric] this(1) stall(1) this(2) loop
          "1.prems"(2-5)]
      show ?thesis
        by (rule write_outcome_step [of _ _ 0 _ tr1])
          (use outcome ok stall in auto)
    next
      case give_up
      with "1.prems"(1) call True have "res = Inl WriteNoProgress" "tr' = tr1"
        by (simp_all add: unfold)
      with give_up ok True show ?thesis
        by (auto simp: write_outcome_def intro!: exI [of _ 0])
    next
      case fail
      with "1.prems"(1) call True have "res = Inl (WriteFailed count)"
        by (simp add: unfold)
      then show ?thesis by (simp add: write_outcome_def)
    qed
  qed
qed


text \<open>
  C9. The client write loop over adou_term_write always returns for texts up to INT32_MAX
  bytes; on success exactly the whole text was appended to the output descriptor, on the stall
  error a proper prefix of it, in both cases with the status flags as before; the only other
  result is the error code of a failed write.
\<close>

theorem terminal_write_delivers:
  assumes os: "errno_positive os" "transfer_bounded os" "getfl_reports f0 os"
    and len: "int (length txt) \<le> INT32_MAX"
    and run: "terminal_write os self txt tr = (res, tr')"
  shows "(res = Inr () \<longrightarrow>
      accepted (to_int32 (output_fd self)) tr' = accepted (to_int32 (output_fd self)) tr @ txt
      \<and> fd_flags f0 tr' = fd_flags f0 tr)
    \<and> (res = Inl WriteNoProgress \<longrightarrow> (\<exists>k<length txt.
        accepted (to_int32 (output_fd self)) tr'
          = accepted (to_int32 (output_fd self)) tr @ take k txt)
        \<and> fd_flags f0 tr' = fd_flags f0 tr)
    \<and> res \<in> {Inr (), Inl WriteNoProgress} \<union> range (\<lambda>c. Inl (WriteFailed c))"
proof -
  have range: "res \<in> {Inr (), Inl WriteNoProgress} \<union> range (\<lambda>c. Inl (WriteFailed c))"
    if "terminal_write_loop os out buf written stalled tr = (res, tr')"
    for out buf written stalled tr and res :: "term_error + unit"
    using that
  proof (induction os out buf written stalled tr rule: terminal_write_loop.induct)
    case (1 os out buf written stalled tr)
    then show ?case
      by (simp add: terminal_write_loop.simps [of os out buf written stalled tr]
          split: if_splits prod.splits)
        (auto split: if_splits)
  qed
  show ?thesis
  proof (cases "txt = []")
    case True
    with run show ?thesis by (auto simp: terminal_write_def)
  next
    case False
    with run have loop: "terminal_write_loop os (output_fd self) txt 0 0 tr = (res, tr')"
      by (simp add: terminal_write_def)
    from terminal_write_loop_outcome [OF os len loop] range [OF loop] show ?thesis
      by (auto simp: write_outcome_def)
  qed
qed

theorem terminal_write_delivers_witness:
  "let t = \<lparr>input_fd = 0, output_fd = 1, is_active = True, eof = False, restored = False\<rparr>;
       run = terminal_write demo_os t [104, 101, 108, 108, 111] []
   in fst run = Inr () \<and> accepted 1 (snd run) = [104, 101, 108, 108, 111]"
proof -
  let ?t = "\<lparr>input_fd = 0, output_fd = 1, is_active = True, eof = False, restored = False\<rparr>"
  let ?run = "terminal_write demo_os ?t [104, 101, 108, 108, 111] []"
  have "fst ?run = Inr ()"
    by (simp add: terminal_write_def terminal_write_loop.simps demo_os_def adou_term_write_def
        bad_buffer_def term_write_section_def term_write_attempt_def term_write_loop.simps
        term_write_done_def write_result_def buf_bytes_def call_defs fd_flags_def c_defs)
  moreover have "int (length [104, 101, 108, 108, 111 :: byte]) \<le> INT32_MAX"
    by (simp add: c_defs)
  from terminal_write_delivers [OF demo_os_ok(1,2,3) this, of ?t "[]" "fst ?run" "snd ?run"]
  have "fst ?run = Inr () \<longrightarrow> accepted 1 (snd ?run) = [104, 101, 108, 108, 111]"
    by (simp add: accepted_simps)
  ultimately show ?thesis by (simp add: Let_def)
qed

section \<open>Reading returns once input is ready\<close>

fun is_read_event :: "term_event \<Rightarrow> bool" where
  "is_read_event (EvRead _ _ _) = True"
| "is_read_event _ = False"

definition reads_made :: "term_trace \<Rightarrow> nat" where
  "reads_made tr = length (filter is_read_event tr)"

lemma reads_made_simps [event_simps]:
  "reads_made [] = 0"
  "reads_made (tr @ us) = reads_made tr + reads_made us"
  "reads_made (e # us) = (if is_read_event e then 1 else 0) + reads_made us"
  by (simp_all add: reads_made_def)

text \<open>From the \<open>N\<close>-th read on, the kernel has an answer other than \<open>EAGAIN\<close>.\<close>

definition ready_after :: "nat \<Rightarrow> term_os \<Rightarrow> bool" where
  "ready_after N os \<longleftrightarrow> (\<forall>tr f n e. N \<le> reads_made tr \<longrightarrow> os_read os tr f n = Inl e \<longrightarrow> e \<noteq> EAGAIN)"

lemma adou_term_read_waiting:
  assumes "adou_term_read os fd0 False 4096 tr = (r, bs, tr')" "r = -1 \<or> r = -2"
    and "errno_positive os"
  shows "reads_made tr' = reads_made tr + 1
    \<and> (r = -1 \<longrightarrow> (\<exists>tr1. reads_made tr1 = reads_made tr \<and> os_read os tr1 (to_int32 fd0) 4096 = Inl EAGAIN))"
proof -
  have pos: "\<And>tr f e. os_getfl os tr f = Inl e \<Longrightarrow> 0 < e" "\<And>tr f v e. os_setfl os tr f v = Inl e \<Longrightarrow> 0 < e"
    using errno_positiveD(3,4) [OF assms(3)] by blast+
  have rr: "os_read os t f n = Inl EAGAIN" if "read_result (os_read os t f n) = -1" for t f n
    using that errno_positiveD(6) [OF assms(3), of t f n]
    by (cases "os_read os t f n") (auto simp: read_result_def c_defs split: if_splits)
  let ?f = "to_int32 fd0"
  show ?thesis
  proof (cases "os_getfl os tr ?f")
    case (Inl e)
    with assms pos(1) show ?thesis by (fastforce simp: adou_term_read_def call_defs)
  next
    case (Inr v)
    let ?g = "EvGetFl ?f (Inr v)"
    let ?w = "v OR O_NONBLOCK"
    let ?s = "os_setfl os (tr @ [?g]) ?f ?w"
    consider (a) "v AND O_NONBLOCK \<noteq> 0" | (b) e where "v AND O_NONBLOCK = 0" "?s = Inl e"
      | (c) "v AND O_NONBLOCK = 0" "?s = Inr ()"
      by (cases ?s) auto
    then show ?thesis
    proof cases
      case a
      with assms Inr show ?thesis
        by (auto simp: adou_term_read_def call_defs event_simps dest!: rr
            intro!: exI [of _ "tr @ [?g]"])
    next
      case b
      with assms Inr pos(2) [OF b(2)] show ?thesis by (simp add: adou_term_read_def call_defs)
    next
      case c
      let ?t = "tr @ [?g, EvSetFl ?f ?w (Inr ())]"
      let ?c = "os_read os ?t ?f 4096"
      show ?thesis
      proof (cases "os_setfl os (?t @ [EvRead ?f 4096 ?c]) ?f v")
        case (Inl e)
        with assms \<open>os_getfl os tr ?f = Inr v\<close> c pos(2) [OF Inl] show ?thesis
          by (simp add: adou_term_read_def call_defs)
      next
        case (Inr u)
        with assms \<open>os_getfl os tr ?f = Inr v\<close> c show ?thesis
          by (auto simp: adou_term_read_def call_defs event_simps dest!: rr
              intro!: exI [of _ ?t])
      qed
    qed
  qed
qed

text \<open>The bytes a finished loop returns are those of one read of its history.\<close>

definition read_delivered ::
  "(int \<Rightarrow> u32) \<Rightarrow> int \<Rightarrow> term_trace \<Rightarrow> byte list \<Rightarrow> term_trace \<Rightarrow> bool" where
  "read_delivered f0 f tr bs tr' \<longleftrightarrow>
     (\<exists>ev. tr' = tr @ ev \<and> EvRead f 4096 (Inr bs) \<in> set ev) \<and> length bs \<le> 4096
     \<and> fd_flags f0 tr' = fd_flags f0 tr"

lemma terminal_read_loop_returns:
  assumes os: "errno_positive os" "transfer_bounded os" "getfl_reports f0 os" "ready_after N os"
  shows "\<exists>res tr'. terminal_read_loop os inp attempts tr = Some (res, tr')
     \<and> (\<forall>bs. res = Inr bs \<longrightarrow> read_delivered f0 (to_int32 inp) tr bs tr')"
proof (induction "(N - reads_made tr) + (101 - attempts)" arbitrary: attempts tr rule: less_induct)
  case less
  obtain r bs tr1 where call: "adou_term_read os inp False 4096 tr = (r, bs, tr1)"
    using prod_cases3 by blast
  let ?f = "to_int32 inp"
  note unfold = terminal_read_loop.simps [of os inp attempts tr]
  obtain ev where ev: "tr1 = tr @ ev" "read_outcome f0 ?f 4096 tr r bs ev \<or> r < - 1000000"
    using adou_term_read_ok [OF os(1-3) call] by auto
  have step: ?case if w: "r = -1 \<or> r = -2" "terminal_read_loop os inp attempts tr
      = terminal_read_loop os inp attempts' tr1" and
    m: "(N - reads_made tr1) + (101 - attempts') < (N - reads_made tr) + (101 - attempts)"
    for attempts'
  proof -
    obtain res tr' where loop: "terminal_read_loop os inp attempts' tr1 = Some (res, tr')"
      "\<forall>bs. res = Inr bs \<longrightarrow> read_delivered f0 ?f tr1 bs tr'"
      using less [OF m] by blast
    moreover have "fd_flags f0 tr1 = fd_flags f0 tr"
      using ev w(1) by (auto simp: read_outcome_def Let_def)
    ultimately show ?thesis
      using ev(1) w(2) by (fastforce simp: read_delivered_def)
  qed
  consider (block) "r = -1" | (intr) "r = -2" "attempts < 100" | (spent) "r = -2" "\<not> attempts < 100"
    | (fail) "r < 0" "r \<noteq> -1" "r \<noteq> -2" | (data) "0 \<le> r"
    by linarith
  then show ?case
  proof cases
    case block
    obtain tr2 where "reads_made tr2 = reads_made tr" "os_read os tr2 ?f 4096 = Inl EAGAIN"
      and reads: "reads_made tr1 = reads_made tr + 1"
      using adou_term_read_waiting [OF call _ os(1)] block by auto
    then have "reads_made tr < N"
      using os(4) unfolding ready_after_def by (metis not_less)
    with reads block call show ?thesis
      by (intro step [of attempts]) (simp_all add: unfold c_defs)
  next
    case intr
    have "reads_made tr1 = reads_made tr + 1"
      using adou_term_read_waiting [OF call _ os(1)] intr by auto
    with intr call show ?thesis
      by (intro step [of "attempts + 1"]) (auto simp: unfold c_defs eintr_retry_allowed_def)
  next
    case spent
    with call show ?thesis by (auto simp: unfold c_defs eintr_retry_allowed_def)
  next
    case fail
    with call show ?thesis by (auto simp: unfold c_defs)
  next
    case data
    with ev have "read_outcome f0 ?f 4096 tr r bs ev" by auto
    with data have "read_delivered f0 ?f tr bs tr1" "r = int (length bs)"
      using ev(1) by (auto simp: read_outcome_def read_delivered_def Let_def)
    with data call show ?thesis by (auto simp: unfold c_defs)
  qed
qed


text \<open>
  C10. When the kernel stops answering EAGAIN after some number of reads, the client read
  returns: with exactly the bytes of one kernel read (none meaning end of file, which is
  recorded), or with an error that leaves the terminal record unchanged.
\<close>

theorem terminal_read_returns:
  assumes os: "errno_positive os" "transfer_bounded os" "getfl_reports f0 os" "ready_after N os"
    and "\<not> eof self"
  shows "\<exists>res self' tr'. terminal_read os self tr = Some (res, self', tr')
    \<and> (\<forall>bs. res = Inr bs \<longrightarrow> read_delivered f0 (to_int32 (input_fd self)) tr bs tr'
         \<and> self' = self\<lparr>eof := (bs = [])\<rparr>)
    \<and> (\<forall>err. res = Inl err \<longrightarrow> self' = self)"
proof -
  from terminal_read_loop_returns [OF os, of "input_fd self" 0 tr] obtain res tr' where
    loop: "terminal_read_loop os (input_fd self) 0 tr = Some (res, tr')"
    and del: "\<forall>bs. res = Inr bs \<longrightarrow> read_delivered f0 (to_int32 (input_fd self)) tr bs tr'"
    by blast
  from loop del \<open>\<not> eof self\<close> show ?thesis
    by (cases res) (auto simp: terminal_read_def)
qed

text \<open>A keyboard that is silent for the first read and then delivers a key.\<close>

definition slow_keyboard :: term_os where
  "slow_keyboard = demo_os\<lparr>os_read := (\<lambda>tr f n.
     if reads_made tr = 0 then Inl EAGAIN else Inr (take n [27, 91, 65]))\<rparr>"

theorem terminal_read_returns_witness:
  "\<exists>res self' tr'. terminal_read slow_keyboard
       \<lparr>input_fd = 0, output_fd = 1, is_active = True, eof = False, restored = False\<rparr> []
     = Some (res, self', tr') \<and> res = Inr [27, 91, 65]"
proof -
  let ?t = "\<lparr>input_fd = 0, output_fd = 1, is_active = True, eof = False, restored = False\<rparr>"
  have ok: "errno_positive slow_keyboard" "transfer_bounded slow_keyboard"
    "getfl_reports (\<lambda>_. 2) slow_keyboard" "ready_after 1 slow_keyboard"
    by (auto simp: slow_keyboard_def demo_os_def errno_positive_def transfer_bounded_def
        getfl_reports_def ready_after_def c_defs split: if_splits)
  obtain res self' tr' where r: "terminal_read slow_keyboard ?t [] = Some (res, self', tr')"
    using terminal_read_returns [OF ok, of ?t "[]"] by auto
  moreover have "map_option fst (terminal_read slow_keyboard ?t []) = Some (Inr [27, 91, 65])"
    by (simp add: terminal_read_def terminal_read_loop.simps slow_keyboard_def demo_os_def
        adou_term_read_def call_defs read_result_def read_bytes_def reads_made_def fd_flags_def
        c_defs)
  ultimately show ?thesis by auto
qed

section \<open>A terminal session\<close>

lemma tc_attr_no_tcset:
  "list_all (\<lambda>e. case e of EvTcset _ _ _ \<Rightarrow> False | _ \<Rightarrow> True) ev \<Longrightarrow> tc_attr a0 ev = a0"
  by (induction ev arbitrary: a0) (auto simp: event_simps split: term_event.splits)

lemma adou_term_write_keeps_attr:
  assumes "adou_term_write os fd0 buf len tr = (r, tr')"
  shows "tc_attr a0 tr' = tc_attr a0 tr"
proof -
  have loop: "tc_attr a0 tr2 = tc_attr a0 tr1"
    if "term_write_loop os f bs 0 tr1 = (c, tr2)" for f bs tr1 c tr2
    using term_write_loop_events [OF that] by (auto simp: event_simps)
  have "tc_attr a0 tr2 = tc_attr a0 tr1"
    if "term_write_attempt os f v nb bs tr1 = (c, tr2)" for f v nb bs tr1 c tr2
    using that loop
    by (auto simp: term_write_attempt_def c_setfl_def Let_def event_simps
        split: prod.splits sum.splits if_splits)
  then have "tc_attr a0 tr2 = tc_attr a0 tr1"
    if "term_write_section os f bs tr1 = (c, tr2)" for f bs tr1 c tr2
    using that
    by (fastforce simp: term_write_section_def call_defs event_simps
        split: prod.splits sum.splits if_splits)
  with assms show ?thesis
    by (fastforce simp: adou_term_write_def term_write_done_def c_lock_def c_unlock_def Let_def
        event_simps split: prod.splits if_splits)
qed

lemma terminal_write_keeps_attr:
  assumes "terminal_write os self txt tr = (res, tr')"
  shows "tc_attr a0 tr' = tc_attr a0 tr"
proof -
  have "tc_attr a0 tr' = tc_attr a0 tr"
    if "terminal_write_loop os out buf written stalled tr = (res, tr')"
    for out buf written stalled tr
    using that
  proof (induction os out buf written stalled tr rule: terminal_write_loop.induct)
    case (1 os out buf written stalled tr)
    obtain count tr1 where call:
      "adou_term_write os out (Some (drop written buf)) (int (length buf - written)) tr = (count, tr1)"
      by fastforce
    note attr = adou_term_write_keeps_attr [OF this, of a0]
    show ?case
      using "1.prems" call attr "1.IH" [OF _ call [symmetric]]
      by (simp add: terminal_write_loop.simps [of os out buf written stalled tr] split: if_splits)
  qed
  with assms show ?thesis by (auto simp: terminal_write_def split: if_splits)
qed

text \<open>
  C11. A session that opens the terminal and restores it, both without an error, has the raw
  attributes of make_raw on stdin in between, leaves the attributes as they were, the native
  module inactive and the terminal record marked restored.
\<close>

theorem terminal_session_restores_terminal:
  assumes os: "errno_positive os" "tcget_reports a0 os" and "\<not> active st"
    and opn: "terminal_open os st tr = (Inr tml, st1, tr1)"
    and rst: "terminal_restore os (tml\<lparr>eof := e\<rparr>) st1 (tr1 @ mid) = (Inr (), tml2, st2, tr2)"
  shows "tc_attr a0 tr1 STDIN = make_raw (tc_attr a0 tr STDIN)
    \<and> tc_attr a0 tr2 STDIN = tc_attr a0 tr STDIN \<and> \<not> active st2 \<and> restored tml2"
proof -
  obtain tr0 tr' where ent: "adou_term_enter_raw os STDIN st tr0 = (0, st1, tr')"
    and attr0: "tc_attr a0 tr0 = tc_attr a0 tr"
    and attr1: "tc_attr a0 tr1 = tc_attr a0 tr'"
    and trm: "input_fd tml = STDIN" "restored tml = False"
  proof -
    obtain b1 u1 where i1: "is_tty os STDIN tr = (b1, u1)" by fastforce
    obtain b2 u2 where i2: "is_tty os STDOUT u1 = (b2, u2)" by fastforce
    obtain c st' u3 where e: "adou_term_enter_raw os STDIN st u2 = (c, st', u3)"
      using prod_cases3 by blast
    let ?tml = "\<lparr>input_fd = STDIN, output_fd = STDOUT, is_active = True, eof = False,
      restored = False\<rparr>"
    obtain r u4 where w: "terminal_write os ?tml
        (BRACKETED_PASTE_ON @ CURSOR_HIDE @ KEYBOARD_PROTOCOL_ON) u3 = (r, u4)" by fastforce
    have "tc_attr a0 u2 = tc_attr a0 tr"
      using i1 i2 by (auto simp: is_tty_def adou_term_is_tty_def Let_def event_simps)
    moreover have "c = 0" "st1 = st'" "tml = ?tml" "tr1 = u4"
      using opn by (auto simp: terminal_open_def i1 i2 e w split: if_splits sum.splits)
    ultimately show thesis
      using that e terminal_write_keeps_attr [OF w, of a0] by simp
  qed
  obtain t u w where t: "os_tcget os tr0 (to_int32 STDIN) = Inr t"
    and st1: "st1 = \<lparr>active = True, fd = to_int32 STDIN, saved_termios = t\<rparr>"
    and tr': "tr' = tr0 @ [EvTcget (to_int32 STDIN) (Inr t), EvTcflush (to_int32 STDIN) u,
       EvTcset (to_int32 STDIN) (make_raw t) (Inr ()), EvTcflush (to_int32 STDIN) w]"
    using enter_raw_success [OF assms(3) ent os(1)] by blast
  have tt: "t = tc_attr a0 tr STDIN"
  proof -
    have "t = tc_attr a0 tr0 (to_int32 STDIN)"
      using os(2) t unfolding tcget_reports_def by blast
    then show ?thesis by (simp add: attr0 STDIN_def)
  qed
  obtain tr3 where res: "adou_term_restore_raw os STDIN st1 tr3 = (0, st2, tr2)"
    and "restored tml2"
    using rst trm by (auto simp: terminal_restore_def split: prod.splits if_splits sum.splits)
  have "active st1" "fd st1 = to_int32 STDIN"
    by (simp_all add: st1)
  from restore_raw_success [OF this res os(1)] obtain u' w' where
    "st2 = st1\<lparr>active := False, fd := -1\<rparr>"
    and tr2: "tr2 = tr3 @ [EvTcflush (to_int32 STDIN) u',
       EvTcset (to_int32 STDIN) (saved_termios st1) (Inr ()), EvTcflush (to_int32 STDIN) w']"
    by blast
  then show ?thesis
    using \<open>restored tml2\<close> attr1 st1 tt by (simp add: tr' tr2 event_simps STDIN_def attr0)
qed

theorem terminal_session_restores_terminal_witness:
  "\<exists>tml st1 tr1 tml2 st2 tr2.
     terminal_open demo_os terminal_state [] = (Inr tml, st1, tr1)
     \<and> terminal_restore demo_os (tml\<lparr>eof := True\<rparr>) st1 (tr1 @ []) = (Inr (), tml2, st2, tr2)
     \<and> tc_attr (\<lambda>_. demo_termios) tr2 STDIN = demo_termios \<and> \<not> active st2"
proof -
  have "\<not> active terminal_state"
    by (simp add: terminal_state_def)
  obtain o1 st1 tr1 where opn: "terminal_open demo_os terminal_state [] = (o1, st1, tr1)"
    using prod_cases3 by blast
  note calls = adou_term_write_def bad_buffer_def term_write_section_def term_write_attempt_def
    term_write_loop.simps term_write_done_def write_result_def buf_bytes_def call_defs
    fd_flags_def c_defs bytes_of_def ESC_def STDIN_def STDOUT_def
  let ?tml = "\<lparr>input_fd = STDIN, output_fd = STDOUT, is_active = True, eof = False,
      restored = False\<rparr>"
  have o1: "o1 = Inr ?tml" "active st1" "fd st1 = 0" "fold fl_step tr1 (\<lambda>_. 2) 1 = 2"
    using opn by (auto simp: terminal_open_def is_tty_def adou_term_is_tty_def
        adou_term_enter_raw_def enter_raw_calls_def terminal_state_def terminal_write_def
        terminal_write_loop.simps demo_os_def calls BRACKETED_PASTE_ON_def CURSOR_HIDE_def
        KEYBOARD_PROTOCOL_ON_def)
  obtain r2 tml2 st2 tr2 where
    rst: "terminal_restore demo_os (?tml\<lparr>eof := True\<rparr>) st1 (tr1 @ []) = (r2, tml2, st2, tr2)"
    using prod_cases4 by blast
  have r2: "r2 = Inr ()"
    using rst o1(2-4) by (auto simp: terminal_restore_def adou_term_restore_raw_def
        terminal_write_def terminal_write_loop.simps demo_os_def calls BRACKETED_PASTE_OFF_def
        CURSOR_SHOW_def KEYBOARD_PROTOCOL_OFF_def)
  from terminal_session_restores_terminal [OF demo_os_ok(1,4) \<open>\<not> active terminal_state\<close>
      opn [unfolded o1] rst [unfolded r2]]
  show ?thesis
    using opn o1 rst r2 by (simp add: event_simps)
qed

end
