(* ===== verification/Auth_Store.thy ===== *)
theory Auth_Store
  imports Adou_Prelude
begin

text \<open>
  The credential store's file primitives, \<open>native/auth_store.c\<close>: an advisory lock file and the
  atomic replacement of a file (temporary file, write, fsync, rename, fsync of the directory).
  As in the terminal layer, the kernel is an arbitrary function of the history of calls, and the
  state of the file system is read off the history.
\<close>

section \<open>Calls\<close>

datatype open_kind = OpenLockFile | OpenNewTemporary | OpenDirectory

text \<open>
  The three ways the code calls \<open>open\<close>: \<open>O_CREAT|O_RDWR\<close>, \<open>O_WRONLY|O_CREAT|O_EXCL\<close> (both with
  mode 0600) and \<open>O_RDONLY\<close>. \<open>Inl e\<close> is a return value -1 with \<open>errno = e\<close>.
\<close>

datatype auth_event =
    AvOpen open_kind string "int + int"
  | AvFchmod int nat "int + unit"
  | AvSetLockWait int "int + unit"
  | AvSetUnlock int "int + unit"
  | AvClose int "int + unit"
  | AvWrite int "byte list" "int + nat"
  | AvFsync int "int + unit"
  | AvRename string string "int + unit"
  | AvUnlink string "int + unit"
  | AvMalloc nat bool
  | AvGetpid int

type_synonym auth_trace = "auth_event list"

record auth_os =
  ao_open :: "auth_trace \<Rightarrow> open_kind \<Rightarrow> string \<Rightarrow> int + int"
  ao_fchmod :: "auth_trace \<Rightarrow> int \<Rightarrow> nat \<Rightarrow> int + unit"
  ao_setlkw :: "auth_trace \<Rightarrow> int \<Rightarrow> int + unit"
  ao_setunlk :: "auth_trace \<Rightarrow> int \<Rightarrow> int + unit"
  ao_close :: "auth_trace \<Rightarrow> int \<Rightarrow> int + unit"
  ao_write :: "auth_trace \<Rightarrow> int \<Rightarrow> byte list \<Rightarrow> int + nat"
  ao_fsync :: "auth_trace \<Rightarrow> int \<Rightarrow> int + unit"
  ao_rename :: "auth_trace \<Rightarrow> string \<Rightarrow> string \<Rightarrow> int + unit"
  ao_unlink :: "auth_trace \<Rightarrow> string \<Rightarrow> int + unit"
  ao_malloc :: "auth_trace \<Rightarrow> nat \<Rightarrow> bool"
  ao_getpid :: "auth_trace \<Rightarrow> int"

definition a_open where
  "a_open os k p tr = (let r = ao_open os tr k p in (r, tr @ [AvOpen k p r]))"
definition a_fchmod where
  "a_fchmod os f m tr = (let r = ao_fchmod os tr f m in (r, tr @ [AvFchmod f m r]))"
definition a_setlkw where
  "a_setlkw os f tr = (let r = ao_setlkw os tr f in (r, tr @ [AvSetLockWait f r]))"
definition a_setunlk where
  "a_setunlk os f tr = (let r = ao_setunlk os tr f in (r, tr @ [AvSetUnlock f r]))"
definition a_close where
  "a_close os f tr = (let r = ao_close os tr f in (r, tr @ [AvClose f r]))"
definition a_write where
  "a_write os f bs tr = (let r = ao_write os tr f bs in (r, tr @ [AvWrite f bs r]))"
definition a_fsync where
  "a_fsync os f tr = (let r = ao_fsync os tr f in (r, tr @ [AvFsync f r]))"
definition a_rename where
  "a_rename os p q tr = (let r = ao_rename os tr p q in (r, tr @ [AvRename p q r]))"
definition a_unlink where
  "a_unlink os p tr = (let r = ao_unlink os tr p in (r, tr @ [AvUnlink p r]))"
definition a_malloc where
  "a_malloc os n tr = (let r = ao_malloc os tr n in (r, tr @ [AvMalloc n r]))"
definition a_getpid where
  "a_getpid os tr = (let r = ao_getpid os tr in (r, tr @ [AvGetpid r]))"

lemmas auth_calls = a_open_def a_fchmod_def a_setlkw_def a_setunlk_def a_close_def a_write_def
  a_fsync_def a_rename_def a_unlink_def a_malloc_def a_getpid_def Let_def

text \<open>The error number of a failing call, 0 for success.\<close>

fun err :: "int + 'a \<Rightarrow> int" where
  "err (Inl e) = e"
| "err (Inr _) = 0"

section \<open>The lock file\<close>

partial_function (option) auth_lock_wait ::
  "auth_os \<Rightarrow> int \<Rightarrow> auth_trace \<Rightarrow> (int \<times> auth_trace) option" where
  "auth_lock_wait os fd tr =
     (case a_setlkw os fd tr of
        (Inr _, tr1) \<Rightarrow> Some (fd, tr1)
      | (Inl e, tr1) \<Rightarrow>
          if e = EINTR then auth_lock_wait os fd tr1
          else (case a_close os fd tr1 of (_, tr2) \<Rightarrow> Some (- e, tr2)))"

definition adou_auth_lock :: "auth_os \<Rightarrow> string \<Rightarrow> auth_trace \<Rightarrow> (int \<times> auth_trace) option" where
  "adou_auth_lock os path tr =
     (case a_open os OpenLockFile path tr of
        (Inl e, tr1) \<Rightarrow> Some (- e, tr1)
      | (Inr fd, tr1) \<Rightarrow>
          (case a_fchmod os fd 0x180 tr1 of
             (Inl e, tr2) \<Rightarrow> (case a_close os fd tr2 of (_, tr3) \<Rightarrow> Some (- e, tr3))
           | (Inr _, tr2) \<Rightarrow> auth_lock_wait os fd tr2))"

definition adou_auth_unlock :: "auth_os \<Rightarrow> int \<Rightarrow> auth_trace \<Rightarrow> int \<times> auth_trace" where
  "adou_auth_unlock os fd tr =
     (case a_setunlk os fd tr of (result, tr1) \<Rightarrow>
        case a_close os fd tr1 of (closed, tr2) \<Rightarrow>
          let saved = err result;
              saved' = (if closed \<noteq> Inr () \<and> saved = 0 then err closed else saved)
          in (if saved' = 0 then 0 else - saved', tr2))"

section \<open>Atomic replacement\<close>

text \<open>\<open>strrchr(copy, '/')\<close>: the part of the path before its last slash.\<close>

fun before_last_slash :: "string \<Rightarrow> string option" where
  "before_last_slash [] = None"
| "before_last_slash (c # cs) =
     (case before_last_slash cs of
        Some d \<Rightarrow> Some (c # d)
      | None \<Rightarrow> if c = CHR ''/'' then Some [] else None)"

definition parent_directory :: "string \<Rightarrow> string option" where
  "parent_directory path =
     (case before_last_slash path of
        None \<Rightarrow> None
      | Some d \<Rightarrow> Some (if d = [] then ''/'' else d))"

definition fsync_parent :: "auth_os \<Rightarrow> string \<Rightarrow> auth_trace \<Rightarrow> int \<times> auth_trace" where
  "fsync_parent os path tr =
     (case a_malloc os (length path + 1) tr of (ok, tr1) \<Rightarrow>
        if \<not> ok then (ENOMEM, tr1)
        else case parent_directory path of
          None \<Rightarrow> (0, tr1)
        | Some d \<Rightarrow>
            (case a_open os OpenDirectory d tr1 of
               (Inl e, tr2) \<Rightarrow> (e, tr2)
             | (Inr fd, tr2) \<Rightarrow>
                 (case a_fsync os fd tr2 of (r, tr3) \<Rightarrow>
                  case a_close os fd tr3 of (_, tr4) \<Rightarrow> (err r, tr4))))"

text \<open>Decimal digits, as \<open>snprintf\<close> prints them.\<close>

fun digits_of :: "nat \<Rightarrow> string" where
  "digits_of n = (if n < 10 then [char_of (48 + n)]
     else digits_of (n div 10) @ [char_of (48 + n mod 10)])"

declare digits_of.simps [simp del]

definition int_digits :: "int \<Rightarrow> string" where
  "int_digits i = (if i < 0 then ''-'' @ digits_of (nat (- i)) else digits_of (nat i))"

definition temporary_name :: "string \<Rightarrow> int \<Rightarrow> nat \<Rightarrow> string" where
  "temporary_name path pid attempt =
     take (length path + 64 - 1)
       (path @ ''.tmp.'' @ int_digits pid @ ''.'' @ digits_of attempt)"

text \<open>The loop over the attempts; the answer of the last \<open>open\<close> and the name it was for.\<close>

function open_temporary ::
  "auth_os \<Rightarrow> string \<Rightarrow> nat \<Rightarrow> auth_trace \<Rightarrow> (int + int) \<times> string \<times> auth_trace" where
  "open_temporary os path attempt tr =
     (case a_getpid os tr of (pid, tr1) \<Rightarrow>
        let temporary = temporary_name path pid attempt in
        case a_open os OpenNewTemporary temporary tr1 of
          (Inr fd, tr2) \<Rightarrow> (Inr fd, temporary, tr2)
        | (Inl e, tr2) \<Rightarrow>
            if e = EEXIST \<and> attempt + 1 < 100 then open_temporary os path (attempt + 1) tr2
            else (Inl e, temporary, tr2))"
  by pat_completeness auto
termination
  by (relation "measure (\<lambda>(os, path, attempt, tr). 100 - attempt)") auto

declare open_temporary.simps [simp del]

text \<open>The write loop returns the error number of its failure, 0 when all bytes are written.\<close>

partial_function (option) write_all ::
  "auth_os \<Rightarrow> int \<Rightarrow> byte list \<Rightarrow> auth_trace \<Rightarrow> (int \<times> auth_trace) option" where
  "write_all os fd rest tr =
     (if rest = [] then Some (0, tr)
      else case a_write os fd rest tr of
        (Inl e, tr1) \<Rightarrow> if e = EINTR then write_all os fd rest tr1 else Some (e, tr1)
      | (Inr n, tr1) \<Rightarrow> if n = 0 then Some (EIO, tr1) else write_all os fd (drop n rest) tr1)"

text \<open>What follows the write loop: fsync, close, rename, fsync of the directory, clean-up.\<close>

definition finish_replace ::
  "auth_os \<Rightarrow> string \<Rightarrow> string \<Rightarrow> int \<Rightarrow> int \<Rightarrow> auth_trace \<Rightarrow> int \<times> auth_trace" where
  "finish_replace os path temporary fd result tr =
     (case (if result = 0 then (case a_fsync os fd tr of (r, t) \<Rightarrow> (err r, t)) else (result, tr)) of
        (result1, tr1) \<Rightarrow>
      case a_close os fd tr1 of (closed, tr2) \<Rightarrow>
      let result2 = (if closed \<noteq> Inr () \<and> result1 = 0 then err closed else result1) in
      case (if result2 = 0 then (case a_rename os temporary path tr2 of (r, t) \<Rightarrow> (err r, t))
            else (result2, tr2)) of (result3, tr3) \<Rightarrow>
      case (if result3 = 0 then fsync_parent os path tr3 else (result3, tr3)) of (result4, tr4) \<Rightarrow>
      let tr5 = (if result4 \<noteq> 0 then snd (a_unlink os temporary tr4) else tr4)
      in (if result4 = 0 then 0 else - result4, tr5))"

definition adou_auth_atomic_write ::
  "auth_os \<Rightarrow> string \<Rightarrow> byte list \<Rightarrow> int \<Rightarrow> auth_trace \<Rightarrow> (int \<times> auth_trace) option" where
  "adou_auth_atomic_write os path data len tr =
     (if len < 0 then Some (- EINVAL, tr)
      else case a_malloc os (length path + 64) tr of (ok, tr1) \<Rightarrow>
        if \<not> ok then Some (- ENOMEM, tr1)
        else case open_temporary os path 0 tr1 of
          (Inl e, temporary, tr2) \<Rightarrow> Some (- e, tr2)
        | (Inr fd, temporary, tr2) \<Rightarrow>
            (case write_all os fd (take (nat len) data) tr2 of
               None \<Rightarrow> None
             | Some (result, tr3) \<Rightarrow> Some (finish_replace os path temporary fd result tr3)))"


section \<open>The file system behind the history\<close>

text \<open>
  Names point to inodes, inodes hold bytes, open descriptors point to inodes. A directory
  opened for reading has no inode here; closing a descriptor detaches it whatever \<open>close\<close>
  answers.
\<close>

record auth_fs =
  fs_names :: "string \<Rightarrow> nat option"
  fs_data :: "nat \<Rightarrow> byte list"
  fs_fds :: "int \<Rightarrow> nat option"
  fs_next :: nat

fun fs_step :: "auth_event \<Rightarrow> auth_fs \<Rightarrow> auth_fs" where
  "fs_step (AvOpen OpenNewTemporary p (Inr fd)) fs =
     fs\<lparr>fs_names := (fs_names fs)(p := Some (fs_next fs)),
        fs_data := (fs_data fs)(fs_next fs := []),
        fs_fds := (fs_fds fs)(fd := Some (fs_next fs)), fs_next := fs_next fs + 1\<rparr>"
| "fs_step (AvOpen OpenLockFile p (Inr fd)) fs =
     (case fs_names fs p of
        Some i \<Rightarrow> fs\<lparr>fs_fds := (fs_fds fs)(fd := Some i)\<rparr>
      | None \<Rightarrow>
          fs\<lparr>fs_names := (fs_names fs)(p := Some (fs_next fs)),
             fs_data := (fs_data fs)(fs_next fs := []),
             fs_fds := (fs_fds fs)(fd := Some (fs_next fs)), fs_next := fs_next fs + 1\<rparr>)"
| "fs_step (AvOpen OpenDirectory p (Inr fd)) fs = fs\<lparr>fs_fds := (fs_fds fs)(fd := None)\<rparr>"
| "fs_step (AvWrite fd bs (Inr n)) fs =
     (case fs_fds fs fd of
        None \<Rightarrow> fs
      | Some i \<Rightarrow> fs\<lparr>fs_data := (fs_data fs)(i := fs_data fs i @ take n bs)\<rparr>)"
| "fs_step (AvClose fd r) fs = fs\<lparr>fs_fds := (fs_fds fs)(fd := None)\<rparr>"
| "fs_step (AvRename p q (Inr _)) fs =
     fs\<lparr>fs_names := (fs_names fs)(q := fs_names fs p, p := None)\<rparr>"
| "fs_step (AvUnlink p (Inr _)) fs = fs\<lparr>fs_names := (fs_names fs)(p := None)\<rparr>"
| "fs_step _ fs = fs"

definition fs_after :: "auth_fs \<Rightarrow> auth_trace \<Rightarrow> auth_fs" where
  "fs_after fs tr = fold fs_step tr fs"

text \<open>What a reader who opens a name now sees.\<close>

definition visible :: "auth_fs \<Rightarrow> string \<Rightarrow> byte list option" where
  "visible fs p = map_option (fs_data fs) (fs_names fs p)"

definition fs_wf :: "auth_fs \<Rightarrow> bool" where
  "fs_wf fs \<longleftrightarrow> (\<forall>p i. fs_names fs p = Some i \<longrightarrow> i < fs_next fs)"

text \<open>
  What the code relies on (POSIX): \<open>O_CREAT|O_EXCL\<close> succeeds only for a name that does not
  exist, a write takes at most what it was given, error numbers are positive.
\<close>

definition excl_creates :: "auth_fs \<Rightarrow> auth_os \<Rightarrow> bool" where
  "excl_creates fs0 os \<longleftrightarrow> (\<forall>tr p fd. ao_open os tr OpenNewTemporary p = Inr fd \<longrightarrow>
     0 \<le> fd \<and> fs_names (fs_after fs0 tr) p = None)"

definition auth_errnos :: "auth_os \<Rightarrow> bool" where
  "auth_errnos os \<longleftrightarrow>
     (\<forall>tr k p e. ao_open os tr k p = Inl e \<longrightarrow> 0 < e) \<and>
     (\<forall>tr k p f. ao_open os tr k p = Inr f \<longrightarrow> 0 \<le> f) \<and>
     (\<forall>tr f m e. ao_fchmod os tr f m = Inl e \<longrightarrow> 0 < e) \<and>
     (\<forall>tr f e. ao_setlkw os tr f = Inl e \<longrightarrow> 0 < e) \<and>
     (\<forall>tr f e. ao_setunlk os tr f = Inl e \<longrightarrow> 0 < e) \<and>
     (\<forall>tr f e. ao_close os tr f = Inl e \<longrightarrow> 0 < e) \<and>
     (\<forall>tr f bs e. ao_write os tr f bs = Inl e \<longrightarrow> 0 < e) \<and>
     (\<forall>tr f bs n. ao_write os tr f bs = Inr n \<longrightarrow> n \<le> length bs) \<and>
     (\<forall>tr f e. ao_fsync os tr f = Inl e \<longrightarrow> 0 < e) \<and>
     (\<forall>tr p q e. ao_rename os tr p q = Inl e \<longrightarrow> 0 < e)"

lemma auth_errnosD:
  assumes "auth_errnos os"
  shows "ao_open os tr k p = Inl e \<Longrightarrow> 0 < e" "ao_open os tr k p = Inr f \<Longrightarrow> 0 \<le> f"
    "ao_fchmod os tr f m = Inl e \<Longrightarrow> 0 < e" "ao_setlkw os tr f = Inl e \<Longrightarrow> 0 < e"
    "ao_setunlk os tr f = Inl e \<Longrightarrow> 0 < e" "ao_close os tr f = Inl e \<Longrightarrow> 0 < e"
    "ao_write os tr f bs = Inl e \<Longrightarrow> 0 < e" "ao_write os tr f bs = Inr n \<Longrightarrow> n \<le> length bs"
    "ao_fsync os tr f = Inl e \<Longrightarrow> 0 < e" "ao_rename os tr p q = Inl e \<Longrightarrow> 0 < e"
  by (use assms in \<open>simp_all add: auth_errnos_def\<close>)

text \<open>A property of every file-system state a run goes through.\<close>

fun stays :: "(auth_fs \<Rightarrow> bool) \<Rightarrow> auth_fs \<Rightarrow> auth_trace \<Rightarrow> bool" where
  "stays P fs [] = P fs"
| "stays P fs (e # es) = (P fs \<and> stays P (fs_step e fs) es)"

lemma fs_after_simps [event_simps]:
  "fs_after fs [] = fs"
  "fs_after fs (e # us) = fs_after (fs_step e fs) us"
  "fs_after fs (tr @ us) = fs_after (fs_after fs tr) us"
  by (simp_all add: fs_after_def)

lemma stays_append [event_simps]:
  "stays P fs (us @ vs) \<longleftrightarrow> stays P fs us \<and> stays P (fs_after fs us) vs"
proof (induction us arbitrary: fs)
  case Nil
  then show ?case by (cases vs) (auto simp: event_simps)
qed (simp add: event_simps)

lemma stays_mono: "stays P fs ev \<Longrightarrow> (\<And>s. P s \<Longrightarrow> Q s) \<Longrightarrow> stays Q fs ev"
  by (induction ev arbitrary: fs) auto

lemma stays_prefix: "stays P fs ev \<longleftrightarrow> (\<forall>k. P (fs_after fs (take k ev)))"
proof (induction ev arbitrary: fs)
  case (Cons e ev)
  have "(\<forall>k. P (fs_after fs (take k (e # ev)))) \<longleftrightarrow>
      P fs \<and> (\<forall>k. P (fs_after (fs_step e fs) (take k ev)))"
    by (metis (no_types, lifting) fs_after_simps(1,2) not0_implies_Suc take_0 take_Suc_Cons)
  with Cons show ?case by simp
qed (simp add: event_simps)

section \<open>The write loop\<close>

fun is_write_to :: "int \<Rightarrow> auth_event \<Rightarrow> bool" where
  "is_write_to fd (AvWrite f bs r) = (f = fd)"
| "is_write_to fd _ = False"

fun written_by :: "auth_event \<Rightarrow> byte list" where
  "written_by (AvWrite f bs (Inr n)) = take n bs"
| "written_by _ = []"

lemma write_all_events:
  assumes run: "write_all os fd rest tr = Some res"
  shows "\<exists>ev. snd res = tr @ ev \<and> list_all (is_write_to fd) ev
     \<and> (auth_errnos os \<longrightarrow> 0 \<le> fst res \<and> (fst res = 0 \<longrightarrow> concat (map written_by ev) = rest))"
proof (rule write_all.raw_induct [where P = "\<lambda>os fd rest tr res.
      \<exists>ev. snd res = tr @ ev \<and> list_all (is_write_to fd) ev
        \<and> (auth_errnos os \<longrightarrow> 0 \<le> fst res \<and> (fst res = 0 \<longrightarrow> concat (map written_by ev) = rest))", OF _ run])
  fix wr :: "auth_os \<Rightarrow> int \<Rightarrow> byte list \<Rightarrow> auth_trace \<Rightarrow> (int \<times> auth_trace) option"
    and os fd rest tr res
  assume IH: "\<And>os fd rest tr res. wr os fd rest tr = Some res \<Longrightarrow>
      \<exists>ev. snd res = tr @ ev \<and> list_all (is_write_to fd) ev
        \<and> (auth_errnos os \<longrightarrow> 0 \<le> fst res \<and> (fst res = 0 \<longrightarrow> concat (map written_by ev) = rest))"
  assume body: "(if rest = [] then Some (0, tr)
      else case a_write os fd rest tr of
        (Inl e, tr1) \<Rightarrow> if e = EINTR then wr os fd rest tr1 else Some (e, tr1)
      | (Inr n, tr1) \<Rightarrow> if n = 0 then Some (EIO, tr1) else wr os fd (drop n rest) tr1) = Some res"
  let ?w = "ao_write os tr fd rest"
  let ?goal = "\<lambda>rest' tr' ev. snd res = tr' @ ev \<and> list_all (is_write_to fd) ev
        \<and> (auth_errnos os \<longrightarrow> 0 \<le> fst res \<and> (fst res = 0 \<longrightarrow> concat (map written_by ev) = rest'))"
  consider (Nil) "rest = []" | (Eintr) "rest \<noteq> []" "?w = Inl EINTR"
    | (Fail) e where "rest \<noteq> []" "?w = Inl e" "e \<noteq> EINTR"
    | (Zero) "rest \<noteq> []" "?w = Inr 0" | (Some) n where "rest \<noteq> []" "?w = Inr n" "n \<noteq> 0"
    by (cases ?w) auto
  then show "\<exists>ev. ?goal rest tr ev"
  proof cases
    case Nil
    with body show ?thesis by (intro exI [of _ "[]"]) auto
  next
    case Eintr
    with body IH [of os fd rest "tr @ [AvWrite fd rest ?w]" res] obtain ev
      where "?goal rest (tr @ [AvWrite fd rest ?w]) ev" by (auto simp: a_write_def Let_def)
    with Eintr show ?thesis by (intro exI [of _ "AvWrite fd rest ?w # ev"]) simp
  next
    case Fail
    with body show ?thesis
      using auth_errnosD(7) [of os tr fd rest e]
      by (intro exI [of _ "[AvWrite fd rest ?w]"]) (auto simp: a_write_def Let_def)
  next
    case Zero
    with body show ?thesis
      by (intro exI [of _ "[AvWrite fd rest ?w]"]) (auto simp: a_write_def Let_def c_defs)
  next
    case (Some n)
    with body IH [of os fd "drop n rest" "tr @ [AvWrite fd rest ?w]" res] obtain ev
      where "?goal (drop n rest) (tr @ [AvWrite fd rest ?w]) ev"
      by (auto simp: a_write_def Let_def)
    with Some show ?thesis by (intro exI [of _ "AvWrite fd rest ?w # ev"]) auto
  qed
qed

text \<open>Writes to an open descriptor extend its inode and touch nothing else.\<close>

lemma fs_after_writes:
  assumes "list_all (is_write_to fd) ev" "fs_fds fs fd = Some i"
  shows "fs_after fs ev = fs\<lparr>fs_data := (fs_data fs)(i := fs_data fs i @ concat (map written_by ev))\<rparr>"
  using assms
proof (induction ev arbitrary: fs)
  case (Cons e ev)
  then obtain bs r where "e = AvWrite fd bs r" by (cases e) auto
  with Cons show ?case by (cases r) (auto simp: event_simps cong: if_cong)
qed (simp add: event_simps)

lemma stays_writes:
  assumes "list_all (is_write_to fd) ev" "fs_fds fs fd = Some i" "fs_names fs p \<noteq> Some i"
    and "visible fs p = v"
  shows "stays (\<lambda>s. visible s p = v) fs ev"
  using assms
proof (induction ev arbitrary: fs)
  case (Cons e ev)
  then obtain bs r where "e = AvWrite fd bs r" by (cases e) auto
  moreover have "visible (fs\<lparr>fs_data := (fs_data fs)(i := d)\<rparr>) p = v" for d
    using Cons.prems(3,4) by (cases "fs_names fs p") (auto simp: visible_def)
  ultimately show ?case using Cons by (cases r) auto
qed simp

section \<open>The temporary file\<close>

lemma before_last_slash_None: "before_last_slash cs = None \<longleftrightarrow> CHR ''/'' \<notin> set cs"
  by (induction cs) (auto split: option.splits)

lemma length_digits_of: "0 < k \<Longrightarrow> n < 10 ^ k \<Longrightarrow> length (digits_of n) \<le> k"
proof (induction k arbitrary: n)
  case (Suc k)
  show ?case
  proof (cases "n < 10")
    case True
    then show ?thesis by (simp add: digits_of.simps)
  next
    case False
    then have "0 < k" "n div 10 < 10 ^ k"
      using Suc.prems by (auto simp: div_less_iff_less_mult mult.commute intro: gr0I)
    with Suc.IH [of "n div 10"] False show ?thesis by (simp add: digits_of.simps [of n])
  qed
qed simp

text \<open>The buffer of \<open>strlen(path) + 64\<close> bytes holds every name the loop prints.\<close>

lemma temporary_name_fits:
  assumes "\<bar>pid\<bar> < 10 ^ 19" "attempt < 100"
  shows "temporary_name path pid attempt =
    path @ ''.tmp.'' @ int_digits pid @ ''.'' @ digits_of attempt"
proof -
  have "length (digits_of attempt) \<le> 2"
    using assms(2) by (intro length_digits_of) auto
  moreover have "length (int_digits pid) \<le> 20"
    using length_digits_of [of 19 "nat pid"] length_digits_of [of 19 "nat (- pid)"] assms(1)
    by (auto simp: int_digits_def nat_less_iff)
  ultimately show ?thesis by (simp add: temporary_name_def)
qed

lemma temporary_name_neq: "temporary_name path pid attempt \<noteq> path"
proof -
  have "length (temporary_name path pid attempt) > length path"
    by (simp add: temporary_name_def)
  then show ?thesis by auto
qed

text \<open>Events that leave the file system as it is.\<close>

fun inert :: "auth_event \<Rightarrow> bool" where
  "inert (AvGetpid _) = True"
| "inert (AvMalloc _ _) = True"
| "inert (AvOpen _ _ (Inl _)) = True"
| "inert _ = False"

lemma inert_run: "list_all inert ev \<Longrightarrow> fs_after fs ev = fs \<and> (stays P fs ev \<longleftrightarrow> P fs)"
proof (induction ev)
  case (Cons e ev)
  then show ?case by (cases e rule: inert.cases) (auto simp: event_simps)
qed (simp add: event_simps)

lemma open_temporary_events:
  "open_temporary os path attempt tr = (r, temporary, tr') \<Longrightarrow>
   \<exists>ev. tr' = tr @ ev @ [AvOpen OpenNewTemporary temporary r] \<and> temporary \<noteq> path
     \<and> list_all inert ev
     \<and> r = ao_open os (tr @ ev) OpenNewTemporary temporary"
proof (induction os path attempt tr arbitrary: r temporary tr' rule: open_temporary.induct)
  case (1 os path attempt tr)
  let ?pid = "ao_getpid os tr"
  let ?t = "temporary_name path ?pid attempt"
  let ?tr1 = "tr @ [AvGetpid ?pid]"
  let ?r = "ao_open os ?tr1 OpenNewTemporary ?t"
  let ?tr2 = "?tr1 @ [AvOpen OpenNewTemporary ?t ?r]"
  note unfold = open_temporary.simps [of os path attempt tr]
  show ?case
  proof (cases "\<exists>e. ?r = Inl e \<and> e = EEXIST \<and> attempt + 1 < 100")
    case True
    then have rec: "open_temporary os path (attempt + 1) ?tr2 = (r, temporary, tr')"
      using "1.prems" by (simp add: unfold a_getpid_def a_open_def Let_def)
    have "\<exists>ev. tr' = ?tr2 @ ev @ [AvOpen OpenNewTemporary temporary r] \<and> temporary \<noteq> path
     \<and> list_all inert ev
     \<and> r = ao_open os (?tr2 @ ev) OpenNewTemporary temporary"
      using True by (intro "1.IH" [OF _ refl _ _ _ rec]) (auto simp: a_getpid_def a_open_def Let_def)
    then obtain ev where "tr' = ?tr2 @ ev @ [AvOpen OpenNewTemporary temporary r]"
      "temporary \<noteq> path" "r = ao_open os (?tr2 @ ev) OpenNewTemporary temporary"
      "list_all inert ev"
      by blast
    with True show ?thesis
      by (intro exI [of _ "[AvGetpid ?pid, AvOpen OpenNewTemporary ?t ?r] @ ev"]) auto
  next
    case False
    then have "r = ?r" "temporary = ?t" "tr' = ?tr2"
      using "1.prems" by (auto simp: unfold a_getpid_def a_open_def Let_def
          split: sum.splits if_splits)
    then show ?thesis
      by (intro exI [of _ "[AvGetpid ?pid]"]) (simp add: temporary_name_neq)
  qed
qed


section \<open>Replacing the file\<close>

text \<open>Events that touch neither names nor contents.\<close>

fun quiet :: "auth_event \<Rightarrow> bool" where
  "quiet (AvOpen k p r) = (k = OpenDirectory \<or> isl r)"
| "quiet (AvWrite _ _ _) = False"
| "quiet (AvRename _ _ r) = isl r"
| "quiet (AvUnlink _ r) = isl r"
| "quiet _ = True"

lemma quiet_step: "quiet e \<Longrightarrow> fs_names (fs_step e fs) = fs_names fs \<and> fs_data (fs_step e fs) = fs_data fs"
  by (cases "(e, fs)" rule: fs_step.cases) auto

lemma quiet_run:
  assumes "list_all quiet ev"
  shows "fs_names (fs_after fs ev) = fs_names fs \<and> fs_data (fs_after fs ev) = fs_data fs
    \<and> (stays (\<lambda>s. Q (visible s p)) fs ev \<longleftrightarrow> Q (visible fs p))"
  using assms
proof (induction ev arbitrary: fs)
  case (Cons e ev)
  then have "visible (fs_step e fs) p = visible fs p"
    using quiet_step [of e fs] by (simp add: visible_def)
  with Cons quiet_step [of e fs] show ?case by (simp add: event_simps)
qed (simp add: event_simps)

lemma fsync_parent_events:
  "fsync_parent os path tr = (r, tr') \<Longrightarrow> \<exists>ev. tr' = tr @ ev \<and> list_all quiet ev"
  by (auto simp: fsync_parent_def auth_calls split: if_splits option.splits sum.splits)

text \<open>The state the write loop leaves: a complete or partial temporary file beside the target.\<close>

definition temp_ready :: "auth_fs \<Rightarrow> string \<Rightarrow> string \<Rightarrow> nat \<Rightarrow> bool" where
  "temp_ready fs path temporary i \<longleftrightarrow>
     temporary \<noteq> path \<and> fs_names fs temporary = Some i \<and> fs_names fs path \<noteq> Some i"

definition replaced :: "auth_fs \<Rightarrow> string \<Rightarrow> byte list \<Rightarrow> auth_trace \<Rightarrow> int \<Rightarrow> string \<Rightarrow> bool" where
  "replaced fs path new ev r temporary \<longleftrightarrow>
     stays (\<lambda>s. visible s path = visible fs path \<or> visible s path = Some new) fs ev
     \<and> (r = 0 \<longrightarrow> visible (fs_after fs ev) path = Some new \<and> fs_names (fs_after fs ev) temporary = None)"

lemma finish_replace_ok:
  assumes os: "auth_errnos os" and ready: "temp_ready fs path temporary i"
    and data: "result = 0 \<Longrightarrow> fs_data fs i = new" and "0 \<le> result"
    and run: "finish_replace os path temporary fd result tr = (r, tr')"
  shows "\<exists>ev. tr' = tr @ ev \<and> replaced fs path new ev r temporary"
proof -
  obtain ev1 result2 where ev1: "list_all quiet ev1"
    and data2: "result2 = 0 \<Longrightarrow> fs_data fs i = new" and "0 \<le> result2"
    and run2: "finish_replace os path temporary fd result tr =
      (case (if result2 = 0 then (case a_rename os temporary path (tr @ ev1) of (r, t) \<Rightarrow> (err r, t))
             else (result2, tr @ ev1)) of (result3, tr3) \<Rightarrow>
       case (if result3 = 0 then fsync_parent os path tr3 else (result3, tr3)) of (result4, tr4) \<Rightarrow>
       let tr5 = (if result4 \<noteq> 0 then snd (a_unlink os temporary tr4) else tr4)
       in (if result4 = 0 then 0 else - result4, tr5))"
  proof -
    define f ev res1 where "f = ao_fsync os tr fd"
      and "ev = (if result = 0 then [AvFsync fd f] else [])"
      and "res1 = (if result = 0 then err f else result)"
    define c where "c = ao_close os (tr @ ev) fd"
    define res2 where "res2 = (if c \<noteq> Inr () \<and> res1 = 0 then err c else res1)"
    have "res2 = 0 \<Longrightarrow> result = 0"
      by (cases "result = 0") (auto simp: res2_def res1_def)
    moreover have "0 \<le> res2"
      using \<open>0 \<le> result\<close> auth_errnosD(6) [OF os, of "tr @ ev" fd] auth_errnosD(9) [OF os, of tr fd]
      by (cases f; cases c) (auto simp: res2_def res1_def f_def c_def less_imp_le)
    moreover have
      "(if result = 0 then (case a_fsync os fd tr of (r, t) \<Rightarrow> (err r, t)) else (result, tr)) = (res1, tr @ ev)"
      by (simp add: a_fsync_def Let_def res1_def ev_def f_def)
    moreover have "list_all quiet (ev @ [AvClose fd c])"
      by (simp add: ev_def)
    moreover have "a_close os fd (tr @ ev) = (c, tr @ ev @ [AvClose fd c])"
      by (simp add: a_close_def c_def Let_def)
    ultimately show thesis
      using data by (intro that [of "ev @ [AvClose fd c]" res2])
        (simp_all add: finish_replace_def res2_def [symmetric])
  qed
  let ?fs = "fs_after fs ev1"
  have fs: "fs_names ?fs = fs_names fs" "fs_data ?fs = fs_data fs"
    using quiet_run [OF ev1] by auto
  have vis: "visible ?fs path = visible fs path"
    by (simp add: visible_def fs)
  let ?Q = "\<lambda>s. visible s path = visible fs path \<or> visible s path = Some new"
  have st1: "stays ?Q fs ev1"
    using quiet_run [OF ev1, of fs "\<lambda>v. v = visible fs path \<or> v = Some new" path] by simp
  have give_up: ?thesis if "r \<noteq> 0" "tr' = (tr @ ev1) @ q @ [AvUnlink temporary u]" "list_all quiet q"
    for q u
  proof -
    have q: "fs_names (fs_after ?fs q) = fs_names fs" "fs_data (fs_after ?fs q) = fs_data fs"
      "stays ?Q ?fs q"
      using quiet_run [OF that(3), of ?fs "\<lambda>v. v = visible fs path \<or> v = Some new" path] fs vis
      by simp_all
    have same: "visible (fs_after ?fs q) path = visible fs path"
      by (simp add: visible_def q(1,2))
    moreover have "visible (fs_step (AvUnlink temporary u) (fs_after ?fs q)) path
        = visible (fs_after ?fs q) path"
      using ready by (cases u) (auto simp: visible_def temp_ready_def)
    ultimately have "?Q (fs_step (AvUnlink temporary u) (fs_after ?fs q))" "?Q (fs_after ?fs q)"
      by simp_all
    then show ?thesis
      using st1 q that by (intro exI [of _ "ev1 @ q @ [AvUnlink temporary u]"])
        (simp add: replaced_def event_simps)
  qed
  consider (failed) "result2 \<noteq> 0" | (no_rename) e where "result2 = 0"
      "ao_rename os (tr @ ev1) temporary path = Inl e"
    | (renamed) "result2 = 0" "ao_rename os (tr @ ev1) temporary path = Inr ()"
    by (cases "ao_rename os (tr @ ev1) temporary path") auto
  then show ?thesis
  proof cases
    case failed
    then show ?thesis
      using run \<open>0 \<le> result2\<close>
      by (intro give_up [of "[]" "ao_unlink os (tr @ ev1) temporary"]) (auto simp: run2 auth_calls)
  next
    case no_rename
    let ?q = "[AvRename temporary path (Inl e)]"
    show ?thesis
      using run no_rename auth_errnosD(10) [OF os no_rename(2)]
      by (intro give_up [of ?q "ao_unlink os (tr @ ev1 @ ?q) temporary"])
        (auto simp: run2 auth_calls)
  next
    case renamed
    let ?ren = "AvRename temporary path (Inr ())"
    let ?fs2 = "fs_step ?ren ?fs"
    obtain r4 tr4 where par: "fsync_parent os path (tr @ ev1 @ [?ren]) = (r4, tr4)"
      by fastforce
    from fsync_parent_events [OF this] obtain ev2 where
      tr4: "tr4 = tr @ ev1 @ [?ren] @ ev2" and ev2: "list_all quiet ev2" by auto
    have vis2: "visible ?fs2 path = Some new" "fs_names ?fs2 temporary = None"
      using ready data2 renamed fs by (auto simp: visible_def temp_ready_def)
    let ?fs3 = "fs_after ?fs2 ev2"
    have fs3: "visible ?fs3 path = Some new" "fs_names ?fs3 temporary = None" "stays ?Q ?fs2 ev2"
      using quiet_run [OF ev2, of ?fs2 "\<lambda>v. v = visible fs path \<or> v = Some new" path] vis2
      by (simp_all add: visible_def)
    define u where "u = (if r4 = 0 then [] else [AvUnlink temporary (ao_unlink os tr4 temporary)])"
    have u: "visible (fs_after ?fs3 u) path = Some new" "fs_names (fs_after ?fs3 u) temporary = None"
      "stays ?Q ?fs3 u"
      using fs3 ready by (cases "ao_unlink os tr4 temporary";
          auto simp: u_def event_simps visible_def temp_ready_def)+
    have "tr' = tr @ (ev1 @ [?ren] @ ev2 @ u)"
      using run par renamed tr4 by (auto simp: run2 auth_calls u_def)
    then show ?thesis
      using st1 vis vis2 fs3 u by (intro exI [of _ "ev1 @ [?ren] @ ev2 @ u"])
        (simp add: replaced_def event_simps)
  qed
qed


lemma atomic_write_replaced:
  assumes os: "auth_errnos os" "excl_creates fs0 os" "fs_wf (fs_after fs0 tr)"
    and run: "adou_auth_atomic_write os path data len tr = Some (r, tr')"
  shows "\<exists>ev temporary. tr' = tr @ ev
    \<and> replaced (fs_after fs0 tr) path (take (nat len) data) ev r temporary \<and> (r = 0 \<longrightarrow> 0 \<le> len)"
proof -
  let ?fs = "fs_after fs0 tr" and ?m = "ao_malloc os tr (length path + 64)"
  let ?new = "take (nat len) data"
  let ?mal = "AvMalloc (length path + 64) ?m"
  show ?thesis
  proof (cases "len < 0 \<or> \<not> ?m")
    case True
    then have "r \<noteq> 0" "tr' = tr \<or> tr' = tr @ [?mal]"
      using run by (auto simp: adou_auth_atomic_write_def a_malloc_def Let_def c_defs
          split: if_splits)
    then show ?thesis
      by (auto simp: replaced_def event_simps intro: exI [of _ "[]"] exI [of _ "[?mal]"])
  next
    case False
    obtain o1 temporary tr2 where opn: "open_temporary os path 0 (tr @ [?mal]) = (o1, temporary, tr2)"
      using prod_cases3 by blast
    let ?op = "AvOpen OpenNewTemporary temporary o1"
    obtain ev0 where tr2: "tr2 = (tr @ [?mal]) @ ev0 @ [?op]" and "temporary \<noteq> path"
      and ev0: "list_all inert ev0"
      and o1: "o1 = ao_open os ((tr @ [?mal]) @ ev0) OpenNewTemporary temporary"
      using open_temporary_events [OF opn] by blast
    have in0: "list_all inert (?mal # ev0)"
      using ev0 by simp
    let ?Q = "\<lambda>s. visible s path = visible ?fs path \<or> visible s path = Some ?new"
    have fs1: "fs_after ?fs (?mal # ev0) = ?fs" "stays ?Q ?fs (?mal # ev0)"
      using inert_run [OF in0, of ?fs ?Q] by auto
    show ?thesis
    proof (cases o1)
      case (Inl e)
      then have "0 < e" "r = - e" "tr' = tr @ (?mal # ev0) @ [?op]"
        using run False opn o1 tr2 auth_errnosD(1) [OF os(1)]
        by (auto simp: adou_auth_atomic_write_def a_malloc_def Let_def)
      then show ?thesis
        using fs1 Inl by (intro exI [of _ "(?mal # ev0) @ [?op]"]) (simp add: replaced_def event_simps)
    next
      case (Inr fd)
      obtain result tr3 where wr: "write_all os fd ?new tr2 = Some (result, tr3)"
        and fin: "finish_replace os path temporary fd result tr3 = (r, tr')"
        using run False opn Inr
        by (auto simp: adou_auth_atomic_write_def a_malloc_def Let_def split: option.splits)
      obtain ev1 where tr3: "tr3 = tr2 @ ev1" and ev1: "list_all (is_write_to fd) ev1"
        and full: "result = 0 \<Longrightarrow> concat (map written_by ev1) = ?new"
        using write_all_events [OF wr] os(1) by auto
      let ?i = "fs_next ?fs" and ?fs2 = "fs_step ?op ?fs"
      let ?fs3 = "fs_after ?fs2 ev1"
      have "fs_names ?fs path \<noteq> Some ?i"
        using os(3) by (auto simp: fs_wf_def)
      then have fs2: "fs_names ?fs2 path = fs_names ?fs path" "fs_names ?fs2 path \<noteq> Some ?i"
        "fs_fds ?fs2 fd = Some ?i" "visible ?fs2 path = visible ?fs path"
        "fs_data ?fs2 ?i = []" "fs_names ?fs2 temporary = Some ?i"
        using Inr \<open>temporary \<noteq> path\<close> by (auto simp: visible_def intro!: map_option_cong)
      have fs3: "?fs3 = ?fs2\<lparr>fs_data := (fs_data ?fs2)(?i := concat (map written_by ev1))\<rparr>"
        using fs_after_writes [OF ev1 fs2(3)] fs2(5) by simp
      have vis3: "visible ?fs3 path = visible ?fs path"
        using fs2 by (cases "fs_names ?fs path") (auto simp: fs3 visible_def)
      have "temp_ready ?fs3 path temporary ?i"
        using fs2 \<open>temporary \<noteq> path\<close> by (simp add: fs3 temp_ready_def)
      moreover have "result = 0 \<Longrightarrow> fs_data ?fs3 ?i = ?new"
        using full by (simp add: fs3)
      moreover have "0 \<le> result"
        using write_all_events [OF wr] os(1) by auto
      ultimately obtain ev2 where tr': "tr' = tr3 @ ev2"
        and rep: "replaced ?fs3 path ?new ev2 r temporary"
        using finish_replace_ok [OF os(1) _ _ _ fin] by blast
      have "stays ?Q ?fs2 ev1"
        by (rule stays_mono [OF stays_writes [OF ev1 fs2(3) fs2(2) fs2(4)]]) simp
      then show ?thesis
        using tr' tr3 tr2 rep fs1 vis3 False
        by (intro exI [of _ "(?mal # ev0) @ [?op] @ ev1 @ ev2"] exI [of _ temporary])
          (auto simp: replaced_def event_simps)
    qed
  qed
qed

section \<open>Correctness of the replacement\<close>

text \<open>
  C1. At every moment of adou_auth_atomic_write the credential file reads either as before the
  call or as exactly the new data, never as a part of it, and when the call returns 0 it reads
  as the new data.
\<close>

theorem atomic_write_is_atomic:
  assumes "auth_errnos os" "excl_creates fs0 os" "fs_wf (fs_after fs0 tr)"
    and "adou_auth_atomic_write os path data len tr = Some (r, tr')"
  shows "\<exists>ev. tr' = tr @ ev \<and>
    (\<forall>k. visible (fs_after fs0 (tr @ take k ev)) path = visible (fs_after fs0 tr) path \<or>
         visible (fs_after fs0 (tr @ take k ev)) path = Some (take (nat len) data)) \<and>
    (r = 0 \<longrightarrow> visible (fs_after fs0 tr') path = Some (take (nat len) data))"
proof -
  obtain ev temporary where "tr' = tr @ ev"
    and "replaced (fs_after fs0 tr) path (take (nat len) data) ev r temporary"
    using atomic_write_replaced [OF assms] by blast
  then show ?thesis
    by (auto simp: replaced_def stays_prefix event_simps)
qed

text \<open>A file system with the old file, and a kernel that accepts two bytes at a time.\<close>

definition demo_fs :: auth_fs where
  "demo_fs = \<lparr>fs_names = (\<lambda>p. if p = ''d/a'' then Some 0 else None), fs_data = (\<lambda>_. [1]),
     fs_fds = (\<lambda>_. None), fs_next = 1\<rparr>"

fun next_fd :: "auth_trace \<Rightarrow> int" where
  "next_fd [] = 3"
| "next_fd (AvOpen _ _ (Inr fd) # es) = max (fd + 1) (next_fd es)"
| "next_fd (_ # es) = next_fd es"

lemma next_fd_pos: "3 \<le> next_fd tr"
  by (induction tr rule: next_fd.induct) auto

definition demo_auth_os :: auth_os where
  "demo_auth_os = \<lparr>
     ao_open = (\<lambda>tr k p. if k = OpenNewTemporary \<and> fs_names (fs_after demo_fs tr) p \<noteq> None
        then Inl EEXIST else Inr (next_fd tr)),
     ao_fchmod = (\<lambda>tr f m. Inr ()), ao_setlkw = (\<lambda>tr f. Inr ()), ao_setunlk = (\<lambda>tr f. Inr ()),
     ao_close = (\<lambda>tr f. Inr ()), ao_write = (\<lambda>tr f bs. Inr (min 2 (length bs))),
     ao_fsync = (\<lambda>tr f. Inr ()), ao_rename = (\<lambda>tr p q. Inr ()), ao_unlink = (\<lambda>tr p. Inr ()),
     ao_malloc = (\<lambda>tr n. True), ao_getpid = (\<lambda>tr. 42)\<rparr>"

lemma demo_auth_ok [simp]:
  "auth_errnos demo_auth_os" "excl_creates demo_fs demo_auth_os" "fs_wf (fs_after demo_fs [])"
  using next_fd_pos order_trans [of 0 3 "next_fd _"]
  by (auto simp: auth_errnos_def excl_creates_def demo_auth_os_def fs_wf_def demo_fs_def
      event_simps c_defs split: if_splits)

lemma digits_of_lt10: "n < 10 \<Longrightarrow> digits_of n = [char_of (48 + n)]"
  by (simp add: digits_of.simps)

lemma demo_temporary: "temporary_name ''d/a'' 42 0 = ''d/a.tmp.42.0''"
  by code_simp

theorem atomic_write_is_atomic_witness:
  "\<exists>r tr'. adou_auth_atomic_write demo_auth_os ''d/a'' [7, 8, 9] 3 [] = Some (r, tr') \<and> r = 0
     \<and> visible (fs_after demo_fs tr') ''d/a'' = Some [7, 8, 9]"
proof -
  have "map_option fst (adou_auth_atomic_write demo_auth_os ''d/a'' [7, 8, 9] 3 []) = Some 0"
    by (simp add: adou_auth_atomic_write_def finish_replace_def fsync_parent_def
        parent_directory_def open_temporary.simps write_all.simps demo_temporary demo_auth_os_def
        auth_calls demo_fs_def event_simps)
  then obtain tr' where
    run: "adou_auth_atomic_write demo_auth_os ''d/a'' [7, 8, 9] 3 [] = Some (0, tr')"
    by auto
  from atomic_write_is_atomic [OF demo_auth_ok(1,2,3) run]
  show ?thesis using run by (simp add: numeral_3_eq_3)
qed

text \<open>From the \<open>N\<close>-th call on, no call is interrupted.\<close>

definition signals_stop :: "nat \<Rightarrow> auth_os \<Rightarrow> bool" where
  "signals_stop N os \<longleftrightarrow> (\<forall>tr f bs. N \<le> length tr \<longrightarrow>
     ao_write os tr f bs \<noteq> Inl EINTR \<and> ao_setlkw os tr f \<noteq> Inl EINTR)"

lemma write_all_returns:
  assumes "signals_stop N os"
  shows "\<exists>res. write_all os fd rest tr = Some res"
proof (induction "length rest + (N - length tr)" arbitrary: rest tr rule: less_induct)
  case less
  let ?w = "ao_write os tr fd rest"
  have eintr: "length tr < N" if "?w = Inl EINTR"
    using assms that unfolding signals_stop_def by (metis not_less)
  show ?case
  proof (cases "rest = []")
    case False
    show ?thesis
    proof (cases ?w)
      case (Inl e)
      moreover have "e = EINTR \<Longrightarrow> \<exists>res. write_all os fd rest (tr @ [AvWrite fd rest ?w]) = Some res"
        using eintr Inl by (intro less) auto
      ultimately show ?thesis
        using False by (auto simp: write_all.simps [of os fd rest tr] a_write_def Let_def)
    next
      case (Inr n)
      moreover have "n \<noteq> 0 \<Longrightarrow>
          \<exists>res. write_all os fd (drop n rest) (tr @ [AvWrite fd rest ?w]) = Some res"
        using False by (intro less) (cases rest; auto)
      ultimately show ?thesis
        using False by (auto simp: write_all.simps [of os fd rest tr] a_write_def Let_def)
    qed
  qed (simp add: write_all.simps)
qed

lemma auth_lock_wait_returns:
  assumes "signals_stop N os"
  shows "\<exists>res. auth_lock_wait os fd tr = Some res"
proof (induction "N - length tr" arbitrary: tr rule: less_induct)
  case less
  let ?w = "ao_setlkw os tr fd"
  have eintr: "length tr < N" if "?w = Inl EINTR"
    using assms that unfolding signals_stop_def by (metis not_less)
  show ?case
  proof (cases ?w)
    case (Inl e)
    moreover have "e = EINTR \<Longrightarrow> \<exists>res. auth_lock_wait os fd (tr @ [AvSetLockWait fd ?w]) = Some res"
      using eintr Inl by (intro less) auto
    ultimately show ?thesis
      by (auto simp: auth_lock_wait.simps [of os fd tr] auth_calls)
  qed (simp add: auth_lock_wait.simps [of os fd tr] a_setlkw_def Let_def)
qed

lemma atomic_write_returns:
  assumes "signals_stop N os"
  shows "adou_auth_atomic_write os path data len tr \<noteq> None"
  using write_all_returns [OF assms]
  by (auto simp: adou_auth_atomic_write_def a_malloc_def Let_def
      split: sum.split prod.split option.split) (metis option.distinct(1))

text \<open>
  C3. When signals stop interrupting after some point of the history, adou_auth_lock and
  adou_auth_atomic_write return.
\<close>

theorem auth_calls_return:
  assumes "signals_stop N os"
  shows "(\<exists>res. adou_auth_lock os path tr = Some res)
    \<and> (\<exists>res. adou_auth_atomic_write os path data len tr = Some res)"
proof
  show "\<exists>res. adou_auth_lock os path tr = Some res"
    using auth_lock_wait_returns [OF assms]
    by (auto simp: adou_auth_lock_def auth_calls split: sum.splits)
  show "\<exists>res. adou_auth_atomic_write os path data len tr = Some res"
    using atomic_write_returns [OF assms] by blast
qed


theorem auth_calls_return_witness:
  "(\<exists>res. adou_auth_lock demo_auth_os ''d/lock'' [] = Some res)
    \<and> (\<exists>res. adou_auth_atomic_write demo_auth_os ''d/a'' [7, 8, 9] 3 [] = Some res)"
proof -
  have "signals_stop 0 demo_auth_os"
    by (simp add: signals_stop_def demo_auth_os_def)
  from auth_calls_return [OF this] show ?thesis by blast
qed

section \<open>Descriptors\<close>

text \<open>The descriptors the process holds open; a \<open>close\<close> releases its argument in any case.\<close>

fun fd_step :: "auth_event \<Rightarrow> int set \<Rightarrow> int set" where
  "fd_step (AvOpen _ _ (Inr fd)) s = insert fd s"
| "fd_step (AvClose fd _) s = s - {fd}"
| "fd_step _ s = s"

definition open_fds :: "int set \<Rightarrow> auth_trace \<Rightarrow> int set" where
  "open_fds s tr = fold fd_step tr s"

lemma open_fds_simps [event_simps]:
  "open_fds s [] = s"
  "open_fds s (e # us) = open_fds (fd_step e s) us"
  "open_fds s (tr @ us) = open_fds (open_fds s tr) us"
  by (simp_all add: open_fds_def)

text \<open>\<open>open\<close> returns a descriptor that is not in use.\<close>

definition open_fresh :: "int set \<Rightarrow> auth_os \<Rightarrow> bool" where
  "open_fresh s os \<longleftrightarrow> (\<forall>tr k p fd. ao_open os tr k p = Inr fd \<longrightarrow> fd \<notin> open_fds s tr)"

lemma auth_lock_wait_events:
  assumes run: "auth_lock_wait os fd tr = Some res"
  shows "\<exists>j. snd res = tr @ replicate j (AvSetLockWait fd (Inl EINTR)) @ [AvSetLockWait fd (Inr ())]
       \<and> fst res = fd
     \<or> (\<exists>e c tr1. snd res = tr @ replicate j (AvSetLockWait fd (Inl EINTR))
           @ [AvSetLockWait fd (Inl e), AvClose fd c]
         \<and> ao_setlkw os tr1 fd = Inl e \<and> fst res = - e)"
proof (rule auth_lock_wait.raw_induct [where P = "\<lambda>os fd tr res. \<exists>j.
       snd res = tr @ replicate j (AvSetLockWait fd (Inl EINTR)) @ [AvSetLockWait fd (Inr ())]
       \<and> fst res = fd
     \<or> (\<exists>e c tr1. snd res = tr @ replicate j (AvSetLockWait fd (Inl EINTR))
           @ [AvSetLockWait fd (Inl e), AvClose fd c]
         \<and> ao_setlkw os tr1 fd = Inl e \<and> fst res = - e)", OF _ run])
  fix wait :: "auth_os \<Rightarrow> int \<Rightarrow> auth_trace \<Rightarrow> (int \<times> auth_trace) option" and os fd tr res
  let ?P = "\<lambda>os fd tr res j.
       snd res = tr @ replicate j (AvSetLockWait fd (Inl EINTR)) @ [AvSetLockWait fd (Inr ())]
       \<and> fst res = fd
     \<or> (\<exists>e c tr1. snd res = tr @ replicate j (AvSetLockWait fd (Inl EINTR))
           @ [AvSetLockWait fd (Inl e), AvClose fd c]
         \<and> ao_setlkw os tr1 fd = Inl e \<and> fst res = - e)"
  assume IH: "\<And>os fd tr res. wait os fd tr = Some res \<Longrightarrow> \<exists>j. ?P os fd tr res j"
  assume body: "(case a_setlkw os fd tr of
        (Inr _, tr1) \<Rightarrow> Some (fd, tr1)
      | (Inl e, tr1) \<Rightarrow>
          if e = EINTR then wait os fd tr1
          else (case a_close os fd tr1 of (_, tr2) \<Rightarrow> Some (- e, tr2))) = Some res"
  consider (ok) "ao_setlkw os tr fd = Inr ()" | (again) "ao_setlkw os tr fd = Inl EINTR"
    | (bad) e where "ao_setlkw os tr fd = Inl e" "e \<noteq> EINTR"
    by (cases "ao_setlkw os tr fd") auto
  then show "\<exists>j. ?P os fd tr res j"
  proof cases
    case ok
    with body show ?thesis by (intro exI [of _ 0]) (auto simp: auth_calls)
  next
    case again
    with body have "wait os fd (tr @ [AvSetLockWait fd (Inl EINTR)]) = Some res"
      by (simp add: auth_calls)
    from IH [OF this] obtain j where "?P os fd (tr @ [AvSetLockWait fd (Inl EINTR)]) res j" ..
    then show ?thesis by (intro exI [of _ "Suc j"]) auto
  next
    case bad
    with body show ?thesis by - (rule exI [of _ 0], fastforce simp: auth_calls)
  qed
qed

lemma open_fds_replicate [event_simps]:
  "open_fds s (replicate j (AvSetLockWait fd r)) = s"
  by (induction j) (simp_all add: event_simps)

lemma open_fds_writes: "list_all (is_write_to fd) ev \<Longrightarrow> open_fds s ev = s"
proof (induction ev)
  case (Cons e ev)
  then show ?case by (cases e) (auto simp: event_simps)
qed (simp add: event_simps)

lemma open_fds_inert: "list_all inert ev \<Longrightarrow> open_fds s ev = s"
proof (induction ev)
  case (Cons e ev)
  then show ?case by (cases e rule: inert.cases) (auto simp: event_simps)
qed (simp add: event_simps)

text \<open>
  C4. A lock call that returns a descriptor opened it afresh, set its mode to 0600 and ended
  with the granted write lock on it, and the unlock call closes exactly that descriptor
  whatever it returns; a failed lock call leaves no descriptor open.
\<close>

theorem auth_lock_session:
  assumes os: "auth_errnos os" "open_fresh s os"
    and lock: "adou_auth_lock os path tr = Some (r, tr1)"
    and unlock: "adou_auth_unlock os r (tr1 @ mid) = (u, tr2)"
  shows "(0 \<le> r \<longrightarrow> open_fds s tr1 = insert r (open_fds s tr) \<and> r \<notin> open_fds s tr
      \<and> last tr1 = AvSetLockWait r (Inr ())
      \<and> AvFchmod r 0x180 (Inr ()) \<in> set (drop (length tr) tr1)
      \<and> open_fds s tr2 = open_fds s (tr1 @ mid) - {r})
    \<and> (r < 0 \<longrightarrow> open_fds s tr1 = open_fds s tr)"
proof -
  have un: "open_fds s tr2 = open_fds s (tr1 @ mid) - {r}"
    using unlock by (auto simp: adou_auth_unlock_def auth_calls event_simps)
  show ?thesis
  proof (cases "ao_open os tr OpenLockFile path")
    case (Inl e)
    then show ?thesis
      using lock auth_errnosD(1) [OF os(1) Inl] by (auto simp: adou_auth_lock_def auth_calls event_simps)
  next
    case (Inr fd)
    let ?op = "AvOpen OpenLockFile path (Inr fd)"
    let ?ch = "ao_fchmod os (tr @ [?op]) fd 0x180"
    have new: "fd \<notin> open_fds s tr" "0 \<le> fd"
      using os Inr auth_errnosD(2) by (auto simp: open_fresh_def)
    show ?thesis
    proof (cases ?ch)
      case chm: (Inl e)
      then show ?thesis
        using lock Inr new auth_errnosD(3) [OF os(1) chm]
        by (auto simp: adou_auth_lock_def auth_calls event_simps)
    next
      case chm: (Inr v)
      then have "auth_lock_wait os fd (tr @ [?op, AvFchmod fd 0x180 (Inr ())]) = Some (r, tr1)"
        using lock Inr by (simp add: adou_auth_lock_def auth_calls)
      from auth_lock_wait_events [OF this] obtain j where
        "tr1 = tr @ [?op, AvFchmod fd 0x180 (Inr ())] @ replicate j (AvSetLockWait fd (Inl EINTR))
             @ [AvSetLockWait fd (Inr ())] \<and> r = fd
         \<or> (\<exists>e c tr0. tr1 = tr @ [?op, AvFchmod fd 0x180 (Inr ())]
             @ replicate j (AvSetLockWait fd (Inl EINTR)) @ [AvSetLockWait fd (Inl e), AvClose fd c]
             \<and> ao_setlkw os tr0 fd = Inl e \<and> r = - e)"
        by auto
      then show ?thesis
      proof (elim disjE exE conjE)
        assume "tr1 = tr @ [?op, AvFchmod fd 0x180 (Inr ())]
          @ replicate j (AvSetLockWait fd (Inl EINTR)) @ [AvSetLockWait fd (Inr ())]" "r = fd"
        then show ?thesis using new un by (simp add: event_simps)
      next
        fix e c tr0
        assume "ao_setlkw os tr0 fd = Inl e" "r = - e" and
          tr1: "tr1 = tr @ [?op, AvFchmod fd 0x180 (Inr ())]
            @ replicate j (AvSetLockWait fd (Inl EINTR)) @ [AvSetLockWait fd (Inl e), AvClose fd c]"
        then have "r < 0" using auth_errnosD(4) [OF os(1)] by fastforce
        then show ?thesis using new by (simp add: tr1 event_simps)
      qed
    qed
  qed
qed


lemma open_fds_below: "fd \<in> open_fds s tr \<Longrightarrow> fd \<in> s \<or> fd < next_fd tr"
proof (induction tr arbitrary: s)
  case (Cons e tr)
  then show ?case by (cases "(e, s)" rule: fd_step.cases) (fastforce simp: event_simps)+
qed (simp add: event_simps)

lemma demo_auth_fresh: "open_fresh {} demo_auth_os"
  using open_fds_below [of _ "{}"]
  by (fastforce simp: open_fresh_def demo_auth_os_def split: if_splits)

theorem auth_lock_session_witness:
  "\<exists>r tr1 u tr2. adou_auth_lock demo_auth_os ''d/lock'' [] = Some (r, tr1) \<and> 0 \<le> r
     \<and> adou_auth_unlock demo_auth_os r (tr1 @ []) = (u, tr2)
     \<and> r \<in> open_fds {} tr1 \<and> last tr1 = AvSetLockWait r (Inr ()) \<and> r \<notin> open_fds {} tr2"
proof -
  obtain r tr1 where lock: "adou_auth_lock demo_auth_os ''d/lock'' [] = Some (r, tr1)" and "r = 3"
    by (simp add: adou_auth_lock_def auth_lock_wait.simps demo_auth_os_def auth_calls)
  obtain u tr2 where unlock: "adou_auth_unlock demo_auth_os r (tr1 @ []) = (u, tr2)"
    by fastforce
  from auth_lock_session [OF demo_auth_ok(1) demo_auth_fresh lock unlock] show ?thesis
    using lock unlock \<open>r = 3\<close> by auto
qed

section \<open>The replacement closes what it opens\<close>

lemma fsync_parent_fds:
  assumes "fsync_parent os path tr = (r, tr')" "open_fresh s os"
  shows "open_fds s tr' = open_fds s tr"
proof -
  have "fd \<notin> open_fds s tr1" if "ao_open os tr1 OpenDirectory d = Inr fd" for tr1 d fd
    using assms(2) that by (simp add: open_fresh_def)
  from this [of "tr @ [AvMalloc (length path + 1) True]"] assms(1) show ?thesis
    by (auto simp: fsync_parent_def auth_calls event_simps
        split: if_splits option.splits sum.splits)
qed

lemma finish_replace_fds:
  assumes "finish_replace os path temporary fd result tr = (r, tr')" "open_fresh s os"
  shows "open_fds s tr' = open_fds s tr - {fd}"
proof -
  have par: "open_fds s t' = open_fds s t" if "fsync_parent os path t = (c, t')" for t c t'
    using fsync_parent_fds [OF that assms(2)] .
  have un: "open_fds s (snd (a_unlink os temporary t)) = open_fds s t" for t
    by (simp add: auth_calls event_simps)
  show ?thesis
    using assms(1)
    by (auto simp: finish_replace_def a_fsync_def a_close_def a_rename_def Let_def event_simps un
        split: if_splits prod.splits dest!: par)
qed

text \<open>
  C2. On every path of adou_auth_atomic_write, errors included, the descriptors open after the
  call are those open before it.
\<close>

theorem atomic_write_closes_descriptors:
  assumes "open_fresh s os" and "adou_auth_atomic_write os path data len tr = Some (r, tr')"
  shows "open_fds s tr' = open_fds s tr"
proof (cases "len < 0 \<or> \<not> ao_malloc os tr (length path + 64)")
  case True
  then show ?thesis
    using assms(2) by (auto simp: adou_auth_atomic_write_def a_malloc_def Let_def event_simps
        split: if_splits)
next
  case False
  let ?mal = "AvMalloc (length path + 64) True"
  obtain o1 temporary tr2 where opn: "open_temporary os path 0 (tr @ [?mal]) = (o1, temporary, tr2)"
    using prod_cases3 by blast
  obtain ev0 where tr2: "tr2 = (tr @ [?mal]) @ ev0 @ [AvOpen OpenNewTemporary temporary o1]"
    and "list_all inert ev0"
    and o1: "o1 = ao_open os ((tr @ [?mal]) @ ev0) OpenNewTemporary temporary"
    using open_temporary_events [OF opn] by blast
  then have fds: "open_fds s ((tr @ [?mal]) @ ev0) = open_fds s tr"
    using open_fds_inert [of ev0] by (simp add: event_simps)
  show ?thesis
  proof (cases o1)
    case (Inl e)
    have "tr' = tr2"
      using assms(2) False opn Inl by (simp add: adou_auth_atomic_write_def a_malloc_def Let_def)
    then show ?thesis
      using fds Inl by (simp add: tr2 event_simps)
  next
    case (Inr fd)
    then have new: "fd \<notin> open_fds s tr"
      using assms(1) o1 fds unfolding open_fresh_def by metis
    obtain result tr3 where wr: "write_all os fd (take (nat len) data) tr2 = Some (result, tr3)"
      and fin: "finish_replace os path temporary fd result tr3 = (r, tr')"
      using assms(2) False opn Inr
      by (auto simp: adou_auth_atomic_write_def a_malloc_def Let_def split: option.splits)
    obtain ev1 where "tr3 = tr2 @ ev1" "list_all (is_write_to fd) ev1"
      using write_all_events [OF wr] by auto
    then have "open_fds s tr3 = insert fd (open_fds s tr)"
      using fds Inr open_fds_writes [of fd ev1] by (simp add: tr2 event_simps)
    with finish_replace_fds [OF fin assms(1)] new show ?thesis by simp
  qed
qed

theorem atomic_write_closes_descriptors_witness:
  "\<exists>r tr'. adou_auth_atomic_write demo_auth_os ''d/a'' [7, 8, 9] 3 [] = Some (r, tr')
     \<and> open_fds {} tr' = {}"
proof -
  let ?run = "adou_auth_atomic_write demo_auth_os ''d/a'' [7, 8, 9] 3 []"
  have "signals_stop 0 demo_auth_os"
    by (simp add: signals_stop_def demo_auth_os_def)
  then have "?run \<noteq> None"
    by (rule atomic_write_returns)
  then have run: "?run = Some (fst (the ?run), snd (the ?run))"
    by (simp del: not_None_eq)
  have "open_fds {} (snd (the ?run)) = {}"
    using atomic_write_closes_descriptors [OF demo_auth_fresh run] by (simp add: event_simps)
  with run show ?thesis by blast
qed

end
