(* ===== verification/Native_Helpers.thy ===== *)
theory Native_Helpers
  imports Adou_Prelude
begin

text \<open>
  The small native helpers of Adou: \<open>native/fs_watch.c\<close> (both the kqueue and the inotify
  variant), \<open>native/clipboard_image.c\<close>, \<open>native/stdin_peek.c\<close>, \<open>native/regex.c\<close> and
  \<open>native/process_group_helper.c\<close>. As in the other native components, the operating system is
  an arbitrary function of the history of calls; the descriptors and library handles a process
  holds are read off the history.
\<close>

section \<open>Calls\<close>

text \<open>
  \<open>NvAcquire\<close> is any call that yields a new descriptor: \<open>open\<close>, \<open>kqueue\<close>, \<open>inotify_init1\<close>.
  \<open>Inl e\<close> is a return value -1 with \<open>errno = e\<close>.
\<close>

datatype acquire_kind = OpenEvtOnly string | OpenTruncate string | Kqueue | InotifyInit

datatype native_event =
    NvAcquire acquire_kind "int + int"
  | NvRegister int int "int + unit"
  | NvWait int "int \<times> int" "int + nat"
  | NvAddWatch int string "int + int"
  | NvPoll int int "int + nat"
  | NvRead int
  | NvRmWatch int int
  | NvClose int "int + unit"
  | NvWrite int "byte list" "int + nat"
  | NvFchmod int nat "int + unit"
  | NvDlopen string bool
  | NvDlclose string

type_synonym native_trace = "native_event list"

record native_os =
  no_acquire :: "native_trace \<Rightarrow> acquire_kind \<Rightarrow> int + int"
  no_register :: "native_trace \<Rightarrow> int \<Rightarrow> int \<Rightarrow> int + unit"
  no_wait :: "native_trace \<Rightarrow> int \<Rightarrow> int \<times> int \<Rightarrow> int + nat"
  no_add_watch :: "native_trace \<Rightarrow> int \<Rightarrow> string \<Rightarrow> int + int"
  no_poll :: "native_trace \<Rightarrow> int \<Rightarrow> int \<Rightarrow> int + nat"
  no_close :: "native_trace \<Rightarrow> int \<Rightarrow> int + unit"
  no_write :: "native_trace \<Rightarrow> int \<Rightarrow> byte list \<Rightarrow> int + nat"
  no_fchmod :: "native_trace \<Rightarrow> int \<Rightarrow> nat \<Rightarrow> int + unit"
  no_dlopen :: "native_trace \<Rightarrow> string \<Rightarrow> bool"

definition nv_close :: "native_os \<Rightarrow> int \<Rightarrow> native_trace \<Rightarrow> (int + unit) \<times> native_trace" where
  "nv_close os fd tr = (let r = no_close os tr fd in (r, tr @ [NvClose fd r]))"

section \<open>fs\_watch.c\<close>

text \<open>The value returned for the answer of the final wait, and the test \<open>result > 0\<close>.\<close>

fun wait_result :: "int + nat \<Rightarrow> int" where
  "wait_result (Inr n) = (if n > 0 then 1 else 0)"
| "wait_result (Inl e) = - e"

fun is_positive :: "int + nat \<Rightarrow> bool" where
  "is_positive (Inr n) \<longleftrightarrow> n > 0"
| "is_positive (Inl e) \<longleftrightarrow> False"

definition watch_timespec :: "int \<Rightarrow> int \<times> int" where
  "watch_timespec timeout_ms = (timeout_ms div 1000, (timeout_ms mod 1000) * 1000000)"

text \<open>The two calls of \<open>close\<close>, in the code's order.\<close>

definition close_two :: "native_os \<Rightarrow> int \<Rightarrow> int \<Rightarrow> native_trace \<Rightarrow> native_trace" where
  "close_two os first second tr = snd (nv_close os second (snd (nv_close os first tr)))"

definition fs_watch_wait_kqueue ::
  "native_os \<Rightarrow> string option \<Rightarrow> int \<Rightarrow> native_trace \<Rightarrow> int \<times> native_trace" where
  "fs_watch_wait_kqueue os path timeout_ms tr =
     (case path of
        None \<Rightarrow> (- EINVAL, tr)
      | Some p \<Rightarrow>
          if timeout_ms < 0 then (- EINVAL, tr)
          else
            let a = no_acquire os tr (OpenEvtOnly p);
                tr1 = tr @ [NvAcquire (OpenEvtOnly p) a]
            in case a of
                 Inl e \<Rightarrow> (- e, tr1)
               | Inr fd \<Rightarrow>
                   let q = no_acquire os tr1 Kqueue; tr2 = tr1 @ [NvAcquire Kqueue q]
                   in case q of
                        Inl e \<Rightarrow> (- e, snd (nv_close os fd tr2))
                      | Inr queue \<Rightarrow>
                          let g = no_register os tr2 queue fd;
                              tr3 = tr2 @ [NvRegister queue fd g]
                          in case g of
                               Inl e \<Rightarrow> (- e, close_two os queue fd tr3)
                             | Inr _ \<Rightarrow>
                                 let w = no_wait os tr3 queue (watch_timespec timeout_ms);
                                     tr4 = tr3 @ [NvWait queue (watch_timespec timeout_ms) w]
                                 in (wait_result w, close_two os queue fd tr4))"

definition fs_watch_wait_inotify ::
  "native_os \<Rightarrow> string option \<Rightarrow> int \<Rightarrow> native_trace \<Rightarrow> int \<times> native_trace" where
  "fs_watch_wait_inotify os path timeout_ms tr =
     (case path of
        None \<Rightarrow> (- EINVAL, tr)
      | Some p \<Rightarrow>
          if timeout_ms < 0 then (- EINVAL, tr)
          else
            let a = no_acquire os tr InotifyInit; tr1 = tr @ [NvAcquire InotifyInit a]
            in case a of
                 Inl e \<Rightarrow> (- e, tr1)
               | Inr fd \<Rightarrow>
                   let w = no_add_watch os tr1 fd p; tr2 = tr1 @ [NvAddWatch fd p w]
                   in case w of
                        Inl e \<Rightarrow> (- e, snd (nv_close os fd tr2))
                      | Inr watch \<Rightarrow>
                          let result = no_poll os tr2 fd (to_int32 timeout_ms);
                              tr3 = tr2 @ [NvPoll fd (to_int32 timeout_ms) result];
                              tr4 = (if is_positive result then tr3 @ [NvRead fd] else tr3);
                              tr5 = tr4 @ [NvRmWatch fd watch]
                          in (wait_result result, snd (nv_close os fd tr5)))"

section \<open>clipboard\_image.c\<close>

text \<open>The write loop of \<open>write_all\<close>: \<open>Inl saved\<close> when it fails, after which the file is closed.\<close>

partial_function (option) clip_write_loop ::
  "native_os \<Rightarrow> int \<Rightarrow> byte list \<Rightarrow> native_trace \<Rightarrow> ((int + unit) \<times> native_trace) option" where
  "clip_write_loop os fd rest tr =
     (if rest = [] then Some (Inr (), tr)
      else
        let r = no_write os tr fd rest; tr1 = tr @ [NvWrite fd rest r]
        in case r of
             Inl e \<Rightarrow> if e = EINTR then clip_write_loop os fd rest tr1 else Some (Inl e, tr1)
           | Inr count \<Rightarrow>
               if count = 0 then Some (Inl EIO, tr1)
               else clip_write_loop os fd (drop count rest) tr1)"

definition clip_write_all ::
  "native_os \<Rightarrow> string \<Rightarrow> byte list \<Rightarrow> native_trace \<Rightarrow> (int \<times> native_trace) option" where
  "clip_write_all os path data tr =
     (let a = no_acquire os tr (OpenTruncate path);
          tr1 = tr @ [NvAcquire (OpenTruncate path) a]
      in case a of
           Inl e \<Rightarrow> Some (- e, tr1)
         | Inr fd \<Rightarrow>
             (case clip_write_loop os fd data tr1 of
                None \<Rightarrow> None
              | Some (Inl saved, tr2) \<Rightarrow> Some (- saved, snd (nv_close os fd tr2))
              | Some (Inr _, tr2) \<Rightarrow>
                  let c = no_fchmod os tr2 fd 0x180; tr3 = tr2 @ [NvFchmod fd 0x180 c]
                  in case c of
                       Inl saved \<Rightarrow> Some (- saved, snd (nv_close os fd tr3))
                     | Inr _ \<Rightarrow>
                         (case nv_close os fd tr3 of
                            (Inl e, tr4) \<Rightarrow> Some (- e, tr4)
                          | (Inr _, tr4) \<Rightarrow> Some (1, tr4))))"

text \<open>
  What the Objective-C runtime answers: whether its entry points and the two classes resolve,
  and the data object the pasteboard holds for a type; the bytes of an object are absent when
  its \<open>bytes\<close> method returns NULL.
\<close>

record pasteboard =
  runtime_symbols :: bool
  classes :: bool
  data_for_type :: "string \<Rightarrow> byte list option option"

definition OBJC :: string where "OBJC = ''/usr/lib/libobjc.A.dylib''"
definition APPKIT :: string where
  "APPKIT = ''/System/Library/Frameworks/AppKit.framework/AppKit''"

definition close_libraries :: "native_trace \<Rightarrow> native_trace" where
  "close_libraries tr = tr @ [NvDlclose APPKIT, NvDlclose OBJC]"

text \<open>The PNG when there is one, else the TIFF.\<close>

definition clipboard_data :: "pasteboard \<Rightarrow> (byte list option \<times> int) option" where
  "clipboard_data pb =
     (case data_for_type pb ''public.png'' of
        Some object \<Rightarrow> Some (object, 1)
      | None \<Rightarrow>
          (case data_for_type pb ''public.tiff'' of
             Some object \<Rightarrow> Some (object, 2)
           | None \<Rightarrow> None))"

definition adou_clipboard_image_write ::
  "native_os \<Rightarrow> pasteboard \<Rightarrow> string \<Rightarrow> native_trace \<Rightarrow> (int \<times> native_trace) option" where
  "adou_clipboard_image_write os pb path tr =
     (let objc = no_dlopen os tr OBJC; tr1 = tr @ [NvDlopen OBJC objc];
          appkit = no_dlopen os tr1 APPKIT; tr2 = tr1 @ [NvDlopen APPKIT appkit]
      in if \<not> objc \<or> \<not> appkit then
           Some (- ENOSYS, tr2 @ (if appkit then [NvDlclose APPKIT] else [])
                               @ (if objc then [NvDlclose OBJC] else []))
         else if \<not> runtime_symbols pb \<or> \<not> classes pb then Some (- ENOSYS, close_libraries tr2)
         else case clipboard_data pb of
           None \<Rightarrow> Some (0, close_libraries tr2)
         | Some (content, kind) \<Rightarrow>
             (case (case content of
                      None \<Rightarrow> Some (- EIO, tr2)
                    | Some bytes \<Rightarrow>
                        if bytes = [] then Some (- EIO, tr2)
                        else clip_write_all os path bytes tr2) of
                None \<Rightarrow> None
              | Some (result, tr3) \<Rightarrow>
                  Some (if result > 0 then kind else result, close_libraries tr3)))"

section \<open>stdin\_peek.c, regex.c, process\_group\_helper.c\<close>

definition POLLNVAL :: u16 where [c_defs]: "POLLNVAL = 0x20"

text \<open>The answer of \<open>poll\<close> on the one descriptor: an error, or a count and \<open>revents\<close>.\<close>

definition adou_stdin_peek :: "int + nat \<times> u16 \<Rightarrow> int" where
  "adou_stdin_peek answer =
     (case answer of
        Inl _ \<Rightarrow> -1
      | Inr (r, revents) \<Rightarrow>
          if r = 0 then 0 else if revents AND POLLNVAL \<noteq> 0 then -1 else 1)"

text \<open>POSIX \<open>regcomp\<close> and \<open>regexec\<close> are parameters; a result of 0 is success.\<close>

definition adou_regex_match ::
  "(string \<Rightarrow> int \<times> 'regex) \<Rightarrow> ('regex \<Rightarrow> string \<Rightarrow> int) \<Rightarrow> string \<Rightarrow> string \<Rightarrow> int" where
  "adou_regex_match regcomp regexec pattern txt =
     (case regcomp pattern of (compile_result, regex) \<Rightarrow>
        if compile_result \<noteq> 0 then -1
        else if regexec regex txt = 0 then 1 else 0)"

text \<open>
  The helper's \<open>main\<close>: \<open>Inl\<close> its exit code, \<open>Inr\<close> the argument vector of the program that
  replaced it.
\<close>

definition process_group_helper_main ::
  "int \<Rightarrow> (string list \<Rightarrow> bool) \<Rightarrow> string list \<Rightarrow> int + string list" where
  "process_group_helper_main setpgid_result execvp_succeeds argv =
     (if length argv < 2 then Inl 64
      else if setpgid_result \<noteq> 0 then Inl 125
      else if execvp_succeeds (tl argv) then Inr (tl argv)
      else Inl 127)"


section \<open>Descriptors, libraries and files read off the history\<close>

fun nv_fd_step :: "native_event \<Rightarrow> int set \<Rightarrow> int set" where
  "nv_fd_step (NvAcquire _ (Inr fd)) s = insert fd s"
| "nv_fd_step (NvClose fd _) s = s - {fd}"
| "nv_fd_step _ s = s"

definition nv_fds :: "int set \<Rightarrow> native_trace \<Rightarrow> int set" where
  "nv_fds s tr = fold nv_fd_step tr s"

lemma nv_fds_simps [event_simps]:
  "nv_fds s [] = s"
  "nv_fds s (e # us) = nv_fds (nv_fd_step e s) us"
  "nv_fds s (tr @ us) = nv_fds (nv_fds s tr) us"
  by (simp_all add: nv_fds_def)

text \<open>How often a library is open: successful \<open>dlopen\<close> calls less \<open>dlclose\<close> calls.\<close>

fun nv_lib_step :: "string \<Rightarrow> native_event \<Rightarrow> int" where
  "nv_lib_step l (NvDlopen l' ok) = (if l = l' \<and> ok then 1 else 0)"
| "nv_lib_step l (NvDlclose l') = (if l = l' then -1 else 0)"
| "nv_lib_step l _ = 0"

definition nv_libs :: "native_trace \<Rightarrow> string \<Rightarrow> int" where
  "nv_libs tr l = sum_list (map (nv_lib_step l) tr)"

lemma nv_libs_simps [event_simps]:
  "nv_libs [] l = 0"
  "nv_libs (e # us) l = nv_lib_step l e + nv_libs us l"
  "nv_libs (tr @ us) l = nv_libs tr l + nv_libs us l"
  by (simp_all add: nv_libs_def)

text \<open>
  The bytes of the file a descriptor was opened on with \<open>O_TRUNC\<close>: none after the open, then
  those the writes accepted.
\<close>

fun nv_file_step :: "int \<Rightarrow> native_event \<Rightarrow> byte list \<Rightarrow> byte list" where
  "nv_file_step fd (NvAcquire (OpenTruncate p) (Inr g)) bs = (if g = fd then [] else bs)"
| "nv_file_step fd (NvWrite g data (Inr n)) bs = (if g = fd then bs @ take n data else bs)"
| "nv_file_step fd _ bs = bs"

definition nv_file :: "int \<Rightarrow> native_trace \<Rightarrow> byte list" where
  "nv_file fd tr = fold (nv_file_step fd) tr []"

lemma nv_file_append [event_simps]: "nv_file fd (tr @ us) = fold (nv_file_step fd) us (nv_file fd tr)"
  by (simp add: nv_file_def)

text \<open>
  What is assumed of the system: a new descriptor is not in use, error numbers are positive,
  and signals stop interrupting writes after some point of the history.
\<close>

definition nv_fresh :: "int set \<Rightarrow> native_os \<Rightarrow> bool" where
  "nv_fresh s os \<longleftrightarrow> (\<forall>tr k fd. no_acquire os tr k = Inr fd \<longrightarrow> fd \<notin> nv_fds s tr)"

definition nv_errnos :: "native_os \<Rightarrow> bool" where
  "nv_errnos os \<longleftrightarrow> (\<forall>tr k p fd q t bs m e.
     (no_acquire os tr k = Inl e \<longrightarrow> 0 < e) \<and> (no_register os tr q fd = Inl e \<longrightarrow> 0 < e) \<and>
     (no_wait os tr q t = Inl e \<longrightarrow> 0 < e) \<and> (no_add_watch os tr fd p = Inl e \<longrightarrow> 0 < e) \<and>
     (no_poll os tr fd m = Inl e \<longrightarrow> 0 < e) \<and> (no_close os tr fd = Inl e \<longrightarrow> 0 < e) \<and>
     (no_write os tr fd bs = Inl e \<longrightarrow> 0 < e) \<and> (no_fchmod os tr fd (nat m) = Inl e \<longrightarrow> 0 < e))"

definition nv_signals_stop :: "nat \<Rightarrow> native_os \<Rightarrow> bool" where
  "nv_signals_stop N os \<longleftrightarrow>
     (\<forall>tr fd bs. N \<le> length tr \<longrightarrow> no_write os tr fd bs \<noteq> Inl EINTR)"

section \<open>Waiting for a file change\<close>

lemma watch_timespec_bounds:
  assumes "0 \<le> t"
  shows "0 \<le> fst (watch_timespec t) \<and> 0 \<le> snd (watch_timespec t)
    \<and> snd (watch_timespec t) < 1000000000
    \<and> fst (watch_timespec t) * 1000000000 + snd (watch_timespec t) = t * 1000000"
proof -
  have "(t div 1000) * 1000 + t mod 1000 = t" by simp
  then have "t div 1000 * 1000000000 + t mod 1000 * 1000000 = t * 1000000" by presburger
  moreover have "0 \<le> t mod 1000" "t mod 1000 < 1000" by simp_all
  ultimately show ?thesis
    using assms by (simp add: watch_timespec_def pos_imp_zdiv_nonneg_iff)
qed

text \<open>The new events of a call.\<close>

definition since :: "native_trace \<Rightarrow> native_trace \<Rightarrow> native_event set" where
  "since tr tr' = set (drop (length tr) tr')"

lemma since_append [event_simps]: "since tr (tr @ us) = set us"
  by (simp add: since_def)

lemma kqueue_watch_ok:
  assumes "nv_fresh s os" "nv_errnos os"
    and "fs_watch_wait_kqueue os path timeout_ms tr = (r, tr')"
  shows "nv_fds s tr' = nv_fds s tr
    \<and> (r = 1 \<longleftrightarrow> (\<exists>q t n. NvWait q t (Inr (Suc n)) \<in> since tr tr'))
    \<and> (r = 0 \<longleftrightarrow> (\<exists>q t. NvWait q t (Inr 0) \<in> since tr tr'))"
proof (cases "path = None \<or> timeout_ms < 0")
  case True
  then show ?thesis
    using assms(3)
    by (auto simp: fs_watch_wait_kqueue_def since_def EINVAL_def split: option.splits if_splits)
next
  case False
  then obtain p where p: "path = Some p" "\<not> timeout_ms < 0" by auto
  let ?a = "no_acquire os tr (OpenEvtOnly p)"
  let ?tr1 = "tr @ [NvAcquire (OpenEvtOnly p) ?a]"
  let ?q = "no_acquire os ?tr1 Kqueue"
  let ?tr2 = "?tr1 @ [NvAcquire Kqueue ?q]"
  have pos: "\<And>e. ?a = Inl e \<Longrightarrow> 0 < e" "\<And>e. ?q = Inl e \<Longrightarrow> 0 < e"
    "\<And>e q fd. no_register os ?tr2 q fd = Inl e \<Longrightarrow> 0 < e"
    "\<And>e t q tr. no_wait os tr q t = Inl e \<Longrightarrow> 0 < e"
    using assms(2) unfolding nv_errnos_def by blast+
  have fresh: "\<And>fd. ?a = Inr fd \<Longrightarrow> fd \<notin> nv_fds s tr" "\<And>fd. ?q = Inr fd \<Longrightarrow> fd \<notin> nv_fds s ?tr1"
    using assms(1) unfolding nv_fresh_def by blast+
  show ?thesis
  proof (cases ?a)
    case (Inl e)
    then show ?thesis
      using assms(3) p pos(1) by (auto simp: fs_watch_wait_kqueue_def Let_def event_simps)
  next
    case a: (Inr fd)
    show ?thesis
    proof (cases ?q)
      case (Inl e)
      then show ?thesis
        using assms(3) p a pos(2) [OF Inl] fresh(1) [OF a]
        by (auto simp: fs_watch_wait_kqueue_def nv_close_def Let_def event_simps)
    next
      case q: (Inr queue)
      show ?thesis
      proof (cases "no_register os ?tr2 queue fd")
        case (Inl e)
        then show ?thesis
          using assms(3) p a q pos(3) [OF Inl] fresh(1) [OF a] fresh(2) [OF q]
          by (auto simp: fs_watch_wait_kqueue_def close_two_def nv_close_def Let_def event_simps)
      next
        case g: (Inr u)
        define w where "w = no_wait os (?tr2 @ [NvRegister queue fd (Inr u)]) queue
          (watch_timespec timeout_ms)"
        have "r = wait_result w"
          and "tr' = close_two os queue fd (?tr2 @ [NvRegister queue fd (Inr u),
            NvWait queue (watch_timespec timeout_ms) w])"
          using assms(3) p a q g by (simp_all add: fs_watch_wait_kqueue_def Let_def w_def)
        moreover have "0 < e" if "w = Inl e" for e
          using pos(4) that by (simp add: w_def)
        moreover have "w = Inr n \<Longrightarrow> n = 0 \<or> (\<exists>m. n = Suc m)" for n
          by (cases n) auto
        ultimately show ?thesis
          using a q fresh(1) [OF a] fresh(2) [OF q]
          by (cases w) (auto simp: close_two_def nv_close_def Let_def event_simps)
      qed
    qed
  qed
qed

lemma inotify_watch_ok:
  assumes "nv_fresh s os" "nv_errnos os"
    and "fs_watch_wait_inotify os path timeout_ms tr = (r, tr')"
  shows "nv_fds s tr' = nv_fds s tr
    \<and> (r = 1 \<longleftrightarrow> (\<exists>f t n. NvPoll f t (Inr (Suc n)) \<in> since tr tr'))
    \<and> (r = 0 \<longleftrightarrow> (\<exists>f t. NvPoll f t (Inr 0) \<in> since tr tr'))"
proof (cases "path = None \<or> timeout_ms < 0")
  case True
  then show ?thesis
    using assms(3)
    by (auto simp: fs_watch_wait_inotify_def since_def EINVAL_def split: option.splits if_splits)
next
  case False
  then obtain p where p: "path = Some p" "\<not> timeout_ms < 0" by auto
  let ?a = "no_acquire os tr InotifyInit"
  let ?tr1 = "tr @ [NvAcquire InotifyInit ?a]"
  have pos: "\<And>e. ?a = Inl e \<Longrightarrow> 0 < e" "\<And>e fd. no_add_watch os ?tr1 fd p = Inl e \<Longrightarrow> 0 < e"
    "\<And>e t fd tr. no_poll os tr fd t = Inl e \<Longrightarrow> 0 < e"
    using assms(2) unfolding nv_errnos_def by blast+
  have fresh: "\<And>fd. ?a = Inr fd \<Longrightarrow> fd \<notin> nv_fds s tr"
    using assms(1) unfolding nv_fresh_def by blast
  show ?thesis
  proof (cases ?a)
    case (Inl e)
    then show ?thesis
      using assms(3) p pos(1) by (auto simp: fs_watch_wait_inotify_def Let_def event_simps)
  next
    case a: (Inr fd)
    show ?thesis
    proof (cases "no_add_watch os ?tr1 fd p")
      case (Inl e)
      then show ?thesis
        using assms(3) p a pos(2) [OF Inl] fresh [OF a]
        by (auto simp: fs_watch_wait_inotify_def nv_close_def Let_def event_simps)
    next
      case w: (Inr watch)
      define result where "result = no_poll os (?tr1 @ [NvAddWatch fd p (Inr watch)]) fd
        (to_int32 timeout_ms)"
      have "r = wait_result result"
        and "tr' = snd (nv_close os fd (?tr1 @ [NvAddWatch fd p (Inr watch),
          NvPoll fd (to_int32 timeout_ms) result]
          @ (if is_positive result then [NvRead fd] else []) @ [NvRmWatch fd watch]))"
        using assms(3) p a w
        by (auto simp: fs_watch_wait_inotify_def Let_def result_def)
      moreover have "0 < e" if "result = Inl e" for e
        using pos(3) that by (simp add: result_def)
      moreover have "result = Inr n \<Longrightarrow> n = 0 \<or> (\<exists>m. n = Suc m)" for n
        by (cases n) auto
      ultimately show ?thesis
        using a fresh [OF a]
        by (cases result) (auto simp: nv_close_def Let_def event_simps)
    qed
  qed
qed

text \<open>
  In both variants adou_fs_watch_wait leaves the open descriptors as they were on every
  path, returns 1 exactly when its wait reported an event and 0 exactly when it timed out.
\<close>

theorem fs_watch_reports_change:
  assumes "nv_fresh s os" "nv_errnos os"
  shows "nv_fds s (snd (fs_watch_wait_kqueue os path timeout_ms tr)) = nv_fds s tr
    \<and> nv_fds s (snd (fs_watch_wait_inotify os path timeout_ms tr)) = nv_fds s tr
    \<and> (fst (fs_watch_wait_kqueue os path timeout_ms tr) = 1 \<longleftrightarrow> (\<exists>q t n.
         NvWait q t (Inr (Suc n)) \<in> since tr (snd (fs_watch_wait_kqueue os path timeout_ms tr))))
    \<and> (fst (fs_watch_wait_kqueue os path timeout_ms tr) = 0 \<longleftrightarrow> (\<exists>q t.
         NvWait q t (Inr 0) \<in> since tr (snd (fs_watch_wait_kqueue os path timeout_ms tr))))
    \<and> (fst (fs_watch_wait_inotify os path timeout_ms tr) = 1 \<longleftrightarrow> (\<exists>f t n.
         NvPoll f t (Inr (Suc n)) \<in> since tr (snd (fs_watch_wait_inotify os path timeout_ms tr))))
    \<and> (fst (fs_watch_wait_inotify os path timeout_ms tr) = 0 \<longleftrightarrow> (\<exists>f t.
         NvPoll f t (Inr 0) \<in> since tr (snd (fs_watch_wait_inotify os path timeout_ms tr))))"
  using kqueue_watch_ok [OF assms, of path timeout_ms tr "fst (fs_watch_wait_kqueue os path timeout_ms tr)"
      "snd (fs_watch_wait_kqueue os path timeout_ms tr)"]
    inotify_watch_ok [OF assms, of path timeout_ms tr "fst (fs_watch_wait_inotify os path timeout_ms tr)"
      "snd (fs_watch_wait_inotify os path timeout_ms tr)"]
  by simp

text \<open>A system where every call succeeds and new descriptors count up from 3.\<close>

fun nv_next_fd :: "native_trace \<Rightarrow> int" where
  "nv_next_fd [] = 3"
| "nv_next_fd (NvAcquire _ (Inr fd) # es) = max (fd + 1) (nv_next_fd es)"
| "nv_next_fd (_ # es) = nv_next_fd es"

definition demo_native_os :: native_os where
  "demo_native_os = \<lparr>no_acquire = (\<lambda>tr k. Inr (nv_next_fd tr)), no_register = (\<lambda>tr q fd. Inr ()),
     no_wait = (\<lambda>tr q t. Inr 1), no_add_watch = (\<lambda>tr fd p. Inr 1), no_poll = (\<lambda>tr fd t. Inr 1),
     no_close = (\<lambda>tr fd. Inr ()), no_write = (\<lambda>tr fd bs. Inr (min 2 (length bs))),
     no_fchmod = (\<lambda>tr fd m. Inr ()), no_dlopen = (\<lambda>tr l. True)\<rparr>"

lemma nv_fds_mono: "s \<subseteq> t \<Longrightarrow> nv_fds s tr \<subseteq> nv_fds t tr"
proof (induction tr arbitrary: s t)
  case (Cons e tr)
  have "nv_fd_step e s \<subseteq> nv_fd_step e t"
    using Cons.prems by (cases "(e, s)" rule: nv_fd_step.cases) auto
  from Cons.IH [OF this] show ?case by (simp add: event_simps)
qed (simp add: event_simps)

lemma nv_fds_remove: "x \<in> nv_fds (s - {fd}) tr \<Longrightarrow> x \<in> nv_fds s tr"
  using nv_fds_mono [of "s - {fd}" s tr] by blast

lemma nv_fds_below: "\<forall>x\<in>s. x < 3 \<Longrightarrow> x \<in> nv_fds s tr \<Longrightarrow> x < nv_next_fd tr"
proof (induction tr arbitrary: s rule: nv_next_fd.induct)
  case (2 k fd es)
  have sub: "nv_fds (insert fd s) es \<subseteq> insert fd (nv_fds s es)"
  proof (induction es arbitrary: s)
    case (Cons e es)
    have "nv_fd_step e (insert fd s) = insert fd (nv_fd_step e s) \<or>
        nv_fd_step e (insert fd s) = nv_fd_step e s" for s
      by (cases "(e, s)" rule: nv_fd_step.cases) auto
    then show ?case
      using Cons [of "nv_fd_step e s"] by (auto simp: event_simps) (metis (no_types) in_mono insertE)
  qed (simp add: event_simps)
  have "x \<in> insert fd (nv_fds s es)"
    using 2(3) sub by (auto simp: event_simps)
  then show ?case
    using 2(1) [OF 2(2)] by auto
qed (auto simp: event_simps dest!: nv_fds_remove)

lemma demo_native_ok: "nv_fresh {} demo_native_os" "nv_errnos demo_native_os"
  "nv_signals_stop 0 demo_native_os"
  using nv_fds_below [of "{}"]
  by (auto simp: nv_fresh_def nv_errnos_def nv_signals_stop_def demo_native_os_def)

theorem fs_watch_reports_change_witness:
  "fst (fs_watch_wait_kqueue demo_native_os (Some ''f'') 1500 []) = 1
   \<and> nv_fds {} (snd (fs_watch_wait_kqueue demo_native_os (Some ''f'') 1500 [])) = {}
   \<and> (\<exists>f t n. NvPoll f t (Inr (Suc n))
        \<in> since [] (snd (fs_watch_wait_inotify demo_native_os (Some ''f'') 1500 [])))"
proof -
  have r: "fst (fs_watch_wait_kqueue demo_native_os (Some ''f'') 1500 []) = 1"
    "fst (fs_watch_wait_inotify demo_native_os (Some ''f'') 1500 []) = 1"
    by (simp_all add: fs_watch_wait_kqueue_def fs_watch_wait_inotify_def demo_native_os_def Let_def)
  show ?thesis
    using fs_watch_reports_change [OF demo_native_ok(1,2), of "Some ''f''" 1500 "[]"] r
    by (simp add: event_simps)
qed

text \<open>
  The inotify variant passes the low 32 bits of the timeout to \<open>poll\<close>: a timeout of \<open>2 ^ 31\<close>
  milliseconds becomes negative, which \<open>poll\<close> takes as no timeout at all.
\<close>

lemma inotify_timeout_truncated:
  assumes "no_acquire os tr InotifyInit = Inr fd"
    and "no_add_watch os (tr @ [NvAcquire InotifyInit (Inr fd)]) fd p = Inr watch"
  shows "\<exists>answer. NvPoll fd (- 2147483648) answer
    \<in> since tr (snd (fs_watch_wait_inotify os (Some p) 2147483648 tr))"
proof -
  have "to_int32 2147483648 = - 2147483648" by (simp add: to_int32_def)
  then show ?thesis
    using assms by (auto simp: fs_watch_wait_inotify_def nv_close_def Let_def event_simps)
qed


section \<open>Saving the clipboard image\<close>

lemma clip_write_loop_ok:
  assumes "clip_write_loop os fd rest tr = Some (r, tr')"
  shows "nv_fds s tr' = nv_fds s tr \<and> nv_libs tr' = nv_libs tr
    \<and> (r = Inr () \<longrightarrow> nv_file fd tr' = nv_file fd tr @ rest)
    \<and> (\<forall>e. r = Inl e \<longrightarrow> e = EIO \<or> (\<exists>tr1 bs. no_write os tr1 fd bs = Inl e))"
proof -
  define Q where "Q = (\<lambda>(os :: native_os) fd rest tr (res :: (int + unit) \<times> native_trace).
      nv_fds s (snd res) = nv_fds s tr \<and> nv_libs (snd res) = nv_libs tr
    \<and> (fst res = Inr () \<longrightarrow> nv_file fd (snd res) = nv_file fd tr @ rest)
    \<and> (\<forall>e. fst res = Inl e \<longrightarrow> e = EIO \<or> (\<exists>tr1 bs. no_write os tr1 fd bs = Inl e)))"
  have "Q os fd rest tr (r, tr')"
  proof (rule clip_write_loop.raw_induct [where P = Q, OF _ assms])
    fix loop :: "native_os \<Rightarrow> int \<Rightarrow> byte list \<Rightarrow> native_trace \<Rightarrow> ((int + unit) \<times> native_trace) option"
      and os fd rest tr res
    assume IH: "\<And>os fd rest tr res. loop os fd rest tr = Some res \<Longrightarrow> Q os fd rest tr res"
    assume body: "(if rest = [] then Some (Inr (), tr)
      else
        let r = no_write os tr fd rest; tr1 = tr @ [NvWrite fd rest r]
        in case r of
             Inl e \<Rightarrow> if e = EINTR then loop os fd rest tr1 else Some (Inl e, tr1)
           | Inr count \<Rightarrow>
               if count = 0 then Some (Inl EIO, tr1)
               else loop os fd (drop count rest) tr1) = Some res"
    show "Q os fd rest tr res"
    proof (cases "rest = []")
      case True
      with body show ?thesis by (auto simp: Q_def)
    next
      case False
      show ?thesis
      proof (cases "no_write os tr fd rest")
        case (Inl e)
        show ?thesis
        proof (cases "e = EINTR")
          case True
          then have "loop os fd rest (tr @ [NvWrite fd rest (Inl EINTR)]) = Some res"
            using body False Inl by (simp add: Let_def)
          from IH [OF this] show ?thesis by (simp add: Q_def event_simps fun_eq_iff)
        next
          case 2: False
          then have "res = (Inl e, tr @ [NvWrite fd rest (Inl e)])"
            using body False Inl by (simp add: Let_def)
          then show ?thesis
            using Inl by (auto simp: Q_def event_simps fun_eq_iff)
        qed
      next
        case (Inr n)
        show ?thesis
        proof (cases "n = 0")
          case True
          then have "res = (Inl EIO, tr @ [NvWrite fd rest (Inr 0)])"
            using body False Inr by (simp add: Let_def)
          then show ?thesis by (simp add: Q_def event_simps fun_eq_iff)
        next
          case 2: False
          then have "loop os fd (drop n rest) (tr @ [NvWrite fd rest (Inr n)]) = Some res"
            using body False Inr by (simp add: Let_def)
          from IH [OF this] show ?thesis by (simp add: Q_def event_simps fun_eq_iff)
        qed
      qed
    qed
  qed
  then show ?thesis by (simp add: Q_def)
qed

lemma clip_write_loop_events:
  assumes "clip_write_loop os fd rest tr = Some (r, tr')"
  shows "\<exists>ev. tr' = tr @ ev"
proof -
  have "\<exists>ev. snd (r, tr') = tr @ ev"
  proof (rule clip_write_loop.raw_induct
      [where P = "\<lambda>os fd rest tr res. \<exists>ev. snd res = tr @ ev", OF _ assms])
    fix loop :: "native_os \<Rightarrow> int \<Rightarrow> byte list \<Rightarrow> native_trace \<Rightarrow> ((int + unit) \<times> native_trace) option"
      and os fd rest tr res
    assume "\<And>os fd rest tr res. loop os fd rest tr = Some res \<Longrightarrow> \<exists>ev. snd res = tr @ ev"
    then have IH: "\<exists>ev. snd res = tr @ ev" if "loop os fd rest (tr @ [e]) = Some res"
      for os fd rest tr res e
      using that by (metis append_assoc)
    assume "(if rest = [] then Some (Inr (), tr)
      else
        let r = no_write os tr fd rest; tr1 = tr @ [NvWrite fd rest r]
        in case r of
             Inl e \<Rightarrow> if e = EINTR then loop os fd rest tr1 else Some (Inl e, tr1)
           | Inr count \<Rightarrow>
               if count = 0 then Some (Inl EIO, tr1)
               else loop os fd (drop count rest) tr1) = Some res"
    then have "res = (Inr (), tr) \<or> (\<exists>x e. res = (x, tr @ [e]))
        \<or> (\<exists>e rest'. loop os fd rest' (tr @ [e]) = Some res)"
      by (cases "no_write os tr fd rest") (auto simp: Let_def split: if_splits)
    then show "\<exists>ev. snd res = tr @ ev"
      by (elim disjE exE) (simp_all add: IH)
  qed
  then show ?thesis by simp
qed

lemma clip_write_all_ok:
  assumes "nv_fresh s os" "nv_errnos os" "clip_write_all os path data tr = Some (r, tr')"
  shows "nv_fds s tr' = nv_fds s tr \<and> nv_libs tr' = nv_libs tr \<and> (r = 1 \<or> r < 0)
    \<and> (r = 1 \<longrightarrow> (\<exists>fd. NvAcquire (OpenTruncate path) (Inr fd) \<in> since tr tr'
          \<and> nv_file fd tr' = data))"
proof -
  let ?a = "no_acquire os tr (OpenTruncate path)"
  let ?tr1 = "tr @ [NvAcquire (OpenTruncate path) ?a]"
  have pos: "\<And>e. ?a = Inl e \<Longrightarrow> 0 < e" "\<And>e tr fd. no_close os tr fd = Inl e \<Longrightarrow> 0 < e"
    "\<And>e tr fd bs. no_write os tr fd bs = Inl e \<Longrightarrow> 0 < e"
    "\<And>e tr fd m. no_fchmod os tr fd (nat m) = Inl e \<Longrightarrow> 0 < e"
    using assms(2) unfolding nv_errnos_def by blast+
  have pos4: "0 < e" if "no_fchmod os tr fd 0x180 = Inl e" for e tr fd
    using pos(4) [of tr fd "0x180" e] that by simp
  have fresh: "\<And>fd. ?a = Inr fd \<Longrightarrow> fd \<notin> nv_fds s tr"
    using assms(1) unfolding nv_fresh_def by blast
  show ?thesis
  proof (cases ?a)
    case (Inl e)
    then show ?thesis
      using assms(3) pos(1) [OF Inl] by (auto simp: clip_write_all_def event_simps fun_eq_iff)
  next
    case (Inr fd)
    obtain w tr2 where loop: "clip_write_loop os fd data ?tr1 = Some (w, tr2)"
      using assms(3) Inr by (auto simp: clip_write_all_def Let_def split: option.splits)
    note ok = clip_write_loop_ok [OF loop, of s]
    have fds: "nv_fds s tr2 = insert fd (nv_fds s tr)" "nv_libs tr2 = nv_libs tr"
      using ok Inr by (simp_all add: event_simps fun_eq_iff)
    obtain ev where ev: "tr2 = ?tr1 @ ev"
      using clip_write_loop_events [OF loop] by blast
    show ?thesis
    proof (cases w)
      case w: (Inl e)
      then have "0 < e"
        using ok pos(3) by (auto simp: EIO_def)
      then show ?thesis
        using assms(3) Inr loop w fds fresh [OF Inr]
        by (auto simp: clip_write_all_def nv_close_def Let_def event_simps fun_eq_iff)
    next
      case w: (Inr u)
      have content: "nv_file fd tr2 = data"
        using ok w Inr by (simp add: event_simps)
      show ?thesis
      proof (cases "no_fchmod os tr2 fd 0x180")
        case c: (Inl e)
        then show ?thesis
          using assms(3) Inr loop w fds fresh [OF Inr] pos4 [OF c]
          by (auto simp: clip_write_all_def nv_close_def Let_def event_simps fun_eq_iff)
      next
        case c: (Inr v)
        define k where "k = no_close os (tr2 @ [NvFchmod fd 0x180 (Inr v)]) fd"
        have r: "r = (case k of Inl e \<Rightarrow> - e | Inr _ \<Rightarrow> 1)"
          and tr': "tr' = tr2 @ [NvFchmod fd 0x180 (Inr v), NvClose fd k]"
          using assms(3) Inr loop w c
          by (auto simp: clip_write_all_def nv_close_def Let_def k_def split: sum.splits)
        have "0 < e" if "k = Inl e" for e
          using pos(2) that by (simp add: k_def)
        moreover have "NvAcquire (OpenTruncate path) (Inr fd) \<in> since tr tr'"
          using ev Inr by (simp add: tr' event_simps)
        ultimately show ?thesis
          using fds content fresh [OF Inr] r
          by (auto simp: tr' event_simps fun_eq_iff split: sum.splits)
      qed
    qed
  qed
qed


lemma clip_write_loop_returns:
  assumes "nv_signals_stop N os"
  shows "\<exists>res. clip_write_loop os fd rest tr = Some res"
proof (induction "length rest + (N - length tr)" arbitrary: rest tr rule: less_induct)
  case less
  let ?w = "no_write os tr fd rest"
  have eintr: "length tr < N" if "?w = Inl EINTR"
    using assms that unfolding nv_signals_stop_def by (metis not_less)
  show ?case
  proof (cases "rest = []")
    case False
    show ?thesis
    proof (cases ?w)
      case (Inl e)
      moreover have "e = EINTR \<Longrightarrow>
          \<exists>res. clip_write_loop os fd rest (tr @ [NvWrite fd rest ?w]) = Some res"
        using eintr Inl by (intro less) auto
      ultimately show ?thesis
        using False by (auto simp: clip_write_loop.simps [of os fd rest tr] Let_def)
    next
      case (Inr n)
      moreover have "n \<noteq> 0 \<Longrightarrow>
          \<exists>res. clip_write_loop os fd (drop n rest) (tr @ [NvWrite fd rest ?w]) = Some res"
        using False by (intro less) (cases rest; auto)
      ultimately show ?thesis
        using False by (auto simp: clip_write_loop.simps [of os fd rest tr] Let_def)
    qed
  qed (simp add: clip_write_loop.simps)
qed

lemma clip_write_all_returns:
  assumes "nv_signals_stop N os"
  shows "clip_write_all os path data tr \<noteq> None"
  using clip_write_loop_returns [OF assms]
  by (auto simp: clip_write_all_def Let_def split: sum.split prod.split option.split)
    (metis option.distinct(1))

lemma clipboard_image_ok:
  assumes "nv_fresh s os" "nv_errnos os"
    and run: "adou_clipboard_image_write os pb path tr = Some (r, tr')"
  shows "nv_fds s tr' = nv_fds s tr \<and> nv_libs tr' = nv_libs tr \<and> r \<le> 2
    \<and> (0 < r \<longrightarrow> (\<exists>bytes fd. clipboard_data pb = Some (Some bytes, r)
          \<and> NvAcquire (OpenTruncate path) (Inr fd) \<in> since tr tr' \<and> nv_file fd tr' = bytes))"
proof -
  define objc where "objc = no_dlopen os tr OBJC"
  define appkit where "appkit = no_dlopen os (tr @ [NvDlopen OBJC objc]) APPKIT"
  define tr2 where "tr2 = tr @ [NvDlopen OBJC objc, NvDlopen APPKIT appkit]"
  have differ: "OBJC \<noteq> APPKIT"
    by (simp add: OBJC_def APPKIT_def)
  have fds2: "nv_fds s tr2 = nv_fds s tr"
    by (simp add: tr2_def event_simps)
  have closed: "nv_libs (close_libraries t) = nv_libs tr"
    if "nv_libs t = nv_libs tr2" "objc" "appkit" for t
    using that differ by (auto simp: fun_eq_iff close_libraries_def tr2_def event_simps)
  have plain: "nv_fds s (close_libraries t) = nv_fds s t \<and> nv_file fd (close_libraries t) = nv_file fd t"
    for t fd by (simp add: close_libraries_def event_simps)
  note run' = run [unfolded adou_clipboard_image_write_def Let_def, folded objc_def,
      folded appkit_def]
  consider (lib) "\<not> objc \<or> \<not> appkit"
    | (sym) "objc" "appkit" "\<not> runtime_symbols pb \<or> \<not> classes pb \<or> clipboard_data pb = None"
    | (bad) kind content where "objc" "appkit" "runtime_symbols pb" "classes pb"
        "clipboard_data pb = Some (content, kind)" "content = None \<or> content = Some []"
    | (data) kind bytes where "objc" "appkit" "runtime_symbols pb" "classes pb"
        "clipboard_data pb = Some (Some bytes, kind)" "bytes \<noteq> []"
    by (cases "clipboard_data pb") fastforce+
  then show ?thesis
  proof cases
    case lib
    then have "r = - ENOSYS" and tr': "tr' = tr2 @ (if appkit then [NvDlclose APPKIT] else [])
        @ (if objc then [NvDlclose OBJC] else [])"
      using run' by (auto simp: tr2_def)
    then show ?thesis
      using lib by (auto simp: tr' tr2_def event_simps fun_eq_iff ENOSYS_def)
  next
    case sym
    then have "r \<le> 0" "tr' = close_libraries tr2"
      using run' by (auto simp: tr2_def ENOSYS_def split: if_splits)
    then show ?thesis
      using closed [of tr2] sym plain fds2 by simp
  next
    case bad
    then have "r = - EIO" "tr' = close_libraries tr2"
      using run' by (auto simp: tr2_def EIO_def)
    then show ?thesis
      using closed [of tr2] bad plain fds2 by (simp add: EIO_def)
  next
    case data
    then obtain result tr3 where all: "clip_write_all os path bytes tr2 = Some (result, tr3)"
      and r: "r = (if result > 0 then kind else result)" and tr': "tr' = close_libraries tr3"
      using run' by (auto simp: tr2_def split: option.splits)
    note ok = clip_write_all_ok [OF assms(1,2) all]
    have kind: "kind = 1 \<or> kind = 2"
      using data(5) by (auto simp: clipboard_data_def split: option.splits)
    have new: "NvAcquire k a \<in> since tr tr'" if "NvAcquire k a \<in> since tr2 tr3" for k a
      using that by (auto simp: since_def tr' tr2_def close_libraries_def drop_append
          dest: in_set_dropD) (metis drop_drop in_set_dropD plus_1_eq_Suc add.commute)
    have "nv_fds s tr' = nv_fds s tr" "nv_libs tr' = nv_libs tr"
      using ok closed [of tr3] data plain fds2 by (simp_all add: tr')
    moreover have "r \<le> 2"
      using ok kind by (auto simp: r)
    moreover have "\<exists>bytes fd. clipboard_data pb = Some (Some bytes, r)
        \<and> NvAcquire (OpenTruncate path) (Inr fd) \<in> since tr tr' \<and> nv_file fd tr' = bytes" if "0 < r"
    proof -
      have "result = 1"
        using ok that by (auto simp: r split: if_splits)
      then obtain fd where "NvAcquire (OpenTruncate path) (Inr fd) \<in> since tr2 tr3"
        "nv_file fd tr3 = bytes"
        using ok by blast
      then show ?thesis
        using new [of "OpenTruncate path" "Inr fd"] data(5) plain \<open>result = 1\<close>
        by (intro exI [of _ bytes] exI [of _ fd]) (simp add: r tr')
    qed
    ultimately show ?thesis by blast
  qed
qed

text \<open>
  adou_clipboard_image_write returns with the descriptors and library handles it found; a
  positive result is 1 for the PNG or 2 for the TIFF of the pasteboard and the truncated file
  then holds exactly its bytes.
\<close>

theorem clipboard_image_saved:
  assumes "nv_fresh s os" "nv_errnos os" "nv_signals_stop N os"
  shows "\<exists>r tr'. adou_clipboard_image_write os pb path tr = Some (r, tr')
    \<and> nv_fds s tr' = nv_fds s tr \<and> nv_libs tr' = nv_libs tr \<and> r \<le> 2
    \<and> (0 < r \<longrightarrow> (\<exists>bytes fd. clipboard_data pb = Some (Some bytes, r)
          \<and> NvAcquire (OpenTruncate path) (Inr fd) \<in> since tr tr' \<and> nv_file fd tr' = bytes))"
proof -
  have "clip_write_all os path data tr1 = None \<longleftrightarrow> False" for path data tr1
    using clip_write_all_returns [OF assms(3)] by (metis (no_types))
  note [simp] = this
  have "adou_clipboard_image_write os pb path tr \<noteq> None"
    by (simp add: adou_clipboard_image_write_def Let_def del: not_None_eq split: option.split prod.split)
  then obtain r tr' where run: "adou_clipboard_image_write os pb path tr = Some (r, tr')"
    by auto
  with clipboard_image_ok [OF assms(1,2) run] show ?thesis by blast
qed

theorem clipboard_image_saved_witness:
  "\<exists>tr'. adou_clipboard_image_write demo_native_os
       \<lparr>runtime_symbols = True, classes = True,
        data_for_type = [''public.tiff'' \<mapsto> Some [77, 77, 0]]\<rparr> ''i'' [] = Some (2, tr')
     \<and> nv_fds {} tr' = {} \<and> (\<exists>fd. nv_file fd tr' = [77, 77, 0])"
proof -
  let ?pb = "\<lparr>runtime_symbols = True, classes = True,
        data_for_type = [''public.tiff'' \<mapsto> Some [77, 77, 0]]\<rparr>"
  let ?run = "adou_clipboard_image_write demo_native_os ?pb ''i'' []"
  have "map_option fst ?run = Some 2"
    by (simp add: adou_clipboard_image_write_def demo_native_os_def clipboard_data_def Let_def
        clip_write_all_def nv_close_def clip_write_loop.simps)
  then obtain tr' where run: "?run = Some (2, tr')" by auto
  have "nv_fds {} tr' = {} \<and> (\<exists>bytes fd. clipboard_data ?pb = Some (Some bytes, 2)
      \<and> nv_file fd tr' = bytes)"
    using clipboard_image_saved [OF demo_native_ok, of ?pb "''i''" "[]"] run
    by (auto simp: event_simps)
  then show ?thesis
    using run by (auto simp: clipboard_data_def)
qed

end
