(* ===== verification/Icu_Bridge.thy ===== *)
theory Icu_Bridge
  imports Adou_Prelude
begin

text \<open>
  The ICU bridge, \<open>native/unicode_icu.c\<close>, and its normalization client
  \<open>src/unicode/normalization.n\<close>. ICU itself and its header macro \<open>U8_NEXT\<close> are not part of
  the repository: they are the functions of \<open>icu_env\<close>, and what the bridge relies on of them
  is stated as hypotheses. The state is the table of resolved entry points \<open>api\<close>, threaded
  through every function that calls \<open>load_icu\<close>.
\<close>

section \<open>The library and the table of entry points\<close>

datatype icu_symbol =
    break_open | break_close | break_set_text | break_first | break_next | break_status
  | text_open_utf8 | text_close | char_type | binary_property | int_property
  | get_nfkc | get_nfd | normalize | str_from_utf8 | str_to_utf8

datatype icu_property =
    UCHAR_DEFAULT_IGNORABLE_CODE_POINT | UCHAR_EMOJI_PRESENTATION
  | UCHAR_EAST_ASIAN_WIDTH | UCHAR_SCRIPT

datatype break_type = UBRK_CHARACTER | UBRK_WORD

datatype icu_event = TextOpen | TextClose | BreakOpen | BreakClose

record icu_api_t =
  attempted :: bool
  available :: bool
  i18n :: "nat option"
  common :: "nat option"
  symbols :: "icu_symbol \<Rightarrow> nat option"

text \<open>
  A string function of ICU takes the capacity of its target and yields what it put there, the
  full length and the status. \<open>env_breaks\<close> is the iterator's sequence of boundaries, each with
  its rule status; \<open>env_u8_next\<close> reads a code point at an offset and yields the next offset.
\<close>

record icu_env =
  env_dlopen :: "string \<Rightarrow> nat option"
  env_dlsym :: "nat \<Rightarrow> icu_symbol \<Rightarrow> nat option"
  env_malloc :: "nat \<Rightarrow> bool"
  env_str_from_utf8 :: "nat \<Rightarrow> byte list \<Rightarrow> u16 list \<times> int \<times> int"
  env_instance :: "icu_symbol \<Rightarrow> bool \<times> int"
  env_normalize :: "icu_symbol \<Rightarrow> nat \<Rightarrow> u16 list \<Rightarrow> u16 list \<times> int \<times> int"
  env_str_to_utf8 :: "nat \<Rightarrow> u16 list \<Rightarrow> byte list \<times> int \<times> int"
  env_text_open :: "byte list \<Rightarrow> bool \<times> int"
  env_break_open :: "break_type \<Rightarrow> bool \<times> int"
  env_set_text :: "break_type \<Rightarrow> byte list \<Rightarrow> int"
  env_breaks :: "break_type \<Rightarrow> byte list \<Rightarrow> (int \<times> int) list"
  env_u8_next :: "byte list \<Rightarrow> nat \<Rightarrow> nat \<times> int"
  env_char_type :: "int \<Rightarrow> int"
  env_binary_property :: "int \<Rightarrow> icu_property \<Rightarrow> bool"
  env_int_property :: "int \<Rightarrow> icu_property \<Rightarrow> int"

definition U_BUFFER_OVERFLOW_ERROR :: int where [c_defs]: "U_BUFFER_OVERFLOW_ERROR = 15"

definition U_FAILURE :: "int \<Rightarrow> bool" where [c_defs]: "U_FAILURE status \<longleftrightarrow> 0 < status"

definition UBRK_WORD_NUMBER :: int where [c_defs]: "UBRK_WORD_NUMBER = 100"

fun open_first :: "icu_env \<Rightarrow> string list \<Rightarrow> nat option" where
  "open_first env [] = None"
| "open_first env (name # names) =
     (case env_dlopen env name of Some handle \<Rightarrow> Some handle | None \<Rightarrow> open_first env names)"

definition i18n_names :: "string list" where
  "i18n_names = [''/opt/homebrew/opt/icu4c/lib/libicui18n.dylib'',
     ''/usr/local/opt/icu4c/lib/libicui18n.dylib'', ''libicui18n.dylib'', ''libicui18n.so'']"

definition common_names :: "string list" where
  "common_names = [''/opt/homebrew/opt/icu4c/lib/libicuuc.dylib'',
     ''/usr/local/opt/icu4c/lib/libicuuc.dylib'', ''libicuuc.dylib'', ''libicuuc.so'']"

definition i18n_symbols :: "icu_symbol list" where
  "i18n_symbols = [break_open, break_close, break_set_text, break_first, break_next, break_status]"

definition common_symbols :: "icu_symbol list" where
  "common_symbols = [text_open_utf8, text_close, char_type, binary_property, int_property,
     get_nfkc, get_nfd, normalize, str_from_utf8, str_to_utf8]"

definition load_icu :: "icu_env \<Rightarrow> icu_api_t \<Rightarrow> bool \<times> icu_api_t" where
  "load_icu env api =
     (if attempted api then (available api, api)
      else
        let api1 = api\<lparr>attempted := True, i18n := open_first env i18n_names,
                       common := open_first env common_names\<rparr>
        in case (i18n api1, common api1) of
             (Some h, Some g) \<Rightarrow>
               let table = (\<lambda>s. if s \<in> set i18n_symbols then env_dlsym env h s
                                else env_dlsym env g s);
                   ok = list_all (\<lambda>s. table s \<noteq> None) (i18n_symbols @ common_symbols)
               in (ok, api1\<lparr>symbols := table, available := ok\<rparr>)
           | _ \<Rightarrow> (False, api1))"

definition initial_api :: icu_api_t where
  "initial_api = \<lparr>attempted = False, available = False, i18n = None, common = None,
     symbols = (\<lambda>_. None)\<rparr>"

definition adou_icu_available :: "icu_env \<Rightarrow> icu_api_t \<Rightarrow> bool \<times> icu_api_t" where
  "adou_icu_available env api = load_icu env api"

section \<open>Normalization\<close>

text \<open>\<open>((size_t) n + 1U) * sizeof(UChar)\<close>.\<close>

definition uchar_bytes :: "int \<Rightarrow> nat" where
  "uchar_bytes n = nat (((n + 1) * 2) mod 2 ^ 64)"

text \<open>The last steps: the required length, and the conversion into the caller's buffer.\<close>

definition store_utf8 :: "icu_env \<Rightarrow> u16 list \<Rightarrow> bool \<Rightarrow> int \<Rightarrow> int \<times> byte list option" where
  "store_utf8 env normalized output_null capacity =
     (case env_str_to_utf8 env 0 normalized of (_, required, status) \<Rightarrow>
        if status \<noteq> U_BUFFER_OVERFLOW_ERROR \<and> U_FAILURE status then (-1, None)
        else if output_null \<or> capacity = 0 then (required, None)
        else if capacity \<le> required then (-2, None)
        else case env_str_to_utf8 env (nat capacity) normalized of (out, required', status') \<Rightarrow>
          (if U_FAILURE status' then -1 else required', Some out))"

definition normalize_source :: "icu_env \<Rightarrow> icu_symbol \<Rightarrow> u16 list \<Rightarrow> bool \<Rightarrow> int \<Rightarrow>
    int \<times> byte list option" where
  "normalize_source env form source output_null capacity =
     (case env_instance env form of (found, status) \<Rightarrow>
        if \<not> found \<or> U_FAILURE status then (-1, None)
        else case env_normalize env form 0 source of (_, normalized_length, status1) \<Rightarrow>
          if status1 \<noteq> U_BUFFER_OVERFLOW_ERROR \<and> U_FAILURE status1 then (-1, None)
          else if \<not> env_malloc env (uchar_bytes normalized_length) then (-1, None)
          else case env_normalize env form (nat (normalized_length + 1)) source of
            (normalized, _, status2) \<Rightarrow>
              if U_FAILURE status2 then (-1, None)
              else store_utf8 env (take (nat normalized_length) normalized) output_null capacity)"

text \<open>The result and what was put into the caller's buffer, if anything.\<close>

definition normalize_utf8 :: "icu_env \<Rightarrow> icu_api_t \<Rightarrow> icu_symbol \<Rightarrow> byte list option \<Rightarrow> int \<Rightarrow>
    bool \<Rightarrow> int \<Rightarrow> (int \<times> byte list option) \<times> icu_api_t" where
  "normalize_utf8 env api form txt len output_null capacity =
     (case load_icu env api of (loaded, api1) \<Rightarrow>
        (case txt of
           None \<Rightarrow> (-1, None)
         | Some bytes \<Rightarrow>
             if \<not> loaded \<or> symbols api1 form = None \<or> len < 0 \<or> len > INT32_MAX
                \<or> capacity < 0 \<or> capacity > INT32_MAX then (-1, None)
             else case env_str_from_utf8 env 0 (take (nat len) bytes) of
               (_, source_length, status) \<Rightarrow>
                 if status \<noteq> U_BUFFER_OVERFLOW_ERROR \<and> U_FAILURE status then (-1, None)
                 else if \<not> env_malloc env (uchar_bytes source_length) then (-1, None)
                 else case env_str_from_utf8 env (nat (source_length + 1)) (take (nat len) bytes) of
                   (source, _, status1) \<Rightarrow>
                     if U_FAILURE status1 then (-1, None)
                     else normalize_source env form (take (nat source_length) source)
                            output_null capacity,
         api1))"

definition adou_icu_normalize :: "icu_env \<Rightarrow> icu_api_t \<Rightarrow> icu_symbol \<Rightarrow> byte list option \<Rightarrow> int \<Rightarrow>
    bool \<Rightarrow> int \<Rightarrow> (int \<times> byte list option) \<times> icu_api_t" where
  "adou_icu_normalize env api form txt len output_null capacity =
     (case load_icu env api of (loaded, api1) \<Rightarrow>
        if \<not> loaded then ((-1, None), api1)
        else normalize_utf8 env api1 form txt len output_null capacity)"

definition adou_icu_nfkc where "adou_icu_nfkc env api = adou_icu_normalize env api get_nfkc"
definition adou_icu_nfd where "adou_icu_nfd env api = adou_icu_normalize env api get_nfd"

text \<open>The client: ask for the length, allocate, convert; \<open>None\<close> is a thrown error.\<close>

definition normalize_client :: "icu_env \<Rightarrow> icu_api_t \<Rightarrow> icu_symbol \<Rightarrow> byte list \<Rightarrow>
    byte list option \<times> icu_api_t" where
  "normalize_client env api form txt =
     (if txt = [] then (Some [], api)
      else case adou_icu_normalize env api form (Some txt) (int (length txt)) True 0 of
        ((required, _), api1) \<Rightarrow>
          if required < 0 then (None, api1)
          else case adou_icu_normalize env api1 form (Some txt) (int (length txt)) False (required + 1) of
            ((n, output), api2) \<Rightarrow>
              if n < 0 then (None, api2)
              else (Some (take (nat n) (case output of Some out \<Rightarrow> out | None \<Rightarrow> [])), api2))"

definition nfkc where "nfkc env api = normalize_client env api get_nfkc"
definition nfd where "nfd env api = normalize_client env api get_nfd"

section \<open>Break iterators\<close>

text \<open>The opened iterator's boundaries, or \<open>None\<close> for NULL, with the handle events.\<close>

definition open_break_iterator :: "icu_env \<Rightarrow> icu_api_t \<Rightarrow> byte list \<Rightarrow> int \<Rightarrow> break_type \<Rightarrow>
    (int \<times> int) list option \<times> icu_event list \<times> icu_api_t" where
  "open_break_iterator env api txt len kind =
     (case load_icu env api of (loaded, api1) \<Rightarrow>
        if \<not> loaded \<or> len < 0 \<or> len > INT32_MAX then (None, [], api1)
        else case env_text_open env (take (nat len) txt) of (opened, status) \<Rightarrow>
          if \<not> opened \<or> U_FAILURE status then (None, [], api1)
          else case env_break_open env kind of (found, status1) \<Rightarrow>
            if \<not> found \<or> U_FAILURE status1 then (None, [TextOpen, TextClose], api1)
            else if U_FAILURE (env_set_text env kind (take (nat len) txt)) then
              (None, [TextOpen, BreakOpen, BreakClose, TextClose], api1)
            else (Some (env_breaks env kind (take (nat len) txt)), [TextOpen, BreakOpen], api1))"

text \<open>
  The loop of \<open>adou_icu_grapheme_breaks\<close> over the positions the iterator delivers: the count, or
  -2, and the array it filled.
\<close>

fun grapheme_breaks_loop :: "int \<Rightarrow> (int \<times> int) list \<Rightarrow> int \<Rightarrow> int list \<Rightarrow> int \<times> int list" where
  "grapheme_breaks_loop capacity [] count boundaries = (count, boundaries)"
| "grapheme_breaks_loop capacity ((boundary, _) # rest) count boundaries =
     (if count \<ge> capacity then (-2, boundaries)
      else grapheme_breaks_loop capacity rest (count + 1) (boundaries @ [boundary]))"

definition adou_icu_grapheme_breaks :: "icu_env \<Rightarrow> icu_api_t \<Rightarrow> byte list \<Rightarrow> int \<Rightarrow> bool \<Rightarrow> int \<Rightarrow>
    (int \<times> int list) \<times> icu_event list \<times> icu_api_t" where
  "adou_icu_grapheme_breaks env api txt len boundaries_null capacity =
     (if boundaries_null \<or> capacity \<le> 0 then ((-1, []), [], api)
      else case open_break_iterator env api txt len UBRK_CHARACTER of
        (None, ev, api1) \<Rightarrow> ((-1, []), ev, api1)
      | (Some it, ev, api1) \<Rightarrow>
          (grapheme_breaks_loop capacity it 0 [], ev @ [BreakClose, TextClose], api1))"

text \<open>A segment: its start, its end and whether the iterator calls it a word.\<close>

type_synonym segment = "int \<times> int \<times> bool"

fun word_segments_loop :: "int \<Rightarrow> int \<Rightarrow> (int \<times> int) list \<Rightarrow> int \<Rightarrow> segment list \<Rightarrow> int \<times> segment list" where
  "word_segments_loop capacity start [] count segs = (count, segs)"
| "word_segments_loop capacity start ((stop, status) # rest) count segs =
     (if count \<ge> capacity then (-2, segs)
      else word_segments_loop capacity stop rest (count + 1)
             (segs @ [(start, stop, status \<ge> UBRK_WORD_NUMBER)]))"

definition adou_icu_word_segments :: "icu_env \<Rightarrow> icu_api_t \<Rightarrow> byte list \<Rightarrow> int \<Rightarrow> bool \<Rightarrow> int \<Rightarrow>
    (int \<times> segment list) \<times> icu_event list \<times> icu_api_t" where
  "adou_icu_word_segments env api txt len arrays_null capacity =
     (if arrays_null \<or> capacity \<le> 0 then ((-1, []), [], api)
      else case open_break_iterator env api txt len UBRK_WORD of
        (None, ev, api1) \<Rightarrow> ((-1, []), ev, api1)
      | (Some it, ev, api1) \<Rightarrow>
          ((case it of [] \<Rightarrow> (0, []) | (start, _) # rest \<Rightarrow> word_segments_loop capacity start rest 0 []),
           ev @ [BreakClose, TextClose], api1))"

section \<open>Display width\<close>

definition U_CONTROL_CHAR :: int where [c_defs]: "U_CONTROL_CHAR = 15"
definition U_FORMAT_CHAR :: int where [c_defs]: "U_FORMAT_CHAR = 16"
definition U_NON_SPACING_MARK :: int where [c_defs]: "U_NON_SPACING_MARK = 6"
definition U_ENCLOSING_MARK :: int where [c_defs]: "U_ENCLOSING_MARK = 7"
definition U_COMBINING_SPACING_MARK :: int where [c_defs]: "U_COMBINING_SPACING_MARK = 8"
definition U_SURROGATE :: int where [c_defs]: "U_SURROGATE = 18"
definition U_EA_FULLWIDTH :: int where [c_defs]: "U_EA_FULLWIDTH = 3"
definition U_EA_WIDE :: int where [c_defs]: "U_EA_WIDE = 5"

definition non_printing :: "icu_env \<Rightarrow> int \<Rightarrow> bool" where
  "non_printing env codepoint =
     (let type = env_char_type env codepoint in
      env_binary_property env codepoint UCHAR_DEFAULT_IGNORABLE_CODE_POINT
      \<or> type = U_CONTROL_CHAR \<or> type = U_FORMAT_CHAR \<or> type = U_NON_SPACING_MARK
      \<or> type = U_ENCLOSING_MARK \<or> type = U_COMBINING_SPACING_MARK \<or> type = U_SURROGATE)"

definition east_asian_width :: "icu_env \<Rightarrow> int \<Rightarrow> int" where
  "east_asian_width env codepoint =
     (let east_asian = env_int_property env codepoint UCHAR_EAST_ASIAN_WIDTH in
      if east_asian = U_EA_WIDE \<or> east_asian = U_EA_FULLWIDTH then 2 else 1)"

record width_state =
  all_non_printing :: bool
  emoji :: bool
  regional :: bool
  width :: int
  found_base :: bool

definition width_start :: width_state where
  "width_start = \<lparr>all_non_printing = True, emoji = False, regional = False, width = 0,
     found_base = False\<rparr>"

text \<open>The body of the loop for one code point.\<close>

definition width_step :: "icu_env \<Rightarrow> int \<Rightarrow> width_state \<Rightarrow> width_state" where
  "width_step env codepoint st =
     (let st1 = (if \<not> non_printing env codepoint then st\<lparr>all_non_printing := False\<rparr> else st);
          st2 = (if codepoint = 0x200d \<or> codepoint = 0xfe0f \<or> codepoint = 0x20e3
                    \<or> env_binary_property env codepoint UCHAR_EMOJI_PRESENTATION
                 then st1\<lparr>emoji := True\<rparr> else st1);
          st3 = (if codepoint \<ge> 0x1f1e6 \<and> codepoint \<le> 0x1f1ff then st2\<lparr>regional := True\<rparr> else st2)
      in if \<not> found_base st3 \<and> \<not> non_printing env codepoint then
           st3\<lparr>width := east_asian_width env codepoint, found_base := True\<rparr>
         else if found_base st3 \<and> (codepoint \<ge> 0xff00 \<and> codepoint \<le> 0xffef
                 \<or> codepoint = 0x0e33 \<or> codepoint = 0x0eb3) then
           st3\<lparr>width := width st3 + (if codepoint = 0x0e33 \<or> codepoint = 0x0eb3 then 1
                                      else east_asian_width env codepoint)\<rparr>
         else st3)"

text \<open>\<open>None\<close> inside is the return of -1 at an ill-formed sequence; the loop itself may not end.\<close>

partial_function (option) width_loop ::
  "icu_env \<Rightarrow> byte list \<Rightarrow> nat \<Rightarrow> width_state \<Rightarrow> width_state option option" where
  "width_loop env txt offset st =
     (if offset < length txt then
        (case env_u8_next env txt offset of (offset', codepoint) \<Rightarrow>
           if codepoint < 0 then Some None
           else width_loop env txt offset' (width_step env codepoint st))
      else Some (Some st))"

definition width_value :: "width_state \<Rightarrow> int" where
  "width_value st =
     (if all_non_printing st \<or> \<not> found_base st then 0
      else if emoji st \<or> regional st then 2 else width st)"

definition adou_icu_grapheme_width :: "icu_env \<Rightarrow> icu_api_t \<Rightarrow> byte list option \<Rightarrow> int \<Rightarrow>
    (int \<times> icu_api_t) option" where
  "adou_icu_grapheme_width env api txt len =
     (case load_icu env api of (loaded, api1) \<Rightarrow>
        case txt of
          None \<Rightarrow> Some (if len = 0 then 0 else -1, api1)
        | Some bytes \<Rightarrow>
            if \<not> loaded \<or> len \<le> 0 \<or> len > INT32_MAX then Some (if len = 0 then 0 else -1, api1)
            else if len = 1 \<and> bytes ! 0 = 9 then Some (3, api1)
            else (case width_loop env (take (nat len) bytes) 0 width_start of
                    None \<Rightarrow> None
                  | Some None \<Rightarrow> Some (-1, api1)
                  | Some (Some st) \<Rightarrow> Some (width_value st, api1)))"

definition adou_icu_grapheme_width_at :: "icu_env \<Rightarrow> icu_api_t \<Rightarrow> byte list option \<Rightarrow> int \<Rightarrow> int \<Rightarrow>
    int \<Rightarrow> (int \<times> icu_api_t) option" where
  "adou_icu_grapheme_width_at env api txt len start stop =
     (case txt of
        None \<Rightarrow> Some (-1, api)
      | Some bytes \<Rightarrow>
          if start < 0 \<or> stop < start \<or> stop > len then Some (-1, api)
          else adou_icu_grapheme_width env api (Some (drop (nat start) bytes)) (stop - start))"

fun visible_width_loop :: "icu_env \<Rightarrow> icu_api_t \<Rightarrow> byte list \<Rightarrow> int \<Rightarrow> (int \<times> int) list \<Rightarrow> int \<Rightarrow>
    (int \<times> icu_api_t) option" where
  "visible_width_loop env api txt start [] acc = Some (acc, api)"
| "visible_width_loop env api txt start ((stop, _) # rest) acc =
     (case adou_icu_grapheme_width env api (Some (drop (nat start) txt)) (stop - start) of
        None \<Rightarrow> None
      | Some (segment_width, api1) \<Rightarrow>
          if segment_width < 0 then Some (-1, api1)
          else visible_width_loop env api1 txt stop rest (acc + segment_width))"

definition adou_icu_visible_width :: "icu_env \<Rightarrow> icu_api_t \<Rightarrow> byte list option \<Rightarrow> int \<Rightarrow>
    (int \<times> icu_event list \<times> icu_api_t) option" where
  "adou_icu_visible_width env api txt len =
     (case load_icu env api of (loaded, api1) \<Rightarrow>
        case txt of
          None \<Rightarrow> Some (-1, [], api1)
        | Some bytes \<Rightarrow>
            if \<not> loaded \<or> len < 0 \<or> len > INT32_MAX then Some (-1, [], api1)
            else (case open_break_iterator env api1 bytes len UBRK_CHARACTER of
                (None, ev, api2) \<Rightarrow> Some (-1, ev, api2)
              | (Some it, ev, api2) \<Rightarrow>
                  (case (case it of
                           [] \<Rightarrow> Some (0, api2)
                         | (start, _) # rest \<Rightarrow> visible_width_loop env api2 bytes start rest 0) of
                     None \<Rightarrow> None
                   | Some (acc, api3) \<Rightarrow> Some (acc, ev @ [BreakClose, TextClose], api3))))"

definition cjk_scripts :: "int list" where
  "cjk_scripts = [17, 20, 22, 18, 5]"

text \<open>The \<open>USCRIPT\<close> codes of Han, Hiragana, Katakana, Hangul and Bopomofo.\<close>

definition adou_icu_is_cjk_break :: "icu_env \<Rightarrow> icu_api_t \<Rightarrow> byte list option \<Rightarrow> int \<Rightarrow>
    bool \<times> icu_api_t" where
  "adou_icu_is_cjk_break env api txt len =
     (case load_icu env api of (loaded, api1) \<Rightarrow>
        (case txt of
           None \<Rightarrow> False
         | Some bytes \<Rightarrow>
             if \<not> loaded \<or> len \<le> 0 \<or> len > INT32_MAX then False
             else case env_u8_next env (take (nat len) bytes) 0 of (_, codepoint) \<Rightarrow>
               codepoint \<ge> 0 \<and> env_int_property env codepoint UCHAR_SCRIPT \<in> set cjk_scripts,
         api1))"

definition adou_icu_is_cjk_break_at :: "icu_env \<Rightarrow> icu_api_t \<Rightarrow> byte list option \<Rightarrow> int \<Rightarrow> int \<Rightarrow>
    int \<Rightarrow> bool \<times> icu_api_t" where
  "adou_icu_is_cjk_break_at env api txt len start stop =
     (case txt of
        None \<Rightarrow> (False, api)
      | Some bytes \<Rightarrow>
          if start < 0 \<or> stop < start \<or> stop > len then (False, api)
          else adou_icu_is_cjk_break env api (Some (drop (nat start) bytes)) (stop - start))"

section \<open>Loading\<close>

text \<open>The table is only used once it is loaded.\<close>

definition api_ok :: "icu_api_t \<Rightarrow> bool" where
  "api_ok api \<longleftrightarrow> (available api \<longrightarrow> attempted api)"

lemma initial_api_ok [simp]: "api_ok initial_api"
  by (simp add: api_ok_def initial_api_def)

lemma load_icu_ok:
  assumes "api_ok api"
  shows "api_ok (snd (load_icu env api))
    \<and> load_icu env' (snd (load_icu env api)) = load_icu env api
    \<and> (fst (load_icu env api) \<longleftrightarrow> available (snd (load_icu env api)))"
  using assms by (auto simp: load_icu_def api_ok_def Let_def split: option.split)

text \<open>A table that was loaded with success: loading it again changes nothing.\<close>

definition ready :: "icu_api_t \<Rightarrow> bool" where
  "ready api \<longleftrightarrow> attempted api \<and> available api \<and> (\<forall>s. symbols api s \<noteq> None)"

lemma ready_load [simp]: "ready api \<Longrightarrow> load_icu env api = (True, api)"
  by (simp add: ready_def load_icu_def)

lemma all_symbols: "s \<in> set (i18n_symbols @ common_symbols)"
  by (cases s) (simp_all add: i18n_symbols_def common_symbols_def)

lemma load_icu_ready:
  assumes "open_first env i18n_names = Some h" "open_first env common_names = Some g"
    and "\<And>s. env_dlsym env h s \<noteq> None" "\<And>s. env_dlsym env g s \<noteq> None"
    and "\<not> attempted api"
  shows "fst (load_icu env api) \<and> ready (snd (load_icu env api))"
  using assms by (auto simp: load_icu_def ready_def Let_def list_all_iff)

section \<open>Normalization through the preflight protocol\<close>

text \<open>
  The documented contract of an ICU string conversion that yields \<open>ys\<close>: the length is reported
  for every capacity, the result is complete when it fits, and the status tells an overflow.
  \<open>rejects\<close> is an input the conversion refuses with an error of its own.
\<close>

definition preflights :: "(nat \<Rightarrow> 'b list \<times> int \<times> int) \<Rightarrow> 'b list \<Rightarrow> bool" where
  "preflights f ys \<longleftrightarrow> (\<forall>cap. case f cap of (buf, n, status) \<Rightarrow>
     n = int (length ys) \<and>
     (if length ys \<le> cap then take (length ys) buf = ys \<and> status \<le> 0
      else status = U_BUFFER_OVERFLOW_ERROR))"

definition rejects :: "(nat \<Rightarrow> 'b list \<times> int \<times> int) \<Rightarrow> bool" where
  "rejects f \<longleftrightarrow> (\<forall>cap. case f cap of (buf, n, status) \<Rightarrow>
     0 < status \<and> status \<noteq> U_BUFFER_OVERFLOW_ERROR)"

lemma preflightsE:
  assumes "preflights f ys"
  obtains buf status where "f cap = (buf, int (length ys), status)"
    and "length ys \<le> cap \<Longrightarrow> take (length ys) buf = ys \<and> \<not> U_FAILURE status"
    and "status \<noteq> U_BUFFER_OVERFLOW_ERROR \<Longrightarrow> \<not> U_FAILURE status"
  using assms that unfolding preflights_def U_FAILURE_def
  by (cases "f cap") (auto dest!: spec [of _ cap] split: if_splits)

lemma rejectsE:
  assumes "rejects f"
  obtains buf n status where "f cap = (buf, n, status)"
    and "status \<noteq> U_BUFFER_OVERFLOW_ERROR" and "U_FAILURE status"
  using assms that unfolding rejects_def U_FAILURE_def
  by (cases "f cap") (auto dest!: spec [of _ cap])

lemma store_utf8_ok:
  assumes "preflights (\<lambda>cap. env_str_to_utf8 env cap us) bs"
  shows "store_utf8 env us output_null capacity =
      (if output_null \<or> capacity = 0 then (int (length bs), None)
       else if capacity \<le> int (length bs) then (-2, None)
       else (int (length bs), snd (store_utf8 env us output_null capacity)))
    \<and> (\<not> output_null \<longrightarrow> int (length bs) < capacity \<longrightarrow>
        map_option (take (length bs)) (snd (store_utf8 env us output_null capacity)) = Some bs)"
proof -
  obtain buf0 st0 where "env_str_to_utf8 env 0 us = (buf0, int (length bs), st0)"
    "st0 \<noteq> U_BUFFER_OVERFLOW_ERROR \<Longrightarrow> \<not> U_FAILURE st0"
    by (rule preflightsE [OF assms, of 0]) blast
  moreover obtain buf st where "env_str_to_utf8 env (nat capacity) us = (buf, int (length bs), st)"
    "length bs \<le> nat capacity \<Longrightarrow> take (length bs) buf = bs \<and> \<not> U_FAILURE st"
    by (rule preflightsE [OF assms, of "nat capacity"]) blast
  ultimately show ?thesis
    by (auto simp: store_utf8_def)
qed

lemma normalize_source_ok:
  assumes "env_instance env form = (True, status)" "\<not> U_FAILURE status"
    and "preflights (\<lambda>cap. env_normalize env form cap us) vs" "env_malloc env (uchar_bytes (int (length vs)))"
  shows "normalize_source env form us output_null capacity = store_utf8 env vs output_null capacity"
proof -
  obtain buf0 st0 where "env_normalize env form 0 us = (buf0, int (length vs), st0)"
    "st0 \<noteq> U_BUFFER_OVERFLOW_ERROR \<Longrightarrow> \<not> U_FAILURE st0"
    by (rule preflightsE [OF assms(3), of 0]) blast
  moreover obtain buf st where
    "env_normalize env form (nat (int (length vs) + 1)) us = (buf, int (length vs), st)"
    "length vs \<le> nat (int (length vs) + 1) \<Longrightarrow> take (length vs) buf = vs \<and> \<not> U_FAILURE st"
    by (rule preflightsE [OF assms(3), of "nat (int (length vs) + 1)"]) blast
  ultimately show ?thesis
    using assms by (auto simp: normalize_source_def)
qed

lemma adou_icu_normalize_ok:
  assumes "ready api" "len = int (length bytes)" "len \<le> INT32_MAX" "0 \<le> capacity" "capacity \<le> INT32_MAX"
    and "env_instance env form = (True, status)" "\<not> U_FAILURE status"
    and "preflights (\<lambda>cap. env_str_from_utf8 env cap bytes) us" "env_malloc env (uchar_bytes (int (length us)))"
    and "preflights (\<lambda>cap. env_normalize env form cap us) vs" "env_malloc env (uchar_bytes (int (length vs)))"
  shows "adou_icu_normalize env api form (Some bytes) len output_null capacity
    = (store_utf8 env vs output_null capacity, api)"
proof -
  obtain buf0 st0 where "env_str_from_utf8 env 0 bytes = (buf0, int (length us), st0)"
    "st0 \<noteq> U_BUFFER_OVERFLOW_ERROR \<Longrightarrow> \<not> U_FAILURE st0"
    by (rule preflightsE [OF assms(8), of 0]) blast
  moreover obtain buf st where
    "env_str_from_utf8 env (nat (int (length us) + 1)) bytes = (buf, int (length us), st)"
    "length us \<le> nat (int (length us) + 1) \<Longrightarrow> take (length us) buf = us \<and> \<not> U_FAILURE st"
    by (rule preflightsE [OF assms(8), of "nat (int (length us) + 1)"]) blast
  moreover have "symbols api form \<noteq> None"
    using assms(1) by (simp add: ready_def)
  ultimately show ?thesis
    using assms normalize_source_ok [OF assms(6,7,10,11), of output_null capacity]
    by (auto simp: adou_icu_normalize_def normalize_utf8_def)
qed

text \<open>
  C20. With a loadable ICU whose conversions follow the documented preflight protocol, the
  two-call client returns exactly the UTF-8 form of the normalized text for every text that
  decodes, and throws for a text ICU rejects.
\<close>

theorem icu_normalization_client:
  assumes load: "load_icu env api = (True, api1)" "ready api1"
    and bytes: "bytes \<noteq> []" "int (length bytes) \<le> INT32_MAX" "int (length bs) < INT32_MAX"
    and inst: "env_instance env form = (True, status)" "\<not> U_FAILURE status"
    and mem: "\<And>n. env_malloc env n"
    and conv: "preflights (\<lambda>cap. env_str_from_utf8 env cap bytes) us"
      "preflights (\<lambda>cap. env_normalize env form cap us) vs"
      "preflights (\<lambda>cap. env_str_to_utf8 env cap vs) bs"
    and bad: "rejects (\<lambda>cap. env_str_from_utf8 env cap ill)" "ill \<noteq> []"
  shows "normalize_client env api form bytes = (Some bs, api1)
    \<and> fst (normalize_client env api form ill) = None"
proof
  let ?n = "int (length bytes)"
  have first: "adou_icu_normalize env api form (Some bytes) ?n True 0 = ((int (length bs), None), api1)"
    using adou_icu_normalize_ok [OF load(2) refl bytes(2) _ _ inst conv(1) mem conv(2) mem, of 0 True]
      store_utf8_ok [OF conv(3), of True 0] load
    by (simp add: adou_icu_normalize_def INT32_MAX_def)
  obtain out where "store_utf8 env vs False (int (length bs) + 1) = (int (length bs), Some out)"
    and "take (length bs) out = bs"
    using store_utf8_ok [OF conv(3), of False "int (length bs) + 1"]
    by (cases "store_utf8 env vs False (int (length bs) + 1)") auto
  then show "normalize_client env api form bytes = (Some bs, api1)"
    using adou_icu_normalize_ok [OF load(2) refl bytes(2) _ _ inst conv(1) mem conv(2) mem,
        of "int (length bs) + 1" False] bytes first
    by (simp add: normalize_client_def)
next
  obtain buf n st where "env_str_from_utf8 env 0 ill = (buf, n, st)"
    "st \<noteq> U_BUFFER_OVERFLOW_ERROR" "U_FAILURE st"
    by (rule rejectsE [OF bad(1), of 0])
  then show "fst (normalize_client env api form ill) = None"
    using load bad(2)
    by (auto simp: normalize_client_def adou_icu_normalize_def normalize_utf8_def)
qed

text \<open>
  An ICU that knows ASCII: every byte below 128 is a code point, a byte above is ill-formed,
  normalization maps the letter \<open>A\<close> to \<open>a\<close>, every byte is a grapheme and a word.
\<close>

definition ascii_conv :: "('a \<Rightarrow> 'b) \<Rightarrow> ('a \<Rightarrow> bool) \<Rightarrow> nat \<Rightarrow> 'a list \<Rightarrow> 'b list \<times> int \<times> int" where
  "ascii_conv f ok cap xs =
     (if \<not> list_all ok xs then ([], 0, 10)
      else (map f (take cap xs), int (length xs),
            if length xs \<le> cap then 0 else U_BUFFER_OVERFLOW_ERROR))"

definition ascii_env :: icu_env where
  "ascii_env = \<lparr>
     env_dlopen = (\<lambda>name. if name = ''libicui18n.so'' then Some 1
                          else if name = ''libicuuc.so'' then Some 2 else None),
     env_dlsym = (\<lambda>h s. Some 1), env_malloc = (\<lambda>n. True),
     env_str_from_utf8 = ascii_conv (\<lambda>b. word_of_int (uint b)) (\<lambda>b. b < 128),
     env_instance = (\<lambda>form. (True, 0)),
     env_normalize = (\<lambda>form. ascii_conv (\<lambda>u. if u = 65 then 97 else u) (\<lambda>u. True)),
     env_str_to_utf8 = ascii_conv (\<lambda>u. word_of_int (uint u)) (\<lambda>u. u < 128),
     env_text_open = (\<lambda>txt. (True, 0)), env_break_open = (\<lambda>kind. (True, 0)),
     env_set_text = (\<lambda>kind txt. 0),
     env_breaks = (\<lambda>kind txt. map (\<lambda>i. (int i, 200)) [0..<length txt + 1]),
     env_u8_next = (\<lambda>txt i. (i + 1, if txt ! i < 128 then uint (txt ! i) else -1)),
     env_char_type = (\<lambda>c. if c < 32 then U_CONTROL_CHAR else 1),
     env_binary_property = (\<lambda>c p. False), env_int_property = (\<lambda>c p. 0)\<rparr>"

definition ascii_api :: icu_api_t where
  "ascii_api = snd (load_icu ascii_env initial_api)"

lemma ascii_load: "load_icu ascii_env initial_api = (True, ascii_api)" and ascii_ready: "ready ascii_api"
proof -
  have "open_first ascii_env i18n_names = Some 1" "open_first ascii_env common_names = Some 2"
    by (simp_all add: i18n_names_def common_names_def ascii_env_def)
  moreover have "env_dlsym ascii_env h s \<noteq> None" for h s
    by (simp add: ascii_env_def)
  ultimately have "fst (load_icu ascii_env initial_api) \<and> ready (snd (load_icu ascii_env initial_api))"
    by (intro load_icu_ready) (simp_all add: initial_api_def)
  then show "load_icu ascii_env initial_api = (True, ascii_api)" "ready ascii_api"
    by (simp_all add: ascii_api_def prod_eq_iff)
qed

lemma ascii_preflights: "list_all ok xs \<Longrightarrow> preflights (\<lambda>cap. ascii_conv f ok cap xs) (map f xs)"
  by (auto simp: preflights_def ascii_conv_def)

lemma ascii_rejects: "\<not> list_all ok xs \<Longrightarrow> rejects (\<lambda>cap. ascii_conv f ok cap xs)"
  by (auto simp: rejects_def ascii_conv_def U_BUFFER_OVERFLOW_ERROR_def)

theorem icu_normalization_client_witness:
  "normalize_client ascii_env initial_api get_nfkc [65, 66] = (Some [97, 66], ascii_api)
   \<and> fst (normalize_client ascii_env initial_api get_nfkc [200]) = None"
proof (rule icu_normalization_client [OF ascii_load ascii_ready,
      where us = "[65, 66]" and vs = "[97, 66]" and status = 0])
  show "preflights (\<lambda>cap. env_str_from_utf8 ascii_env cap [65, 66]) [65, 66]"
    using ascii_preflights [of "\<lambda>b :: byte. b < 128" "[65, 66]" "\<lambda>b. word_of_int (uint b) :: u16"]
    by (simp add: ascii_env_def)
  show "preflights (\<lambda>cap. env_normalize ascii_env get_nfkc cap [65, 66]) [97, 66]"
    using ascii_preflights [of "\<lambda>b :: u16. True" "[65, 66]" "\<lambda>u. if u = 65 then 97 else u"]
    by (simp add: ascii_env_def)
  show "preflights (\<lambda>cap. env_str_to_utf8 ascii_env cap [97, 66]) [97, 66]"
    using ascii_preflights [of "\<lambda>b :: u16. b < 128" "[97, 66]" "\<lambda>b. word_of_int (uint b) :: byte"]
    by (simp add: ascii_env_def)
  show "rejects (\<lambda>cap. env_str_from_utf8 ascii_env cap [200])"
    using ascii_rejects [of "\<lambda>b :: byte. b < 128" "[200]" "\<lambda>b. word_of_int (uint b) :: u16"]
    by (simp add: ascii_env_def)
qed (simp_all add: ascii_env_def INT32_MAX_def U_FAILURE_def)

section \<open>Segments\<close>

text \<open>The bytes of a segment, and the balance of handles.\<close>

definition slice :: "'a list \<Rightarrow> int \<Rightarrow> int \<Rightarrow> 'a list" where
  "slice xs i j = take (nat (j - i)) (drop (nat i) xs)"

definition balanced :: "icu_event list \<Rightarrow> bool" where
  "balanced ev \<longleftrightarrow> count_list ev TextOpen = count_list ev TextClose
     \<and> count_list ev BreakOpen = count_list ev BreakClose"

lemma open_break_iterator_handles:
  assumes "open_break_iterator env api txt len kind = (it, ev, api1)"
  shows "it = None \<and> balanced ev \<or> (\<exists>bs. it = Some bs) \<and> ev = [TextOpen, BreakOpen]"
  using assms
  by (auto simp: open_break_iterator_def balanced_def split: prod.splits if_splits)

lemma open_break_iterator_events:
  "open_break_iterator env api txt len kind = (None, ev, api1) \<Longrightarrow> balanced ev"
  "open_break_iterator env api txt len kind = (Some bs, ev, api1) \<Longrightarrow> ev = [TextOpen, BreakOpen]"
  using open_break_iterator_handles by blast+

lemma balanced_closed: "balanced ([TextOpen, BreakOpen] @ [BreakClose, TextClose])"
  by (simp add: balanced_def)

text \<open>
  On every path of the segmentation and width entry points, errors included, each opened
  text and break iterator is closed exactly as often as it was opened.
\<close>

theorem icu_handles_balanced:
  "balanced (fst (snd (adou_icu_grapheme_breaks env api txt len boundaries_null capacity)))
   \<and> balanced (fst (snd (adou_icu_word_segments env api txt len arrays_null capacity)))
   \<and> pred_option (\<lambda>(r, ev, api'). balanced ev) (adou_icu_visible_width env api (Some txt) len)"
proof (intro conjI)
  have empty: "balanced []" by (simp add: balanced_def)
  show "balanced (fst (snd (adou_icu_grapheme_breaks env api txt len boundaries_null capacity)))"
    using empty balanced_closed
    by (auto simp: adou_icu_grapheme_breaks_def split: prod.split option.split
        dest: open_break_iterator_events)
  show "balanced (fst (snd (adou_icu_word_segments env api txt len arrays_null capacity)))"
    using empty balanced_closed
    by (auto simp: adou_icu_word_segments_def split: prod.split option.split
        dest: open_break_iterator_events)
  obtain ok api1 where l: "load_icu env api = (ok, api1)" by fastforce
  obtain it ev api2 where op: "open_break_iterator env api1 txt len UBRK_CHARACTER = (it, ev, api2)"
    using prod_cases3 by blast
  show "pred_option (\<lambda>(r, ev, api'). balanced ev) (adou_icu_visible_width env api (Some txt) len)"
    using empty balanced_closed open_break_iterator_handles [OF op]
    by (cases it) (simp_all add: adou_icu_visible_width_def l op pred_option_def split: option.split)
qed


text \<open>Consecutive positions pair up to segments.\<close>

fun pairs :: "'a list \<Rightarrow> ('a \<times> 'a) list" where
  "pairs (x # y # zs) = (x, y) # pairs (y # zs)"
| "pairs _ = []"

lemma length_pairs [simp]: "length (pairs xs) = length xs - 1"
  by (induction xs rule: pairs.induct) auto

lemma slices_concat:
  assumes "sorted (i # is)" "0 \<le> i"
  shows "concat (map (\<lambda>(i, j). slice xs i j) (pairs (i # is))) = slice xs i (last (i # is))"
  using assms
proof (induction "is" arbitrary: i)
  case (Cons j js)
  have step: "slice xs i j @ slice xs j k = slice xs i k" if "j \<le> k" for k
  proof -
    have "nat (k - i) = nat (j - i) + nat (k - j)" "nat j = nat (j - i) + nat i"
      using that Cons.prems by auto
    then show ?thesis
      by (simp add: slice_def take_add)
  qed
  have "concat (map (\<lambda>(i, j). slice xs i j) (pairs (j # js))) = slice xs j (last (j # js))"
    using Cons.prems by (intro Cons.IH) auto
  moreover have "j \<le> last (j # js)"
    using Cons.prems by simp
  ultimately show ?case
    using step by simp
qed (simp add: slice_def)

lemma word_segments_loop_ok:
  "word_segments_loop capacity start it count segs =
     (if int (length it) \<le> capacity - count \<or> it = []
      then (count + int (length it),
            segs @ map (\<lambda>((s, e), st). (s, e, st \<ge> UBRK_WORD_NUMBER))
                     (zip (pairs (start # map fst it)) (map snd it)))
      else (-2, segs @ map (\<lambda>((s, e), st). (s, e, st \<ge> UBRK_WORD_NUMBER))
                     (take (nat (capacity - count)) (zip (pairs (start # map fst it)) (map snd it)))))"
proof (induction capacity start it count segs rule: word_segments_loop.induct)
  case (2 capacity start stop status rest count segs)
  show ?case
  proof (cases "count \<ge> capacity")
    case True
    then show ?thesis by simp
  next
    case False
    then have "nat (capacity - count) = Suc (nat (capacity - (count + 1)))"
      by simp
    with 2 [OF False] False show ?thesis by auto
  qed
qed simp

lemma grapheme_breaks_loop_ok:
  "grapheme_breaks_loop capacity it count bs =
     (if int (length it) \<le> capacity - count \<or> it = [] then (count + int (length it), bs @ map fst it)
      else (-2, bs @ map fst (take (nat (capacity - count)) it)))"
proof (induction capacity it count bs rule: grapheme_breaks_loop.induct)
  case (2 capacity boundary u rest count bs)
  show ?case
  proof (cases "count \<ge> capacity")
    case False
    then have "nat (capacity - count) = Suc (nat (capacity - (count + 1)))"
      by simp
    with 2 [OF False] False show ?thesis by auto
  qed simp
qed simp

text \<open>
  The documented boundaries of an opened iterator: increasing, from the start to the end of the
  text.
\<close>

definition boundaries_of :: "int \<Rightarrow> (int \<times> int) list \<Rightarrow> bool" where
  "boundaries_of len it \<longleftrightarrow> it \<noteq> [] \<and> sorted (map fst it) \<and> fst (hd it) = 0 \<and> fst (last it) = len"

text \<open>
  For boundaries that run from the start to the end of the text, the word segments
  returned tile the text with the word flag of each boundary, or -2 is returned when they
  exceed the capacity; the grapheme boundaries are the iterator positions, or -2 with the
  first capacity ones.
\<close>

theorem icu_segments_tile:
  assumes op: "open_break_iterator env api txt len UBRK_WORD = (Some it, ev, api1)"
    and op2: "open_break_iterator env api txt len UBRK_CHARACTER = (Some it2, ev2, api2)"
    and "boundaries_of len it" and "0 < capacity"
    and run: "adou_icu_word_segments env api txt len False capacity = ((count, segs), ev', api')"
  shows "(int (length it) - 1 \<le> capacity \<longrightarrow> count = int (length segs)
        \<and> concat (map (\<lambda>(s, e, w). slice txt s e) segs) = take (nat len) txt
        \<and> map (\<lambda>(s, e, w). w) segs = map (\<lambda>(e, status). 100 \<le> status) (tl it))
    \<and> (capacity < int (length it) - 1 \<longrightarrow> count = -2 \<and> int (length segs) = capacity)
    \<and> fst (adou_icu_grapheme_breaks env api txt len False capacity) =
        (if int (length it2) \<le> capacity then (int (length it2), map fst it2)
         else (-2, take (nat capacity) (map fst it2)))"
proof -
  obtain start st rest where it: "it = (start, st) # rest" and "start = 0"
    using assms(3) by (cases it) (auto simp: boundaries_of_def)
  have run': "(count, segs) = word_segments_loop capacity start rest 0 []"
    using run op it \<open>0 < capacity\<close> by (simp add: adou_icu_word_segments_def)
  have srt: "sorted (start # map fst rest)" and lst: "last (start # map fst rest) = len"
    using assms(3) by (auto simp: boundaries_of_def it last_map)
  let ?z = "zip (pairs (start # map fst rest)) (map snd rest)"
  have len: "length ?z = length rest" by simp
  have segs: "map (\<lambda>(s, e, w). slice txt s e) (map (\<lambda>((s, e), st). (s, e, 100 \<le> st)) z)
      = map (\<lambda>(s, e). slice txt s e) (map fst z)" for z
    by (induction z) auto
  have words: "map (\<lambda>(s, e, w). w) (map (\<lambda>((s, e), st). (s, e, 100 \<le> st)) z)
      = map (\<lambda>st. 100 \<le> st) (map snd z)" for z :: "((int \<times> int) \<times> int) list"
    by (induction z) auto
  have fits: "count = int (length segs)
        \<and> concat (map (\<lambda>(s, e, w). slice txt s e) segs) = take (nat len) txt
        \<and> map (\<lambda>(s, e, w). w) segs = map (\<lambda>(e, status). 100 \<le> status) (tl it)"
    if "int (length it) - 1 \<le> capacity"
  proof -
    have "count = int (length rest)" and segs_eq: "segs = map (\<lambda>((s, e), st). (s, e, 100 \<le> st)) ?z"
      using run' that by (simp_all add: word_segments_loop_ok it UBRK_WORD_NUMBER_def)
    moreover have "concat (map (\<lambda>(s, e, w). slice txt s e) segs) = slice txt start len"
      using slices_concat [OF srt] lst \<open>start = 0\<close>
      by (simp only: segs_eq segs map_fst_zip length_pairs length_map length_Cons diff_Suc_1) simp
    moreover have "map (\<lambda>(s, e, w). w) segs = map (\<lambda>st. 100 \<le> st) (map snd ?z)"
      by (simp only: segs_eq words)
    ultimately show ?thesis
      using \<open>start = 0\<close> by (simp add: slice_def it case_prod_unfold)
  qed
  have "count = -2 \<and> int (length segs) = capacity" if "capacity < int (length it) - 1"
  proof -
    have "rest \<noteq> []" "\<not> int (length rest) \<le> capacity"
      using that \<open>0 < capacity\<close> by (auto simp: it)
    then show ?thesis
      using run' \<open>0 < capacity\<close> by (simp add: word_segments_loop_ok)
  qed
  moreover have "fst (adou_icu_grapheme_breaks env api txt len False capacity) =
      grapheme_breaks_loop capacity it2 0 []"
    using op2 \<open>0 < capacity\<close> by (simp add: adou_icu_grapheme_breaks_def)
  ultimately show ?thesis
    using fits \<open>0 < capacity\<close> by (auto simp: grapheme_breaks_loop_ok take_map)
qed

theorem icu_segments_tile_witness:
  "fst (adou_icu_word_segments ascii_env ascii_api [72, 105] 2 False 8)
      = (2, [(0, 1, True), (1, 2, True)])
   \<and> concat [slice [72, 105 :: byte] 0 1, slice [72, 105] 1 2] = [72, 105]"
proof -
  have op: "open_break_iterator ascii_env ascii_api [72, 105] 2 kind
      = (Some [(0, 200), (1, 200), (2, 200)], [TextOpen, BreakOpen], ascii_api)" for kind
    by (simp add: open_break_iterator_def ascii_ready INT32_MAX_def)
      (simp add: ascii_env_def numeral_2_eq_2 upt_rec U_FAILURE_def)
  have bo: "boundaries_of 2 [(0, 200), (1, 200), (2, 200)]"
    by (simp add: boundaries_of_def)
  have run: "adou_icu_word_segments ascii_env ascii_api [72, 105] 2 False 8
      = ((2, [(0, 1, True), (1, 2, True)]),
         [TextOpen, BreakOpen, BreakClose, TextClose], ascii_api)"
    by (simp add: adou_icu_word_segments_def op UBRK_WORD_NUMBER_def)
  from icu_segments_tile [OF op op bo _ run] run show ?thesis by simp
qed

section \<open>Display width against a specification\<close>

text \<open>
  The code points a text decodes to from an offset on, and the width of a grapheme in terms of
  them: nothing when all are invisible, two for emoji and flags, otherwise the width of the
  first visible one plus the half-width and vowel-sign extras after it.
\<close>

primrec decodes :: "icu_env \<Rightarrow> byte list \<Rightarrow> nat \<Rightarrow> int list \<Rightarrow> bool" where
  "decodes env txt offset [] \<longleftrightarrow> length txt \<le> offset"
| "decodes env txt offset (c # cs) \<longleftrightarrow> offset < length txt \<and> 0 \<le> c
     \<and> snd (env_u8_next env txt offset) = c \<and> decodes env txt (fst (env_u8_next env txt offset)) cs"

definition emoji_mark :: "icu_env \<Rightarrow> int \<Rightarrow> bool" where
  "emoji_mark env c \<longleftrightarrow> c \<in> {0x200d, 0xfe0f, 0x20e3} \<or> env_binary_property env c UCHAR_EMOJI_PRESENTATION
     \<or> c \<in> {0x1f1e6..0x1f1ff}"

definition extra_width :: "icu_env \<Rightarrow> int \<Rightarrow> int" where
  "extra_width env c = (if c \<in> {0x0e33, 0x0eb3} then 1
     else if c \<in> {0xff00..0xffef} then east_asian_width env c else 0)"

definition grapheme_width_spec :: "icu_env \<Rightarrow> int list \<Rightarrow> int" where
  "grapheme_width_spec env cs =
     (case dropWhile (non_printing env) cs of
        [] \<Rightarrow> 0
      | base # rest \<Rightarrow>
          if list_ex (emoji_mark env) cs then 2
          else east_asian_width env base + sum_list (map (extra_width env) rest))"

lemma width_loop_decodes:
  "decodes env txt offset cs \<Longrightarrow>
     width_loop env txt offset st = Some (Some (fold (width_step env) cs st))"
proof (induction cs arbitrary: offset st)
  case Nil
  then show ?case by (simp add: width_loop.simps)
next
  case (Cons c cs)
  then show ?case
    by (subst width_loop.simps) (auto simp: split: prod.split)
qed

text \<open>What the loop has recorded after the code points \<open>cs\<close>.\<close>

lemma width_step_flags:
  "all_non_printing (width_step env c st) \<longleftrightarrow> all_non_printing st \<and> non_printing env c"
  "found_base (width_step env c st) \<longleftrightarrow> found_base st \<or> \<not> non_printing env c"
  "emoji (width_step env c st) \<or> regional (width_step env c st)
     \<longleftrightarrow> emoji st \<or> regional st \<or> emoji_mark env c"
  by (auto simp: width_step_def emoji_mark_def Let_def)

lemma width_fold_all:
  "all_non_printing (fold (width_step env) cs st)
     \<longleftrightarrow> all_non_printing st \<and> list_all (non_printing env) cs"
  by (induction cs arbitrary: st) (auto simp: width_step_flags)

lemma width_fold_found:
  "found_base (fold (width_step env) cs st)
     \<longleftrightarrow> found_base st \<or> list_ex (\<lambda>c. \<not> non_printing env c) cs"
  by (induction cs arbitrary: st) (auto simp: width_step_flags)

lemma width_fold_emoji:
  "emoji (fold (width_step env) cs st) \<or> regional (fold (width_step env) cs st)
     \<longleftrightarrow> emoji st \<or> regional st \<or> list_ex (emoji_mark env) cs"
proof (induction cs arbitrary: st)
  case (Cons c cs)
  show ?case
    using Cons [of "width_step env c st"] width_step_flags(3) [of env c st] by auto
qed simp

lemmas width_fold_flags = width_fold_all width_fold_found width_fold_emoji

lemma width_fold_extras:
  "found_base st \<Longrightarrow> width (fold (width_step env) cs st) = width st + sum_list (map (extra_width env) cs)"
proof (induction cs arbitrary: st)
  case (Cons c cs)
  have "found_base (width_step env c st)"
    "width (width_step env c st) = width st + extra_width env c"
    using Cons.prems by (auto simp: width_step_def extra_width_def Let_def)
  with Cons.IH show ?case by simp
qed simp

lemma width_fold_invisible:
  "list_all (non_printing env) cs \<Longrightarrow> \<not> found_base st \<Longrightarrow>
     \<not> found_base (fold (width_step env) cs st)"
  by (auto simp: width_fold_flags list_all_iff list_ex_iff)

lemma width_of_fold:
  "width_value (fold (width_step env) cs width_start) = grapheme_width_spec env cs"
proof (cases "dropWhile (non_printing env) cs")
  case Nil
  then have "list_all (non_printing env) cs"
    by (simp add: dropWhile_eq_Nil_conv list_all_iff)
  then show ?thesis
    unfolding grapheme_width_spec_def Nil by (simp add: width_value_def width_fold_flags width_start_def)
next
  case (Cons base rest)
  define pre where "pre = takeWhile (non_printing env) cs"
  have cs: "cs = pre @ base # rest"
    unfolding pre_def Cons [symmetric] by simp
  have base: "\<not> non_printing env base"
    using Cons by (metis dropWhile_eq_Cons_conv)
  have "list_all (non_printing env) pre"
    by (simp add: pre_def list_all_iff) (metis set_takeWhileD)
  then have "\<not> found_base (fold (width_step env) pre width_start)"
    by (rule width_fold_invisible) (simp add: width_start_def)
  then have st: "found_base (width_step env base (fold (width_step env) pre width_start))"
    "width (width_step env base (fold (width_step env) pre width_start)) = east_asian_width env base"
    using base by (auto simp: width_step_def Let_def)
  have "width (fold (width_step env) cs width_start)
      = east_asian_width env base + sum_list (map (extra_width env) rest)"
    using width_fold_extras [OF st(1)] st(2) by (simp add: cs)
  moreover have "\<not> all_non_printing (fold (width_step env) cs width_start)"
    "found_base (fold (width_step env) cs width_start)"
    using base by (auto simp: width_fold_flags width_step_flags cs)
  moreover have "emoji (fold (width_step env) cs width_start) \<or> regional (fold (width_step env) cs width_start)
      \<longleftrightarrow> list_ex (emoji_mark env) cs"
    by (simp add: width_fold_flags width_start_def)
  ultimately show ?thesis
    using Cons by (simp add: width_value_def grapheme_width_spec_def)
qed

text \<open>The width of the bytes of one segment; a lone tab counts three.\<close>

definition segment_width_spec :: "icu_env \<Rightarrow> byte list \<Rightarrow> int list \<Rightarrow> int" where
  "segment_width_spec env seg cs = (if seg = [9] then 3 else grapheme_width_spec env cs)"

lemma grapheme_width_ok:
  assumes "ready api" "0 < len" "len \<le> INT32_MAX" "len \<le> int (length bytes)"
    and "decodes env (take (nat len) bytes) 0 cs"
  shows "adou_icu_grapheme_width env api (Some bytes) len
    = Some (segment_width_spec env (take (nat len) bytes) cs, api)"
proof -
  have "take (nat len) bytes = [9] \<longleftrightarrow> len = 1 \<and> bytes ! 0 = 9"
    using assms(2,4) by (cases bytes) (auto simp: take_Cons' nat_eq_iff)
  then show ?thesis
    using assms width_loop_decodes [OF assms(5), of width_start]
    by (simp add: adou_icu_grapheme_width_def segment_width_spec_def width_of_fold)
qed

lemma segment_width_nonneg: "0 \<le> segment_width_spec env seg cs"
proof -
  have "0 \<le> east_asian_width env c" for c by (simp add: east_asian_width_def Let_def)
  then show ?thesis
    by (auto simp: segment_width_spec_def grapheme_width_spec_def extra_width_def split: list.split
        intro!: add_nonneg_nonneg sum_list_nonneg)
qed

lemma visible_width_loop_ok:
  assumes "ready api"
    and "list_all2 (\<lambda>(i, j) cs. 0 \<le> i \<and> i < j \<and> j \<le> int (length bytes) \<and> j \<le> INT32_MAX
           \<and> decodes env (slice bytes i j) 0 cs) (pairs (start # map fst it)) css"
  shows "visible_width_loop env api bytes start it acc
    = Some (acc + (\<Sum>((i, j), cs) \<leftarrow> zip (pairs (start # map fst it)) css.
        segment_width_spec env (slice bytes i j) cs), api)"
  using assms(2)
proof (induction it arbitrary: start css acc)
  case (Cons b it)
  obtain stop status where b: "b = (stop, status)" by fastforce
  from Cons.prems obtain cs css' where css: "css = cs # css'" and
    seg: "0 \<le> start" "start < stop" "stop \<le> int (length bytes)" "stop \<le> INT32_MAX"
    "decodes env (slice bytes start stop) 0 cs"
    and rest: "list_all2 (\<lambda>(i, j) cs. 0 \<le> i \<and> i < j \<and> j \<le> int (length bytes) \<and> j \<le> INT32_MAX
           \<and> decodes env (slice bytes i j) 0 cs) (pairs (stop # map fst it)) css'"
    by (auto simp: b list_all2_Cons1)
  have "adou_icu_grapheme_width env api (Some (drop (nat start) bytes)) (stop - start)
      = Some (segment_width_spec env (slice bytes start stop) cs, api)"
    unfolding slice_def using seg by (intro grapheme_width_ok assms(1)) (auto simp: slice_def)
  then show ?case
    using Cons.IH [OF rest] segment_width_nonneg [of env "slice bytes start stop" cs]
    by (simp add: b css)
qed simp

text \<open>
  C21. On a text whose segments decode to code points, adou_icu_visible_width returns the sum
  over the graphemes of a declarative width: 3 for a tab, 0 when nothing is visible, 2 for
  emoji and flags, else the width of the first visible code point plus the extras after it.
\<close>

theorem icu_visible_width_sums_graphemes:
  assumes "ready api" "0 \<le> len" "len \<le> INT32_MAX" "len \<le> int (length bytes)"
    and op: "open_break_iterator env api bytes len UBRK_CHARACTER = (Some it, ev, api)"
    and it: "it \<noteq> []"
    and dec: "list_all2 (\<lambda>(i, j) cs. 0 \<le> i \<and> i < j \<and> j \<le> len \<and> decodes env (slice bytes i j) 0 cs)
        (pairs (map fst it)) css"
  shows "adou_icu_visible_width env api (Some bytes) len
    = Some (\<Sum>((i, j), cs) \<leftarrow> zip (pairs (map fst it)) css.
        segment_width_spec env (slice bytes i j) cs, [TextOpen, BreakOpen, BreakClose, TextClose], api)"
proof -
  obtain start st rest where it': "it = (start, st) # rest"
    using it by (metis list.exhaust surj_pair)
  have "list_all2 (\<lambda>(i, j) cs. 0 \<le> i \<and> i < j \<and> j \<le> int (length bytes) \<and> j \<le> INT32_MAX
           \<and> decodes env (slice bytes i j) 0 cs) (pairs (start # map fst rest)) css"
    using dec assms(3,4) by (auto simp: it' elim!: list_all2_mono)
  from visible_width_loop_ok [OF assms(1) this] show ?thesis
    using assms(1-3) op open_break_iterator_events(2) [OF op]
    by (simp add: adou_icu_visible_width_def it')
qed

theorem icu_visible_width_sums_graphemes_witness:
  "adou_icu_visible_width ascii_env ascii_api (Some [72, 9, 7]) 3
   = Some (4, [TextOpen, BreakOpen, BreakClose, TextClose], ascii_api)"
proof -
  let ?it = "[(0, 200), (1, 200), (2, 200), (3, 200)] :: (int \<times> int) list"
  let ?css = "[[72], [9], [7]] :: int list list"
  have op: "open_break_iterator ascii_env ascii_api [72, 9, 7] 3 UBRK_CHARACTER
      = (Some ?it, [TextOpen, BreakOpen], ascii_api)"
    by (simp add: open_break_iterator_def ascii_ready INT32_MAX_def)
      (simp add: ascii_env_def numeral_3_eq_3 upt_rec U_FAILURE_def)
  have dec: "list_all2 (\<lambda>(i, j) cs. 0 \<le> i \<and> i < j \<and> j \<le> 3
      \<and> decodes ascii_env (slice [72, 9, 7] i j) 0 cs) (pairs (map fst ?it)) ?css"
    by (simp add: slice_def ascii_env_def)
  have "(\<Sum>((i, j), cs) \<leftarrow> zip (pairs (map fst ?it)) ?css.
      segment_width_spec ascii_env (slice [72, 9, 7] i j) cs) = 4"
    by (simp add: slice_def segment_width_spec_def grapheme_width_spec_def non_printing_def
        ascii_env_def U_CONTROL_CHAR_def U_FORMAT_CHAR_def U_NON_SPACING_MARK_def
        U_ENCLOSING_MARK_def U_COMBINING_SPACING_MARK_def U_SURROGATE_def emoji_mark_def
        east_asian_width_def U_EA_WIDE_def U_EA_FULLWIDTH_def Let_def)
  with icu_visible_width_sums_graphemes [OF ascii_ready _ _ _ op _ dec]
  show ?thesis by (simp add: INT32_MAX_def)
qed

end
