(* ===== verification/Unicode_Utf8.thy ===== *)
theory Unicode_Utf8
  imports Adou_Prelude
begin

text \<open>
  UTF-8 texts in Adou's own code: \<open>src/unicode/utf8.n\<close> (validation, decoding with replacement
  characters, lengths in UTF-16 units) and \<open>src/ai/sanitize_unicode.n\<close> (removal of unpaired
  surrogates). A string is the list of its bytes; a cursor into it is the rest of the list.
\<close>

section \<open>Bytes of a sequence\<close>

definition REPLACEMENT :: "byte list" where "REPLACEMENT = [0xEF, 0xBF, 0xBD]"

definition sequence_length :: "byte \<Rightarrow> nat" where
  "sequence_length first =
     (if first \<ge> 0xC2 \<and> first \<le> 0xDF then 2
      else if first \<ge> 0xE0 \<and> first \<le> 0xEF then 3
      else if first \<ge> 0xF0 \<and> first \<le> 0xF4 then 4
      else 0)"

definition is_continuation :: "byte \<Rightarrow> bool" where
  "is_continuation v \<longleftrightarrow> v \<ge> 0x80 \<and> v \<le> 0xBF"

definition valid_second :: "byte \<Rightarrow> byte \<Rightarrow> bool" where
  "valid_second first second =
     (if first = 0xE0 \<and> second < 0xA0 then False
      else if first = 0xED \<and> second > 0x9F then False
      else if first = 0xF0 \<and> second < 0x90 then False
      else if first = 0xF4 \<and> second > 0x8F then False
      else True)"

section \<open>Validation and decoding\<close>

text \<open>The loop of \<open>is_valid\<close> from the cursor on.\<close>

function is_valid :: "byte list \<Rightarrow> bool" where
  "is_valid [] = True"
| "is_valid (first # z) =
     (if first < 0x80 then is_valid z
      else
        let expected = sequence_length first in
        if expected = 0 \<or> expected > length (first # z) then False
        else if \<not> list_all is_continuation (take (expected - 1) z) then False
        else if \<not> valid_second first (hd z) then False
        else is_valid (drop (expected - 1) z))"
  by pat_completeness auto
termination
  by (relation "measure length") auto

text \<open>\<open>available\<close> counts the first byte and the continuation bytes behind it.\<close>

definition available :: "nat \<Rightarrow> byte list \<Rightarrow> nat" where
  "available expected z = 1 + length (takeWhile is_continuation (take (expected - 1) z))"

function replacement_decode :: "byte list \<Rightarrow> byte list" where
  "replacement_decode [] = []"
| "replacement_decode (first # z) =
     (if first < 0x80 then first # replacement_decode z
      else
        let expected = sequence_length first in
        if expected = 0 then REPLACEMENT @ replacement_decode z
        else if available expected z < expected then
          REPLACEMENT @ replacement_decode (drop (available expected z - 1) z)
        else if \<not> valid_second first (hd z) then REPLACEMENT @ replacement_decode z
        else (first # take (expected - 1) z) @ replacement_decode (drop (expected - 1) z))"
  by pat_completeness auto
termination
  by (relation "measure length") auto

section \<open>Lengths in UTF-16 units\<close>

text \<open>The length of the sequence at the cursor, as the two functions take it.\<close>

definition step_length :: "byte \<Rightarrow> nat" where
  "step_length first = (if sequence_length first = 0 then 1 else sequence_length first)"

definition step_units :: "byte \<Rightarrow> nat" where
  "step_units first = (if step_length first = 4 then 2 else 1)"

function utf16_units :: "byte list \<Rightarrow> nat" where
  "utf16_units [] = 0"
| "utf16_units (b # z) = step_units b + utf16_units (drop (step_length b - 1) z)"
  by pat_completeness auto
termination
  by (relation "measure length") auto

definition utf16_length :: "byte list \<Rightarrow> nat" where
  "utf16_length input = utf16_units (replacement_decode input)"

text \<open>The loop of \<open>utf16_prefix\<close>, with \<open>units\<close> taken so far.\<close>

function prefix_loop :: "nat \<Rightarrow> nat \<Rightarrow> byte list \<Rightarrow> byte list" where
  "prefix_loop maximum units [] = []"
| "prefix_loop maximum units (b # z) =
     (let next_units = step_units b in
      if units + next_units > maximum then
        (if next_units = 2 \<and> units + 1 = maximum then REPLACEMENT else [])
      else
        (b # take (step_length b - 1) z) @
          prefix_loop maximum (units + next_units) (drop (step_length b - 1) z))"
  by pat_completeness auto
termination
  by (relation "measure (\<lambda>(m, u, z). length z)") auto

definition utf16_prefix :: "byte list \<Rightarrow> int \<Rightarrow> byte list" where
  "utf16_prefix input maximum =
     (if maximum \<le> 0 then [] else prefix_loop (nat maximum) 0 (replacement_decode input))"

section \<open>Unpaired surrogates\<close>

text \<open>\<open>sanitize_surrogates\<close>, from the cursor on.\<close>

function sanitize_surrogates :: "byte list \<Rightarrow> byte list" where
  "sanitize_surrogates [] = []"
| "sanitize_surrogates (byte # z) =
     (if byte = 0xED \<and> 2 < length (byte # z) \<and> z ! 0 \<ge> 0xA0 \<and> z ! 0 \<le> 0xBF then
        let is_low = z ! 0 \<ge> 0xB0;
            has_following_low = \<not> is_low \<and> 5 < length (byte # z) \<and> z ! 2 = 0xED \<and>
              z ! 3 \<ge> 0xB0 \<and> z ! 3 \<le> 0xBF in
        if \<not> is_low \<and> has_following_low then
          (byte # take 5 z) @ sanitize_surrogates (drop 5 z)
        else sanitize_surrogates (drop 2 z)
      else byte # sanitize_surrogates z)"
  by pat_completeness auto
termination
  by (relation "measure length") auto

section \<open>Code points\<close>

definition surrogate :: "nat \<Rightarrow> bool" where "surrogate n \<longleftrightarrow> 0xD800 \<le> n \<and> n < 0xE000"

definition scalar_value :: "nat \<Rightarrow> bool" where
  "scalar_value n \<longleftrightarrow> n < 0x110000 \<and> \<not> surrogate n"

definition encode :: "nat \<Rightarrow> byte list" where
  "encode n = map of_nat
     (if n < 0x80 then [n]
      else if n < 0x800 then [0xC0 + n div 64, 0x80 + n mod 64]
      else if n < 0x10000 then [0xE0 + n div 4096, 0x80 + n div 64 mod 64, 0x80 + n mod 64]
      else [0xF0 + n div 262144, 0x80 + n div 4096 mod 64, 0x80 + n div 64 mod 64, 0x80 + n mod 64])"

definition encode_all :: "nat list \<Rightarrow> byte list" where
  "encode_all cs = concat (map encode cs)"

lemma encode_all_simps [simp]: "encode_all [] = []" "encode_all (c # cs) = encode c @ encode_all cs"
  by (simp_all add: encode_all_def)

lemma byte_bound [simp]: "unat (b :: byte) < 256"
  using unsigned_less [of b] by simp

lemma unat_small: "k < 256 \<Longrightarrow> unat (of_nat k :: byte) = k"
  by (simp add: unsigned_of_nat take_bit_nat_eq_self)

text \<open>The conditions on bytes, over natural numbers.\<close>

lemma byte_tests:
  "first < 0x80 \<longleftrightarrow> unat first < 128"
  "is_continuation b \<longleftrightarrow> 128 \<le> unat b \<and> unat b < 192"
  "sequence_length first = (if 0xC2 \<le> unat first \<and> unat first \<le> 0xDF then 2
     else if 0xE0 \<le> unat first \<and> unat first \<le> 0xEF then 3
     else if 0xF0 \<le> unat first \<and> unat first \<le> 0xF4 then 4 else 0)"
  "valid_second first b \<longleftrightarrow> \<not> (unat first = 0xE0 \<and> unat b < 0xA0) \<and> \<not> (unat first = 0xED \<and> unat b > 0x9F) \<and>
     \<not> (unat first = 0xF0 \<and> unat b < 0x90) \<and> \<not> (unat first = 0xF4 \<and> unat b > 0x8F)"
  by (auto simp: is_continuation_def sequence_length_def valid_second_def word_le_nat_alt
      word_less_nat_alt word_unat_eq_iff)

lemma digit_split: "n = q * 64 + c \<Longrightarrow> c < 64 \<Longrightarrow> n div 64 = q" "n = q * 64 + c \<Longrightarrow> c < 64 \<Longrightarrow> n mod 64 = c"
  for n :: nat
  by simp_all

lemma digit_join:
  "n = n div 4096 * 4096 + n div 64 mod 64 * 64 + n mod 64"
  "n = n div 262144 * 262144 + n div 4096 mod 64 * 4096 + n div 64 mod 64 * 64 + n mod 64" for n :: nat
proof -
  have *: "n div 4096 = n div 64 div 64" "n div 262144 = n div 4096 div 64"
    by (simp_all add: div_mult2_eq [symmetric])
  show "n = n div 4096 * 4096 + n div 64 mod 64 * 64 + n mod 64"
    using *(1) div_mult_mod_eq [of n 64] div_mult_mod_eq [of "n div 64" 64] by linarith
  then show "n = n div 262144 * 262144 + n div 4096 mod 64 * 4096 + n div 64 mod 64 * 64 + n mod 64"
    using *(2) div_mult_mod_eq [of "n div 4096" 64] by linarith
qed

text \<open>What \<open>encode\<close> writes, by the digits in base 64.\<close>

lemma of_nat_byte: "unat w = k \<Longrightarrow> of_nat k = (w :: byte)"
  by auto

lemma encode_bytes:
  "n < 0x80 \<Longrightarrow> unat w = n \<Longrightarrow> encode n = [w]"
  "2 \<le> a \<Longrightarrow> a < 32 \<Longrightarrow> b < 64 \<Longrightarrow> n = a * 64 + b \<Longrightarrow> unat w = 0xC0 + a \<Longrightarrow> unat x = 0x80 + b \<Longrightarrow>
     encode n = [w, x]"
  "a < 16 \<Longrightarrow> b < 64 \<Longrightarrow> c < 64 \<Longrightarrow> a \<noteq> 0 \<or> 32 \<le> b \<Longrightarrow> n = a * 4096 + b * 64 + c \<Longrightarrow>
     unat w = 0xE0 + a \<Longrightarrow> unat x = 0x80 + b \<Longrightarrow> unat y = 0x80 + c \<Longrightarrow> encode n = [w, x, y]"
  "a \<le> 4 \<Longrightarrow> b < 64 \<Longrightarrow> c < 64 \<Longrightarrow> d < 64 \<Longrightarrow> a \<noteq> 0 \<or> 16 \<le> b \<Longrightarrow>
     n = a * 262144 + b * 4096 + c * 64 + d \<Longrightarrow> unat w = 0xF0 + a \<Longrightarrow> unat x = 0x80 + b \<Longrightarrow>
     unat y = 0x80 + c \<Longrightarrow> unat v = 0x80 + d \<Longrightarrow> encode n = [w, x, y, v]"
proof -
  show "n < 0x80 \<Longrightarrow> unat w = n \<Longrightarrow> encode n = [w]" by (auto simp: encode_def)
next
  assume *: "2 \<le> a" "a < 32" "b < 64" "n = a * 64 + b" "unat w = 0xC0 + a" "unat x = 0x80 + b"
  then have "n div 64 = a" "n mod 64 = b" "\<not> n < 0x80" "n < 0x800" by auto
  then show "encode n = [w, x]"
    using *(5,6) by (simp add: encode_def of_nat_byte del: of_nat_add)
next
  assume *: "a < 16" "b < 64" "c < 64" "a \<noteq> 0 \<or> 32 \<le> b" "n = a * 4096 + b * 64 + c"
    and bytes: "unat w = 0xE0 + a" "unat x = 0x80 + b" "unat y = 0x80 + c"
  have "n = (a * 64 + b) * 64 + c" using *(5) by simp
  then have "n div 64 = a * 64 + b" "n mod 64 = c" using *(3) by (rule digit_split)+
  moreover from this(1) have "n div 64 mod 64 = b" using *(2) by (rule digit_split)
  moreover have "n div 4096 = a" using * by linarith
  moreover have "\<not> n < 0x80" "\<not> n < 0x800" "n < 0x10000" using * by auto
  ultimately show "encode n = [w, x, y]"
    using bytes by (simp add: encode_def of_nat_byte del: of_nat_add)
next
  assume *: "a \<le> 4" "b < 64" "c < 64" "d < 64" "a \<noteq> 0 \<or> 16 \<le> b"
      "n = a * 262144 + b * 4096 + c * 64 + d"
    and bytes: "unat w = 0xF0 + a" "unat x = 0x80 + b" "unat y = 0x80 + c" "unat v = 0x80 + d"
  have "n = (a * 4096 + b * 64 + c) * 64 + d" using *(6) by simp
  then have "n div 64 = a * 4096 + b * 64 + c" "n mod 64 = d" using *(4) by (rule digit_split)+
  then have "n div 64 = (a * 64 + b) * 64 + c" "n mod 64 = d" by simp_all
  moreover from this(1) have "n div 64 mod 64 = c" using *(3) by (rule digit_split)
  moreover have 2: "n div 4096 = a * 64 + b" using * by linarith
  moreover from 2 have "n div 4096 mod 64 = b" using *(2) by (rule digit_split)
  moreover have "n div 262144 = a" using * by linarith
  moreover have "\<not> n < 0x80" "\<not> n < 0x800" "\<not> n < 0x10000" using * by auto
  ultimately show "encode n = [w, x, y, v]"
    using bytes by (simp add: encode_def of_nat_byte del: of_nat_add)
qed

text \<open>The four shapes of a code point.\<close>

lemma encode_cases:
  assumes "scalar_value n"
  obtains (one) w where "encode n = [w]" "unat w < 128" "unat w = n"
  | (two) w x where "encode n = [w, x]" "0xC2 \<le> unat w" "unat w \<le> 0xDF" "is_continuation x" "valid_second w x"
      "n < 0x10000"
  | (three) w x y where "encode n = [w, x, y]" "0xE0 \<le> unat w" "unat w \<le> 0xEF"
      "is_continuation x" "is_continuation y" "valid_second w x" "n < 0x10000"
  | (four) w x y v where "encode n = [w, x, y, v]" "0xF0 \<le> unat w" "unat w \<le> 0xF4"
      "is_continuation x" "is_continuation y" "is_continuation v" "valid_second w x" "0x10000 \<le> n"
proof -
  have n: "n < 0x110000" "n < 0xD800 \<or> 0xE000 \<le> n"
    using assms by (auto simp: scalar_value_def surrogate_def)
  consider "n < 0x80" | "0x80 \<le> n" "n < 0x800" | "0x800 \<le> n" "n < 0x10000" | "0x10000 \<le> n" by linarith
  then show thesis
  proof cases
    case 1
    show thesis
      by (rule one [of "of_nat n"]) (use 1 in \<open>simp_all add: encode_def unat_small\<close>)
  next
    case 2
    define a b where "a = n div 64" and "b = n mod 64"
    have ab: "2 \<le> a" "a < 32" "b < 64" "n = a * 64 + b" using 2 by (auto simp: a_def b_def)
    let ?w = "of_nat (0xC0 + a) :: byte" and ?x = "of_nat (0x80 + b) :: byte"
    have u: "unat ?w = 0xC0 + a" "unat ?x = 0x80 + b" using ab by (simp_all only: unat_small)
    show thesis
      by (rule two [OF encode_bytes(2) [OF ab u]]) (use ab 2 in \<open>simp_all only: u byte_tests, auto\<close>)
  next
    case 3
    define a b c where "a = n div 4096" and "b = n div 64 mod 64" and "c = n mod 64"
    have ab: "a < 16" "b < 64" "c < 64" "n = a * 4096 + b * 64 + c"
      using 3 digit_join(1) [of n] by (simp_all add: a_def b_def c_def) linarith?
    then have "a \<noteq> 0 \<or> 32 \<le> b" "a = 13 \<Longrightarrow> b < 32" using 3 n by auto
    let ?w = "of_nat (0xE0 + a) :: byte" and ?x = "of_nat (0x80 + b) :: byte" and ?y = "of_nat (0x80 + c) :: byte"
    have u: "unat ?w = 0xE0 + a" "unat ?x = 0x80 + b" "unat ?y = 0x80 + c" using ab by (simp_all only: unat_small)
    show thesis
      by (rule three [OF encode_bytes(3) [OF ab(1-3) \<open>a \<noteq> 0 \<or> 32 \<le> b\<close> ab(4) u]])
        (use ab 3 \<open>a \<noteq> 0 \<or> 32 \<le> b\<close> \<open>a = 13 \<Longrightarrow> b < 32\<close> in \<open>simp_all only: u byte_tests, auto\<close>)
  next
    case 4
    define a b c d where "a = n div 262144" and "b = n div 4096 mod 64" and "c = n div 64 mod 64" and "d = n mod 64"
    have ab: "a \<le> 4" "b < 64" "c < 64" "d < 64" "n = a * 262144 + b * 4096 + c * 64 + d"
      using n(1) digit_join(2) [of n] by (simp_all add: a_def b_def c_def d_def) linarith?
    then have s: "a \<noteq> 0 \<or> 16 \<le> b" "a = 4 \<Longrightarrow> b < 16" using 4 n by auto
    let ?w = "of_nat (0xF0 + a) :: byte" and ?x = "of_nat (0x80 + b) :: byte"
      and ?y = "of_nat (0x80 + c) :: byte" and ?v = "of_nat (0x80 + d) :: byte"
    have u: "unat ?w = 0xF0 + a" "unat ?x = 0x80 + b" "unat ?y = 0x80 + c" "unat ?v = 0x80 + d"
      using ab by (simp_all only: unat_small)
    show thesis
      by (rule four [OF encode_bytes(4) [OF ab(1-4) s(1) ab(5) u]])
        (use ab 4 s in \<open>simp_all only: u byte_tests, auto\<close>)
  qed
qed

lemmas decode_simps = is_valid.simps(2) replacement_decode.simps(2) utf16_units.simps(2)
  prefix_loop.simps(2)

declare decode_simps [simp del]

lemma is_valid_encode: "scalar_value n \<Longrightarrow> is_valid (encode n @ z) = is_valid z"
  by (erule encode_cases; simp add: is_valid.simps(2) byte_tests(1,3))

lemma replacement_decode_encode:
  "scalar_value n \<Longrightarrow> replacement_decode (encode n @ z) = encode n @ replacement_decode z"
  by (erule encode_cases; simp add: replacement_decode.simps(2) byte_tests(1,3) available_def)

lemma step_encode:
  assumes "scalar_value n"
  obtains w r where "encode n = w # r" "step_length w = Suc (length r)"
    "step_units w = (if n < 0x10000 then 1 else 2)"
  using assms by (cases rule: encode_cases) (simp_all add: step_length_def step_units_def byte_tests(3))

lemma encode_not_Nil [simp]: "encode n \<noteq> []"
  by (simp add: encode_def)

text \<open>A well-formed sequence is the encoding of a code point.\<close>

lemma sequence_encode:
  assumes k: "sequence_length w = k" "k \<noteq> 0" "k \<le> length (w # z)"
    and z: "list_all is_continuation (take (k - 1) z)" "valid_second w (hd z)"
  shows "\<exists>n. scalar_value n \<and> w # take (k - 1) z = encode n"
proof -
  have "k = 2 \<or> k = 3 \<or> k = 4" using k(1,2) by (auto simp: byte_tests(3) split: if_splits)
  then consider (two) x r where "z = x # r" "k = 2" | (three) x y r where "z = x # y # r" "k = 3"
    | (four) x y v r where "z = x # y # v # r" "k = 4"
    using k(3) by (cases z; cases "tl z"; cases "tl (tl z)") auto
  then show ?thesis
  proof cases
    case two
    define a b where "a = unat w - 0xC0" and "b = unat x - 0x80"
    have *: "unat w = 0xC0 + a" "unat x = 0x80 + b" "2 \<le> a" "a < 32" "b < 64"
      using k z two by (auto simp: byte_tests a_def b_def split: if_splits)
    have "encode (a * 64 + b) = [w, x]" by (rule encode_bytes(2) [OF *(3-5) refl *(1,2)])
    moreover have "scalar_value (a * 64 + b)" using * by (auto simp: scalar_value_def surrogate_def)
    ultimately show ?thesis using two by (intro exI [of _ "a * 64 + b"]) simp
  next
    case three
    define a b c where "a = unat w - 0xE0" and "b = unat x - 0x80" and "c = unat y - 0x80"
    have *: "unat w = 0xE0 + a" "unat x = 0x80 + b" "unat y = 0x80 + c" "a < 16" "b < 64" "c < 64"
      "a \<noteq> 0 \<or> 32 \<le> b" "a = 13 \<Longrightarrow> b < 32"
      using k z three by (auto simp: byte_tests a_def b_def c_def split: if_splits)
    have "encode (a * 4096 + b * 64 + c) = [w, x, y]" by (rule encode_bytes(3) [OF *(4-7) refl *(1-3)])
    moreover have "scalar_value (a * 4096 + b * 64 + c)"
      using *(4-6,8) by (cases "a \<le> 12"; cases "a = 13") (auto simp: scalar_value_def surrogate_def)
    ultimately show ?thesis using three by (intro exI [of _ "a * 4096 + b * 64 + c"]) simp
  next
    case four
    define a b c d where "a = unat w - 0xF0" and "b = unat x - 0x80" and "c = unat y - 0x80"
      and "d = unat v - 0x80"
    have *: "unat w = 0xF0 + a" "unat x = 0x80 + b" "unat y = 0x80 + c" "unat v = 0x80 + d" "a \<le> 4"
      "b < 64" "c < 64" "d < 64" "a \<noteq> 0 \<or> 16 \<le> b" "a = 4 \<Longrightarrow> b < 16"
      using k z four by (auto simp: byte_tests a_def b_def c_def d_def split: if_splits)
    have "encode (a * 262144 + b * 4096 + c * 64 + d) = [w, x, y, v]"
      by (rule encode_bytes(4) [OF *(5-9) refl *(1-4)])
    moreover have "scalar_value (a * 262144 + b * 4096 + c * 64 + d)"
      using *(5-10) by (cases "a = 4") (auto simp: scalar_value_def surrogate_def)
    ultimately show ?thesis using four by (intro exI [of _ "a * 262144 + b * 4096 + c * 64 + d"]) simp
  qed
qed

lemma ascii_encode: "w < 0x80 \<Longrightarrow> scalar_value (unat w) \<and> encode (unat w) = [w]"
  by (simp add: byte_tests(1) scalar_value_def surrogate_def encode_bytes(1))

lemma replacement_encode: "REPLACEMENT = encode 0xFFFD" "scalar_value 0xFFFD"
  by (simp_all add: REPLACEMENT_def encode_def scalar_value_def surrogate_def)

lemma is_valid_encode_all: "list_all scalar_value cs \<Longrightarrow> is_valid (encode_all cs)"
  by (induction cs) (simp_all add: is_valid_encode)

lemma is_valid_code_points: "is_valid b \<Longrightarrow> \<exists>cs. list_all scalar_value cs \<and> b = encode_all cs"
proof (induction b rule: is_valid.induct)
  case 1
  show ?case by (rule exI [of _ "[]"]) simp
next
  case (2 w z)
  show ?case
  proof (cases "w < 0x80")
    case True
    with 2 obtain cs where "list_all scalar_value cs" "z = encode_all cs"
      by (auto simp: is_valid.simps(2))
    then show ?thesis
      using ascii_encode [OF True] by (intro exI [of _ "unat w # cs"]) simp
  next
    case False
    let ?k = "sequence_length w"
    have ok: "?k \<noteq> 0" "?k \<le> length (w # z)" "list_all is_continuation (take (?k - 1) z)"
      "valid_second w (hd z)" "is_valid (drop (?k - 1) z)"
      using 2(3) False by (simp_all add: is_valid.simps(2) Let_def split: if_splits)
    obtain n where n: "scalar_value n" "w # take (?k - 1) z = encode n"
      using sequence_encode [OF refl ok(1-4)] by blast
    obtain cs where "list_all scalar_value cs" "drop (?k - 1) z = encode_all cs"
      using 2(2) [OF False refl] ok by auto
    then show ?thesis
      using n append_take_drop_id [of "?k - 1" z]
      by (intro exI [of _ "n # cs"]) (simp flip: n(2))
  qed
qed

text \<open>What the decoder keeps and what it replaces.\<close>

lemma available_cases:
  "available k z < k \<or> available k z = k \<and> k \<le> length (w # z) \<and> list_all is_continuation (take (k - 1) z)"
  if "k \<noteq> 0"
proof -
  let ?t = "takeWhile is_continuation (take (k - 1) z)"
  have le: "length ?t \<le> k - 1" using length_takeWhile_le [of is_continuation "take (k - 1) z"] by simp
  show ?thesis
  proof (cases "length ?t = k - 1")
    case True
    then have "length ?t = length (take (k - 1) z)" "k - 1 \<le> length z"
      using length_takeWhile_le [of is_continuation "take (k - 1) z"] by simp_all
    then have "?t = take (k - 1) z"
      using takeWhile_eq_take [of is_continuation "take (k - 1) z"] by (metis take_all_iff order_refl)
    then have "list_all is_continuation (take (k - 1) z)" by (metis list_all_iff set_takeWhileD)
    then show ?thesis using \<open>k - 1 \<le> length z\<close> True that by (simp add: available_def)
  next
    case False
    then have "available k z < k" using le that unfolding available_def by linarith
    then show ?thesis ..
  qed
qed

lemma decoded_code_points: "\<exists>cs. list_all scalar_value cs \<and> replacement_decode b = encode_all cs"
proof (induction b rule: replacement_decode.induct)
  case 1
  show ?case by (rule exI [of _ "[]"]) simp
next
  case (2 w z)
  note IH = 2
  let ?k = "sequence_length w"
  have step: "\<exists>cs. list_all scalar_value cs \<and> encode n @ r = encode_all cs"
    if r: "scalar_value n" "\<exists>cs. list_all scalar_value cs \<and> r = encode_all cs" for n r
  proof -
    obtain cs where "list_all scalar_value cs" "r = encode_all cs" using r(2) by blast
    then show ?thesis using r(1) by (intro exI [of _ "n # cs"]) simp
  qed
  consider "w < 0x80" | "\<not> w < 0x80" "?k = 0" | "\<not> w < 0x80" "?k \<noteq> 0" "available ?k z < ?k"
    | "\<not> w < 0x80" "?k \<noteq> 0" "\<not> available ?k z < ?k" "\<not> valid_second w (hd z)"
    | "\<not> w < 0x80" "?k \<noteq> 0" "\<not> available ?k z < ?k" "valid_second w (hd z)"
    by blast
  then show ?case
  proof cases
    case 1
    then show ?thesis
      using step [OF conjunct1 [OF ascii_encode] IH(1), of w] ascii_encode [of w]
      by (simp add: replacement_decode.simps(2))
  next
    case 2
    then show ?thesis
      using step [OF replacement_encode(2) IH(2)] by (simp add: replacement_decode.simps(2) replacement_encode(1))
  next
    case 3
    then show ?thesis
      using step [OF replacement_encode(2) IH(3)] by (simp add: replacement_decode.simps(2) replacement_encode(1))
  next
    case 4
    then show ?thesis
      using step [OF replacement_encode(2) IH(4)] by (simp add: replacement_decode.simps(2) replacement_encode(1))
  next
    case 5
    then obtain n where n: "scalar_value n" "w # take (?k - 1) z = encode n"
      using sequence_encode [OF refl, of w z] available_cases [of ?k z w] by auto
    then show ?thesis
      using step [OF n(1) IH(5)] 5 by (simp add: replacement_decode.simps(2) Let_def flip: n(2))
  qed
qed

lemma replacement_decode_encode_all:
  "list_all scalar_value cs \<Longrightarrow> replacement_decode (encode_all cs) = encode_all cs"
  by (induction cs) (simp_all add: replacement_decode_encode)

text \<open>
  C17. is_valid accepts exactly the encodings of sequences of Unicode scalar values: no
  overlong form, no surrogate, nothing above U+10FFFF, nothing cut off.
\<close>

theorem is_valid_iff_code_points:
  "is_valid b \<longleftrightarrow> (\<exists>cs. list_all scalar_value cs \<and> b = encode_all cs)"
  using is_valid_code_points is_valid_encode_all by auto

text \<open>\<open>replacement_decode\<close> always returns well-formed UTF-8, and leaves a text as it is exactly when
  it is well formed already.\<close>

theorem replacement_decode_valid:
  "is_valid (replacement_decode b) \<and> (replacement_decode b = b \<longleftrightarrow> is_valid b)"
proof -
  obtain cs where cs: "list_all scalar_value cs" "replacement_decode b = encode_all cs"
    using decoded_code_points by blast
  then have "is_valid (replacement_decode b)" by (simp add: is_valid_encode_all)
  moreover have "replacement_decode b = b" if "is_valid b"
    using is_valid_code_points [OF that] replacement_decode_encode_all by auto
  ultimately show ?thesis by metis
qed

section \<open>Lengths and prefixes in UTF-16 units\<close>

definition units_of :: "nat list \<Rightarrow> nat" where
  "units_of cs = sum_list (map (\<lambda>n. if n < 0x10000 then 1 else 2) cs)"

lemma utf16_units_encode:
  "scalar_value n \<Longrightarrow> utf16_units (encode n @ z) = (if n < 0x10000 then 1 else 2) + utf16_units z"
  by (erule step_encode) (simp add: utf16_units.simps(2))

lemma utf16_units_encode_all: "list_all scalar_value cs \<Longrightarrow> utf16_units (encode_all cs) = units_of cs"
  by (induction cs) (simp_all add: utf16_units_encode units_of_def)

lemma prefix_loop_encode:
  assumes "scalar_value n"
  shows "prefix_loop m u (encode n @ z) =
    (let k = if n < 0x10000 then 1 else 2 in
     if u + k > m then (if k = 2 \<and> u + 1 = m then REPLACEMENT else [])
     else encode n @ prefix_loop m (u + k) z)"
proof -
  obtain w r where "encode n = w # r" "step_length w = Suc (length r)"
    "step_units w = (if n < 0x10000 then 1 else 2)"
    by (rule step_encode [OF assms])
  then show ?thesis by (simp add: prefix_loop.simps(2) Let_def)
qed

lemma prefix_loop_code_points:
  assumes "list_all scalar_value cs" "u \<le> m"
  shows "\<exists>ds. list_all scalar_value ds \<and> prefix_loop m u (encode_all cs) = encode_all ds \<and>
    u + units_of ds = min m (u + units_of cs)"
  using assms
proof (induction cs arbitrary: u)
  case Nil
  then show ?case by (intro exI [of _ "[]"]) (simp add: units_of_def)
next
  case (Cons n cs)
  let ?k = "if n < 0x10000 then 1 else 2 :: nat"
  have n: "scalar_value n" and units: "units_of (n # cs) = ?k + units_of cs"
    using Cons.prems by (simp_all add: units_of_def)
  consider "u + ?k \<le> m" | "u + 1 = m" "?k = 2" | "u = m" using Cons.prems(2) by (cases "n < 0x10000"; simp; linarith)
  then show ?case
  proof cases
    case 1
    obtain ds where "list_all scalar_value ds" "prefix_loop m (u + ?k) (encode_all cs) = encode_all ds"
      "u + ?k + units_of ds = min m (u + ?k + units_of cs)"
      using Cons.IH [OF _ 1] Cons.prems(1) by auto
    moreover have "\<not> u + ?k > m" using 1 by simp
    ultimately show ?thesis
      using n units
      by (intro exI [of _ "n # ds"]) (simp add: prefix_loop_encode Let_def units_of_def add.assoc)
  next
    case 2
    then show ?thesis
      using n units replacement_encode
      by (intro exI [of _ "[0xFFFD]"]) (simp add: prefix_loop_encode Let_def units_of_def)
  next
    case 3
    then show ?thesis
      using n units
      by (intro exI [of _ "[]"]) (simp add: prefix_loop_encode Let_def units_of_def)
  qed
qed

text \<open>
  The text in UTF-16, as JavaScript keeps it, and back: a code unit of a pair without its partner
  becomes the replacement character.
\<close>

definition utf16_of :: "nat \<Rightarrow> nat list" where
  "utf16_of n =
     (if n < 0x10000 then [n] else [0xD800 + (n - 0x10000) div 0x400, 0xDC00 + (n - 0x10000) mod 0x400])"

definition to_utf16 :: "nat list \<Rightarrow> nat list" where
  "to_utf16 cs = concat (map utf16_of cs)"

fun from_utf16 :: "nat list \<Rightarrow> nat list" where
  "from_utf16 [] = []"
| "from_utf16 [u] = [if surrogate u then 0xFFFD else u]"
| "from_utf16 (u # v # us) =
     (if surrogate u \<and> u < 0xDC00 \<and> surrogate v \<and> 0xDC00 \<le> v then
        (0x10000 + (u - 0xD800) * 0x400 + (v - 0xDC00)) # from_utf16 us
      else (if surrogate u then 0xFFFD else u) # from_utf16 (v # us))"

lemma from_utf16_plain: "\<not> surrogate u \<Longrightarrow> from_utf16 (u # us) = u # from_utf16 us"
  by (cases us) simp_all

lemma utf16_of_pair:
  assumes "scalar_value n" "\<not> n < 0x10000"
  obtains u v where "utf16_of n = [u, v]" "surrogate u" "from_utf16 (u # v # us) = n # from_utf16 us"
proof
  let ?u = "0xD800 + (n - 0x10000) div 0x400" and ?v = "0xDC00 + (n - 0x10000) mod 0x400"
  have "n - 0x10000 < 0x100000" using assms unfolding scalar_value_def by linarith
  then have "(n - 0x10000) div 0x400 < 0x400" by (simp add: less_mult_imp_div_less)
  moreover have "(n - 0x10000) mod 0x400 < 0x400" by simp
  moreover have "0x10000 + (n - 0x10000) div 0x400 * 0x400 + (n - 0x10000) mod 0x400 = n"
    using assms(2) div_mult_mod_eq [of "n - 0x10000" "0x400"] by linarith
  ultimately show "utf16_of n = [?u, ?v]" "surrogate ?u" "from_utf16 (?u # ?v # us) = n # from_utf16 us"
    using assms(2) by (simp_all add: utf16_of_def surrogate_def)
qed

lemma length_to_utf16: "length (to_utf16 cs) = units_of cs"
  by (induction cs) (simp_all add: to_utf16_def units_of_def utf16_of_def)

lemma prefix_loop_utf16:
  "list_all scalar_value cs \<Longrightarrow> u \<le> m \<Longrightarrow>
     prefix_loop m u (encode_all cs) = encode_all (from_utf16 (take (m - u) (to_utf16 cs)))"
proof (induction cs arbitrary: u)
  case Nil
  then show ?case by (simp add: to_utf16_def)
next
  case (Cons n cs)
  have n: "scalar_value n" "list_all scalar_value cs" using Cons.prems(1) by simp_all
  have units: "to_utf16 (n # cs) = utf16_of n @ to_utf16 cs" by (simp add: to_utf16_def)
  show ?case
  proof (cases "u = m")
    case True
    then show ?thesis using n(1) by (simp add: prefix_loop_encode Let_def)
  next
    case False
    show ?thesis
    proof (cases "n < 0x10000")
      case True
      then have "take (m - u) (to_utf16 (n # cs)) = n # take (m - (u + 1)) (to_utf16 cs)"
        using False Cons.prems(2) by (simp add: units utf16_of_def take_Cons')
      moreover have "\<not> surrogate n" using n(1) by (simp add: scalar_value_def)
      ultimately show ?thesis
        using True False Cons.prems(2) n Cons.IH [of "u + 1"]
        by (simp add: prefix_loop_encode Let_def from_utf16_plain)
    next
      case pair: False
      obtain a b where ab: "utf16_of n = [a, b]" "surrogate a"
        "from_utf16 (a # b # take (m - (u + 2)) (to_utf16 cs)) = n # from_utf16 (take (m - (u + 2)) (to_utf16 cs))"
        using utf16_of_pair [OF n(1) pair] by metis
      show ?thesis
      proof (cases "u + 1 = m")
        case True
        then show ?thesis using n(1) pair ab(1,2) replacement_encode(1)
          by (auto simp: prefix_loop_encode Let_def units)
      next
        case more: False
        then have "take (m - u) (to_utf16 (n # cs)) = a # b # take (m - (u + 2)) (to_utf16 cs)"
          using False Cons.prems(2) by (auto simp: units ab(1) take_Cons')
        then show ?thesis
          using more False Cons.prems(2) pair n ab(3) Cons.IH [of "u + 2"]
          by (simp add: prefix_loop_encode Let_def)
      qed
    qed
  qed
qed

text \<open>
  C18. utf16_prefix returns, for any bytes and any maximum, the first maximum UTF-16 units of
  the decoded text, written as UTF-8 again: a surrogate pair cut by the end becomes one U+FFFD
  and everything before it is unchanged. The result is well-formed UTF-8 and has exactly as
  many units as asked for, or all there are when there are fewer.
\<close>

theorem utf16_prefix_length:
  "is_valid (utf16_prefix input maximum) \<and>
   utf16_length (utf16_prefix input maximum) = min (nat maximum) (utf16_length input) \<and>
   (\<exists>cs. list_all scalar_value cs \<and> replacement_decode input = encode_all cs \<and>
      utf16_length input = length (to_utf16 cs) \<and>
      utf16_prefix input maximum = encode_all (from_utf16 (take (nat maximum) (to_utf16 cs))))"
proof -
  obtain cs where cs: "list_all scalar_value cs" "replacement_decode input = encode_all cs"
    using decoded_code_points by blast
  have units: "utf16_length input = length (to_utf16 cs)"
    by (simp add: utf16_length_def cs(2) utf16_units_encode_all [OF cs(1)] length_to_utf16)
  have prefix: "utf16_prefix input maximum = encode_all (from_utf16 (take (nat maximum) (to_utf16 cs)))"
    using prefix_loop_utf16 [OF cs(1), of 0 "nat maximum"] cs(2) by (simp add: utf16_prefix_def)
  obtain ds where ds: "list_all scalar_value ds" "prefix_loop (nat maximum) 0 (encode_all cs) = encode_all ds"
    "units_of ds = min (nat maximum) (units_of cs)"
    using prefix_loop_code_points [OF cs(1), of 0 "nat maximum"] by auto
  have "utf16_prefix input maximum = encode_all ds"
    using ds(2,3) prefix_loop_utf16 [OF cs(1), of 0 "nat maximum"] prefix by simp
  then have "is_valid (utf16_prefix input maximum)" 
    "utf16_length (utf16_prefix input maximum) = min (nat maximum) (utf16_length input)"
    using ds utf16_units_encode_all [OF ds(1)] units
    by (simp_all add: is_valid_encode_all utf16_length_def replacement_decode_encode_all length_to_utf16)
  then show ?thesis using cs units prefix by blast
qed

section \<open>Surrogates\<close>

text \<open>The text without the surrogates that have no partner.\<close>

fun paired_only :: "nat list \<Rightarrow> nat list" where
  "paired_only [] = []"
| "paired_only (c # cs) =
     (if \<not> surrogate c then c # paired_only cs
      else if c < 0xDC00 \<and> cs \<noteq> [] \<and> 0xDC00 \<le> hd cs \<and> surrogate (hd cs) then
        c # hd cs # paired_only (tl cs)
      else paired_only cs)"

declare sanitize_surrogates.simps(2) [simp del]

lemma sanitize_byte: "w \<noteq> 0xED \<Longrightarrow> sanitize_surrogates (w # z) = w # sanitize_surrogates z"
  by (simp add: sanitize_surrogates.simps(2))

lemma continuation_not_lead: "is_continuation x \<Longrightarrow> x \<noteq> 0xED"
  by (auto simp: is_continuation_def)

lemma sanitize_scalar: "scalar_value n \<Longrightarrow> sanitize_surrogates (encode n @ z) = encode n @ sanitize_surrogates z"
proof (erule encode_cases, goal_cases)
  case (1 w)
  then have "w \<noteq> 0xED" by (auto simp: word_unat_eq_iff)
  with 1 show ?case by (simp add: sanitize_byte)
next
  case (2 w x)
  then have "w \<noteq> 0xED" by (auto simp: word_unat_eq_iff)
  with 2 show ?case by (simp add: sanitize_byte continuation_not_lead)
next
  case (3 w x y)
  then have "\<not> (w = 0xED \<and> 0xA0 \<le> x)" by (auto simp: byte_tests(4) word_le_nat_alt)
  then have "sanitize_surrogates (w # x # y # z) = w # sanitize_surrogates (x # y # z)"
    by (auto simp: sanitize_surrogates.simps(2) [of w])
  with 3 show ?case by (simp add: sanitize_byte continuation_not_lead)
next
  case (4 w x y v)
  then have "w \<noteq> 0xED" by (auto simp: word_unat_eq_iff)
  with 4 show ?case by (simp add: sanitize_byte continuation_not_lead)
qed

lemma encode_surrogate:
  assumes "surrogate n"
  obtains x y where "encode n = [0xED, x, y]" "0xA0 \<le> x" "x \<le> 0xBF" "0xB0 \<le> x \<longleftrightarrow> 0xDC00 \<le> n"
    "is_continuation x" "is_continuation y"
proof -
  define b c where "b = n div 64 mod 64" and "c = n mod 64"
  have n: "n = 13 * 4096 + b * 64 + c" "b < 64" "c < 64" "32 \<le> b"
  proof -
    have "n div 4096 = 13" using assms unfolding surrogate_def by linarith
    then show "n = 13 * 4096 + b * 64 + c" using digit_join(1) [of n] by (simp add: b_def c_def)
    then show "32 \<le> b" using assms by (simp add: surrogate_def c_def) linarith?
  qed (simp_all add: b_def c_def)
  let ?x = "of_nat (0x80 + b) :: byte" and ?y = "of_nat (0x80 + c) :: byte"
  have u: "unat (0xED :: byte) = 0xE0 + 13" "unat ?x = 0x80 + b" "unat ?y = 0x80 + c"
    using n by (simp_all only: unat_small, simp)
  show thesis
  proof (rule that [of ?x ?y])
    show "encode n = [0xED, ?x, ?y]" by (rule encode_bytes(3) [OF _ n(2,3) _ n(1) u]) simp_all
    have "(0xA0 \<le> z) = (160 \<le> unat z)" "(z \<le> 0xBF) = (unat z \<le> 191)" "(0xB0 \<le> z) = (176 \<le> unat z)"
      for z :: byte
      by (simp_all add: word_le_nat_alt)
    then show "0xA0 \<le> ?x" "?x \<le> 0xBF" "(0xB0 \<le> ?x) = (0xDC00 \<le> n)"
      using n by (simp_all only: u, auto)
    show "is_continuation ?x" "is_continuation ?y"
      using n by (auto simp only: byte_tests(2) u)
  qed
qed

text \<open>The test for a low surrogate behind the cursor.\<close>

definition low_ahead :: "byte list \<Rightarrow> bool" where
  "low_ahead z \<longleftrightarrow> 2 < length z \<and> z ! 0 = 0xED \<and> z ! 1 \<ge> 0xB0 \<and> z ! 1 \<le> 0xBF"

lemma sanitize_lone: "0xA0 \<le> x \<Longrightarrow> x \<le> 0xBF \<Longrightarrow> sanitize_surrogates (0xED # x # y # z) =
    (if \<not> 0xB0 \<le> x \<and> low_ahead z then 0xED # x # y # take 3 z @ sanitize_surrogates (drop 3 z)
     else sanitize_surrogates z)"
  by (subst sanitize_surrogates.simps(2))
    (simp add: low_ahead_def Let_def numeral_3_eq_3 eval_nat_numeral cong: conj_cong)

lemma encode_lead_ED:
  assumes "c < 0x110000"
  shows "low_ahead (encode c @ z) \<longleftrightarrow> surrogate c \<and> 0xDC00 \<le> c"
proof (cases "surrogate c")
  case True
  then show ?thesis
  proof (rule encode_surrogate)
    fix x y
    assume "encode c = [0xED, x, y]" "x \<le> 0xBF" "(0xB0 \<le> x) = (0xDC00 \<le> c)"
    then show ?thesis using True by (simp add: low_ahead_def)
  qed
next
  case False
  then have "scalar_value c" using assms by (simp add: scalar_value_def)
  then have "\<not> low_ahead (encode c @ z)"
    by (cases rule: encode_cases)
      (auto simp: low_ahead_def byte_tests(2,4) word_le_nat_alt word_unat_eq_iff)
  then show ?thesis using False by simp
qed

lemma low_ahead_encode_all:
  "list_all (\<lambda>c. c < 0x110000) cs \<Longrightarrow>
     low_ahead (encode_all cs) \<longleftrightarrow> cs \<noteq> [] \<and> 0xDC00 \<le> hd cs \<and> surrogate (hd cs)"
  by (cases cs) (auto simp: encode_lead_ED low_ahead_def [of "[]"])

lemma sanitize_encode_all:
  "list_all (\<lambda>c. c < 0x110000) cs \<Longrightarrow> sanitize_surrogates (encode_all cs) = encode_all (paired_only cs)"
proof (induction cs rule: paired_only.induct)
  case 1
  then show ?case by simp
next
  case (2 c cs)
  show ?case
  proof (cases "surrogate c")
    case False
    then show ?thesis using 2 by (simp add: sanitize_scalar scalar_value_def)
  next
    case s: True
    obtain x y where c: "encode c = [0xED, x, y]" "0xA0 \<le> x" "x \<le> 0xBF" "0xB0 \<le> x \<longleftrightarrow> 0xDC00 \<le> c"
      by (rule encode_surrogate [OF s])
    have ahead: "low_ahead (encode_all cs) \<longleftrightarrow> cs \<noteq> [] \<and> 0xDC00 \<le> hd cs \<and> surrogate (hd cs)"
      using low_ahead_encode_all 2(4) by simp
    show ?thesis
    proof (cases "c < 0xDC00 \<and> cs \<noteq> [] \<and> 0xDC00 \<le> hd cs \<and> surrogate (hd cs)")
      case True
      then obtain d ds where d: "cs = d # ds" "surrogate d" by (cases cs) auto
      obtain v w where "encode d = [0xED, v, w]" by (rule encode_surrogate [OF d(2)])
      then show ?thesis
        using 2(2) [OF _ True] 2(4) s True ahead d c by (simp add: sanitize_lone)
    next
      case False
      then show ?thesis using 2(3) [OF _ False] 2(4) s ahead c by (auto simp: sanitize_lone)
    qed
  qed
qed

lemma paired_only_scalar: "list_all scalar_value cs \<Longrightarrow> paired_only cs = cs"
  by (induction cs rule: paired_only.induct) (auto simp: scalar_value_def)

lemma sanitize_valid: "is_valid b \<Longrightarrow> sanitize_surrogates b = b"
proof -
  assume "is_valid b"
  then obtain cs where cs: "list_all scalar_value cs" "b = encode_all cs"
    using is_valid_code_points by blast
  then have "list_all (\<lambda>c. c < 0x110000) cs" by (simp add: list_all_iff scalar_value_def)
  then show ?thesis using cs by (simp add: sanitize_encode_all paired_only_scalar)
qed

text \<open>\<open>sanitize_surrogates\<close> drops the surrogates without a partner from a text whose surrogates were
  encoded one by one, and nothing else; well-formed UTF-8 is returned as it is.\<close>

theorem sanitize_surrogates_correct:
  assumes "list_all (\<lambda>c. c < 0x110000) cs"
  shows "sanitize_surrogates (encode_all cs) = encode_all (paired_only cs) \<and>
    sanitize_surrogates (replacement_decode b) = replacement_decode b"
  using sanitize_encode_all [OF assms] sanitize_valid replacement_decode_valid by simp

lemma sanitize_surrogates_correct_witness:
  "sanitize_surrogates (encode_all [0x41, 0xD83D, 0x42, 0xD83D, 0xDE00, 0xDE00]) =
     encode_all [0x41, 0x42, 0xD83D, 0xDE00]"
  using sanitize_surrogates_correct [of "[0x41, 0xD83D, 0x42, 0xD83D, 0xDE00, 0xDE00]"]
  by (simp add: surrogate_def)

section \<open>Pieces of a text\<close>

lemma encode_all_append [simp]: "encode_all (xs @ ys) = encode_all xs @ encode_all ys"
  by (simp add: encode_all_def)

lemma is_valid_append: "is_valid xs \<Longrightarrow> is_valid ys \<Longrightarrow> is_valid (xs @ ys)"
  unfolding is_valid_iff_code_points by (metis encode_all_append list_all_append)

lemma encode_ascii_only: "scalar_value n \<Longrightarrow> c \<in> set (encode n) \<Longrightarrow> c < 0x80 \<Longrightarrow> encode n = [c]"
  by (erule encode_cases) (auto simp: byte_tests(1,2))

lemma encode_all_split:
  "list_all scalar_value cs \<Longrightarrow> encode_all cs = xs @ c # ys \<Longrightarrow> c < 0x80 \<Longrightarrow> is_valid xs \<and> is_valid ys"
proof (induction cs arbitrary: xs)
  case (Cons n cs)
  have n: "scalar_value n" using Cons.prems by simp
  obtain us where us: "encode n = xs @ us \<and> us @ encode_all cs = c # ys \<or>
      encode n @ us = xs \<and> encode_all cs = us @ c # ys"
    using Cons.prems(2) by (auto simp: append_eq_append_conv2)
  consider "encode n = xs" "encode_all cs = c # ys"
    | us' where "encode n = xs @ c # us'" "us' @ encode_all cs = ys"
    | us where "encode n @ us = xs" "encode_all cs = us @ c # ys"
    using us by (cases us) auto
  then show ?case
  proof cases
    case 1
    then show ?thesis
      using Cons.IH [of "[]"] Cons.prems n is_valid_encode [of n "[]"] by simp
  next
    case 2
    then have "encode n = [c]" using encode_ascii_only [OF n _ Cons.prems(3)] by simp
    then show ?thesis using 2 Cons.prems(1) is_valid_encode_all [of cs] by (simp add: append_eq_Cons_conv)
  next
    case 3
    then show ?thesis
      using Cons.IH [of us] Cons.prems is_valid_encode [OF n, of us] by auto
  qed
qed simp

lemma is_valid_split: "is_valid (xs @ c # ys) \<Longrightarrow> c < 0x80 \<Longrightarrow> is_valid xs \<and> is_valid ys"
  by (metis encode_all_split is_valid_code_points)

text \<open>\<open>strings.join(lines, '\n')\<close>.\<close>

fun join_lines :: "byte list list \<Rightarrow> byte list" where
  "join_lines [] = []"
| "join_lines [l] = l"
| "join_lines (l # ls) = l @ 0x0A # join_lines ls"

lemma join_lines_valid: "list_all is_valid ls \<Longrightarrow> is_valid (join_lines ls)"
proof (induction ls rule: join_lines.induct)
  case (3 l l' ls)
  then have "is_valid (0x0A # join_lines (l' # ls))" by (simp add: is_valid.simps(2))
  then show ?case using 3 is_valid_append by simp
qed simp_all

end
