(* ===== verification/Sse.thy ===== *)
theory Sse
  imports Unicode_Utf8
begin

text \<open>
  The parser of Server-Sent Events, \<open>src/ai/sse.n\<close>: framing of lines and events over arbitrary
  chunks, with its limits and its validation. The string method \<open>to_int\<close> of the Nature standard
  library, which \<open>update_retry\<close> calls on decimal digits, is the parameter \<open>to_int\<close> (\<open>None\<close> where it
  throws). A method that throws has changed the parser up to that point: each returns the
  parser and either the error or the result. Nature's 64-bit integers count bytes in memory
  here and are unbounded in the model.
\<close>

section \<open>Data\<close>

definition DEFAULT_MAX_LINE_BYTES :: int where "DEFAULT_MAX_LINE_BYTES = 256 * 1024"
definition DEFAULT_MAX_EVENT_BYTES :: int where "DEFAULT_MAX_EVENT_BYTES = 1024 * 1024"

record event_t =
  ev_event :: "byte list"
  ev_data :: "byte list"
  ev_id :: "byte list"
  ev_retry :: int

record parser_t =
  line :: "byte list"
  data_lines :: "byte list list"
  event_name :: "byte list"
  last_event_id :: "byte list"
  retry :: int
  event_bytes :: int
  max_line_bytes :: int
  max_event_bytes :: int
  first_line :: bool
  saw_cr :: bool
  finished :: bool

datatype sse_error =
    SSE_limits
  | SSE_finished
  | SSE_already_finished
  | SSE_line_exceeds int
  | SSE_event_exceeds int
  | UTF8_invalid nat
  | UTF8_incomplete nat
  | UTF8_continuation nat
  | UTF8_scalar nat

type_synonym 'a thrown = "sse_error + 'a"

definition new_parser :: "int \<Rightarrow> int \<Rightarrow> parser_t" where
  "new_parser max_line max_event =
     \<lparr>line = [], data_lines = [], event_name = [], last_event_id = [], retry = - 1, event_bytes = 0,
      max_line_bytes = max_line, max_event_bytes = max_event, first_line = True, saw_cr = False,
      finished = False\<rparr>"

definition parser :: parser_t where
  "parser = new_parser DEFAULT_MAX_LINE_BYTES DEFAULT_MAX_EVENT_BYTES"

definition parser_with_limits :: "int \<Rightarrow> int \<Rightarrow> parser_t thrown" where
  "parser_with_limits max_line max_event =
     (if max_line \<le> 0 \<or> max_event \<le> 0 then Inl SSE_limits else Inr (new_parser max_line max_event))"

section \<open>Lines\<close>

definition contains_nul :: "byte list \<Rightarrow> bool" where
  "contains_nul bytes \<longleftrightarrow> list_ex (\<lambda>b. b = 0) bytes"

text \<open>The check of a line from byte \<open>i\<close> on.\<close>

function valid_utf8 :: "nat \<Rightarrow> byte list \<Rightarrow> unit thrown" where
  "valid_utf8 i [] = Inr ()"
| "valid_utf8 i (first # z) =
     (if first \<le> 0x7F then valid_utf8 (i + 1) z
      else
        let width = (if first \<ge> 0xC2 \<and> first \<le> 0xDF then 2
                     else if first \<ge> 0xE0 \<and> first \<le> 0xEF then 3
                     else if first \<ge> 0xF0 \<and> first \<le> 0xF4 then 4
                     else 0);
            good = length (takeWhile (\<lambda>c. \<not> (c < 0x80 \<or> c > 0xBF)) (take (width - 1) z));
            second = hd z in
        if width = 0 then Inl (UTF8_invalid i)
        else if width > length (first # z) then Inl (UTF8_incomplete i)
        else if good < width - 1 then Inl (UTF8_continuation (i + 1 + good))
        else if first = 0xE0 \<and> second < 0xA0 \<or> first = 0xED \<and> second > 0x9F \<or>
            first = 0xF0 \<and> second < 0x90 \<or> first = 0xF4 \<and> second > 0x8F then
          Inl (UTF8_scalar i)
        else valid_utf8 (i + width) (drop (width - 1) z))"
  by pat_completeness auto
termination
  by (relation "measure (\<lambda>(i, z). length z)") auto

text \<open>The texts \<open>event\<close>, \<open>data\<close>, \<open>id\<close>, \<open>retry\<close> and \<open>message\<close>.\<close>

definition str_event :: "byte list" where "str_event = [0x65, 0x76, 0x65, 0x6E, 0x74]"
definition str_data :: "byte list" where "str_data = [0x64, 0x61, 0x74, 0x61]"
definition str_id :: "byte list" where "str_id = [0x69, 0x64]"
definition str_retry :: "byte list" where "str_retry = [0x72, 0x65, 0x74, 0x72, 0x79]"
definition str_message :: "byte list" where "str_message = [0x6D, 0x65, 0x73, 0x73, 0x61, 0x67, 0x65]"

lemmas str_defs = str_event_def str_data_def str_id_def str_retry_def str_message_def

definition dispatch :: "parser_t \<Rightarrow> event_t list \<Rightarrow> parser_t \<times> event_t list" where
  "dispatch self events =
     (let events = (if data_lines self \<noteq> [] then
            events @ [\<lparr>ev_event = (if event_name self = [] then str_message else event_name self),
              ev_data = join_lines (data_lines self), ev_id = last_event_id self, ev_retry = retry self\<rparr>]
          else events) in
      (self\<lparr>data_lines := [], event_name := [], event_bytes := 0\<rparr>, events))"

definition update_retry :: "(byte list \<Rightarrow> int option) \<Rightarrow> parser_t \<Rightarrow> byte list \<Rightarrow> parser_t" where
  "update_retry to_int self value =
     (if value = [] then self
      else if list_ex (\<lambda>b. b < 0x30 \<or> b > 0x39) value then self
      else
        let parsed = (case to_int value of None \<Rightarrow> - 1 | Some n \<Rightarrow> n) in
        if parsed \<ge> 0 then self\<lparr>retry := parsed\<rparr> else self)"

text \<open>The field before the first colon, and the value behind it less one leading space.\<close>

definition split_field :: "byte list \<Rightarrow> byte list \<times> byte list" where
  "split_field bytes =
     (case dropWhile (\<lambda>b. b \<noteq> 0x3A) bytes of
        [] \<Rightarrow> (bytes, [])
      | colon # v \<Rightarrow>
          (takeWhile (\<lambda>b. b \<noteq> 0x3A) bytes, if v \<noteq> [] \<and> hd v = 0x20 then tl v else v))"

definition process_field :: "(byte list \<Rightarrow> int option) \<Rightarrow> parser_t \<Rightarrow> byte list \<Rightarrow> byte list \<Rightarrow> parser_t" where
  "process_field to_int self field value =
     (if field = str_event then self\<lparr>event_name := value\<rparr>
      else if field = str_data then self\<lparr>data_lines := data_lines self @ [value]\<rparr>
      else if field = str_id then
        (if \<not> contains_nul value then self\<lparr>last_event_id := value\<rparr> else self)
      else if field = str_retry then update_retry to_int self value
      else self)"

definition strip_bom :: "byte list \<Rightarrow> byte list" where
  "strip_bom bytes =
     (if 3 \<le> length bytes \<and> bytes ! 0 = 0xEF \<and> bytes ! 1 = 0xBB \<and> bytes ! 2 = 0xBF then drop 3 bytes
      else bytes)"

text \<open>The line \<open>bytes\<close>, less its byte-order mark.\<close>

definition process_bytes ::
  "(byte list \<Rightarrow> int option) \<Rightarrow> parser_t \<Rightarrow> event_t list \<Rightarrow> byte list \<Rightarrow> parser_t \<times> event_t list thrown" where
  "process_bytes to_int self events bytes =
     (case valid_utf8 0 bytes of
        Inl e \<Rightarrow> (self, Inl e)
      | Inr _ \<Rightarrow>
          if bytes = [] then apsnd Inr (dispatch self events)
          else
            let self = self\<lparr>event_bytes := event_bytes self + (int (length bytes) + 1)\<rparr> in
            if event_bytes self > max_event_bytes self then
              (self, Inl (SSE_event_exceeds (max_event_bytes self)))
            else if hd bytes = 0x3A then (self, Inr events)
            else
              let (field, value) = split_field bytes in
              (process_field to_int self field value, Inr events))"

definition process_line ::
  "(byte list \<Rightarrow> int option) \<Rightarrow> parser_t \<Rightarrow> event_t list \<Rightarrow> parser_t \<times> event_t list thrown" where
  "process_line to_int self events =
     process_bytes to_int (self\<lparr>line := [], first_line := False\<rparr>) events
       (if first_line self then strip_bom (line self) else line self)"

section \<open>Feeding and finishing\<close>

fun feed_loop ::
  "(byte list \<Rightarrow> int option) \<Rightarrow> parser_t \<Rightarrow> event_t list \<Rightarrow> byte list \<Rightarrow> parser_t \<times> event_t list thrown" where
  "feed_loop to_int self events [] = (self, Inr events)"
| "feed_loop to_int self events (b # chunk) =
     (if saw_cr self \<and> b = 0x0A then feed_loop to_int (self\<lparr>saw_cr := False\<rparr>) events chunk
      else
        let self = self\<lparr>saw_cr := False\<rparr> in
        if b = 0x0D then
          (case process_line to_int self events of
             (self, Inl e) \<Rightarrow> (self, Inl e)
           | (self, Inr events) \<Rightarrow> feed_loop to_int (self\<lparr>saw_cr := True\<rparr>) events chunk)
        else if b = 0x0A then
          (case process_line to_int self events of
             (self, Inl e) \<Rightarrow> (self, Inl e)
           | (self, Inr events) \<Rightarrow> feed_loop to_int self events chunk)
        else if int (length (line self)) \<ge> max_line_bytes self then
          (self, Inl (SSE_line_exceeds (max_line_bytes self)))
        else feed_loop to_int (self\<lparr>line := line self @ [b]\<rparr>) events chunk)"

definition feed ::
  "(byte list \<Rightarrow> int option) \<Rightarrow> parser_t \<Rightarrow> byte list \<Rightarrow> parser_t \<times> event_t list thrown" where
  "feed to_int self chunk =
     (if finished self then (self, Inl SSE_finished) else feed_loop to_int self [] chunk)"

definition finish_inner ::
  "(byte list \<Rightarrow> int option) \<Rightarrow> parser_t \<Rightarrow> bool \<Rightarrow> parser_t \<times> event_t list thrown" where
  "finish_inner to_int self dispatch_pending =
     (if finished self then (self, Inl SSE_already_finished)
      else
        let self = self\<lparr>finished := True\<rparr> in
        case (if line self \<noteq> [] then process_line to_int self [] else (self, Inr [])) of
          (self, Inl e) \<Rightarrow> (self, Inl e)
        | (self, Inr events) \<Rightarrow>
            let (self, events) = (if dispatch_pending then dispatch self events else (self, events)) in
            (self\<lparr>line := [], data_lines := [], event_name := [], event_bytes := 0\<rparr>, Inr events))"

definition finish :: "(byte list \<Rightarrow> int option) \<Rightarrow> parser_t \<Rightarrow> parser_t \<times> unit thrown" where
  "finish to_int self = apsnd (map_sum (\<lambda>e. e) (\<lambda>_. ())) (finish_inner to_int self False)"

definition finish_pending :: "(byte list \<Rightarrow> int option) \<Rightarrow> parser_t \<Rightarrow> parser_t \<times> event_t list thrown" where
  "finish_pending to_int self = finish_inner to_int self True"

section \<open>Validation is the validation of the UTF-8 module\<close>

declare valid_utf8.simps(2) [simp del] feed_loop.simps(2) [simp del]

lemma valid_utf8_ascii: "first < 0x80 \<Longrightarrow> valid_utf8 i (first # z) = valid_utf8 (i + 1) z"
  by (simp add: valid_utf8.simps(2) word_le_nat_alt word_less_nat_alt)

lemma valid_utf8_step:
  assumes "\<not> first < 0x80"
  shows "valid_utf8 i (first # z) =
    (let k = sequence_length first; good = length (takeWhile is_continuation (take (k - 1) z)) in
     if k = 0 then Inl (UTF8_invalid i)
     else if k > length (first # z) then Inl (UTF8_incomplete i)
     else if good < k - 1 then Inl (UTF8_continuation (i + 1 + good))
     else if \<not> valid_second first (hd z) then Inl (UTF8_scalar i)
     else valid_utf8 (i + k) (drop (k - 1) z))"
proof -
  have cont: "(\<lambda>c. \<not> (c < 0x80 \<or> c > 0xBF)) = is_continuation"
    by (auto simp: is_continuation_def fun_eq_iff)
  have second: "(first = 0xE0 \<and> s < 0xA0 \<or> first = 0xED \<and> s > 0x9F \<or> first = 0xF0 \<and> s < 0x90 \<or>
      first = 0xF4 \<and> s > 0x8F) = (\<not> valid_second first s)" for s
    by (simp add: valid_second_def)
  have "\<not> first \<le> 0x7F" using assms by (simp add: word_le_nat_alt word_less_nat_alt)
  then show ?thesis
    by (simp only: valid_utf8.simps(2) if_False cont second Let_def sequence_length_def [symmetric])
qed

lemma takeWhile_all: "length (takeWhile P xs) < length xs \<longleftrightarrow> \<not> list_all P xs"
  by (induction xs) auto

text \<open>The parser rejects a line exactly when \<open>is_valid\<close> of the UTF-8 module does.\<close>

theorem valid_utf8_is_valid: "isl (valid_utf8 i bytes) \<longleftrightarrow> \<not> is_valid bytes"
proof (induction bytes arbitrary: i rule: is_valid.induct)
  case 1
  then show ?case by simp
next
  case (2 first z)
  let ?k = "sequence_length first"
  show ?case
  proof (cases "first < 0x80")
    case True
    then show ?thesis using 2(1) by (simp add: valid_utf8_ascii is_valid.simps(2))
  next
    case False
    note IH = 2(2) [OF False refl]
    have less: "length (takeWhile is_continuation (take (?k - 1) z)) < ?k - 1 \<longleftrightarrow>
        \<not> list_all is_continuation (take (?k - 1) z)" if "?k \<le> length (first # z)"
      using that takeWhile_all [of is_continuation "take (?k - 1) z"] by simp
    show ?thesis
      unfolding valid_utf8_step [OF False] is_valid.simps(2) Let_def
      using False less IH by (cases "?k = 0"; cases "?k \<le> length (first # z)") simp_all
  qed
qed

section \<open>Independence of chunk boundaries\<close>

text \<open>Events already collected are carried in front.\<close>

abbreviation prepend :: "event_t list \<Rightarrow> parser_t \<times> event_t list thrown \<Rightarrow> parser_t \<times> event_t list thrown" where
  "prepend es \<equiv> apsnd (map_sum (\<lambda>e. e) (append es))"

lemma dispatch_events: "dispatch p es = apsnd (append es) (dispatch p [])"
  by (simp add: dispatch_def)

lemma process_bytes_events: "process_bytes f p es b = prepend es (process_bytes f p [] b)"
  unfolding process_bytes_def Let_def
  by (subst dispatch_events) (simp split: sum.split add: case_prod_unfold apsnd_def map_prod_def)

lemma process_line_events: "process_line f p es = prepend es (process_line f p [])"
  unfolding process_line_def by (rule process_bytes_events)

lemma feed_loop_append:
  "feed_loop f p es (c1 @ c2) = (case feed_loop f p es c1 of
     (q, Inl e) \<Rightarrow> (q, Inl e)
   | (q, Inr es) \<Rightarrow> feed_loop f q es c2)"
  by (induction f p es c1 rule: feed_loop.induct)
    (simp_all add: feed_loop.simps(2) Let_def split: sum.split prod.split)

lemma prepend_cases:
  "(case prepend es r of (q, Inl e) \<Rightarrow> (q, Inl e) | (q, Inr es') \<Rightarrow> F q es') =
   (case r of (q, Inl e) \<Rightarrow> (q, Inl e) | (q, Inr es') \<Rightarrow> F q (es @ es'))"
  by (simp split: sum.split prod.split)

lemma feed_loop_events: "feed_loop f p es c = prepend es (feed_loop f p [] c)"
proof (induction c arbitrary: p es)
  case Nil
  then show ?case by simp
next
  case (Cons b c)
  have step: "(case process_line f p' es of (q, Inl e) \<Rightarrow> (q, Inl e) | (q, Inr es') \<Rightarrow> feed_loop f (g q) es' c) =
    prepend es (case process_line f p' [] of (q, Inl e) \<Rightarrow> (q, Inl e) | (q, Inr es') \<Rightarrow> feed_loop f (g q) es' c)"
    for p' g
  proof -
    have "prepend es (feed_loop f q es' c) = feed_loop f q (es @ es') c" for q es'
      using Cons.IH [of q es'] Cons.IH [of q "es @ es'"]
      by (cases "feed_loop f q [] c"; cases "snd (feed_loop f q [] c)") simp_all
    then show ?thesis
      unfolding process_line_events [of f p' es] prepend_cases by (simp split: sum.split prod.split)
  qed
  show ?case
    unfolding feed_loop.simps(2) Let_def step [of "\<lambda>q. q"] step [of "\<lambda>q. q\<lparr>saw_cr := True\<rparr>"]
    using Cons.IH [of _ es] by simp
qed

lemma process_bytes_finished: "finished (fst (process_bytes f p es b)) = finished p"
  by (simp add: process_bytes_def Let_def dispatch_def process_field_def update_retry_def
      split: sum.split prod.split option.split)

lemma process_line_finished: "finished (fst (process_line f p es)) = finished p"
  by (simp add: process_line_def process_bytes_finished)

lemma feed_loop_finished: "finished (fst (feed_loop f p es c)) = finished p"
proof (induction c arbitrary: p es)
  case (Cons b c)
  obtain q r where q: "process_line f (p\<lparr>saw_cr := False\<rparr>) es = (q, r)" by fastforce
  then have "finished q = finished p"
    using process_line_finished [of f "p\<lparr>saw_cr := False\<rparr>" es] by simp
  then show ?case
    using q Cons.IH by (simp add: feed_loop.simps(2) Let_def split: sum.split)
qed simp

lemma feed_append:
  "feed f p (c1 @ c2) = (case feed f p c1 of
     (q, Inl e) \<Rightarrow> (q, Inl e)
   | (q, Inr es) \<Rightarrow> prepend es (feed f q c2))"
proof (cases "finished p")
  case False
  obtain q r where q: "feed_loop f p [] c1 = (q, r)" by fastforce
  then have "\<not> finished q" using False feed_loop_finished [of f p "[]" c1] by simp
  show ?thesis
  proof (cases r)
    case (Inl e)
    then show ?thesis using False q by (simp add: feed_def feed_loop_append)
  next
    case (Inr es)
    then show ?thesis
      using False q \<open>\<not> finished q\<close> feed_loop_events [of f q es c2] by (simp add: feed_def feed_loop_append)
  qed
qed (simp add: feed_def)

text \<open>
  A stream that arrives in chunks, fed until a call throws: the parser, the events the calls have
  returned, and the error.
\<close>

fun feed_all ::
  "(byte list \<Rightarrow> int option) \<Rightarrow> parser_t \<Rightarrow> byte list list \<Rightarrow> parser_t \<times> event_t list \<times> sse_error option" where
  "feed_all f p [] = (p, [], None)"
| "feed_all f p (c # cs) =
     (case feed f p c of
        (q, Inl e) \<Rightarrow> (q, [], Some e)
      | (q, Inr es) \<Rightarrow> apsnd (apfst (append es)) (feed_all f q cs))"

lemma feed_Nil: "\<not> finished p \<Longrightarrow> feed f p [] = (p, Inr [])"
  by (simp add: feed_def)

lemma feed_finished: "finished (fst (feed f p c)) = finished p"
  by (simp add: feed_def feed_loop_finished)

lemma feed_all_concat:
  assumes "\<not> finished p"
  shows "feed_all f p cs = (q, es, None) \<Longrightarrow> feed f p (concat cs) = (q, Inr es)"
    "feed_all f p cs = (q, es, Some e) \<Longrightarrow> feed f p (concat cs) = (q, Inl e)"
proof -
  have "case feed_all f p cs of (q, es, err) \<Rightarrow>
      feed f p (concat cs) = (q, case err of None \<Rightarrow> Inr es | Some e \<Rightarrow> Inl e)"
    using assms
  proof (induction cs arbitrary: p)
    case Nil
    then show ?case by (simp add: feed_Nil)
  next
    case (Cons c cs)
    obtain q r where q: "feed f p c = (q, r)" by fastforce
    then have "\<not> finished q" using Cons.prems feed_finished [of f p c] by simp
    then show ?case
      using Cons.IH [of q] q
      by (cases r) (auto simp: feed_append [of f p c] split: prod.splits option.splits)
  qed
  then show "feed_all f p cs = (q, es, None) \<Longrightarrow> feed f p (concat cs) = (q, Inr es)"
    "feed_all f p cs = (q, es, Some e) \<Longrightarrow> feed f p (concat cs) = (q, Inl e)"
    by simp_all
qed

lemma feed_all_append:
  "feed_all f p (cs @ ds) = (case feed_all f p cs of
     (q, es, None) \<Rightarrow> apsnd (apfst (append es)) (feed_all f q ds)
   | (q, es, Some e) \<Rightarrow> (q, es, Some e))"
proof (induction cs arbitrary: p)
  case Nil
  then show ?case by (cases "feed_all f p ds") (simp add: apsnd_def apfst_def map_prod_def)
next
  case (Cons c cs)
  then show ?case
    by (simp add: apsnd_def apfst_def map_prod_def split: prod.splits sum.splits option.splits)
qed

text \<open>Byte by byte no event is lost.\<close>

abbreviation each_byte :: "byte list \<Rightarrow> byte list list" where
  "each_byte \<equiv> map (\<lambda>b. [b])"

lemma concat_each [simp]: "concat (each_byte c) = c"
  by (induction c) simp_all

lemma feed_each:
  assumes "\<not> finished p"
  shows "\<exists>es. feed_all f p (each_byte c) =
    (case feed f p c of (q, Inr es') \<Rightarrow> (q, es', None) | (q, Inl e) \<Rightarrow> (q, es, Some e))"
proof -
  obtain q es err where r: "feed_all f p (each_byte c) = (q, es, err)" by (metis prod_cases3)
  then show ?thesis
    using feed_all_concat [OF assms, of f "each_byte c"] by (cases err) auto
qed

lemma feed_all_each:
  assumes "\<not> finished p"
  shows "case feed_all f p cs of (q, es, err) \<Rightarrow>
    \<exists>es'. feed_all f p (each_byte (concat cs)) = (q, es @ es', err) \<and> (err = None \<longrightarrow> es' = [])"
  using assms
proof (induction cs arbitrary: p)
  case (Cons c cs)
  obtain q r where q: "feed f p c = (q, r)" by fastforce
  obtain es0 where each: "feed_all f p (each_byte c) =
      (case r of Inr es' \<Rightarrow> (q, es', None) | Inl e \<Rightarrow> (q, es0, Some e))"
    using feed_each [OF Cons.prems, of f c] q by auto
  show ?case
  proof (cases r)
    case (Inl e)
    then show ?thesis using q each by (simp add: feed_all_append)
  next
    case (Inr es)
    have "\<not> finished q" using q Cons.prems feed_finished [of f p c] by simp
    then show ?thesis
      using Cons.IH [of q] q each Inr by (auto simp: feed_all_append split: prod.splits)
  qed
qed simp

text \<open>
  C12. Feeding a stream in chunks up to the first error leaves the parser and the error that
  feeding it in one piece leaves, and without an error the same events, so a cut inside a
  character or between CR and LF makes no difference. When a call throws, the events it had
  completed are lost with it: byte by byte the same stream delivers all events the chunks
  deliver, and possibly later ones before the error.
\<close>

theorem feed_chunks:
  assumes "\<not> finished p" "feed_all f p cs = (q, es, err)"
  shows "feed f p (concat cs) = (q, case err of None \<Rightarrow> Inr es | Some e \<Rightarrow> Inl e) \<and>
    (\<exists>late. feed_all f p (each_byte (concat cs)) = (q, es @ late, err) \<and> (err = None \<longrightarrow> late = []))"
  using feed_all_concat [OF assms(1), of f cs q es] feed_all_each [OF assms(1), of f cs] assms(2)
  by (cases err) simp_all

text \<open>An event and a line of bad UTF-8 behind it: in two chunks the event is returned, in one it is not.\<close>

theorem feed_chunks_witness:
  "feed_all (\<lambda>_. None) (new_parser 50 100) [str_data @ [0x3A, 0x68, 0x69, 0x0A, 0x0A], [0xFF, 0x0A]] =
     (new_parser 50 100\<lparr>first_line := False\<rparr>,
      [\<lparr>ev_event = str_message, ev_data = [0x68, 0x69], ev_id = [], ev_retry = - 1\<rparr>], Some (UTF8_invalid 0)) \<and>
   feed (\<lambda>_. None) (new_parser 50 100) (str_data @ [0x3A, 0x68, 0x69, 0x0A, 0x0A, 0xFF, 0x0A]) =
     (new_parser 50 100\<lparr>first_line := False\<rparr>, Inl (UTF8_invalid 0))"
proof -
  have run: "feed_all (\<lambda>_. None) (new_parser 50 100) [str_data @ [0x3A, 0x68, 0x69, 0x0A, 0x0A], [0xFF, 0x0A]] =
     (new_parser 50 100\<lparr>first_line := False\<rparr>,
      [\<lparr>ev_event = str_message, ev_data = [0x68, 0x69], ev_id = [], ev_retry = - 1\<rparr>], Some (UTF8_invalid 0))"
    by code_simp
  have "\<not> finished (new_parser 50 100)" by (simp add: new_parser_def)
  from feed_chunks [OF this run] show ?thesis using run by simp
qed

section \<open>What the parser keeps, and what it emits\<close>

definition pending_bytes :: "parser_t \<Rightarrow> int" where
  "pending_bytes p = sum_list (map (\<lambda>l. int (length l) + 5) (data_lines p))"

definition texts_ok :: "parser_t \<Rightarrow> bool" where
  "texts_ok p \<longleftrightarrow> list_all is_valid (data_lines p) \<and> is_valid (event_name p) \<and>
     is_valid (last_event_id p) \<and> 0 \<notin> set (last_event_id p)"

definition sse_ok :: "parser_t \<Rightarrow> bool" where
  "sse_ok p \<longleftrightarrow> int (length (line p)) \<le> max_line_bytes p \<and>
     pending_bytes p \<le> event_bytes p \<and> int (length (event_name p)) \<le> event_bytes p \<and>
     pending_bytes p \<le> max_event_bytes p \<and> int (length (event_name p)) \<le> max_event_bytes p \<and>
     int (length (last_event_id p)) \<le> max_event_bytes p \<and> texts_ok p \<and> - 1 \<le> retry p"

definition event_ok :: "int \<Rightarrow> event_t \<Rightarrow> bool" where
  "event_ok limit e \<longleftrightarrow>
     is_valid (ev_event e) \<and> is_valid (ev_data e) \<and> is_valid (ev_id e) \<and> ev_event e \<noteq> [] \<and>
     0 \<notin> set (ev_id e) \<and> int (length (ev_data e)) < limit \<and>
     int (length (ev_event e)) \<le> max 7 limit \<and> int (length (ev_id e)) \<le> limit \<and> - 1 \<le> ev_retry e"

lemma new_parser_ok: "0 < max_line \<Longrightarrow> 0 < max_event \<Longrightarrow> sse_ok (new_parser max_line max_event)"
  by (simp add: sse_ok_def new_parser_def pending_bytes_def texts_ok_def)

lemma pending_nonneg: "0 \<le> pending_bytes p"
  unfolding pending_bytes_def by (rule sum_list_nonneg) auto

lemma join_lines_bytes:
  "ls \<noteq> [] \<Longrightarrow> int (length (join_lines ls)) < sum_list (map (\<lambda>l. int (length l) + 5) ls)"
  by (induction ls rule: join_lines.induct) auto

lemma dispatch_ok:
  assumes "sse_ok p" "dispatch p [] = (q, es)"
  shows "sse_ok q \<and> list_all (event_ok (max_event_bytes p)) es \<and>
    max_event_bytes q = max_event_bytes p \<and> max_line_bytes q = max_line_bytes p \<and> line q = line p"
proof -
  have "is_valid str_message" by (simp add: str_message_def is_valid.simps(2))
  have "event_ok (max_event_bytes p) \<lparr>ev_event = (if event_name p = [] then str_message else event_name p),
      ev_data = join_lines (data_lines p), ev_id = last_event_id p, ev_retry = retry p\<rparr>"
    if "data_lines p \<noteq> []"
  proof -
    have "int (length (join_lines (data_lines p))) < pending_bytes p"
      unfolding pending_bytes_def by (rule join_lines_bytes [OF that])
    then show ?thesis
      using assms(1) \<open>is_valid str_message\<close> join_lines_valid [of "data_lines p"]
      by (simp add: event_ok_def sse_ok_def texts_ok_def str_message_def le_max_iff_disj)
  qed
  then show ?thesis
    using assms pending_nonneg [of p]
    by (auto simp: dispatch_def sse_ok_def texts_ok_def pending_bytes_def)
qed

lemma split_field_valid:
  assumes "split_field bytes = (field, value)" "is_valid bytes"
  shows "is_valid value" "length field + length value \<le> length bytes" "value \<noteq> [] \<Longrightarrow> length field + length value < length bytes"
proof -
  have split: "bytes = takeWhile (\<lambda>b. b \<noteq> 0x3A) bytes @ dropWhile (\<lambda>b. b \<noteq> 0x3A) bytes" by simp
  consider "dropWhile (\<lambda>b. b \<noteq> 0x3A) bytes = []" | v where "dropWhile (\<lambda>b. b \<noteq> 0x3A) bytes = 0x3A # v"
    by (cases "dropWhile (\<lambda>b. b \<noteq> 0x3A) bytes") (auto simp: dropWhile_eq_Cons_conv)
  then have "is_valid value \<and> length field + length value \<le> length bytes \<and>
      (value \<noteq> [] \<longrightarrow> length field + length value < length bytes)"
  proof cases
    case 1
    show ?thesis using assms unfolding split_field_def 1 by simp
  next
    case (2 v)
    let ?f = "takeWhile (\<lambda>b. b \<noteq> 0x3A) bytes"
    have b: "bytes = ?f @ 0x3A # v" using split 2 by simp
    then have "is_valid v" using is_valid_split [of ?f "0x3A" v] assms(2) by simp
    then have "is_valid (if v \<noteq> [] \<and> hd v = 0x20 then tl v else v)"
      using is_valid_split [of "[]" "0x20" "tl v"] by (cases v) auto
    moreover have "length bytes = length ?f + 1 + length v" by (subst b) simp
    moreover have "field = ?f" "value = (if v \<noteq> [] \<and> hd v = 0x20 then tl v else v)"
      using assms(1) 2 by (simp_all add: split_field_def)
    ultimately show ?thesis by (cases v) auto
  qed
  then show "is_valid value" "length field + length value \<le> length bytes"
    "value \<noteq> [] \<Longrightarrow> length field + length value < length bytes" by simp_all
qed

lemma process_field_ok:
  assumes "sse_ok p" "is_valid value"
    and "int (length field) + int (length value) + (if value = [] then 0 else 1) + 1 \<le> n"
    and "event_bytes p + n \<le> max_event_bytes p"
  shows "sse_ok (process_field f (p\<lparr>event_bytes := event_bytes p + n\<rparr>) field value)"
  using assms pending_nonneg [of p]
  by (auto simp: process_field_def update_retry_def sse_ok_def texts_ok_def pending_bytes_def str_defs
      contains_nul_def list_ex_iff Let_def split: option.split if_splits)

text \<open>What a call leaves, and what it returns when it does not throw.\<close>

definition call_ok :: "parser_t \<Rightarrow> parser_t \<times> event_t list thrown \<Rightarrow> bool" where
  "call_ok p r \<longleftrightarrow> (case r of (q, x) \<Rightarrow>
     sse_ok q \<and> max_event_bytes q = max_event_bytes p \<and> max_line_bytes q = max_line_bytes p \<and>
     (case x of Inl _ \<Rightarrow> True | Inr es \<Rightarrow> list_all (event_ok (max_event_bytes p)) es))"

lemma call_ok_limits:
  "max_event_bytes p = max_event_bytes p' \<Longrightarrow> max_line_bytes p = max_line_bytes p' \<Longrightarrow> call_ok p r = call_ok p' r"
  by (cases r; cases "snd r") (simp_all add: call_ok_def)

lemma process_bytes_ok:
  assumes ok: "sse_ok p"
  shows "call_ok p (process_bytes f p [] bytes)"
proof -
  let ?n = "int (length bytes) + 1"
  have count: "sse_ok (p\<lparr>event_bytes := event_bytes p + ?n\<rparr>)"
    using ok by (auto simp: sse_ok_def texts_ok_def pending_bytes_def)
  obtain fld val where fv: "split_field bytes = (fld, val)" by fastforce
  consider (bad) e where "valid_utf8 0 bytes = Inl e" | (empty) "valid_utf8 0 bytes = Inr ()" "bytes = []"
    | (long) "valid_utf8 0 bytes = Inr ()" "bytes \<noteq> []" "event_bytes p + ?n > max_event_bytes p"
    | (comment) "valid_utf8 0 bytes = Inr ()" "bytes \<noteq> []" "event_bytes p + ?n \<le> max_event_bytes p" "hd bytes = 0x3A"
    | (field) "valid_utf8 0 bytes = Inr ()" "bytes \<noteq> []" "event_bytes p + ?n \<le> max_event_bytes p" "hd bytes \<noteq> 0x3A"
    by (cases "valid_utf8 0 bytes"; cases "bytes = []"; cases "event_bytes p + ?n \<le> max_event_bytes p") auto
  then show ?thesis
  proof cases
    case bad
    then show ?thesis using ok by (simp add: process_bytes_def call_ok_def)
  next
    case empty
    obtain q es where d: "dispatch p [] = (q, es)" by fastforce
    then have "process_bytes f p [] bytes = (q, Inr es)"
      unfolding process_bytes_def by (simp add: empty(2))
    then show ?thesis using dispatch_ok [OF ok d] by (simp add: call_ok_def)
  next
    case long
    then show ?thesis using count by (simp add: process_bytes_def Let_def call_ok_def)
  next
    case comment
    then show ?thesis using count by (simp add: process_bytes_def Let_def call_ok_def)
  next
    case field
    then have valid: "is_valid bytes" using valid_utf8_is_valid [of 0 bytes] by simp
    let ?q = "process_field f (p\<lparr>event_bytes := event_bytes p + ?n\<rparr>) fld val"
    have r: "process_bytes f p [] bytes = (?q, Inr [])"
      using field by (simp add: process_bytes_def Let_def fv)
    have "int (length fld) + int (length val) + (if val = [] then 0 else 1) + 1 \<le> ?n"
      using split_field_valid(2,3) [OF fv valid] by auto
    then have "sse_ok ?q"
      by (intro process_field_ok ok field split_field_valid(1) [OF fv valid])
    then show ?thesis
      unfolding r by (simp add: call_ok_def process_field_def update_retry_def Let_def split: option.split)
  qed
qed

lemma process_line_ok:
  assumes "sse_ok p"
  shows "call_ok p (process_line f p [])"
proof -
  have "sse_ok (p\<lparr>line := [], first_line := False\<rparr>)"
    using assms by (simp add: sse_ok_def texts_ok_def pending_bytes_def) linarith?
  then show ?thesis
    using process_bytes_ok [of "p\<lparr>line := [], first_line := False\<rparr>" f]
      call_ok_limits [of "p\<lparr>line := [], first_line := False\<rparr>" p] by (simp add: process_line_def)
qed

lemma sse_ok_flags: "sse_ok (p\<lparr>saw_cr := b\<rparr>) = sse_ok p" "sse_ok (p\<lparr>finished := b\<rparr>) = sse_ok p"
  by (simp_all add: sse_ok_def texts_ok_def pending_bytes_def)

lemma feed_loop_ok:
  "sse_ok p \<Longrightarrow> call_ok p (feed_loop f p [] c)"
proof (induction c arbitrary: p)
  case Nil
  then show ?case by (simp add: call_ok_def)
next
  case (Cons b c)
  let ?p = "p\<lparr>saw_cr := False\<rparr>"
  have ok: "sse_ok ?p" using Cons.prems by (simp add: sse_ok_flags)
  consider (skip) "saw_cr p" "b = 0x0A" | (line) "b = 0x0D \<or> b = 0x0A \<and> \<not> saw_cr p"
    | (byte) "b \<noteq> 0x0D" "b \<noteq> 0x0A" by auto
  then show ?case
  proof cases
    case skip
    then show ?thesis using Cons.IH [OF ok] call_ok_limits [of ?p p] by (simp add: feed_loop.simps(2))
  next
    case line
    obtain q r where q: "process_line f ?p [] = (q, r)" by fastforce
    have q_ok: "call_ok p (q, r)" using process_line_ok [OF ok, of f] q call_ok_limits [of ?p p] by simp
    show ?thesis
    proof (cases r)
      case (Inl e)
      then show ?thesis using q q_ok line by (auto simp: feed_loop.simps(2) Let_def)
    next
      case (Inr es)
      let ?q = "if b = 0x0D then q\<lparr>saw_cr := True\<rparr> else q"
      have "feed_loop f p [] (b # c) = prepend es (feed_loop f ?q [] c)"
        using q line Inr feed_loop_events [of f ?q es c] by (auto simp: feed_loop.simps(2) Let_def)
      moreover have "sse_ok ?q" "max_event_bytes ?q = max_event_bytes p" "max_line_bytes ?q = max_line_bytes p"
        using q_ok by (auto simp: call_ok_def sse_ok_flags)
      ultimately show ?thesis
        using Cons.IH [of ?q] q_ok Inr by (auto simp: call_ok_def split: prod.splits sum.splits)
    qed
  next
    case byte
    show ?thesis
    proof (cases "int (length (line p)) \<ge> max_line_bytes p")
      case True
      then show ?thesis using byte ok by (simp add: feed_loop.simps(2) call_ok_def)
    next
      case False
      then have "sse_ok (?p\<lparr>line := line p @ [b]\<rparr>)"
        using ok by (simp add: sse_ok_def texts_ok_def pending_bytes_def)
      then show ?thesis
        using byte False Cons.IH [of "?p\<lparr>line := line p @ [b]\<rparr>"] call_ok_limits [of "?p\<lparr>line := line p @ [b]\<rparr>" p]
        by (simp add: feed_loop.simps(2))
    qed
  qed
qed

lemma feed_call_ok: "sse_ok p \<Longrightarrow> call_ok p (feed f p c)"
  using feed_loop_ok [of p f c] by (simp add: feed_def call_ok_def)

lemma finish_call_ok: "sse_ok p \<Longrightarrow> call_ok p (finish_inner f p d)"
proof -
  assume p: "sse_ok p"
  let ?p = "p\<lparr>finished := True\<rparr>"
  obtain q r where q: "(if line ?p \<noteq> [] then process_line f ?p [] else (?p, Inr [])) = (q, r)" by fastforce
  have "call_ok ?p (q, r)"
    using process_line_ok [of ?p f] p q by (auto simp: sse_ok_flags call_ok_def split: if_splits)
  then have q_ok: "call_ok p (q, r)" using call_ok_limits [of ?p p] by simp
  obtain t es where t: "dispatch q [] = (t, es)" by fastforce
  have events: "dispatch q es' = (t, es' @ es)" for es' using dispatch_events [of q es'] t by simp
  have clear: "sse_ok (u\<lparr>line := [], data_lines := [], event_name := [], event_bytes := 0\<rparr>)" if "sse_ok u" for u
    using that pending_nonneg [of u] by (auto simp: sse_ok_def texts_ok_def pending_bytes_def is_valid.simps(1))
  show "call_ok p (finish_inner f p d)"
  proof (cases "finished p")
    case True
    then show ?thesis using p by (simp add: finish_inner_def call_ok_def)
  next
    case False
    then show ?thesis
      using q_ok q clear [of q] clear [of t] dispatch_ok [OF _ t]
      by (cases r; cases d) (auto simp: finish_inner_def call_ok_def Let_def events)
  qed
qed

text \<open>The parsers that calls lead to, whether these return or throw.\<close>

inductive reachable :: "(byte list \<Rightarrow> int option) \<Rightarrow> int \<Rightarrow> int \<Rightarrow> parser_t \<Rightarrow> bool" for f max_line max_event where
  reachable_new: "parser_with_limits max_line max_event = Inr p \<Longrightarrow> reachable f max_line max_event p"
| reachable_feed: "reachable f max_line max_event p \<Longrightarrow> reachable f max_line max_event (fst (feed f p c))"
| reachable_finish: "reachable f max_line max_event p \<Longrightarrow> reachable f max_line max_event (fst (finish_inner f p d))"

lemma reachable_ok:
  "reachable f max_line max_event p \<Longrightarrow>
     sse_ok p \<and> max_line_bytes p = max_line \<and> max_event_bytes p = max_event"
proof (induction rule: reachable.induct)
  case (reachable_new p)
  then have "p = new_parser max_line max_event" "0 < max_line" "0 < max_event"
    by (auto simp: parser_with_limits_def split: if_splits)
  then show ?case using new_parser_ok by (simp add: new_parser_def)
next
  case (reachable_feed p c)
  then show ?case using feed_call_ok [of p f c] by (auto simp: call_ok_def split: prod.splits)
next
  case (reachable_finish p d)
  then show ?case using finish_call_ok [of p f d] by (auto simp: call_ok_def split: prod.splits)
qed

text \<open>
  C13. After any sequence of feed and finish calls, whether they returned or threw, a parser
  made by parser_with_limits holds at most a line, the data of an event, an event name and an
  id within the limits; and every event that a further feed or finish returns has a name, is
  well-formed UTF-8 in all its texts, has no NUL in its id and keeps the limits, the default
  name message apart.
\<close>

theorem feed_ok:
  assumes "reachable f max_line max_event p"
  shows "int (length (line p)) \<le> max_line \<and>
    sum_list (map (\<lambda>l. int (length l) + 5) (data_lines p)) \<le> max_event \<and>
    int (length (event_name p)) \<le> max_event \<and> int (length (last_event_id p)) \<le> max_event \<and>
    (\<forall>es. snd (feed f p c) = Inr es \<or> snd (finish_inner f p d) = Inr es \<longrightarrow> list_all (event_ok max_event) es)"
proof -
  note ok = reachable_ok [OF assms]
  have "call_ok p (feed f p c)" "call_ok p (finish_inner f p d)"
    using feed_call_ok finish_call_ok ok by blast+
  then show ?thesis
    using ok by (auto simp: sse_ok_def pending_bytes_def call_ok_def split: prod.splits)
qed

text \<open>After an event that is too long the parser still keeps to its limits, and the next event is good.\<close>

theorem feed_ok_witness:
  "let p = fst (feed (\<lambda>_. None) (new_parser 9 12) (str_data @ [0x3A, 0x61, 0x0A] @ str_data @ [0x3A, 0x62, 0x0A, 0x0A]));
       r = feed (\<lambda>_. None) p ([0x0A] @ str_data @ [0x3A, 0x63, 0x0A, 0x0A]) in
   snd (feed (\<lambda>_. None) (new_parser 9 12) (str_data @ [0x3A, 0x61, 0x0A] @ str_data @ [0x3A, 0x62, 0x0A, 0x0A])) =
     Inl (SSE_event_exceeds 12) \<and>
   sum_list (map (\<lambda>l. int (length l) + 5) (data_lines p)) \<le> 12 \<and>
   (\<exists>e1 e2. snd r = Inr [e1, e2] \<and> ev_data e1 = [0x61] \<and> ev_data e2 = [0x63] \<and> list_all (event_ok 12) [e1, e2])"
proof -
  let ?f = "\<lambda>_. None" and ?c = "str_data @ [0x3A, 0x61, 0x0A] @ str_data @ [0x3A, 0x62, 0x0A, 0x0A]"
    and ?c2 = "[0x0A] @ str_data @ [0x3A, 0x63, 0x0A, 0x0A]"
  define p where "p = fst (feed ?f (new_parser 9 12) ?c)"
  have "reachable ?f 9 12 (new_parser 9 12)"
    by (rule reachable_new) (simp add: parser_with_limits_def)
  then have p: "reachable ?f 9 12 p" unfolding p_def by (rule reachable_feed)
  have first: "snd (feed ?f (new_parser 9 12) ?c) = Inl (SSE_event_exceeds 12)" by code_simp
  have second: "snd (feed ?f (fst (feed ?f (new_parser 9 12) ?c)) ?c2) =
    Inr [\<lparr>ev_event = str_message, ev_data = [0x61], ev_id = [], ev_retry = - 1\<rparr>,
         \<lparr>ev_event = str_message, ev_data = [0x63], ev_id = [], ev_retry = - 1\<rparr>]" by code_simp
  note ok = feed_ok [OF p, of ?c2 False]
  have "list_all (event_ok 12) es" if "snd (feed ?f p ?c2) = Inr es" for es
    using ok that by blast
  then show ?thesis
    using first second ok unfolding p_def [symmetric] Let_def by (auto simp del: list.pred_inject)
qed

text \<open>A parser is finished once: afterwards it takes neither input nor another end.\<close>

theorem finish_once:
  "finished (fst (finish_inner f p d)) \<and>
   snd (feed f (fst (finish_inner f p d)) c) = Inl SSE_finished \<and>
   snd (finish_inner f (fst (finish_inner f p d)) d') = Inl SSE_already_finished"
proof -
  have "finished (fst (process_line f (p\<lparr>finished := True\<rparr>) []))"
    by (simp add: process_line_finished)
  then have "finished (fst (finish_inner f p d))"
    by (auto simp: finish_inner_def Let_def dispatch_def split: sum.split prod.split)
  then show ?thesis by (simp add: feed_def finish_inner_def)
qed

section \<open>Framing by lines\<close>

text \<open>The complete lines of a stream, ended by LF, CR or CRLF, and what follows the last of them.\<close>

definition extend :: "byte list \<Rightarrow> byte list list \<times> byte list \<Rightarrow> byte list list \<times> byte list" where
  "extend l r = (case r of ([], rest) \<Rightarrow> ([], l @ rest) | (l' # ls, rest) \<Rightarrow> ((l @ l') # ls, rest))"

fun lines_of :: "byte list \<Rightarrow> byte list list \<times> byte list" where
  "lines_of [] = ([], [])"
| "lines_of (b # z) =
     (if b = 0x0A \<or> b = 0x0D then
        apfst (Cons []) (lines_of (if b = 0x0D \<and> z \<noteq> [] \<and> hd z = 0x0A then tl z else z))
      else extend [b] (lines_of z))"

fun run_lines ::
  "(byte list \<Rightarrow> int option) \<Rightarrow> parser_t \<Rightarrow> event_t list \<Rightarrow> byte list list \<Rightarrow> parser_t \<times> event_t list thrown" where
  "run_lines f p es [] = (p, Inr es)"
| "run_lines f p es (l # ls) =
     (case process_line f (p\<lparr>line := l\<rparr>) es of
        (q, Inl e) \<Rightarrow> (q, Inl e)
      | (q, Inr es) \<Rightarrow> run_lines f q es ls)"

text \<open>The lines, with what is left behind as the parser's own.\<close>

definition run_stream ::
  "(byte list \<Rightarrow> int option) \<Rightarrow> parser_t \<Rightarrow> event_t list \<Rightarrow> byte list list \<times> byte list \<Rightarrow> parser_t \<times> event_t list thrown" where
  "run_stream f p es r =
     (case run_lines f p es (fst r) of
        (q, Inl e) \<Rightarrow> (q, Inl e)
      | (q, Inr es) \<Rightarrow> (q\<lparr>line := snd r\<rparr>, Inr es))"

abbreviation settle :: "parser_t \<times> 'a \<Rightarrow> parser_t \<times> 'a" where
  "settle r \<equiv> apfst (\<lambda>q. q\<lparr>saw_cr := False\<rparr>) r"

definition short_lines :: "int \<Rightarrow> byte list list \<times> byte list \<Rightarrow> bool" where
  "short_lines limit r \<longleftrightarrow> list_all (\<lambda>l. int (length l) \<le> limit) (snd r # fst r)"

lemma process_line_fields:
  "process_line f p es = (q, r) \<Longrightarrow> saw_cr q = saw_cr p \<and> max_line_bytes q = max_line_bytes p \<and>
     (\<exists>es. r = Inr es \<longrightarrow> line q = [])"
  by (auto simp: process_line_def process_bytes_def Let_def dispatch_def process_field_def update_retry_def
      split: sum.splits prod.splits option.splits if_splits)

lemma process_line_line: "process_line f p es = (q, r) \<Longrightarrow> line q = []"
  by (auto simp: process_line_def process_bytes_def Let_def dispatch_def process_field_def update_retry_def
      split: sum.splits prod.splits option.splits if_splits)

lemma extend_simps [simp]:
  "extend l (extend l' r) = extend (l @ l') r" "extend [] r = r"
  "extend l (apfst (Cons l') r) = apfst (Cons (l @ l')) r"
  by (auto simp: extend_def apfst_def map_prod_def split: prod.splits list.splits)

lemma run_stream_Cons:
  "run_stream f p es (apfst (Cons l) r) = (case process_line f (p\<lparr>line := l\<rparr>) es of
     (q, Inl e) \<Rightarrow> (q, Inl e) | (q, Inr es) \<Rightarrow> run_stream f q es r)"
  by (simp add: run_stream_def apfst_def map_prod_def split: prod.splits sum.splits)

lemma short_extend_Cons: "short_lines n (extend (l @ [b]) r) \<Longrightarrow> int (length l) < n"
  by (auto simp: short_lines_def extend_def split: prod.splits list.splits)

lemma short_Cons: "short_lines n (apfst (Cons l) r) \<Longrightarrow> short_lines n r"
  by (cases r) (simp add: short_lines_def)

lemma feed_loop_lines:
  "\<not> saw_cr p \<Longrightarrow> short_lines (max_line_bytes p) (extend (line p) (lines_of z)) \<Longrightarrow>
   settle (feed_loop f p es z) = run_stream f p es (extend (line p) (lines_of z))"
proof (induction z arbitrary: p es rule: lines_of.induct)
  case (1 p)
  then show ?case by (simp add: run_stream_def extend_def)
next
  case (2 b z)
  show ?case
  proof (cases "b = 0x0A \<or> b = 0x0D")
    case end_of_line: True
    let ?z = "if b = 0x0D \<and> z \<noteq> [] \<and> hd z = 0x0A then tl z else z"
    have lines: "extend (line p) (lines_of (b # z)) = apfst (Cons (line p)) (lines_of ?z)"
      using end_of_line by simp
    have p: "p\<lparr>saw_cr := False\<rparr> = p" "p\<lparr>line := line p\<rparr> = p" using 2(3) by simp_all
    obtain q r where q: "process_line f p es = (q, r)" by fastforce
    note fields = process_line_fields [OF q] process_line_line [OF q]
    show ?thesis
    proof (cases r)
      case (Inl e)
      then show ?thesis
        unfolding lines run_stream_Cons feed_loop.simps(2) Let_def p
        using end_of_line q 2(3) fields by auto
    next
      case (Inr es')
      have short: "short_lines (max_line_bytes q) (extend (line q) (lines_of ?z))"
        using short_Cons 2(4) fields unfolding lines by simp
      have q_cr: "q\<lparr>saw_cr := False\<rparr> = q" using fields 2(3) by simp
      have "settle (feed_loop f (if b = 0x0D then q\<lparr>saw_cr := True\<rparr> else q) es' z) = settle (feed_loop f q es' ?z)"
        using fields 2(3) by (cases z) (auto simp: feed_loop.simps(2) q_cr)
      also have "\<dots> = run_stream f q es' (lines_of ?z)"
        using 2(1) [OF end_of_line, of q es'] short fields 2(3) by simp
      finally show ?thesis
        unfolding lines run_stream_Cons feed_loop.simps(2) Let_def p
        using end_of_line q 2(3) Inr by (auto split: if_splits)
    qed
  next
    case False
    let ?p = "p\<lparr>saw_cr := False, line := line p @ [b]\<rparr>"
    have lines: "extend (line p) (lines_of (b # z)) = extend (line p @ [b]) (lines_of z)"
      using False by simp
    have "\<not> max_line_bytes p \<le> int (length (line p))"
      using short_extend_Cons [OF 2(4) [unfolded lines]] by simp
    then have "feed_loop f p es (b # z) = feed_loop f ?p es z"
      using False by (simp add: feed_loop.simps(2))
    moreover have "run_stream f ?p es r = run_stream f p es r" for r
    proof -
      have "p\<lparr>saw_cr := False\<rparr> = p" using 2(3) by simp
      then show ?thesis by (cases r; cases "fst r") (simp_all add: run_stream_def)
    qed
    ultimately show ?thesis
      using 2(2) [OF False, of ?p es] 2(4) unfolding lines by simp
  qed
qed

text \<open>A whole stream whose lines keep to the limit is handled line by line, whatever mixture of line
  ends it uses.\<close>

theorem feed_by_lines:
  assumes "\<not> finished p" "\<not> saw_cr p" "line p = []" "short_lines (max_line_bytes p) (lines_of z)"
  shows "settle (feed f p z) = run_stream f p [] (lines_of z)"
  using feed_loop_lines [of p z f "[]"] assms by (simp add: feed_def)

section \<open>Round trip\<close>

text \<open>An event as a server writes it.\<close>

definition event_text :: "byte list \<Rightarrow> byte list list \<Rightarrow> byte list" where
  "event_text name ls =
     str_event @ [0x3A, 0x20] @ name @ [0x0A] @
     concat (map (\<lambda>l. str_data @ [0x3A, 0x20] @ l @ [0x0A]) ls) @ [0x0A]"

definition one_line :: "byte list \<Rightarrow> bool" where
  "one_line l \<longleftrightarrow> is_valid l \<and> 0x0A \<notin> set l \<and> 0x0D \<notin> set l"

lemma lines_of_line: "one_line l \<Longrightarrow> lines_of (l @ 0x0A # z) = apfst (Cons l) (lines_of z)"
proof -
  have "0x0A \<notin> set l \<Longrightarrow> 0x0D \<notin> set l \<Longrightarrow> lines_of (l @ 0x0A # z) = apfst (Cons l) (lines_of z)"
    by (induction l) auto
  then show "one_line l \<Longrightarrow> ?thesis" by (simp add: one_line_def)
qed

lemma process_field_line:
  assumes "one_line l" "0x3A \<notin> set fld" "list_all (\<lambda>b. b < 0x80) fld" "fld \<noteq> []"
    and "event_bytes p + int (length fld + length l) + 3 \<le> max_event_bytes p"
  shows "process_line f (p\<lparr>line := fld @ [0x3A, 0x20] @ l\<rparr>) es =
    (process_field f (p\<lparr>line := [], first_line := False,
       event_bytes := event_bytes p + int (length fld + length l) + 3\<rparr>) fld l, Inr es)"
proof -
  let ?bytes = "fld @ [0x3A, 0x20] @ l"
  have "is_valid (ys @ l)" if "list_all (\<lambda>b. b < 0x80) ys" for ys
    using that assms(1) by (induction ys) (simp_all add: is_valid.simps(2) one_line_def)
  from this [of "fld @ [0x3A, 0x20]"] have "valid_utf8 0 ?bytes = Inr ()"
    using assms(3) valid_utf8_is_valid [of 0 ?bytes] not_isl_unit [of "valid_utf8 0 ?bytes"] by simp
  moreover have "strip_bom ?bytes = ?bytes"
    using assms(3,4) by (cases fld) (auto simp: strip_bom_def)
  moreover have "split_field ?bytes = (fld, l)"
  proof -
    have "\<forall>b\<in>set fld. b \<noteq> 0x3A" using assms(2) by auto
    then show ?thesis by (simp add: split_field_def dropWhile_append2 takeWhile_append2)
  qed
  moreover have "hd ?bytes \<noteq> 0x3A" using assms(2,4) by (cases fld) auto
  ultimately show ?thesis
    using assms(4,5) by (simp add: process_line_def process_bytes_def Let_def algebra_simps)
qed

lemma str_facts:
  "0x3A \<notin> set str_event" "0x3A \<notin> set str_data" "list_all (\<lambda>b. b < 0x80) str_event"
  "list_all (\<lambda>b. b < 0x80) str_data" "str_event \<noteq> []" "str_data \<noteq> []" "str_data \<noteq> str_event"
  "length str_event = 5" "length str_data = 4"
  by (simp_all add: str_defs)

lemma lines_of_fields:
  assumes "list_all (\<lambda>b. b < 0x80) fld" "0x0A \<notin> set fld" "0x0D \<notin> set fld" "one_line l"
  shows "lines_of (fld @ [0x3A, 0x20] @ l @ 0x0A # z) = apfst (Cons (fld @ [0x3A, 0x20] @ l)) (lines_of z)"
proof -
  have "is_valid (ys @ l)" if "list_all (\<lambda>b. b < 0x80) ys" for ys
    using that assms(4) by (induction ys) (simp_all add: is_valid.simps(2) one_line_def)
  from this [of "fld @ [0x3A, 0x20]"] have "one_line (fld @ [0x3A, 0x20] @ l)"
    using assms by (auto simp: one_line_def)
  from lines_of_line [OF this, of z] show ?thesis by simp
qed

lemma lines_of_data:
  "list_all one_line ls \<Longrightarrow>
     lines_of (concat (map (\<lambda>l. str_data @ [0x3A, 0x20] @ l @ [0x0A]) ls) @ z) =
     apfst (append (map (\<lambda>l. str_data @ [0x3A, 0x20] @ l) ls)) (lines_of z)"
proof (induction ls)
  case Nil
  then show ?case by (simp add: apfst_def map_prod_def split: prod.split)
next
  case (Cons l ls)
  have "lines_of (str_data @ [0x3A, 0x20] @ l @ 0x0A # z) = apfst (Cons (str_data @ [0x3A, 0x20] @ l)) (lines_of z)" for z
    by (rule lines_of_fields) (use Cons.prems in \<open>simp_all add: str_data_def\<close>)
  then show ?case
    using Cons by (simp add: apfst_def map_prod_def split: prod.split)
qed

lemma run_data_lines:
  assumes "list_all one_line ls" "line p = []" "\<not> first_line p"
    and "event_bytes p + sum_list (map (\<lambda>l. int (length l) + 7) ls) \<le> max_event_bytes p"
  shows "run_lines f p es (map (\<lambda>l. str_data @ [0x3A, 0x20] @ l) ls @ rest) =
    run_lines f (p\<lparr>data_lines := data_lines p @ ls,
      event_bytes := event_bytes p + sum_list (map (\<lambda>l. int (length l) + 7) ls)\<rparr>) es rest"
  using assms
proof (induction ls arbitrary: p)
  case Nil
  then show ?case by simp
next
  case (Cons l ls)
  let ?q = "p\<lparr>data_lines := data_lines p @ [l], event_bytes := event_bytes p + (int (length l) + 7)\<rparr>"
  have "0 \<le> sum_list (map (\<lambda>l. int (length l) + 7) ls)" by (rule sum_list_nonneg) auto
  then have "event_bytes p + int (length str_data + length l) + 3 \<le> max_event_bytes p"
    using Cons.prems(4) str_facts by simp
  then have "process_line f (p\<lparr>line := str_data @ [0x3A, 0x20] @ l\<rparr>) es =
    (process_field f (p\<lparr>line := [], first_line := False,
       event_bytes := event_bytes p + int (length str_data + length l) + 3\<rparr>) str_data l, Inr es)"
    using Cons.prems(1) by (intro process_field_line str_facts) simp_all
  also have "\<dots> = (?q, Inr es)"
    using Cons.prems(2,3) str_facts by (simp add: process_field_def algebra_simps)
  finally show ?case
    using Cons.IH [of ?q] Cons.prems by (simp add: algebra_simps)
qed

text \<open>
  C14. An event with a name and any number of lines of data that respects the limits, written
  as the protocol says, is read back as exactly that event, with the id and the retry time the
  parser had.
\<close>

theorem event_round_trip:
  assumes "\<not> finished p" "\<not> saw_cr p" "line p = []" "data_lines p = []" "event_bytes p = 0"
    and "name \<noteq> []" "one_line name" "ls \<noteq> []" "list_all one_line ls"
    and "int (length name) + 8 + sum_list (map (\<lambda>l. int (length l) + 7) ls) \<le> max_event_bytes p"
    and "list_all (\<lambda>l. int (length l) + 7 \<le> max_line_bytes p) (name # ls)"
  shows "snd (feed f p (event_text name ls)) =
    Inr [\<lparr>ev_event = name, ev_data = join_lines ls, ev_id = last_event_id p, ev_retry = retry p\<rparr>]"
proof -
  let ?D = "map (\<lambda>l. str_data @ [0x3A, 0x20] @ l) ls"
  let ?n = "str_event @ [0x3A, 0x20] @ name"
  have "lines_of (event_text name ls) = apfst (Cons ?n) (apfst (append ?D) ([[]], []))"
    using lines_of_fields [of str_event name] assms(7) lines_of_data [OF assms(9), of "[0x0A]"]
    by (simp add: event_text_def str_facts str_event_def)
  then have lines: "lines_of (event_text name ls) = (?n # ?D @ [[]], [])" by simp
  have "short_lines (max_line_bytes p) (lines_of (event_text name ls))"
    using assms(11) unfolding lines short_lines_def
    by (auto simp: str_facts list_all_iff)
  then have "settle (feed f p (event_text name ls)) = run_stream f p [] (?n # ?D @ [[]], [])"
    using feed_by_lines [OF assms(1-3)] lines by simp
  have nn: "0 \<le> sum_list (map (\<lambda>l. int (length l) + 7) ls)" by (rule sum_list_nonneg) auto
  let ?p = "p\<lparr>line := [], first_line := False, event_bytes := int (length name) + 8, event_name := name\<rparr>"
  have "process_line f (p\<lparr>line := ?n\<rparr>) [] = (?p, Inr [])"
    using process_field_line [of name str_event p f "[]"] assms nn by (simp add: str_facts process_field_def)
  moreover have "run_lines f ?p [] (?D @ [[]]) = run_lines f (?p\<lparr>data_lines := ls,
      event_bytes := int (length name) + 8 + sum_list (map (\<lambda>l. int (length l) + 7) ls)\<rparr>) [] [[]]"
    using run_data_lines [of ls ?p f "[]" "[[]]"] assms by simp
  ultimately have "snd (run_stream f p [] (?n # ?D @ [[]], [])) =
    Inr [\<lparr>ev_event = name, ev_data = join_lines ls, ev_id = last_event_id p, ev_retry = retry p\<rparr>]"
    using assms(6,8)
    by (simp add: run_stream_def process_line_def process_bytes_def dispatch_def strip_bom_def)
  then show ?thesis
    using \<open>settle _ = _\<close> by (metis snd_apfst)
qed

lemma event_round_trip_witness:
  "snd (feed (\<lambda>_. None) parser (event_text [0x61] [[0x62], [], [0x63]])) =
     Inr [\<lparr>ev_event = [0x61], ev_data = [0x62, 0x0A, 0x0A, 0x63], ev_id = [], ev_retry = - 1\<rparr>]"
  using event_round_trip [of parser "[0x61]" "[[0x62], [], [0x63]]" "\<lambda>_. None"]
  by (simp add: parser_def new_parser_def one_line_def is_valid.simps(2) DEFAULT_MAX_LINE_BYTES_def
      DEFAULT_MAX_EVENT_BYTES_def)

end
