(* ===== verification/Streaming_Json.thy ===== *)
theory Streaming_Json
  imports Unicode_Utf8
begin

text \<open>
  Repair of unfinished JSON, \<open>src/ai/streaming_json.n\<close>: the arguments of a tool call are shown while
  they arrive, so the text received so far has its strings repaired and closed, its last token
  completed and its open brackets closed before it is parsed. The parser \<open>json_util.parse\<close> and its
  value for the empty object are parameters. Texts are lists of bytes.
\<close>

section \<open>Characters\<close>

abbreviation QUOTE :: byte where "QUOTE \<equiv> 0x22"
abbreviation BACKSLASH :: byte where "BACKSLASH \<equiv> 0x5C"
abbreviation COMMA :: byte where "COMMA \<equiv> 0x2C"
abbreviation COLON :: byte where "COLON \<equiv> 0x3A"
abbreviation LBRACE :: byte where "LBRACE \<equiv> 0x7B"
abbreviation RBRACE :: byte where "RBRACE \<equiv> 0x7D"
abbreviation LBRACKET :: byte where "LBRACKET \<equiv> 0x5B"
abbreviation RBRACKET :: byte where "RBRACKET \<equiv> 0x5D"

text \<open>The literals \<open>true\<close>, \<open>false\<close> and \<open>null\<close>.\<close>

definition str_true :: "byte list" where "str_true = [0x74, 0x72, 0x75, 0x65]"
definition str_false :: "byte list" where "str_false = [0x66, 0x61, 0x6C, 0x73, 0x65]"
definition str_null :: "byte list" where "str_null = [0x6E, 0x75, 0x6C, 0x6C]"

definition is_space :: "byte \<Rightarrow> bool" where
  "is_space b \<longleftrightarrow> b = 0x20 \<or> b = 0x09 \<or> b = 0x0A \<or> b = 0x0D"

definition is_token_delimiter :: "byte \<Rightarrow> bool" where
  "is_token_delimiter b \<longleftrightarrow> is_space b \<or> b = LBRACE \<or> b = LBRACKET \<or> b = COMMA \<or> b = COLON \<or>
     b = RBRACE \<or> b = RBRACKET"

definition valid_escape :: "byte \<Rightarrow> bool" where
  "valid_escape b \<longleftrightarrow> b = QUOTE \<or> b = BACKSLASH \<or> b = 0x2F \<or> b = 0x62 \<or> b = 0x66 \<or> b = 0x6E \<or>
     b = 0x72 \<or> b = 0x74 \<or> b = 0x75"

text \<open>A digit of \<open>%04x\<close>, and the escape of a control byte.\<close>

definition hex_digit :: "byte \<Rightarrow> byte" where
  "hex_digit n = (if n < 10 then 0x30 + n else 0x57 + n)"

definition append_control :: "byte \<Rightarrow> byte list" where
  "append_control b =
     (if b = 0x08 then [BACKSLASH, 0x62]
      else if b = 0x0C then [BACKSLASH, 0x66]
      else if b = 0x0A then [BACKSLASH, 0x6E]
      else if b = 0x0D then [BACKSLASH, 0x72]
      else if b = 0x09 then [BACKSLASH, 0x74]
      else [BACKSLASH, 0x75, 0x30, 0x30, hex_digit (b div 16), hex_digit (b mod 16)])"

section \<open>Strings\<close>

text \<open>The loop of \<open>repair_json\<close>, and what it appends behind it.\<close>

fun repair_loop :: "bool \<Rightarrow> bool \<Rightarrow> byte list \<Rightarrow> byte list" where
  "repair_loop in_string escaped [] =
     (if in_string then (if escaped then [BACKSLASH] else []) @ [QUOTE] else [])"
| "repair_loop in_string escaped (b # z) =
     (if \<not> in_string then b # repair_loop (b = QUOTE) escaped z
      else if escaped then b # repair_loop in_string False z
      else if b = BACKSLASH then
        if z = [] then BACKSLASH # BACKSLASH # repair_loop in_string escaped z
        else if valid_escape (hd z) then b # repair_loop in_string True z
        else BACKSLASH # BACKSLASH # repair_loop in_string escaped z
      else if b = QUOTE then b # repair_loop False escaped z
      else if b < 0x20 then append_control b @ repair_loop in_string escaped z
      else b # repair_loop in_string escaped z)"

definition repair_json :: "byte list \<Rightarrow> byte list" where
  "repair_json source = repair_loop False False source"

section \<open>Tokens and brackets\<close>

text \<open>\<open>trim\<close> with the four spaces.\<close>

definition trim_right :: "byte list \<Rightarrow> byte list" where
  "trim_right s = rev (dropWhile is_space (rev s))"

definition trim :: "byte list \<Rightarrow> byte list" where
  "trim s = trim_right (dropWhile is_space s)"

definition drop_comma :: "byte list \<Rightarrow> byte list" where
  "drop_comma bytes = (if last bytes = COMMA then trim_right (butlast bytes) else bytes)"

text \<open>What \<open>append_incomplete_token\<close> pushes behind the token at the end.\<close>

definition token_suffix :: "byte list \<Rightarrow> byte list" where
  "token_suffix token =
     (if token = [] then []
      else if token = take 1 str_true \<or> token = take 2 str_true \<or> token = take 3 str_true then [0x65]
      else if token = take 1 str_false \<or> token = take 2 str_false \<or> token = take 3 str_false \<or>
          token = take 4 str_false then
        drop (length token) str_false
      else if token = take 1 str_null \<or> token = take 2 str_null \<or> token = take 3 str_null then
        drop (length token) str_null
      else if last token = 0x2E \<or> last token = 0x65 \<or> last token = 0x45 \<or> last token = 0x2B \<or>
          last token = 0x2D then
        [0x30]
      else [])"

definition append_incomplete_token :: "byte list \<Rightarrow> byte list" where
  "append_incomplete_token result =
     result @ token_suffix (rev (takeWhile (\<lambda>b. \<not> is_token_delimiter b) (rev result)))"

record scan_t =
  stack :: "byte list"
  in_string :: bool
  escaped :: bool
  last_string_start :: int

definition scan_step :: "int \<Rightarrow> byte \<Rightarrow> scan_t \<Rightarrow> scan_t" where
  "scan_step index b st =
     (if in_string st then
        if escaped st then st\<lparr>escaped := False\<rparr>
        else if b = BACKSLASH then st\<lparr>escaped := True\<rparr>
        else if b = QUOTE then st\<lparr>in_string := False\<rparr>
        else st
      else if b = QUOTE then st\<lparr>in_string := True, last_string_start := index\<rparr>
      else if b = LBRACE then st\<lparr>stack := RBRACE # stack st\<rparr>
      else if b = LBRACKET then st\<lparr>stack := RBRACKET # stack st\<rparr>
      else if b = RBRACE \<or> b = RBRACKET then
        if stack st \<noteq> [] \<and> hd (stack st) = b then st\<lparr>stack := tl (stack st)\<rparr> else st
      else st)"

fun scan :: "int \<Rightarrow> byte list \<Rightarrow> scan_t \<Rightarrow> scan_t" where
  "scan index [] st = st"
| "scan index (b # z) st = scan (index + 1) z (scan_step index b st)"

definition scan_start :: scan_t where
  "scan_start = \<lparr>stack = [], in_string = False, escaped = False, last_string_start = - 1\<rparr>"

definition close_json :: "byte list \<Rightarrow> byte list" where
  "close_json source =
     (let bytes = trim source in
      if bytes = [] then [LBRACE, RBRACE]
      else
        let result = append_incomplete_token (drop_comma bytes);
            result = (if result \<noteq> [] \<and> last result = COLON then result @ str_null else result);
            st = scan 0 result scan_start;
            before = trim_right (take (nat (last_string_start st)) result);
            result = (if result \<noteq> [] \<and> last result = QUOTE \<and> stack st \<noteq> [] \<and> hd (stack st) = RBRACE \<and>
                last_string_start st > 0 \<and> before \<noteq> [] \<and> (last before = LBRACE \<or> last before = COMMA)
              then result @ COLON # str_null else result) in
        result @ stack st)"

section \<open>The two entry points\<close>

definition parse :: "(byte list \<Rightarrow> 'v option) \<Rightarrow> 'v \<Rightarrow> byte list \<Rightarrow> 'v" where
  "parse json empty_obj source =
     (if trim source = [] then empty_obj
      else
        case json source of
          Some v \<Rightarrow> v
        | None \<Rightarrow>
            (case json (close_json (repair_json source)) of Some v \<Rightarrow> v | None \<Rightarrow> empty_obj))"

definition parse_with_repair :: "(byte list \<Rightarrow> 'v option) \<Rightarrow> byte list \<Rightarrow> 'v option" where
  "parse_with_repair json source =
     (case json source of Some v \<Rightarrow> Some v | None \<Rightarrow> json (repair_json source))"

section \<open>What the repair of strings establishes\<close>

text \<open>Every string is closed, has no control character and only escapes that JSON knows.\<close>

fun strings_ok :: "bool \<Rightarrow> bool \<Rightarrow> byte list \<Rightarrow> bool" where
  "strings_ok ins esc [] \<longleftrightarrow> \<not> ins"
| "strings_ok ins esc (b # z) \<longleftrightarrow>
     (if \<not> ins then strings_ok (b = QUOTE) False z
      else if esc then valid_escape b \<and> strings_ok True False z
      else if b = BACKSLASH then strings_ok True True z
      else if b = QUOTE then strings_ok False False z
      else 0x20 \<le> b \<and> strings_ok True False z)"

lemma hex_digit_plain: "n < 16 \<Longrightarrow> 0x20 \<le> hex_digit n \<and> hex_digit n \<noteq> QUOTE \<and> hex_digit n \<noteq> BACKSLASH"
proof -
  assume "n < 16"
  then have "unat n < 16" by (simp add: word_less_nat_alt)
  then have "n \<in> of_nat ` {0..<16}" by (intro image_eqI [of n of_nat "unat n"]) simp_all
  also have "{0..<16 :: nat} = {0,1,2,3,4,5,6,7,8,9,10,11,12,13,14,15}"
    by (simp add: set_eq_iff) presburger
  finally show ?thesis by (auto simp: hex_digit_def)
qed

lemma strings_ok_control:
  assumes "b < 0x20"
  shows "strings_ok True False (append_control b @ z) = strings_ok True False z"
proof -
  have "b div 16 < 16" "b mod 16 < 16"
    using assms by (simp_all add: word_less_nat_alt unat_div unat_mod)
  then show ?thesis
    using hex_digit_plain [of "b div 16"] hex_digit_plain [of "b mod 16"]
    by (simp add: append_control_def valid_escape_def)
qed

lemma repair_loop_ok:
  "(esc \<longrightarrow> z \<noteq> [] \<and> valid_escape (hd z) \<and> ins) \<Longrightarrow> strings_ok ins esc (repair_loop ins esc z)"
proof (induction ins esc z rule: repair_loop.induct)
  case (1 ins esc)
  then show ?case by (cases ins; cases esc) simp_all
next
  case (2 ins esc b z)
  then show ?case
    by (cases ins; cases esc) (auto simp: strings_ok_control valid_escape_def not_less)
qed

lemma repair_loop_id: "strings_ok ins esc z \<Longrightarrow> (esc \<longrightarrow> ins) \<Longrightarrow> repair_loop ins esc z = z"
proof (induction ins esc z rule: strings_ok.induct)
  case (2 ins esc b z)
  consider "\<not> ins" | "ins" "esc" | "ins" "\<not> esc" "b = BACKSLASH" | "ins" "\<not> esc" "b = QUOTE"
    | "ins" "\<not> esc" "b \<noteq> BACKSLASH" "b \<noteq> QUOTE" by blast
  then show ?case
  proof cases
    case 3
    then have "z \<noteq> []" "valid_escape (hd z)" using 2(6) by (cases z; simp)+
    then show ?thesis using 2 3 by simp
  qed (use 2 in \<open>auto simp: not_less dest: leD\<close>)
qed simp

text \<open>The strings of a repaired text are well formed; a text is left as it is exactly when they were.\<close>

theorem repair_json_strings:
  "strings_ok False False (repair_json s) \<and> (repair_json s = s \<longleftrightarrow> strings_ok False False s)"
proof -
  have "strings_ok False False (repair_json s)" unfolding repair_json_def by (rule repair_loop_ok) simp
  then show ?thesis using repair_loop_id [of False False s] by (auto simp: repair_json_def)
qed

section \<open>Spaces and tokens\<close>

text \<open>Bytes that mean nothing outside strings.\<close>

definition neutral :: "byte \<Rightarrow> bool" where
  "neutral b \<longleftrightarrow> b \<noteq> QUOTE \<and> b \<noteq> LBRACE \<and> b \<noteq> LBRACKET \<and> b \<noteq> RBRACE \<and> b \<noteq> RBRACKET"

lemma space_neutral: "list_all is_space xs \<Longrightarrow> list_all neutral xs"
  by (auto simp: list_all_iff is_space_def neutral_def)

lemma trim_right_split: "\<exists>sp. s = trim_right s @ sp \<and> list_all is_space sp"
proof -
  have "s = rev (dropWhile is_space (rev s)) @ rev (takeWhile is_space (rev s))"
    by (metis rev_append rev_rev_ident takeWhile_dropWhile_id)
  moreover have "list_all is_space (rev (takeWhile is_space (rev s)))"
    by (auto simp: list_all_iff dest: set_takeWhileD)
  ultimately show ?thesis unfolding trim_right_def by blast
qed

lemma token_suffix_neutral: "list_all neutral (token_suffix w)"
proof -
  have "list_all neutral (drop k str_false)" "list_all neutral (drop k str_null)" for k
    by (auto simp: list_all_iff str_false_def str_null_def neutral_def dest!: in_set_dropD)
  then show ?thesis by (simp add: token_suffix_def neutral_def)
qed

section \<open>Brackets\<close>

text \<open>
  What it means that the brackets of a text match: they are read off outside its strings and form
  a word of the language of matched pairs.
\<close>

inductive balanced :: "byte list \<Rightarrow> bool" where
  balanced_Nil: "balanced []"
| balanced_object: "balanced xs \<Longrightarrow> balanced ys \<Longrightarrow> balanced (LBRACE # xs @ RBRACE # ys)"
| balanced_array: "balanced xs \<Longrightarrow> balanced ys \<Longrightarrow> balanced (LBRACKET # xs @ RBRACKET # ys)"

definition bracket :: "byte \<Rightarrow> bool" where
  "bracket b \<longleftrightarrow> b = LBRACE \<or> b = RBRACE \<or> b = LBRACKET \<or> b = RBRACKET"

fun brackets_from :: "bool \<Rightarrow> bool \<Rightarrow> byte list \<Rightarrow> byte list" where
  "brackets_from ins esc [] = []"
| "brackets_from ins esc (b # z) =
     (if \<not> ins then (if bracket b then [b] else []) @ brackets_from (b = QUOTE) False z
      else if esc then brackets_from True False z
      else brackets_from (b \<noteq> QUOTE) (b = BACKSLASH) z)"

definition brackets :: "byte list \<Rightarrow> byte list" where
  "brackets z = brackets_from False False z"

text \<open>Matching with a stack of the closing brackets that are due.\<close>

fun matches :: "byte list \<Rightarrow> byte list \<Rightarrow> bool" where
  "matches due [] \<longleftrightarrow> due = []"
| "matches due (b # z) \<longleftrightarrow>
     (if b = LBRACE then matches (RBRACE # due) z
      else if b = LBRACKET then matches (RBRACKET # due) z
      else due \<noteq> [] \<and> hd due = b \<and> matches (tl due) z)"

lemma balanced_matches: "balanced xs \<Longrightarrow> matches due (xs @ z) = matches due z"
  by (induction xs arbitrary: due z rule: balanced.induct) simp_all

text \<open>A word that closes what is due begins with a balanced word up to the first closing bracket.\<close>

lemma matches_split:
  "matches (c # due) xs \<Longrightarrow> list_all bracket xs \<Longrightarrow> c = RBRACE \<or> c = RBRACKET \<Longrightarrow>
     \<exists>ys zs. xs = ys @ c # zs \<and> balanced ys \<and> matches due zs"
proof (induction "length xs" arbitrary: c due xs rule: less_induct)
  case less
  obtain b z where xs: "xs = b # z" using less.prems(1) by (cases xs) simp_all
  have split: "\<exists>ys zs. xs = ys @ c # zs \<and> balanced ys \<and> matches due zs"
    if opens: "matches (d # c # due) z" "d = RBRACE \<or> d = RBRACKET"
      and nest: "\<And>u v. balanced u \<Longrightarrow> balanced v \<Longrightarrow> balanced (b # u @ d # v)" for d
  proof -
    obtain u v where u: "z = u @ d # v" "balanced u" "matches (c # due) v"
      using less.hyps [OF _ opens(1) _ opens(2)] less.prems(2) xs by auto
    obtain u' v' where "v = u' @ c # v'" "balanced u'" "matches due v'"
      using less.hyps [OF _ u(3) _ less.prems(3)] less.prems(2) xs u(1) by auto
    then show ?thesis
      using xs u nest by (intro exI [of _ "b # u @ d # u'"] exI [of _ v']) simp
  qed
  consider "b = LBRACE" | "b = LBRACKET" | "b = c" "b \<noteq> LBRACE" "b \<noteq> LBRACKET"
    using less.prems(1) by (auto simp: xs split: if_splits)
  then show ?case
  proof cases
    case 1
    then show ?thesis using split [of RBRACE] less.prems(1) balanced_object by (simp add: xs)
  next
    case 2
    then show ?thesis using split [of RBRACKET] less.prems(1) balanced_array by (simp add: xs)
  next
    case 3
    then show ?thesis
      using less.prems(1) balanced_Nil by (intro exI [of _ "[]"] exI [of _ z]) (simp add: xs)
  qed
qed

lemma matches_balanced: "matches [] xs \<Longrightarrow> list_all bracket xs \<Longrightarrow> balanced xs"
proof (induction "length xs" arbitrary: xs rule: less_induct)
  case less
  show ?case
  proof (cases xs)
    case (Cons b z)
    obtain d where d: "matches [d] z" "d = RBRACE \<or> d = RBRACKET"
      and nest: "\<And>u v. balanced u \<Longrightarrow> balanced v \<Longrightarrow> balanced (b # u @ d # v)"
      using less.prems(1) balanced_object balanced_array by (auto simp: Cons split: if_splits)
    obtain u v where "z = u @ d # v" "balanced u" "matches [] v"
      using matches_split [OF d(1) _ d(2)] less.prems(2) by (auto simp: Cons)
    then show ?thesis using less.hyps [of v] less.prems(2) nest by (simp add: Cons)
  qed (simp add: balanced_Nil)
qed

lemma balanced_iff: "list_all bracket xs \<Longrightarrow> balanced xs \<longleftrightarrow> matches [] xs"
  using balanced_matches [of xs "[]" "[]"] matches_balanced by auto

lemma brackets_all: "list_all bracket (brackets_from ins esc z)"
  by (induction ins esc z rule: brackets_from.induct) simp_all

section \<open>Closing\<close>

text \<open>The brackets of a text with closed strings, and of what is put behind it.\<close>

lemma brackets_append:
  "strings_ok ins esc xs \<Longrightarrow> (esc \<longrightarrow> ins) \<Longrightarrow>
     brackets_from ins esc (xs @ ys) = brackets_from ins esc xs @ brackets_from False False ys"
proof (induction ins esc xs rule: strings_ok.induct)
  case (2 ins esc b z)
  then show ?case by (auto split: if_splits)
qed simp

lemma strings_ok_append: "strings_ok ins esc xs \<Longrightarrow> (esc \<longrightarrow> ins) \<Longrightarrow>
    strings_ok ins esc (xs @ ys) \<longleftrightarrow> strings_ok False False ys"
  by (induction ins esc xs rule: strings_ok.induct) (auto split: if_splits)

lemma strings_ok_end: "QUOTE \<notin> set ys \<Longrightarrow> ins \<Longrightarrow> \<not> strings_ok ins esc ys"
  by (induction ins esc ys rule: strings_ok.induct) (auto split: if_splits)

lemma strings_ok_shorten: "strings_ok ins esc (xs @ ys) \<Longrightarrow> QUOTE \<notin> set ys \<Longrightarrow> (esc \<longrightarrow> ins) \<Longrightarrow> strings_ok ins esc xs"
proof (induction ins esc xs rule: strings_ok.induct)
  case (1 ins esc)
  then show ?case using strings_ok_end by auto
next
  case (2 ins esc b z)
  then show ?case by (auto split: if_splits)
qed

lemma plain_bytes:
  "list_all neutral ys \<Longrightarrow> strings_ok False False ys \<and> brackets_from False False ys = []"
  by (induction ys) (auto simp: neutral_def bracket_def)

text \<open>Two texts with closed strings and the same brackets.\<close>

definition alike :: "byte list \<Rightarrow> byte list \<Rightarrow> bool" where
  "alike xs ys \<longleftrightarrow> strings_ok False False xs \<and> strings_ok False False ys \<and> brackets xs = brackets ys"

lemma alike_trans: "alike xs ys \<Longrightarrow> alike ys zs \<Longrightarrow> alike xs zs"
  by (simp add: alike_def)

lemma alike_append: "strings_ok False False xs \<Longrightarrow> list_all neutral ys \<Longrightarrow> alike (xs @ ys) xs"
  using plain_bytes [of ys] by (simp add: alike_def strings_ok_append brackets_append brackets_def)

lemma alike_shorten: "strings_ok False False (xs @ ys) \<Longrightarrow> list_all neutral ys \<Longrightarrow> alike xs (xs @ ys)"
proof -
  assume *: "strings_ok False False (xs @ ys)" "list_all neutral ys"
  then have "QUOTE \<notin> set ys" by (auto simp: list_all_iff neutral_def)
  then show "alike xs (xs @ ys)"
    using alike_append [OF strings_ok_shorten [OF *(1)] *(2)] by (simp add: alike_def)
qed

lemma alike_trim_right: "strings_ok False False s \<Longrightarrow> alike (trim_right s) s"
  using trim_right_split [of s] alike_shorten space_neutral by metis

lemma alike_trim: "strings_ok False False s \<Longrightarrow> alike (trim s) s"
proof -
  assume s: "strings_ok False False s"
  let ?sp = "takeWhile is_space s" and ?r = "dropWhile is_space s"
  have sp: "list_all neutral ?sp" by (rule space_neutral) (auto simp: list_all_iff dest: set_takeWhileD)
  note p = plain_bytes [OF sp]
  have "strings_ok False False ?r" "brackets ?r = brackets s"
    using strings_ok_append [of False False ?sp ?r] brackets_append [of False False ?sp ?r] s p
    by (simp_all add: brackets_def)
  then show "alike (trim s) s"
    using alike_trim_right [of ?r] s by (simp add: trim_def alike_def)
qed

lemma alike_drop_comma: "strings_ok False False s \<Longrightarrow> s \<noteq> [] \<Longrightarrow> alike (drop_comma s) s"
proof -
  assume s: "strings_ok False False s" "s \<noteq> []"
  show "alike (drop_comma s) s"
  proof (cases "last s = COMMA")
    case True
    then have "alike (butlast s) s"
      using alike_shorten [of "butlast s" "[COMMA]"] append_butlast_last_id [OF s(2)] s(1) by (simp add: neutral_def)
    then show ?thesis
      using True alike_trim_right [of "butlast s"] alike_trans by (auto simp: drop_comma_def alike_def)
  next
    case False
    then show ?thesis using s(1) by (simp add: drop_comma_def alike_def)
  qed
qed

definition closers :: "byte list \<Rightarrow> bool" where
  "closers xs \<longleftrightarrow> list_all (\<lambda>b. b = RBRACE \<or> b = RBRACKET) xs"

lemma scan_closers: "closers (stack st) \<Longrightarrow> closers (stack (scan i xs st))"
proof (induction xs arbitrary: i st)
  case (Cons b xs)
  have "closers (stack (scan_step i b st))"
    using Cons.prems by (cases "stack st") (auto simp: closers_def scan_step_def)
  then show ?case using Cons.IH by simp
qed simp

lemma closers_text: "closers xs \<Longrightarrow> strings_ok False False xs \<and> brackets_from False False xs = xs"
  by (induction xs) (auto simp: closers_def bracket_def)

text \<open>The stack of the scan closes what can be closed.\<close>

lemma scan_invariant:
  "matches (stack st) (brackets_from (in_string st) (escaped st) z @ t) \<Longrightarrow> (escaped st \<longrightarrow> in_string st) \<Longrightarrow>
     closers (stack st) \<Longrightarrow>
     matches (stack st) (brackets_from (in_string st) (escaped st) z @ stack (scan i z st))"
proof (induction z arbitrary: i st)
  case Nil
  have "matches ds ds" if "closers ds" for ds using that by (induction ds) (auto simp: closers_def)
  then show ?case using Nil.prems(3) by simp
next
  case (Cons b z)
  let ?st = "scan_step i b st"
  have step: "matches (stack st) (brackets_from (in_string st) (escaped st) (b # z) @ u) \<longleftrightarrow>
      matches (stack ?st) (brackets_from (in_string ?st) (escaped ?st) z @ u)"
    if "matches (stack st) (brackets_from (in_string st) (escaped st) (b # z) @ t)" for u
    using that Cons.prems(2) by (auto simp: scan_step_def bracket_def split: if_splits)
  have "closers (stack ?st)"
    using scan_closers [OF Cons.prems(3), of i "[b]"] by simp
  moreover have "escaped ?st \<longrightarrow> in_string ?st" using Cons.prems(2) by (auto simp: scan_step_def)
  ultimately show ?case
    using Cons.IH [of ?st "i + 1"] Cons.prems(1) step by simp
qed

text \<open>Repairing changes no bracket.\<close>

lemma brackets_control:
  "b < 0x20 \<Longrightarrow> brackets_from True False (append_control b @ z) = brackets_from True False z"
proof -
  assume "b < 0x20"
  then have "b div 16 < 16" "b mod 16 < 16"
    by (simp_all add: word_less_nat_alt unat_div unat_mod)
  then show ?thesis
    using hex_digit_plain [of "b div 16"] hex_digit_plain [of "b mod 16"] by (simp add: append_control_def)
qed

lemma brackets_repair: "(esc \<longrightarrow> ins) \<Longrightarrow> brackets_from ins esc (repair_loop ins esc z) = brackets_from ins esc z"
proof (induction ins esc z rule: repair_loop.induct)
  case (1 ins esc)
  then show ?case by (cases ins; cases esc) (simp_all add: bracket_def)
next
  case (2 ins esc b z)
  consider "\<not> ins" | "ins" "esc" | (escape) "ins" "\<not> esc" "b = BACKSLASH" | "ins" "\<not> esc" "b = QUOTE"
    | "ins" "\<not> esc" "b \<noteq> BACKSLASH" "b \<noteq> QUOTE" by blast
  then show ?case
  proof cases
    case escape
    consider "z = []" | "z \<noteq> []" "valid_escape (hd z)" | "z \<noteq> []" "\<not> valid_escape (hd z)" by blast
    then show ?thesis
    proof cases
      case 3
      then have "brackets_from True True z = brackets_from True False z"
        by (cases z) (auto simp: valid_escape_def)
      then show ?thesis using 2 escape 3 by simp
    qed (use 2 escape in simp_all)
  qed (use 2 in \<open>auto simp: brackets_control not_less\<close>)
qed

text \<open>
  C15. For a text whose brackets outside strings some continuation completes to balanced ones,
  the text that goes to the JSON parser after repair_json and close_json has balanced
  brackets, each closed by its own kind, keeps the brackets that were there in their order,
  and ends outside every string, with no letter after a backslash that JSON does not know and
  no control character in its strings.
\<close>

theorem close_json_closed:
  assumes "balanced (brackets s @ t)"
  shows "balanced (brackets (close_json (repair_json s))) \<and>
    (\<exists>k. brackets (close_json (repair_json s)) = brackets s @ k) \<and>
    strings_ok False False (close_json (repair_json s))"
proof -
  let ?bytes = "trim (repair_json s)"
  have ok: "strings_ok False False (repair_json s)" using repair_json_strings by blast
  have same: "brackets (repair_json s) = brackets s"
    by (simp add: brackets_def repair_json_def brackets_repair)
  show ?thesis
  proof (cases "?bytes = []")
    case True
    then have "brackets s = []" using alike_trim [OF ok] same by (simp add: alike_def brackets_def)
    moreover have "balanced [LBRACE, RBRACE]" using balanced_object [OF balanced_Nil balanced_Nil] by simp
    ultimately show ?thesis
      using True by (simp add: close_json_def brackets_def bracket_def)
  next
    case False
    have comma: "alike (drop_comma ?bytes) (repair_json s)"
      using alike_trim [OF ok] alike_drop_comma [OF _ False] alike_trans by (auto simp: alike_def)
    then have token: "alike (append_incomplete_token (drop_comma ?bytes)) (repair_json s)"
      unfolding append_incomplete_token_def
      using alike_append [OF _ token_suffix_neutral] alike_trans by (auto simp: alike_def)
    have null: "list_all neutral str_null" "list_all neutral (COLON # str_null)"
      by (simp_all add: neutral_def str_null_def)
    define r where "r = (let r = append_incomplete_token (drop_comma ?bytes) in
      if r \<noteq> [] \<and> last r = COLON then r @ str_null else r)"
    have r: "alike r (repair_json s)"
      using token alike_append [OF _ null(1)] by (auto simp: r_def Let_def alike_def)
    let ?st = "scan 0 r scan_start"
    obtain u where u: "close_json (repair_json s) = r @ u @ stack ?st" "list_all neutral u"
    proof -
      have "close_json (repair_json s) = r @ [] @ stack ?st \<or>
          close_json (repair_json s) = r @ (COLON # str_null) @ stack ?st"
        using False by (simp add: close_json_def r_def Let_def)
      then show thesis using that [of "[]"] that [of "COLON # str_null"] null(2) by auto
    qed
    have closers: "closers (stack ?st)" by (rule scan_closers) (simp add: scan_start_def closers_def)
    have strings: "strings_ok False False (r @ u @ stack ?st)"
      using r plain_bytes [OF u(2)] closers_text [OF closers] by (simp add: alike_def strings_ok_append)
    have brackets: "brackets (r @ u @ stack ?st) = brackets s @ stack ?st"
      using r same plain_bytes [OF u(2)] closers_text [OF closers]
      by (simp add: alike_def brackets_append brackets_def)
    have "matches [] (brackets s @ t)" using balanced_matches [OF assms, of "[]" "[]"] by simp
    then have "matches [] (brackets s @ stack ?st)"
      using scan_invariant [of scan_start r t 0] r same
      by (simp add: scan_start_def alike_def brackets_def closers_def)
    moreover have "list_all bracket (brackets s @ stack ?st)"
      using closers brackets_all [of False False s] by (auto simp: brackets_def closers_def list_all_iff bracket_def)
    ultimately show ?thesis
      using strings brackets by (simp add: u balanced_iff)
  qed
qed

text \<open>\<open>{"a":[1\<close> becomes \<open>{"a":[1]}\<close>.\<close>

theorem close_json_closed_witness:
  "close_json (repair_json [LBRACE, QUOTE, 0x61, QUOTE, COLON, LBRACKET, 0x31]) =
     [LBRACE, QUOTE, 0x61, QUOTE, COLON, LBRACKET, 0x31, RBRACKET, RBRACE] \<and>
   balanced (brackets [LBRACE, QUOTE, 0x61, QUOTE, COLON, LBRACKET, 0x31, RBRACKET, RBRACE])"
proof -
  let ?s = "[LBRACE, QUOTE, 0x61, QUOTE, COLON, LBRACKET, 0x31]"
  have b: "brackets ?s = [LBRACE, LBRACKET]" by code_simp
  have "balanced (LBRACE # [LBRACKET, RBRACKET] @ [RBRACE])"
    using balanced_object [OF balanced_array [OF balanced_Nil balanced_Nil] balanced_Nil] by simp
  then have "balanced (brackets ?s @ [RBRACKET, RBRACE])" by (simp add: b)
  note closed = close_json_closed [OF this]
  have "close_json (repair_json ?s) = ?s @ [RBRACKET, RBRACE]" by code_simp
  then show ?thesis using closed by simp
qed

section \<open>Unfinished tokens\<close>

lemma token_of:
  assumes "ctx = [] \<or> is_token_delimiter (last ctx)" "list_all (\<lambda>b. \<not> is_token_delimiter b) w"
  shows "rev (takeWhile (\<lambda>b. \<not> is_token_delimiter b) (rev (ctx @ w))) = w"
proof -
  have "takeWhile (\<lambda>b. \<not> is_token_delimiter b) (rev ctx) = []"
    using assms(1) by (cases ctx rule: rev_cases) simp_all
  then show ?thesis
    using assms(2) takeWhile_append2 [of "rev w" "\<lambda>b. \<not> is_token_delimiter b" "rev ctx"]
    by (simp add: list_all_iff)
qed

lemmas literal_defs = str_true_def str_false_def str_null_def is_token_delimiter_def is_space_def

text \<open>
  C16. append_incomplete_token completes every beginning of null and of false to the literal,
  but t and tr to te and tre, and it appends a digit to a whole true or false, which no JSON
  parser accepts.
\<close>

theorem literal_completion:
  assumes "ctx = [] \<or> is_token_delimiter (last ctx)"
  shows "list_all (\<lambda>k. append_incomplete_token (ctx @ take k str_null) = ctx @ str_null) [1, 2, 3, 4] \<and>
    list_all (\<lambda>k. append_incomplete_token (ctx @ take k str_false) = ctx @ str_false) [1, 2, 3, 4] \<and>
    append_incomplete_token (ctx @ take 1 str_true) = ctx @ [0x74, 0x65] \<and>
    append_incomplete_token (ctx @ take 2 str_true) = ctx @ [0x74, 0x72, 0x65] \<and>
    append_incomplete_token (ctx @ take 3 str_true) = ctx @ str_true \<and>
    append_incomplete_token (ctx @ str_true) = ctx @ str_true @ [0x30] \<and>
    append_incomplete_token (ctx @ str_false) = ctx @ str_false @ [0x30]"
proof -
  have token: "append_incomplete_token (ctx @ w) = ctx @ w @ token_suffix w"
    if "list_all (\<lambda>b. \<not> is_token_delimiter b) w" for w
    unfolding append_incomplete_token_def token_of [OF assms that] by simp
  have plain: "list_all (\<lambda>b. \<not> is_token_delimiter b) (take k str_null)"
    "list_all (\<lambda>b. \<not> is_token_delimiter b) (take k str_false)"
    "list_all (\<lambda>b. \<not> is_token_delimiter b) (take k str_true)"
    "list_all (\<lambda>b. \<not> is_token_delimiter b) str_true"
    "list_all (\<lambda>b. \<not> is_token_delimiter b) str_false" for k
    by (auto simp: list_all_iff literal_defs dest!: in_set_takeD)
  have "list_all (\<lambda>k. take k str_null @ token_suffix (take k str_null) = str_null) [1, 2, 3, 4]"
    "list_all (\<lambda>k. take k str_false @ token_suffix (take k str_false) = str_false) [1, 2, 3, 4]"
    "take 1 str_true @ token_suffix (take 1 str_true) = [0x74, 0x65]"
    "take 2 str_true @ token_suffix (take 2 str_true) = [0x74, 0x72, 0x65]"
    "take 3 str_true @ token_suffix (take 3 str_true) = str_true"
    "token_suffix str_true = [0x30]" "token_suffix str_false = [0x30]"
    by code_simp+
  then show ?thesis
    by (simp only: plain [THEN token] append_same_eq same_append_eq simp_thms list.pred_inject)
qed

lemma literal_completion_witness:
  "close_json [LBRACE, QUOTE, 0x61, QUOTE, COLON, 0x74, 0x72, 0x75, 0x65] =
     [LBRACE, QUOTE, 0x61, QUOTE, COLON, 0x74, 0x72, 0x75, 0x65, 0x30, RBRACE]"
proof -
  let ?ctx = "[LBRACE, QUOTE, 0x61, QUOTE, COLON]"
  have "append_incomplete_token (?ctx @ str_true) = ?ctx @ str_true @ [0x30]"
    using literal_completion [of ?ctx] by (simp add: is_token_delimiter_def)
  moreover have "trim (?ctx @ str_true) = ?ctx @ str_true" "drop_comma (?ctx @ str_true) = ?ctx @ str_true"
    by code_simp+
  ultimately show ?thesis
    by (simp add: close_json_def Let_def str_true_def scan_step_def scan_start_def)
qed

end
