(* ===== verification/Truncate.thy ===== *)
theory Truncate
  imports Unicode_Utf8
begin

text \<open>
  Truncation of tool output, \<open>src/tools/truncate.n\<close>: the first or the last lines of a text within a
  limit of lines and a limit of bytes. Lengths are Nature's \<open>int\<close>, kept as \<open>int\<close>. \<open>format_size\<close>, a
  call of the formatter, is left out.
\<close>

definition DEFAULT_MAX_LINES :: int where "DEFAULT_MAX_LINES = 2000"
definition DEFAULT_MAX_BYTES :: int where "DEFAULT_MAX_BYTES = 50 * 1024"

datatype reason = No_reason | By_lines | By_bytes

record result_t =
  content :: "byte list"
  truncated :: bool
  truncated_by :: reason
  total_lines :: int
  total_bytes :: int
  output_lines :: int
  output_bytes :: int
  last_line_partial :: bool
  last_line_bytes :: int
  first_line_exceeds_limit :: bool
  max_lines :: int
  max_bytes :: int

text \<open>The fields that a literal leaves out have the default of their type.\<close>

definition no_result :: result_t where
  "no_result = \<lparr>content = [], truncated = False, truncated_by = No_reason, total_lines = 0, total_bytes = 0,
     output_lines = 0, output_bytes = 0, last_line_partial = False, last_line_bytes = 0,
     first_line_exceeds_limit = False, max_lines = 0, max_bytes = 0\<rparr>"

abbreviation len :: "'a list \<Rightarrow> int" where "len xs \<equiv> int (length xs)"

section \<open>Lines\<close>

text \<open>The loop of \<open>split_all_lines\<close>, with the bytes since \<open>start\<close>.\<close>

fun split_loop :: "byte list \<Rightarrow> byte list \<Rightarrow> byte list list" where
  "split_loop cur [] = [cur]"
| "split_loop cur (b # z) = (if b = 0x0A then cur # split_loop [] z else split_loop (cur @ [b]) z)"

definition split_all_lines :: "byte list \<Rightarrow> byte list list" where
  "split_all_lines input = split_loop [] input"

definition split_lines_for_counting :: "byte list \<Rightarrow> byte list list" where
  "split_lines_for_counting input =
     (if input = [] then []
      else if last input = 0x0A then butlast (split_all_lines input)
      else split_all_lines input)"

section \<open>The first lines\<close>

fun head_loop ::
  "int \<Rightarrow> int \<Rightarrow> nat \<Rightarrow> byte list list \<Rightarrow> int \<Rightarrow> byte list list \<Rightarrow> byte list list \<times> int \<times> reason" where
  "head_loop ml mb i output bytes [] = (output, bytes, By_lines)"
| "head_loop ml mb i output bytes (l # ls) =
     (if int i \<ge> ml then (output, bytes, By_lines)
      else
        let line_bytes = len l + (if i > 0 then 1 else 0) in
        if bytes + line_bytes > mb then (output, bytes, By_bytes)
        else head_loop ml mb (i + 1) (output @ [l]) (bytes + line_bytes) ls)"

definition head_with_limits :: "byte list \<Rightarrow> int \<Rightarrow> int \<Rightarrow> result_t" where
  "head_with_limits input ml mb =
     (let lines = split_lines_for_counting input;
          base = no_result\<lparr>total_lines := len lines, total_bytes := len input, max_lines := ml, max_bytes := mb\<rparr> in
      if len lines \<le> ml \<and> len input \<le> mb then
        base\<lparr>content := input, output_lines := len lines, output_bytes := len input\<rparr>
      else if lines \<noteq> [] \<and> len (hd lines) > mb then
        base\<lparr>truncated := True, truncated_by := By_bytes, first_line_exceeds_limit := True\<rparr>
      else
        let (output, bytes, reason) = head_loop ml mb 0 [] 0 lines;
            reason = (if len output \<ge> ml \<and> bytes \<le> mb then By_lines else reason);
            output_content = join_lines output in
        base\<lparr>content := output_content, truncated := True, truncated_by := reason,
          output_lines := len output, output_bytes := len output_content\<rparr>)"

definition head :: "byte list \<Rightarrow> result_t" where
  "head input = head_with_limits input DEFAULT_MAX_LINES DEFAULT_MAX_BYTES"

section \<open>The last lines\<close>

text \<open>The loop that lowers \<open>first\<close>.\<close>

fun tail_loop :: "byte list list \<Rightarrow> int \<Rightarrow> int \<Rightarrow> nat \<Rightarrow> int \<Rightarrow> nat \<times> int \<times> reason" where
  "tail_loop lines ml mb 0 bytes = (0, bytes, By_lines)"
| "tail_loop lines ml mb (Suc k) bytes =
     (if len lines - int (Suc k) \<ge> ml then (Suc k, bytes, By_lines)
      else
        let line_bytes = len (lines ! k) + (if Suc k < length lines then 1 else 0) in
        if bytes + line_bytes > mb then (Suc k, bytes, By_bytes)
        else tail_loop lines ml mb k (bytes + line_bytes))"

text \<open>\<open>utf8_boundary_start\<close> drops the continuation bytes at its cursor.\<close>

definition utf8_boundary :: "byte list \<Rightarrow> nat \<Rightarrow> nat" where
  "utf8_boundary v start = start + length (takeWhile (\<lambda>b. b \<ge> 0x80 \<and> b \<le> 0xBF) (drop start v))"

definition tail_with_limits :: "byte list \<Rightarrow> int \<Rightarrow> int \<Rightarrow> result_t" where
  "tail_with_limits input ml mb =
     (let lines = split_lines_for_counting input;
          base = no_result\<lparr>total_lines := len lines, total_bytes := len input, max_lines := ml, max_bytes := mb\<rparr> in
      if len lines \<le> ml \<and> len input \<le> mb then
        base\<lparr>content := input, output_lines := len lines, output_bytes := len input\<rparr>
      else if lines = [] then base\<lparr>content := [], truncated := True, truncated_by := By_bytes\<rparr>
      else
        let (first, bytes, reason) = tail_loop lines ml mb (length lines) 0 in
        if first = length lines then
          let last_line = last lines;
              start = (if len last_line - mb < 0 then 0 else nat (len last_line - mb));
              start = utf8_boundary last_line start;
              partial = drop start last_line in
          base\<lparr>content := partial, truncated := True, truncated_by := By_bytes, output_lines := 1,
            output_bytes := len partial, last_line_partial := start > 0, last_line_bytes := len last_line\<rparr>
        else
          let output = drop first lines;
              output_content = join_lines output;
              limited_by_lines = (len lines - int first \<ge> ml \<and> first > 0) in
          base\<lparr>content := output_content, truncated := True,
            truncated_by := (if limited_by_lines then By_lines else reason),
            output_lines := len output, output_bytes := len output_content\<rparr>)"

definition tail :: "byte list \<Rightarrow> result_t" where
  "tail input = tail_with_limits input DEFAULT_MAX_LINES DEFAULT_MAX_BYTES"

section \<open>Splitting and joining\<close>

lemma split_loop_not_Nil [simp]: "split_loop cur z \<noteq> []"
  by (induction cur z rule: split_loop.induct) auto

lemma join_lines_Cons: "ls \<noteq> [] \<Longrightarrow> join_lines (l # ls) = l @ 0x0A # join_lines ls"
  by (cases ls) auto

lemma join_lines_snoc: "join_lines (ls @ [l]) = (if ls = [] then l else join_lines ls @ 0x0A # l)"
  by (induction ls rule: join_lines.induct) auto

lemma join_split_loop: "join_lines (split_loop cur z) = cur @ z"
  by (induction cur z rule: split_loop.induct) (simp_all add: join_lines_Cons)

lemma split_loop_lines: "0x0A \<notin> set cur \<Longrightarrow> list_all (\<lambda>l. 0x0A \<notin> set l) (split_loop cur z)"
  by (induction cur z rule: split_loop.induct) auto

lemma last_split_loop: "z \<noteq> [] \<Longrightarrow> last z = 0x0A \<Longrightarrow> last (split_loop cur z) = []"
  by (induction cur z rule: split_loop.induct) (auto split: if_splits)

text \<open>The lines counted are the lines of the text: joined, they give it back less a final newline.\<close>

theorem split_lines_join:
  "input = join_lines (split_lines_for_counting input) @ (if input \<noteq> [] \<and> last input = 0x0A then [0x0A] else []) \<and>
   list_all (\<lambda>l. 0x0A \<notin> set l) (split_lines_for_counting input)"
proof (cases "input \<noteq> [] \<and> last input = 0x0A")
  case True
  then have "split_all_lines input = butlast (split_all_lines input) @ [[]]"
    using last_split_loop [of input "[]"] append_butlast_last_id [of "split_all_lines input"]
    by (simp add: split_all_lines_def)
  then have "input = join_lines (butlast (split_all_lines input) @ [[]])"
    using join_split_loop [of "[]" input] by (simp add: split_all_lines_def)
  moreover have "butlast (split_all_lines input) \<noteq> []"
    using True calculation by (metis append_Nil join_lines.simps(2))
  ultimately have "input = join_lines (butlast (split_all_lines input)) @ [0x0A]"
    by (simp add: join_lines_snoc)
  moreover have "list_all (\<lambda>l. 0x0A \<notin> set l) (butlast (split_all_lines input))"
    using split_loop_lines [of "[]" input] by (auto simp: split_all_lines_def list_all_iff dest: in_set_butlastD)
  ultimately show ?thesis using True by (simp add: split_lines_for_counting_def)
next
  case False
  then show ?thesis
    using join_split_loop [of "[]" input] split_loop_lines [of "[]" input]
    by (auto simp: split_lines_for_counting_def split_all_lines_def)
qed

section \<open>The longest prefix or suffix that fits\<close>

definition fits :: "int \<Rightarrow> int \<Rightarrow> byte list list \<Rightarrow> bool" where
  "fits ml mb ls \<longleftrightarrow> len ls \<le> ml \<and> len (join_lines ls) \<le> mb"

lemma join_lines_len: "len (join_lines (l # ls)) = len l + (if ls = [] then 0 else 1 + len (join_lines ls))"
  by (cases ls) auto

lemma head_loop_longest:
  assumes "fits ml mb output" "bytes = len (join_lines output)" "i = length output"
    and "head_loop ml mb i output bytes ls = (out, b, r)"
  shows "\<exists>n\<le>length ls. out = output @ take n ls \<and> fits ml mb out \<and> b = len (join_lines out) \<and>
    (n < length ls \<longrightarrow> \<not> fits ml mb (output @ take (n + 1) ls))"
  using assms
proof (induction ls arbitrary: i "output" bytes)
  case Nil
  then show ?case by auto
next
  case (Cons l ls)
  let ?n = "len l + (if output = [] then 0 else 1)"
  have bytes: "len (join_lines (output @ [l])) = bytes + ?n"
    using Cons.prems(2) by (simp add: join_lines_snoc)
  show ?case
  proof (cases "fits ml mb (output @ [l])")
    case True
    then have "head_loop ml mb (i + 1) (output @ [l]) (bytes + ?n) ls = (out, b, r)"
      using Cons.prems(3,4) bytes by (auto simp: fits_def Let_def split: if_splits)
    then obtain n where "n \<le> length ls" "out = output @ l # take n ls" "fits ml mb out"
      "b = len (join_lines out)" "n < length ls \<longrightarrow> \<not> fits ml mb (output @ l # take (n + 1) ls)"
      using Cons.IH [OF True, of "bytes + ?n" "i + 1"] bytes Cons.prems(3) by auto
    then show ?thesis by (intro exI [of _ "Suc n"]) simp
  next
    case False
    then have "int i \<ge> ml \<or> bytes + ?n > mb"
      using bytes Cons.prems(3) by (auto simp: fits_def)
    then have "out = output" "b = bytes"
      using Cons.prems(3,4) by (auto simp: Let_def split: if_splits)
    then show ?thesis using False Cons.prems(1,2) by (intro exI [of _ 0]) simp
  qed
qed

text \<open>A truncated head is the longest run of whole lines from the start that keeps both limits.\<close>

theorem head_longest_prefix:
  assumes "0 \<le> ml" "0 \<le> mb" "truncated (head_with_limits input ml mb)"
  shows "\<exists>n. let r = head_with_limits input ml mb; lines = split_lines_for_counting input in
    content r = join_lines (take n lines) \<and> output_lines r = int n \<and> n \<le> length lines \<and>
    output_bytes r = len (content r) \<and> fits ml mb (take n lines) \<and>
    (n < length lines \<longrightarrow> \<not> fits ml mb (take (n + 1) lines))"
proof -
  let ?lines = "split_lines_for_counting input"
  obtain out b r where loop: "head_loop ml mb 0 [] 0 ?lines = (out, b, r)" by (metis prod_cases3)
  have empty: "fits ml mb []" using assms(1,2) by (simp add: fits_def)
  show ?thesis
  proof (cases "?lines \<noteq> [] \<and> len (hd ?lines) > mb")
    case True
    then have "\<not> fits ml mb (take 1 ?lines)" by (cases ?lines) (auto simp: fits_def)
    then show ?thesis
      using True assms(3) empty
      by (intro exI [of _ 0]) (auto simp: head_with_limits_def no_result_def Let_def loop)
  next
    case False
    obtain n where "n \<le> length ?lines" "out = take n ?lines" "fits ml mb out"
      "n < length ?lines \<longrightarrow> \<not> fits ml mb (take (n + 1) ?lines)"
      using head_loop_longest [OF empty _ _ loop] by auto
    then show ?thesis
      using False assms(3)
      by (intro exI [of _ n]) (auto simp: head_with_limits_def no_result_def Let_def loop split: if_splits)
  qed
qed

lemma head_longest_prefix_witness:
  "content (head_with_limits [0x61, 0x0A, 0x62, 0x0A, 0x63] 5 4) = [0x61, 0x0A, 0x62]"
proof -
  have r: "split_lines_for_counting [0x61, 0x0A, 0x62, 0x0A, 0x63] = [[0x61], [0x62], [0x63]]"
    "truncated (head_with_limits [0x61, 0x0A, 0x62, 0x0A, 0x63] 5 4)" by code_simp+
  have "(0::int) \<le> 5" "(0::int) \<le> 4" by simp_all
  from head_longest_prefix [OF this r(2)] obtain n where
    n: "content (head_with_limits [0x61, 0x0A, 0x62, 0x0A, 0x63] 5 4) = join_lines (take n [[0x61], [0x62], [0x63]])"
      "n \<le> 3" "fits 5 4 (take n [[0x61], [0x62], [0x63]])"
      "n < 3 \<longrightarrow> \<not> fits 5 4 (take (n + 1) [[0x61], [0x62], [0x63]])"
    unfolding r(1) Let_def by (elim exE conjE) simp
  have "n = 0 \<or> n = 1 \<or> n = 2 \<or> n = 3" using n(2) by auto
  then show ?thesis using n(1,3,4) by (elim disjE) (simp_all add: fits_def)
qed

lemma drop_Suc_Cons: "k < length xs \<Longrightarrow> drop k xs = xs ! k # drop (Suc k) xs"
  by (simp add: Cons_nth_drop_Suc)

lemma tail_loop_longest:
  assumes "k \<le> length ls" "fits ml mb (drop k ls)" "bytes = len (join_lines (drop k ls))"
    and "tail_loop ls ml mb k bytes = (first, b, r)"
  shows "first \<le> k \<and> fits ml mb (drop first ls) \<and> (first > 0 \<longrightarrow> \<not> fits ml mb (drop (first - 1) ls))"
  using assms
proof (induction ls ml mb k bytes rule: tail_loop.induct)
  case 1
  then show ?case by simp
next
  case (2 ls ml mb k bytes)
  let ?n = "len (ls ! k) + (if Suc k < length ls then 1 else 0)"
  have drop: "drop k ls = ls ! k # drop (Suc k) ls" using 2(2) by (simp add: drop_Suc_Cons)
  then have bytes: "len (join_lines (drop k ls)) = bytes + ?n"
    using 2(2,4) join_lines_len [of "ls ! k" "drop (Suc k) ls"] by (simp del: join_lines.simps(3))
  show ?case
  proof (cases "fits ml mb (drop k ls)")
    case True
    then have *: "\<not> len ls - int (Suc k) \<ge> ml" "\<not> bytes + ?n > mb"
      using bytes 2(2) by (auto simp: fits_def)
    then have "tail_loop ls ml mb k (bytes + ?n) = (first, b, r)" using 2(5) by (simp add: Let_def)
    then show ?thesis using 2(1) [OF *(1) refl *(2)] 2(2) True bytes by simp
  next
    case False
    then have "len ls - int (Suc k) \<ge> ml \<or> bytes + ?n > mb"
      using bytes 2(2) by (auto simp: fits_def)
    then have "first = Suc k" using 2(5) by (auto simp: Let_def split: if_splits)
    then show ?thesis using 2(3) False by simp
  qed
qed

lemma encode_shape:
  assumes "scalar_value n"
  obtains w r where "encode n = w # r" "\<not> is_continuation w" "list_all is_continuation r"
  using assms by (cases rule: encode_cases) (auto simp: byte_tests(2))

lemma continuation_encode_all:
  assumes "list_all scalar_value cs"
  shows "takeWhile is_continuation (encode_all cs) = []"
proof (cases cs)
  case (Cons c ds)
  then have "scalar_value c" using assms by simp
  then show ?thesis by (rule encode_shape) (simp add: Cons)
qed simp

lemma utf8_boundary_encode_all:
  "list_all scalar_value cs \<Longrightarrow>
     \<exists>ds. list_all scalar_value ds \<and> drop (utf8_boundary (encode_all cs) s) (encode_all cs) = encode_all ds"
proof (induction cs arbitrary: s)
  case Nil
  then show ?case by (intro exI [of _ "[]"]) simp
next
  case (Cons c cs)
  have cont: "(\<lambda>b :: byte. 0x80 \<le> b \<and> b \<le> 0xBF) = is_continuation"
    by (simp add: is_continuation_def fun_eq_iff)
  have c: "scalar_value c" and cs: "list_all scalar_value cs" using Cons.prems by simp_all
  obtain w r where wr: "encode c = w # r" "\<not> is_continuation w" "list_all is_continuation r"
    by (rule encode_shape [OF c])
  consider "s = 0" | "0 < s" "s \<le> length r" | "length (encode c) \<le> s" using wr(1) by fastforce
  then show ?case
  proof cases
    case 1
    then show ?thesis
      using Cons.prems wr by (intro exI [of _ "c # cs"]) (simp add: utf8_boundary_def cont)
  next
    case 2
    have "list_all is_continuation (drop (s - 1) r)"
      using wr(3) by (auto simp: list_all_iff dest: in_set_dropD)
    then have "takeWhile is_continuation (drop s (encode_all (c # cs))) = drop (s - 1) r"
      using 2 wr continuation_encode_all [OF cs] by (cases s) (simp_all add: takeWhile_append2 list_all_iff)
    then have "utf8_boundary (encode_all (c # cs)) s = length (encode c)"
      using 2 wr(1) by (simp add: utf8_boundary_def cont)
    then show ?thesis using cs by (intro exI [of _ cs]) simp
  next
    case 3
    then have "utf8_boundary (encode_all (c # cs)) s = length (encode c) + utf8_boundary (encode_all cs) (s - length (encode c))"
      by (simp add: utf8_boundary_def)
    then show ?thesis using Cons.IH [OF cs, of "s - length (encode c)"] by simp
  qed
qed

lemma utf8_boundary_valid: "is_valid v \<Longrightarrow> is_valid (drop (utf8_boundary v s) v)"
  unfolding is_valid_iff_code_points using utf8_boundary_encode_all by blast

lemma split_loop_butlast: "z \<noteq> [] \<Longrightarrow> last z = 0x0A \<Longrightarrow> butlast (split_loop cur z) \<noteq> []"
  by (induction cur z rule: split_loop.induct) (auto split: if_splits)

lemma split_lines_Nil: "split_lines_for_counting input = [] \<longleftrightarrow> input = []"
  using split_loop_butlast [of input "[]"] by (auto simp: split_lines_for_counting_def split_all_lines_def)

lemma fits_last: "fits ml mb ls \<Longrightarrow> ls \<noteq> [] \<Longrightarrow> fits ml mb [last ls]"
  by (cases ls rule: rev_cases) (auto simp: fits_def join_lines_snoc split: if_splits)

text \<open>
  C19. A truncated tail never exceeds the limits: it is the longest run of whole lines up to
  the end that keeps both, and when not even the last line does, a suffix of that line that
  keeps the limit of bytes and is well-formed UTF-8 when the line is.
\<close>

theorem tail_longest_suffix:
  assumes "0 < ml" "0 \<le> mb" "truncated (tail_with_limits input ml mb)"
  shows "\<exists>n. let r = tail_with_limits input ml mb; lines = split_lines_for_counting input in
    output_bytes r = len (content r) \<and> output_bytes r \<le> mb \<and> lines \<noteq> [] \<and>
    (if fits ml mb [last lines] then
       content r = join_lines (drop n lines) \<and> output_lines r = len lines - int n \<and> n < length lines \<and>
       fits ml mb (drop n lines) \<and> (n > 0 \<longrightarrow> \<not> fits ml mb (drop (n - 1) lines))
     else
       content r = drop n (last lines) \<and> last_line_partial r \<and> output_lines r = 1 \<and>
       (is_valid (last lines) \<longrightarrow> is_valid (content r)))"
proof -
  let ?lines = "split_lines_for_counting input"
  have lines: "?lines \<noteq> []"
    using assms split_lines_Nil [of input]
    by (auto simp: tail_with_limits_def no_result_def split_lines_for_counting_def)
  obtain first b r where loop: "tail_loop ?lines ml mb (length ?lines) 0 = (first, b, r)"
    by (metis prod_cases3)
  have "fits ml mb []" using assms(1,2) by (simp add: fits_def)
  then have first: "first \<le> length ?lines" "fits ml mb (drop first ?lines)"
    "first > 0 \<longrightarrow> \<not> fits ml mb (drop (first - 1) ?lines)"
    using tail_loop_longest [OF _ _ _ loop] by simp_all
  have last: "drop (length ?lines - 1) ?lines = [last ?lines]"
    using lines by (metis One_nat_def append_butlast_last_id append_eq_conv_conj length_butlast)
  show ?thesis
  proof (cases "first = length ?lines")
    case True
    let ?v = "last ?lines"
    let ?s = "utf8_boundary ?v (nat (len ?v - mb))"
    have no: "\<not> fits ml mb [?v]" using first(3) True lines last by simp
    then have "len ?v > mb" using assms(1) by (simp add: fits_def)
    moreover have "tail_with_limits input ml mb = no_result\<lparr>total_lines := len ?lines, total_bytes := len input,
        max_lines := ml, max_bytes := mb, content := drop ?s ?v, truncated := True, truncated_by := By_bytes,
        output_lines := 1, output_bytes := len (drop ?s ?v), last_line_partial := ?s > 0, last_line_bytes := len ?v\<rparr>"
      using assms(3) lines True \<open>len ?v > mb\<close> by (auto simp: tail_with_limits_def no_result_def Let_def loop)
    moreover have "?s > 0" "int (length ?v - ?s) \<le> mb"
    proof -
      have "nat (len ?v - mb) \<le> ?s" by (simp add: utf8_boundary_def)
      then show "?s > 0" "int (length ?v - ?s) \<le> mb"
        using \<open>len ?v > mb\<close> assms(2) by linarith+
    qed
    ultimately show ?thesis
      using no lines utf8_boundary_valid [of ?v]
      by (intro exI [of _ ?s]) (auto simp: no_result_def Let_def)
  next
    case False
    then have "drop first ?lines \<noteq> []" using first(1) by simp
    then have "fits ml mb [last ?lines]" using fits_last [OF first(2)] by (simp add: last_drop)
    then show ?thesis
      using False assms(3) first lines
      by (intro exI [of _ first]) (auto simp: tail_with_limits_def no_result_def Let_def loop fits_def split: if_splits)
  qed
qed

lemma tail_longest_suffix_witness:
  "is_valid (content (tail_with_limits [0x61, 0x0A, 0xE2, 0x82, 0xAC, 0x62] 3 3))"
proof -
  have r: "split_lines_for_counting [0x61, 0x0A, 0xE2, 0x82, 0xAC, 0x62] = [[0x61], [0xE2, 0x82, 0xAC, 0x62]]"
    "truncated (tail_with_limits [0x61, 0x0A, 0xE2, 0x82, 0xAC, 0x62] 3 3)"
    "is_valid [0xE2, 0x82, 0xAC, 0x62]" by code_simp+
  have "(0::int) < 3" "(0::int) \<le> 3" by simp_all
  from tail_longest_suffix [OF this r(2)] show ?thesis
    unfolding r(1) Let_def by (auto simp: fits_def r(3))
qed

end
