(* ===== verification/Sqlite_Varint.thy ===== *)
theory Sqlite_Varint
  imports Adou_Prelude
begin

text \<open>
  Integer encodings of the bundled SQLite, \<open>native/sqlite3/sqlite3.c\<close> (its \<open>util.c\<close> part): the
  variable-length integer, the four-byte big-endian integer and the decimal reader
  \<open>sqlite3GetUInt32\<close>. A write to memory is the list of bytes written from \<open>p[0]\<close> on; a read
  takes the memory from \<open>p[0]\<close> on.
\<close>

section \<open>Writing\<close>

text \<open>The loop \<open>for(i=7; i>=0; i--)\<close>: \<open>n\<close> bytes remain to be put before \<open>acc\<close>.\<close>

fun putVarint64_nine :: "nat \<Rightarrow> u64 \<Rightarrow> byte list \<Rightarrow> byte list" where
  "putVarint64_nine 0 v acc = acc"
| "putVarint64_nine (Suc i) v acc =
     putVarint64_nine i (drop_bit 7 v) (ucast ((v AND 0x7f) OR 0x80) # acc)"

lemma drop_bit_7_less: "drop_bit 7 v \<noteq> 0 \<Longrightarrow> unat (drop_bit 7 v) < unat (v :: u64)"
proof -
  assume *: "drop_bit 7 v \<noteq> 0"
  then have "unat v \<noteq> 0" by (cases "v = 0") (simp_all add: unat_eq_0)
  moreover have "unat (drop_bit 7 v) = unat v div 2 ^ 7"
    unfolding unat_drop_bit_eq by (rule drop_bit_eq_div)
  ultimately show ?thesis by simp
qed

text \<open>The \<open>do ... while\<close> loop that fills \<open>buf\<close>.\<close>

function putVarint64_buf :: "u64 \<Rightarrow> byte list" where
  "putVarint64_buf v = ucast ((v AND 0x7f) OR 0x80) #
     (if drop_bit 7 v \<noteq> 0 then putVarint64_buf (drop_bit 7 v) else [])"
  by pat_completeness auto
termination
  by (relation "measure unat") (auto intro: drop_bit_7_less)

declare putVarint64_buf.simps [simp del]

definition putVarint64 :: "u64 \<Rightarrow> byte list" where
  "putVarint64 v =
     (if v AND (push_bit 32 0xff000000) \<noteq> 0
      then putVarint64_nine 8 (drop_bit 8 v) [ucast v]
      else let buf = putVarint64_buf v in rev (buf[0 := buf ! 0 AND 0x7f]))"

definition sqlite3PutVarint :: "u64 \<Rightarrow> byte list" where
  "sqlite3PutVarint v =
     (if v \<le> 0x7f then [ucast (v AND 0x7f)]
      else if v \<le> 0x3fff then [ucast ((drop_bit 7 v AND 0x7f) OR 0x80), ucast (v AND 0x7f)]
      else putVarint64 v)"

section \<open>Reading\<close>

definition SLOT_2_0 :: u32 where "SLOT_2_0 = 0x001fc07f"
definition SLOT_4_2_0 :: u32 where "SLOT_4_2_0 = 0xf01fc07f"

definition at32 :: "byte list \<Rightarrow> nat \<Rightarrow> u32" where "at32 p i = ucast (p ! i)"

text \<open>\<open>*v = ((u64)s)<<32 | a\<close>.\<close>

definition join64 :: "u32 \<Rightarrow> u32 \<Rightarrow> u64" where
  "join64 s a = push_bit 32 (ucast s) OR ucast a"

text \<open>The part of \<open>sqlite3GetVarint\<close> after the six-byte case, with the variables \<open>a, b, s\<close>.\<close>

definition getVarint_long :: "byte list \<Rightarrow> u32 \<Rightarrow> u32 \<Rightarrow> u32 \<Rightarrow> nat \<times> u64" where
  "getVarint_long p a b s =
     (let a = push_bit 14 a OR at32 p 6 in
      if a AND 0x80 = 0 then
        let a = a AND SLOT_4_2_0; b = b AND SLOT_2_0; b = push_bit 7 b; a = a OR b;
            s = drop_bit 11 s
        in (7, join64 s a)
      else
        let a = a AND SLOT_2_0; b = push_bit 14 b OR at32 p 7 in
        if b AND 0x80 = 0 then
          let b = b AND SLOT_4_2_0; a = push_bit 7 a; a = a OR b; s = drop_bit 4 s
          in (8, join64 s a)
        else
          let a = push_bit 15 a OR at32 p 8; b = b AND SLOT_2_0; b = push_bit 8 b; a = a OR b;
              s = push_bit 4 s; b = at32 p 4; b = b AND 0x7f; b = drop_bit 3 b; s = s OR b
          in (9, join64 s a))"

definition sqlite3GetVarint :: "byte list \<Rightarrow> nat \<times> u64" where
  "sqlite3GetVarint p =
     (if \<not> bit (p ! 0) 7 then (1, ucast (p ! 0))
      else if \<not> bit (p ! 1) 7 then
        (2, ucast (push_bit 7 (at32 p 0 AND 0x7f) OR at32 p 1))
      else
        let a = push_bit 14 (at32 p 0); b = at32 p 1; a = a OR at32 p 2 in
        if a AND 0x80 = 0 then
          let a = a AND SLOT_2_0; b = b AND 0x7f; b = push_bit 7 b; a = a OR b in (3, ucast a)
        else
          let a = a AND SLOT_2_0; b = push_bit 14 b; b = b OR at32 p 3 in
          if b AND 0x80 = 0 then
            let b = b AND SLOT_2_0; a = push_bit 7 a; a = a OR b in (4, ucast a)
          else
            let b = b AND SLOT_2_0; s = a; a = push_bit 14 a; a = a OR at32 p 4 in
            if a AND 0x80 = 0 then
              let b = push_bit 7 b; a = a OR b; s = drop_bit 18 s in (5, join64 s a)
            else
              let s = push_bit 7 s; s = s OR b; b = push_bit 14 b; b = b OR at32 p 5 in
              if b AND 0x80 = 0 then
                let a = a AND SLOT_2_0; a = push_bit 7 a; a = a OR b; s = drop_bit 18 s
                in (6, join64 s a)
              else getVarint_long p a b s)"

definition sqlite3GetVarint32 :: "byte list \<Rightarrow> nat \<times> u32" where
  "sqlite3GetVarint32 p =
     (if p ! 1 AND 0x80 = 0 then (2, push_bit 7 (at32 p 0 AND 0x7f) OR at32 p 1)
      else if p ! 2 AND 0x80 = 0 then
        (3, push_bit 14 (at32 p 0 AND 0x7f) OR push_bit 7 (at32 p 1 AND 0x7f) OR at32 p 2)
      else case sqlite3GetVarint p of (n, v64) \<Rightarrow>
        (n, if v64 AND 0xffffffff \<noteq> v64 then 0xffffffff else ucast v64))"

text \<open>The macro \<open>getVarint32\<close>, which handles the single byte itself.\<close>

definition getVarint32 :: "byte list \<Rightarrow> nat \<times> u32" where
  "getVarint32 p = (if p ! 0 < 0x80 then (1, at32 p 0) else sqlite3GetVarint32 p)"

text \<open>The loop \<open>for(i=1; (v >>= 7)!=0; i++)\<close>.\<close>

function varint_len :: "u64 \<Rightarrow> nat \<Rightarrow> nat" where
  "varint_len v i = (if drop_bit 7 v \<noteq> 0 then varint_len (drop_bit 7 v) (i + 1) else i)"
  by pat_completeness auto
termination
  by (relation "measure (\<lambda>(v, i). unat v)") (auto intro: drop_bit_7_less)

declare varint_len.simps [simp del]

definition sqlite3VarintLen :: "u64 \<Rightarrow> nat" where
  "sqlite3VarintLen v = varint_len v 1"

definition sqlite3Get4byte :: "byte list \<Rightarrow> u32" where
  "sqlite3Get4byte p =
     push_bit 24 (at32 p 0) OR push_bit 16 (at32 p 1) OR push_bit 8 (at32 p 2) OR at32 p 3"

definition sqlite3Put4byte :: "u32 \<Rightarrow> byte list" where
  "sqlite3Put4byte v =
     [ucast (drop_bit 24 v), ucast (drop_bit 16 v), ucast (drop_bit 8 v), ucast v]"

text \<open>
  \<open>sqlite3GetUInt32\<close> on a NUL-terminated string: the value when it succeeds. The comparison is
  with \<open>4294967296\<close>, as in the code.
\<close>

definition sqlite3Isdigit :: "char \<Rightarrow> bool" where
  "sqlite3Isdigit c \<longleftrightarrow> 48 \<le> (of_char c :: nat) \<and> (of_char c :: nat) \<le> 57"

fun getUInt32_loop :: "string \<Rightarrow> nat \<Rightarrow> u64 \<Rightarrow> (u64 \<times> nat \<times> string) option" where
  "getUInt32_loop (c # cs) i v =
     (if sqlite3Isdigit c then
        let v = v * 10 + of_nat (of_char c) - 48 in
        if v > 4294967296 then None else getUInt32_loop cs (i + 1) v
      else Some (v, i, c # cs))"
| "getUInt32_loop [] i v = Some (v, i, [])"

definition sqlite3GetUInt32 :: "string \<Rightarrow> u32 option" where
  "sqlite3GetUInt32 z =
     (case getUInt32_loop z 0 0 of
        None \<Rightarrow> None
      | Some (v, i, rest) \<Rightarrow> if i = 0 \<or> rest \<noteq> [] then None else Some (ucast v))"

section \<open>The reader against the description of the encoding\<close>

text \<open>
  Seven bits of each byte, most significant first, as long as the eighth bit is set; the ninth
  byte gives all its bits.
\<close>

fun varint_ref :: "nat \<Rightarrow> u64 \<Rightarrow> byte list \<Rightarrow> nat \<times> u64" where
  "varint_ref i acc [] = (i, acc)"
| "varint_ref i acc (b # bs) =
     (if i = 8 then (9, push_bit 8 acc OR ucast b)
      else if bit b 7 then varint_ref (i + 1) (push_bit 7 acc OR ucast (b AND 0x7f)) bs
      else (i + 1, push_bit 7 acc OR ucast b))"

lemma and_bit7_eq_0: "(a :: u32) AND 0x80 = 0 \<longleftrightarrow> \<not> bit a 7" "(b :: byte) AND 0x80 = 0 \<longleftrightarrow> \<not> bit b 7"
  by (simp_all add: bit_iff_and_push_bit_not_eq_0 push_bit_eq_mult)

lemma upt_0_64: "[0..<64] = [0, 1, 2, 3, 4, 5, 6, 7, 8, 9, 10, 11, 12, 13, 14, 15, 16, 17, 18, 19, 20,
  21, 22, 23, 24, 25, 26, 27, 28, 29, 30, 31, 32, 33, 34, 35, 36, 37, 38, 39, 40, 41, 42, 43, 44,
  45, 46, 47, 48, 49, 50, 51, 52, 53, 54, 55, 56, 57, 58, 59, 60, 61, 62, 63]"
  by code_simp

lemma u64_eqI: "list_all (\<lambda>n. bit a n = bit b n) [0..<64] \<Longrightarrow> a = (b :: u64)"
  by (rule bit_word_eqI) (auto simp: list_all_iff)

lemma upt_0_8: "[0..<8] = [0, 1, 2, 3, 4, 5, 6, 7]"
  by code_simp

lemma byte_eqI: "list_all (\<lambda>n. bit a n = bit b n) [0..<8] \<Longrightarrow> a = (b :: byte)"
  by (rule bit_word_eqI) (auto simp: list_all_iff)

lemma upt_0_32: "[0..<32] = [0, 1, 2, 3, 4, 5, 6, 7, 8, 9, 10, 11, 12, 13, 14, 15, 16, 17, 18, 19, 20,
  21, 22, 23, 24, 25, 26, 27, 28, 29, 30, 31]"
  by code_simp

lemma u32_eqI: "list_all (\<lambda>n. bit a n = bit b n) [0..<32] \<Longrightarrow> a = (b :: u32)"
  by (rule bit_word_eqI) (auto simp: list_all_iff)

lemma u64_bit_False: "64 \<le> n \<Longrightarrow> \<not> bit (v :: u64) n"
  using bit_imp_le_length [of v n] by auto

lemma byte_bit_False: "8 \<le> n \<Longrightarrow> \<not> bit (b :: byte) n"
  using bit_imp_le_length [of b n] by auto

lemmas getVarint_simps = sqlite3GetVarint_def getVarint_long_def at32_def Let_def and_bit7_eq_0
  bit_simps byte_bit_False

lemma getVarint_short:
  "\<not> bit b0 7 \<Longrightarrow> sqlite3GetVarint (b0 # r) = varint_ref 0 0 (b0 # r)"
  "bit b0 7 \<Longrightarrow> \<not> bit b1 7 \<Longrightarrow> sqlite3GetVarint (b0 # b1 # r) = varint_ref 0 0 (b0 # b1 # r)"
  by (simp_all add: getVarint_simps, rule u64_eqI, simp add: upt_0_64 bit_simps byte_bit_False)

lemma getVarint_3:
  assumes "bit b0 7" "bit b1 7" "\<not> bit b2 7"
  shows "sqlite3GetVarint (b0 # b1 # b2 # r)
    = varint_ref 0 0 (b0 # b1 # b2 # r)"
  using assms
  by (simp add: getVarint_simps SLOT_2_0_def, intro u64_eqI, simp add: upt_0_64 bit_simps byte_bit_False)

lemma getVarint_4:
  assumes "bit b0 7" "bit b1 7" "bit b2 7" "\<not> bit b3 7"
  shows "sqlite3GetVarint (b0 # b1 # b2 # b3 # r)
    = varint_ref 0 0 (b0 # b1 # b2 # b3 # r)"
  using assms
  by (simp add: getVarint_simps SLOT_2_0_def, intro u64_eqI, simp add: upt_0_64 bit_simps byte_bit_False)

lemma getVarint_5:
  assumes "bit b0 7" "bit b1 7" "bit b2 7" "bit b3 7" "\<not> bit b4 7"
  shows "sqlite3GetVarint (b0 # b1 # b2 # b3 # b4 # r)
    = varint_ref 0 0 (b0 # b1 # b2 # b3 # b4 # r)"
  using assms
  by (simp add: getVarint_simps SLOT_2_0_def, intro u64_eqI, simp add: upt_0_64 join64_def bit_simps byte_bit_False)

lemma getVarint_6:
  assumes "bit b0 7" "bit b1 7" "bit b2 7" "bit b3 7" "bit b4 7" "\<not> bit b5 7"
  shows "sqlite3GetVarint (b0 # b1 # b2 # b3 # b4 # b5 # r)
    = varint_ref 0 0 (b0 # b1 # b2 # b3 # b4 # b5 # r)"
  using assms
  by (simp add: getVarint_simps SLOT_2_0_def, intro u64_eqI, simp add: upt_0_64 join64_def bit_simps byte_bit_False)

lemma getVarint_7:
  assumes "bit b0 7" "bit b1 7" "bit b2 7" "bit b3 7" "bit b4 7" "bit b5 7" "\<not> bit b6 7"
  shows "sqlite3GetVarint (b0 # b1 # b2 # b3 # b4 # b5 # b6 # r)
    = varint_ref 0 0 (b0 # b1 # b2 # b3 # b4 # b5 # b6 # r)"
  using assms
  by (simp add: getVarint_simps SLOT_2_0_def SLOT_4_2_0_def, intro u64_eqI, simp add: upt_0_64 join64_def bit_simps byte_bit_False)

lemma getVarint_8:
  assumes "bit b0 7" "bit b1 7" "bit b2 7" "bit b3 7" "bit b4 7" "bit b5 7" "bit b6 7" "\<not> bit b7 7"
  shows "sqlite3GetVarint (b0 # b1 # b2 # b3 # b4 # b5 # b6 # b7 # r)
    = varint_ref 0 0 (b0 # b1 # b2 # b3 # b4 # b5 # b6 # b7 # r)"
  using assms
  by (simp add: getVarint_simps SLOT_2_0_def SLOT_4_2_0_def, intro u64_eqI, simp add: upt_0_64 join64_def bit_simps byte_bit_False)

lemma getVarint_9:
  assumes "bit b0 7" "bit b1 7" "bit b2 7" "bit b3 7" "bit b4 7" "bit b5 7" "bit b6 7" "bit b7 7"
  shows "sqlite3GetVarint (b0 # b1 # b2 # b3 # b4 # b5 # b6 # b7 # b8 # r)
    = varint_ref 0 0 (b0 # b1 # b2 # b3 # b4 # b5 # b6 # b7 # b8 # r)"
  using assms
  by (simp add: getVarint_simps SLOT_2_0_def SLOT_4_2_0_def, intro u64_eqI, simp add: upt_0_64 join64_def bit_simps byte_bit_False)


text \<open>A varint that ends within the memory given, when \<open>n\<close> bytes may have the flag set.\<close>

fun varint_complete :: "nat \<Rightarrow> byte list \<Rightarrow> bool" where
  "varint_complete n [] \<longleftrightarrow> False"
| "varint_complete n (b # bs) \<longleftrightarrow> n = 0 \<or> \<not> bit b 7 \<or> varint_complete (n - 1) bs"

lemma varint_complete_0E:
  assumes "varint_complete 0 p"
  obtains b r where "p = b # r"
  using assms by (cases p) auto

lemma varint_complete_SucE:
  assumes "varint_complete (Suc n) p"
  obtains (stop) b r where "p = b # r" "\<not> bit b 7"
    | (go) b r where "p = b # r" "bit b 7" "varint_complete n r"
  using assms by (cases p) auto

lemma getVarint_ref:
  assumes "varint_complete 8 p"
  shows "sqlite3GetVarint p = varint_ref 0 0 p"
proof -
  have "varint_complete (Suc (Suc (Suc (Suc (Suc (Suc (Suc (Suc 0)))))))) p"
    using assms by (simp add: eval_nat_numeral)
  then show ?thesis
    by (elim varint_complete_SucE varint_complete_0E)
      (simp_all del: varint_ref.simps add: getVarint_short getVarint_3 getVarint_4 getVarint_5
        getVarint_6 getVarint_7 getVarint_8 getVarint_9)
qed

section \<open>What the writer produces\<close>

text \<open>The groups of seven bits of a value, most significant first, all with the flag bit.\<close>

definition flagged :: "u64 \<Rightarrow> byte" where
  "flagged v = ucast ((v AND 0x7f) OR 0x80)"

function high_groups :: "u64 \<Rightarrow> byte list" where
  "high_groups v = (if v = 0 then [] else high_groups (drop_bit 7 v) @ [flagged v])"
  by pat_completeness auto
termination
proof (relation "measure unat")
  fix v :: u64
  assume "v \<noteq> 0"
  then show "(drop_bit 7 v, v) \<in> measure unat"
    using drop_bit_7_less [of v] by (cases "drop_bit 7 v = 0") (auto simp: unat_gt_0)
qed simp

declare high_groups.simps [simp del]

lemma high_groups_0 [simp]: "high_groups 0 = []"
  by (simp add: high_groups.simps)

lemma high_groups_nonzero: "v \<noteq> 0 \<Longrightarrow> high_groups v = high_groups (drop_bit 7 v) @ [flagged v]"
  by (simp add: high_groups.simps [of v])

lemma flagged_bits: "bit (flagged v) 7" "push_bit 7 (drop_bit 7 v) OR ucast (flagged v AND 0x7f) = v"
  "ucast (flagged v) AND 0x7f = v AND 0x7f"
proof -
  show "bit (flagged v) 7" by (simp add: flagged_def bit_simps)
  show "push_bit 7 (drop_bit 7 v) OR ucast (flagged v AND 0x7f) = v"
    "ucast (flagged v) AND 0x7f = v AND 0x7f"
    by (intro u64_eqI, simp add: upt_0_64 flagged_def bit_simps)+
qed

lemma varint_ref_groups:
  "i + length (high_groups v) \<le> 8 \<Longrightarrow>
     varint_ref i 0 (high_groups v @ bs) = varint_ref (i + length (high_groups v)) v bs"
proof (induction v arbitrary: bs rule: high_groups.induct)
  case (1 v)
  show ?case
  proof (cases "v = 0")
    case False
    have "i + length (high_groups (drop_bit 7 v)) < 8"
      using 1(2) by (simp add: high_groups_nonzero [OF False])
    then show ?thesis
      using 1(1) [OF False, of "flagged v # bs"]
      by (simp add: high_groups_nonzero [OF False] flagged_bits)
  qed simp
qed

lemma unat_drop_bit_7: "unat (drop_bit 7 v :: u64) = unat v div 128"
  unfolding unat_drop_bit_eq by (simp add: drop_bit_eq_div)

lemma high_groups_length_le: "unat v < 128 ^ k \<Longrightarrow> length (high_groups v) \<le> k"
proof (induction k arbitrary: v)
  case (Suc k)
  show ?case
  proof (cases "v = 0")
    case False
    have "unat (drop_bit 7 v) < 128 ^ k"
      using Suc.prems by (simp add: unat_drop_bit_7 less_mult_imp_div_less mult.commute)
    from Suc.IH [OF this] show ?thesis by (simp add: high_groups_nonzero [OF False])
  qed simp
qed (simp add: unat_eq_0)

lemma high_groups_length_gt: "128 ^ k \<le> unat v \<Longrightarrow> k < length (high_groups v)"
proof (induction k arbitrary: v)
  case 0
  then have "v \<noteq> 0" by auto
  then show ?case by (simp add: high_groups_nonzero)
next
  case (Suc k)
  then have "v \<noteq> 0" by auto
  have "128 ^ k = (128 ^ Suc k) div (128 :: nat)" by simp
  also have "\<dots> \<le> unat (drop_bit 7 v)"
    unfolding unat_drop_bit_7 using Suc.prems by (rule div_le_mono)
  finally show ?case
    using Suc.IH by (simp add: high_groups_nonzero [OF \<open>v \<noteq> 0\<close>])
qed

lemma putVarint64_buf_groups:
  "rev (putVarint64_buf v) = high_groups (drop_bit 7 v) @ [flagged v]"
proof (induction v rule: putVarint64_buf.induct)
  case (1 v)
  show ?case
  proof (cases "drop_bit 7 v = 0")
    case True
    then show ?thesis by (simp add: putVarint64_buf.simps [of v] flagged_def)
  next
    case False
    then show ?thesis
      using 1 by (simp add: putVarint64_buf.simps [of v] flagged_def [of v] high_groups_nonzero)
  qed
qed

lemma putVarint64_buf_head: "putVarint64_buf v = flagged v # rev (high_groups (drop_bit 7 v))"
  using putVarint64_buf_groups [of v] by (metis rev_rev_ident rev.simps(2) rev_append append_Nil rev_singleton_conv append_Cons)


lemma flagged_low: "flagged v AND 0x7f = ucast (v AND 0x7f)"
  by (rule byte_eqI, simp add: upt_0_8 flagged_def bit_simps)

lemma nine_bytes_condition:
  "v AND 0xff00000000000000 = 0 \<longleftrightarrow> unat (v :: u64) < 2 ^ 56"
proof -
  have shift: "v AND 0xff00000000000000 = push_bit 56 (drop_bit 56 v)"
    by (intro u64_eqI, simp add: upt_0_64 bit_simps u64_bit_False)
  have "push_bit 56 (drop_bit 56 v) = 0 \<longleftrightarrow> drop_bit 56 v = 0"
  proof
    assume "push_bit 56 (drop_bit 56 v) = 0"
    then have "drop_bit 56 (push_bit 56 (drop_bit 56 v)) = 0" by simp
    moreover have "drop_bit 56 (push_bit 56 (drop_bit 56 v)) = drop_bit 56 v"
      by (intro u64_eqI, simp add: upt_0_64 bit_simps u64_bit_False)
    ultimately show "drop_bit 56 v = 0" by simp
  qed simp
  also have "\<dots> \<longleftrightarrow> unat v div 2 ^ 56 = 0"
    by (metis unat_drop_bit_eq drop_bit_eq_div unat_eq_0)
  finally show ?thesis
    unfolding shift by (simp add: div_eq_0_iff)
qed

lemma put_small:
  assumes "unat v < 2 ^ 56"
  shows "sqlite3PutVarint v = high_groups (drop_bit 7 v) @ [ucast (v AND 0x7f)]"
proof -
  have long: "putVarint64 v = high_groups (drop_bit 7 v) @ [ucast (v AND 0x7f)]"
    using assms by (simp add: putVarint64_def nine_bytes_condition putVarint64_buf_head flagged_low)
  have "high_groups (drop_bit 7 v) = []" if "v \<le> 0x7f"
  proof -
    have "unat v div 128 = 0"
      using that by (simp add: word_le_nat_alt)
    then show ?thesis
      by (metis unat_drop_bit_7 unat_eq_0 high_groups_0)
  qed
  moreover have "high_groups (drop_bit 7 v) = [ucast ((drop_bit 7 v AND 0x7f) OR 0x80)]"
    if "\<not> v \<le> 0x7f" "v \<le> 0x3fff"
  proof -
    have "unat (drop_bit 7 v) div 128 = 0" "unat (drop_bit 7 v) \<noteq> 0"
      using that by (simp_all add: word_le_nat_alt unat_drop_bit_7 div_eq_0_iff flip: div_mult2_eq)
    then have "drop_bit 7 (drop_bit 7 v) = 0" "drop_bit 7 v \<noteq> 0"
      by (metis unat_drop_bit_7 unat_eq_0, metis unat_0)
    then show ?thesis by (simp add: high_groups_nonzero flagged_def)
  qed
  ultimately show ?thesis
    using long by (simp add: sqlite3PutVarint_def)
qed

lemma putVarint64_nine_ref:
  "i + n \<le> 8 \<Longrightarrow> varint_ref i 0 (putVarint64_nine n w bs) = varint_ref (i + n) (take_bit (7 * n) w) bs"
proof (induction n arbitrary: w bs)
  case (Suc n)
  have "push_bit 7 (take_bit (7 * n) (drop_bit 7 w)) OR ucast (flagged w AND 0x7f) = take_bit (7 * Suc n) w"
  proof -
    have low: "(ucast (flagged w AND 0x7f) :: u64) = take_bit 7 w"
      by (intro u64_eqI, simp add: upt_0_64 flagged_def bit_simps)
    show ?thesis
      unfolding low by (rule bit_word_eqI) (auto simp: bit_simps)
  qed
  then show ?case
    using Suc.prems Suc.IH [of "drop_bit 7 w" "flagged w # bs"] flagged_bits(1) [of w]
    by (simp flip: flagged_def)
qed simp

lemma put_large:
  assumes "\<not> unat v < 2 ^ 56"
  shows "sqlite3PutVarint v = putVarint64_nine 8 (drop_bit 8 v) [ucast v]"
proof -
  have "\<not> v \<le> 0x7f" "\<not> v \<le> 0x3fff"
    using assms by (auto simp: word_le_nat_alt)
  then show ?thesis
    using assms by (simp add: sqlite3PutVarint_def putVarint64_def nine_bytes_condition
        del: putVarint64_nine.simps)
qed

lemma length_putVarint64_nine: "length (putVarint64_nine n w acc) = n + length acc"
  by (induction n w acc rule: putVarint64_nine.induct) auto

lemma put_length: "length (sqlite3PutVarint v) =
    (if unat v < 2 ^ 56 then Suc (length (high_groups (drop_bit 7 v))) else 9)"
  by (simp add: put_small put_large length_putVarint64_nine del: putVarint64_nine.simps)

lemma high_groups_of_shift: "unat v < 2 ^ 56 \<Longrightarrow> length (high_groups (drop_bit 7 v)) \<le> 7"
  by (rule high_groups_length_le) (simp add: unat_drop_bit_7 less_mult_imp_div_less)

lemma varint_ref_put: "varint_ref 0 0 (sqlite3PutVarint v @ rest) = (length (sqlite3PutVarint v), v)"
proof (cases "unat v < 2 ^ 56")
  case True
  note len = high_groups_of_shift [OF True]
  have "push_bit 7 (drop_bit 7 v) OR ucast (ucast (v AND 0x7f) :: byte) = v"
    by (intro u64_eqI, simp add: upt_0_64 bit_simps)
  moreover have "\<not> bit (ucast (v AND 0x7f) :: byte) 7"
    by (simp add: bit_simps)
  ultimately show ?thesis
    using len varint_ref_groups [of 0 "drop_bit 7 v" "ucast (v AND 0x7f) # rest"]
    by (simp add: put_small [OF True])
next
  case False
  have append: "putVarint64_nine n w acc @ rest = putVarint64_nine n w (acc @ rest)" for n w acc
    by (induction n w acc rule: putVarint64_nine.induct) auto
  have "push_bit 8 (take_bit 56 (drop_bit 8 v)) OR ucast (ucast v :: byte) = v"
    by (intro u64_eqI, simp add: upt_0_64 bit_simps)
  then show ?thesis
    using putVarint64_nine_ref [of 0 8 "drop_bit 8 v" "ucast v # rest"]
    by (simp add: put_large [OF False] append length_putVarint64_nine del: putVarint64_nine.simps)
qed


section \<open>Self-delimiting codes\<close>

text \<open>
  A reader that gets back what the writer put, whatever follows. Such a code is injective,
  no code word is a prefix of another, and a sequence of values can be read back.
\<close>

locale self_delimiting =
  fixes put :: "'a \<Rightarrow> byte list" and get :: "byte list \<Rightarrow> nat \<times> 'a"
  assumes get_put: "get (put v @ rest) = (length (put v), v)"
    and put_nonempty: "put v \<noteq> []"
begin

lemma put_prefix_free: "put v @ r = put w @ s \<Longrightarrow> v = w \<and> r = s"
  using get_put [of v r] get_put [of w s] by auto

lemma put_inject: "put v = put w \<longleftrightarrow> v = w"
  using put_prefix_free [of v "[]" w "[]"] by auto

fun get_many :: "nat \<Rightarrow> byte list \<Rightarrow> 'a list \<times> byte list" where
  "get_many 0 p = ([], p)"
| "get_many (Suc n) p = (case get p of (k, v) \<Rightarrow> case get_many n (drop k p) of (vs, r) \<Rightarrow> (v # vs, r))"

lemma get_many_put: "get_many (length vs) (concat (map put vs) @ rest) = (vs, rest)"
  by (induction vs) (simp_all add: get_put)

lemma concat_put_inject: "concat (map put vs) = concat (map put ws) \<Longrightarrow> length vs = length ws \<Longrightarrow> vs = ws"
  using get_many_put [of vs "[]"] get_many_put [of ws "[]"] by auto

lemma concat_put_length: "length vs \<le> length (concat (map put vs))"
proof (induction vs)
  case (Cons v vs)
  moreover have "0 < length (put v)"
    using put_nonempty by simp
  ultimately show ?case
    by (simp only: list.map concat.simps length_append list.size)
qed simp

end

lemma varint_complete_split:
  "length ys \<le> m \<Longrightarrow> length ys = m \<or> \<not> bit x 7 \<Longrightarrow> varint_complete m (ys @ x # rest)"
  by (induction ys arbitrary: m) auto

lemma varint_complete_put: "varint_complete 8 (sqlite3PutVarint v @ rest)"
proof (cases "unat v < 2 ^ 56")
  case True
  have "varint_complete 8 (high_groups (drop_bit 7 v) @ ucast (v AND 0x7f) # rest)"
    using high_groups_of_shift [OF True] by (intro varint_complete_split) (simp_all add: bit_simps)
  then show ?thesis by (simp add: put_small [OF True])
next
  case False
  have "length (sqlite3PutVarint v) = 9"
    using False by (simp add: put_length)
  then have "sqlite3PutVarint v = take 8 (sqlite3PutVarint v) @ [sqlite3PutVarint v ! 8]"
    using id_take_nth_drop [of 8 "sqlite3PutVarint v"] by simp
  moreover have "varint_complete 8 (take 8 (sqlite3PutVarint v) @ sqlite3PutVarint v ! 8 # rest)"
    using \<open>length (sqlite3PutVarint v) = 9\<close> by (intro varint_complete_split) simp_all
  ultimately show ?thesis
    by (metis append_Cons append_Nil append_assoc)
qed

lemma sqlite3GetVarint_put: "sqlite3GetVarint (sqlite3PutVarint v @ rest) = (length (sqlite3PutVarint v), v)"
  using getVarint_ref [OF varint_complete_put] varint_ref_put by simp

lemma put_nonempty: "sqlite3PutVarint v \<noteq> []"
  using put_length [of v] by (auto split: if_splits)

lemma four_byte_get_put: "sqlite3Get4byte (sqlite3Put4byte v @ rest) = v"
  by (rule u32_eqI) (simp add: sqlite3Get4byte_def sqlite3Put4byte_def at32_def upt_0_32
      bit_simps byte_bit_False)

lemma four_byte_put_get:
  assumes "4 \<le> length p"
  shows "sqlite3Put4byte (sqlite3Get4byte p) = take 4 p"
proof -
  obtain b0 b1 b2 b3 r where p: "p = b0 # b1 # b2 # b3 # r"
    using assms by (auto simp: numeral_eq_Suc Suc_le_length_iff)
  have "ucast (drop_bit 24 (sqlite3Get4byte p)) = b0" "ucast (drop_bit 16 (sqlite3Get4byte p)) = b1"
    "ucast (drop_bit 8 (sqlite3Get4byte p)) = b2" "ucast (sqlite3Get4byte p) = b3"
    by (rule byte_eqI, simp add: p sqlite3Get4byte_def at32_def upt_0_8 bit_simps byte_bit_False)+
  then show ?thesis
    by (simp add: sqlite3Put4byte_def p)
qed

interpretation varint: self_delimiting sqlite3PutVarint sqlite3GetVarint
  by unfold_locales (simp_all add: sqlite3GetVarint_put put_nonempty)

interpretation four_byte: self_delimiting sqlite3Put4byte "\<lambda>p. (4, sqlite3Get4byte p)"
  using four_byte_get_put by unfold_locales (simp, simp_all add: sqlite3Put4byte_def)


section \<open>Properties\<close>

text \<open>
  C22. sqlite3GetVarint reads back every 64-bit value sqlite3PutVarint wrote and its length,
  between 1 and 9, whatever bytes follow; a sequence of values is read back from its
  concatenated encodings, and the four-byte integer round-trips.
\<close>

theorem varint_roundtrip:
  "sqlite3GetVarint (sqlite3PutVarint v @ rest) = (length (sqlite3PutVarint v), v)
   \<and> length (sqlite3PutVarint v) \<in> {1..9}
   \<and> varint.get_many (length vs) (concat (map sqlite3PutVarint vs) @ rest) = (vs, rest)
   \<and> sqlite3Get4byte (sqlite3Put4byte w @ rest) = w"
proof -
  have "length (sqlite3PutVarint v) \<in> {1..9}"
    using high_groups_of_shift [of v] by (auto simp: put_length)
  then show ?thesis
    using varint.get_put varint.get_many_put four_byte_get_put by blast
qed

lemma and_u32_max: "v AND 0xffffffff = v \<longleftrightarrow> unat (v :: u64) < 2 ^ 32"
proof -
  have split: "v = (v AND 0xffffffff) OR push_bit 32 (drop_bit 32 v)"
    by (intro u64_eqI, simp add: upt_0_64 bit_simps u64_bit_False)
  have "v AND 0xffffffff = v \<longleftrightarrow> drop_bit 32 v = 0"
  proof
    assume *: "v AND 0xffffffff = v"
    have "drop_bit 32 (v AND 0xffffffff) = 0"
      by (intro u64_eqI, simp add: upt_0_64 bit_simps u64_bit_False)
    then show "drop_bit 32 v = 0" by (simp only: *)
  qed (metis split push_bit_of_0 or.right_neutral)
  also have "\<dots> \<longleftrightarrow> unat v div 2 ^ 32 = 0"
    by (metis unat_drop_bit_eq drop_bit_eq_div unat_eq_0)
  finally show ?thesis by (simp add: div_eq_0_iff)
qed

lemma byte_less_128: "(b :: byte) < 0x80 \<longleftrightarrow> \<not> bit b 7"
proof -
  have "drop_bit 7 b = 0 \<longleftrightarrow> unat b div 2 ^ 7 = 0"
    by (metis unat_drop_bit_eq drop_bit_eq_div unat_eq_0)
  moreover have "drop_bit 7 b = 0 \<longleftrightarrow> \<not> bit b 7"
  proof
    assume "\<not> bit b 7"
    then show "drop_bit 7 b = 0"
      by (intro byte_eqI, simp add: upt_0_8 bit_simps byte_bit_False)
  next
    assume "drop_bit 7 b = 0"
    then have "\<not> bit (drop_bit 7 b) 0" by simp
    then show "\<not> bit b 7" by (simp add: bit_simps)
  qed
  ultimately show ?thesis by (simp add: word_less_nat_alt div_eq_0_iff)
qed

lemma getVarint32_ref:
  assumes "varint_complete 8 p"
  shows "getVarint32 p = (case varint_ref 0 0 p of (n, v) \<Rightarrow>
    (n, if unat v < 2 ^ 32 then ucast v else 0xffffffff))"
proof -
  obtain b0 r0 where p: "p = b0 # r0" and c0: "\<not> bit b0 7 \<or> varint_complete 7 r0"
    using assms by (cases p) auto
  have fits: "unat x < 2 ^ 32" if "x AND 0xffffffff = x" for x :: u64
    using that and_u32_max by blast
  have long: ?thesis if "bit b0 7" "bit (p ! 1) 7" "bit (p ! 2) 7"
    using that getVarint_ref [OF assms] and_u32_max
    by (auto simp: getVarint32_def sqlite3GetVarint32_def p byte_less_128 and_bit7_eq_0
        split: prod.split)
  show ?thesis
  proof (cases "bit b0 7")
    case False
    have "unat (ucast b0 :: u64) < 2 ^ 32"
      by (rule fits, rule u64_eqI, simp add: upt_0_64 bit_simps byte_bit_False)
    moreover have "(ucast b0 :: u32) = ucast (ucast b0 :: u64)"
      by (rule u32_eqI, simp add: upt_0_32 bit_simps byte_bit_False)
    ultimately show ?thesis
      using False by (simp only: getVarint32_def at32_def p byte_less_128) simp
  next
    case h0: True
    with c0 obtain b1 r1 where r0: "r0 = b1 # r1" and c1: "\<not> bit b1 7 \<or> varint_complete 6 r1"
      by (cases r0) auto
    show ?thesis
    proof (cases "bit b1 7")
      case False
      have "unat (push_bit 7 (ucast (b0 AND 127)) OR ucast b1 :: u64) < 2 ^ 32"
        by (rule fits, rule u64_eqI, simp add: upt_0_64 bit_simps byte_bit_False)
      moreover have "(ucast (push_bit 7 (ucast (b0 AND 127)) OR ucast b1 :: u64) :: u32)
          = push_bit 7 (ucast b0 AND 127) OR ucast b1"
        by (rule u32_eqI, simp add: upt_0_32 bit_simps byte_bit_False)
      ultimately show ?thesis
        using h0 False by (simp add: getVarint32_def sqlite3GetVarint32_def at32_def p r0
            byte_less_128 and_bit7_eq_0)
    next
      case h1: True
      with c1 obtain b2 r2 where r1: "r1 = b2 # r2"
        by (cases r1) auto
      show ?thesis
      proof (cases "bit b2 7")
        case False
        have "unat (push_bit 7 (push_bit 7 (ucast (b0 AND 127)) OR ucast (b1 AND 127)) OR ucast b2 :: u64)
            < 2 ^ 32"
          by (rule fits, rule u64_eqI, simp add: upt_0_64 bit_simps byte_bit_False)
        moreover have "(ucast (push_bit 7 (push_bit 7 (ucast (b0 AND 127)) OR ucast (b1 AND 127))
              OR ucast b2 :: u64) :: u32)
            = push_bit 14 (ucast b0 AND 127) OR push_bit 7 (ucast b1 AND 127) OR ucast b2"
          by (rule u32_eqI, simp add: upt_0_32 bit_simps byte_bit_False)
        ultimately show ?thesis
          using h0 h1 False by (simp add: getVarint32_def sqlite3GetVarint32_def at32_def p r0 r1
              byte_less_128 and_bit7_eq_0)
      qed (use long h0 h1 in \<open>simp add: p r0 r1\<close>)
    qed
  qed
qed

text \<open>
  C23. On every byte sequence that holds a complete varint the unrolled sqlite3GetVarint
  equals a byte-by-byte reader of the documented format, and getVarint32 is the same value
  saturated to 0xffffffff.
\<close>

theorem varint_readers_equal_reference:
  assumes "varint_complete 8 p"
  shows "sqlite3GetVarint p = varint_ref 0 0 p
    \<and> getVarint32 p = (case varint_ref 0 0 p of (n, v) \<Rightarrow>
        (n, if unat v < 2 ^ 32 then ucast v else 0xffffffff))"
  using getVarint_ref [OF assms] getVarint32_ref [OF assms] by (rule conjI)

theorem varint_readers_equal_reference_witness:
  "sqlite3GetVarint [0x81, 0x80, 0x80, 0x80, 0x00] = varint_ref 0 0 [0x81, 0x80, 0x80, 0x80, 0x00]
   \<and> getVarint32 [0x90, 0x80, 0x80, 0x80, 0x00] = (5, 0xffffffff)"
  using varint_readers_equal_reference [of "[0x81, 0x80, 0x80, 0x80, 0x00]"]
    varint_readers_equal_reference [of "[0x90, 0x80, 0x80, 0x80, 0x00]"]
  by (simp add: bit_simps)

lemma varint_len_groups: "varint_len v i = i + length (high_groups (drop_bit 7 v))"
proof (induction v i rule: varint_len.induct)
  case (1 v i)
  then show ?case
    by (simp add: varint_len.simps [of v i] high_groups_nonzero)
qed

text \<open>
  sqlite3VarintLen is the number of bytes sqlite3PutVarint writes for every value below
  2^63; from 2^63 on it is 10, one more than the nine bytes written.
\<close>

theorem varint_len_counts_bytes:
  "sqlite3VarintLen v = (if unat v < 2 ^ 63 then length (sqlite3PutVarint v) else 10)"
proof -
  have len: "sqlite3VarintLen v = Suc (length (high_groups (drop_bit 7 v)))"
    by (simp add: sqlite3VarintLen_def varint_len_groups)
  have le: "length (high_groups (drop_bit 7 v)) \<le> k" if "unat v < 128 * 128 ^ k" for k
    using that by (intro high_groups_length_le) (simp add: unat_drop_bit_7 less_mult_imp_div_less mult.commute)
  have gt: "k < length (high_groups (drop_bit 7 v))" if "128 * 128 ^ k \<le> unat v" for k
  proof (rule high_groups_length_gt)
    have "(128 :: nat) ^ k = (128 * 128 ^ k) div 128" by simp
    also have "\<dots> \<le> unat v div 128" using that by (rule div_le_mono)
    finally show "128 ^ k \<le> unat (drop_bit 7 v)" by (simp add: unat_drop_bit_7)
  qed
  consider "unat v < 2 ^ 56" | "2 ^ 56 \<le> unat v" "unat v < 2 ^ 63" | "2 ^ 63 \<le> unat v" by linarith
  then show ?thesis
  proof cases
    case 1
    then show ?thesis by (simp add: len put_length)
  next
    case 2
    then show ?thesis
      using gt [of 7] le [of 8] by (simp add: len put_length)
  next
    case 3
    have "unat v < 2 ^ 64"
      using unsigned_less [of v] by simp
    then show ?thesis
      using 3 gt [of 8] le [of 9] by (simp add: len)
  qed
qed


section \<open>Decimal numbers\<close>

definition decimal_from :: "nat \<Rightarrow> string \<Rightarrow> nat" where
  "decimal_from = foldl (\<lambda>v c. v * 10 + (of_char c - 48))"

lemma decimal_from_simps [simp]:
  "decimal_from v [] = v" "decimal_from v (c # cs) = decimal_from (v * 10 + (of_char c - 48)) cs"
  by (simp_all add: decimal_from_def)

lemma decimal_from_mono: "v \<le> decimal_from v cs"
proof (induction cs arbitrary: v)
  case (Cons c cs)
  have "v \<le> v * 10 + (of_char c - 48)" by simp
  also have "\<dots> \<le> decimal_from (v * 10 + (of_char c - 48)) cs" by (rule Cons.IH)
  finally show ?case by simp
qed simp

lemma getUInt32_loop_value:
  "v \<le> 2 ^ 32 \<Longrightarrow> getUInt32_loop z i (of_nat v) =
     (let d = takeWhile sqlite3Isdigit z in
      if decimal_from v d > 2 ^ 32 then None
      else Some (of_nat (decimal_from v d), i + length d, dropWhile sqlite3Isdigit z))"
proof (induction z arbitrary: i v)
  case (Cons c cs)
  show ?case
  proof (cases "sqlite3Isdigit c")
    case digit: True
    let ?w = "v * 10 + (of_char c - 48)"
    have small: "?w < 2 ^ 64"
    proof -
      have "of_char c - 48 \<le> (9 :: nat)" "v \<le> 4294967296"
        using Cons.prems digit by (auto simp: sqlite3Isdigit_def)
      then have "?w \<le> 4294967296 * 10 + 9" by (intro add_mono mult_right_mono) simp_all
      then show ?thesis by simp
    qed
    have w: "(of_nat v * 10 + of_nat (of_char c) - 48 :: u64) = of_nat ?w"
      using digit by (simp add: sqlite3Isdigit_def of_nat_diff)
    have "(of_nat n :: u64) > 4294967296 \<longleftrightarrow> n > 2 ^ 32" if "n < 2 ^ 64" for n
      using that by (simp add: word_less_nat_alt unat_of_nat)
    note gt = this [OF small]
    show ?thesis
    proof (cases "?w > 2 ^ 32")
      case True
      then show ?thesis
        using digit decimal_from_mono [of ?w "takeWhile sqlite3Isdigit cs"] gt
        by (simp add: w Let_def del: of_nat_add of_nat_mult of_nat_diff)
    next
      case False
      then show ?thesis
        using digit Cons.IH [of ?w "i + 1"] gt
        by (simp add: w Let_def del: of_nat_add of_nat_mult of_nat_diff)
    qed
  qed (use Cons.prems in \<open>simp add: Let_def\<close>)
qed simp

text \<open>
  sqlite3GetUInt32 accepts exactly the non-empty digit strings whose value is at most
  2^32 and yields the value modulo 2^32, so the bound it accepts is one above the 32-bit
  range.
\<close>

theorem getUInt32_value:
  "sqlite3GetUInt32 z =
     (if z \<noteq> [] \<and> list_all sqlite3Isdigit z \<and> decimal_from 0 z \<le> 2 ^ 32
      then Some (of_nat (decimal_from 0 z)) else None)"
proof -
  have all: "list_all sqlite3Isdigit z \<longleftrightarrow> dropWhile sqlite3Isdigit z = []"
    by (simp add: dropWhile_eq_Nil_conv list_all_iff)
  have tk: "takeWhile sqlite3Isdigit z = z" if "list_all sqlite3Isdigit z"
    using that by (simp add: takeWhile_eq_all_conv list_all_iff)
  have loop: "getUInt32_loop z 0 0 = (let d = takeWhile sqlite3Isdigit z in
      if decimal_from 0 d > 2 ^ 32 then None
      else Some (of_nat (decimal_from 0 d), length d, dropWhile sqlite3Isdigit z))"
    using getUInt32_loop_value [of 0 z 0] by (simp add: Let_def)
  have "(ucast (of_nat n :: u64) :: u32) = of_nat n" if "n \<le> 2 ^ 32" for n
    using that by (simp add: unsigned_of_nat take_bit_nat_eq_self)
  note calculation = loop this
  show ?thesis
  proof (cases "list_all sqlite3Isdigit z")
    case True
    then show ?thesis
      using calculation tk [OF True] all
      by (cases "decimal_from 0 z \<le> 2 ^ 32") (auto simp: sqlite3GetUInt32_def not_less)
  next
    case False
    then show ?thesis
      using calculation(1) all by (auto simp: sqlite3GetUInt32_def Let_def split: option.split)
  qed
qed

text \<open>The number one above the 32-bit range is accepted, and read as 0.\<close>

lemma getUInt32_accepts_2_32: "sqlite3GetUInt32 ''4294967296'' = Some 0"
  by (simp add: getUInt32_value sqlite3Isdigit_def)

end
