(* ===== verification/Sqlite_Chars.thy ===== *)
theory Sqlite_Chars
  imports Adou_Prelude
begin

text \<open>
  Character handling of the bundled SQLite: the tables \<open>sqlite3UpperToLower\<close> and
  \<open>sqlite3CtypeMap\<close>, the macros over them, the case-insensitive comparisons and hash, and the
  reading of hexadecimal digits. A C string is the list of its bytes before the terminating
  NUL; \<open>cstr z i\<close> is \<open>z[i]\<close>, with the NUL at the end.
\<close>

definition cstr :: "byte list \<Rightarrow> nat \<Rightarrow> byte" where
  "cstr z i = (if i < length z then z ! i else 0)"

section \<open>Tables\<close>

definition sqlite3UpperToLower :: "byte list" where
  "sqlite3UpperToLower =
    [0, 1, 2, 3, 4, 5, 6, 7, 8, 9, 10, 11, 12, 13, 14, 15, 16, 17,
     18, 19, 20, 21, 22, 23, 24, 25, 26, 27, 28, 29, 30, 31, 32, 33, 34, 35,
     36, 37, 38, 39, 40, 41, 42, 43, 44, 45, 46, 47, 48, 49, 50, 51, 52, 53,
     54, 55, 56, 57, 58, 59, 60, 61, 62, 63, 64, 97, 98, 99, 100, 101, 102, 103,
     104, 105, 106, 107, 108, 109, 110, 111, 112, 113, 114, 115, 116, 117, 118, 119, 120, 121,
     122, 91, 92, 93, 94, 95, 96, 97, 98, 99, 100, 101, 102, 103, 104, 105, 106, 107,
     108, 109, 110, 111, 112, 113, 114, 115, 116, 117, 118, 119, 120, 121, 122, 123, 124, 125,
     126, 127, 128, 129, 130, 131, 132, 133, 134, 135, 136, 137, 138, 139, 140, 141, 142, 143,
     144, 145, 146, 147, 148, 149, 150, 151, 152, 153, 154, 155, 156, 157, 158, 159, 160, 161,
     162, 163, 164, 165, 166, 167, 168, 169, 170, 171, 172, 173, 174, 175, 176, 177, 178, 179,
     180, 181, 182, 183, 184, 185, 186, 187, 188, 189, 190, 191, 192, 193, 194, 195, 196, 197,
     198, 199, 200, 201, 202, 203, 204, 205, 206, 207, 208, 209, 210, 211, 212, 213, 214, 215,
     216, 217, 218, 219, 220, 221, 222, 223, 224, 225, 226, 227, 228, 229, 230, 231, 232, 233,
     234, 235, 236, 237, 238, 239, 240, 241, 242, 243, 244, 245, 246, 247, 248, 249, 250, 251,
     252, 253, 254, 255]"

definition sqlite3CtypeMap :: "byte list" where
  "sqlite3CtypeMap =
    [0x00, 0x00, 0x00, 0x00, 0x00, 0x00, 0x00, 0x00, 0x00, 0x01, 0x01, 0x01,
     0x01, 0x01, 0x00, 0x00, 0x00, 0x00, 0x00, 0x00, 0x00, 0x00, 0x00, 0x00,
     0x00, 0x00, 0x00, 0x00, 0x00, 0x00, 0x00, 0x00, 0x01, 0x00, 0x80, 0x00,
     0x40, 0x00, 0x00, 0x80, 0x00, 0x00, 0x00, 0x00, 0x00, 0x00, 0x00, 0x00,
     0x0c, 0x0c, 0x0c, 0x0c, 0x0c, 0x0c, 0x0c, 0x0c, 0x0c, 0x0c, 0x00, 0x00,
     0x00, 0x00, 0x00, 0x00, 0x00, 0x0a, 0x0a, 0x0a, 0x0a, 0x0a, 0x0a, 0x02,
     0x02, 0x02, 0x02, 0x02, 0x02, 0x02, 0x02, 0x02, 0x02, 0x02, 0x02, 0x02,
     0x02, 0x02, 0x02, 0x02, 0x02, 0x02, 0x02, 0x80, 0x00, 0x00, 0x00, 0x40,
     0x80, 0x2a, 0x2a, 0x2a, 0x2a, 0x2a, 0x2a, 0x22, 0x22, 0x22, 0x22, 0x22,
     0x22, 0x22, 0x22, 0x22, 0x22, 0x22, 0x22, 0x22, 0x22, 0x22, 0x22, 0x22,
     0x22, 0x22, 0x22, 0x00, 0x00, 0x00, 0x00, 0x00, 0x40, 0x40, 0x40, 0x40,
     0x40, 0x40, 0x40, 0x40, 0x40, 0x40, 0x40, 0x40, 0x40, 0x40, 0x40, 0x40,
     0x40, 0x40, 0x40, 0x40, 0x40, 0x40, 0x40, 0x40, 0x40, 0x40, 0x40, 0x40,
     0x40, 0x40, 0x40, 0x40, 0x40, 0x40, 0x40, 0x40, 0x40, 0x40, 0x40, 0x40,
     0x40, 0x40, 0x40, 0x40, 0x40, 0x40, 0x40, 0x40, 0x40, 0x40, 0x40, 0x40,
     0x40, 0x40, 0x40, 0x40, 0x40, 0x40, 0x40, 0x40, 0x40, 0x40, 0x40, 0x40,
     0x40, 0x40, 0x40, 0x40, 0x40, 0x40, 0x40, 0x40, 0x40, 0x40, 0x40, 0x40,
     0x40, 0x40, 0x40, 0x40, 0x40, 0x40, 0x40, 0x40, 0x40, 0x40, 0x40, 0x40,
     0x40, 0x40, 0x40, 0x40, 0x40, 0x40, 0x40, 0x40, 0x40, 0x40, 0x40, 0x40,
     0x40, 0x40, 0x40, 0x40, 0x40, 0x40, 0x40, 0x40, 0x40, 0x40, 0x40, 0x40,
     0x40, 0x40, 0x40, 0x40, 0x40, 0x40, 0x40, 0x40, 0x40, 0x40, 0x40, 0x40,
     0x40, 0x40, 0x40, 0x40]"

definition UpperToLower :: "byte \<Rightarrow> byte" where
  "UpperToLower c = sqlite3UpperToLower ! unat c"

definition ctype :: "byte \<Rightarrow> byte" where
  "ctype c = sqlite3CtypeMap ! unat c"

definition sqlite3Toupper :: "byte \<Rightarrow> byte" where
  "sqlite3Toupper x = x AND NOT (ctype x AND 0x20)"
definition sqlite3Isspace :: "byte \<Rightarrow> bool" where "sqlite3Isspace x \<longleftrightarrow> ctype x AND 0x01 \<noteq> 0"
definition sqlite3Isalnum :: "byte \<Rightarrow> bool" where "sqlite3Isalnum x \<longleftrightarrow> ctype x AND 0x06 \<noteq> 0"
definition sqlite3Isalpha :: "byte \<Rightarrow> bool" where "sqlite3Isalpha x \<longleftrightarrow> ctype x AND 0x02 \<noteq> 0"
definition sqlite3IsDigit :: "byte \<Rightarrow> bool" where "sqlite3IsDigit x \<longleftrightarrow> ctype x AND 0x04 \<noteq> 0"
definition sqlite3Isxdigit :: "byte \<Rightarrow> bool" where "sqlite3Isxdigit x \<longleftrightarrow> ctype x AND 0x08 \<noteq> 0"
definition sqlite3Isquote :: "byte \<Rightarrow> bool" where "sqlite3Isquote x \<longleftrightarrow> ctype x AND 0x80 \<noteq> 0"
definition IdChar :: "byte \<Rightarrow> bool" where "IdChar x \<longleftrightarrow> ctype x AND 0x46 \<noteq> 0"

section \<open>Case-insensitive comparison and hash\<close>

text \<open>The two strings are read to the NUL; the result is the value of \<open>c\<close> at the end of the loop.\<close>

fun sqlite3StrICmp :: "byte list \<Rightarrow> byte list \<Rightarrow> int" where
  "sqlite3StrICmp [] [] = 0"
| "sqlite3StrICmp [] (x # bs) = uint (UpperToLower 0) - uint (UpperToLower x)"
| "sqlite3StrICmp (c # as) [] = uint (UpperToLower c) - uint (UpperToLower 0)"
| "sqlite3StrICmp (c # as) (x # bs) =
     (if c = x then sqlite3StrICmp as bs
      else let d = uint (UpperToLower c) - uint (UpperToLower x) in
           if d \<noteq> 0 then d else sqlite3StrICmp as bs)"

definition sqlite3_stricmp :: "byte list option \<Rightarrow> byte list option \<Rightarrow> int" where
  "sqlite3_stricmp zLeft zRight =
     (case zLeft of
        None \<Rightarrow> (if zRight = None then 0 else -1)
      | Some a \<Rightarrow> (case zRight of None \<Rightarrow> 1 | Some b \<Rightarrow> sqlite3StrICmp a b))"

text \<open>The loop of \<open>sqlite3_strnicmp\<close>; \<open>n\<close> is the number of characters it may still compare.\<close>

fun strnicmp_loop :: "nat \<Rightarrow> byte list \<Rightarrow> byte list \<Rightarrow> int" where
  "strnicmp_loop 0 as bs = 0"
| "strnicmp_loop (Suc n) (c # as) (x # bs) =
     (if UpperToLower c = UpperToLower x then strnicmp_loop n as bs
      else uint (UpperToLower c) - uint (UpperToLower x))"
| "strnicmp_loop (Suc n) (c # as) [] = uint (UpperToLower c) - uint (UpperToLower 0)"
| "strnicmp_loop (Suc n) [] bs = uint (UpperToLower 0) - uint (UpperToLower (cstr bs 0))"

definition sqlite3_strnicmp :: "byte list option \<Rightarrow> byte list option \<Rightarrow> int \<Rightarrow> int" where
  "sqlite3_strnicmp zLeft zRight n =
     (case zLeft of
        None \<Rightarrow> (if zRight = None then 0 else -1)
      | Some a \<Rightarrow> (case zRight of None \<Rightarrow> 1 | Some b \<Rightarrow> strnicmp_loop (nat n) a b))"

definition sqlite3StrIHash :: "byte list option \<Rightarrow> byte" where
  "sqlite3StrIHash z =
     (case z of None \<Rightarrow> 0 | Some cs \<Rightarrow> foldl (\<lambda>h c. h + UpperToLower c) 0 cs)"

section \<open>Hexadecimal digits\<close>

definition sqlite3HexToInt :: "byte \<Rightarrow> byte" where
  "sqlite3HexToInt h = (h + 9 * (1 AND drop_bit 6 h)) AND 0xf"

text \<open>
  \<open>sqlite3HexToBlob\<close> on the \<open>n\<close> characters after the opening quote, the closing quote included:
  the loop \<open>for(i=0; i<n; i+=2)\<close> with \<open>n\<close> one less, and the NUL put after the bytes.
\<close>

fun hexToBlob_loop :: "byte list \<Rightarrow> nat \<Rightarrow> nat \<Rightarrow> byte list" where
  "hexToBlob_loop z 0 i = [0]"
| "hexToBlob_loop z (Suc 0) i =
     [push_bit 4 (sqlite3HexToInt (cstr z i)) OR sqlite3HexToInt (cstr z (i + 1)), 0]"
| "hexToBlob_loop z (Suc (Suc n)) i =
     (push_bit 4 (sqlite3HexToInt (cstr z i)) OR sqlite3HexToInt (cstr z (i + 1)))
       # hexToBlob_loop z n (i + 2)"

definition sqlite3HexToBlob :: "bool \<Rightarrow> byte list \<Rightarrow> nat \<Rightarrow> byte list option" where
  "sqlite3HexToBlob malloc_ok z n = (if malloc_ok then Some (hexToBlob_loop z (n - 1) 0) else None)"


section \<open>The tables\<close>

definition all_bytes :: "byte list" where
  "all_bytes = map word_of_int [0..255]"

text \<open>What holds of each entry of a table holds of the entry of every byte.\<close>

lemma table_entry:
  assumes "list_all (\<lambda>(c, m). P c m) (zip all_bytes table)" "length table = 256"
  shows "P c (table ! unat c)"
proof -
  have n: "unat c < 256"
    using unsigned_less [of c] by simp
  have len: "length all_bytes = 256"
    by (simp add: all_bytes_def)
  have "all_bytes ! unat c = word_of_int ([0..255] ! unat c)"
    using n by (simp add: all_bytes_def)
  also have "[0..255] ! unat c = int (unat c)"
  proof -
    have "int (unat c) \<le> 255" using n by linarith
    then show ?thesis using nth_upto [of 0 "unat c" 255] by simp
  qed
  finally have "all_bytes ! unat c = c" by simp
  moreover have "(all_bytes ! unat c, table ! unat c) \<in> set (zip all_bytes table)"
    using n len assms(2) by (auto simp: in_set_zip intro!: exI [of _ "unat c"])
  ultimately show ?thesis
    using assms(1) by (auto simp: list_all_iff)
qed

lemma UpperToLower_table:
  "UpperToLower c = (if 65 \<le> c \<and> c \<le> 90 then c + 32 else c)"
  unfolding UpperToLower_def
  by (rule table_entry [where P = "\<lambda>c m. m = (if 65 \<le> c \<and> c \<le> 90 then c + 32 else c)"];
      code_simp)

lemma ctype_classes:
  "sqlite3IsDigit c \<longleftrightarrow> 48 \<le> c \<and> c \<le> 57"
  "sqlite3Isspace c \<longleftrightarrow> c = 32 \<or> 9 \<le> c \<and> c \<le> 13"
  "sqlite3Isalpha c \<longleftrightarrow> 65 \<le> c \<and> c \<le> 90 \<or> 97 \<le> c \<and> c \<le> 122"
  "sqlite3Isxdigit c \<longleftrightarrow> 48 \<le> c \<and> c \<le> 57 \<or> 65 \<le> c \<and> c \<le> 70 \<or> 97 \<le> c \<and> c \<le> 102"
  "IdChar c \<longleftrightarrow> c = 36 \<or> 48 \<le> c \<and> c \<le> 57 \<or> 65 \<le> c \<and> c \<le> 90 \<or> c = 95 \<or> 97 \<le> c \<and> c \<le> 122 \<or> 128 \<le> c"
  unfolding sqlite3IsDigit_def sqlite3Isspace_def sqlite3Isalpha_def sqlite3Isxdigit_def IdChar_def
    ctype_def
proof -
  show "(sqlite3CtypeMap ! unat c) AND 4 \<noteq> 0 \<longleftrightarrow> 48 \<le> c \<and> c \<le> 57"
    by (rule table_entry [where P = "\<lambda>c m. m AND 4 \<noteq> 0 \<longleftrightarrow> 48 \<le> c \<and> c \<le> 57"]; code_simp)
  show "(sqlite3CtypeMap ! unat c) AND 1 \<noteq> 0 \<longleftrightarrow> c = 32 \<or> 9 \<le> c \<and> c \<le> 13"
    by (rule table_entry [where P = "\<lambda>c m. m AND 1 \<noteq> 0 \<longleftrightarrow> c = 32 \<or> 9 \<le> c \<and> c \<le> 13"]; code_simp)
  show "(sqlite3CtypeMap ! unat c) AND 2 \<noteq> 0 \<longleftrightarrow> 65 \<le> c \<and> c \<le> 90 \<or> 97 \<le> c \<and> c \<le> 122"
    by (rule table_entry [where P = "\<lambda>c m. m AND 2 \<noteq> 0 \<longleftrightarrow>
        65 \<le> c \<and> c \<le> 90 \<or> 97 \<le> c \<and> c \<le> 122"]; code_simp)
  show "(sqlite3CtypeMap ! unat c) AND 8 \<noteq> 0 \<longleftrightarrow>
      48 \<le> c \<and> c \<le> 57 \<or> 65 \<le> c \<and> c \<le> 70 \<or> 97 \<le> c \<and> c \<le> 102"
    by (rule table_entry [where P = "\<lambda>c m. m AND 8 \<noteq> 0 \<longleftrightarrow>
        48 \<le> c \<and> c \<le> 57 \<or> 65 \<le> c \<and> c \<le> 70 \<or> 97 \<le> c \<and> c \<le> 102"]; code_simp)
  show "(sqlite3CtypeMap ! unat c) AND 0x46 \<noteq> 0 \<longleftrightarrow> c = 36 \<or> 48 \<le> c \<and> c \<le> 57 \<or> 65 \<le> c \<and> c \<le> 90
      \<or> c = 95 \<or> 97 \<le> c \<and> c \<le> 122 \<or> 128 \<le> c"
    by (rule table_entry [where P = "\<lambda>c m. m AND 0x46 \<noteq> 0 \<longleftrightarrow> c = 36 \<or> 48 \<le> c \<and> c \<le> 57
        \<or> 65 \<le> c \<and> c \<le> 90 \<or> c = 95 \<or> 97 \<le> c \<and> c \<le> 122 \<or> 128 \<le> c"]; code_simp)
qed

lemma UpperToLower_eq_0 [simp]: "UpperToLower c = 0 \<longleftrightarrow> c = 0"
proof -
  have "UpperToLower c = 0 \<longrightarrow> c = 0"
    unfolding UpperToLower_def
    by (rule table_entry [where P = "\<lambda>c m. m = 0 \<longrightarrow> c = 0"]; code_simp)
  then show ?thesis
    by (auto simp: UpperToLower_table)
qed

lemma UpperToLower_0 [simp]: "UpperToLower 0 = 0"
  by simp

lemma UpperToLower_pos: "c \<noteq> 0 \<Longrightarrow> 0 < uint (UpperToLower c)"
  by (simp add: uint_nonnegative less_le uint_0_iff)

section \<open>Comparison and hash agree\<close>

definition fold_case :: "byte list \<Rightarrow> byte list" where
  "fold_case = map UpperToLower"

lemma fold_case_simps [simp]:
  "fold_case [] = []" "fold_case (c # cs) = UpperToLower c # fold_case cs"
  "fold_case cs = [] \<longleftrightarrow> cs = []" "length (fold_case cs) = length cs"
  by (simp_all add: fold_case_def)

text \<open>A C string holds no NUL.\<close>

definition c_string :: "byte list \<Rightarrow> bool" where
  "c_string z \<longleftrightarrow> 0 \<notin> set z"

lemma c_string_simps [simp]:
  "c_string []" "c_string (c # cs) \<longleftrightarrow> c \<noteq> 0 \<and> c_string cs"
  by (auto simp: c_string_def)

lemma StrICmp_eq_0: "c_string a \<Longrightarrow> c_string b \<Longrightarrow> sqlite3StrICmp a b = 0 \<longleftrightarrow> fold_case a = fold_case b"
proof (induction a b rule: sqlite3StrICmp.induct)
  case (4 c as x bs)
  then show ?case
    by (cases "c = x"; cases "UpperToLower c = UpperToLower x") (simp_all flip: word_uint_eq_iff)
qed (simp_all add: UpperToLower_pos less_imp_neq less_imp_neq [symmetric] uint_0_iff)

lemma StrICmp_swap: "sqlite3StrICmp b a = - sqlite3StrICmp a b"
  by (induction a b rule: sqlite3StrICmp.induct) (auto simp: Let_def)

text \<open>The sign of the comparison is the lexicographic order of the folded strings.\<close>

fun lex_less :: "byte list \<Rightarrow> byte list \<Rightarrow> bool" where
  "lex_less as [] \<longleftrightarrow> False"
| "lex_less [] (b # bs) \<longleftrightarrow> True"
| "lex_less (a # as) (b # bs) \<longleftrightarrow> a < b \<or> a = b \<and> lex_less as bs"

lemma StrICmp_less: "c_string a \<Longrightarrow> c_string b \<Longrightarrow>
    sqlite3StrICmp a b < 0 \<longleftrightarrow> lex_less (fold_case a) (fold_case b)"
proof (induction a b rule: sqlite3StrICmp.induct)
  case (2 x bs)
  then show ?case using UpperToLower_pos [of x] by simp
next
  case (3 c as)
  then show ?case using UpperToLower_pos [of c] by simp
next
  case (4 c as x bs)
  then show ?case
    by (cases "c = x"; cases "UpperToLower c = UpperToLower x")
      (simp_all add: word_less_def flip: word_uint_eq_iff)
qed simp

lemma StrIHash_fold: "sqlite3StrIHash (Some z) = sum_list (fold_case z)"
proof -
  have "foldl (\<lambda>h c. h + UpperToLower c) h z = h + sum_list (fold_case z)" for h
    by (induction z arbitrary: h) (simp_all add: add.assoc)
  then show ?thesis by (simp add: sqlite3StrIHash_def)
qed

lemma lex_less_trans: "lex_less a b \<Longrightarrow> lex_less b c \<Longrightarrow> lex_less a c"
proof (induction a b arbitrary: c rule: lex_less.induct)
  case (2 b bs)
  then show ?case by (cases c) auto
next
  case (3 a as b bs)
  then show ?case by (cases c) auto
qed simp

text \<open>
  On C strings sqlite3StrICmp is zero exactly for strings equal after folding ASCII
  capitals, negative exactly when the first is lexicographically smaller, antisymmetric and
  transitive, and strings it equates have the same sqlite3StrIHash.
\<close>

theorem stricmp_is_case_insensitive_order:
  assumes "c_string a" "c_string b" "c_string c"
  shows "(sqlite3StrICmp a b = 0 \<longleftrightarrow> fold_case a = fold_case b)
    \<and> (sqlite3StrICmp a b < 0 \<longleftrightarrow> lex_less (fold_case a) (fold_case b))
    \<and> sqlite3StrICmp b a = - sqlite3StrICmp a b
    \<and> (sqlite3StrICmp a b < 0 \<longrightarrow> sqlite3StrICmp b c < 0 \<longrightarrow> sqlite3StrICmp a c < 0)
    \<and> (sqlite3StrICmp a b = 0 \<longrightarrow> sqlite3StrIHash (Some a) = sqlite3StrIHash (Some b))"
  using assms StrICmp_eq_0 [of a b] StrICmp_less StrICmp_swap [of b a] lex_less_trans
  by (auto simp: StrIHash_fold)

theorem stricmp_is_case_insensitive_order_witness:
  "sqlite3StrICmp [0x41, 0x62] [0x61, 0x42] = 0
   \<and> sqlite3StrIHash (Some [0x41, 0x62]) = sqlite3StrIHash (Some [0x61, 0x42])
   \<and> sqlite3StrICmp [0x61, 0x42] [0x41, 0x62, 0x7a] < 0"
  using stricmp_is_case_insensitive_order [of "[0x41, 0x62]" "[0x61, 0x42]" "[]"]
    stricmp_is_case_insensitive_order [of "[0x61, 0x42]" "[0x41, 0x62, 0x7a]" "[]"]
  by (simp add: UpperToLower_table)


section \<open>Blob literals\<close>

definition hex_digit :: "bool \<Rightarrow> byte \<Rightarrow> byte" where
  "hex_digit upper d = (if d < 10 then d + 48 else if upper then d + 55 else d + 87)"

definition to_hex :: "bool \<Rightarrow> byte \<Rightarrow> byte list" where
  "to_hex upper b = [hex_digit upper (drop_bit 4 b), hex_digit upper (b AND 15)]"

lemma all_bytesI: "list_all P all_bytes \<Longrightarrow> P c"
  by (rule table_entry [of "\<lambda>c m. P c" all_bytes])
    (auto simp: list_all_iff all_bytes_def dest!: set_zip_leftD)

definition hex_pair_ok :: "bool \<Rightarrow> byte \<Rightarrow> bool" where
  "hex_pair_ok upper b \<longleftrightarrow> push_bit 4 (sqlite3HexToInt (hex_digit upper (drop_bit 4 b)))
     OR sqlite3HexToInt (hex_digit upper (b AND 15)) = b"

lemma hex_pair: "hex_pair_ok upper b"
proof -
  have "hex_pair_ok True b" "hex_pair_ok False b"
    by (rule all_bytesI, code_simp)+
  then show ?thesis by (cases upper) simp_all
qed

lemma hexToBlob_loop_pairs:
  "i = length pre \<Longrightarrow> hexToBlob_loop (pre @ concat (map (to_hex upper) bs) @ rest) (2 * length bs) i
    = bs @ [0]"
proof (induction bs arbitrary: pre i)
  case (Cons b bs)
  let ?z = "pre @ concat (map (to_hex upper) (b # bs)) @ rest"
  have at: "cstr ?z i = hex_digit upper (drop_bit 4 b)" "cstr ?z (i + 1) = hex_digit upper (b AND 15)"
    using Cons.prems by (simp_all add: cstr_def to_hex_def nth_append)
  have "hexToBlob_loop ((pre @ to_hex upper b) @ concat (map (to_hex upper) bs) @ rest)
      (2 * length bs) (i + 2) = bs @ [0]"
    using Cons.prems by (intro Cons.IH) (simp add: to_hex_def)
  then show ?case
    using at hex_pair [of upper b] by (simp add: hex_pair_ok_def)
qed simp

text \<open>
  sqlite3HexToBlob reads back the bytes whose two hexadecimal digits each, of either
  case, make up a blob literal, followed by a NUL.
\<close>

theorem hex_blob_roundtrip:
  "sqlite3HexToBlob True (concat (map (to_hex upper) bs) @ [39]) (2 * length bs + 1) = Some (bs @ [0])"
  using hexToBlob_loop_pairs [of 0 "[]" upper bs "[39]"] by (simp add: sqlite3HexToBlob_def)

end
