(* ===== verification/Sqlite_Arith.thy ===== *)
theory Sqlite_Arith
  imports Adou_Prelude "HOL-Library.Signed_Division"
begin

text \<open>
  Checked 64-bit arithmetic and the logarithmic estimates of the bundled SQLite (its \<open>util.c\<close>
  part). A signed 64-bit value is an integer and every operation of the code is followed by
  \<open>i64\<close>, which wraps it to 64 bits: that no wrap happens is part of what is proved. \<open>LogEst\<close> is
  a 16-bit integer in the code; its values stay far inside that range.
\<close>

definition i64 :: "int \<Rightarrow> int" where
  "i64 x = signed_take_bit 63 x"

definition in_i64 :: "int \<Rightarrow> bool" where
  "in_i64 x \<longleftrightarrow> - 9223372036854775808 \<le> x \<and> x < 9223372036854775808"

definition LARGEST_INT64 :: int where "LARGEST_INT64 = 9223372036854775807"
definition SMALLEST_INT64 :: int where "SMALLEST_INT64 = - 9223372036854775808"

lemma i64_id [simp]: "in_i64 x \<Longrightarrow> i64 x = x"
  unfolding i64_def by (rule signed_take_bit_int_eq_self) (simp_all add: in_i64_def)

section \<open>Checked arithmetic\<close>

text \<open>The return code and the new value of \<open>*pA\<close>.\<close>

definition sqlite3AddInt64 :: "int \<Rightarrow> int \<Rightarrow> int \<times> int" where
  "sqlite3AddInt64 iA iB =
     (if iB \<ge> 0 then
        (if iA > 0 \<and> i64 (LARGEST_INT64 - iA) < iB then (1, iA) else (0, i64 (iA + iB)))
      else
        (if iA < 0 \<and> i64 (- i64 (iA + LARGEST_INT64)) > i64 (iB + 1) then (1, iA)
         else (0, i64 (iA + iB))))"

definition sqlite3SubInt64 :: "int \<Rightarrow> int \<Rightarrow> int \<times> int" where
  "sqlite3SubInt64 iA iB =
     (if iB = SMALLEST_INT64 then (if iA \<ge> 0 then (1, iA) else (0, i64 (iA - iB)))
      else sqlite3AddInt64 iA (i64 (- iB)))"

definition sqlite3MulInt64 :: "int \<Rightarrow> int \<Rightarrow> int \<times> int" where
  "sqlite3MulInt64 iA iB =
     (if iB > 0 \<and> (iA > LARGEST_INT64 sdiv iB \<or> iA < SMALLEST_INT64 sdiv iB) then (1, iA)
      else if iB < 0 \<and> iA > 0 \<and> iB < SMALLEST_INT64 sdiv iA then (1, iA)
      else if iB < 0 \<and> iA < 0 \<and> (iB = SMALLEST_INT64 \<or> iA = SMALLEST_INT64
             \<or> i64 (- iA) > LARGEST_INT64 sdiv i64 (- iB)) then (1, iA)
      else (0, i64 (iA * iB)))"

definition sqlite3AbsInt32 :: "int \<Rightarrow> int" where
  "sqlite3AbsInt32 x =
     (if x \<ge> 0 then x else if x = to_int32 0x80000000 then 0x7fffffff else to_int32 (- x))"

section \<open>Logarithmic estimates\<close>

definition logest_x :: "int list" where
  "logest_x = [10, 10, 9, 9, 8, 8, 7, 7, 7, 6, 6, 6, 5, 5, 5, 4, 4, 4, 4,
     3, 3, 3, 3, 3, 3, 2, 2, 2, 2, 2, 2, 2]"

definition sqlite3LogEstAdd :: "int \<Rightarrow> int \<Rightarrow> int" where
  "sqlite3LogEstAdd a b =
     (if a \<ge> b then
        (if a > b + 49 then a else if a > b + 31 then a + 1 else a + logest_x ! nat (a - b))
      else
        (if b > a + 49 then b else if b > a + 31 then b + 1 else b + logest_x ! nat (b - a)))"

text \<open>The three loops of \<open>sqlite3LogEst\<close>, on the value \<open>x\<close> and the estimate \<open>y\<close>.\<close>

function logest_up :: "nat \<Rightarrow> int \<Rightarrow> nat \<times> int" where
  "logest_up x y = (if 0 < x \<and> x < 8 then logest_up (x * 2) (y - 10) else (x, y))"
  by pat_completeness auto
termination by (relation "measure (\<lambda>(x, y). 8 - x)") auto

fun logest_down4 :: "nat \<Rightarrow> int \<Rightarrow> nat \<times> int" where
  "logest_down4 x y = (if x > 255 then logest_down4 (x div 16) (y + 40) else (x, y))"

fun logest_down1 :: "nat \<Rightarrow> int \<Rightarrow> nat \<times> int" where
  "logest_down1 x y = (if x > 15 then logest_down1 (x div 2) (y + 10) else (x, y))"

declare logest_up.simps [simp del] logest_down4.simps [simp del] logest_down1.simps [simp del]

definition logest_a :: "int list" where
  "logest_a = [0, 2, 3, 5, 6, 7, 8, 9]"

definition sqlite3LogEst :: "nat \<Rightarrow> int" where
  "sqlite3LogEst x =
     (if x < 2 then 0
      else case (if x < 8 then logest_up x 40
                 else case logest_down4 x 40 of (x1, y1) \<Rightarrow> logest_down1 x1 y1) of
        (x2, y2) \<Rightarrow> logest_a ! (x2 mod 8) + y2 - 10)"

text \<open>
  \<open>sqlite3LogEstToInt\<close> for the non-negative arguments it is called with: the remainder is kept
  in an unsigned 64-bit variable.
\<close>

definition sqlite3LogEstToInt :: "int \<Rightarrow> nat" where
  "sqlite3LogEstToInt e =
     (let n = nat (e mod 10); x = e div 10;
          n = (if n \<ge> 5 then n - 2 else if n \<ge> 1 then n - 1 else n)
      in if x > 60 then nat LARGEST_INT64
         else if x \<ge> 3 then (n + 8) * 2 ^ nat (x - 3) else (n + 8) div 2 ^ nat (3 - x))"

section \<open>The arithmetic is exact or reports an overflow\<close>

lemma div_less_iff: "0 < (b :: int) \<Longrightarrow> y div b < x \<longleftrightarrow> y < x * b"
proof
  assume "0 < b" "y div b < x"
  then have "b * (y div b + 1) \<le> b * x"
    by (intro mult_left_mono) simp_all
  moreover have "y < b * (y div b + 1)"
    using pos_mod_bound [OF \<open>0 < b\<close>, of y] mult_div_mod_eq [of b y] unfolding distrib_left by linarith
  ultimately show "y < x * b" by (simp add: mult.commute)
next
  assume "0 < b" "y < x * b"
  moreover have "b * (y div b) \<le> y"
    using \<open>0 < b\<close> pos_mod_sign [of b y] mult_div_mod_eq [of b y] by linarith
  ultimately have "b * (y div b) < b * x"
    unfolding mult.commute [of x b] by linarith
  with \<open>0 < b\<close> show "y div b < x" by simp
qed

lemmas i64_defs = in_i64_def LARGEST_INT64_def SMALLEST_INT64_def

definition checked :: "int \<Rightarrow> int \<Rightarrow> int \<times> int" where
  "checked old exact = (if in_i64 exact then (0, exact) else (1, old))"

lemma AddInt64_checked:
  assumes "in_i64 a" "in_i64 b"
  shows "sqlite3AddInt64 a b = checked a (a + b)"
proof -
  have w: "b \<ge> 0 \<Longrightarrow> a > 0 \<Longrightarrow> in_i64 (LARGEST_INT64 - a)" "a < 0 \<Longrightarrow> in_i64 (a + LARGEST_INT64)"
    "a < 0 \<Longrightarrow> in_i64 (- (a + LARGEST_INT64))" "b < 0 \<Longrightarrow> in_i64 (b + 1)"
    using assms by (simp_all add: i64_defs)
  have s: "b \<ge> 0 \<Longrightarrow> \<not> (a > 0 \<and> LARGEST_INT64 - a < b) \<Longrightarrow> in_i64 (a + b)"
    "b < 0 \<Longrightarrow> \<not> (a < 0 \<and> - (a + LARGEST_INT64) > b + 1) \<Longrightarrow> in_i64 (a + b)"
    using assms by (auto simp: i64_defs)
  have n: "b \<ge> 0 \<Longrightarrow> a > 0 \<Longrightarrow> LARGEST_INT64 - a < b \<Longrightarrow> \<not> in_i64 (a + b)"
    "b < 0 \<Longrightarrow> a < 0 \<Longrightarrow> - (a + LARGEST_INT64) > b + 1 \<Longrightarrow> \<not> in_i64 (a + b)"
    using assms by (auto simp: i64_defs)
  show ?thesis
  proof (cases "b \<ge> 0")
    case True
    then show ?thesis
      using w(1) s(1) n(1) by (cases "a > 0") (simp_all add: sqlite3AddInt64_def checked_def)
  next
    case False
    then show ?thesis
      using w(2,3,4) s(2) n(2) by (cases "a < 0") (simp_all add: sqlite3AddInt64_def checked_def)
  qed
qed

lemma SubInt64_checked:
  assumes "in_i64 a" "in_i64 b"
  shows "sqlite3SubInt64 a b = checked a (a - b)"
proof (cases "b = SMALLEST_INT64")
  case True
  then have "a \<ge> 0 \<longleftrightarrow> \<not> in_i64 (a - b)"
    using assms by (auto simp: i64_defs)
  then show ?thesis
    using True by (auto simp: sqlite3SubInt64_def checked_def)
next
  case False
  then have "in_i64 (- b)"
    using assms by (auto simp: i64_defs)
  then show ?thesis
    using False AddInt64_checked [OF assms(1), of "- b"] by (simp add: sqlite3SubInt64_def)
qed

lemma sdiv_pos: "0 < b \<Longrightarrow> LARGEST_INT64 sdiv b = LARGEST_INT64 div b"
  "0 < b \<Longrightarrow> SMALLEST_INT64 sdiv b = - (9223372036854775808 div b)"
  by (simp_all add: signed_divide_int_def i64_defs)

lemma MulInt64_pos:
  assumes "0 < b"
  shows "a > LARGEST_INT64 sdiv b \<longleftrightarrow> LARGEST_INT64 < a * b"
    "a < SMALLEST_INT64 sdiv b \<longleftrightarrow> a * b < SMALLEST_INT64"
proof -
  show "a > LARGEST_INT64 sdiv b \<longleftrightarrow> LARGEST_INT64 < a * b"
    using assms by (simp add: sdiv_pos div_less_iff)
  have "a < SMALLEST_INT64 sdiv b \<longleftrightarrow> 9223372036854775808 div b < - a"
    using assms by (auto simp: sdiv_pos)
  also have "\<dots> \<longleftrightarrow> 9223372036854775808 < - a * b"
    using assms by (rule div_less_iff)
  finally show "a < SMALLEST_INT64 sdiv b \<longleftrightarrow> a * b < SMALLEST_INT64"
    by (auto simp: i64_defs)
qed

lemma in_i64_mult: "in_i64 (a * b) \<longleftrightarrow> \<not> LARGEST_INT64 < a * b \<and> \<not> a * b < SMALLEST_INT64"
  by (auto simp: i64_defs)

lemma MulInt64_checked:
  assumes "in_i64 a" "in_i64 b"
  shows "sqlite3MulInt64 a b = checked a (a * b)"
proof -
  consider (pos) "0 < b" | (zero) "b = 0 \<or> b < 0 \<and> a = 0" | (mixed) "b < 0" "0 < a" | (neg) "b < 0" "a < 0"
    by linarith
  then show ?thesis
  proof cases
    case pos
    then show ?thesis
      by (auto simp: sqlite3MulInt64_def MulInt64_pos checked_def in_i64_mult)
  next
    case zero
    then show ?thesis
      by (auto simp: sqlite3MulInt64_def checked_def i64_defs)
  next
    case mixed
    then have "a * b < 0" by (simp add: mult_pos_neg)
    then have "\<not> LARGEST_INT64 < a * b" by (simp add: i64_defs)
    then show ?thesis
      using mixed MulInt64_pos(2) [OF mixed(2), of b]
      by (auto simp: sqlite3MulInt64_def checked_def in_i64_mult mult.commute)
  next
    case neg
    then have p: "0 < a * b" by (simp add: mult_neg_neg)
    show ?thesis
    proof (cases "b = SMALLEST_INT64 \<or> a = SMALLEST_INT64")
      case True
      have "\<not> in_i64 (a * b)"
      proof -
        have "9223372036854775808 \<le> (- a) * (- b)"
          using True neg by (auto simp: i64_defs)
        then show ?thesis by (simp add: in_i64_def)
      qed
      then show ?thesis
        using neg True by (auto simp: sqlite3MulInt64_def checked_def)
    next
      case False
      then have m: "in_i64 (- a)" "in_i64 (- b)"
        using assms by (auto simp: i64_defs)
      have "- a > LARGEST_INT64 sdiv (- b) \<longleftrightarrow> LARGEST_INT64 < a * b"
        using MulInt64_pos(1) [of "- b" "- a"] neg by simp
      moreover have "\<not> a * b < SMALLEST_INT64"
        using p by (simp add: i64_defs)
      ultimately show ?thesis
        using neg False m by (auto simp: sqlite3MulInt64_def checked_def in_i64_mult)
    qed
  qed
qed

text \<open>
  C24. For 64-bit operands the checked addition, subtraction and multiplication store the
  exact integer result and return 0 when it fits in 64 bits, and otherwise return 1 and leave
  the first operand; sqlite3AbsInt32 is the absolute value capped at 2^31-1.
\<close>

theorem int64_operations_exact_or_overflow:
  assumes "in_i64 a" "in_i64 b"
  shows "sqlite3AddInt64 a b = (if in_i64 (a + b) then (0, a + b) else (1, a))
    \<and> sqlite3SubInt64 a b = (if in_i64 (a - b) then (0, a - b) else (1, a))
    \<and> sqlite3MulInt64 a b = (if in_i64 (a * b) then (0, a * b) else (1, a))
    \<and> sqlite3AbsInt32 (to_int32 a) = min \<bar>to_int32 a\<bar> 2147483647"
proof -
  have "sqlite3AbsInt32 (to_int32 a) = min \<bar>to_int32 a\<bar> 2147483647"
  proof -
    have "to_int32 0x80000000 = - 2147483648" by (simp add: to_int32_def)
    then show ?thesis
      using to_int32_range [of a] by (auto simp: sqlite3AbsInt32_def)
  qed
  then show ?thesis
    using AddInt64_checked [OF assms] SubInt64_checked [OF assms] MulInt64_checked [OF assms]
    by (simp add: checked_def)
qed

theorem int64_operations_exact_or_overflow_witness:
  "sqlite3AddInt64 9223372036854775807 1 = (1, 9223372036854775807)
   \<and> sqlite3SubInt64 (- 1) (- 9223372036854775808) = (0, 9223372036854775807)
   \<and> sqlite3MulInt64 4294967296 (- 2147483648) = (0, - 9223372036854775808)"
  using int64_operations_exact_or_overflow [of 9223372036854775807 1]
    int64_operations_exact_or_overflow [of "- 1" "- 9223372036854775808"]
    int64_operations_exact_or_overflow [of 4294967296 "- 2147483648"]
  by (simp add: in_i64_def)


section \<open>The estimates\<close>

lemma logest_x_bounds: "n < 32 \<Longrightarrow> 2 \<le> logest_x ! n \<and> logest_x ! n \<le> 10"
proof -
  have "list_all (\<lambda>v. 2 \<le> v \<and> v \<le> 10) logest_x"
    by (simp add: logest_x_def)
  moreover have "length logest_x = 32"
    by (simp add: logest_x_def)
  ultimately show "n < 32 \<Longrightarrow> 2 \<le> logest_x ! n \<and> logest_x ! n \<le> 10"
    by (simp add: list_all_length)
qed

lemma LogEstAdd_bounds:
  "max a b \<le> sqlite3LogEstAdd a b \<and> sqlite3LogEstAdd a b \<le> max a b + 10
   \<and> sqlite3LogEstAdd a b = sqlite3LogEstAdd b a"
proof -
  have "nat (a - b) < 32" if "\<not> a > b + 31" "a \<ge> b"
    using that by linarith
  moreover have "nat (b - a) < 32" if "\<not> b > a + 31" "b \<ge> a"
    using that by linarith
  ultimately show ?thesis
    using logest_x_bounds [of "nat (a - b)"] logest_x_bounds [of "nat (b - a)"]
    by (auto simp: sqlite3LogEstAdd_def)
qed

text \<open>
  Where the loops end: a leading part between 8 and 15, and an estimate that counts ten for each
  power of two taken out.
\<close>

lemma logest_down1_shift:
  assumes "8 \<le> x"
  shows "\<exists>k m. logest_down1 x y = (m, y + 10 * int k) \<and> 8 \<le> m \<and> m < 16 \<and> m = x div 2 ^ k"
  using assms
proof (induction x y rule: logest_down1.induct)
  case (1 x y)
  show ?case
  proof (cases "x > 15")
    case True
    then obtain k m where "logest_down1 (x div 2) (y + 10) = (m, y + 10 + 10 * int k)"
      "8 \<le> m" "m < 16" "m = x div 2 div 2 ^ k"
      using 1 by fastforce
    then show ?thesis
      using True by (intro exI [of _ "Suc k"] exI [of _ m])
        (simp add: logest_down1.simps [of x y] div_mult2_eq)
  next
    case False
    then show ?thesis
      using 1(2) by (intro exI [of _ 0] exI [of _ x]) (simp add: logest_down1.simps [of x y])
  qed
qed

lemma logest_down4_shift:
  "8 \<le> x \<Longrightarrow> \<exists>k m. logest_down4 x y = (m, y + 10 * int k) \<and> 8 \<le> m \<and> m = x div 2 ^ k"
proof (induction x y rule: logest_down4.induct)
  case (1 x y)
  show ?case
  proof (cases "x > 255")
    case True
    then obtain k m where "logest_down4 (x div 16) (y + 40) = (m, y + 40 + 10 * int k)"
      "8 \<le> m" "m = x div 16 div 2 ^ k"
      using 1 by fastforce
    then show ?thesis
      using True by (intro exI [of _ "4 + k"] exI [of _ m])
        (simp add: logest_down4.simps [of x y] power_add flip: div_mult2_eq)
  next
    case False
    then show ?thesis
      using 1(2) by (intro exI [of _ 0] exI [of _ x]) (simp add: logest_down4.simps [of x y])
  qed
qed

lemma logest_leading:
  assumes "8 \<le> x"
  obtains k m where "sqlite3LogEst x = logest_a ! (m - 8) + 30 + 10 * int k"
    "8 \<le> m" "m < 16" "m * 2 ^ k \<le> x" "x < (m + 1) * 2 ^ k"
proof -
  obtain k1 m1 where 1: "logest_down4 x 40 = (m1, 40 + 10 * int k1)" "8 \<le> m1" "m1 = x div 2 ^ k1"
    using logest_down4_shift [OF assms] by blast
  obtain k2 m where 2: "logest_down1 m1 (40 + 10 * int k1) = (m, 40 + 10 * int k1 + 10 * int k2)"
    "8 \<le> m" "m < 16" "m = m1 div 2 ^ k2"
    using logest_down1_shift [OF 1(2)] by blast
  have m: "m = x div 2 ^ (k1 + k2)"
    by (simp add: 1(3) 2(4) power_add div_mult2_eq)
  have "m mod 8 = m - 8"
    using 2(2,3) by (simp add: mod_if)
  then have "sqlite3LogEst x = logest_a ! (m - 8) + 30 + 10 * int (k1 + k2)"
    using assms by (simp add: sqlite3LogEst_def 1(1) 2(1))
  moreover have "m * 2 ^ (k1 + k2) \<le> x"
    unfolding m by simp
  moreover have "x < (m + 1) * 2 ^ (k1 + k2)"
    unfolding m by (metis Suc_eq_plus1 dividend_less_div_times mult_Suc mult.commute zero_less_numeral zero_less_power)
  ultimately show ?thesis
    using that 2 by blast
qed


lemma leading_table:
  assumes "8 \<le> m" "m < 16"
  shows "0 \<le> logest_a ! (m - 8) \<and> (2 :: nat) ^ (29 + nat (logest_a ! (m - 8))) \<le> m ^ 10
    \<and> (m + 1) ^ 10 \<le> (2 :: nat) ^ (32 + nat (logest_a ! (m - 8)))"
proof -
  have "m \<in> {8, 9, 10, 11, 12, 13, 14, 15}"
    using assms by auto
  then show ?thesis by (elim insertE emptyE) (simp_all add: logest_a_def)
qed

lemma LogEst_large:
  assumes "8 \<le> x"
  shows "30 \<le> sqlite3LogEst x \<and> 2 ^ nat (sqlite3LogEst x - 1) \<le> x ^ 10
    \<and> x ^ 10 < 2 ^ nat (sqlite3LogEst x + 2)"
proof -
  obtain k m where est: "sqlite3LogEst x = logest_a ! (m - 8) + 30 + 10 * int k"
    and m: "8 \<le> m" "m < 16" "m * 2 ^ k \<le> x" "x < (m + 1) * 2 ^ k"
    using logest_leading [OF assms] .
  define a where "a = nat (logest_a ! (m - 8))"
  note tab = leading_table [OF m(1,2), folded a_def]
  have y: "nat (sqlite3LogEst x - 1) = (29 + a) + k * 10" "nat (sqlite3LogEst x + 2) = (32 + a) + k * 10"
    using tab by (auto simp: est a_def nat_add_distrib)
  have pw: "(2 :: nat) ^ (b + k * 10) = 2 ^ b * (2 ^ k) ^ 10" for b
    by (simp add: power_add power_mult)
  have "2 ^ ((29 + a) + k * 10) \<le> (m * 2 ^ k) ^ 10"
    unfolding pw power_mult_distrib [of _ "2 ^ k"] using tab by (intro mult_right_mono) simp_all
  also have "\<dots> \<le> x ^ 10" using m(3) by (rule power_mono) simp
  finally have lo: "2 ^ ((29 + a) + k * 10) \<le> x ^ 10" .
  have "x ^ 10 < ((m + 1) * 2 ^ k) ^ 10" using m(4) by (rule power_strict_mono) simp_all
  also have "\<dots> \<le> 2 ^ ((32 + a) + k * 10)"
    unfolding pw power_mult_distrib [of _ "2 ^ k"] using tab by (intro mult_right_mono) simp_all
  finally show ?thesis
    using lo tab unfolding y by (simp add: est)
qed

lemma LogEst_small:
  "sqlite3LogEst 0 = 0" "sqlite3LogEst 1 = 0" "sqlite3LogEst 2 = 10" "sqlite3LogEst 3 = 16"
  "sqlite3LogEst 4 = 20" "sqlite3LogEst 5 = 23" "sqlite3LogEst 6 = 26" "sqlite3LogEst 7 = 28"
  by (simp_all add: sqlite3LogEst_def logest_up.simps logest_a_def)

text \<open>
  sqlite3LogEst x lies between 10*log2(x)-2 and 10*log2(x)+1 for every x of at least 2,
  and sqlite3LogEstAdd is symmetric and between the larger operand and that operand plus ten.
\<close>

theorem logest_approximates_ten_log2:
  assumes "2 \<le> x"
  shows "10 \<le> sqlite3LogEst x \<and> 2 ^ nat (sqlite3LogEst x - 1) \<le> x ^ 10
    \<and> x ^ 10 < 2 ^ nat (sqlite3LogEst x + 2)
    \<and> max a b \<le> sqlite3LogEstAdd a b \<and> sqlite3LogEstAdd a b \<le> max a b + 10
    \<and> sqlite3LogEstAdd a b = sqlite3LogEstAdd b a"
proof -
  have "10 \<le> sqlite3LogEst x \<and> 2 ^ nat (sqlite3LogEst x - 1) \<le> x ^ 10
    \<and> x ^ 10 < 2 ^ nat (sqlite3LogEst x + 2)"
  proof (cases "x < 8")
    case True
    then have "x \<in> {2, 3, 4, 5, 6, 7}" using assms by auto
    then show ?thesis by (elim insertE emptyE) (simp_all add: LogEst_small)
  next
    case False
    then show ?thesis using LogEst_large [of x] by auto
  qed
  then show ?thesis using LogEstAdd_bounds [of a b] by blast
qed

theorem logest_approximates_ten_log2_witness:
  "2 ^ nat (sqlite3LogEst 1000 - 1) \<le> (1000 :: nat) ^ 10 \<and> sqlite3LogEst 1000 = 99
   \<and> sqlite3LogEstAdd 33 33 \<le> 43"
  using logest_approximates_ten_log2 [of 1000 33 33]
  by (simp add: sqlite3LogEst_def logest_down4.simps logest_down1.simps logest_a_def)

end
