(* ===== verification/Sqlite_Numtext.thy ===== *)
theory Sqlite_Numtext
  imports Sqlite_Chars Sqlite_Arith
begin

text \<open>
  Numbers as text in the bundled SQLite (its \<open>util.c\<close> part): \<open>sqlite3Int64ToText\<close>,
  \<open>sqlite3Atoi64\<close> in its three encodings with \<open>compare2pow63\<close>, \<open>sqlite3DecOrHexToI64\<close>,
  \<open>sqlite3GetInt32\<close> and \<open>sqlite3Atoi\<close>. The pointer walks with step \<open>incr\<close> over the text are
  walks over the list of the bytes they visit, and \<open>i\<close> counts these instead of bytes.
\<close>

section \<open>Printing\<close>

text \<open>The digit loop, filling \<open>zTemp\<close> from the right.\<close>

fun digit_loop :: "nat \<Rightarrow> byte list \<Rightarrow> byte list" where
  "digit_loop x tail =
     (let t = of_nat (x mod 10 + 48) # tail in
      if x div 10 = 0 then t else digit_loop (x div 10) t)"

declare digit_loop.simps [simp del]

definition sqlite3Int64ToText :: "int \<Rightarrow> byte list" where
  "sqlite3Int64ToText v =
     (let x = (if v < 0 then (if v = SMALLEST_INT64 then 2 ^ 63 else nat (i64 (- v))) else nat v);
          z = digit_loop x []
      in if v < 0 then 45 # z else z)"

section \<open>Reading\<close>

definition decimal_digits :: "byte list" where
  "decimal_digits = [57, 50, 50, 51, 51, 55, 50, 48, 51, 54, 56, 53, 52, 55, 55, 53, 56, 48]"

text \<open>\<open>pow63\<close> is the text 922337203685477580; the loop runs while the strings agree.\<close>

fun compare2pow63_loop :: "byte list \<Rightarrow> byte list \<Rightarrow> int" where
  "compare2pow63_loop zNum [] = 0"
| "compare2pow63_loop [] (p # ps) = (0 - uint p) * 10"
| "compare2pow63_loop (z # zs) (p # ps) =
     (let c = (uint z - uint p) * 10 in if c = 0 then compare2pow63_loop zs ps else c)"

definition compare2pow63 :: "byte list \<Rightarrow> int" where
  "compare2pow63 zNum =
     (let c = compare2pow63_loop zNum decimal_digits in
      if c = 0 then uint (cstr zNum 18) - 56 else c)"

definition SQLITE_UTF8 :: nat where [c_defs]: "SQLITE_UTF8 = 1"
definition SQLITE_UTF16LE :: nat where [c_defs]: "SQLITE_UTF16LE = 2"
definition SQLITE_UTF16BE :: nat where [c_defs]: "SQLITE_UTF16BE = 3"

text \<open>The loop \<open>for(i=3-enc; i<length && zNum[i]==0; i+=2)\<close>.\<close>

function high_bytes_end :: "byte list \<Rightarrow> nat \<Rightarrow> nat \<Rightarrow> nat" where
  "high_bytes_end z len i =
     (if i < len \<and> cstr z i = 0 then high_bytes_end z len (i + 2) else i)"
  by pat_completeness auto
termination by (relation "measure (\<lambda>(z, len, i). len - i)") auto

declare high_bytes_end.simps [simp del]

text \<open>The bytes visited from \<open>start\<close> with step 2 up to \<open>zEnd\<close>.\<close>

definition every_other :: "byte list \<Rightarrow> nat \<Rightarrow> nat \<Rightarrow> byte list" where
  "every_other z start zEnd = map (\<lambda>k. cstr z (start + 2 * k)) [0..<(zEnd - start + 1) div 2]"

text \<open>The text between \<open>zNum\<close> and \<open>zEnd\<close>, and \<open>nonNum\<close>.\<close>

definition atoi64_text :: "byte list \<Rightarrow> nat \<Rightarrow> nat \<Rightarrow> byte list \<times> bool" where
  "atoi64_text z len enc =
     (if enc = SQLITE_UTF8 then (map (cstr z) [0..<len], False)
      else let len = 2 * (len div 2); i = high_bytes_end z len (3 - enc) in
           (every_other z (enc mod 2) (if even i then i + 1 else i - 1), i < len))"

definition is_digit :: "byte \<Rightarrow> bool" where
  "is_digit c \<longleftrightarrow> 48 \<le> c \<and> c \<le> 57"

text \<open>The first value of \<open>*pNum\<close>, which is replaced when the text is out of range.\<close>

definition first_value :: "bool \<Rightarrow> u64 \<Rightarrow> int" where
  "first_value neg u =
     (if uint u > LARGEST_INT64 then (if neg then SMALLEST_INT64 else LARGEST_INT64)
      else if neg then - uint u else uint u)"

text \<open>The return code and the value.\<close>

definition sqlite3Atoi64 :: "byte list \<Rightarrow> nat \<Rightarrow> nat \<Rightarrow> int \<times> int" where
  "sqlite3Atoi64 z len enc =
     (let (zNum, nonNum) = atoi64_text z len enc;
          zNum = dropWhile sqlite3Isspace zNum;
          neg = (zNum \<noteq> [] \<and> hd zNum = 45);
          zStart = (if zNum \<noteq> [] \<and> (hd zNum = 45 \<or> hd zNum = 43) then tl zNum else zNum);
          zNum = dropWhile (\<lambda>c. c = 48) zStart;
          digits = takeWhile is_digit zNum;
          rest = dropWhile is_digit zNum;
          i = length digits;
          u = foldl (\<lambda>u c. u * 10 + ucast c - 48) (0 :: u64) digits;
          rc = (if i = 0 \<and> zStart = zNum then -1
                else if nonNum then 1
                else if list_ex (\<lambda>c. \<not> sqlite3Isspace c) rest then 1
                else 0)
      in if i < 19 then (rc, first_value neg u)
         else let c = (if i > 19 then 1 else compare2pow63 zNum) in
           if c < 0 then (rc, first_value neg u)
           else if c > 0 then (2, if neg then SMALLEST_INT64 else LARGEST_INT64)
           else (if neg then rc else 3, if neg then SMALLEST_INT64 else LARGEST_INT64))"

text \<open>
  Hexadecimal text: the digits after the leading zeros as 64 bits, kept as the signed value
  \<open>memcpy\<close> makes of them.
\<close>

definition hex_text :: "byte list \<Rightarrow> byte list \<times> byte list" where
  "hex_text z = (let d = dropWhile (\<lambda>c. c = 48) z in (takeWhile sqlite3Isxdigit d, dropWhile sqlite3Isxdigit d))"

definition hex_value :: "byte list \<Rightarrow> 'a :: len word" where
  "hex_value ds = foldl (\<lambda>u c. u * 16 + ucast (sqlite3HexToInt c)) 0 ds"

definition spn_chars :: "byte list" where
  "spn_chars = [43, 45, 32, 10, 9, 48, 49, 50, 51, 52, 53, 54, 55, 56, 57]"

definition sqlite3DecOrHexToI64 :: "byte list \<Rightarrow> int \<times> int" where
  "sqlite3DecOrHexToI64 z =
     (if cstr z 0 = 48 \<and> (cstr z 1 = 120 \<or> cstr z 1 = 88) then
        (case hex_text (drop 2 z) of (ds, rest) \<Rightarrow>
           (if length ds > 16 then 2 else if rest \<noteq> [] then 1 else 0,
            sint (hex_value ds :: u64)))
      else
        let n = length (takeWhile (\<lambda>c. c \<in> set spn_chars) z) mod 2 ^ 30;
            n = (if cstr z n \<noteq> 0 then n + 1 else n)
        in sqlite3Atoi64 z n SQLITE_UTF8)"

text \<open>The value of \<open>sqlite3GetInt32\<close> when it returns true.\<close>

definition getInt32_hex :: "byte list \<Rightarrow> int option" where
  "getInt32_hex z =
     (let d = dropWhile (\<lambda>c. c = 48) z;
          ds = takeWhile sqlite3Isxdigit (take 8 d);
          u = (hex_value ds :: u32)
      in if u AND 0x80000000 = 0 \<and> \<not> sqlite3Isxdigit (cstr d (length ds)) then Some (sint u) else None)"

definition getInt32_decimal :: "bool \<Rightarrow> byte list \<Rightarrow> int option" where
  "getInt32_decimal neg z =
     (if \<not> sqlite3IsDigit (cstr z 0) then None
      else let d = dropWhile (\<lambda>c. c = 48) z;
               ds = takeWhile is_digit (take 11 d);
               v = foldl (\<lambda>v c. v * 10 + (uint c - 48)) 0 ds
           in if length ds > 10 then None
              else if v - of_bool neg > 2147483647 then None
              else Some (to_int32 (if neg then - v else v)))"

definition sqlite3GetInt32 :: "byte list \<Rightarrow> int option" where
  "sqlite3GetInt32 z =
     (if cstr z 0 = 45 then getInt32_decimal True (tl z)
      else if cstr z 0 = 43 then getInt32_decimal False (tl z)
      else if cstr z 0 = 48 \<and> (cstr z 1 = 120 \<or> cstr z 1 = 88) \<and> sqlite3Isxdigit (cstr z 2)
      then getInt32_hex (drop 2 z)
      else getInt32_decimal False z)"

definition sqlite3Atoi :: "byte list \<Rightarrow> int" where
  "sqlite3Atoi z = (case sqlite3GetInt32 z of Some x \<Rightarrow> x | None \<Rightarrow> 0)"

section \<open>Decimal values\<close>

definition dec :: "byte list \<Rightarrow> nat" where
  "dec ds = foldl (\<lambda>v c. v * 10 + (unat c - 48)) 0 ds"

lemma dec_snoc: "dec (ds @ [d]) = dec ds * 10 + (unat d - 48)"
  by (simp add: dec_def)

lemma dec_Nil [simp]: "dec [] = 0"
  by (simp add: dec_def)

lemma foldl_dec: "foldl (\<lambda>v c. v * 10 + (unat c - 48)) v ds = v * 10 ^ length ds + dec ds"
proof (induction ds rule: rev_induct)
  case (snoc d ds)
  then show ?case by (simp add: dec_snoc algebra_simps)
qed simp

lemma dec_Cons: "dec (d # ds) = (unat d - 48) * 10 ^ length ds + dec ds"
  using foldl_dec [of "unat d - 48" ds] by (simp add: dec_def)

lemma dec_append: "dec (as @ bs) = dec as * 10 ^ length bs + dec bs"
  using foldl_dec [of "dec as" bs] by (simp add: dec_def)

lemma is_digit_nat: "is_digit c \<longleftrightarrow> 48 \<le> unat c \<and> unat c \<le> 57"
  by (simp add: is_digit_def word_le_nat_alt)

lemma dec_less: "list_all is_digit ds \<Longrightarrow> dec ds < 10 ^ length ds"
proof (induction ds)
  case (Cons d ds)
  then have "(unat d - 48) * 10 ^ length ds \<le> 9 * 10 ^ length ds"
    by (intro mult_right_mono) (auto simp: is_digit_nat)
  moreover have "dec ds < 10 ^ length ds"
    using Cons by simp
  ultimately show ?case unfolding dec_Cons length_Cons power_Suc by linarith
qed simp

lemma dec_ge: "is_digit d \<Longrightarrow> d \<noteq> 48 \<Longrightarrow> 10 ^ length ds \<le> dec (d # ds)"
proof -
  assume d: "is_digit d" "d \<noteq> 48"
  then have "unat d \<noteq> 48"
    by (auto simp: word_unat_eq_iff)
  with d have "1 \<le> unat d - 48"
    by (auto simp: is_digit_nat)
  then have "1 * 10 ^ length ds \<le> (unat d - 48) * 10 ^ length ds"
    by (rule mult_right_mono) simp
  then show ?thesis unfolding dec_Cons by linarith
qed

lemma dec_skip_zeros: "dec (dropWhile (\<lambda>c. c = 48) ds) = dec ds"
  by (induction ds) (simp_all add: dec_Cons)

lemma u64_of_digits:
  assumes "list_all is_digit ds" "length ds \<le> 19"
  shows "foldl (\<lambda>u c. u * 10 + ucast c - 48) (0 :: u64) ds = of_nat (dec ds)"
proof -
  have "foldl (\<lambda>u c. u * 10 + ucast c - 48) (of_nat v :: u64) ds
      = of_nat (foldl (\<lambda>v c. v * 10 + (unat c - 48)) v ds)" for v
    using assms(1)
  proof (induction ds arbitrary: v)
    case (Cons c cs)
    then have "48 \<le> unat c" by (simp add: is_digit_nat)
    moreover have "(ucast c :: u64) = of_nat (unat c)" by simp
    ultimately have w: "(of_nat v * 10 + ucast c - 48 :: u64) = of_nat (v * 10 + (unat c - 48))"
      by (simp add: of_nat_diff)
    have "list_all is_digit cs" using Cons.prems by simp
    then show ?case unfolding foldl.simps w by (rule Cons.IH)
  qed simp
  from this [of 0] show ?thesis by (simp add: dec_def)
qed

section \<open>The comparison with 2 to the 63\<close>

lemma compare_loop_sign:
  "list_all is_digit as \<Longrightarrow> list_all is_digit bs \<Longrightarrow> length as = length bs \<Longrightarrow>
     (compare2pow63_loop (as @ rest) bs = 0 \<longleftrightarrow> as = bs)
   \<and> (compare2pow63_loop (as @ rest) bs < 0 \<longleftrightarrow> dec as < dec bs)"
proof (induction as arbitrary: bs)
  case (Cons a as)
  obtain b bs' where bs: "bs = b # bs'"
    using Cons.prems(3) by (cases bs) auto
  have d: "is_digit a" "is_digit b" "list_all is_digit as" "list_all is_digit bs'"
    "length as = length bs'"
    using Cons.prems by (auto simp: bs)
  have lt: "dec as < 10 ^ length bs'" "dec bs' < 10 ^ length bs'"
    using dec_less d(3-5) by metis+
  consider "a = b" | "unat a < unat b" | "unat b < unat a"
    by (metis linorder_cases word_unat_eq_iff)
  then show ?case
  proof cases
    case 1
    then show ?thesis
      using Cons.IH [OF d(3-5)] d(5) by (simp add: bs dec_Cons)
  next
    case 2
    then have "(unat a - 48 + 1) * 10 ^ length bs' \<le> (unat b - 48) * 10 ^ length bs'"
      using d(1) by (intro mult_right_mono) (auto simp: is_digit_nat)
    then have "dec (a # as) < dec (b # bs')"
      using lt d(5) by (simp add: dec_Cons)
    moreover have "uint a < uint b"
      using 2 by (simp add: word_less_nat_alt flip: word_less_def)
    ultimately show ?thesis using 2 by (auto simp: bs Let_def)
  next
    case 3
    then have "(unat b - 48 + 1) * 10 ^ length bs' \<le> (unat a - 48) * 10 ^ length bs'"
      using d(2) by (intro mult_right_mono) (auto simp: is_digit_nat)
    then have "\<not> dec (a # as) < dec (b # bs')"
      using lt d(5) by (simp add: dec_Cons)
    moreover have "uint b < uint a"
      using 3 by (simp add: word_less_nat_alt flip: word_less_def)
    ultimately show ?thesis using 3 by (auto simp: bs Let_def)
  qed
qed simp


lemma compare_loop_swap:
  "length as = length bs \<Longrightarrow> compare2pow63_loop bs as = - compare2pow63_loop as bs"
  by (induction as bs rule: list_induct2) (simp_all add: Let_def)

lemma dec_inj:
  assumes "list_all is_digit as" "list_all is_digit bs" "length as = length bs" "dec as = dec bs"
  shows "as = bs"
proof -
  note ab = compare_loop_sign [OF assms(1-3), of "[]"]
  note ba = compare_loop_sign [OF assms(2,1) assms(3) [symmetric], of "[]"]
  have "compare2pow63_loop as bs = 0 \<or> compare2pow63_loop as bs < 0 \<or> compare2pow63_loop bs as < 0"
    using compare_loop_swap [OF assms(3)] by linarith
  then show ?thesis using ab ba assms(4) by auto
qed

lemma compare2pow63_sign:
  assumes "list_all is_digit ds" "length ds = 19"
  shows "(compare2pow63 (ds @ rest) = 0 \<longleftrightarrow> dec ds = 2 ^ 63)
    \<and> (compare2pow63 (ds @ rest) < 0 \<longleftrightarrow> dec ds < 2 ^ 63)"
proof -
  obtain as d where ds: "ds = as @ [d]"
    using assms(2) by (cases ds rule: rev_cases) auto
  have as: "list_all is_digit as" "length as = 18" "is_digit d"
    using assms by (auto simp: ds)
  have pow: "list_all is_digit decimal_digits" "length decimal_digits = 18"
    "dec decimal_digits = 922337203685477580"
    by (simp_all add: decimal_digits_def is_digit_def dec_def)
  have loop: "(compare2pow63_loop (as @ d # rest) decimal_digits = 0 \<longleftrightarrow> as = decimal_digits)
      \<and> (compare2pow63_loop (as @ d # rest) decimal_digits < 0 \<longleftrightarrow> dec as < 922337203685477580)"
    using compare_loop_sign [OF as(1) pow(1), of "d # rest"] as(2) pow by simp
  have last: "cstr (ds @ rest) 18 = d"
    using as(2) by (simp add: ds cstr_def nth_append)
  have val: "dec ds = dec as * 10 + (unat d - 48)" "48 \<le> unat d" "unat d \<le> 57"
    using as(3) by (simp_all add: ds dec_snoc is_digit_nat)
  have eq: "uint d - 56 = int (unat d - 48) - 8"
    using val(2) by (simp add: of_nat_diff)
  show ?thesis
  proof (cases "as = decimal_digits")
    case True
    then have "compare2pow63 (ds @ rest) = int (unat d - 48) - 8"
      using loop last eq by (simp add: compare2pow63_def ds)
    moreover have "dec ds = 9223372036854775800 + (unat d - 48)"
      using val(1) pow(3) True by simp
    ultimately show ?thesis by auto
  next
    case False
    then have c: "compare2pow63 (ds @ rest) = compare2pow63_loop (as @ d # rest) decimal_digits"
      using loop by (simp add: compare2pow63_def ds)
    have "unat d - 48 \<le> 9" using val(3) by simp
    show ?thesis
    proof (cases "dec as < 922337203685477580")
      case True
      then have "dec ds < 2 ^ 63"
        using val(1) \<open>unat d - 48 \<le> 9\<close> by simp
      then show ?thesis using c loop True by auto
    next
      case ge: False
      have "dec as \<noteq> 922337203685477580"
        using compare_loop_sign [OF pow(1) as(1), of "[]"] loop False ge dec_inj [OF as(1) pow(1)] as(2) pow
        by auto
      then have "dec ds > 2 ^ 63"
        using val(1) ge by simp
      then show ?thesis using c loop ge False by auto
    qed
  qed
qed

section \<open>Reading a number\<close>

lemma map_cstr: "map (cstr z) [0..<length z] = z"
  by (rule nth_equalityI) (simp_all add: cstr_def)

lemma digit_not_space: "is_digit c \<Longrightarrow> \<not> sqlite3Isspace c"
  by (auto simp: is_digit_def ctype_classes word_le_nat_alt)

lemma space_not_digit: "sqlite3Isspace c \<Longrightarrow> \<not> is_digit c \<and> c \<noteq> 48"
  by (auto simp: is_digit_def ctype_classes word_le_nat_alt)

lemma sign_not_space: "\<not> sqlite3Isspace 45" "\<not> sqlite3Isspace 43"
  by (simp_all add: ctype_classes)

lemma sign_not_digit: "\<not> is_digit 45" "\<not> is_digit 43"
  by (simp_all add: is_digit_def)

lemma dropWhile_append_stop: "dropWhile P ys = ys \<Longrightarrow> dropWhile P (xs @ ys) = dropWhile P xs @ ys"
  by (induction xs) auto

lemma takeWhile_stop: "dropWhile P ys = ys \<Longrightarrow> takeWhile P ys = []"
  by (metis append_self_conv2 takeWhile_dropWhile_id)

lemma takeWhile_append_stop: "list_all P xs \<Longrightarrow> dropWhile P ys = ys \<Longrightarrow> takeWhile P (xs @ ys) = xs"
  by (induction xs) (auto simp: takeWhile_stop)

lemma dropWhile_none: "list_all (\<lambda>c. \<not> P c) ys \<Longrightarrow> dropWhile P ys = ys"
  by (cases ys) auto

text \<open>What is left after the spaces, the sign and the leading zeros.\<close>

lemma atoi64_parse:
  assumes sp: "list_all sqlite3Isspace sp" and tr: "list_all sqlite3Isspace tr"
    and ds: "ds \<noteq> []" "list_all is_digit ds" and sg: "sg \<in> {[], [43], [45]}"
    and z: "z = sp @ sg @ ds @ tr" and d': "d' = dropWhile (\<lambda>c. c = 48) ds"
  shows "sqlite3Atoi64 z (length z) SQLITE_UTF8 =
    (let neg = (sg = [45]); u = foldl (\<lambda>u c. u * 10 + ucast c - 48) (0 :: u64) d' in
     if length d' < 19 then (0, first_value neg u)
     else let c = (if length d' > 19 then 1 else compare2pow63 (d' @ tr)) in
       if c < 0 then (0, first_value neg u)
       else if c > 0 then (2, if neg then SMALLEST_INT64 else LARGEST_INT64)
       else (if neg then 0 else 3, if neg then SMALLEST_INT64 else LARGEST_INT64))"
proof -
  have hd: "hd (sg @ ds @ tr) = (if sg = [] then hd ds else hd sg)"
    using ds(1) by auto
  have "is_digit (hd ds)"
    using ds by (cases ds) auto
  then have "\<not> sqlite3Isspace (hd (sg @ ds @ tr))"
    using sg digit_not_space sign_not_space by (auto simp: hd)
  then have skip: "dropWhile sqlite3Isspace z = sg @ ds @ tr"
    using sp ds(1) by (cases "sg @ ds @ tr") (auto simp: z list_all_iff dropWhile_append2)
  have dig: "hd ds \<noteq> 45" "hd ds \<noteq> 43"
    using \<open>is_digit (hd ds)\<close> sign_not_digit by metis+
  have sgn: "(sg @ ds @ tr \<noteq> [] \<and> hd (sg @ ds @ tr) = 45) = (sg = [45])"
    "(if sg @ ds @ tr \<noteq> [] \<and> (hd (sg @ ds @ tr) = 45 \<or> hd (sg @ ds @ tr) = 43)
      then tl (sg @ ds @ tr) else sg @ ds @ tr) = ds @ tr"
    using sg ds(1) dig by (auto simp: hd)
  have "list_all (\<lambda>c. \<not> is_digit c) tr" "list_all (\<lambda>c. \<not> c = 48) tr"
    using tr space_not_digit by (auto simp: list_all_iff)
  then have t: "dropWhile is_digit tr = tr" "dropWhile (\<lambda>c. c = 48) tr = tr"
    by (simp_all only: dropWhile_none)
  have zeros: "dropWhile (\<lambda>c. c = 48) (ds @ tr) = d' @ tr"
    by (simp add: dropWhile_append_stop [OF t(2)] d')
  have "list_all is_digit d'"
    using ds(2) by (auto simp: d' list_all_iff dest: set_dropWhileD)
  then have td: "takeWhile is_digit (d' @ tr) = d'" "dropWhile is_digit (d' @ tr) = tr"
    using t(1) takeWhile_append_stop [of is_digit d' tr] by (auto simp: list_all_iff dropWhile_append2)
  have nz: "\<not> (length d' = 0 \<and> ds @ tr = d' @ tr)"
    using ds(1) by simp
  have ex: "\<not> list_ex (\<lambda>c. \<not> sqlite3Isspace c) tr"
    using tr by (simp add: list_all_iff list_ex_iff)
  show ?thesis
    unfolding sqlite3Atoi64_def atoi64_text_def map_cstr if_P [OF refl] prod.case Let_def skip sgn
      zeros td
    using nz ex by (simp del: length_0_conv)
qed

definition signed :: "byte list \<Rightarrow> nat \<Rightarrow> int" where
  "signed sg n = (if sg = [45] then - int n else int n)"

lemma first_value_signed:
  assumes "n < 2 ^ 63"
  shows "first_value (sg = [45]) (of_nat n) = signed sg n \<and> in_i64 (signed sg n)"
proof -
  have "uint (of_nat n :: u64) = int n"
    using assms by (simp add: uint_nat unat_of_nat)
  then show ?thesis
    using assms by (auto simp: first_value_def signed_def i64_defs)
qed

lemma atoi64_number:
  assumes sp: "list_all sqlite3Isspace sp" and tr: "list_all sqlite3Isspace tr"
    and ds: "ds \<noteq> []" "list_all is_digit ds" and sg: "sg \<in> {[], [43], [45]}"
    and z: "z = sp @ sg @ ds @ tr"
  shows "sqlite3Atoi64 z (length z) SQLITE_UTF8 =
    (if in_i64 (signed sg (dec ds)) then (0, signed sg (dec ds))
     else (if signed sg (dec ds) = 9223372036854775808 then 3 else 2,
           if sg = [45] then SMALLEST_INT64 else LARGEST_INT64))"
proof -
  define d' where "d' = dropWhile (\<lambda>c. c = 48) ds"
  note parse = atoi64_parse [OF sp tr ds sg z d'_def]
  have d': "list_all is_digit d'"
    using ds(2) by (auto simp: d'_def list_all_iff dest: set_dropWhileD)
  have val: "dec d' = dec ds"
    by (simp add: d'_def dec_skip_zeros)
  note u = u64_of_digits [OF d', unfolded val]
  consider "length d' < 19" | "length d' = 19" | "length d' > 19" by linarith
  then show ?thesis
  proof cases
    case 1
    have "dec ds < 10 ^ length d'"
      using dec_less [OF d'] by (simp add: val)
    also have "\<dots> \<le> 10 ^ 18"
      using 1 by (intro power_increasing) auto
    finally have "dec ds < 2 ^ 63" by simp
    from first_value_signed [OF this, of sg] show ?thesis
      unfolding parse using 1 u by (simp add: Let_def)
  next
    case 2
    note c = compare2pow63_sign [OF d' 2, of tr, unfolded val]
    show ?thesis
    proof (cases "dec ds < 2 ^ 63")
      case True
      then show ?thesis
        unfolding parse using 2 u c first_value_signed [OF True, of sg] by (simp add: Let_def)
    next
      case False
      show ?thesis
      proof (cases "dec ds = 2 ^ 63")
        case True
        then show ?thesis
          unfolding parse using 2 c by (auto simp: Let_def signed_def i64_defs)
      next
        case ne: False
        then have "compare2pow63 (d' @ tr) > 0"
          using c False by linarith
        moreover have "\<not> in_i64 (signed sg (dec ds))" "signed sg (dec ds) \<noteq> 9223372036854775808"
          using ne False by (auto simp: signed_def i64_defs)
        ultimately show ?thesis
          unfolding parse using 2 by (simp add: Let_def)
      qed
    qed
  next
    case 3
    then obtain d r where d'c: "d' = d # r"
      by (cases d') auto
    then have "d \<noteq> 48" "is_digit d"
      using d' hd_dropWhile [of "\<lambda>c. c = 48" ds] by (auto simp: d'_def)
    then have "10 ^ length r \<le> dec ds"
      using dec_ge [of d r] val by (simp add: d'c)
    moreover have "(10 :: nat) ^ 19 \<le> 10 ^ length r"
      using 3 by (intro power_increasing) (auto simp: d'c)
    ultimately have "10 ^ 19 \<le> dec ds" by linarith
    then have "\<not> in_i64 (signed sg (dec ds))" "signed sg (dec ds) \<noteq> 9223372036854775808"
      by (auto simp: signed_def i64_defs)
    then show ?thesis
      unfolding parse using 3 by (simp add: Let_def)
  qed
qed


section \<open>Printing and reading back\<close>

lemma digit_loop_dec:
  "\<exists>ds. digit_loop x tail = ds @ tail \<and> ds \<noteq> [] \<and> list_all is_digit ds \<and> dec ds = x
     \<and> (ds = [48] \<or> hd ds \<noteq> 48) \<and> (\<forall>k. x < 10 ^ Suc k \<longrightarrow> length ds \<le> Suc k)"
proof (induction x tail rule: digit_loop.induct)
  case (1 x tail)
  let ?c = "of_nat (x mod 10 + 48) :: byte"
  have "x mod 10 < 10" by simp
  then have c: "unat ?c = x mod 10 + 48"
    by (simp only: unat_of_nat) simp
  then have dig: "is_digit ?c"
    using \<open>x mod 10 < 10\<close> by (simp only: is_digit_nat) linarith
  show ?case
  proof (cases "x div 10 = 0")
    case True
    then have "digit_loop x tail = [?c] @ tail"
      by (simp add: digit_loop.simps [of x tail] Let_def)
    moreover have "dec [?c] = x"
      using True c by (simp only: dec_def foldl.simps) (simp add: div_eq_0_iff)
    ultimately show ?thesis
      using dig c by (intro exI [of _ "[?c]"]) (auto simp: word_unat_eq_iff)
  next
    case False
    then obtain ds where ds: "digit_loop (x div 10) (?c # tail) = ds @ ?c # tail" "ds \<noteq> []"
      "list_all is_digit ds" "dec ds = x div 10" "ds = [48] \<or> hd ds \<noteq> 48"
      "\<forall>k. x div 10 < 10 ^ Suc k \<longrightarrow> length ds \<le> Suc k"
      using 1 [OF refl False] by auto
    have "ds \<noteq> [48]"
      using ds(4) False by (auto simp: dec_def)
    have "length (ds @ [?c]) \<le> Suc k" if "x < 10 ^ Suc k" for k
    proof (cases k)
      case 0
      then show ?thesis using that False by simp
    next
      case (Suc j)
      then have "x div 10 < 10 ^ Suc j"
        using that by (simp add: less_mult_imp_div_less mult.commute)
      then show ?thesis using ds(6) Suc by auto
    qed
    moreover have "dec (ds @ [?c]) = x"
      unfolding dec_snoc c ds(4) by simp
    moreover have "digit_loop x tail = (ds @ [?c]) @ tail"
      using False ds(1) by (simp add: digit_loop.simps [of x tail] Let_def)
    ultimately show ?thesis
      using ds(2,3,5) dig \<open>ds \<noteq> [48]\<close> by (intro exI [of _ "ds @ [?c]"]) auto
  qed
qed

lemma Int64ToText_shape:
  assumes "in_i64 v"
  obtains sg ds where "sqlite3Int64ToText v = sg @ ds" "sg = (if v < 0 then [45] else [])" "ds \<noteq> []"
    "list_all is_digit ds" "dec ds = nat \<bar>v\<bar>" "signed sg (dec ds) = v" "length ds \<le> 19"
proof -
  let ?x = "if v < 0 then (if v = SMALLEST_INT64 then 2 ^ 63 else nat (i64 (- v))) else nat v"
  have x: "?x = nat \<bar>v\<bar>"
    using assms by (auto simp: i64_defs intro!: arg_cong [where f = nat] i64_id)
  obtain ds where ds: "digit_loop (nat \<bar>v\<bar>) [] = ds @ []" "ds \<noteq> []" "list_all is_digit ds"
    "dec ds = nat \<bar>v\<bar>" "\<forall>k. nat \<bar>v\<bar> < 10 ^ Suc k \<longrightarrow> length ds \<le> Suc k"
    using digit_loop_dec [of "nat \<bar>v\<bar>" "[]"] by blast
  have "nat \<bar>v\<bar> < 10 ^ Suc 18"
    using assms by (auto simp: i64_defs)
  with ds(5) have "length ds \<le> Suc 18" by blast
  show ?thesis
  proof (rule that [of "if v < 0 then [45] else []" ds])
    show "sqlite3Int64ToText v = (if v < 0 then [45] else []) @ ds"
      unfolding sqlite3Int64ToText_def Let_def x using ds(1) by (cases "v < 0") simp_all
    show "signed (if v < 0 then [45] else []) (dec ds) = v"
      by (simp add: signed_def ds(4))
    show "length ds \<le> 19"
      using \<open>length ds \<le> Suc 18\<close> by simp
  qed (use ds in auto)
qed

lemma getInt32_decimal_number:
  assumes "ds \<noteq> []" "list_all is_digit ds" "dec ds < 10 ^ 10"
  shows "getInt32_decimal neg ds =
    (if int (dec ds) - of_bool neg \<le> 2147483647
     then Some (if neg then - int (dec ds) else int (dec ds)) else None)"
proof -
  define d' where "d' = dropWhile (\<lambda>c. c = 48) ds"
  have d': "list_all is_digit d'" "dec d' = dec ds"
    using assms(2) by (auto simp: d'_def dec_skip_zeros list_all_iff dest: set_dropWhileD)
  have len: "length d' \<le> 10"
  proof (cases d')
    case (Cons d r)
    then have "d \<noteq> 48" "is_digit d"
      using d' hd_dropWhile [of "\<lambda>c. c = 48" ds] by (auto simp: d'_def)
    then have "10 ^ length r \<le> dec ds"
      using dec_ge [of d r] d'(2) by (simp add: Cons)
    then have "(10 :: nat) ^ length r < 10 ^ 10"
      using assms(3) by linarith
    then have "length r < 10" by (rule power_less_imp_less_exp [rotated]) simp
    then show ?thesis by (simp add: Cons)
  qed simp
  have take: "takeWhile is_digit (take 11 d') = d'"
    using len d'(1) by (simp add: takeWhile_eq_all_conv list_all_iff)
  have fold: "foldl (\<lambda>v c. v * 10 + (uint c - 48)) (int v) xs
      = int (foldl (\<lambda>v c. v * 10 + (unat c - 48)) v xs)" if "list_all is_digit xs" for v xs
    using that
  proof (induction xs arbitrary: v)
    case (Cons c xs)
    then have "int v * 10 + (uint c - 48) = int (v * 10 + (unat c - 48))"
      by (simp add: is_digit_nat of_nat_diff)
    then show ?case using Cons by (simp only: foldl.simps list.pred_inject)
  qed simp
  have val: "foldl (\<lambda>v c. v * 10 + (uint c - 48)) 0 d' = int (dec ds)"
    using fold [OF d'(1), of 0] d'(2) by (simp add: dec_def)
  have "sqlite3IsDigit (cstr ds 0)"
    using assms(1,2) by (cases ds) (auto simp: cstr_def ctype_classes is_digit_def)
  then show ?thesis
    unfolding getInt32_decimal_def Let_def d'_def [symmetric] take val using len by auto
qed

text \<open>
  C25. On UTF-8 text made of spaces, an optional sign, decimal digits and trailing spaces
  sqlite3Atoi64 returns 0 and the value when it fits in 64 bits, 3 for 2^63 without a minus
  sign and 2 beyond, with the value clamped to the end of the range.
\<close>

theorem atoi64_reads_decimal:
  assumes "list_all sqlite3Isspace sp" "list_all sqlite3Isspace tr" "ds \<noteq> []"
    "list_all is_digit ds" "sg \<in> {[], [43], [45]}" "z = sp @ sg @ ds @ tr"
  shows "sqlite3Atoi64 z (length z) SQLITE_UTF8 =
    (if in_i64 (signed sg (dec ds)) then (0, signed sg (dec ds))
     else (if signed sg (dec ds) = 9223372036854775808 then 3 else 2,
           if sg = [45] then SMALLEST_INT64 else LARGEST_INT64))"
  using assms by (rule atoi64_number)

theorem atoi64_reads_decimal_witness:
  "sqlite3Atoi64 ([32, 45] @ decimal_digits @ [57, 10]) 22 SQLITE_UTF8 = (2, SMALLEST_INT64)
   \<and> sqlite3Atoi64 ([48] @ decimal_digits @ [56]) 20 SQLITE_UTF8 = (3, LARGEST_INT64)"
proof -
  have dig: "list_all is_digit (decimal_digits @ [d])" if "is_digit d" for d
    using that by (simp add: decimal_digits_def is_digit_def)
  have len: "length decimal_digits = 18"
    by (simp add: decimal_digits_def)
  have v: "dec (decimal_digits @ [57]) = 9223372036854775809"
    "dec ([48] @ decimal_digits @ [56]) = 9223372036854775808"
    by (simp_all add: decimal_digits_def dec_def)
  have d: "is_digit 56" "is_digit 57" "is_digit 48"
    by (simp_all add: is_digit_def)
  have "sqlite3Atoi64 ([32, 45] @ decimal_digits @ [57, 10])
      (length ([32, 45] @ decimal_digits @ [57, 10])) SQLITE_UTF8 = (2, SMALLEST_INT64)"
    using atoi64_reads_decimal [of "[32]" "[10]" "decimal_digits @ [57]" "[45]"
        "[32, 45] @ decimal_digits @ [57, 10]"] dig [OF d(2)]
    by (simp add: v signed_def in_i64_def ctype_classes)
  moreover have "sqlite3Atoi64 ([48] @ decimal_digits @ [56])
      (length ([48] @ decimal_digits @ [56])) SQLITE_UTF8 = (3, LARGEST_INT64)"
    using atoi64_reads_decimal [of "[]" "[]" "[48] @ decimal_digits @ [56]" "[]"
        "[48] @ decimal_digits @ [56]"] dig [OF d(1)] d(3) v(2)
    by (simp add: signed_def in_i64_def)
  ultimately show ?thesis by (simp add: len)
qed

text \<open>
  Every 64-bit integer printed by sqlite3Int64ToText, in at most 20 characters, is read
  back by sqlite3Atoi64 with return code 0, and by sqlite3Atoi when it fits in 32 bits.
\<close>

theorem int64_text_roundtrip:
  assumes "in_i64 v"
  shows "sqlite3Atoi64 (sqlite3Int64ToText v) (length (sqlite3Int64ToText v)) SQLITE_UTF8 = (0, v)
    \<and> length (sqlite3Int64ToText v) \<le> 20
    \<and> (v \<in> {- 2147483648..2147483647} \<longrightarrow> sqlite3Atoi (sqlite3Int64ToText v) = v)"
proof -
  obtain sg ds where t: "sqlite3Int64ToText v = sg @ ds" "sg = (if v < 0 then [45] else [])"
    "ds \<noteq> []" "list_all is_digit ds" "dec ds = nat \<bar>v\<bar>" "signed sg (dec ds) = v" "length ds \<le> 19"
    using Int64ToText_shape [OF assms] .
  have "sqlite3Atoi64 (sg @ ds) (length (sg @ ds)) SQLITE_UTF8 = (0, v)"
    using atoi64_number [of "[]" "[]" ds sg "sg @ ds"] t assms by simp
  moreover have "sqlite3Atoi (sg @ ds) = v" if v: "v \<in> {- 2147483648..2147483647}"
  proof -
    obtain d r where ds: "ds = d # r" using t(3) by (cases ds) auto
    have d: "is_digit d" using t(4) by (simp add: ds)
    have nox: "\<not> (cstr ds 1 = 120 \<or> cstr ds 1 = 88)"
      using t(4) by (cases r) (auto simp: ds cstr_def is_digit_def)
    have dec: "getInt32_decimal (v < 0) ds = Some v"
      using getInt32_decimal_number [OF t(3,4), of "v < 0"] t(5) v by auto
    have "d \<noteq> 45" "d \<noteq> 43"
      using d sign_not_digit by metis+
    then have "sqlite3GetInt32 (sg @ ds) = Some v"
      using t(2) dec nox by (cases "v < 0") (simp_all add: sqlite3GetInt32_def cstr_def ds)
    then show ?thesis by (simp add: sqlite3Atoi_def)
  qed
  ultimately show ?thesis
    using t(1,2,7) by auto
qed

theorem int64_text_roundtrip_witness:
  "sqlite3Atoi64 (sqlite3Int64ToText SMALLEST_INT64)
     (length (sqlite3Int64ToText SMALLEST_INT64)) SQLITE_UTF8 = (0, SMALLEST_INT64)
   \<and> sqlite3Atoi (sqlite3Int64ToText (- 2147483648)) = - 2147483648"
  using int64_text_roundtrip [of SMALLEST_INT64] int64_text_roundtrip [of "- 2147483648"]
  by (simp add: i64_defs)

end
