(* ===== verification/Sqlite_Bitvec.thy ===== *)
theory Sqlite_Bitvec
  imports Adou_Prelude
begin

text \<open>
  The sparse bitmap of the bundled SQLite (its \<open>bitvec.c\<close> part), which records the pages a
  transaction has journalled. A bitmap of up to 3968 bits is a bit array; a larger one is an
  open-addressing hash table of at most 123 values until it fills up, and then a node of 62
  sub-bitmaps. The constants are those of a target with 8-byte pointers. A node owns its
  sub-bitmaps, so updating one in place is rebuilding the path to it. Indices are natural
  numbers below \<open>2 ^ 32\<close>; the decrement of the \<open>u32\<close> index is written out where it may wrap.
\<close>

section \<open>Data\<close>

definition BITVEC_NELEM :: nat where [c_defs]: "BITVEC_NELEM = 496"
definition BITVEC_NBIT :: nat where [c_defs]: "BITVEC_NBIT = 3968"
definition BITVEC_NINT :: nat where [c_defs]: "BITVEC_NINT = 124"
definition BITVEC_MXHASH :: nat where [c_defs]: "BITVEC_MXHASH = 62"
definition BITVEC_NPTR :: nat where [c_defs]: "BITVEC_NPTR = 62"
definition SQLITE_OK :: nat where [c_defs]: "SQLITE_OK = 0"
definition SQLITE_NOMEM :: nat where [c_defs]: "SQLITE_NOMEM = 7"

definition BITVEC_HASH :: "nat \<Rightarrow> nat" where
  "BITVEC_HASH x = (x * 1) mod BITVEC_NINT"

text \<open>The union of the structure, over the type of the sub-bitmaps.\<close>

datatype 'b bitvec_union = UBitmap "byte list" | UHash "nat list" | USub "'b option list"

datatype Bitvec =
  Bitvec (iSize: nat) (nSet: nat) (iDivisor: nat) (u: "Bitvec bitvec_union")

fun aBitmap :: "Bitvec \<Rightarrow> byte list" where
  "aBitmap (Bitvec sz ns d (UBitmap a)) = a" | "aBitmap p = []"

fun aHash :: "Bitvec \<Rightarrow> nat list" where
  "aHash (Bitvec sz ns d (UHash a)) = a" | "aHash p = []"

fun apSub :: "Bitvec \<Rightarrow> Bitvec option list" where
  "apSub (Bitvec sz ns d (USub a)) = a" | "apSub p = []"

text \<open>\<open>apSub[bin]\<close>; a null pointer is None.\<close>

definition sub_at :: "Bitvec \<Rightarrow> nat \<Rightarrow> Bitvec option" where
  "sub_at p bin = (if bin < length (apSub p) then apSub p ! bin else None)"

lemma sub_at_size: "sub_at p bin = Some q \<Longrightarrow> size q < size p"
proof -
  assume a: "sub_at p bin = Some q"
  obtain sz ns d us where p: "p = Bitvec sz ns d us" by (cases p)
  with a obtain subs where us: "us = USub subs" "bin < length subs" "subs ! bin = Some q"
    by (cases us) (auto simp: sub_at_def split: if_splits)
  then have "Some q \<in> set subs" by (metis nth_mem)
  then have "size_option size (Some q) \<le> size_list (size_option size) subs"
    by (intro size_list_estimation') auto
  then show ?thesis by (simp add: p us)
qed

text \<open>
  The zeroed structure reads as an empty array or an empty table, as its size decides. The
  operations below that allocate take the outcome \<open>ok k\<close> of the k-th allocation of a run and
  the number of allocations made before.
\<close>

definition new_bitvec :: "nat \<Rightarrow> Bitvec" where
  "new_bitvec sz = Bitvec sz 0 0
     (if sz \<le> BITVEC_NBIT then UBitmap (replicate BITVEC_NELEM 0) else UHash (replicate BITVEC_NINT 0))"

definition sqlite3BitvecCreate :: "(nat \<Rightarrow> bool) \<Rightarrow> nat \<Rightarrow> nat \<Rightarrow> Bitvec option \<times> nat" where
  "sqlite3BitvecCreate ok n sz = (if ok n then Some (new_bitvec sz) else None, Suc n)"

section \<open>Test\<close>

text \<open>
  The first slot from \<open>h\<close> on, going round, that is empty or holds \<open>i\<close>; None when none of \<open>n\<close>
  slots does, so that the loop of the code does not end.
\<close>

fun probe :: "nat \<Rightarrow> nat list \<Rightarrow> nat \<Rightarrow> nat \<Rightarrow> nat option" where
  "probe 0 a h i = None"
| "probe (Suc n) a h i =
     (if a ! h = 0 \<or> a ! h = i then Some h else probe n a ((h + 1) mod BITVEC_NINT) i)"

definition bitmap_bit :: "byte list \<Rightarrow> nat \<Rightarrow> bool" where
  "bitmap_bit a i \<longleftrightarrow> a ! (i div 8) AND push_bit (i AND 7) 1 \<noteq> 0"

function test_walk :: "Bitvec \<Rightarrow> nat \<Rightarrow> bool option" where
  "test_walk p i =
     (if iDivisor p \<noteq> 0 then
        (case sub_at p (i div iDivisor p) of None \<Rightarrow> Some False
         | Some q \<Rightarrow> test_walk q (i mod iDivisor p))
      else if iSize p \<le> BITVEC_NBIT then Some (bitmap_bit (aBitmap p) i)
      else map_option (\<lambda>h. aHash p ! h = i + 1) (probe BITVEC_NINT (aHash p) (BITVEC_HASH i) (i + 1)))"
  by pat_completeness auto
termination by (relation "measure (size \<circ> fst)") (auto dest: sub_at_size)

declare test_walk.simps [simp del]

definition sqlite3BitvecTestNotNull :: "Bitvec \<Rightarrow> nat \<Rightarrow> bool option" where
  "sqlite3BitvecTestNotNull p i =
     (let i = (i + 2 ^ 32 - 1) mod 2 ^ 32 in if i \<ge> iSize p then Some False else test_walk p i)"

definition sqlite3BitvecTest :: "Bitvec option \<Rightarrow> nat \<Rightarrow> bool option" where
  "sqlite3BitvecTest p i = (case p of None \<Rightarrow> Some False | Some q \<Rightarrow> sqlite3BitvecTestNotNull q i)"

section \<open>Set\<close>

text \<open>The result of an operation: the return code, the bitmap and the allocations made.\<close>

type_synonym set_result = "(nat \<times> Bitvec \<times> nat) option"

definition with_sub :: "Bitvec \<Rightarrow> nat \<Rightarrow> Bitvec \<Rightarrow> Bitvec" where
  "with_sub p bin q = Bitvec (iSize p) (nSet p) (iDivisor p) (USub ((apSub p)[bin := Some q]))"

text \<open>One turn of the descending loop; \<open>rec\<close> goes on at the sub-bitmap.\<close>

definition set_sub :: "(nat \<Rightarrow> Bitvec \<Rightarrow> nat \<Rightarrow> set_result) \<Rightarrow> (nat \<Rightarrow> bool) \<Rightarrow> nat \<Rightarrow> Bitvec \<Rightarrow> nat
    \<Rightarrow> set_result" where
  "set_sub rec ok n p i =
     (let bin = i div iDivisor p; i = i mod iDivisor p;
          (sub, n) = (case sub_at p bin of
              None \<Rightarrow> sqlite3BitvecCreate ok n (iDivisor p) | Some q \<Rightarrow> (Some q, n))
      in case sub of
           None \<Rightarrow> Some (SQLITE_NOMEM, p, n)
         | Some q \<Rightarrow> map_option (\<lambda>(rc, q, n). (rc, with_sub p bin q, n)) (rec n q i))"

definition set_bitmap :: "Bitvec \<Rightarrow> nat \<Rightarrow> Bitvec" where
  "set_bitmap p i = Bitvec (iSize p) (nSet p) (iDivisor p)
     (UBitmap ((aBitmap p)[i div 8 := aBitmap p ! (i div 8) OR push_bit (i AND 7) 1]))"

text \<open>The label \<open>bitvec_set_end\<close>.\<close>

definition set_end :: "Bitvec \<Rightarrow> nat \<Rightarrow> nat \<Rightarrow> Bitvec" where
  "set_end p h i = Bitvec (iSize p) (nSet p + 1) (iDivisor p) (UHash ((aHash p)[h := i]))"

text \<open>The node a full hash table becomes, and the loop that sets its values again.\<close>

definition divided :: "Bitvec \<Rightarrow> Bitvec" where
  "divided p =
     (let d = iSize p div BITVEC_NPTR;
          d = (if iSize p mod BITVEC_NPTR \<noteq> 0 then d + 1 else d);
          d = (if d < BITVEC_NBIT then BITVEC_NBIT else d)
      in Bitvec (iSize p) (nSet p) d (USub (replicate BITVEC_NPTR None)))"

fun set_values :: "(nat \<Rightarrow> Bitvec \<Rightarrow> nat \<Rightarrow> set_result) \<Rightarrow> nat list \<Rightarrow> nat \<times> Bitvec \<times> nat
    \<Rightarrow> set_result" where
  "set_values rec [] s = Some s"
| "set_values rec (v # vs) (rc, p, n) =
     (if v \<noteq> 0 then
        (case rec n p (v - 1) of None \<Rightarrow> None
         | Some (r, p, n) \<Rightarrow> set_values rec vs (rc OR r, p, n))
      else set_values rec vs (rc, p, n))"

text \<open>
  The part from \<open>bitvec_set_rehash\<close> on: \<open>h\<close> is the free slot found and \<open>i\<close> the value to
  store, one more than the index.
\<close>

definition set_rehash :: "(nat \<Rightarrow> Bitvec \<Rightarrow> nat \<Rightarrow> set_result) \<Rightarrow> (nat \<Rightarrow> bool) \<Rightarrow> nat \<Rightarrow> Bitvec
    \<Rightarrow> nat \<Rightarrow> nat \<Rightarrow> set_result" where
  "set_rehash rec ok n p h i =
     (if nSet p \<ge> BITVEC_MXHASH then
        if \<not> ok n then Some (SQLITE_NOMEM, p, Suc n)
        else (case rec (Suc n) (divided p) (i - 1) of None \<Rightarrow> None
              | Some s \<Rightarrow> set_values rec (aHash p) s)
      else Some (SQLITE_OK, set_end p h i, n))"

definition set_hash :: "(nat \<Rightarrow> Bitvec \<Rightarrow> nat \<Rightarrow> set_result) \<Rightarrow> (nat \<Rightarrow> bool) \<Rightarrow> nat \<Rightarrow> Bitvec \<Rightarrow> nat
    \<Rightarrow> set_result" where
  "set_hash rec ok n p i =
     (let h = BITVEC_HASH i; i = i + 1 in
      if aHash p ! h = 0 then
        if nSet p < BITVEC_NINT - 1 then Some (SQLITE_OK, set_end p h i, n)
        else set_rehash rec ok n p h i
      else (case probe BITVEC_NINT (aHash p) h i of
          None \<Rightarrow> None
        | Some h \<Rightarrow> if aHash p ! h = i then Some (SQLITE_OK, p, n) else set_rehash rec ok n p h i))"

text \<open>The body after \<open>i--\<close>; the fuel bounds the turns of the loop and the nested calls.\<close>

fun set_walk :: "nat \<Rightarrow> (nat \<Rightarrow> bool) \<Rightarrow> nat \<Rightarrow> Bitvec \<Rightarrow> nat \<Rightarrow> set_result" where
  "set_walk 0 ok n p i = None"
| "set_walk (Suc f) ok n p i =
     (if iSize p > BITVEC_NBIT \<and> iDivisor p \<noteq> 0 then set_sub (set_walk f ok) ok n p i
      else if iSize p \<le> BITVEC_NBIT then Some (SQLITE_OK, set_bitmap p i, n)
      else set_hash (set_walk f ok) ok n p i)"

definition set_fuel :: nat where "set_fuel = 9"

definition sqlite3BitvecSet :: "(nat \<Rightarrow> bool) \<Rightarrow> nat \<Rightarrow> Bitvec option \<Rightarrow> nat
    \<Rightarrow> (nat \<times> Bitvec option \<times> nat) option" where
  "sqlite3BitvecSet ok n p i =
     (case p of None \<Rightarrow> Some (SQLITE_OK, None, n)
      | Some q \<Rightarrow> map_option (\<lambda>(rc, q, n). (rc, Some q, n)) (set_walk set_fuel ok n q (i - 1)))"

section \<open>Clear, size and destruction\<close>

fun rebuild :: "nat list \<Rightarrow> nat \<Rightarrow> nat \<times> nat list \<Rightarrow> (nat \<times> nat list) option" where
  "rebuild [] i (ns, a) = Some (ns, a)"
| "rebuild (v # vs) i (ns, a) =
     (if v \<noteq> 0 \<and> v \<noteq> i + 1 then
        (case probe BITVEC_NINT a (BITVEC_HASH (v - 1)) 0 of None \<Rightarrow> None
         | Some h \<Rightarrow> rebuild vs i (ns + 1, a[h := v]))
      else rebuild vs i (ns, a))"

definition clear_hash :: "Bitvec \<Rightarrow> nat \<Rightarrow> Bitvec option" where
  "clear_hash p i =
     map_option (\<lambda>(ns, a). Bitvec (iSize p) ns (iDivisor p) (UHash a))
       (rebuild (aHash p) i (0, replicate BITVEC_NINT 0))"

definition clear_bitmap :: "Bitvec \<Rightarrow> nat \<Rightarrow> Bitvec" where
  "clear_bitmap p i = Bitvec (iSize p) (nSet p) (iDivisor p)
     (UBitmap ((aBitmap p)[i div 8 := aBitmap p ! (i div 8) AND NOT (push_bit (i AND 7) 1)]))"

function clear_walk :: "Bitvec \<Rightarrow> nat \<Rightarrow> Bitvec option" where
  "clear_walk p i =
     (if iDivisor p \<noteq> 0 then
        (case sub_at p (i div iDivisor p) of None \<Rightarrow> Some p
         | Some q \<Rightarrow> map_option (with_sub p (i div iDivisor p)) (clear_walk q (i mod iDivisor p)))
      else if iSize p \<le> BITVEC_NBIT then Some (clear_bitmap p i)
      else clear_hash p i)"
  by pat_completeness auto
termination by (relation "measure (size \<circ> fst)") (auto dest: sub_at_size)

declare clear_walk.simps [simp del]

definition sqlite3BitvecClear :: "Bitvec option \<Rightarrow> nat \<Rightarrow> Bitvec option option" where
  "sqlite3BitvecClear p i =
     (case p of None \<Rightarrow> Some None | Some q \<Rightarrow> map_option Some (clear_walk q (i - 1)))"

definition sqlite3BitvecSize :: "Bitvec \<Rightarrow> nat" where
  "sqlite3BitvecSize p = iSize p"

text \<open>The number of structures freed.\<close>

function destroy_node :: "Bitvec \<Rightarrow> nat" where
  "destroy_node p =
     (if iDivisor p \<noteq> 0 then
        sum_list (map (\<lambda>k. case sub_at p k of None \<Rightarrow> 0 | Some q \<Rightarrow> destroy_node q) [0..<BITVEC_NPTR])
      else 0) + 1"
  by pat_completeness auto
termination by (relation "measure size") (auto dest: sub_at_size)

declare destroy_node.simps [simp del]

definition sqlite3BitvecDestroy :: "Bitvec option \<Rightarrow> nat" where
  "sqlite3BitvecDestroy p = (case p of None \<Rightarrow> 0 | Some q \<Rightarrow> destroy_node q)"

section \<open>The hash table\<close>

definition used :: "nat list \<Rightarrow> nat set" where
  "used a = {h. h < length a \<and> a ! h \<noteq> 0}"

text \<open>
  Every value is stored once, at the end of a run of used slots that starts at its hash, and
  \<open>ns\<close> counts the values, one slot at least being free.
\<close>

definition run_from :: "nat list \<Rightarrow> nat \<Rightarrow> nat \<Rightarrow> bool" where
  "run_from a v h \<longleftrightarrow> (\<exists>d < 124. h = (v - 1 + d) mod 124 \<and> (\<forall>e < d. a ! ((v - 1 + e) mod 124) \<noteq> 0))"

definition table_ok :: "nat \<Rightarrow> nat list \<Rightarrow> bool" where
  "table_ok ns a \<longleftrightarrow> length a = 124 \<and> ns = card (used a) \<and> ns \<le> 123
     \<and> (\<forall>h < 124. \<forall>k < 124. a ! h \<noteq> 0 \<longrightarrow> a ! h = a ! k \<longrightarrow> h = k)
     \<and> (\<forall>h < 124. a ! h \<noteq> 0 \<longrightarrow> run_from a (a ! h) h)"

lemma finite_used [simp]: "finite (used a)"
  by (simp add: used_def)

lemma used_update: "h < length a \<Longrightarrow> v \<noteq> 0 \<Longrightarrow> used (a[h := v]) = insert h (used a)"
  by (auto simp: used_def nth_list_update)

lemma table_has_free:
  assumes "table_ok ns a"
  obtains h where "h < 124" "a ! h = 0"
proof -
  have "card (used a) < card {..<length a}"
    using assms by (auto simp: table_ok_def)
  then have "\<not> {..<length a} \<subseteq> used a"
    using card_mono [of "used a" "{..<length a}"] by auto
  then show thesis
    using assms that by (auto simp: used_def table_ok_def)
qed

lemma probe_finds:
  assumes "h < 124" "d < n" "a ! ((h + d) mod 124) = 0"
  shows "\<exists>d < n. probe n a h i = Some ((h + d) mod 124)
    \<and> (a ! ((h + d) mod 124) = 0 \<or> a ! ((h + d) mod 124) = i)
    \<and> (\<forall>e < d. a ! ((h + e) mod 124) \<noteq> 0 \<and> a ! ((h + e) mod 124) \<noteq> i)"
  using assms
proof (induction n arbitrary: h d)
  case (Suc n)
  show ?case
  proof (cases "a ! h = 0 \<or> a ! h = i")
    case True
    then show ?thesis using Suc.prems by (intro exI [of _ 0]) simp
  next
    case False
    then have "d \<noteq> 0" using Suc.prems by (cases d) auto
    then obtain d' where d: "d = Suc d'" by (cases d) auto
    let ?h = "(h + 1) mod 124"
    have shift: "(?h + e) mod 124 = (h + Suc e) mod 124" for e
      by (simp add: mod_add_left_eq)
    obtain c where c: "c < n" "probe n a ?h i = Some ((?h + c) mod 124)"
      "a ! ((?h + c) mod 124) = 0 \<or> a ! ((?h + c) mod 124) = i"
      "\<forall>e < c. a ! ((?h + e) mod 124) \<noteq> 0 \<and> a ! ((?h + e) mod 124) \<noteq> i"
      using Suc.IH [of ?h d'] Suc.prems d shift by auto
    have "\<forall>e < Suc c. a ! ((h + e) mod 124) \<noteq> 0 \<and> a ! ((h + e) mod 124) \<noteq> i"
    proof (intro allI impI)
      fix e assume "e < Suc c"
      then show "a ! ((h + e) mod 124) \<noteq> 0 \<and> a ! ((h + e) mod 124) \<noteq> i"
        using c(4) False Suc.prems(1) shift by (cases e) simp_all
    qed
    then show ?thesis
      using c(1-3) False shift by (intro exI [of _ "Suc c"]) (simp add: BITVEC_NINT_def)
  qed
qed simp

lemma probe_table:
  assumes "table_ok ns a" "h < 124"
  shows "\<exists>d < 124. probe 124 a h i = Some ((h + d) mod 124)
    \<and> (a ! ((h + d) mod 124) = 0 \<or> a ! ((h + d) mod 124) = i)
    \<and> (\<forall>e < d. a ! ((h + e) mod 124) \<noteq> 0 \<and> a ! ((h + e) mod 124) \<noteq> i)"
proof -
  obtain k where k: "k < 124" "a ! k = 0" using assms(1) by (rule table_has_free)
  define d where "d = (if h \<le> k then k - h else k + 124 - h)"
  have "(h + d) mod 124 = k" "d < 124"
    using k(1) assms(2) by (auto simp: d_def)
  then show ?thesis
    using probe_finds [OF assms(2), of d 124 a i] k(2) by simp
qed

text \<open>Looking a value up ends at its slot, or at a free slot fit to take it.\<close>

lemma probe_value:
  assumes t: "table_ok ns a" and v: "v \<noteq> 0"
  obtains h where "probe 124 a ((v - 1) mod 124) v = Some h" "h < 124"
    "if v \<in> set a then a ! h = v else a ! h = 0 \<and> run_from a v h"
proof -
  obtain d where d: "d < 124" "probe 124 a ((v - 1) mod 124) v = Some (((v - 1) mod 124 + d) mod 124)"
    "a ! (((v - 1) mod 124 + d) mod 124) = 0 \<or> a ! (((v - 1) mod 124 + d) mod 124) = v"
    "\<forall>e < d. a ! (((v - 1) mod 124 + e) mod 124) \<noteq> 0 \<and> a ! (((v - 1) mod 124 + e) mod 124) \<noteq> v"
    using probe_table [OF t, of "(v - 1) mod 124" v] by auto
  define h where "h = (v - 1 + d) mod 124"
  have d': "probe 124 a ((v - 1) mod 124) v = Some h" "a ! h = 0 \<or> a ! h = v"
    "\<forall>e < d. a ! ((v - 1 + e) mod 124) \<noteq> 0 \<and> a ! ((v - 1 + e) mod 124) \<noteq> v"
    using d(2-4) unfolding h_def mod_add_left_eq by auto
  have len: "length a = 124" and reach: "\<And>h. h < 124 \<Longrightarrow> a ! h \<noteq> 0 \<Longrightarrow> run_from a (a ! h) h"
    using t by (auto simp: table_ok_def)
  have "a ! h = v" if "v \<in> set a"
  proof (rule ccontr)
    assume "a ! h \<noteq> v"
    then have free: "a ! ((v - 1 + d) mod 124) = 0" using d'(2) by (simp add: h_def)
    from that obtain k where k: "k < 124" "a ! k = v" using len by (auto simp: in_set_conv_nth)
    then obtain c where c: "k = (v - 1 + c) mod 124" "\<forall>e < c. a ! ((v - 1 + e) mod 124) \<noteq> 0"
      using reach [of k] v by (auto simp: run_from_def)
    have "\<not> d < c" using c(2) free by auto
    moreover have "\<not> c < d" using d'(3) c(1) k(2) by auto
    ultimately have "c = d" by simp
    then show False using c(1) k(2) free v by simp
  qed
  moreover have "a ! h = 0 \<and> run_from a v h" if "v \<notin> set a"
  proof -
    have "h < length a" using len by (simp add: h_def)
    then have "a ! h \<noteq> v" using that by auto
    then show ?thesis using d'(2,3) d(1) by (auto simp: run_from_def h_def)
  qed
  ultimately show thesis
    using that [OF d'(1)] by (simp add: h_def)
qed

lemma table_insert:
  assumes t: "table_ok ns a" and v: "v \<noteq> 0" "v \<notin> set a" and h: "h < 124" "a ! h = 0" "run_from a v h"
    and room: "ns < 123"
  shows "table_ok (ns + 1) (a[h := v])" "w \<noteq> 0 \<Longrightarrow> w \<in> set (a[h := v]) \<longleftrightarrow> w = v \<or> w \<in> set a"
proof -
  have len: "length a = 124" using t by (simp add: table_ok_def)
  have "card (used (a[h := v])) = Suc (card (used a))"
    using h len v by (simp add: used_update) (simp add: used_def)
  moreover have "run_from (a[h := v]) w k" if "run_from a w k" for w k
  proof -
    obtain d where d: "d < 124" "k = (w - 1 + d) mod 124" "\<forall>e < d. a ! ((w - 1 + e) mod 124) \<noteq> 0"
      using \<open>run_from a w k\<close> by (auto simp: run_from_def)
    then have "\<forall>e < d. a[h := v] ! ((w - 1 + e) mod 124) \<noteq> 0"
      using v(1) len h(1) by (simp add: nth_list_update)
    then show ?thesis using d(1,2) by (auto simp: run_from_def)
  qed
  then have "a[h := v] ! k \<noteq> 0 \<longrightarrow> run_from (a[h := v]) (a[h := v] ! k) k" if "k < 124" for k
    using t h \<open>k < 124\<close> len by (cases "k = h") (auto simp: table_ok_def)
  moreover have "j = k" if "j < 124" "k < 124" "a[h := v] ! j \<noteq> 0" "a[h := v] ! j = a[h := v] ! k" for j k
  proof (cases "j = h \<or> k = h")
    case True
    moreover have "a ! i \<noteq> v" if "i < 124" for i using v(2) len that by auto
    ultimately show ?thesis
      using that len by (metis length_list_update nth_list_update_eq nth_list_update_neq)
  next
    case False
    then show ?thesis using that t by (simp add: table_ok_def)
  qed
  ultimately show "table_ok (ns + 1) (a[h := v])"
    using t room len by (auto simp: table_ok_def)
  show "w \<in> set (a[h := v]) \<longleftrightarrow> w = v \<or> w \<in> set a" if "w \<noteq> 0"
  proof
    assume "w \<in> set (a[h := v])"
    then show "w = v \<or> w \<in> set a" using set_update_subset_insert [of a h v] by auto
  next
    assume "w = v \<or> w \<in> set a"
    then show "w \<in> set (a[h := v])"
    proof
      assume "w = v"
      then show ?thesis using h(1) len by (simp add: set_update_memI)
    next
      assume "w \<in> set a"
      then obtain k where "k < 124" "a ! k = w" using len by (auto simp: in_set_conv_nth)
      then have "k \<noteq> h" using h(2) that by auto
      then have "a[h := v] ! k = w" using \<open>a ! k = w\<close> by simp
      then show ?thesis using \<open>k < 124\<close> len by (metis length_list_update nth_mem)
    qed
  qed
qed

lemma table_empty: "table_ok 0 (replicate 124 0)"
  by (simp add: table_ok_def used_def)

section \<open>Well-formed bitmaps and their members\<close>

lemmas bitvec_consts = BITVEC_NELEM_def BITVEC_NBIT_def BITVEC_NINT_def BITVEC_MXHASH_def
  BITVEC_NPTR_def SQLITE_OK_def SQLITE_NOMEM_def

definition sub_size :: "nat \<Rightarrow> nat" where
  "sub_size sz = max 3968 (if sz mod 62 \<noteq> 0 then sz div 62 + 1 else sz div 62)"

lemma divided_simps [simp]: "iSize (divided p) = iSize p" "iDivisor (divided p) = sub_size (iSize p)"
  "u (divided p) = USub (replicate 62 None)"
  by (simp_all add: divided_def sub_size_def Let_def bitvec_consts max_def)

lemma sub_size:
  assumes "3968 < sz"
  shows "3968 \<le> sub_size sz" "sub_size sz < sz" "sz \<le> 62 * sub_size sz"
    "sz \<le> 3968 * 62 ^ Suc k \<Longrightarrow> sub_size sz \<le> 3968 * 62 ^ k"
proof -
  note d = sub_size_def
  have e: "sz = 62 * (sz div 62) + sz mod 62" by simp
  show "3968 \<le> sub_size sz" by (simp add: d)
  have m: "sz mod 62 < 62" by simp
  with e assms have "sz div 62 + 1 < sz" by linarith
  with assms show "sub_size sz < sz" by (simp add: d)
  from e m show "sz \<le> 62 * sub_size sz" unfolding d max_def by (auto split: if_splits)
  assume k: "sz \<le> 3968 * 62 ^ Suc k"
  define K :: nat where "K = 3968 * 62 ^ k"
  have "sz \<le> 62 * K" "3968 \<le> K" using k by (simp_all add: K_def)
  moreover from this have "sz div 62 + 1 \<le> K" if "sz mod 62 \<noteq> 0" using that e by linarith
  moreover from \<open>sz \<le> 62 * K\<close> have "sz div 62 \<le> K" by simp
  ultimately show "sub_size sz \<le> 3968 * 62 ^ k" by (simp add: d K_def [symmetric])
qed

inductive bv_ok :: "Bitvec \<Rightarrow> bool" where
  ok_bitmap: "sz \<le> 3968 \<Longrightarrow> length a = 496 \<Longrightarrow> bv_ok (Bitvec sz ns 0 (UBitmap a))"
| ok_hash: "3968 < sz \<Longrightarrow> sz < 2 ^ 32 \<Longrightarrow> table_ok ns a \<Longrightarrow> \<forall>v \<in> set a. v \<le> sz
    \<Longrightarrow> bv_ok (Bitvec sz ns 0 (UHash a))"
| ok_sub: "3968 < sz \<Longrightarrow> sz < 2 ^ 32 \<Longrightarrow> length subs = 62
    \<Longrightarrow> \<forall>q. Some q \<in> set subs \<longrightarrow> bv_ok q \<and> iSize q = sub_size sz
    \<Longrightarrow> bv_ok (Bitvec sz ns (sub_size sz) (USub subs))"

inductive_simps bv_ok_simps [simp]: "bv_ok (Bitvec sz ns d (UBitmap a))"
  "bv_ok (Bitvec sz ns d (UHash a))" "bv_ok (Bitvec sz ns d (USub subs))"

definition has :: "Bitvec \<Rightarrow> nat \<Rightarrow> bool" where
  "has p i \<longleftrightarrow> test_walk p i = Some True"

lemma bv_ok_size: "bv_ok p \<Longrightarrow> iSize p < 2 ^ 32"
  by (induction rule: bv_ok.induct) simp_all

lemma bv_ok_cases [consumes 1, case_names bitmap hash sub]:
  assumes "bv_ok p"
  obtains sz a ns where "p = Bitvec sz ns 0 (UBitmap a)" "sz \<le> 3968" "length a = 496"
  | sz a ns where "p = Bitvec sz ns 0 (UHash a)" "3968 < sz" "sz < 2 ^ 32" "table_ok ns a"
      "\<forall>v \<in> set a. v \<le> sz"
  | sz subs ns where "p = Bitvec sz ns (sub_size sz) (USub subs)" "3968 < sz" "sz < 2 ^ 32"
      "length subs = 62" "\<forall>q. Some q \<in> set subs \<longrightarrow> bv_ok q \<and> iSize q = sub_size sz"
      "0 < sub_size sz"
proof -
  from assms show thesis
  proof (cases rule: bv_ok.cases)
    case (ok_bitmap sz a ns)
    then show thesis by (rule that(1))
  next
    case (ok_hash sz ns a)
    then show thesis by (intro that(2))
  next
    case (ok_sub sz subs ns)
    moreover from ok_sub(2) have "0 < sub_size sz" using sub_size(1) [of sz] by simp
    ultimately show thesis by (rule that(3))
  qed
qed

lemma new_bitvec_ok: "sz < 2 ^ 32 \<Longrightarrow> bv_ok (new_bitvec sz)"
  by (simp add: new_bitvec_def bitvec_consts table_empty)

lemma new_bitvec_size [simp]: "iSize (new_bitvec sz) = sz" "iDivisor (new_bitvec sz) = 0"
  by (simp_all add: new_bitvec_def)

lemma and_7: "(i :: nat) AND 7 = i mod 8"
  using take_bit_eq_mask [of 3 i] by (simp add: take_bit_eq_mod mask_eq_exp_minus_1)

lemma bitmap_bit: "bitmap_bit a i \<longleftrightarrow> bit (a ! (i div 8)) (i mod 8)"
  by (simp add: bitmap_bit_def and_7 bit_iff_and_push_bit_not_eq_0)

lemma test_bitmap [simp]: "sz \<le> 3968 \<Longrightarrow> test_walk (Bitvec sz ns 0 (UBitmap a)) i = Some (bitmap_bit a i)"
  by (subst test_walk.simps) (simp add: bitvec_consts)

lemma test_hash [simp]:
  assumes "3968 < sz" "table_ok ns a"
  shows "test_walk (Bitvec sz ns 0 (UHash a)) i = Some (i + 1 \<in> set a)"
proof -
  obtain h where h: "probe 124 a (i mod 124) (i + 1) = Some h" "h < 124"
    "if i + 1 \<in> set a then a ! h = i + 1 else a ! h = 0 \<and> run_from a (i + 1) h"
    using probe_value [OF assms(2), of "i + 1"] by auto
  have "a ! h = i + 1 \<longleftrightarrow> i + 1 \<in> set a" using h(3) by (auto split: if_splits)
  then show ?thesis
    using h(1) assms(1) by (subst test_walk.simps) (simp add: bitvec_consts BITVEC_HASH_def)
qed

lemma test_sub: "0 < d \<Longrightarrow> length subs = 62 \<Longrightarrow> test_walk (Bitvec sz ns d (USub subs)) i =
    (if i div d < 62 then
       (case subs ! (i div d) of None \<Rightarrow> Some False | Some q \<Rightarrow> test_walk q (i mod d))
     else Some False)"
  by (subst test_walk.simps) (simp add: sub_at_def cong: option.case_cong)

lemma test_total: "bv_ok p \<Longrightarrow> i < iSize p \<Longrightarrow> test_walk p i = Some (has p i)"
proof (induction arbitrary: i rule: bv_ok.induct)
  case (ok_sub sz subs ns)
  let ?d = "sub_size sz"
  have d: "0 < ?d" using sub_size(1) [OF ok_sub.hyps(1)] by simp
  have "subs ! (i div ?d) = Some q \<Longrightarrow> i div ?d < 62 \<Longrightarrow> test_walk q (i mod ?d) = Some (has q (i mod ?d))" for q
  proof -
    assume "subs ! (i div ?d) = Some q" "i div ?d < 62"
    then have "Some q \<in> set subs" using ok_sub.hyps(3) by (metis nth_mem)
    then show ?thesis using ok_sub.IH d by auto
  qed
  then show ?case
    using d ok_sub.hyps(3) by (auto simp: has_def test_sub split: option.splits)
qed (simp_all add: has_def)

lemma has_new [simp]: "i < sz \<Longrightarrow> sz < 2 ^ 32 \<Longrightarrow> \<not> has (new_bitvec sz) i"
proof (cases "sz \<le> 3968")
  case True
  assume "i < sz"
  with True have "i div 8 < 496" by simp
  with True show ?thesis by (simp add: has_def new_bitvec_def bitvec_consts bitmap_bit)
next
  case False
  then show ?thesis by (simp add: has_def new_bitvec_def bitvec_consts table_empty)
qed

lemma has_simps:
  "sz \<le> 3968 \<Longrightarrow> has (Bitvec sz ns 0 (UBitmap a)) i \<longleftrightarrow> bitmap_bit a i"
  "3968 < sz \<Longrightarrow> table_ok ns t \<Longrightarrow> has (Bitvec sz ns 0 (UHash t)) i \<longleftrightarrow> i + 1 \<in> set t"
  by (simp_all add: has_def)

lemma has_sub:
  assumes "3968 < sz" "length subs = 62" "i < sz"
  shows "i div sub_size sz < 62"
    "has (Bitvec sz ns (sub_size sz) (USub subs)) i
      \<longleftrightarrow> (\<exists>q. subs ! (i div sub_size sz) = Some q \<and> has q (i mod sub_size sz))"
proof -
  have d: "0 < sub_size sz" "i < 62 * sub_size sz"
    using sub_size(1,3) [OF assms(1)] assms(3) by auto
  then show b: "i div sub_size sz < 62" by (simp add: div_less_iff_less_mult)
  show "has (Bitvec sz ns (sub_size sz) (USub subs)) i
      \<longleftrightarrow> (\<exists>q. subs ! (i div sub_size sz) = Some q \<and> has q (i mod sub_size sz))"
    using b d assms(2) by (auto simp: has_def test_sub split: option.splits)
qed

section \<open>Setting a bit\<close>

text \<open>What setting index \<open>i\<close> of \<open>p\<close> promises of its result, whether or not allocations succeed.\<close>

definition set_post :: "(nat \<Rightarrow> bool) \<Rightarrow> Bitvec \<Rightarrow> nat \<Rightarrow> set_result \<Rightarrow> bool" where
  "set_post ok p i r \<longleftrightarrow> (\<exists>rc q n. r = Some (rc, q, n) \<and> bv_ok q \<and> iSize q = iSize p
     \<and> (iDivisor p \<noteq> 0 \<longrightarrow> iDivisor q = iDivisor p) \<and> (rc = 0 \<or> rc = 7)
     \<and> ((\<forall>k. ok k) \<longrightarrow> rc = 0)
     \<and> (rc = 0 \<longrightarrow> (\<forall>j < iSize p. has q j \<longleftrightarrow> j = i \<or> has p j))
     \<and> (\<forall>j < iSize p. has q j \<longrightarrow> j = i \<or> has p j))"

lemma set_postI:
  "bv_ok q \<Longrightarrow> iSize q = iSize p \<Longrightarrow> (iDivisor p \<noteq> 0 \<Longrightarrow> iDivisor q = iDivisor p)
    \<Longrightarrow> (\<And>j. j < iSize p \<Longrightarrow> has q j \<longleftrightarrow> j = i \<or> has p j) \<Longrightarrow> set_post ok p i (Some (0, q, n))"
  by (auto simp: set_post_def)

lemma set_postE:
  assumes "set_post ok p i r"
  obtains rc q n where "r = Some (rc, q, n)" "bv_ok q" "iSize q = iSize p"
    "iDivisor p \<noteq> 0 \<longrightarrow> iDivisor q = iDivisor p" "rc = 0 \<or> rc = 7" "(\<forall>k. ok k) \<longrightarrow> rc = 0"
    "rc = 0 \<longrightarrow> (\<forall>j < iSize p. has q j \<longleftrightarrow> j = i \<or> has p j)"
    "\<forall>j < iSize p. has q j \<longrightarrow> j = i \<or> has p j"
  using assms unfolding set_post_def by (elim exE conjE) (rule that)

lemma set_post_nomem: "bv_ok p \<Longrightarrow> \<not> ok k \<Longrightarrow> set_post ok p i (Some (7, p, n))"
  by (auto simp: set_post_def)

lemma bitmap_bit_update:
  assumes i: "i div 8 < length a"
  shows "bitmap_bit (a[i div 8 := a ! (i div 8) OR push_bit (i AND 7) 1]) j \<longleftrightarrow> j = i \<or> bitmap_bit a j"
    "bitmap_bit (a[i div 8 := a ! (i div 8) AND NOT (push_bit (i AND 7) 1)]) j \<longleftrightarrow> j \<noteq> i \<and> bitmap_bit a j"
proof -
  have eq: "j = i" if "j div 8 = i div 8" "j mod 8 = i mod 8"
    using that by (metis div_mod_decomp)
  have m: "i mod 8 < 8" "j mod 8 < 8" by simp_all
  show "bitmap_bit (a[i div 8 := a ! (i div 8) OR push_bit (i AND 7) 1]) j \<longleftrightarrow> j = i \<or> bitmap_bit a j"
  proof (cases "j div 8 = i div 8")
    case True
    then show ?thesis
      using i m eq by (cases "j mod 8 = i mod 8") (simp_all add: bitmap_bit and_7 bit_simps, auto)
  qed (auto simp: bitmap_bit)
  show "bitmap_bit (a[i div 8 := a ! (i div 8) AND NOT (push_bit (i AND 7) 1)]) j \<longleftrightarrow> j \<noteq> i \<and> bitmap_bit a j"
  proof (cases "j div 8 = i div 8")
    case True
    then show ?thesis
      using i m eq by (cases "j mod 8 = i mod 8") (simp_all add: bitmap_bit and_7 bit_simps, auto)
  qed (auto simp: bitmap_bit)
qed

lemma set_bitmap_post:
  assumes "bv_ok p" "iSize p \<le> 3968" "i < iSize p"
  shows "set_post ok p i (Some (0, set_bitmap p i, n))"
  using assms(1)
proof (cases rule: bv_ok_cases)
  case (bitmap sz a ns)
  then show ?thesis
    using assms by (intro set_postI) (simp_all add: set_bitmap_def has_simps bitmap_bit_update del: push_bit_of_1)
qed (use assms in auto)

lemma has_with_sub:
  assumes p: "p = Bitvec sz ns (sub_size sz) (USub subs)" "bv_ok p" and b: "bin < 62" and j: "j < sz"
  shows "has (with_sub p bin q) j
    \<longleftrightarrow> (if j div sub_size sz = bin then has q (j mod sub_size sz) else has p j)"
  using assms by (simp add: with_sub_def has_sub nth_list_update)

lemma with_sub_ok:
  assumes p: "p = Bitvec sz ns (sub_size sz) (USub subs)" "bv_ok p"
    and q: "bv_ok q" "iSize q = sub_size sz"
  shows "bv_ok (with_sub p bin q)" "iSize (with_sub p bin q) = sz"
    "iDivisor (with_sub p bin q) = sub_size sz"
  using assms set_update_subset_insert [of subs bin "Some q"] by (auto simp: with_sub_def)

lemma div_mod_same: "(j :: nat) div d = i div d \<Longrightarrow> j mod d = i mod d \<longleftrightarrow> j = i"
  by (metis div_mod_decomp)

lemma set_sub_post:
  assumes p: "bv_ok p" "iDivisor p \<noteq> 0" and i: "i < iSize p"
    and rec: "\<And>n q i. bv_ok q \<Longrightarrow> iSize q = iDivisor p \<Longrightarrow> i < iSize q \<Longrightarrow> set_post ok q i (rec n q i)"
  shows "set_post ok p i (set_sub rec ok n p i)"
  using p(1)
proof (cases rule: bv_ok_cases)
  case (sub sz subs ns)
  let ?d = "sub_size sz" let ?bin = "i div ?d"
  have d: "0 < ?d" "?d < 2 ^ 32" using sub sub_size(2) [of sz] by auto
  have bin: "?bin < 62" using has_sub(1) [of sz subs i] sub i by simp
  have step: "set_post ok p i (map_option (\<lambda>(rc, q, n). (rc, with_sub p ?bin q, n)) (rec m q (i mod ?d)))"
    if q: "bv_ok q" "iSize q = ?d"
      and old: "\<forall>j < sz. j div ?d = ?bin \<longrightarrow> (has p j \<longleftrightarrow> has q (j mod ?d))" for q m
  proof -
    have "set_post ok q (i mod ?d) (rec m q (i mod ?d))"
      using q d sub by (intro rec) auto
    then obtain rc q' n' where r: "rec m q (i mod ?d) = Some (rc, q', n')" "bv_ok q'"
      "iSize q' = iSize q" "iDivisor q \<noteq> 0 \<longrightarrow> iDivisor q' = iDivisor q" "rc = 0 \<or> rc = 7"
      "(\<forall>k. ok k) \<longrightarrow> rc = 0" "rc = 0 \<longrightarrow> (\<forall>j < iSize q. has q' j \<longleftrightarrow> j = i mod ?d \<or> has q j)"
      "\<forall>j < iSize q. has q' j \<longrightarrow> j = i mod ?d \<or> has q j"
      by (rule set_postE)
    note r = r [unfolded q(2)]
    note new = has_with_sub [OF sub(1) p(1) bin, of _ q']
    have lt: "j mod ?d < ?d" for j using d(1) by simp
    have "has (with_sub p ?bin q') j \<longleftrightarrow> j = i \<or> has p j" if "j < sz" "rc = 0" for j
      using that new [of j] r(7) old lt [of j] div_mod_same [of j ?d i] by (auto split: if_splits)
    moreover have "has (with_sub p ?bin q') j \<longrightarrow> j = i \<or> has p j" if "j < sz" for j
      using that new [of j] r(8) old lt [of j] div_mod_same [of j ?d i] by (auto split: if_splits)
    ultimately show ?thesis
      using r(1,5,6) with_sub_ok [OF sub(1) p(1) r(2,3)] sub(1) by (auto simp: set_post_def)
  qed
  show ?thesis
  proof (cases "subs ! ?bin")
    case None
    have "set_post ok p i (map_option (\<lambda>(rc, q, n). (rc, with_sub p ?bin q, n))
        (rec m (new_bitvec ?d) (i mod ?d)))" for m
      using None d sub by (intro step) (auto simp: new_bitvec_ok has_sub)
    then show ?thesis
      using None bin sub p(1) set_post_nomem [of p ok n i]
      by (auto simp: set_sub_def sub_at_def sqlite3BitvecCreate_def bitvec_consts)
  next
    case (Some q)
    then have "Some q \<in> set subs" using bin sub(4) by (metis nth_mem)
    then have "bv_ok q" "iSize q = ?d" using sub(5) by auto
    moreover have "\<forall>j < sz. j div ?d = ?bin \<longrightarrow> (has p j \<longleftrightarrow> has q (j mod ?d))"
      using Some sub by (auto simp: has_sub)
    ultimately show ?thesis
      using step Some bin sub by (auto simp: set_sub_def sub_at_def)
  qed
qed (use p in simp_all)

definition sets_on :: "(nat \<Rightarrow> bool) \<Rightarrow> (nat \<Rightarrow> Bitvec \<Rightarrow> nat \<Rightarrow> set_result) \<Rightarrow> nat \<Rightarrow> nat \<Rightarrow> bool" where
  "sets_on ok rec sz d \<longleftrightarrow> (\<forall>n q i. bv_ok q \<and> iSize q = sz \<and> iDivisor q = d \<and> i < sz
     \<longrightarrow> set_post ok q i (rec n q i))"

lemma set_values_post:
  assumes rec: "sets_on ok rec sz d"
    and d: "d \<noteq> 0"
    and start: "bv_ok p" "iSize p = sz" "iDivisor p = d" "rc = 0 \<or> rc = 7" "\<forall>v \<in> set vs. v \<le> sz"
  shows "\<exists>r q m. set_values rec vs (rc, p, n) = Some (r, q, m) \<and> bv_ok q \<and> iSize q = sz \<and> iDivisor q = d
    \<and> (r = 0 \<or> r = 7) \<and> (rc = 0 \<longrightarrow> (\<forall>k. ok k) \<longrightarrow> r = 0)
    \<and> (r = 0 \<longrightarrow> rc = 0 \<and> (\<forall>j < sz. has q j \<longleftrightarrow> has p j \<or> j + 1 \<in> set vs))
    \<and> (\<forall>j < sz. has q j \<longrightarrow> has p j \<or> j + 1 \<in> set vs)"
  using start
proof (induction vs arbitrary: rc p n)
  case (Cons v vs)
  show ?case
  proof (cases "v = 0")
    case True
    then show ?thesis using Cons.IH [OF Cons.prems(1-4), of n] Cons.prems(5) by simp
  next
    case False
    then have v: "v - 1 < sz" "j + 1 = v \<longleftrightarrow> j = v - 1" for j using Cons.prems(5) by auto
    have "set_post ok p (v - 1) (rec n p (v - 1))"
      using Cons.prems v rec by (auto simp: sets_on_def)
    then obtain r q m where s: "rec n p (v - 1) = Some (r, q, m)" "bv_ok q" "iSize q = iSize p"
      "iDivisor p \<noteq> 0 \<longrightarrow> iDivisor q = iDivisor p" "r = 0 \<or> r = 7" "(\<forall>k. ok k) \<longrightarrow> r = 0"
      "r = 0 \<longrightarrow> (\<forall>j < iSize p. has q j \<longleftrightarrow> j = v - 1 \<or> has p j)"
      "\<forall>j < iSize p. has q j \<longrightarrow> j = v - 1 \<or> has p j"
      by (rule set_postE)
    have q: "iSize q = sz" "iDivisor q = d" using s(3,4) Cons.prems d by auto
    have vs: "\<forall>v \<in> set vs. v \<le> sz" using Cons.prems(5) by simp
    have orc: "rc OR r = 0 \<longleftrightarrow> rc = 0 \<and> r = 0" "rc OR r = 0 \<or> rc OR r = 7"
      using s(5) Cons.prems(4) by auto
    obtain r' q' m' where t: "set_values rec vs (rc OR r, q, m) = Some (r', q', m')" "bv_ok q'"
      "iSize q' = sz" "iDivisor q' = d" "r' = 0 \<or> r' = 7" "rc OR r = 0 \<longrightarrow> (\<forall>k. ok k) \<longrightarrow> r' = 0"
      "r' = 0 \<longrightarrow> rc OR r = 0 \<and> (\<forall>j < sz. has q' j \<longleftrightarrow> has q j \<or> j + 1 \<in> set vs)"
      "\<forall>j < sz. has q' j \<longrightarrow> has q j \<or> j + 1 \<in> set vs"
      using Cons.IH [OF s(2) q orc(2) vs, of m] by (elim exE conjE) (rule that)
    have sz: "iSize p = sz" by (rule Cons.prems(2))
    have 1: "r' = 0 \<longrightarrow> rc = 0 \<and> (\<forall>j < sz. has q' j \<longleftrightarrow> has p j \<or> j + 1 \<in> set (v # vs))"
      using t(7) s(7) orc(1) v(2) unfolding sz set_simps insert_iff by blast
    have 2: "\<forall>j < sz. has q' j \<longrightarrow> has p j \<or> j + 1 \<in> set (v # vs)"
      using t(8) s(8) v(2) unfolding sz set_simps insert_iff by blast
    have 3: "rc = 0 \<longrightarrow> (\<forall>k. ok k) \<longrightarrow> r' = 0" using s(6) t(6) orc(1) by metis
    have 4: "set_values rec (v # vs) (rc, p, n) = Some (r', q', m')" using t(1) s(1) False by simp
    show ?thesis
      by (intro exI [of _ r'] exI [of _ q'] exI [of _ m'] conjI) (fact 4 t(2-5) 1 2 3)+
  qed
qed auto

lemma divided_ok: "3968 < iSize p \<Longrightarrow> iSize p < 2 ^ 32 \<Longrightarrow> bv_ok (divided p) \<and> (\<forall>j < iSize p. \<not> has (divided p) j)"
proof -
  assume a: "3968 < iSize p" "iSize p < 2 ^ 32"
  have e: "divided p = Bitvec (iSize p) (nSet p) (sub_size (iSize p)) (USub (replicate 62 None))"
    using divided_simps [of p] by (simp add: divided_def Let_def)
  have "\<not> has (divided p) j" if "j < iSize p" for j
    using a that has_sub(1) [of "iSize p" "replicate 62 None" j] unfolding e by (simp add: has_sub)
  then show ?thesis using a unfolding e by simp
qed

lemma set_end_post:
  assumes t: "3968 < sz" "sz < 2 ^ 32" "table_ok ns a" "\<forall>v \<in> set a. v \<le> sz" and i: "i < sz"
    and p: "p = Bitvec sz ns 0 (UHash a)"
    and h: "h < 124" "a ! h = 0" "run_from a (i + 1) h" "i + 1 \<notin> set a" "ns < 123"
  shows "set_post ok p i (Some (0, set_end p h (i + 1), n))"
proof -
  note ins = table_insert [OF t(3) _ h(4,1,2,3,5)]
  have "\<forall>v \<in> set (a[h := i + 1]). v \<le> sz"
    using t(4) i set_update_subset_insert [of a h "i + 1"] by auto
  then show ?thesis
    using t p ins(1) ins(2) by (intro set_postI) (auto simp: set_end_def has_simps)
qed

lemma set_rehash_post:
  assumes t: "3968 < sz" "sz < 2 ^ 32" "table_ok ns a" "\<forall>v \<in> set a. v \<le> sz" and i: "i < sz"
    and p: "p = Bitvec sz ns 0 (UHash a)"
    and h: "h < 124" "a ! h = 0" "run_from a (i + 1) h" "i + 1 \<notin> set a"
    and rec: "sets_on ok rec sz (sub_size sz)"
  shows "set_post ok p i (set_rehash rec ok n p h (i + 1))"
proof (cases "ns < 62")
  case True
  then show ?thesis
    using set_end_post [OF t i p h] p by (simp add: set_rehash_def bitvec_consts)
next
  case False
  have hp: "has p j \<longleftrightarrow> j + 1 \<in> set a" for j using t p by (simp add: has_simps)
  show ?thesis
  proof (cases "ok n")
    case True
    have d: "bv_ok (divided p)" "iSize (divided p) = sz" "iDivisor (divided p) = sub_size sz"
      "\<forall>j < sz. \<not> has (divided p) j" "sub_size sz \<noteq> 0"
      using divided_ok [of p] sub_size(1) [of sz] t p by auto
    have "set_post ok (divided p) i (rec (Suc n) (divided p) i)"
      using d i rec by (simp add: sets_on_def)
    then obtain r q m where s: "rec (Suc n) (divided p) i = Some (r, q, m)" "bv_ok q"
      "iSize q = iSize (divided p)" "iDivisor (divided p) \<noteq> 0 \<longrightarrow> iDivisor q = iDivisor (divided p)"
      "r = 0 \<or> r = 7" "(\<forall>k. ok k) \<longrightarrow> r = 0"
      "r = 0 \<longrightarrow> (\<forall>j < iSize (divided p). has q j \<longleftrightarrow> j = i \<or> has (divided p) j)"
      "\<forall>j < iSize (divided p). has q j \<longrightarrow> j = i \<or> has (divided p) j"
      by (rule set_postE)
    note s = s [unfolded d(2,3)]
    have "iDivisor q = sub_size sz" using s(4) d(5) by blast
    note v = set_values_post [OF rec d(5) s(2,3) this s(5) t(4), of m]
    then obtain r' q' m' where w: "set_values rec a (r, q, m) = Some (r', q', m')" "bv_ok q'" "iSize q' = sz"
      "iDivisor q' = sub_size sz"
      "r' = 0 \<or> r' = 7" "r = 0 \<longrightarrow> (\<forall>k. ok k) \<longrightarrow> r' = 0"
      "r' = 0 \<longrightarrow> r = 0 \<and> (\<forall>j < sz. has q' j \<longleftrightarrow> has q j \<or> j + 1 \<in> set a)"
      "\<forall>j < sz. has q' j \<longrightarrow> has q j \<or> j + 1 \<in> set a"
      by (elim exE conjE) (rule that)
    have run: "set_rehash rec ok n p h (i + 1) = Some (r', q', m')"
      using False True s(1) w(1) p by (simp add: set_rehash_def bitvec_consts)
    have "r' = 0 \<longrightarrow> (\<forall>j < sz. has q' j \<longleftrightarrow> j = i \<or> has p j)"
      "\<forall>j < sz. has q' j \<longrightarrow> j = i \<or> has p j"
      using w(7,8) s(7,8) d(4) unfolding hp by blast+
    then show ?thesis
      unfolding set_post_def run using w(2-6) s(6) p by auto
  next
    case False
    then show ?thesis
      using \<open>\<not> ns < 62\<close> p t set_post_nomem [of p ok n i] by (simp add: set_rehash_def bitvec_consts)
  qed
qed

lemma set_hash_post:
  assumes p: "bv_ok p" "iDivisor p = 0" "3968 < iSize p" and i: "i < iSize p"
    and rec: "sets_on ok rec (iSize p) (sub_size (iSize p))"
  shows "set_post ok p i (set_hash rec ok n p i)"
  using p(1)
proof (cases rule: bv_ok_cases)
  case (hash sz a ns)
  let ?h = "i mod 124"
  have i': "i < sz" and rec': "sets_on ok rec sz (sub_size sz)"
    using i rec hash(1) by simp_all
  obtain k where k: "probe 124 a ?h (i + 1) = Some k" "k < 124"
    "if i + 1 \<in> set a then a ! k = i + 1 else a ! k = 0 \<and> run_from a (i + 1) k"
    using probe_value [OF hash(4), of "i + 1"] by auto
  note rehash = set_rehash_post [OF hash(2-5) i' hash(1) k(2) _ _ _ rec']
  show ?thesis
  proof (cases "a ! ?h = 0")
    case True
    have "probe 124 a ?h (i + 1) = Some ?h" using True probe.simps(2) [of 123 a ?h "i + 1"] by simp
    then have "k = ?h" using k(1) by simp
    then have "set_post ok p i (if ns < 123 then Some (0, set_end p ?h (i + 1), n)
        else set_rehash rec ok n p ?h (i + 1))"
      using k True set_end_post [OF hash(2-5) i' hash(1) k(2)] rehash by (auto split: if_splits)
    then show ?thesis
      using True unfolding hash(1)
      by (simp add: set_hash_def BITVEC_HASH_def bitvec_consts Let_def split: if_splits)
  next
    case False
    have "set_post ok p i (if a ! k = i + 1 then Some (0, p, n) else set_rehash rec ok n p k (i + 1))"
    proof (cases "i + 1 \<in> set a")
      case True
      then show ?thesis
        using k(3) p(1) hash by (auto intro!: set_postI simp: has_simps)
    next
      case False
      then show ?thesis using k(3) rehash by auto
    qed
    then show ?thesis
      using False k(1) unfolding hash(1)
      by (simp add: set_hash_def BITVEC_HASH_def bitvec_consts split: if_splits)
  qed
qed (use p sub_size(1) in auto)

lemma set_walk_post:
  assumes "bv_ok p" "i < iSize p" "iSize p \<le> 3968 * 62 ^ d"
    "if iDivisor p \<noteq> 0 then 2 * d \<le> f else 2 * d + 1 \<le> f" "f \<noteq> 0"
  shows "set_post ok p i (set_walk f ok n p i)"
  using assms
proof (induction f arbitrary: p i n d)
  case (Suc f)
  consider (small) "iSize p \<le> 3968" | (node) "3968 < iSize p" "iDivisor p \<noteq> 0"
    | (table) "3968 < iSize p" "iDivisor p = 0" by linarith
  then show ?case
  proof cases
    case small
    then show ?thesis
      using set_bitmap_post [OF Suc.prems(1) _ Suc.prems(2)] by (simp add: bitvec_consts)
  next
    case node
    have dv: "iDivisor p = sub_size (iSize p)"
      using Suc.prems(1) node by (cases rule: bv_ok_cases) simp_all
    obtain e where d: "d = Suc e" using Suc.prems(3) node(1) by (cases d) auto
    have "set_post ok q j (set_walk f ok m q j)" if "bv_ok q" "iSize q = iDivisor p" "j < iSize q" for q j m
      using that Suc.prems(3,4) node d dv sub_size(4) [OF node(1), of e]
      by (intro Suc.IH [of _ _ e]) (auto split: if_splits)
    then show ?thesis
      using node set_sub_post [OF Suc.prems(1) node(2) Suc.prems(2)] by (simp add: bitvec_consts)
  next
    case table
    have "0 < d" using Suc.prems(3) table(1) by (cases d) auto
    have rec: "set_post ok q j (set_walk f ok m q j)"
      if "bv_ok q" "iSize q = iSize p" "iDivisor q = sub_size (iSize p)" "j < iSize p" for q j m
      using that Suc.prems(3,4) table \<open>0 < d\<close> sub_size(1) [OF table(1)]
      by (intro Suc.IH [of _ _ d]) auto
    have "sets_on ok (set_walk f ok) (iSize p) (sub_size (iSize p))"
      unfolding sets_on_def using rec by blast
    then show ?thesis
      using table set_hash_post [OF Suc.prems(1) table(2,1) Suc.prems(2)] by (simp add: bitvec_consts)
  qed
qed simp

text \<open>Every size is below \<open>3968 * 62 ^ 4\<close>, so nine turns are enough.\<close>

lemma set_fuel_post:
  assumes "bv_ok p" "i < iSize p"
  shows "set_post ok p i (set_walk set_fuel ok n p i)"
  using assms bv_ok_size [OF assms(1)] by (intro set_walk_post [of _ _ 4]) (auto simp: set_fuel_def)

section \<open>Clearing a bit\<close>

lemma table_card: "table_ok ns a \<Longrightarrow> ns = card {v \<in> set a. v \<noteq> 0}"
proof -
  assume t: "table_ok ns a"
  have "{v \<in> set a. v \<noteq> 0} = (\<lambda>h. a ! h) ` used a"
    by (auto simp: used_def in_set_conv_nth)
  moreover have "inj_on (\<lambda>h. a ! h) (used a)"
    using t by (auto simp: table_ok_def used_def inj_on_def)
  ultimately show ?thesis using t by (simp add: card_image table_ok_def)
qed

text \<open>Filling a table again from values that occur once each.\<close>

definition nonzero_once :: "nat list \<Rightarrow> bool" where
  "nonzero_once vs \<longleftrightarrow> distinct (filter (\<lambda>v. v \<noteq> 0) vs)"

lemma nonzero_once_simps [simp]: "nonzero_once []"
  "nonzero_once (v # vs) \<longleftrightarrow> (v \<noteq> 0 \<longrightarrow> v \<notin> set vs) \<and> nonzero_once vs"
  by (auto simp: nonzero_once_def)

lemma table_once: "table_ok ns a \<Longrightarrow> nonzero_once a"
proof -
  assume t: "table_ok ns a"
  have "\<forall>i < length vs. \<forall>j < length vs. vs ! i \<noteq> 0 \<longrightarrow> vs ! i = vs ! j \<longrightarrow> i = j \<Longrightarrow> nonzero_once vs" for vs :: "nat list"
  proof (induction vs)
    case (Cons v vs)
    have "\<forall>i < length vs. \<forall>j < length vs. vs ! i \<noteq> 0 \<longrightarrow> vs ! i = vs ! j \<longrightarrow> i = j"
      using Cons.prems by (metis Suc_inject Suc_less_eq length_Cons nth_Cons_Suc)
    moreover have "v \<notin> set vs" if "v \<noteq> 0"
    proof
      assume "v \<in> set vs"
      then obtain j where "j < length vs" "vs ! j = v" by (auto simp: in_set_conv_nth)
      then show False using Cons.prems [rule_format, of 0 "Suc j"] that by simp
    qed
    ultimately show ?case using Cons.IH by simp
  qed simp
  then show ?thesis using t by (simp add: table_ok_def)
qed

lemma rebuild_table:
  assumes "table_ok ns a" "nonzero_once vs" "\<forall>v \<in> set vs. v \<noteq> 0 \<longrightarrow> v \<notin> set a"
    "ns + length (filter (\<lambda>v. v \<noteq> 0) vs) \<le> 123"
  shows "\<exists>ns' b. rebuild vs i (ns, a) = Some (ns', b) \<and> table_ok ns' b
    \<and> (\<forall>w. w \<noteq> 0 \<longrightarrow> (w \<in> set b \<longleftrightarrow> w \<in> set a \<or> w \<in> set vs \<and> w \<noteq> i + 1))"
  using assms
proof (induction vs arbitrary: ns a)
  case (Cons v vs)
  show ?case
  proof (cases "v = 0 \<or> v = i + 1")
    case True
    have "ns + length (filter (\<lambda>v. v \<noteq> 0) vs) \<le> 123" using Cons.prems(4) by (auto split: if_splits)
    then show ?thesis using True Cons.IH [OF Cons.prems(1)] Cons.prems(2,3) by auto
  next
    case False
    obtain d where d: "d < 124" "probe 124 a ((v - 1) mod 124) 0 = Some (((v - 1) mod 124 + d) mod 124)"
      "a ! (((v - 1) mod 124 + d) mod 124) = 0" "\<forall>e < d. a ! (((v - 1) mod 124 + e) mod 124) \<noteq> 0"
      using probe_table [OF Cons.prems(1), of "(v - 1) mod 124" 0] by auto
    define h where "h = (v - 1 + d) mod 124"
    have h: "probe 124 a ((v - 1) mod 124) 0 = Some h" "h < 124" "a ! h = 0" "run_from a v h"
      using d unfolding h_def mod_add_left_eq by (auto simp: run_from_def)
    have v: "v \<noteq> 0" "v \<notin> set a" "ns < 123" using False Cons.prems(3,4) by auto
    note ins = table_insert [OF Cons.prems(1) v(1,2) h(2-4) v(3)]
    have "\<forall>w \<in> set vs. w \<noteq> 0 \<longrightarrow> w \<notin> set (a[h := v])"
      using ins(2) Cons.prems(2,3) v(1) by auto
    then obtain ns' b where "rebuild vs i (ns + 1, a[h := v]) = Some (ns', b)" "table_ok ns' b"
      "\<forall>w. w \<noteq> 0 \<longrightarrow> (w \<in> set b \<longleftrightarrow> w \<in> set (a[h := v]) \<or> w \<in> set vs \<and> w \<noteq> i + 1)"
      using Cons.IH [OF ins(1)] Cons.prems(2,4) v(1) by auto
    then show ?thesis
      using False h(1) ins(2) by (auto simp: BITVEC_NINT_def BITVEC_HASH_def)
  qed
qed simp

lemma clear_hash_ok:
  assumes t: "3968 < sz" "sz < 2 ^ 32" "table_ok ns a" "\<forall>v \<in> set a. v \<le> sz"
  shows "\<exists>q. clear_hash (Bitvec sz ns 0 (UHash a)) i = Some q \<and> bv_ok q \<and> iSize q = sz \<and> iDivisor q = 0
    \<and> (\<forall>j. has q j \<longleftrightarrow> j \<noteq> i \<and> j + 1 \<in> set a)"
proof -
  have "length (filter (\<lambda>v. v \<noteq> 0) a) = card {v \<in> set a. v \<noteq> 0}"
    using table_once [OF t(3)] by (simp add: nonzero_once_def flip: distinct_card)
  then have "length (filter (\<lambda>v. v \<noteq> 0) a) \<le> 123"
    using table_card [OF t(3)] t(3) by (simp add: table_ok_def)
  then obtain ns' b where r: "rebuild a i (0, replicate 124 0) = Some (ns', b)" "table_ok ns' b"
    "\<forall>w. w \<noteq> 0 \<longrightarrow> (w \<in> set b \<longleftrightarrow> w \<in> set a \<and> w \<noteq> i + 1)"
    using rebuild_table [OF table_empty table_once [OF t(3)], of i] by auto
  have "v \<le> sz" if "v \<in> set b" for v
    using that r(3) t(1,4) by (cases "v = 0") auto
  then show ?thesis
    using r t by (auto simp: clear_hash_def BITVEC_NINT_def has_simps)
qed

definition clear_post :: "Bitvec \<Rightarrow> nat \<Rightarrow> Bitvec option \<Rightarrow> bool" where
  "clear_post p i r \<longleftrightarrow> (\<exists>q. r = Some q \<and> bv_ok q \<and> iSize q = iSize p
     \<and> (\<forall>j < iSize p. has q j \<longleftrightarrow> j \<noteq> i \<and> has p j))"

lemma clear_walk_post: "bv_ok p \<Longrightarrow> i < iSize p \<Longrightarrow> clear_post p i (clear_walk p i)"
proof (induction arbitrary: i rule: bv_ok.induct)
  case (ok_bitmap sz a ns)
  then show ?case
    by (subst clear_walk.simps)
      (simp add: clear_post_def clear_bitmap_def bitvec_consts has_simps bitmap_bit_update del: push_bit_of_1)
next
  case (ok_hash sz ns a)
  then show ?case
    using clear_hash_ok [OF ok_hash.hyps, of i]
    by (subst clear_walk.simps) (auto simp: clear_post_def bitvec_consts has_simps)
next
  case (ok_sub sz subs ns)
  let ?p = "Bitvec sz ns (sub_size sz) (USub subs)" and ?d = "sub_size sz" and ?bin = "i div sub_size sz"
  have p: "bv_ok ?p" using ok_sub.hyps ok_sub.IH by simp
  have d: "0 < ?d" using sub_size(1) [OF ok_sub.hyps(1)] by simp
  have i: "i < sz" using ok_sub.prems by simp
  note bin = has_sub(1) [OF ok_sub.hyps(1,3) i]
  show ?case
  proof (cases "subs ! ?bin")
    case None
    then have "clear_walk ?p i = Some ?p"
      using d by (subst clear_walk.simps) (simp add: sub_at_def)
    moreover have "\<not> has ?p i" using None ok_sub.hyps i by (simp add: has_sub)
    ultimately show ?thesis using p by (auto simp: clear_post_def)
  next
    case (Some q)
    then have "Some q \<in> set subs" using bin ok_sub.hyps(3) by (metis nth_mem)
    then have q: "bv_ok q" "iSize q = ?d" "clear_post q (i mod ?d) (clear_walk q (i mod ?d))"
      using ok_sub.IH d by auto
    then obtain r where r: "clear_walk q (i mod ?d) = Some r" "bv_ok r" "iSize r = ?d"
      "\<forall>j < ?d. has r j \<longleftrightarrow> j \<noteq> i mod ?d \<and> has q j"
      by (auto simp: clear_post_def)
    have "clear_walk ?p i = Some (with_sub ?p ?bin r)"
      using Some r(1) d bin ok_sub.hyps(3) by (subst clear_walk.simps) (simp add: sub_at_def)
    moreover have "has (with_sub ?p ?bin r) j \<longleftrightarrow> j \<noteq> i \<and> has ?p j" if "j < sz" for j
    proof -
      have "j mod ?d < ?d" using d by simp
      then show ?thesis
        using has_with_sub [OF refl p bin that, of r] r(4) has_sub(2) [OF ok_sub.hyps(1,3) that, of ns] Some
          div_mod_same [of j ?d i] by (cases "j div ?d = ?bin") auto
    qed
    ultimately show ?thesis
      using with_sub_ok [OF refl p r(2,3), of ?bin] by (simp add: clear_post_def)
  qed
qed

section \<open>The interface: a set of the numbers from 1 to a capacity\<close>

locale bounded_set =
  fixes inv :: "'s \<Rightarrow> bool"
    and cap :: "'s \<Rightarrow> nat"
    and mem :: "'s \<Rightarrow> nat \<Rightarrow> bool option"
    and ins :: "'s \<Rightarrow> nat \<Rightarrow> 's option"
    and del :: "'s \<Rightarrow> nat \<Rightarrow> 's option"
    and new :: "nat \<Rightarrow> 's"
  assumes mem_total: "inv s \<Longrightarrow> i < 2 ^ 32 \<Longrightarrow> mem s i \<noteq> None"
    and mem_outside: "inv s \<Longrightarrow> i < 2 ^ 32 \<Longrightarrow> i = 0 \<or> cap s < i \<Longrightarrow> mem s i = Some False"
    and cap_bound: "inv s \<Longrightarrow> cap s < 2 ^ 32"
    and ins_law: "inv s \<Longrightarrow> 0 < i \<Longrightarrow> i \<le> cap s \<Longrightarrow> \<exists>t. ins s i = Some t \<and> inv t \<and> cap t = cap s
      \<and> (\<forall>j \<in> {1..cap s}. mem t j = (if j = i then Some True else mem s j))"
    and del_law: "inv s \<Longrightarrow> 0 < i \<Longrightarrow> i \<le> cap s \<Longrightarrow> \<exists>t. del s i = Some t \<and> inv t \<and> cap t = cap s
      \<and> (\<forall>j \<in> {1..cap s}. mem t j = (if j = i then Some False else mem s j))"
    and new_law: "n < 2 ^ 32 \<Longrightarrow> inv (new n) \<and> cap (new n) = n \<and> (\<forall>j \<in> {1..n}. mem (new n) j = Some False)"
begin

definition elems :: "'s \<Rightarrow> nat set" where
  "elems s = {i \<in> {1..cap s}. mem s i = Some True}"

lemma ins_elems:
  assumes "inv s" "0 < i" "i \<le> cap s"
  obtains t where "ins s i = Some t" "inv t" "cap t = cap s" "elems t = insert i (elems s)"
proof -
  from ins_law [OF assms] obtain t where t: "ins s i = Some t" "inv t" "cap t = cap s"
    "\<forall>j \<in> {1..cap s}. mem t j = (if j = i then Some True else mem s j)" by auto
  then have "elems t = insert i (elems s)" using assms(2,3) by (auto simp: elems_def)
  with t show thesis by (auto intro: that)
qed

lemma del_elems:
  assumes "inv s" "0 < i" "i \<le> cap s"
  obtains t where "del s i = Some t" "inv t" "cap t = cap s" "elems t = elems s - {i}"
proof -
  from del_law [OF assms] obtain t where t: "del s i = Some t" "inv t" "cap t = cap s"
    "\<forall>j \<in> {1..cap s}. mem t j = (if j = i then Some False else mem s j)" by auto
  have "x \<in> elems t \<longleftrightarrow> x \<in> elems s - {i}" for x
    using t(3) t(4) [rule_format, of x] by (cases "x \<in> {1..cap s}"; cases "x = i") (auto simp: elems_def)
  then have "elems t = elems s - {i}" by blast
  with t show thesis by (auto intro: that)
qed

lemma new_elems: "n < 2 ^ 32 \<Longrightarrow> elems (new n) = {}"
  using new_law [of n] by (auto simp: elems_def)

lemma mem_elems: "inv s \<Longrightarrow> i < 2 ^ 32 \<Longrightarrow> mem s i = Some (i \<in> elems s)"
  using mem_total [of s i] mem_outside [of s i] by (cases "i \<in> {1..cap s}") (auto simp: elems_def)

text \<open>A run of insertions (True) and deletions (False) is the run on the reference set.\<close>

fun run_ops :: "(bool \<times> nat) list \<Rightarrow> 's \<Rightarrow> 's option" where
  "run_ops [] s = Some s"
| "run_ops ((b, i) # ops) s = Option.bind (if b then ins s i else del s i) (run_ops ops)"

fun ref_ops :: "(bool \<times> nat) list \<Rightarrow> nat set \<Rightarrow> nat set" where
  "ref_ops [] S = S"
| "ref_ops ((b, i) # ops) S = ref_ops ops (if b then insert i S else S - {i})"

lemma run_ops_ref:
  "inv s \<Longrightarrow> \<forall>(b, i) \<in> set ops. 0 < i \<and> i \<le> cap s \<Longrightarrow>
    \<exists>t. run_ops ops s = Some t \<and> inv t \<and> cap t = cap s \<and> elems t = ref_ops ops (elems s)"
proof (induction ops arbitrary: s)
  case (Cons a ops)
  obtain b i where a: "a = (b, i)" by (cases a)
  have i: "0 < i" "i \<le> cap s" using Cons.prems a by auto
  obtain t where "(if b then ins s i else del s i) = Some t" "inv t" "cap t = cap s"
    "elems t = (if b then insert i (elems s) else elems s - {i})"
  proof (cases b)
    case True
    with that show thesis by (auto intro: ins_elems [OF Cons.prems(1) i])
  next
    case False
    with that show thesis by (auto intro: del_elems [OF Cons.prems(1) i])
  qed
  then show ?case using Cons.IH [of t] Cons.prems(2) a by auto
qed simp

end

text \<open>The operations when no allocation fails.\<close>

definition set_ok :: "Bitvec \<Rightarrow> nat \<Rightarrow> Bitvec option" where
  "set_ok p i = (case sqlite3BitvecSet (\<lambda>k. True) 0 (Some p) i of
     Some (rc, q, n) \<Rightarrow> if rc = SQLITE_OK then q else None | None \<Rightarrow> None)"

definition clear_ok :: "Bitvec \<Rightarrow> nat \<Rightarrow> Bitvec option" where
  "clear_ok p i = Option.bind (sqlite3BitvecClear (Some p) i) id"

lemma Test_has: "bv_ok p \<Longrightarrow> i < 2 ^ 32 \<Longrightarrow> sqlite3BitvecTest (Some p) i
    = Some (0 < i \<and> i \<le> iSize p \<and> has p (i - 1))"
proof -
  assume p: "bv_ok p" "i < 2 ^ 32"
  note sz = bv_ok_size [OF p(1)]
  show ?thesis
  proof (cases i)
    case 0
    then show ?thesis using sz by (simp add: sqlite3BitvecTest_def sqlite3BitvecTestNotNull_def)
  next
    case (Suc k)
    then have "(i + 2 ^ 32 - 1) mod 2 ^ 32 = k" using p(2) by simp
    then show ?thesis
      using Suc test_total [OF p(1), of k]
      by (auto simp: sqlite3BitvecTest_def sqlite3BitvecTestNotNull_def Let_def)
  qed
qed

text \<open>Setting and clearing through the outer functions, for any outcome of the allocations.\<close>

lemma BitvecSet_result:
  assumes p: "bv_ok p" and i: "0 < i" "i \<le> iSize p"
  obtains rc q m where "sqlite3BitvecSet ok n (Some p) i = Some (rc, Some q, m)" "bv_ok q"
    "iSize q = iSize p" "rc = 0 \<or> rc = 7" "(\<forall>k. ok k) \<longrightarrow> rc = 0"
    "rc = 0 \<longrightarrow> (\<forall>j \<in> {1..iSize p}. has q (j - 1) \<longleftrightarrow> j = i \<or> has p (j - 1))"
    "\<forall>j \<in> {1..iSize p}. has q (j - 1) \<longrightarrow> j = i \<or> has p (j - 1)"
proof -
  have k: "i - 1 < iSize p" using i by simp
  obtain rc q m where r: "set_walk set_fuel ok n p (i - 1) = Some (rc, q, m)" "bv_ok q"
    "iSize q = iSize p" "iDivisor p \<noteq> 0 \<longrightarrow> iDivisor q = iDivisor p" "rc = 0 \<or> rc = 7"
    "(\<forall>k. ok k) \<longrightarrow> rc = 0"
    "rc = 0 \<longrightarrow> (\<forall>j < iSize p. has q j \<longleftrightarrow> j = i - 1 \<or> has p j)"
    "\<forall>j < iSize p. has q j \<longrightarrow> j = i - 1 \<or> has p j"
    using set_fuel_post [OF p k, of ok n] by (rule set_postE)
  have e: "j - 1 = i - 1 \<longleftrightarrow> j = i" "j - 1 < iSize p" if "j \<in> {1..iSize p}" for j
    using that i by auto
  show thesis
  proof (rule that)
    show "sqlite3BitvecSet ok n (Some p) i = Some (rc, Some q, m)"
      using r(1) by (simp add: sqlite3BitvecSet_def)
    show "rc = 0 \<longrightarrow> (\<forall>j \<in> {1..iSize p}. has q (j - 1) \<longleftrightarrow> j = i \<or> has p (j - 1))"
      using r(7) e by auto
    show "\<forall>j \<in> {1..iSize p}. has q (j - 1) \<longrightarrow> j = i \<or> has p (j - 1)"
    proof
      fix j assume j: "j \<in> {1..iSize p}"
      show "has q (j - 1) \<longrightarrow> j = i \<or> has p (j - 1)"
        using r(8) e [OF j] by blast
    qed
  qed (fact r)+
qed

lemma BitvecClear_result:
  assumes p: "bv_ok p" and i: "0 < i" "i \<le> iSize p"
  obtains q where "sqlite3BitvecClear (Some p) i = Some (Some q)" "bv_ok q" "iSize q = iSize p"
    "\<forall>j \<in> {1..iSize p}. has q (j - 1) \<longleftrightarrow> j \<noteq> i \<and> has p (j - 1)"
proof -
  have k: "i - 1 < iSize p" using i by simp
  obtain q where r: "clear_walk p (i - 1) = Some q" "bv_ok q" "iSize q = iSize p"
    "\<forall>j < iSize p. has q j \<longleftrightarrow> j \<noteq> i - 1 \<and> has p j"
    using clear_walk_post [OF p k] by (auto simp: clear_post_def)
  have e: "j - 1 = i - 1 \<longleftrightarrow> j = i" "j - 1 < iSize p" if "j \<in> {1..iSize p}" for j
    using that i by auto
  show thesis
    by (rule that [of q]) (use r e in \<open>auto simp: sqlite3BitvecClear_def\<close>)
qed

interpretation bv: bounded_set bv_ok iSize "\<lambda>p. sqlite3BitvecTest (Some p)" set_ok clear_ok new_bitvec
proof
  fix s :: Bitvec and i n :: nat
  show "bv_ok s \<Longrightarrow> i < 2 ^ 32 \<Longrightarrow> sqlite3BitvecTest (Some s) i \<noteq> None"
    by (simp add: Test_has)
  show "bv_ok s \<Longrightarrow> i < 2 ^ 32 \<Longrightarrow> i = 0 \<or> iSize s < i \<Longrightarrow> sqlite3BitvecTest (Some s) i = Some False"
    by (auto simp: Test_has)
  show "bv_ok s \<Longrightarrow> iSize s < 2 ^ 32" by (rule bv_ok_size)
  show "n < 2 ^ 32 \<Longrightarrow> bv_ok (new_bitvec n) \<and> iSize (new_bitvec n) = n
      \<and> (\<forall>j \<in> {1..n}. sqlite3BitvecTest (Some (new_bitvec n)) j = Some False)"
    by (auto simp: new_bitvec_ok Test_has)
next
  fix s :: Bitvec and i :: nat
  assume s: "bv_ok s" "0 < i" "i \<le> iSize s"
  note sz = bv_ok_size [OF s(1)]
  obtain rc q m where r: "sqlite3BitvecSet (\<lambda>k. True) 0 (Some s) i = Some (rc, Some q, m)" "bv_ok q"
    "iSize q = iSize s" "rc = 0 \<or> rc = 7" "(\<forall>k :: nat. True) \<longrightarrow> rc = 0"
    "rc = 0 \<longrightarrow> (\<forall>j \<in> {1..iSize s}. has q (j - 1) \<longleftrightarrow> j = i \<or> has s (j - 1))"
    "\<forall>j \<in> {1..iSize s}. has q (j - 1) \<longrightarrow> j = i \<or> has s (j - 1)"
    by (rule BitvecSet_result [OF s, where ok = "\<lambda>k. True" and n = 0])
  then have "set_ok s i = Some q" by (simp add: set_ok_def SQLITE_OK_def)
  moreover have "\<forall>j \<in> {1..iSize s}. sqlite3BitvecTest (Some q) j
      = (if j = i then Some True else sqlite3BitvecTest (Some s) j)"
    using r(2,3,5,6) s sz by (auto simp: Test_has)
  ultimately show "\<exists>t. set_ok s i = Some t \<and> bv_ok t \<and> iSize t = iSize s
      \<and> (\<forall>j \<in> {1..iSize s}. sqlite3BitvecTest (Some t) j
        = (if j = i then Some True else sqlite3BitvecTest (Some s) j))"
    using r(2,3) by auto
  obtain q where c: "sqlite3BitvecClear (Some s) i = Some (Some q)" "bv_ok q" "iSize q = iSize s"
    "\<forall>j \<in> {1..iSize s}. has q (j - 1) \<longleftrightarrow> j \<noteq> i \<and> has s (j - 1)"
    by (rule BitvecClear_result [OF s])
  then have "clear_ok s i = Some q" by (simp add: clear_ok_def)
  moreover have "\<forall>j \<in> {1..iSize s}. sqlite3BitvecTest (Some q) j
      = (if j = i then Some False else sqlite3BitvecTest (Some s) j)"
    using c(2-4) s sz by (auto simp: Test_has)
  ultimately show "\<exists>t. clear_ok s i = Some t \<and> bv_ok t \<and> iSize t = iSize s
      \<and> (\<forall>j \<in> {1..iSize s}. sqlite3BitvecTest (Some t) j
        = (if j = i then Some False else sqlite3BitvecTest (Some s) j))"
    using c(2,3) by auto
qed

section \<open>The built-in test, a client of the interface\<close>

text \<open>
  \<open>sqlite3BitvecBuiltinTest\<close> runs a program of opcodes on a bitmap and on a linear array of bits
  and compares the two. \<open>rnd k\<close> is the k-th number it draws; its state is the program, which
  it modifies, the program counter, the numbers drawn and the two sets.
\<close>

record builtin =
  aOp :: "int list"
  pc :: nat
  drawn :: nat
  pV :: "byte list"
  pBitvec :: Bitvec
  allocs :: nat

definition SETBIT :: "byte list \<Rightarrow> nat \<Rightarrow> byte list" where
  "SETBIT V i = V[i div 8 := V ! (i div 8) OR push_bit (i AND 7) 1]"

definition CLEARBIT :: "byte list \<Rightarrow> nat \<Rightarrow> byte list" where
  "CLEARBIT V i = V[i div 8 := V ! (i div 8) AND NOT (push_bit (i AND 7) 1)]"

definition TESTBIT :: "byte list \<Rightarrow> nat \<Rightarrow> bool" where
  "TESTBIT V i \<longleftrightarrow> V ! (i div 8) AND push_bit (i AND 7) 1 \<noteq> 0"

text \<open>The switch: the size of the instruction, the number and the state with the operands updated.\<close>

definition builtin_fetch :: "(nat \<Rightarrow> int) \<Rightarrow> builtin \<Rightarrow> nat \<times> int \<times> builtin" where
  "builtin_fetch rnd s =
     (if aOp s ! pc s \<in> {1, 2, 5} then
        (4, aOp s ! (pc s + 2) - 1,
         s\<lparr>aOp := (aOp s)[pc s + 2 := to_int32 (aOp s ! (pc s + 2) + aOp s ! (pc s + 3))]\<rparr>)
      else (2, rnd (drawn s), s\<lparr>drawn := drawn s + 1\<rparr>))"

text \<open>The rest of one turn of the loop; the left value is the early exit with \<open>rc\<close> still -1.\<close>

definition builtin_apply :: "(nat \<Rightarrow> bool) \<Rightarrow> int \<Rightarrow> nat \<Rightarrow> builtin \<Rightarrow> (int + builtin) option" where
  "builtin_apply ok op i s =
     (if odd op then
        let s = s\<lparr>pV := SETBIT (pV s) (i + 1)\<rparr> in
        if op \<noteq> 5 then
          (case sqlite3BitvecSet ok (allocs s) (Some (pBitvec s)) (i + 1) of
             Some (rc, Some q, n) \<Rightarrow>
               if rc \<noteq> SQLITE_OK then Some (Inl (-1)) else Some (Inr (s\<lparr>pBitvec := q, allocs := n\<rparr>))
           | _ \<Rightarrow> None)
        else Some (Inr s)
      else
        let s = s\<lparr>pV := CLEARBIT (pV s) (i + 1)\<rparr> in
        (case sqlite3BitvecClear (Some (pBitvec s)) (i + 1) of
           Some (Some q) \<Rightarrow> Some (Inr (s\<lparr>pBitvec := q\<rparr>)) | _ \<Rightarrow> None))"

definition builtin_step :: "(nat \<Rightarrow> bool) \<Rightarrow> (nat \<Rightarrow> int) \<Rightarrow> int \<Rightarrow> builtin \<Rightarrow> (int + builtin) option" where
  "builtin_step ok rnd sz s =
     (let op = aOp s ! pc s;
          (nx, i, s) = builtin_fetch rnd s;
          left = to_int32 (aOp s ! (pc s + 1) - 1);
          nx = (if left > 0 then 0 else nx);
          i = (i AND 0x7fffffff) mod sz
      in builtin_apply ok op (nat i) (s\<lparr>aOp := (aOp s)[pc s + 1 := left], pc := pc s + nx\<rparr>))"

partial_function (option) builtin_loop ::
    "(nat \<Rightarrow> bool) \<Rightarrow> (nat \<Rightarrow> int) \<Rightarrow> int \<Rightarrow> builtin \<Rightarrow> (int + builtin) option" where
  "builtin_loop ok rnd sz s =
     (if aOp s ! pc s = 0 then Some (Inr s)
      else Option.bind (builtin_step ok rnd sz s)
        (\<lambda>r. case r of Inl rc \<Rightarrow> Some (Inl rc) | Inr s \<Rightarrow> builtin_loop ok rnd sz s))"

definition test_int :: "Bitvec option \<Rightarrow> int \<Rightarrow> int" where
  "test_int p i = (if sqlite3BitvecTest p (nat i) = Some True then 1 else 0)"

definition builtin_compare :: "int \<Rightarrow> builtin \<Rightarrow> int" where
  "builtin_compare sz s =
     (let p = Some (pBitvec s) in
      case find (\<lambda>i. TESTBIT (pV s) (nat i) \<noteq> (test_int p i = 1)) [1..sz] of
        Some i \<Rightarrow> i
      | None \<Rightarrow> test_int None 0 + test_int p (sz + 1) + test_int p 0
          + (int (sqlite3BitvecSize (pBitvec s)) - sz))"

definition sqlite3BitvecBuiltinTest :: "(nat \<Rightarrow> bool) \<Rightarrow> (nat \<Rightarrow> int) \<Rightarrow> int \<Rightarrow> int list \<Rightarrow> int option" where
  "sqlite3BitvecBuiltinTest ok rnd sz ops =
     (case sqlite3BitvecCreate ok 0 (nat sz) of
        (Some p, n) \<Rightarrow>
          if \<not> ok n \<or> \<not> ok (n + 1) then Some (-1)
          else (case builtin_loop ok rnd sz
                  \<lparr>aOp = ops, pc = 0, drawn = 0, pV = replicate (nat ((7 + sz) div 8 + 1)) 0,
                   pBitvec = p, allocs = n + 2\<rparr> of
              None \<Rightarrow> None | Some (Inl rc) \<Rightarrow> Some rc | Some (Inr s) \<Rightarrow> Some (builtin_compare sz s))
      | (None, n) \<Rightarrow> Some (-1))"

text \<open>The two sets agree, and are of the size the test was started with.\<close>

definition agree :: "int \<Rightarrow> builtin \<Rightarrow> bool" where
  "agree sz s \<longleftrightarrow> bv_ok (pBitvec s) \<and> int (iSize (pBitvec s)) = sz
     \<and> length (pV s) = nat ((7 + sz) div 8 + 1)
     \<and> (\<forall>j \<in> {1..nat sz}. TESTBIT (pV s) j \<longleftrightarrow> j \<in> bv.elems (pBitvec s))"

lemma elems_has: "bv_ok p \<Longrightarrow> j \<in> bv.elems p \<longleftrightarrow> j \<in> {1..iSize p} \<and> has p (j - 1)"
  using bv_ok_size [of p] by (auto simp: bv.elems_def Test_has)

lemma builtin_apply_agree:
  assumes ok: "\<forall>k. ok k" and a: "agree sz s" and i: "int i < sz" and op: "op \<noteq> 5"
  obtains t where "builtin_apply ok op i s = Some (Inr t)" "agree sz t" "aOp t = aOp s" "pc t = pc s"
proof -
  let ?p = "pBitvec s"
  have p: "bv_ok ?p" "iSize ?p = nat sz" and len: "length (pV s) = nat ((7 + sz) div 8 + 1)"
    and eq: "\<And>j. j \<in> {1..nat sz} \<Longrightarrow> TESTBIT (pV s) j \<longleftrightarrow> has ?p (j - 1)"
    using a by (auto simp: agree_def elems_has)
  have i1: "0 < i + 1" "i + 1 \<le> iSize ?p" using i p(2) by auto
  have b: "(i + 1) div 8 < length (pV s)" unfolding len using i by auto
  note upd = bitmap_bit_update [OF b, folded SETBIT_def CLEARBIT_def, unfolded bitmap_bit_def,
      folded TESTBIT_def]
  show thesis
  proof (cases "odd op")
    case True
    obtain rc q m where r: "sqlite3BitvecSet ok (allocs s) (Some ?p) (i + 1) = Some (rc, Some q, m)" "bv_ok q"
      "iSize q = iSize ?p" "rc = 0 \<or> rc = 7" "(\<forall>k. ok k) \<longrightarrow> rc = 0"
      "rc = 0 \<longrightarrow> (\<forall>j \<in> {1..iSize ?p}. has q (j - 1) \<longleftrightarrow> j = i + 1 \<or> has ?p (j - 1))"
      "\<forall>j \<in> {1..iSize ?p}. has q (j - 1) \<longrightarrow> j = i + 1 \<or> has ?p (j - 1)"
      by (rule BitvecSet_result [OF p(1) i1, where ok = ok and n = "allocs s"])
    have rc: "rc = 0" using r(5) ok by simp
    let ?t = "s\<lparr>pV := SETBIT (pV s) (i + 1), pBitvec := q, allocs := m\<rparr>"
    have "j \<in> bv.elems q \<longleftrightarrow> j = i + 1 \<or> has ?p (j - 1)" if "j \<in> {1..nat sz}" for j
      using that r(2,3,6) rc p(2) by (simp add: elems_has)
    then have "agree sz ?t"
      using a r(2,3) eq upd(1) by (simp add: agree_def SETBIT_def)
    moreover have "builtin_apply ok op i s = Some (Inr ?t)"
      using True op r(1) rc by (simp add: builtin_apply_def SQLITE_OK_def)
    ultimately show thesis using that by simp
  next
    case False
    obtain q where c: "sqlite3BitvecClear (Some ?p) (i + 1) = Some (Some q)" "bv_ok q" "iSize q = iSize ?p"
      "\<forall>j \<in> {1..iSize ?p}. has q (j - 1) \<longleftrightarrow> j \<noteq> i + 1 \<and> has ?p (j - 1)"
      by (rule BitvecClear_result [OF p(1) i1])
    let ?t = "s\<lparr>pV := CLEARBIT (pV s) (i + 1), pBitvec := q\<rparr>"
    have "j \<in> bv.elems q \<longleftrightarrow> j \<noteq> i + 1 \<and> has ?p (j - 1)" if "j \<in> {1..nat sz}" for j
      using that c(2-4) p(2) by (simp add: elems_has)
    then have "agree sz ?t"
      using a c(2,3) eq upd(2) by (simp add: agree_def CLEARBIT_def)
    moreover have "builtin_apply ok op i s = Some (Inr ?t)"
      using False c(1) by (simp add: builtin_apply_def)
    ultimately show thesis using that by simp
  qed
qed

lemma builtin_step_agree:
  assumes ok: "\<forall>k. ok k" and a: "agree sz s" and sz: "0 < sz" and op: "aOp s ! pc s \<noteq> 5"
    and f: "builtin_fetch rnd s = (nx, v, s')"
  obtains t where "builtin_step ok rnd sz s = Some (Inr t)" "agree sz t"
    "aOp t = (aOp s')[pc s + 1 := to_int32 (aOp s' ! (pc s + 1) - 1)]"
    "pc t = pc s + (if to_int32 (aOp s' ! (pc s + 1) - 1) > 0 then 0 else nx)"
proof -
  let ?left = "to_int32 (aOp s' ! (pc s + 1) - 1)"
  let ?s = "s'\<lparr>aOp := (aOp s')[pc s + 1 := ?left], pc := pc s + (if ?left > 0 then 0 else nx)\<rparr>"
  have s': "pc s' = pc s" "pV s' = pV s" "pBitvec s' = pBitvec s"
    using f by (auto simp: builtin_fetch_def split: if_splits)
  then have "agree sz ?s" using a by (simp add: agree_def)
  moreover have "int (nat ((v AND 0x7fffffff) mod sz)) < sz"
    using sz by simp
  ultimately obtain t where "builtin_apply ok (aOp s ! pc s) (nat ((v AND 0x7fffffff) mod sz)) ?s = Some (Inr t)"
    "agree sz t" "aOp t = aOp ?s" "pc t = pc ?s"
    using op by (rule builtin_apply_agree [OF ok])
  then show thesis
    using that f s' by (simp add: builtin_step_def)
qed

lemma run_linear:
  assumes ok: "\<forall>k. ok k" and sz: "0 < sz"
    and "aOp s = pre @ [op, n, a, x] @ rest" "pc s = length pre" "op \<in> {1, 2}" "agree sz s"
    "-2147483648 < n" "n \<le> 2147483647"
  shows "\<exists>t n' a'. builtin_loop ok rnd sz s = builtin_loop ok rnd sz t
    \<and> aOp t = (pre @ [op, n', a', x]) @ rest \<and> pc t = length (pre @ [op, n', a', x]) \<and> agree sz t"
  using assms(3-)
proof (induction "nat n" arbitrary: s n a rule: less_induct)
  case less
  let ?a = "to_int32 (a + x)"
  have at: "aOp s ! pc s = op" "aOp s ! (pc s + 1) = n" "aOp s ! (pc s + 2) = a" "aOp s ! (pc s + 3) = x"
    using less.prems(1,2) by (simp_all add: nth_append)
  have f: "builtin_fetch rnd s = (4, a - 1, s\<lparr>aOp := pre @ [op, n, ?a, x] @ rest\<rparr>)"
    using less.prems(1-3) at by (auto simp: builtin_fetch_def list_update_append)
  have op: "aOp s ! pc s \<noteq> 5" "op \<noteq> 0" using at less.prems(3) by auto
  have n: "to_int32 (n - 1) = n - 1" using less.prems(5,6) by simp
  obtain t where t: "builtin_step ok rnd sz s = Some (Inr t)" "agree sz t"
    "aOp t = pre @ [op, n - 1, ?a, x] @ rest" "pc t = length pre + (if n - 1 > 0 then 0 else 4)"
    using builtin_step_agree [OF ok less.prems(4) sz op(1) f] less.prems(2) n
    by (auto simp: nth_append list_update_append)
  have loop: "builtin_loop ok rnd sz s = builtin_loop ok rnd sz t"
    using t(1) at op(2) by (subst builtin_loop.simps) simp
  show ?case
  proof (cases "n - 1 > 0")
    case True
    then show ?thesis
      using less.hyps [of "n - 1" t ?a] t less.prems(3,5,6) loop by auto
  next
    case False
    then show ?thesis
      using t loop by (intro exI [of _ t] exI [of _ "n - 1"] exI [of _ ?a]) simp
  qed
qed

lemma run_random:
  assumes ok: "\<forall>k. ok k" and sz: "0 < sz"
    and "aOp s = pre @ [op, n] @ rest" "pc s = length pre" "op \<in> {3, 4}" "agree sz s"
    "-2147483648 < n" "n \<le> 2147483647"
  shows "\<exists>t n'. builtin_loop ok rnd sz s = builtin_loop ok rnd sz t
    \<and> aOp t = (pre @ [op, n']) @ rest \<and> pc t = length (pre @ [op, n']) \<and> agree sz t"
  using assms(3-)
proof (induction "nat n" arbitrary: s n rule: less_induct)
  case less
  have at: "aOp s ! pc s = op" "aOp s ! (pc s + 1) = n"
    using less.prems(1,2) by (simp_all add: nth_append)
  have f: "builtin_fetch rnd s = (2, rnd (drawn s), s\<lparr>drawn := drawn s + 1\<rparr>)"
    using less.prems(3) at by (auto simp: builtin_fetch_def)
  have op: "aOp s ! pc s \<noteq> 5" "op \<noteq> 0" using at less.prems(3) by auto
  have n: "to_int32 (n - 1) = n - 1" using less.prems(5,6) by simp
  obtain t where t: "builtin_step ok rnd sz s = Some (Inr t)" "agree sz t"
    "aOp t = pre @ [op, n - 1] @ rest" "pc t = length pre + (if n - 1 > 0 then 0 else 2)"
    using builtin_step_agree [OF ok less.prems(4) sz op(1) f] less.prems(1,2) n
    by (auto simp: nth_append list_update_append)
  have loop: "builtin_loop ok rnd sz s = builtin_loop ok rnd sz t"
    using t(1) at op(2) by (subst builtin_loop.simps) simp
  show ?case
  proof (cases "n - 1 > 0")
    case True
    then show ?thesis
      using less.hyps [of "n - 1" t] t less.prems(3,5,6) loop by auto
  next
    case False
    then show ?thesis
      using t loop by (intro exI [of _ t] exI [of _ "n - 1"]) simp
  qed
qed

text \<open>Programs of the four opcodes the two sets both follow.\<close>

datatype instr = Linear bool int int int | Random bool int

fun encode :: "instr \<Rightarrow> int list" where
  "encode (Linear b n a x) = [if b then 1 else 2, n, a, x]"
| "encode (Random b n) = [if b then 3 else 4, n]"

fun count_ok :: "instr \<Rightarrow> bool" where
  "count_ok (Linear b n a x) \<longleftrightarrow> -2147483648 < n \<and> n \<le> 2147483647"
| "count_ok (Random b n) \<longleftrightarrow> -2147483648 < n \<and> n \<le> 2147483647"

lemma run_instr:
  assumes "\<forall>k. ok k" "0 < sz" "aOp s = pre @ encode ins @ rest" "pc s = length pre" "agree sz s" "count_ok ins"
  shows "\<exists>t pre'. builtin_loop ok rnd sz s = builtin_loop ok rnd sz t \<and> aOp t = pre' @ rest
    \<and> pc t = length pre' \<and> agree sz t"
proof (cases ins)
  case (Linear b n a x)
  let ?op = "if b then 1 else 2 :: int"
  have "\<exists>t n' a'. builtin_loop ok rnd sz s = builtin_loop ok rnd sz t
    \<and> aOp t = (pre @ [?op, n', a', x]) @ rest \<and> pc t = length (pre @ [?op, n', a', x]) \<and> agree sz t"
    using assms(3-) Linear by (intro run_linear [OF assms(1,2), of _ _ _ n a]) auto
  then show ?thesis by blast
next
  case (Random b n)
  let ?op = "if b then 3 else 4 :: int"
  have "\<exists>t n'. builtin_loop ok rnd sz s = builtin_loop ok rnd sz t
    \<and> aOp t = (pre @ [?op, n']) @ rest \<and> pc t = length (pre @ [?op, n']) \<and> agree sz t"
    using assms(3-) Random by (intro run_random [OF assms(1,2), of _ _ _ n]) auto
  then show ?thesis by blast
qed

lemma run_program:
  assumes "\<forall>k. ok k" "0 < sz" "list_all count_ok prog" "agree sz s"
    "aOp s = pre @ concat (map encode prog) @ [0]" "pc s = length pre"
  shows "\<exists>t. builtin_loop ok rnd sz s = Some (Inr t) \<and> agree sz t"
  using assms(3-)
proof (induction prog arbitrary: s pre)
  case Nil
  then show ?case by (intro exI [of _ s]) (subst builtin_loop.simps, simp)
next
  case (Cons ins prog)
  obtain t pre' where "builtin_loop ok rnd sz s = builtin_loop ok rnd sz t"
    "aOp t = pre' @ concat (map encode prog) @ [0]" "pc t = length pre'" "agree sz t"
    using run_instr [OF assms(1,2), of s pre ins "concat (map encode prog) @ [0]" rnd] Cons.prems by auto
  then show ?case using Cons.IH [of t pre'] Cons.prems(1) by auto
qed

lemma builtin_compare_agree:
  assumes a: "agree sz s" and sz: "0 < sz" "sz < 2147483648"
  shows "builtin_compare sz s = 0"
proof -
  let ?p = "pBitvec s"
  have p: "bv_ok ?p" "int (iSize ?p) = sz" "\<forall>j \<in> {1..nat sz}. TESTBIT (pV s) j \<longleftrightarrow> j \<in> bv.elems ?p"
    using a by (auto simp: agree_def)
  have "TESTBIT (pV s) (nat i) \<longleftrightarrow> test_int (Some ?p) i = 1" if i: "i \<in> {1..sz}" for i
  proof -
    have "nat i \<in> {1..nat sz}" "nat i < 2 ^ 32" using i sz by auto
    then show ?thesis using p(3) bv.mem_elems [OF p(1), of "nat i"] by (simp add: test_int_def)
  qed
  then have "find (\<lambda>i. TESTBIT (pV s) (nat i) \<noteq> (test_int (Some ?p) i = 1)) [1..sz] = None"
    by (simp add: find_None_iff)
  moreover have "test_int (Some ?p) (sz + 1) = 0" "test_int (Some ?p) 0 = 0" "test_int None 0 = 0"
  proof -
    have "nat (sz + 1) = iSize ?p + 1" "iSize ?p + 1 < 2 ^ 32" using p(2) sz by auto
    then show "test_int (Some ?p) (sz + 1) = 0" "test_int (Some ?p) 0 = 0" "test_int None 0 = 0"
      using p(1) by (simp_all add: test_int_def Test_has, simp add: sqlite3BitvecTest_def)
  qed
  ultimately show ?thesis
    using p(2) by (simp add: builtin_compare_def Let_def sqlite3BitvecSize_def)
qed

text \<open>
  C26. On a well-formed bitmap, setting, clearing and testing an index are insertion, removal
  and membership of the set it stands for, in every representation and across rehashing into
  sub-bitmaps; the loops end, and when an allocation fails the result is well-formed and holds
  no index beyond the old ones and the new one.
\<close>

theorem bitvec_operations_are_set_operations:
  assumes p: "bv_ok p" and i: "0 < i" "i \<le> iSize p" and j: "j < 2 ^ 32"
  shows "(\<exists>rc q m. sqlite3BitvecSet ok n (Some p) i = Some (rc, Some q, m) \<and> bv_ok q \<and> iSize q = iSize p
        \<and> rc \<in> {SQLITE_OK, SQLITE_NOMEM} \<and> ((\<forall>k. ok k) \<longrightarrow> rc = SQLITE_OK)
        \<and> (rc = SQLITE_OK \<longrightarrow> bv.elems q = insert i (bv.elems p)) \<and> bv.elems q \<subseteq> insert i (bv.elems p))
    \<and> (\<exists>q. sqlite3BitvecClear (Some p) i = Some (Some q) \<and> bv_ok q \<and> iSize q = iSize p
        \<and> bv.elems q = bv.elems p - {i})
    \<and> sqlite3BitvecTest (Some p) j = Some (j \<in> bv.elems p)"
proof (intro conjI)
  obtain rc q m where r: "sqlite3BitvecSet ok n (Some p) i = Some (rc, Some q, m)" "bv_ok q"
    "iSize q = iSize p" "rc = 0 \<or> rc = 7" "(\<forall>k. ok k) \<longrightarrow> rc = 0"
    "rc = 0 \<longrightarrow> (\<forall>j \<in> {1..iSize p}. has q (j - 1) \<longleftrightarrow> j = i \<or> has p (j - 1))"
    "\<forall>j \<in> {1..iSize p}. has q (j - 1) \<longrightarrow> j = i \<or> has p (j - 1)"
    by (rule BitvecSet_result [OF p i, where ok = ok and n = n])
  have 1: "bv.elems q = insert i (bv.elems p)" if "rc = 0"
    using r(2,3,6) that p i by (auto simp: elems_has)
  have 2: "bv.elems q \<subseteq> insert i (bv.elems p)"
    using r(2,3,7) p i by (auto simp: elems_has)
  show "\<exists>rc q m. sqlite3BitvecSet ok n (Some p) i = Some (rc, Some q, m) \<and> bv_ok q \<and> iSize q = iSize p
      \<and> rc \<in> {SQLITE_OK, SQLITE_NOMEM} \<and> ((\<forall>k. ok k) \<longrightarrow> rc = SQLITE_OK)
      \<and> (rc = SQLITE_OK \<longrightarrow> bv.elems q = insert i (bv.elems p)) \<and> bv.elems q \<subseteq> insert i (bv.elems p)"
    by (intro exI [of _ rc] exI [of _ q] exI [of _ m])
      (use r(1-5) 1 2 in \<open>simp add: SQLITE_OK_def SQLITE_NOMEM_def\<close>)
next
  obtain q where c: "sqlite3BitvecClear (Some p) i = Some (Some q)" "bv_ok q" "iSize q = iSize p"
    "\<forall>j \<in> {1..iSize p}. has q (j - 1) \<longleftrightarrow> j \<noteq> i \<and> has p (j - 1)"
    by (rule BitvecClear_result [OF p i])
  then have "bv.elems q = bv.elems p - {i}" using p by (auto simp: elems_has)
  with c show "\<exists>q. sqlite3BitvecClear (Some p) i = Some (Some q) \<and> bv_ok q \<and> iSize q = iSize p
      \<and> bv.elems q = bv.elems p - {i}" by auto
  show "sqlite3BitvecTest (Some p) j = Some (j \<in> bv.elems p)"
    using bv.mem_elems [OF p j] .
qed

theorem bitvec_operations_are_set_operations_witness:
  "\<exists>q m. sqlite3BitvecSet (\<lambda>k. True) 0 (Some (new_bitvec 5000)) 17 = Some (SQLITE_OK, Some q, m)
    \<and> bv.elems q = {17}"
proof -
  have "\<exists>rc q m. sqlite3BitvecSet (\<lambda>k. True) 0 (Some (new_bitvec 5000)) 17 = Some (rc, Some q, m)
      \<and> rc = SQLITE_OK \<and> bv.elems q = insert 17 (bv.elems (new_bitvec 5000))"
    using bitvec_operations_are_set_operations [of "new_bitvec 5000" 17 0 "\<lambda>k. True" 0]
    by (auto simp: new_bitvec_ok)
  then show ?thesis by (simp add: bv.new_elems)
qed

text \<open>
  When no allocation fails, sqlite3BitvecBuiltinTest ends and returns 0 for every size
  below 2^31, every source of random numbers and every program of opcodes 1 to 4 ended by 0:
  the bitmap and the linear array agree at the end.
\<close>

theorem bitvec_builtin_test_passes:
  assumes "\<forall>k. ok k" "0 < sz" "sz < 2147483648" "list_all count_ok prog"
  shows "sqlite3BitvecBuiltinTest ok rnd sz (concat (map encode prog) @ [0]) = Some 0"
proof -
  let ?ops = "concat (map encode prog) @ [0]"
  let ?s = "\<lparr>aOp = ?ops, pc = 0, drawn = 0, pV = replicate (nat ((7 + sz) div 8 + 1)) 0,
    pBitvec = new_bitvec (nat sz), allocs = 3\<rparr>"
  have n: "nat sz < 2 ^ 32" using assms(3) by simp
  have "\<not> TESTBIT (replicate (nat ((7 + sz) div 8 + 1)) 0) j" if "j \<in> {1..nat sz}" for j
  proof -
    have "j div 8 < nat ((7 + sz) div 8 + 1)" using that assms(2) by auto
    then show ?thesis by (simp add: TESTBIT_def)
  qed
  then have "agree sz ?s"
    using assms(2) n by (simp add: agree_def new_bitvec_ok bv.new_elems)
  then obtain t where "builtin_loop ok rnd sz ?s = Some (Inr t)" "agree sz t"
    using run_program [OF assms(1,2,4), of ?s "[]" rnd] by auto
  then show ?thesis
    using builtin_compare_agree [OF _ assms(2,3)] assms(1)
    by (simp add: sqlite3BitvecBuiltinTest_def sqlite3BitvecCreate_def numeral_3_eq_3)
qed

theorem bitvec_builtin_test_passes_witness:
  "sqlite3BitvecBuiltinTest (\<lambda>k. True) (\<lambda>k. int k * 7919) 5000
     (concat (map encode [Linear True 4000 1 1, Random False 20, Linear False 10 5 3]) @ [0]) = Some 0"
  by (rule bitvec_builtin_test_passes) simp_all
end
