(* ===== verification/Sqlite_Hash.thy ===== *)
theory Sqlite_Hash
  imports Sqlite_Chars
begin

text \<open>
  The generic hash table of the bundled SQLite (its \<open>hash.c\<close> part), which maps identifiers,
  compared without regard to case, to pointers. All elements are on one doubly-linked list, and
  the elements of a bucket are the \<open>count\<close> elements from \<open>chain\<close> on. The elements live in an
  explicit store, indexed by addresses; 0 is the null pointer. \<open>ok k\<close> is the outcome of the
  k-th allocation and \<open>extra n\<close> the number of buckets that fit in the block allocated for
  \<open>n\<close> of them beyond these (\<open>sqlite3MallocSize\<close> reports at least the size asked for). Counts are natural numbers; keys are their bytes.
\<close>

section \<open>Data\<close>

type_synonym addr = nat

record HashElem =
  elem_next :: addr
  elem_prev :: addr
  elem_data :: addr
  pKey :: "byte list"
  elem_h :: u32

record bucket =
  ht_count :: nat
  chain :: addr

record Hash =
  htsize :: nat
  count :: nat
  first :: addr
  ht :: "bucket list option"

text \<open>The store, the first address never used and the number of allocations tried.\<close>

record memory =
  elems :: "addr \<Rightarrow> HashElem option"
  brk :: addr
  mallocs :: nat

definition nullElement :: HashElem where
  "nullElement = \<lparr>elem_next = 0, elem_prev = 0, elem_data = 0, pKey = [], elem_h = 0\<rparr>"

definition cell :: "memory \<Rightarrow> addr \<Rightarrow> HashElem" where
  "cell M a = (case elems M a of None \<Rightarrow> nullElement | Some e \<Rightarrow> e)"

definition modify :: "addr \<Rightarrow> (HashElem \<Rightarrow> HashElem) \<Rightarrow> memory \<Rightarrow> memory" where
  "modify a f M = M\<lparr>elems := (elems M)(a \<mapsto> f (cell M a))\<rparr>"

definition free_elem :: "addr \<Rightarrow> memory \<Rightarrow> memory" where
  "free_elem a M = M\<lparr>elems := (elems M)(a := None)\<rparr>"

section \<open>Operations\<close>

definition sqlite3HashInit :: Hash where
  "sqlite3HashInit = \<lparr>htsize = 0, count = 0, first = 0, ht = None\<rparr>"

text \<open>The loop that frees the elements; it follows the list, so it may not end on a cyclic one.\<close>

partial_function (option) clear_loop :: "addr \<Rightarrow> memory \<Rightarrow> memory option" where
  "clear_loop elem M =
     (if elem = 0 then Some M
      else let next_elem = elem_next (cell M elem) in clear_loop next_elem (free_elem elem M))"

definition sqlite3HashClear :: "Hash \<Rightarrow> memory \<Rightarrow> (Hash \<times> memory) option" where
  "sqlite3HashClear pH M =
     map_option (\<lambda>M. (\<lparr>htsize = 0, count = 0, first = 0, ht = None\<rparr>, M)) (clear_loop (first pH) M)"

definition strHash :: "byte list \<Rightarrow> u32" where
  "strHash z = foldl (\<lambda>h c. (h + ucast (0xdf AND c)) * 0x9e3779b1) 0 z"

text \<open>\<open>pEntry\<close> is the number of a bucket, or None for the null pointer.\<close>

definition insertElement :: "Hash \<Rightarrow> nat option \<Rightarrow> addr \<Rightarrow> memory \<Rightarrow> Hash \<times> memory" where
  "insertElement pH pEntry pNew M =
     (let (pHead, pH) =
        (case pEntry of
           Some b \<Rightarrow>
             (let en = the (ht pH) ! b in
              (if ht_count en \<noteq> 0 then chain en else 0,
               pH\<lparr>ht := Some ((the (ht pH))[b := \<lparr>ht_count = ht_count en + 1, chain = pNew\<rparr>])\<rparr>))
         | None \<Rightarrow> (0, pH))
      in if pHead \<noteq> 0 then
           let M = modify pNew (\<lambda>e. e\<lparr>elem_next := pHead, elem_prev := elem_prev (cell M pHead)\<rparr>) M;
               pp = elem_prev (cell M pHead);
               (pH, M) = (if pp \<noteq> 0 then (pH, modify pp (\<lambda>e. e\<lparr>elem_next := pNew\<rparr>) M)
                          else (pH\<lparr>first := pNew\<rparr>, M))
           in (pH, modify pHead (\<lambda>e. e\<lparr>elem_prev := pNew\<rparr>) M)
         else
           let M = modify pNew (\<lambda>e. e\<lparr>elem_next := first pH\<rparr>) M;
               M = (if first pH \<noteq> 0 then modify (first pH) (\<lambda>e. e\<lparr>elem_prev := pNew\<rparr>) M else M);
               M = modify pNew (\<lambda>e. e\<lparr>elem_prev := 0\<rparr>) M
           in (pH\<lparr>first := pNew\<rparr>, M))"

text \<open>The loop of \<open>rehash\<close>, which moves the elements of the old list to the new one.\<close>

partial_function (option) rehash_loop :: "nat \<Rightarrow> addr \<Rightarrow> Hash \<Rightarrow> memory \<Rightarrow> (Hash \<times> memory) option" where
  "rehash_loop new_size elem pH M =
     (if elem = 0 then Some (pH, M)
      else let next_elem = elem_next (cell M elem);
               (pH, M) = insertElement pH (Some (unat (elem_h (cell M elem)) mod new_size)) elem M
           in rehash_loop new_size next_elem pH M)"

text \<open>A bucket takes 16 bytes and \<open>SQLITE_MALLOC_SOFT_LIMIT\<close> is 1024 bytes.\<close>

definition rehash :: "(nat \<Rightarrow> bool) \<Rightarrow> (nat \<Rightarrow> nat) \<Rightarrow> Hash \<Rightarrow> nat \<Rightarrow> memory \<Rightarrow> (Hash \<times> memory) option" where
  "rehash ok extra pH new_size M =
     (let new_size = (if new_size * 16 > 1024 then 1024 div 16 else new_size) in
      if new_size = htsize pH then Some (pH, M)
      else let k = mallocs M; M = M\<lparr>mallocs := k + 1\<rparr> in
        if \<not> ok k then Some (pH, M)
        else let new_size = new_size + extra new_size;
                 elem = first pH;
                 pH = pH\<lparr>ht := Some (replicate new_size \<lparr>ht_count = 0, chain = 0\<rparr>), htsize := new_size,
                         first := 0\<rparr>
             in rehash_loop new_size elem pH M)"

text \<open>The loop of \<open>findElementWithHash\<close>; 0 stands for the address of the null element.\<close>

fun find_loop :: "nat \<Rightarrow> addr \<Rightarrow> u32 \<Rightarrow> byte list \<Rightarrow> memory \<Rightarrow> addr" where
  "find_loop 0 elem h key M = 0"
| "find_loop (Suc n) elem h key M =
     (if h = elem_h (cell M elem) \<and> sqlite3StrICmp (pKey (cell M elem)) key = 0 then elem
      else find_loop n (elem_next (cell M elem)) h key M)"

definition findElementWithHash :: "Hash \<Rightarrow> byte list \<Rightarrow> memory \<Rightarrow> addr \<times> u32" where
  "findElementWithHash pH key M =
     (let h = strHash key;
          (elem, n) = (case ht pH of
              Some tbl \<Rightarrow> (let en = tbl ! (unat h mod htsize pH) in (chain en, ht_count en))
            | None \<Rightarrow> (first pH, count pH))
      in (find_loop n elem h key M, h))"

definition removeElement :: "Hash \<Rightarrow> addr \<Rightarrow> memory \<Rightarrow> (Hash \<times> memory) option" where
  "removeElement pH elem M =
     (let e = cell M elem;
          (pH, M) = (if elem_prev e \<noteq> 0
              then (pH, modify (elem_prev e) (\<lambda>p. p\<lparr>elem_next := elem_next e\<rparr>) M)
              else (pH\<lparr>first := elem_next e\<rparr>, M));
          M = (if elem_next e \<noteq> 0
              then modify (elem_next e) (\<lambda>n. n\<lparr>elem_prev := elem_prev (cell M elem)\<rparr>) M else M);
          pH = (case ht pH of
              None \<Rightarrow> pH
            | Some tbl \<Rightarrow>
                let b = unat (elem_h e) mod htsize pH; en = tbl ! b;
                    en = (if chain en = elem then en\<lparr>chain := elem_next (cell M elem)\<rparr> else en)
                in pH\<lparr>ht := Some (tbl[b := en\<lparr>ht_count := ht_count en - 1\<rparr>])\<rparr>);
          M = free_elem elem M;
          pH = pH\<lparr>count := count pH - 1\<rparr>
      in if count pH = 0 then sqlite3HashClear pH M else Some (pH, M))"

definition sqlite3HashFind :: "Hash \<Rightarrow> byte list \<Rightarrow> memory \<Rightarrow> addr" where
  "sqlite3HashFind pH key M = elem_data (cell M (fst (findElementWithHash pH key M)))"

text \<open>
  The value returned, the table and the store. The links of a new element are set when it is
  inserted; until then they are 0 here.
\<close>

definition sqlite3HashInsert :: "(nat \<Rightarrow> bool) \<Rightarrow> (nat \<Rightarrow> nat) \<Rightarrow> Hash \<Rightarrow> byte list \<Rightarrow> addr \<Rightarrow> memory
    \<Rightarrow> (addr \<times> Hash \<times> memory) option" where
  "sqlite3HashInsert ok extra pH key d M =
     (let (elem, h) = findElementWithHash pH key M; old_data = elem_data (cell M elem) in
      if old_data \<noteq> 0 then
        (if d = 0 then map_option (\<lambda>(pH, M). (old_data, pH, M)) (removeElement pH elem M)
         else Some (old_data, pH, modify elem (\<lambda>e. e\<lparr>elem_data := d, pKey := key\<rparr>) M))
      else if d = 0 then Some (0, pH, M)
      else let k = mallocs M; M = M\<lparr>mallocs := k + 1\<rparr> in
        if \<not> ok k then Some (d, pH, M)
        else
          let new_elem = brk M;
              M = M\<lparr>brk := brk M + 1, elems := (elems M)(new_elem \<mapsto>
                    \<lparr>elem_next = 0, elem_prev = 0, elem_data = d, pKey = key, elem_h = h\<rparr>)\<rparr>;
              pH = pH\<lparr>count := count pH + 1\<rparr>
          in (case (if count pH \<ge> 5 \<and> count pH > 2 * htsize pH
                    then rehash ok extra pH (count pH * 3) M else Some (pH, M)) of
                None \<Rightarrow> None
              | Some (pH, M) \<Rightarrow>
                  (case insertElement pH
                      (if ht pH \<noteq> None then Some (unat h mod htsize pH) else None) new_elem M of
                     (pH, M) \<Rightarrow> Some (0, pH, M))))"

section \<open>Segments of the doubly-linked list\<close>

text \<open>
  \<open>seg M p as z\<close>: the elements \<open>as\<close> are linked in this order; \<open>p\<close> is the \<open>prev\<close> of the first
  and \<open>z\<close> the \<open>next\<close> of the last one.
\<close>

fun seg :: "memory \<Rightarrow> addr \<Rightarrow> addr list \<Rightarrow> addr \<Rightarrow> bool" where
  "seg M p [] z \<longleftrightarrow> True"
| "seg M p (a # as) z \<longleftrightarrow> a \<noteq> 0 \<and> elems M a \<noteq> None \<and> elem_prev (cell M a) = p
     \<and> elem_next (cell M a) = hd (as @ [z]) \<and> seg M a as z"

definition payload :: "memory \<Rightarrow> addr \<Rightarrow> addr \<times> byte list \<times> u32" where
  "payload M a = (elem_data (cell M a), pKey (cell M a), elem_h (cell M a))"

lemma cell_modify [simp]: "cell (modify a f M) b = (if b = a then f (cell M a) else cell M b)"
  by (simp add: modify_def cell_def)

lemma elems_modify [simp]: "elems (modify a f M) b = (if b = a then Some (f (cell M a)) else elems M b)"
  by (simp add: modify_def)

lemma memory_modify [simp]: "brk (modify a f M) = brk M" "mallocs (modify a f M) = mallocs M"
  "brk (free_elem a M) = brk M" "mallocs (free_elem a M) = mallocs M"
  by (simp_all add: modify_def free_elem_def)

lemma dom_modify: "dom (elems (modify a f M)) = insert a (dom (elems M))"
  by (auto simp: modify_def)

lemma dom_modify_if:
  "(c \<Longrightarrow> a \<in> dom (elems M)) \<Longrightarrow> dom (elems (if c then modify a f M else M)) = dom (elems M)"
  by (auto simp: dom_modify insert_absorb)

lemma dom_free: "dom (elems (free_elem a M)) = dom (elems M) - {a}"
  by (auto simp: free_elem_def)

lemma payload_links [simp]:
  "payload (modify a (\<lambda>e. e\<lparr>elem_next := x\<rparr>) M) b = payload M b"
  "payload (modify a (\<lambda>e. e\<lparr>elem_prev := x\<rparr>) M) b = payload M b"
  "payload (modify a (\<lambda>e. e\<lparr>elem_next := x, elem_prev := y\<rparr>) M) b = payload M b"
  by (simp_all add: payload_def)

lemma if_same: "(c \<Longrightarrow> F x = F y) \<Longrightarrow> F (if c then x else y) = F y"
  by simp

lemma seg_nonzero: "seg M p as z \<Longrightarrow> 0 \<notin> set as"
  by (induction as arbitrary: p) auto

lemma seg_alloc: "seg M p as z \<Longrightarrow> a \<in> set as \<Longrightarrow> elems M a \<noteq> None"
  by (induction as arbitrary: p) auto

lemma seg_append: "seg M p (us @ vs) z \<longleftrightarrow> seg M p us (hd (vs @ [z])) \<and> seg M (last (p # us)) vs z"
  by (induction us arbitrary: p) auto

lemma seg_frame: "seg M p as z \<Longrightarrow> \<forall>a \<in> set as. elems M' a = elems M a \<Longrightarrow> seg M' p as z"
  by (induction as arbitrary: p) (auto simp: cell_def)

lemma seg_modify_other: "seg M p as z \<Longrightarrow> a \<notin> set as \<Longrightarrow> seg (modify a f M) p as z"
  by (rule seg_frame) auto

text \<open>Changing the link that leaves a segment at its end or at its start.\<close>

lemma seg_set_end:
  "seg M p as z \<Longrightarrow> distinct as \<Longrightarrow> as \<noteq> [] \<Longrightarrow>
    seg (modify (last as) (\<lambda>e. e\<lparr>elem_next := y\<rparr>) M) p as y"
proof (induction as arbitrary: p)
  case (Cons a as)
  show ?case
  proof (cases as)
    case Nil
    then show ?thesis using Cons.prems by simp
  next
    case (Cons b bs)
    have "a \<noteq> last as" using Cons Cons.prems(2) by (metis distinct.simps(2) last_in_set list.distinct(1))
    then show ?thesis using Cons.IH [of a] Cons.prems Cons by auto
  qed
qed simp

lemma seg_set_start:
  "seg M p as z \<Longrightarrow> distinct as \<Longrightarrow> as \<noteq> [] \<Longrightarrow>
    seg (modify (hd as) (\<lambda>e. e\<lparr>elem_prev := q\<rparr>) M) q as z"
  by (cases as) (auto intro: seg_modify_other)

lemma seg_set_end_if:
  "seg M p as z \<Longrightarrow> distinct as \<Longrightarrow>
    seg (if as \<noteq> [] then modify (last as) (\<lambda>e. e\<lparr>elem_next := y\<rparr>) M else M) p as y"
  using seg_set_end by (cases "as = []") auto

lemma seg_set_start_if:
  "seg M p as z \<Longrightarrow> distinct as \<Longrightarrow>
    seg (if as \<noteq> [] then modify (hd as) (\<lambda>e. e\<lparr>elem_prev := q\<rparr>) M else M) q as z"
  using seg_set_start by (cases "as = []") auto

lemma seg_modify_if: "seg M p as z \<Longrightarrow> (c \<Longrightarrow> a \<notin> set as) \<Longrightarrow> seg (if c then modify a f M else M) p as z"
  using seg_modify_other by simp

lemma seg_ends:
  assumes "seg M p as z"
  shows "as \<noteq> [] \<Longrightarrow> elem_prev (cell M (hd as)) = p" "as \<noteq> [] \<Longrightarrow> elem_next (cell M (last as)) = z"
  using assms by (induction as arbitrary: p) (auto split: if_splits)

lemma ends_subset: "set as \<subseteq> A \<Longrightarrow> as \<noteq> [] \<Longrightarrow> last as \<in> A" "set as \<subseteq> A \<Longrightarrow> as \<noteq> [] \<Longrightarrow> hd as \<in> A"
  by (meson last_in_set subsetD) (meson hd_in_set subsetD)

lemma ends_disjoint:
  assumes "set us \<inter> set vs = {}"
  shows "us \<noteq> [] \<Longrightarrow> last us \<in> set us" "vs \<noteq> [] \<Longrightarrow> hd vs \<in> set vs"
    "us \<noteq> [] \<Longrightarrow> last us \<notin> set vs" "vs \<noteq> [] \<Longrightarrow> hd vs \<notin> set us"
proof -
  show "us \<noteq> [] \<Longrightarrow> last us \<in> set us" "vs \<noteq> [] \<Longrightarrow> hd vs \<in> set vs" by simp_all
  then show "us \<noteq> [] \<Longrightarrow> last us \<notin> set vs" "vs \<noteq> [] \<Longrightarrow> hd vs \<notin> set us"
    using assms by (metis IntI emptyE)+
qed

text \<open>
  Linking \<open>a\<close> in between two segments, and the effect on the rest of the store: payloads stay,
  cells outside of the list stay.
\<close>

definition link_between :: "addr list \<Rightarrow> addr \<Rightarrow> addr list \<Rightarrow> memory \<Rightarrow> memory" where
  "link_between us a vs M =
     (let M = modify a (\<lambda>e. e\<lparr>elem_next := hd (vs @ [0]), elem_prev := last (0 # us)\<rparr>) M;
          M = (if us \<noteq> [] then modify (last us) (\<lambda>e. e\<lparr>elem_next := a\<rparr>) M else M)
      in if vs \<noteq> [] then modify (hd vs) (\<lambda>e. e\<lparr>elem_prev := a\<rparr>) M else M)"

lemma link_between_seg:
  assumes s: "seg M 0 (us @ vs) 0" "distinct (us @ vs)" and a: "a \<notin> set (us @ vs)" "a \<noteq> 0"
  shows "seg (link_between us a vs M) 0 (us @ a # vs) 0"
proof -
  let ?z = "hd (vs @ [0])" and ?p = "last (0 # us)"
  define M1 where "M1 = modify a (\<lambda>e. e\<lparr>elem_next := ?z, elem_prev := ?p\<rparr>) M"
  define M2 where "M2 = (if us \<noteq> [] then modify (last us) (\<lambda>e. e\<lparr>elem_next := a\<rparr>) M1 else M1)"
  define M3 where "M3 = (if vs \<noteq> [] then modify (hd vs) (\<lambda>e. e\<lparr>elem_prev := a\<rparr>) M2 else M2)"
  have lb: "link_between us a vs M = M3"
    by (simp add: link_between_def M1_def M2_def M3_def Let_def)
  have d: "distinct us" "distinct vs" "set us \<inter> set vs = {}" "a \<notin> set us" "a \<notin> set vs"
    using s(2) a(1) by auto
  note l = ends_disjoint [OF d(3)]
  note l = ends_disjoint [OF d(3)]
  have 1: "seg M1 0 us ?z" "seg M1 ?p vs 0"
    using s(1) d(4,5) unfolding seg_append M1_def by (auto intro: seg_modify_other)
  have 2: "seg M2 0 us a" unfolding M2_def by (rule seg_set_end_if [OF 1(1) d(1)])
  have s2: "seg M2 ?p vs 0" unfolding M2_def by (rule seg_modify_if [OF 1(2) l(3)])
  have 3: "seg M3 0 us a" unfolding M3_def by (rule seg_modify_if [OF 2 l(4)])
  have s3: "seg M3 a vs 0" unfolding M3_def by (rule seg_set_start_if [OF s2 d(2)])
  have "us \<noteq> [] \<Longrightarrow> a \<noteq> last us" "vs \<noteq> [] \<Longrightarrow> a \<noteq> hd vs"
    using l(1,2) d(4,5) by metis+
  then have "cell M3 a = cell M1 a" "elems M3 a = elems M1 a"
    by (simp_all add: M3_def M2_def if_same [where F = "\<lambda>M. cell M a"] if_same [where F = "\<lambda>M. elems M a"])
  then have "seg M3 ?p (a # vs) 0"
    using s3 a(2) by (auto simp: M1_def)
  then show ?thesis using 3 by (simp add: lb seg_append)
qed

lemma link_between_rest:
  "payload (link_between us a vs M) b = payload M b"
  "b \<notin> set (us @ a # vs) \<Longrightarrow> elems (link_between us a vs M) b = elems M b"
  "a \<in> dom (elems M) \<Longrightarrow> set (us @ vs) \<subseteq> dom (elems M)
    \<Longrightarrow> dom (elems (link_between us a vs M)) = dom (elems M)"
  "b \<noteq> a \<Longrightarrow> b \<notin> set us \<Longrightarrow> elem_next (cell (link_between us a vs M) b) = elem_next (cell M b)"
  "brk (link_between us a vs M) = brk M"
  "mallocs (link_between us a vs M) = mallocs M"
proof -
  show "payload (link_between us a vs M) b = payload M b"
    by (simp add: link_between_def Let_def if_same [where F = "\<lambda>M. payload M b"])
  show "elems (link_between us a vs M) b = elems M b" if "b \<notin> set (us @ a # vs)"
  proof -
    have "us \<noteq> [] \<Longrightarrow> b \<noteq> last us" "vs \<noteq> [] \<Longrightarrow> b \<noteq> hd vs" "b \<noteq> a" using that by auto
    then show ?thesis by (simp add: link_between_def Let_def)
  qed
  show "dom (elems (link_between us a vs M)) = dom (elems M)"
    if "a \<in> dom (elems M)" "set (us @ vs) \<subseteq> dom (elems M)"
  proof -
    have "us \<noteq> [] \<Longrightarrow> last us \<in> dom (elems M)" "vs \<noteq> [] \<Longrightarrow> hd vs \<in> dom (elems M)"
      using that ends_subset [of us "dom (elems M)"] ends_subset [of vs "dom (elems M)"] by simp_all
    then show ?thesis
      using that(1) by (simp add: link_between_def Let_def dom_modify_if dom_modify insert_absorb)
  qed
  show "elem_next (cell (link_between us a vs M) b) = elem_next (cell M b)" if "b \<noteq> a" "b \<notin> set us"
  proof -
    have "us \<noteq> [] \<Longrightarrow> b \<noteq> last us" using that(2) last_in_set by blast
    then show ?thesis
      using that(1) by (simp add: link_between_def Let_def if_same [where F = "\<lambda>M. elem_next (cell M b)"])
  qed
qed (simp_all add: link_between_def Let_def)

text \<open>Taking \<open>a\<close> out.\<close>

definition unlink :: "addr list \<Rightarrow> addr \<Rightarrow> addr list \<Rightarrow> memory \<Rightarrow> memory" where
  "unlink us a vs M =
     (let M = (if us \<noteq> [] then modify (last us) (\<lambda>e. e\<lparr>elem_next := hd (vs @ [0])\<rparr>) M else M);
          M = (if vs \<noteq> [] then modify (hd vs) (\<lambda>e. e\<lparr>elem_prev := last (0 # us)\<rparr>) M else M)
      in free_elem a M)"

lemma unlink_seg:
  assumes s: "seg M 0 (us @ a # vs) 0" "distinct (us @ a # vs)"
  shows "seg (unlink us a vs M) 0 (us @ vs) 0"
proof -
  let ?z = "hd (vs @ [0])" and ?p = "last (0 # us)"
  define M1 where "M1 = (if us \<noteq> [] then modify (last us) (\<lambda>e. e\<lparr>elem_next := ?z\<rparr>) M else M)"
  define M2 where "M2 = (if vs \<noteq> [] then modify (hd vs) (\<lambda>e. e\<lparr>elem_prev := ?p\<rparr>) M1 else M1)"
  have d: "distinct us" "distinct vs" "set us \<inter> set vs = {}" "a \<notin> set us" "a \<notin> set vs"
    using s(2) by auto
  note l = ends_disjoint [OF d(3)]
  have 0: "seg M 0 us a" "seg M a vs 0"
    using s(1) by (simp_all add: seg_append)
  have 1: "seg M1 0 us ?z" unfolding M1_def by (rule seg_set_end_if [OF 0(1) d(1)])
  have s1: "seg M1 a vs 0" unfolding M1_def by (rule seg_modify_if [OF 0(2) l(3)])
  have 2: "seg M2 0 us ?z" unfolding M2_def by (rule seg_modify_if [OF 1 l(4)])
  have s2: "seg M2 ?p vs 0" unfolding M2_def by (rule seg_set_start_if [OF s1 d(2)])
  have "seg (free_elem a M2) 0 us ?z"
    by (rule seg_frame [OF 2]) (use d(4) in \<open>auto simp: free_elem_def\<close>)
  moreover have "seg (free_elem a M2) ?p vs 0"
    by (rule seg_frame [OF s2]) (use d(5) in \<open>auto simp: free_elem_def\<close>)
  moreover have "unlink us a vs M = free_elem a M2"
    by (simp add: unlink_def M1_def M2_def Let_def)
  ultimately show ?thesis by (simp add: seg_append)
qed

lemma unlink_rest:
  "b \<noteq> a \<Longrightarrow> payload (unlink us a vs M) b = payload M b"
  "set (us @ a # vs) \<subseteq> dom (elems M) \<Longrightarrow> dom (elems (unlink us a vs M)) = dom (elems M) - {a}"
  "brk (unlink us a vs M) = brk M"
proof -
  have c: "b \<noteq> a \<Longrightarrow> payload (free_elem a M') b = payload M' b" for M'
    by (simp add: free_elem_def cell_def payload_def)
  show "b \<noteq> a \<Longrightarrow> payload (unlink us a vs M) b = payload M b"
    by (simp add: unlink_def Let_def c if_same [where F = "\<lambda>M. payload M b"])
  show "dom (elems (unlink us a vs M)) = dom (elems M) - {a}" if "set (us @ a # vs) \<subseteq> dom (elems M)"
  proof -
    have "us \<noteq> [] \<Longrightarrow> last us \<in> dom (elems M)" "vs \<noteq> [] \<Longrightarrow> hd vs \<in> dom (elems M)"
      using that ends_subset [of us "dom (elems M)"] ends_subset [of vs "dom (elems M)"] by simp_all
    then show ?thesis
      by (simp add: unlink_def Let_def dom_modify_if dom_free)
  qed
qed (simp add: unlink_def Let_def)

section \<open>The buckets\<close>

definition bucket_of :: "nat \<Rightarrow> memory \<Rightarrow> addr \<Rightarrow> nat" where
  "bucket_of n M a = unat (elem_h (cell M a)) mod n"

text \<open>
  The list is the concatenation of the groups \<open>gl\<close>, one for each bucket in use, and the
  bucket holds the length and the first element of its group.
\<close>

definition entry_ok :: "nat \<Rightarrow> bucket list \<Rightarrow> memory \<Rightarrow> nat \<times> addr list \<Rightarrow> bool" where
  "entry_ok n tbl M = (\<lambda>(b, g). b < n \<and> g \<noteq> [] \<and> (\<forall>a \<in> set g. bucket_of n M a = b)
     \<and> ht_count (tbl ! b) = length g \<and> chain (tbl ! b) = hd g)"

definition groups_ok :: "nat \<Rightarrow> bucket list \<Rightarrow> memory \<Rightarrow> (nat \<times> addr list) list \<Rightarrow> bool" where
  "groups_ok n tbl M gl \<longleftrightarrow> 0 < n \<and> length tbl = n \<and> distinct (map fst gl)
     \<and> (\<forall>e \<in> set gl. entry_ok n tbl M e)
     \<and> (\<forall>b < n. b \<notin> fst ` set gl \<longrightarrow> ht_count (tbl ! b) = 0)"

definition listed :: "Hash \<Rightarrow> memory \<Rightarrow> addr list \<Rightarrow> bool" where
  "listed pH M es \<longleftrightarrow> seg M 0 es 0 \<and> distinct es \<and> first pH = hd (es @ [0])
     \<and> (case ht pH of None \<Rightarrow> htsize pH = 0
        | Some tbl \<Rightarrow> \<exists>gl. groups_ok (htsize pH) tbl M gl \<and> es = concat (map snd gl))"

lemma groups_ok_hash:
  assumes g: "groups_ok n tbl M gl"
    and same: "\<forall>a \<in> set (concat (map snd gl)). elem_h (cell M' a) = elem_h (cell M a)"
  shows "groups_ok n tbl M' gl"
proof -
  have "entry_ok n tbl M' e" if e: "e \<in> set gl" for e
  proof -
    have "bucket_of n M' a = bucket_of n M a" if "a \<in> set (snd e)" for a
      using that e same by (auto simp: bucket_of_def)
    moreover have "entry_ok n tbl M e" using g e by (simp add: groups_ok_def)
    ultimately show ?thesis by (simp add: entry_ok_def split: prod.splits)
  qed
  then show ?thesis using g by (simp add: groups_ok_def)
qed

lemma groups_ok_payload:
  "groups_ok n tbl M gl \<Longrightarrow> \<forall>a \<in> set (concat (map snd gl)). payload M' a = payload M a
    \<Longrightarrow> groups_ok n tbl M' gl"
  by (rule groups_ok_hash [where M = M]) (simp_all add: payload_def)

lemma entry_ok_other: "fst e \<noteq> b \<Longrightarrow> entry_ok n (tbl[b := x]) M e \<longleftrightarrow> entry_ok n tbl M e"
  by (cases e) (simp add: entry_ok_def)

lemma fst_image_neq: "b \<notin> fst ` set gl \<Longrightarrow> e \<in> set gl \<Longrightarrow> fst e \<noteq> b"
  by auto

lemma map_fst_split:
  assumes "b \<in> fst ` set gl"
  obtains gl1 g gl2 where "gl = gl1 @ (b, g) # gl2"
  using assms by (metis imageE prod.collapse split_list)

text \<open>Replacing the group of a bucket, which is dropped when it becomes empty.\<close>

lemma groups_replace:
  assumes g: "groups_ok n tbl M (gl1 @ (b, g) # gl2)"
    and new: "ht_count x = length g'" "g' \<noteq> [] \<Longrightarrow> chain x = hd g'" "\<forall>a \<in> set g'. bucket_of n M a = b"
  shows "groups_ok n (tbl[b := x]) M (gl1 @ (if g' = [] then [] else [(b, g')]) @ gl2)"
proof -
  let ?gl = "gl1 @ (if g' = [] then [] else [(b, g')]) @ gl2"
  have n: "0 < n" "length tbl = n" "b < n" "b \<notin> fst ` set gl1" "b \<notin> fst ` set gl2" "distinct (map fst ?gl)"
    using g by (auto simp: groups_ok_def entry_ok_def)
  have "entry_ok n (tbl[b := x]) M e" if e: "e \<in> set ?gl" for e
  proof (cases "e \<in> set gl1 \<union> set gl2")
    case True
    then have "fst e \<noteq> b" using n(4,5) fst_image_neq by blast
    moreover have "entry_ok n tbl M e" using g True by (auto simp: groups_ok_def)
    ultimately show ?thesis by (simp add: entry_ok_other)
  next
    case False
    then have "e = (b, g')" "g' \<noteq> []" using e by (auto split: if_splits)
    then show ?thesis using new n by (simp add: entry_ok_def)
  qed
  moreover have "ht_count (tbl[b := x] ! c) = 0" if "c < n" "c \<notin> fst ` set ?gl" for c
    using that g new(1) n(2) by (cases "c = b") (auto simp: groups_ok_def split: if_splits)
  ultimately show ?thesis using n by (simp add: groups_ok_def)
qed

lemma groups_insert_new:
  assumes g: "groups_ok n tbl M gl" and a: "bucket_of n M a = b" "b \<notin> fst ` set gl"
    and x: "ht_count x = 1" "chain x = a"
  shows "groups_ok n (tbl[b := x]) M ((b, [a]) # gl)"
proof -
  have n: "0 < n" "length tbl = n" "b < n" "distinct (map fst ((b, [a]) # gl))"
    using g a by (auto simp: groups_ok_def bucket_of_def)
  have "entry_ok n (tbl[b := x]) M e" if "e \<in> set ((b, [a]) # gl)" for e
  proof (cases "e \<in> set gl")
    case True
    then have "fst e \<noteq> b" using a(2) fst_image_neq by blast
    moreover have "entry_ok n tbl M e" using g True by (auto simp: groups_ok_def)
    ultimately show ?thesis by (simp add: entry_ok_other)
  next
    case False
    then have "e = (b, [a])" using that by simp
    then show ?thesis using a(1) x n by (simp add: entry_ok_def)
  qed
  moreover have "ht_count (tbl[b := x] ! c) = 0" if "c < n" "c \<notin> fst ` set ((b, [a]) # gl)" for c
    using that g by (auto simp: groups_ok_def)
  ultimately show ?thesis using n unfolding groups_ok_def by simp
qed

section \<open>Inserting and removing an element\<close>

lemma modify_same: "modify a f (modify a g M) = modify a (\<lambda>e. f (g e)) M"
  by (simp add: modify_def cell_def)

lemma modify_swap: "a \<noteq> b \<Longrightarrow> modify a f (modify b g M) = modify b g (modify a f M)"
  by (simp add: modify_def cell_def fun_upd_twist)

lemma link_front:
  "a \<notin> set es \<Longrightarrow> link_between [] a es M =
    (let M = modify a (\<lambda>e. e\<lparr>elem_next := hd (es @ [0])\<rparr>) M;
         M = (if es \<noteq> [] then modify (hd es) (\<lambda>e. e\<lparr>elem_prev := a\<rparr>) M else M)
     in modify a (\<lambda>e. e\<lparr>elem_prev := 0\<rparr>) M)"
  by (cases es) (auto simp: link_between_def Let_def modify_same modify_swap)

lemma ends_nonzero:
  "0 \<notin> set us \<Longrightarrow> (last (0 # us) \<noteq> (0 :: nat)) = (us \<noteq> [])"
  "0 \<notin> set us \<Longrightarrow> (hd (us @ [0]) \<noteq> (0 :: nat)) = (us \<noteq> [])"
  by (cases us rule: rev_cases; auto) (cases us; auto)

lemma insertElement_listed:
  assumes L: "listed pH M es" and a: "a \<notin> set es" "a \<noteq> 0" "elems M a \<noteq> None"
    and e: "pEntry = (if ht pH = None then None else Some (bucket_of (htsize pH) M a))"
  obtains us vs pH' where "es = us @ vs" "insertElement pH pEntry a M = (pH', link_between us a vs M)"
    "listed pH' (link_between us a vs M) (us @ a # vs)" "count pH' = count pH" "htsize pH' = htsize pH"
    "ht pH' = None \<longleftrightarrow> ht pH = None"
proof -
  have s: "seg M 0 es 0" "distinct es" and f: "first pH = hd (es @ [0])"
    using L by (auto simp: listed_def)
  have front: "(first pH \<noteq> 0) = (es \<noteq> [])" "es \<noteq> [] \<Longrightarrow> hd es = first pH"
    using s(1) f by (cases es; auto)+
  have seg_new: "seg (link_between us a vs M) 0 (us @ a # vs) 0" "distinct (us @ a # vs)" if "es = us @ vs" for us vs
    using link_between_seg [of M us vs a] s a that by auto
  show thesis
  proof (cases "ht pH")
    case None
    let ?pH = "pH\<lparr>first := a\<rparr>"
    have "insertElement pH pEntry a M = (?pH, link_between [] a es M)"
      using None e front f by (simp add: insertElement_def link_front [OF a(1)] Let_def)
    moreover have "listed ?pH (link_between [] a es M) ([] @ a # es)"
      using None L seg_new [of "[]" es] by (simp add: listed_def)
    ultimately show thesis using that [of "[]" es ?pH] None by simp
  next
    case (Some tbl)
    let ?b = "bucket_of (htsize pH) M a"
    let ?tbl = "tbl[?b := \<lparr>ht_count = ht_count (tbl ! ?b) + 1, chain = a\<rparr>]"
    obtain gl where gl: "groups_ok (htsize pH) tbl M gl" "es = concat (map snd gl)"
      using L Some by (auto simp: listed_def)
    have keep: "groups_ok n t (link_between us a vs M) g" if "groups_ok n t M g" for n t g us vs
      using groups_ok_payload [OF that] by (simp add: link_between_rest(1))
    show thesis
    proof (cases "?b \<in> fst ` set gl")
      case True
      then obtain gl1 g gl2 where split: "gl = gl1 @ (?b, g) # gl2" by (rule map_fst_split)
      define uu ww where "uu = concat (map snd gl1)" and "ww = concat (map snd gl2)"
      let ?vs = "g @ ww"
      have g: "g \<noteq> []" "ht_count (tbl ! ?b) = length g" "chain (tbl ! ?b) = hd g"
        using gl(1) split by (auto simp: groups_ok_def entry_ok_def)
      have es: "es = uu @ ?vs" by (simp add: gl(2) split uu_def ww_def)
      have vs: "?vs \<noteq> []" "hd ?vs = hd g" using g(1) by auto
      have seg2: "seg M (last (0 # uu)) ?vs 0" "seg M 0 uu (hd (?vs @ [0]))" using s(1) unfolding es seg_append by auto
      have hd: "hd g \<noteq> 0" "elem_prev (cell M (hd g)) = last (0 # uu)" "hd g \<noteq> a"
      proof -
        have "hd g \<in> set es" using es hd_in_set [OF g(1)] by simp
        then show "hd g \<noteq> 0" "hd g \<noteq> a" using seg_nonzero [OF s(1)] a(1) by metis+
        show "elem_prev (cell M (hd g)) = last (0 # uu)"
          using seg_ends(1) [OF seg2(1) vs(1)] vs(2) by simp
      qed
      have "0 \<notin> set uu" using seg_nonzero [OF s(1)] unfolding es by simp
      note pp = ends_nonzero(1) [OF this]
      define pH' where "pH' = (if uu = [] then pH\<lparr>ht := Some ?tbl, first := a\<rparr> else pH\<lparr>ht := Some ?tbl\<rparr>)"
      have i: "insertElement pH pEntry a M = (pH', link_between uu a ?vs M)"
        using Some e g hd pp vs unfolding insertElement_def link_between_def pH'_def
        by (cases "uu = []") (simp_all add: Let_def)
      have "\<forall>c \<in> set g. bucket_of (htsize pH) M c = ?b"
        using gl(1) split by (auto simp: groups_ok_def entry_ok_def)
      then have "groups_ok (htsize pH) ?tbl M (gl1 @ (?b, a # g) # gl2)"
        using groups_replace [of _ tbl M gl1 ?b g gl2 "\<lparr>ht_count = ht_count (tbl ! ?b) + 1, chain = a\<rparr>" "a # g"]
          gl(1) split g(2) by simp
      moreover have "first pH' = hd ((uu @ a # ?vs) @ [0])"
        using f es by (auto simp: pH'_def hd_append)
      ultimately have "listed pH' (link_between uu a ?vs M) (uu @ a # ?vs)"
        using seg_new [OF es] keep unfolding listed_def
        by (auto simp: pH'_def uu_def ww_def intro!: exI [of _ "gl1 @ (?b, a # g) # gl2"])
      then show thesis using that [OF es i] Some by (auto simp: pH'_def)
    next
      case False
      let ?pH = "pH\<lparr>ht := Some ?tbl, first := a\<rparr>"
      have "?b < htsize pH" using gl(1) by (simp add: groups_ok_def bucket_of_def)
      then have "ht_count (tbl ! ?b) = 0" using gl(1) False by (auto simp: groups_ok_def)
      then have i: "insertElement pH pEntry a M = (?pH, link_between [] a es M)"
        using Some e front f by (simp add: insertElement_def link_front [OF a(1)] Let_def)
      have "groups_ok (htsize pH) ?tbl M ((?b, [a]) # gl)"
        using groups_insert_new [OF gl(1) refl False] \<open>ht_count (tbl ! ?b) = 0\<close> by simp
      then have "listed ?pH (link_between [] a es M) ([] @ a # es)"
        using seg_new [of "[]" es] keep gl(2) unfolding listed_def
        by (auto intro!: exI [of _ "(?b, [a]) # gl"])
      then show thesis using that [of "[]" es ?pH] i Some by simp
    qed
  qed
qed

lemma bucket_count: "en\<lparr>ht_count := n\<rparr> = \<lparr>ht_count = n, chain = chain en\<rparr>"
  by (cases en) simp

lemma removeElement_listed:
  assumes L: "listed pH M (us @ a # vs)" and c: "count pH = Suc (length (us @ vs))"
  obtains pH' where "removeElement pH a M = Some (pH', unlink us a vs M)"
    "listed pH' (unlink us a vs M) (us @ vs)" "count pH' = length (us @ vs)"
proof -
  let ?e = "cell M a" and ?M = "unlink us a vs M"
  have s: "seg M 0 (us @ a # vs) 0" "distinct (us @ a # vs)" and f: "first pH = hd (us @ [a])"
    using L by (auto simp: listed_def hd_append)
  have e: "elem_prev ?e = last (0 # us)" "elem_next ?e = hd (vs @ [0])"
    using s(1) by (simp_all add: seg_append)
  have nz: "0 \<notin> set (us @ a # vs)" using seg_nonzero [OF s(1)] .
  have links: "(last (0 # us) \<noteq> 0) = (us \<noteq> [])" "(hd (vs @ [0]) \<noteq> 0) = (vs \<noteq> [])"
    using nz ends_nonzero(1) [of us] ends_nonzero(2) [of vs] by (simp_all del: last.simps)
  have ne: "us \<noteq> [] \<Longrightarrow> last us \<noteq> a" "vs \<noteq> [] \<Longrightarrow> hd vs \<noteq> a"
    using s(2) last_in_set [of us] hd_in_set [of vs] by auto
  have sg: "seg ?M 0 (us @ vs) 0" using unlink_seg [OF s] .
  have pl: "payload ?M b = payload M b" if "b \<in> set (us @ vs)" for b
    using s(2) that by (intro unlink_rest(1)) auto
  define tail where "tail = (\<lambda>p M'. if count p = 0 then sqlite3HashClear p M' else Some (p, M'))"
  have finish: "\<exists>q. removeElement pH a M = Some (q, ?M) \<and> listed q ?M (us @ vs) \<and> count q = length (us @ vs)"
    if r: "removeElement pH a M = tail p ?M" "count p = length (us @ vs)" "first p = hd ((us @ vs) @ [0])"
      and g: "us @ vs \<noteq> [] \<Longrightarrow> listed p ?M (us @ vs)" for p
  proof (cases "us @ vs = []")
    case True
    then have "removeElement pH a M = Some (sqlite3HashInit, ?M)"
      using r by (simp add: tail_def sqlite3HashClear_def sqlite3HashInit_def clear_loop.simps)
    moreover have "listed sqlite3HashInit ?M (us @ vs)"
      using True by (simp add: listed_def sqlite3HashInit_def)
    ultimately show ?thesis using True by (auto simp: sqlite3HashInit_def)
  next
    case False
    then show ?thesis using r g by (auto simp: tail_def)
  qed
  show thesis
  proof (cases "ht pH")
    case None
    define p where "p = (if us = [] then pH\<lparr>first := hd (vs @ [0])\<rparr> else pH)\<lparr>count := count pH - 1\<rparr>"
    have "removeElement pH a M = tail p ?M"
      using None links ne unfolding removeElement_def unlink_def e p_def tail_def
      by (cases "us = []"; cases "vs = []") (simp_all add: Let_def e)
    moreover have "listed p ?M (us @ vs)"
      using None L sg s(2) f by (auto simp: listed_def p_def hd_append)
    moreover have "count p = length (us @ vs)" "first p = hd ((us @ vs) @ [0])"
      using c f by (auto simp: p_def hd_append)
    ultimately have "\<exists>q. removeElement pH a M = Some (q, ?M) \<and> listed q ?M (us @ vs) \<and> count q = length (us @ vs)"
      by (intro finish)
    then show thesis using that by blast
  next
    case (Some tbl)
    let ?n = "htsize pH"
    let ?b = "unat (elem_h ?e) mod ?n"
    obtain gl where gl: "groups_ok ?n tbl M gl" "us @ a # vs = concat (map snd gl)"
      using L Some by (auto simp: listed_def)
    define x where "x = \<lparr>ht_count = ht_count (tbl ! ?b) - 1,
      chain = (if chain (tbl ! ?b) = a then hd (vs @ [0]) else chain (tbl ! ?b))\<rparr>"
    define p where "p = (if us = [] then pH\<lparr>first := hd (vs @ [0])\<rparr> else pH)
      \<lparr>ht := Some (tbl[?b := x]), count := count pH - 1\<rparr>"
    have run: "removeElement pH a M = tail p ?M"
      using Some links ne unfolding removeElement_def unlink_def e p_def tail_def x_def
      by (cases "us = []"; cases "vs = []"; cases "chain (tbl ! ?b) = a") (simp_all add: Let_def e bucket_count)
    have "\<exists>gl'. groups_ok ?n (tbl[?b := x]) ?M gl' \<and> us @ vs = concat (map snd gl')"
    proof -
      have "a \<in> set (concat (map snd gl))" using gl(2) by (metis in_set_conv_decomp)
      then obtain b g where "(b, g) \<in> set gl" "a \<in> set g" by auto
      then obtain gl1 gl2 g1 g2 where split: "gl = gl1 @ (b, g1 @ a # g2) # gl2"
        by (metis split_list)
      have "us @ a # vs = (concat (map snd gl1) @ g1) @ a # (g2 @ concat (map snd gl2))"
        by (simp add: gl(2) split)
      then have uv: "us = concat (map snd gl1) @ g1" "vs = g2 @ concat (map snd gl2)"
      proof -
        have "a \<notin> set us" "a \<notin> set vs" using s(2) by auto
        then have "(us @ a # vs = (concat (map snd gl1) @ g1) @ a # (g2 @ concat (map snd gl2)))
            = (us = concat (map snd gl1) @ g1 \<and> vs = g2 @ concat (map snd gl2))"
          by (rule append_Cons_eq_iff)
        then show "us = concat (map snd gl1) @ g1" "vs = g2 @ concat (map snd gl2)"
          using \<open>us @ a # vs = (concat (map snd gl1) @ g1) @ a # (g2 @ concat (map snd gl2))\<close> by argo+
      qed
      have g: "\<forall>c \<in> set (g1 @ a # g2). bucket_of ?n M c = b" "ht_count (tbl ! b) = length (g1 @ a # g2)"
        "chain (tbl ! b) = hd (g1 @ [a])"
        using gl(1) split by (auto simp: groups_ok_def entry_ok_def hd_append)
      have b: "b = ?b" using g(1) by (simp add: bucket_of_def)
      have "chain (tbl ! b) = a \<longleftrightarrow> g1 = []" using g(3) s(2) uv by (cases g1) auto
      then have G: "groups_ok ?n (tbl[b := x]) M (gl1 @ (if g1 @ g2 = [] then [] else [(b, g1 @ g2)]) @ gl2)"
        using g uv(2) b gl(1) unfolding split
        by (intro groups_replace [where g = "g1 @ a # g2"]) (auto simp: x_def hd_append)
      have e: "concat (map snd (gl1 @ (if g1 @ g2 = [] then [] else [(b, g1 @ g2)]) @ gl2)) = us @ vs"
        using uv by auto
      have "groups_ok ?n (tbl[b := x]) ?M (gl1 @ (if g1 @ g2 = [] then [] else [(b, g1 @ g2)]) @ gl2)"
        by (rule groups_ok_payload [OF G]) (unfold e, use pl in blast)
      with e [symmetric] show ?thesis using b by blast
  qed
    then have "listed p ?M (us @ vs)"
      using sg s(2) f by (auto simp: listed_def p_def hd_append)
    moreover have "count p = length (us @ vs)" "first p = hd ((us @ vs) @ [0])"
      using c f by (auto simp: p_def hd_append)
    ultimately have "\<exists>q. removeElement pH a M = Some (q, ?M) \<and> listed q ?M (us @ vs) \<and> count q = length (us @ vs)"
      using run by (intro finish)
    then show thesis using that by blast
  qed
qed

section \<open>Finding and rehashing\<close>

definition matches :: "u32 \<Rightarrow> byte list \<Rightarrow> memory \<Rightarrow> addr \<Rightarrow> bool" where
  "matches h key M a \<longleftrightarrow> h = elem_h (cell M a) \<and> sqlite3StrICmp (pKey (cell M a)) key = 0"

definition or_null :: "addr option \<Rightarrow> addr" where
  "or_null r = (case r of None \<Rightarrow> 0 | Some a \<Rightarrow> a)"

lemma find_loop_seg:
  "seg M p (g @ vs) z \<Longrightarrow> find_loop (length g) (hd ((g @ vs) @ [z])) h key M = or_null (find (matches h key M) g)"
  by (induction g arbitrary: p) (auto simp: matches_def or_null_def)

text \<open>An element in order: its data is set, its key has no NUL and its hash is stored.\<close>

definition good :: "memory \<Rightarrow> addr \<Rightarrow> bool" where
  "good M a \<longleftrightarrow> elem_data (cell M a) \<noteq> 0 \<and> c_string (pKey (cell M a)) \<and> elem_h (cell M a) = strHash (pKey (cell M a))"

definition same_key :: "byte list \<Rightarrow> memory \<Rightarrow> addr \<Rightarrow> bool" where
  "same_key key M a \<longleftrightarrow> fold_case (pKey (cell M a)) = fold_case key"

lemma hash_mask: "0xdf AND UpperToLower c = 0xdf AND c"
  by (rule all_bytesI [of "\<lambda>c. 0xdf AND UpperToLower c = 0xdf AND c"]) code_simp

lemma strHash_fold: "strHash (fold_case z) = strHash z"
proof -
  have "foldl (\<lambda>h c. (h + ucast (0xdf AND c)) * 0x9e3779b1) h (fold_case z)
      = foldl (\<lambda>h c. (h + ucast (0xdf AND c)) * (0x9e3779b1 :: u32)) h z" for h
    by (induction z arbitrary: h) (simp_all add: hash_mask)
  then show ?thesis by (simp add: strHash_def)
qed

lemma same_key_hash: "same_key key M a \<Longrightarrow> good M a \<Longrightarrow> elem_h (cell M a) = strHash key"
  by (metis same_key_def good_def strHash_fold)

lemma matches_same_key:
  "good M a \<Longrightarrow> c_string key \<Longrightarrow> matches (strHash key) key M a \<longleftrightarrow> same_key key M a"
  using same_key_hash [of key M a] by (auto simp: matches_def same_key_def good_def StrICmp_eq_0)

lemma find_cong_set: "\<forall>a \<in> set as. P a = Q a \<Longrightarrow> find P as = find Q as"
  by (induction as) auto

lemma find_none: "\<forall>a \<in> set as. \<not> P a \<Longrightarrow> find P as = None"
  by (simp add: find_None_iff)

lemma find_append: "find P (as @ bs) = (case find P as of None \<Rightarrow> find P bs | Some a \<Rightarrow> Some a)"
  by (induction as) auto

lemma findElement_list:
  assumes L: "listed pH M es" and c: "count pH = length es" and g: "\<forall>a \<in> set es. good M a" and k: "c_string key"
  shows "findElementWithHash pH key M = (or_null (find (same_key key M) es), strHash key)"
proof -
  let ?h = "strHash key"
  have s: "seg M 0 es 0" and f: "first pH = hd (es @ [0])" using L by (auto simp: listed_def)
  have m: "find (matches ?h key M) as = find (same_key key M) as" if "set as \<subseteq> set es" for as
    using that g k by (intro find_cong_set) (auto simp: matches_same_key)
  show ?thesis
  proof (cases "ht pH")
    case None
    then show ?thesis
      using find_loop_seg [of M 0 es "[]" 0 ?h key] s f c m [of es] by (simp add: findElementWithHash_def)
  next
    case (Some tbl)
    let ?b = "unat ?h mod htsize pH"
    obtain gl where gl: "groups_ok (htsize pH) tbl M gl" "es = concat (map snd gl)"
      using L Some by (auto simp: listed_def)
    have other: "\<not> same_key key M a" if "(b, g') \<in> set gl" "a \<in> set g'" "b \<noteq> ?b" for a b g'
    proof
      assume "same_key key M a"
      moreover have "a \<in> set es" using that gl(2) by force
      ultimately have "elem_h (cell M a) = ?h" using same_key_hash g by blast
      moreover have "bucket_of (htsize pH) M a = b"
        using that gl(1) by (auto simp: groups_ok_def entry_ok_def)
      ultimately show False using that(3) by (simp add: bucket_of_def)
    qed
    have "find_loop (ht_count (tbl ! ?b)) (chain (tbl ! ?b)) ?h key M = or_null (find (same_key key M) es)"
    proof (cases "?b \<in> fst ` set gl")
      case True
      then obtain gl1 g' gl2 where split: "gl = gl1 @ (?b, g') # gl2" by (rule map_fst_split)
      define uu ww where "uu = concat (map snd gl1)" and "ww = concat (map snd gl2)"
      have es: "es = uu @ g' @ ww" by (simp add: gl(2) split uu_def ww_def)
      have d: "?b \<notin> fst ` set gl1" "?b \<notin> fst ` set gl2" and e: "g' \<noteq> []" "ht_count (tbl ! ?b) = length g'"
        "chain (tbl ! ?b) = hd g'"
        using gl(1) split by (auto simp: groups_ok_def entry_ok_def)
      have "\<not> same_key key M a" if "a \<in> set uu" for a
      proof -
        obtain b g'' where "(b, g'') \<in> set gl1" "a \<in> set g''" using \<open>a \<in> set uu\<close> by (auto simp: uu_def)
        then show ?thesis using other [of b g'' a] d(1) split by force
      qed
      moreover have "\<not> same_key key M a" if "a \<in> set ww" for a
      proof -
        obtain b g'' where "(b, g'') \<in> set gl2" "a \<in> set g''" using \<open>a \<in> set ww\<close> by (auto simp: ww_def)
        then show ?thesis using other [of b g'' a] d(2) split by force
      qed
      ultimately have "find (same_key key M) es = find (same_key key M) g'"
        by (simp add: es find_append find_none split: option.splits)
      moreover have "seg M (last (0 # uu)) (g' @ ww) 0" using s unfolding es seg_append by simp
      moreover have "find (matches ?h key M) g' = find (same_key key M) g'" by (rule m) (auto simp: es)
      ultimately show ?thesis
        using find_loop_seg [of M "last (0 # uu)" g' ww 0 ?h key] e by simp
    next
      case False
      have "?b < htsize pH" using gl(1) by (simp add: groups_ok_def)
      then have "ht_count (tbl ! ?b) = 0" using gl(1) False by (auto simp: groups_ok_def)
      moreover have "\<forall>a \<in> set es. \<not> same_key key M a"
      proof
        fix a assume "a \<in> set es"
        then obtain b g' where "(b, g') \<in> set gl" "a \<in> set g'" unfolding gl(2) by auto
        then show "\<not> same_key key M a" using other [of b g' a] False by force
      qed
      ultimately show ?thesis by (simp add: find_none or_null_def)
    qed
    then show ?thesis using Some by (simp add: findElementWithHash_def Let_def)
  qed
qed

text \<open>The part of the old list still to be moved, linked by the \<open>next\<close> pointers only.\<close>

fun next_chain :: "memory \<Rightarrow> addr \<Rightarrow> addr list \<Rightarrow> bool" where
  "next_chain M x [] \<longleftrightarrow> x = 0"
| "next_chain M x (a # as) \<longleftrightarrow> x = a \<and> a \<noteq> 0 \<and> elems M a \<noteq> None \<and> next_chain M (elem_next (cell M a)) as"

lemma next_chain_seg: "seg M p as 0 \<Longrightarrow> next_chain M (hd (as @ [0])) as"
  by (induction as arbitrary: p) auto

lemma next_chain_alloc: "next_chain M x as \<Longrightarrow> a \<in> set as \<Longrightarrow> elems M a \<noteq> None"
  by (induction as arbitrary: x) auto

lemma next_chain_frame:
  "next_chain M x as \<Longrightarrow> \<forall>a \<in> set as. elem_next (cell M' a) = elem_next (cell M a) \<and> (elems M' a \<noteq> None)
    \<Longrightarrow> next_chain M' x as"
  by (induction as arbitrary: x) auto

lemma rehash_loop_listed:
  assumes "listed pH M es" "ht pH \<noteq> None" "next_chain M x rs" "distinct rs" "set rs \<inter> set es = {}"
    "set es \<subseteq> dom (elems M)"
  shows "\<exists>p N fs. rehash_loop (htsize pH) x pH M = Some (p, N) \<and> listed p N fs \<and> set fs = set es \<union> set rs
    \<and> ht p \<noteq> None \<and> htsize p = htsize pH \<and> count p = count pH \<and> (\<forall>a. payload N a = payload M a)
    \<and> dom (elems N) = dom (elems M) \<and> brk N = brk M"
  using assms
proof (induction rs arbitrary: pH M es x)
  case Nil
  then show ?case by (subst rehash_loop.simps) auto
next
  case (Cons a rs)
  have a: "x = a" "a \<noteq> 0" "elems M a \<noteq> None" "next_chain M (elem_next (cell M a)) rs" "a \<notin> set es" "a \<notin> set rs"
    using Cons.prems(3-5) by auto
  let ?e = "Some (bucket_of (htsize pH) M a)"
  obtain us vs p where i: "es = us @ vs" "insertElement pH ?e a M = (p, link_between us a vs M)"
    "listed p (link_between us a vs M) (us @ a # vs)" "count p = count pH" "htsize p = htsize pH"
    "ht p = None \<longleftrightarrow> ht pH = None"
    using insertElement_listed [OF Cons.prems(1) a(5,2,3), of ?e] Cons.prems(2) by auto
  let ?M = "link_between us a vs M"
  have dom: "dom (elems ?M) = dom (elems M)"
    using Cons.prems(6) a(3) i(1) by (intro link_between_rest(3)) auto
  have "elem_next (cell ?M b) = elem_next (cell M b) \<and> elems ?M b \<noteq> None" if "b \<in> set rs" for b
  proof -
    have "b \<noteq> a" "b \<notin> set us" using that a(6) Cons.prems(5) i(1) by auto
    moreover have "elems M b \<noteq> None" using next_chain_alloc [OF a(4) that] .
    ultimately show ?thesis using dom by (auto simp: link_between_rest(4))
  qed
  then have chain: "next_chain ?M (elem_next (cell M a)) rs"
    using next_chain_frame [OF a(4)] by blast
  then obtain q N fs where n: "rehash_loop (htsize p) (elem_next (cell M a)) p ?M = Some (q, N)"
    "listed q N fs" "set fs = set (us @ a # vs) \<union> set rs" "ht q \<noteq> None" "htsize q = htsize p"
    "count q = count p" "\<forall>a. payload N a = payload ?M a" "dom (elems N) = dom (elems ?M)" "brk N = brk ?M"
  proof -
    have "ht p \<noteq> None" "distinct rs" "set rs \<inter> set (us @ a # vs) = {}" "set (us @ a # vs) \<subseteq> dom (elems ?M)"
      using Cons.prems(2,4,5,6) i(1,6) a(3,6) dom by auto
    from Cons.IH [OF i(3) this(1) chain this(2-4)] show thesis
      by (elim exE conjE) (rule that)
  qed
  have "rehash_loop (htsize pH) x pH M = Some (q, N)"
    using n(1) i(2,5) a(1,2) by (subst rehash_loop.simps) (simp add: bucket_of_def)
  then show ?case
    using n i(1,4,5) dom
    by (intro exI [of _ q] exI [of _ N] exI [of _ fs]) (auto simp: link_between_rest)
qed

section \<open>The map the table stands for\<close>

text \<open>
  A table in order: the cells of the store are the elements of its list, and no two keys are
  equal up to case. The map takes folded keys to the data.
\<close>

definition hash_ok :: "Hash \<Rightarrow> memory \<Rightarrow> addr list \<Rightarrow> bool" where
  "hash_ok pH M es \<longleftrightarrow> listed pH M es \<and> count pH = length es \<and> dom (elems M) = set es
     \<and> (\<forall>a \<in> set es. a < brk M \<and> good M a) \<and> 0 < brk M
     \<and> (\<forall>a \<in> set es. \<forall>b \<in> set es. fold_case (pKey (cell M a)) = fold_case (pKey (cell M b)) \<longrightarrow> a = b)"

definition entries :: "memory \<Rightarrow> addr set \<Rightarrow> (byte list \<times> addr) set" where
  "entries M A = (\<lambda>a. (fold_case (pKey (cell M a)), elem_data (cell M a))) ` A"

definition rep :: "Hash \<Rightarrow> memory \<Rightarrow> (byte list \<Rightarrow> addr option) \<Rightarrow> bool" where
  "rep pH M m \<longleftrightarrow> (\<exists>es. hash_ok pH M es \<and> (\<forall>k d. m k = Some d \<longleftrightarrow> (k, d) \<in> entries M (set es)))"

definition data_of :: "addr option \<Rightarrow> addr" where
  "data_of r = (case r of None \<Rightarrow> 0 | Some d \<Rightarrow> d)"

lemma map_eqI: "(\<And>k d. m k = Some d \<longleftrightarrow> m' k = Some d) \<Longrightarrow> m = m'"
  by (rule ext) (metis option.exhaust)

lemma entries_cong: "\<forall>a \<in> A. payload M' a = payload M a \<Longrightarrow> entries M' A = entries M A"
  unfolding entries_def by (rule image_cong) (auto simp: payload_def)

lemma entries_iff: "(k, d) \<in> entries M A \<longleftrightarrow> (\<exists>a \<in> A. fold_case (pKey (cell M a)) = k \<and> elem_data (cell M a) = d)"
  by (auto simp: entries_def)

lemma hash_okI:
  "listed pH M es \<Longrightarrow> count pH = length es \<Longrightarrow> dom (elems M) = set es \<Longrightarrow> 0 < brk M
    \<Longrightarrow> (\<And>a. a \<in> set es \<Longrightarrow> a < brk M) \<Longrightarrow> (\<And>a. a \<in> set es \<Longrightarrow> good M a)
    \<Longrightarrow> (\<And>a b. a \<in> set es \<Longrightarrow> b \<in> set es \<Longrightarrow> fold_case (pKey (cell M a)) = fold_case (pKey (cell M b)) \<Longrightarrow> a = b)
    \<Longrightarrow> hash_ok pH M es"
  unfolding hash_ok_def by blast

lemma hash_okD:
  assumes "hash_ok pH M es"
  shows "listed pH M es" "count pH = length es" "dom (elems M) = set es" "0 < brk M" "distinct es"
    "a \<in> set es \<Longrightarrow> a < brk M" "a \<in> set es \<Longrightarrow> good M a"
    "a \<in> set es \<Longrightarrow> b \<in> set es \<Longrightarrow> fold_case (pKey (cell M a)) = fold_case (pKey (cell M b)) \<Longrightarrow> a = b"
  using assms unfolding hash_ok_def listed_def by blast+

lemma good_payload: "payload M' a = payload M a \<Longrightarrow> good M' a \<longleftrightarrow> good M a"
  by (simp add: good_def payload_def)

lemma payload_key: "payload M' a = payload M a \<Longrightarrow> pKey (cell M' a) = pKey (cell M a)"
  by (simp add: payload_def)

text \<open>Looking up the element with a key.\<close>

lemma find_rep:
  assumes h: "hash_ok pH M es" and m: "\<forall>k d. m k = Some d \<longleftrightarrow> (k, d) \<in> entries M (set es)" and k: "c_string key"
  obtains (present) us a vs where "findElementWithHash pH key M = (a, strHash key)" "es = us @ a # vs"
      "fold_case (pKey (cell M a)) = fold_case key" "m (fold_case key) = Some (elem_data (cell M a))"
      "elem_data (cell M a) \<noteq> 0" "a \<noteq> 0"
  | (absent) "findElementWithHash pH key M = (0, strHash key)" "elem_data (cell M 0) = 0"
      "m (fold_case key) = None" "\<forall>a \<in> set es. fold_case (pKey (cell M a)) \<noteq> fold_case key"
proof -
  have L: "listed pH M es" "count pH = length es" "\<forall>a \<in> set es. good M a"
    using h by (auto simp: hash_ok_def)
  note f = findElement_list [OF L k]
  have nz: "0 \<notin> set es" using L(1) seg_nonzero by (auto simp: listed_def)
  show thesis
  proof (cases "find (same_key key M) es")
    case None
    then have none: "\<forall>a \<in> set es. fold_case (pKey (cell M a)) \<noteq> fold_case key"
      by (auto simp: find_None_iff same_key_def)
    have "m (fold_case key) \<noteq> Some d" for d
      using m none by (simp add: entries_iff)
    then have "m (fold_case key) = None" by auto
    moreover have "elems M 0 = None" using nz h by (auto simp: hash_ok_def)
    then have "elem_data (cell M 0) = 0" by (simp add: cell_def nullElement_def)
    ultimately show thesis using absent None f none by (simp add: or_null_def)
  next
    case (Some a)
    then have a: "a \<in> set es" "fold_case (pKey (cell M a)) = fold_case key"
      by (auto simp: find_Some_iff same_key_def)
    then obtain us vs where es: "es = us @ a # vs" by (auto simp: in_set_conv_decomp)
    have "m (fold_case key) = Some (elem_data (cell M a))"
      using m a by (auto simp: entries_iff)
    moreover have "a \<noteq> 0" using a(1) nz by metis
    moreover have "elem_data (cell M a) \<noteq> 0" using a(1) L(3) by (auto simp: good_def)
    moreover have "findElementWithHash pH key M = (a, strHash key)" using f Some by (simp add: or_null_def)
    ultimately show thesis using present [OF _ es a(2)] by blast
  qed
qed

lemma HashFind_rep: "rep pH M m \<Longrightarrow> c_string key \<Longrightarrow> sqlite3HashFind pH key M = data_of (m (fold_case key))"
proof -
  assume r: "rep pH M m" and k: "c_string key"
  obtain es where h: "hash_ok pH M es" "\<forall>k d. m k = Some d \<longleftrightarrow> (k, d) \<in> entries M (set es)"
    using r by (auto simp: rep_def)
  from find_rep [OF h k] show ?thesis
    by cases (simp_all add: sqlite3HashFind_def data_of_def)
qed

text \<open>Storing other data and another spelling of the key in an element.\<close>

lemma seg_set_payload:
  "seg M p as z \<Longrightarrow> elems M a \<noteq> None \<Longrightarrow> seg (modify a (\<lambda>e. e\<lparr>elem_data := d, pKey := key\<rparr>) M) p as z"
  by (induction as arbitrary: p) auto

lemma listed_same:
  assumes L: "listed pH M es" and N: "seg N 0 es 0" "\<forall>a \<in> set es. elem_h (cell N a) = elem_h (cell M a)"
  shows "listed pH N es"
proof (cases "ht pH")
  case None
  then show ?thesis using L N(1) by (simp add: listed_def)
next
  case (Some tbl)
  then obtain gl where gl: "groups_ok (htsize pH) tbl M gl" "es = concat (map snd gl)"
    using L by (auto simp: listed_def)
  have "groups_ok (htsize pH) tbl N gl" by (rule groups_ok_hash [OF gl(1)]) (use N(2) gl(2) in simp)
  then show ?thesis using L N(1) Some gl(2) unfolding listed_def by auto
qed

lemma listed_seg: "listed pH M es \<Longrightarrow> seg M 0 es 0"
  by (simp add: listed_def)

lemma replace_rep:
  assumes h: "hash_ok pH M es" and m: "\<forall>k d. m k = Some d \<longleftrightarrow> (k, d) \<in> entries M (set es)"
    and a: "a \<in> set es" "fold_case (pKey (cell M a)) = fold_case key" and k: "c_string key" "d \<noteq> 0"
  shows "rep pH (modify a (\<lambda>e. e\<lparr>elem_data := d, pKey := key\<rparr>) M) (m(fold_case key \<mapsto> d))"
proof -
  let ?M = "modify a (\<lambda>e. e\<lparr>elem_data := d, pKey := key\<rparr>) M"
  note D = hash_okD [OF h]
  have al: "elems M a \<noteq> None" using D(3) a(1) by auto
  have hash: "strHash key = elem_h (cell M a)"
    using D(7) [OF a(1)] a(2) by (metis good_def strHash_fold)
  have fk: "fold_case (pKey (cell ?M b)) = fold_case (pKey (cell M b))" for b
    using a(2) by simp
  have "hash_ok pH ?M es"
  proof (rule hash_okI)
    show "listed pH ?M es"
      by (rule listed_same [OF D(1) seg_set_payload [OF listed_seg [OF D(1)] al]]) simp
    show "dom (elems ?M) = set es" using D(3) a(1) by (simp add: dom_modify insert_absorb)
    show "good ?M b" if "b \<in> set es" for b
      using D(7) [OF that] k hash by (simp add: good_def)
    show "b = c" if "b \<in> set es" "c \<in> set es" "fold_case (pKey (cell ?M b)) = fold_case (pKey (cell ?M c))" for b c
      using D(8) [OF that(1,2)] that(3) unfolding fk .
  qed (use D in \<open>simp_all\<close>)
  moreover have "(m(fold_case key \<mapsto> d)) x = Some y \<longleftrightarrow> (x, y) \<in> entries ?M (set es)" for x y
  proof (cases "x = fold_case key")
    case True
    have "(x, y) \<in> entries ?M (set es) \<longleftrightarrow> y = d"
    proof
      assume "(x, y) \<in> entries ?M (set es)"
      then obtain b where b: "b \<in> set es" "fold_case (pKey (cell M b)) = x" "elem_data (cell ?M b) = y"
        unfolding entries_iff fk by auto
      have "b = a" by (rule D(8)) (use b a True in auto)
      then show "y = d" using b(3) by simp
    next
      assume "y = d"
      then show "(x, y) \<in> entries ?M (set es)"
        using a True unfolding entries_iff fk by (intro bexI [of _ a]) simp_all
    qed
    then show ?thesis using True by auto
  next
    case False
    then have "\<forall>b. fold_case (pKey (cell M b)) = x \<longrightarrow> elem_data (cell ?M b) = elem_data (cell M b)"
      using a(2) by auto
    then have "(x, y) \<in> entries ?M (set es) \<longleftrightarrow> (x, y) \<in> entries M (set es)"
      unfolding entries_iff fk by metis
    then show ?thesis using False m by simp
  qed
  ultimately show ?thesis unfolding rep_def by blast
qed

lemma remove_rep:
  assumes h: "hash_ok pH M (us @ a # vs)" and m: "\<forall>k d. m k = Some d \<longleftrightarrow> (k, d) \<in> entries M (set (us @ a # vs))"
    and a: "fold_case (pKey (cell M a)) = k"
  obtains p N where "removeElement pH a M = Some (p, N)" "rep p N (m(k := None))"
proof -
  let ?N = "unlink us a vs M" and ?es = "us @ a # vs"
  note D = hash_okD [OF h]
  have c: "count pH = Suc (length (us @ vs))" using D(2) by simp
  obtain p where p: "removeElement pH a M = Some (p, ?N)" "listed p ?N (us @ vs)" "count p = length (us @ vs)"
    by (rule removeElement_listed [OF D(1) c])
  have rest: "set (us @ vs) = set ?es - {a}" using D(5) by auto
  have in_rest: "b \<in> set ?es" "b \<noteq> a" if "b \<in> set (us @ vs)" for b
    using that D(5) by auto
  have pl: "payload ?N b = payload M b" if "b \<in> set (us @ vs)" for b
    using in_rest(2) [OF that] by (rule unlink_rest(1))
  have "hash_ok p ?N (us @ vs)"
  proof (rule hash_okI [OF p(2,3)])
    show "dom (elems ?N) = set (us @ vs)"
      unfolding rest using unlink_rest(2) [of us a vs M] D(3) by simp
    show "0 < brk ?N" using D(4) by (simp add: unlink_rest(3))
    show "b < brk ?N" if "b \<in> set (us @ vs)" for b
      using D(6) [OF in_rest(1) [OF that]] by (simp add: unlink_rest(3))
    show "good ?N b" if "b \<in> set (us @ vs)" for b
      using D(7) [OF in_rest(1) [OF that]] good_payload [OF pl [OF that]] by simp
    show "b = c" if "b \<in> set (us @ vs)" "c \<in> set (us @ vs)" "fold_case (pKey (cell ?N b)) = fold_case (pKey (cell ?N c))" for b c
      using D(8) [OF in_rest(1) [OF that(1)] in_rest(1) [OF that(2)]] that(3) payload_key [OF pl [OF that(1)]]
        payload_key [OF pl [OF that(2)]] by simp
  qed
  moreover have "(m(k := None)) x = Some y \<longleftrightarrow> (x, y) \<in> entries ?N (set (us @ vs))" for x y
  proof -
    have "entries ?N (set (us @ vs)) = entries M (set ?es - {a})"
      unfolding rest [symmetric] using pl by (intro entries_cong) blast
    moreover have "(x, y) \<in> entries M (set ?es - {a}) \<longleftrightarrow> x \<noteq> k \<and> (x, y) \<in> entries M (set ?es)"
    proof
      assume "(x, y) \<in> entries M (set ?es - {a})"
      then obtain b where b: "b \<in> set ?es" "b \<noteq> a" "x = fold_case (pKey (cell M b))" "y = elem_data (cell M b)"
        unfolding entries_iff by blast
      have "x \<noteq> k" using D(8) [of b a] b(1-3) a by auto
      then show "x \<noteq> k \<and> (x, y) \<in> entries M (set ?es)" using b(1,3,4) unfolding entries_iff by blast
    next
      assume "x \<noteq> k \<and> (x, y) \<in> entries M (set ?es)"
      then show "(x, y) \<in> entries M (set ?es - {a})" using a unfolding entries_iff by blast
    qed
    ultimately show ?thesis using m by simp
  qed
  ultimately have "rep p ?N (m(k := None))" unfolding rep_def by blast
  with p(1) show thesis by (rule that)
qed

section \<open>Inserting a new element\<close>

lemma listed_table: "listed (pH\<lparr>count := n\<rparr>) M es \<longleftrightarrow> listed pH M es"
  by (cases "ht pH") (simp_all add: listed_def)

lemma cell_mallocs [simp]: "cell (M\<lparr>mallocs := k\<rparr>) = cell M"
  by (rule ext) (simp add: cell_def)

lemma listed_mallocs: "listed pH M es \<Longrightarrow> listed pH (M\<lparr>mallocs := k\<rparr>) es"
  by (rule listed_same [of _ M]) (auto simp: listed_def intro: seg_frame [where M = M])

lemma rehash_listed:
  assumes L: "listed pH M es" and d: "set es \<subseteq> dom (elems M)" and n: "0 < n"
  shows "\<exists>p N fs. rehash ok extra pH n M = Some (p, N) \<and> listed p N fs \<and> set fs = set es
    \<and> (ht pH \<noteq> None \<longrightarrow> ht p \<noteq> None) \<and> count p = count pH \<and> (\<forall>a. payload N a = payload M a)
    \<and> dom (elems N) = dom (elems M) \<and> brk N = brk M"
proof -
  define n' where "n' = (if n * 16 > 1024 then 1024 div 16 else n)"
  let ?k = "mallocs M" let ?M = "M\<lparr>mallocs := ?k + 1\<rparr>"
  have LM: "listed pH ?M es" by (rule listed_mallocs [OF L])
  have pl: "payload ?M a = payload M a" for a by (simp add: payload_def)
  define N' where "N' = n' + extra n'"
  define p0 where "p0 = pH\<lparr>ht := Some (replicate N' \<lparr>ht_count = 0, chain = 0\<rparr>), htsize := N', first := 0\<rparr>"
  have run: "rehash ok extra pH n M = (if n' = htsize pH then Some (pH, M)
      else if \<not> ok ?k then Some (pH, ?M) else rehash_loop N' (first pH) p0 ?M)"
    unfolding rehash_def n'_def [symmetric] Let_def N'_def p0_def by simp
  consider (same) "n' = htsize pH" | (nomem) "n' \<noteq> htsize pH" "\<not> ok ?k" | (grow) "n' \<noteq> htsize pH" "ok ?k"
    by blast
  then show ?thesis
  proof cases
    case same
    then show ?thesis using L unfolding run by auto
  next
    case nomem
    then show ?thesis
      using LM pl unfolding run by (intro exI [of _ pH] exI [of _ ?M] exI [of _ es]) simp
  next
    case grow
    then have run: "rehash ok extra pH n M = rehash_loop (htsize p0) (first pH) p0 ?M"
      by (simp add: run p0_def)
    have "0 < N'" using n by (simp add: N'_def n'_def)
    then have "groups_ok N' (replicate N' \<lparr>ht_count = 0, chain = 0\<rparr>) ?M []" by (simp add: groups_ok_def)
    then have "listed p0 ?M []" unfolding listed_def p0_def by (auto intro!: exI [of _ "[]"])
    moreover have "next_chain ?M (first pH) es" "distinct es"
      using LM next_chain_seg [of ?M 0 es] by (auto simp: listed_def)
    ultimately have "\<exists>p N fs. rehash_loop (htsize p0) (first pH) p0 ?M = Some (p, N) \<and> listed p N fs
      \<and> set fs = set [] \<union> set es \<and> ht p \<noteq> None \<and> htsize p = htsize p0 \<and> count p = count p0
      \<and> (\<forall>a. payload N a = payload ?M a) \<and> dom (elems N) = dom (elems ?M) \<and> brk N = brk ?M"
      by (intro rehash_loop_listed) (simp_all add: p0_def)
    then obtain p N fs where r: "rehash_loop (htsize p0) (first pH) p0 ?M = Some (p, N)" "listed p N fs"
      "set fs = set [] \<union> set es" "ht p \<noteq> None" "htsize p = htsize p0" "count p = count p0"
      "\<forall>a. payload N a = payload ?M a" "dom (elems N) = dom (elems ?M)" "brk N = brk ?M"
      by (elim exE conjE) (rule that)
    show ?thesis
      unfolding run by (intro exI [of _ p] exI [of _ N] exI [of _ fs]) (use r pl in \<open>simp add: p0_def\<close>)
  qed
qed

lemma insert_rep:
  assumes h: "hash_ok pH M es" and m: "\<forall>k d. m k = Some d \<longleftrightarrow> (k, d) \<in> entries M (set es)"
    and k: "c_string key" "d \<noteq> 0" and new: "\<forall>a \<in> set es. fold_case (pKey (cell M a)) \<noteq> fold_case key"
    and ok: "ok (mallocs M)" and f: "findElementWithHash pH key M = (0, strHash key)" "elem_data (cell M 0) = 0"
  obtains p N where "sqlite3HashInsert ok extra pH key d M = Some (0, p, N)" "rep p N (m(fold_case key \<mapsto> d))"
proof -
  note D = hash_okD [OF h]
  let ?a = "brk M"
  let ?c = "\<lparr>elem_next = 0, elem_prev = 0, elem_data = d, pKey = key, elem_h = strHash key\<rparr>"
  define M1 where "M1 = M\<lparr>mallocs := mallocs M + 1, brk := ?a + 1, elems := (elems M)(?a \<mapsto> ?c)\<rparr>"
  define p1 where "p1 = pH\<lparr>count := count pH + 1\<rparr>"
  have a: "?a \<notin> set es" "?a \<noteq> 0" using D(4,6) by auto
  have cell1: "cell M1 b = (if b = ?a then ?c else cell M b)" for b by (simp add: M1_def cell_def)
  have "seg M1 0 es 0" by (rule seg_frame [OF listed_seg [OF D(1)]]) (use a in \<open>auto simp: M1_def\<close>)
  moreover have "\<forall>b \<in> set es. elem_h (cell M1 b) = elem_h (cell M b)" using a by (auto simp: cell1)
  ultimately have L1: "listed p1 M1 es" unfolding p1_def listed_table by (rule listed_same [OF D(1)])
  have dom1: "dom (elems M1) = insert ?a (set es)" using D(3) by (simp add: M1_def)
  define step where "step = (if count p1 \<ge> 5 \<and> count p1 > 2 * htsize p1 then rehash ok extra p1 (count p1 * 3) M1 else Some (p1, M1))"
  have "\<exists>p N fs. step = Some (p, N) \<and> listed p N fs \<and> set fs = set es \<and> count p = count p1
    \<and> (\<forall>b. payload N b = payload M1 b) \<and> dom (elems N) = dom (elems M1) \<and> brk N = brk M1"
  proof (cases "count p1 \<ge> 5 \<and> count p1 > 2 * htsize p1")
    case True
    have "set es \<subseteq> dom (elems M1)" "0 < count p1 * 3" using dom1 by (auto simp: p1_def)
    from rehash_listed [OF L1 this, of ok extra] show ?thesis
      using True by (simp add: step_def) blast
  next
    case False
    then show ?thesis using L1 by (intro exI [of _ p1] exI [of _ M1] exI [of _ es]) (auto simp: step_def)
  qed
  then obtain p N fs where n: "step = Some (p, N)" "listed p N fs" "set fs = set es" "count p = count p1"
    "\<forall>b. payload N b = payload M1 b" "dom (elems N) = dom (elems M1)" "brk N = brk M1"
    by (elim exE conjE) (rule that)
  let ?e = "if ht p = None then None else Some (bucket_of (htsize p) N ?a)"
  have al: "?a \<notin> set fs" "elems N ?a \<noteq> None" using a(1) n(3,6) dom1 by auto
  obtain us vs q where i: "fs = us @ vs" "insertElement p ?e ?a N = (q, link_between us ?a vs N)"
    "listed q (link_between us ?a vs N) (us @ ?a # vs)" "count q = count p"
    by (rule insertElement_listed [OF n(2) al(1) a(2) al(2) refl])
  let ?N = "link_between us ?a vs N" and ?es = "us @ ?a # vs"
  have hN: "elem_h (cell N ?a) = strHash key"
    using n(5) [rule_format, of ?a] by (simp add: payload_def cell1)
  then have e: "?e = (if ht p \<noteq> None then Some (unat (strHash key) mod htsize p) else None)"
    by (simp add: bucket_of_def)
  have run: "sqlite3HashInsert ok extra pH key d M = Some (0, q, ?N)"
  proof -
    have "sqlite3HashInsert ok extra pH key d M = (case step of None \<Rightarrow> None
        | Some (pH, M) \<Rightarrow> (case insertElement pH
            (if ht pH \<noteq> None then Some (unat (strHash key) mod htsize pH) else None) ?a M of
              (pH, M) \<Rightarrow> Some (0, pH, M)))"
      using f k(2) ok by (simp add: sqlite3HashInsert_def step_def p1_def M1_def Let_def)
    then show ?thesis unfolding n(1) using i(2) unfolding e by simp
  qed
  have pl: "payload ?N b = payload M1 b" for b
    using n(5) by (simp add: link_between_rest(1))
  have set: "set ?es = insert ?a (set es)" using n(3) i(1) by auto
  have new_cell: "pKey (cell ?N ?a) = key" "elem_data (cell ?N ?a) = d" "elem_h (cell ?N ?a) = strHash key"
    using pl [of ?a] by (simp_all add: payload_def cell1)
  have plo: "payload ?N b = payload M b" if "b \<in> set es" for b
    using pl [of b] a(1) that by (auto simp: payload_def cell1)
  have "hash_ok q ?N ?es"
  proof (rule hash_okI [OF i(3)])
    have "distinct es" "distinct fs" using D(5) n(2) by (auto simp: listed_def)
    then have "length fs = length es" using n(3) by (metis distinct_card)
    then show "count q = length ?es" using i(1,4) n(4) D(2) by (simp add: p1_def)
    have "dom (elems ?N) = dom (elems N)"
      by (rule link_between_rest(3)) (use al i(1) n(3,6) dom1 in auto)
    then show "dom (elems ?N) = set ?es" unfolding set n(6) dom1 .
    have brk: "brk ?N = ?a + 1" using n(7) by (simp add: link_between_rest(5) M1_def)
    then show "0 < brk ?N" by simp
    show "b < brk ?N" if "b \<in> set ?es" for b using that D(6) [of b] unfolding set brk by auto
    show "good ?N b" if "b \<in> set ?es" for b
    proof (cases "b = ?a")
      case True
      then show ?thesis using new_cell k by (simp add: good_def)
    next
      case False
      then have "b \<in> set es" using that unfolding set by simp
      then show ?thesis using D(7) good_payload [OF plo] by simp
    qed
    show "b = c" if "b \<in> set ?es" "c \<in> set ?es" "fold_case (pKey (cell ?N b)) = fold_case (pKey (cell ?N c))" for b c
    proof -
      have key: "fold_case (pKey (cell ?N x)) = (if x = ?a then fold_case key else fold_case (pKey (cell M x)))"
        if "x \<in> set ?es" for x
        using that new_cell payload_key [OF plo, of x] unfolding set by auto
      show ?thesis
        using that D(8) [of b c] new a(1) unfolding key [OF that(1)] key [OF that(2)] unfolding set
        by (auto split: if_splits)
    qed
  qed
  moreover have "(m(fold_case key \<mapsto> d)) x = Some y \<longleftrightarrow> (x, y) \<in> entries ?N (set ?es)" for x y
  proof -
    have "entries ?N (set es) = entries M (set es)" using plo by (intro entries_cong) blast
    moreover have "entries ?N (set ?es) = insert (fold_case key, d) (entries ?N (set es))"
      unfolding set entries_def using new_cell by simp
    moreover have "(fold_case key, z) \<notin> entries M (set es)" for z using new by (auto simp: entries_iff)
    ultimately show ?thesis using m by auto
  qed
  ultimately have "rep q ?N (m(fold_case key \<mapsto> d))" unfolding rep_def by blast
  with run show thesis by (rule that)
qed

section \<open>The interface: a map keyed by identifiers\<close>

text \<open>
  \<open>upd s k d\<close> stores \<open>d\<close>, or removes the key when \<open>d\<close> is 0, and returns the old data; when
  there is no memory for a new element it returns the new data and leaves the map.
\<close>

locale case_map =
  fixes rep_map :: "'s \<Rightarrow> (byte list \<Rightarrow> addr option) \<Rightarrow> bool"
    and get :: "'s \<Rightarrow> byte list \<Rightarrow> addr"
    and upd :: "'s \<Rightarrow> byte list \<Rightarrow> addr \<Rightarrow> (addr \<times> 's) option"
  assumes get_law: "rep_map s m \<Longrightarrow> c_string k \<Longrightarrow> get s k = data_of (m (fold_case k))"
    and del_law: "rep_map s m \<Longrightarrow> c_string k \<Longrightarrow>
      \<exists>t. upd s k 0 = Some (data_of (m (fold_case k)), t) \<and> rep_map t (m(fold_case k := None))"
    and put_law: "rep_map s m \<Longrightarrow> c_string k \<Longrightarrow> d \<noteq> 0 \<Longrightarrow>
      \<exists>r t. upd s k d = Some (r, t) \<and> (r = data_of (m (fold_case k)) \<and> rep_map t (m(fold_case k \<mapsto> d))
        \<or> r = d \<and> m (fold_case k) = None \<and> rep_map t m)"
    and data_law: "rep_map s m \<Longrightarrow> m k \<noteq> Some 0"
begin

text \<open>A client that checks for the returned new data knows whether its data was stored.\<close>

lemma put_get:
  assumes s: "rep_map s m" and k: "c_string k" "c_string k'" "d \<noteq> 0" and u: "upd s k d = Some (r, t)"
  shows "get t k' = (if fold_case k' = fold_case k \<and> (r \<noteq> d \<or> m (fold_case k) \<noteq> None) then d else get s k')"
proof -
  obtain m' where m': "rep_map t m'" "m' = m(fold_case k \<mapsto> d) \<and> r = data_of (m (fold_case k))
      \<or> m' = m \<and> r = d \<and> m (fold_case k) = None"
    using put_law [OF s k(1,3)] u by auto
  have "data_of (m (fold_case k)) \<noteq> d" if "m (fold_case k) = None"
    using that k(3) by (simp add: data_of_def)
  then show ?thesis
    using m'(2) by (auto simp: get_law [OF m'(1) k(2)] get_law [OF s k(2)] data_of_def)
qed

lemma delete_get:
  assumes s: "rep_map s m" and k: "c_string k" "c_string k'" and u: "upd s k 0 = Some (r, t)"
  shows "get t k' = (if fold_case k' = fold_case k then 0 else get s k')" "r = get s k"
  using del_law [OF s k(1)] u get_law [OF s] k by (auto simp: get_law data_of_def)

end

lemma HashInsert_put:
  assumes r: "rep pH M m" and k: "c_string key" "d \<noteq> 0"
  shows "\<exists>r p N. sqlite3HashInsert ok extra pH key d M = Some (r, p, N)
    \<and> (r = data_of (m (fold_case key)) \<and> rep p N (m(fold_case key \<mapsto> d))
      \<or> r = d \<and> m (fold_case key) = None \<and> \<not> ok (mallocs M) \<and> rep p N m)"
proof -
  obtain es where h: "hash_ok pH M es" "\<forall>k d. m k = Some d \<longleftrightarrow> (k, d) \<in> entries M (set es)"
    using r by (auto simp: rep_def)
  from h k(1) show ?thesis
  proof (cases rule: find_rep)
    case (present us a vs)
    have "rep pH (modify a (\<lambda>e. e\<lparr>elem_data := d, pKey := key\<rparr>) M) (m(fold_case key \<mapsto> d))"
      using replace_rep [OF h _ present(3) k] present(2) by simp
    then show ?thesis
      using present k(2) by (auto simp: sqlite3HashInsert_def data_of_def)
  next
    case absent
    show ?thesis
    proof (cases "ok (mallocs M)")
      case True
      obtain p N where "sqlite3HashInsert ok extra pH key d M = Some (0, p, N)" "rep p N (m(fold_case key \<mapsto> d))"
        using insert_rep [OF h k absent(4), of ok extra] True absent(1,2) by blast
      then show ?thesis using absent(3) by (auto simp: data_of_def)
    next
      case False
      let ?M = "M\<lparr>mallocs := mallocs M + 1\<rparr>"
      note D = hash_okD [OF h(1)]
      have "hash_ok pH ?M es"
        by (rule hash_okI [OF listed_mallocs [OF D(1)]]) (use D in \<open>auto simp: good_def\<close>)
      moreover have "entries ?M (set es) = entries M (set es)" by (simp add: entries_def)
      ultimately have "rep pH ?M m" using h(2) unfolding rep_def by auto
      moreover have "sqlite3HashInsert ok extra pH key d M = Some (d, pH, ?M)"
        using absent(1,2) k(2) False by (simp add: sqlite3HashInsert_def Let_def)
      ultimately show ?thesis using absent(3) False by blast
    qed
  qed
qed

lemma HashInsert_delete:
  assumes r: "rep pH M m" and k: "c_string key"
  shows "\<exists>p N. sqlite3HashInsert ok extra pH key 0 M = Some (data_of (m (fold_case key)), p, N)
    \<and> rep p N (m(fold_case key := None))"
proof -
  obtain es where h: "hash_ok pH M es" "\<forall>k d. m k = Some d \<longleftrightarrow> (k, d) \<in> entries M (set es)"
    using r by (auto simp: rep_def)
  from h k show ?thesis
  proof (cases rule: find_rep)
    case (present us a vs)
    obtain p N where "removeElement pH a M = Some (p, N)" "rep p N (m(fold_case key := None))"
      using remove_rep [OF h [unfolded present(2)] present(3)] by blast
    then show ?thesis using present by (simp add: sqlite3HashInsert_def data_of_def)
  next
    case absent
    have "m(fold_case key := None) = m" using absent(3) by auto
    then show ?thesis using absent r by (simp add: sqlite3HashInsert_def data_of_def)
  qed
qed

lemma rep_data: "rep pH M m \<Longrightarrow> m k \<noteq> Some 0"
proof
  assume "rep pH M m" "m k = Some 0"
  then obtain es a where a: "hash_ok pH M es" "a \<in> set es" "elem_data (cell M a) = 0"
    by (auto simp: rep_def entries_iff)
  have "good M a" using a(1,2) by (rule hash_okD(7))
  then show False using a(3) by (simp add: good_def)
qed

interpretation hash: case_map "\<lambda>(pH, M). rep pH M" "\<lambda>(pH, M) k. sqlite3HashFind pH k M"
  "\<lambda>(pH, M) k d. map_option (\<lambda>(r, p, N). (r, (p, N))) (sqlite3HashInsert ok extra pH k d M)"
proof
  fix s :: "Hash \<times> memory" and m k and d :: addr
  obtain pH M where s: "s = (pH, M)" by (cases s)
  assume "(case s of (pH, M) \<Rightarrow> rep pH M) m"
  then have r: "rep pH M m" by (simp add: s)
  show "m k \<noteq> Some 0"
    using rep_data [OF r] .
  assume k: "c_string k"
  show "(case s of (pH, M) \<Rightarrow> \<lambda>k. sqlite3HashFind pH k M) k = data_of (m (fold_case k))"
    using HashFind_rep [OF r k] by (simp add: s)
  show "\<exists>t. (case s of (pH, M) \<Rightarrow> \<lambda>k d. map_option (\<lambda>(r, p, N). (r, (p, N))) (sqlite3HashInsert ok extra pH k d M)) k 0
      = Some (data_of (m (fold_case k)), t) \<and> (case t of (pH, M) \<Rightarrow> rep pH M) (m(fold_case k := None))"
    using HashInsert_delete [OF r k, of ok extra] by (auto simp: s)
  assume "d \<noteq> 0"
  then show "\<exists>r t. (case s of (pH, M) \<Rightarrow> \<lambda>k d. map_option (\<lambda>(r, p, N). (r, (p, N))) (sqlite3HashInsert ok extra pH k d M)) k d
      = Some (r, t) \<and> (r = data_of (m (fold_case k)) \<and> (case t of (pH, M) \<Rightarrow> rep pH M) (m(fold_case k \<mapsto> d))
        \<or> r = d \<and> m (fold_case k) = None \<and> (case t of (pH, M) \<Rightarrow> rep pH M) m)"
    using HashInsert_put [OF r k, of d ok extra] by (auto simp: s)
qed

section \<open>Clearing\<close>

lemma clear_loop_chain:
  assumes "next_chain M x as" "distinct as" "dom (elems M) = set as"
  shows "\<exists>N. clear_loop x M = Some N \<and> elems N = Map.empty \<and> brk N = brk M"
  using assms
proof (induction as arbitrary: M x)
  case Nil
  then show ?case by (subst clear_loop.simps) (auto simp: dom_def)
next
  case (Cons a as)
  let ?M = "free_elem a M"
  have chain: "next_chain ?M (elem_next (cell M a)) as"
    using Cons.prems(1,2) by (auto intro!: next_chain_frame [where M = M] dest: next_chain_alloc
        simp: free_elem_def cell_def)
  have "distinct as" "dom (elems ?M) = set as" using Cons.prems(2,3) by (simp_all add: dom_free)
  from Cons.IH [OF chain this] obtain N
    where "clear_loop (elem_next (cell M a)) ?M = Some N" "elems N = Map.empty" "brk N = brk ?M" by auto
  then show ?case
    using Cons.prems(1) by (subst clear_loop.simps) simp
qed

lemma rep_init: "elems M = Map.empty \<Longrightarrow> 0 < brk M \<Longrightarrow> rep sqlite3HashInit M Map.empty"
  unfolding rep_def
  by (intro exI [of _ "[]"]) (simp add: hash_ok_def listed_def sqlite3HashInit_def entries_def)

lemma HashClear_rep:
  assumes "rep pH M m"
  shows "\<exists>N. sqlite3HashClear pH M = Some (sqlite3HashInit, N) \<and> elems N = Map.empty \<and> rep sqlite3HashInit N Map.empty"
proof -
  obtain es where h: "hash_ok pH M es" using assms by (auto simp: rep_def)
  note D = hash_okD [OF h]
  have "next_chain M (first pH) es"
    using D(1) next_chain_seg [of M 0 es] by (simp add: listed_def)
  from clear_loop_chain [OF this D(5,3)] obtain N
    where "clear_loop (first pH) M = Some N" "elems N = Map.empty" "brk N = brk M" by auto
  then show ?thesis
    using D(4) by (simp add: sqlite3HashClear_def rep_init, simp add: sqlite3HashInit_def)
qed

text \<open>
  C27. A table in order stands for a map from identifiers up to case: lookup returns the datum
  or 0, insertion updates the map or, when a new element cannot be allocated, returns the new
  datum and leaves the map, insertion of 0 removes the key, clearing frees every element; all
  of these end and keep list, buckets and store in order.
\<close>

theorem hash_table_refines_map:
  assumes "rep pH M m" "c_string k" "d \<noteq> 0"
  shows "sqlite3HashFind pH k M = data_of (m (fold_case k))
    \<and> (\<exists>r p N. sqlite3HashInsert ok extra pH k d M = Some (r, p, N)
        \<and> (r = data_of (m (fold_case k)) \<and> rep p N (m(fold_case k \<mapsto> d))
          \<or> r = d \<and> m (fold_case k) = None \<and> \<not> ok (mallocs M) \<and> rep p N m))
    \<and> (\<exists>p N. sqlite3HashInsert ok extra pH k 0 M = Some (data_of (m (fold_case k)), p, N)
        \<and> rep p N (m(fold_case k := None)))
    \<and> (\<exists>N. sqlite3HashClear pH M = Some (sqlite3HashInit, N) \<and> elems N = Map.empty
        \<and> rep sqlite3HashInit N Map.empty)"
  using HashFind_rep [OF assms(1,2)] HashInsert_put [OF assms] HashInsert_delete [OF assms(1,2)]
    HashClear_rep [OF assms(1)] by simp

theorem hash_table_refines_map_witness:
  "\<exists>p N. sqlite3HashInsert (\<lambda>k. True) (\<lambda>n. 0) sqlite3HashInit [0x54, 0x31] 7
      \<lparr>elems = Map.empty, brk = 1, mallocs = 0\<rparr> = Some (0, p, N) \<and> rep p N [[0x74, 0x31] \<mapsto> 7]"
proof -
  let ?M = "\<lparr>elems = Map.empty, brk = 1, mallocs = 0\<rparr>"
  have "rep sqlite3HashInit ?M Map.empty" by (rule rep_init) simp_all
  from hash_table_refines_map [OF this, of "[0x54, 0x31]" 7 "\<lambda>k. True" "\<lambda>n. 0"]
  show ?thesis by (simp add: data_of_def UpperToLower_table)
qed

text \<open>
  After sqlite3HashInsert of a non-null datum a lookup of the same identifier in any
  spelling returns it, unless the insertion returned the datum itself for a new key, and every
  other lookup is unchanged.
\<close>

theorem hash_insert_then_find:
  assumes "rep pH M m" "c_string k" "c_string k'" "d \<noteq> 0"
    "sqlite3HashInsert ok extra pH k d M = Some (r, p, N)"
  shows "sqlite3HashFind p k' N =
    (if fold_case k' = fold_case k \<and> (r \<noteq> d \<or> sqlite3HashFind pH k M \<noteq> 0) then d
     else sqlite3HashFind pH k' M)"
proof -
  have "sqlite3HashFind p k' N = (if fold_case k' = fold_case k \<and> (r \<noteq> d \<or> m (fold_case k) \<noteq> None) then d
      else sqlite3HashFind pH k' M)"
    using hash.put_get [of "(pH, M)" m k k' d ok extra r "(p, N)"] assms unfolding prod.case by simp
  moreover have "m (fold_case k) \<noteq> None \<longleftrightarrow> sqlite3HashFind pH k M \<noteq> 0"
    using HashFind_rep [OF assms(1,2)] rep_data [OF assms(1), of "fold_case k"]
    by (auto simp: data_of_def split: option.splits)
  ultimately show ?thesis by simp
qed

theorem hash_insert_then_find_witness:
  "sqlite3HashFind (fst (snd (the (sqlite3HashInsert (\<lambda>k. True) (\<lambda>n. 0) sqlite3HashInit [0x54] 7
      \<lparr>elems = Map.empty, brk = 1, mallocs = 0\<rparr>)))) [0x74]
    (snd (snd (the (sqlite3HashInsert (\<lambda>k. True) (\<lambda>n. 0) sqlite3HashInit [0x54] 7
      \<lparr>elems = Map.empty, brk = 1, mallocs = 0\<rparr>)))) = 7"
proof -
  let ?M = "\<lparr>elems = Map.empty, brk = 1, mallocs = 0\<rparr>"
  have r: "rep sqlite3HashInit ?M Map.empty" by (rule rep_init) simp_all
  obtain x p N where i: "sqlite3HashInsert (\<lambda>k. True) (\<lambda>n. 0) sqlite3HashInit [0x54] 7 ?M = Some (x, p, N)" "x = 0"
    using HashInsert_put [OF r, of "[0x54]" 7 "\<lambda>k. True" "\<lambda>n. 0"] by (auto simp: data_of_def)
  have "sqlite3HashFind p [0x74] N = 7"
    using hash_insert_then_find [OF r, of "[0x54]" "[0x74]" 7 "\<lambda>k. True" "\<lambda>n. 0" x p N] i
    by (simp add: UpperToLower_table)
  then show ?thesis unfolding i(1) option.sel fst_conv snd_conv .
qed
end
