(* ===== verification/Sqlite_Rowset.thy ===== *)
theory Sqlite_Rowset
  imports Adou_Prelude "HOL-Library.Tree"
begin

text \<open>
  The row set of the bundled SQLite (its \<open>rowset.c\<close> part): row identifiers are inserted in any
  order and then either drained in increasing order or tested, batch by batch. Entries are
  reached through one pointer each, so a list linked by \<open>pRight\<close> is a list and a tree of entries
  a tree; an entry of the forest is the tree its \<open>pLeft\<close> points to, Leaf for the null pointer.
  The pool of fresh entries is counted; \<open>ok k\<close> is the outcome of the k-th allocation.
\<close>

section \<open>Data\<close>

definition ROWSET_ENTRY_PER_CHUNK :: nat where
  "ROWSET_ENTRY_PER_CHUNK = (1024 - 8) div 24"

record RowSet =
  nChunk :: nat
  pEntry :: "int list"
  pForest :: "int tree list"
  nFresh :: nat
  rs_sorted :: bool
  rs_next :: bool
  iBatch :: int
  tries :: nat

text \<open>\<open>spare\<close> is the number of entries in the rest of the block allocated for the structure.\<close>

definition new_rowset :: "nat \<Rightarrow> RowSet" where
  "new_rowset spare =
     \<lparr>nChunk = 0, pEntry = [], pForest = [], nFresh = spare mod 2 ^ 16, rs_sorted = True, rs_next = False,
      iBatch = 0, tries = 0\<rparr>"

definition sqlite3RowSetInit :: "bool \<Rightarrow> nat \<Rightarrow> RowSet option" where
  "sqlite3RowSetInit malloc_ok spare = (if malloc_ok then Some (new_rowset spare) else None)"

definition sqlite3RowSetClear :: "RowSet \<Rightarrow> RowSet" where
  "sqlite3RowSetClear p =
     p\<lparr>nChunk := 0, nFresh := 0, pEntry := [], pForest := [], rs_sorted := True, rs_next := False\<rparr>"

text \<open>The blocks freed when the row set is destroyed: its chunks and the structure itself.\<close>

definition sqlite3RowSetDelete :: "RowSet \<Rightarrow> nat" where
  "sqlite3RowSetDelete p = nChunk p + 1"

definition rowSetEntryAlloc :: "(nat \<Rightarrow> bool) \<Rightarrow> RowSet \<Rightarrow> bool \<times> RowSet" where
  "rowSetEntryAlloc ok p =
     (if nFresh p = 0 then
        if \<not> ok (tries p) then (False, p\<lparr>tries := tries p + 1\<rparr>)
        else (True, p\<lparr>tries := tries p + 1, nChunk := nChunk p + 1, nFresh := ROWSET_ENTRY_PER_CHUNK - 1\<rparr>)
      else (True, p\<lparr>nFresh := nFresh p - 1\<rparr>))"

text \<open>\<open>pLast\<close> is the last entry of the list.\<close>

definition sqlite3RowSetInsert :: "(nat \<Rightarrow> bool) \<Rightarrow> RowSet \<Rightarrow> int \<Rightarrow> RowSet" where
  "sqlite3RowSetInsert ok p rowid =
     (case rowSetEntryAlloc ok p of
        (False, p) \<Rightarrow> p
      | (True, p) \<Rightarrow>
          let p = (if pEntry p \<noteq> [] \<and> rowid \<le> last (pEntry p) then p\<lparr>rs_sorted := False\<rparr> else p)
          in p\<lparr>pEntry := pEntry p @ [rowid]\<rparr>)"

section \<open>Sorting\<close>

text \<open>Both lists have an entry when the function is called.\<close>

fun rowSetEntryMerge :: "int list \<Rightarrow> int list \<Rightarrow> int list" where
  "rowSetEntryMerge (a # as) (b # bs) =
     (if a \<le> b then
        (let out = (if a < b then [a] else []) in
         if as = [] then out @ b # bs else out @ rowSetEntryMerge as (b # bs))
      else if bs = [] then b # a # as else b # rowSetEntryMerge (a # as) bs)"
| "rowSetEntryMerge as [] = as"
| "rowSetEntryMerge [] bs = bs"

text \<open>
  The inner loop of \<open>rowSetEntrySort\<close>, with an empty list for a null bucket. Only \<open>2 ^ 40\<close>
  entries would get it past the last bucket.
\<close>

fun fill_bucket :: "int list \<Rightarrow> int list list \<Rightarrow> int list list" where
  "fill_bucket x [] = []"
| "fill_bucket x (b # bs) = (if b \<noteq> [] then [] # fill_bucket (rowSetEntryMerge b x) bs else x # bs)"

fun merge_buckets :: "int list \<Rightarrow> int list list \<Rightarrow> int list" where
  "merge_buckets x [] = x"
| "merge_buckets x (b # bs) =
     (if b = [] then merge_buckets x bs
      else merge_buckets (if x \<noteq> [] then rowSetEntryMerge x b else b) bs)"

definition rowSetEntrySort :: "int list \<Rightarrow> int list" where
  "rowSetEntrySort xs =
     (let aBucket = foldl (\<lambda>bs x. fill_bucket [x] bs) (replicate 40 []) xs
      in merge_buckets (hd aBucket) (tl aBucket))"

section \<open>Trees\<close>

fun rowSetTreeToList :: "int tree \<Rightarrow> int list" where
  "rowSetTreeToList Leaf = []"
| "rowSetTreeToList (Node l v r) =
     (if l \<noteq> Leaf then rowSetTreeToList l else []) @ v # (if r \<noteq> Leaf then rowSetTreeToList r else [])"

text \<open>The tree and the rest of the list.\<close>

fun rowSetNDeepTree :: "int list \<Rightarrow> nat \<Rightarrow> int tree \<times> int list" where
  "rowSetNDeepTree [] d = (Leaf, [])"
| "rowSetNDeepTree (x # xs) d =
     (if d > 1 then
        (case rowSetNDeepTree (x # xs) (d - 1) of
           (pLeft, []) \<Rightarrow> (pLeft, [])
         | (pLeft, v # rest) \<Rightarrow>
             (case rowSetNDeepTree rest (d - 1) of (pRight, rest) \<Rightarrow> (Node pLeft v pRight, rest)))
      else (Node Leaf x Leaf, xs))"

declare rowSetNDeepTree.simps(2) [simp del]

lemma NDeepTree_length: "length (snd (rowSetNDeepTree xs d)) \<le> length xs"
proof (induction xs d rule: rowSetNDeepTree.induct)
  case (2 x xs d)
  show ?case
  proof (cases "d > 1")
    case True
    obtain l r1 where l: "rowSetNDeepTree (x # xs) (d - 1) = (l, r1)" by fastforce
    have r1: "length r1 \<le> length (x # xs)" using "2.IH"(1) [OF True] l by simp
    show ?thesis
    proof (cases r1)
      case Nil
      then show ?thesis using True l by (simp add: rowSetNDeepTree.simps(2))
    next
      case (Cons v rest)
      obtain r r2 where r: "rowSetNDeepTree rest (d - 1) = (r, r2)" by fastforce
      have "length r2 \<le> length rest" using "2.IH"(2) [OF True l [symmetric] Cons] r by simp
      then show ?thesis using True l r Cons r1 by (simp add: rowSetNDeepTree.simps(2))
    qed
  next
    case False
    then show ?thesis by (simp add: rowSetNDeepTree.simps(2))
  qed
qed simp

function list_to_tree :: "int tree \<Rightarrow> int list \<Rightarrow> nat \<Rightarrow> int tree" where
  "list_to_tree p [] d = p"
| "list_to_tree p (v # xs) d =
     (let (pRight, rest) = rowSetNDeepTree xs d in list_to_tree (Node p v pRight) rest (d + 1))"
  by pat_completeness auto
termination
  by (relation "measure (\<lambda>(p, xs, d). length xs)")
    (auto simp: less_Suc_eq_le, metis NDeepTree_length snd_conv)

definition rowSetListToTree :: "int list \<Rightarrow> int tree" where
  "rowSetListToTree xs = list_to_tree (Node Leaf (hd xs) Leaf) (tl xs) 1"

section \<open>Draining and testing\<close>

definition sqlite3RowSetNext :: "RowSet \<Rightarrow> int option \<times> RowSet" where
  "sqlite3RowSetNext p =
     (let p = (if \<not> rs_next p then
                 (if \<not> rs_sorted p then p\<lparr>pEntry := rowSetEntrySort (pEntry p)\<rparr> else p)
                   \<lparr>rs_sorted := True, rs_next := True\<rparr>
               else p)
      in case pEntry p of
           [] \<Rightarrow> (None, p)
         | v # rest \<Rightarrow>
             (Some v, let p = p\<lparr>pEntry := rest\<rparr> in if rest = [] then sqlite3RowSetClear p else p))"

text \<open>
  The loop over the forest: the first empty tree takes the list, the trees before it are merged
  into the list. The second part is the list when it found no place.
\<close>

fun place_list :: "int list \<Rightarrow> int tree list \<Rightarrow> int tree list \<times> int list option" where
  "place_list p [] = ([], Some p)"
| "place_list p (t # ts) =
     (if t = Leaf then (rowSetListToTree p # ts, None)
      else case place_list (rowSetEntryMerge (rowSetTreeToList t) p) ts of (ts, r) \<Rightarrow> (Leaf # ts, r))"

definition new_batch :: "(nat \<Rightarrow> bool) \<Rightarrow> RowSet \<Rightarrow> RowSet" where
  "new_batch ok s =
     (if pEntry s = [] then s
      else
        let p = (if \<not> rs_sorted s then rowSetEntrySort (pEntry s) else pEntry s);
            s = (case place_list p (pForest s) of
                   (ts, None) \<Rightarrow> s\<lparr>pForest := ts\<rparr>
                 | (ts, Some p) \<Rightarrow>
                     (case rowSetEntryAlloc ok s of
                        (False, s) \<Rightarrow> s\<lparr>pForest := ts\<rparr>
                      | (True, s) \<Rightarrow> s\<lparr>pForest := ts @ [rowSetListToTree p]\<rparr>))
        in s\<lparr>pEntry := [], rs_sorted := True\<rparr>)"

fun tree_lookup :: "int tree \<Rightarrow> int \<Rightarrow> bool" where
  "tree_lookup Leaf i = False"
| "tree_lookup (Node l v r) i = (if v < i then tree_lookup r i else if v > i then tree_lookup l i else True)"

definition sqlite3RowSetTest :: "(nat \<Rightarrow> bool) \<Rightarrow> RowSet \<Rightarrow> int \<Rightarrow> int \<Rightarrow> bool \<times> RowSet" where
  "sqlite3RowSetTest ok s b iRowid =
     (let s = (if b \<noteq> iBatch s then (new_batch ok s)\<lparr>iBatch := b\<rparr> else s)
      in (list_ex (\<lambda>t. tree_lookup t iRowid) (pForest s), s))"

section \<open>Merging and sorting\<close>

abbreviation increasing :: "int list \<Rightarrow> bool" where
  "increasing \<equiv> sorted_wrt (<)"

lemma merge_set: "set (rowSetEntryMerge as bs) = set as \<union> set bs"
  by (induction as bs rule: rowSetEntryMerge.induct) (auto simp: Let_def)

lemma merge_increasing:
  "increasing as \<Longrightarrow> increasing bs \<Longrightarrow> increasing (rowSetEntryMerge as bs)"
proof (induction as bs rule: rowSetEntryMerge.induct)
  case (1 a as b bs)
  consider (less) "a < b" | (same) "a = b" | (more) "b < a" by linarith
  then show ?case
  proof cases
    case less
    then have "increasing (rowSetEntryMerge as (b # bs))" using 1 by (cases "as = []") auto
    then show ?thesis using less "1.prems" by (cases "as = []") (auto simp: merge_set Let_def intro: less_trans)
  next
    case same
    then show ?thesis using 1 by (cases "as = []") auto
  next
    case more
    then have "increasing (rowSetEntryMerge (a # as) bs)" using 1 by (cases "bs = []") auto
    then show ?thesis using more "1.prems" by (cases "bs = []") (auto simp: merge_set intro: less_trans)
  qed
qed auto

lemma merge_nonempty: "as \<noteq> [] \<or> bs \<noteq> [] \<Longrightarrow> rowSetEntryMerge as bs \<noteq> []"
  by (metis merge_set set_empty Un_empty)

text \<open>The buckets in use are the digits of the number of entries taken so far.\<close>

fun bucket_count :: "int list list \<Rightarrow> nat" where
  "bucket_count [] = 0"
| "bucket_count (b # bs) = of_bool (b \<noteq> []) + 2 * bucket_count bs"

lemma fill_bucket_length [simp]: "length (fill_bucket x bs) = length bs"
  by (induction x bs rule: fill_bucket.induct) auto

lemma fill_bucket_spec:
  "x \<noteq> [] \<Longrightarrow> increasing x \<Longrightarrow> list_all increasing bs \<Longrightarrow> bucket_count bs + 1 < 2 ^ length bs \<Longrightarrow>
    bucket_count (fill_bucket x bs) = bucket_count bs + 1 \<and> list_all increasing (fill_bucket x bs)"
  by (induction x bs rule: fill_bucket.induct) (auto simp: merge_nonempty merge_increasing)

lemma fill_bucket_set:
  "bucket_count bs + 1 < 2 ^ length bs \<Longrightarrow> set (concat (fill_bucket x bs)) = set x \<union> set (concat bs)"
proof (induction x bs rule: fill_bucket.induct)
  case (2 x b bs)
  show ?case
  proof (cases "b = []")
    case False
    then have "bucket_count bs + 1 < 2 ^ length bs" using "2.prems" by simp
    then show ?thesis using "2.IH" [OF False] False by (simp add: merge_set Un_ac)
  qed simp
qed simp

lemma fill_buckets_spec:
  "list_all increasing bs \<Longrightarrow> bucket_count bs + length xs < 2 ^ length bs \<Longrightarrow>
    list_all increasing (foldl (\<lambda>bs x. fill_bucket [x] bs) bs xs)
      \<and> length (foldl (\<lambda>bs x. fill_bucket [x] bs) bs xs) = length bs
      \<and> set (concat (foldl (\<lambda>bs x. fill_bucket [x] bs) bs xs)) = set xs \<union> set (concat bs)"
proof (induction xs arbitrary: bs)
  case (Cons x xs)
  have "bucket_count (fill_bucket [x] bs) = bucket_count bs + 1 \<and> list_all increasing (fill_bucket [x] bs)
      \<and> set (concat (fill_bucket [x] bs)) = set [x] \<union> set (concat bs)"
    using Cons.prems fill_bucket_spec [of "[x]" bs] fill_bucket_set [of bs "[x]"] by auto
  then show ?case using Cons.IH [of "fill_bucket [x] bs"] Cons.prems by simp
qed simp

lemma merge_buckets_spec:
  "increasing x \<Longrightarrow> list_all increasing bs \<Longrightarrow>
    increasing (merge_buckets x bs) \<and> set (merge_buckets x bs) = set x \<union> set (concat bs)"
  by (induction x bs rule: merge_buckets.induct) (auto simp: merge_increasing merge_set)

lemma EntrySort_spec:
  assumes "length xs < 2 ^ 40"
  shows "increasing (rowSetEntrySort xs)" "set (rowSetEntrySort xs) = set xs"
proof -
  define bs where "bs = foldl (\<lambda>bs x. fill_bucket [x] bs) (replicate 40 []) xs"
  have z: "bucket_count (replicate n []) = 0" for n by (induction n) auto
  have "list_all increasing bs \<and> length bs = 40 \<and> set (concat bs) = set xs"
    using fill_buckets_spec [of "replicate 40 []" xs] assms z [of 40] by (simp add: bs_def list_all_iff)
  then have bs: "list_all increasing bs" "length bs = 40" "set (concat bs) = set xs" by auto
  then obtain b bs' where c: "bs = b # bs'" by (cases bs) auto
  have "rowSetEntrySort xs = merge_buckets b bs'"
    by (simp add: rowSetEntrySort_def bs_def [symmetric] c)
  then show "increasing (rowSetEntrySort xs)" "set (rowSetEntrySort xs) = set xs"
    using merge_buckets_spec [of b bs'] bs by (auto simp: c)
qed

section \<open>Trees and lists\<close>

lemma TreeToList_inorder: "rowSetTreeToList t = inorder t"
  by (induction t) auto

lemma NDeepTree_inorder:
  "inorder (fst (rowSetNDeepTree xs d)) @ snd (rowSetNDeepTree xs d) = xs"
proof (induction xs d rule: rowSetNDeepTree.induct)
  case (2 x xs d)
  show ?case
  proof (cases "d > 1")
    case True
    obtain l r1 where l: "rowSetNDeepTree (x # xs) (d - 1) = (l, r1)" by fastforce
    have r1: "inorder l @ r1 = x # xs" using "2.IH"(1) [OF True] l by simp
    show ?thesis
    proof (cases r1)
      case Nil
      then show ?thesis using True l r1 by (simp add: rowSetNDeepTree.simps(2))
    next
      case (Cons v rest)
      obtain r r2 where r: "rowSetNDeepTree rest (d - 1) = (r, r2)" by fastforce
      have "inorder r @ r2 = rest" using "2.IH"(2) [OF True l [symmetric] Cons] r by simp
      then show ?thesis using True l r Cons r1 by (simp add: rowSetNDeepTree.simps(2))
    qed
  qed (simp add: rowSetNDeepTree.simps(2))
qed simp

lemma NDeepTree_shape:
  "d \<noteq> 0 \<Longrightarrow> height (fst (rowSetNDeepTree xs d)) \<le> d
    \<and> length (snd (rowSetNDeepTree xs d)) = length xs - (2 ^ d - 1)"
proof (induction xs d rule: rowSetNDeepTree.induct)
  case (2 x xs d)
  show ?case
  proof (cases "d > 1")
    case True
    then obtain e where d: "d = Suc e" "e \<noteq> 0" by (cases d) auto
    obtain l r1 where l: "rowSetNDeepTree (x # xs) e = (l, r1)" by fastforce
    have r1: "height l \<le> e" "length r1 = length (x # xs) - (2 ^ e - 1)"
      using "2.IH"(1) [OF True] l d by auto
    show ?thesis
    proof (cases r1)
      case Nil
      have "(2 :: nat) ^ e \<le> 2 ^ d" by (simp add: d)
      then show ?thesis using True l r1 Nil d by (auto simp: rowSetNDeepTree.simps(2))
    next
      case (Cons v rest)
      obtain r r2 where r: "rowSetNDeepTree rest e = (r, r2)" by fastforce
      have "height r \<le> e" "length r2 = length rest - (2 ^ e - 1)"
        using "2.IH"(2) [OF True _ Cons, of l] l r d by auto
      then show ?thesis
        using True l r Cons r1 d by (auto simp: rowSetNDeepTree.simps(2))
    qed
  next
    case False
    then have "d = 1" using "2.prems" by simp
    then show ?thesis by (simp add: rowSetNDeepTree.simps(2))
  qed
qed simp

lemma list_to_tree_inorder: "inorder (list_to_tree p xs d) = inorder p @ xs"
proof (induction p xs d rule: list_to_tree.induct)
  case (2 p v xs d)
  obtain r rest where r: "rowSetNDeepTree xs d = (r, rest)" by fastforce
  have "inorder r @ rest = xs" using NDeepTree_inorder [of xs d] r by simp
  then show ?case using "2.IH" [OF r [symmetric] refl] r by simp
qed simp

text \<open>The tree is as low as can be: twice its size is at least \<open>2 ^ height\<close>.\<close>

lemma list_to_tree_height:
  "d \<noteq> 0 \<Longrightarrow> height p \<le> d \<Longrightarrow> length (inorder p) = 2 ^ d - 1 \<Longrightarrow>
    2 ^ height (list_to_tree p xs d) \<le> 2 * length (inorder p @ xs)"
proof (induction p xs d rule: list_to_tree.induct)
  case (1 p d)
  have "(2 :: nat) ^ height p \<le> 2 ^ d" using 1(2) by (simp add: power_increasing)
  moreover have "(2 :: nat) ^ 1 \<le> 2 ^ d" using 1(1) by (intro power_increasing) auto
  moreover have "h \<le> x \<Longrightarrow> 2 \<le> x \<Longrightarrow> h \<le> 2 * (x - 1)" for h x :: nat by simp
  ultimately have "2 ^ height p \<le> 2 * ((2 :: nat) ^ d - 1)" by simp
  then show ?case using 1(3) by simp
next
  case (2 p v xs d)
  obtain r rest where r: "rowSetNDeepTree xs d = (r, rest)" by fastforce
  have h: "height r \<le> d" "length rest = length xs - (2 ^ d - 1)" "inorder r @ rest = xs"
    using NDeepTree_shape [OF "2.prems"(1), of xs] NDeepTree_inorder [of xs d] r by simp_all
  let ?p = "Node p v r"
  have hp: "height ?p \<le> d + 1" using h(1) "2.prems"(2) by simp
  have pos: "1 \<le> (2 :: nat) ^ d" by simp
  show ?case
  proof (cases rest)
    case Nil
    have "(2 :: nat) ^ height ?p \<le> 2 ^ (d + 1)" using hp by (intro power_increasing) simp_all
    then have "(2 :: nat) ^ height ?p \<le> 2 ^ d * 2" by (simp only: power_add power_one_right)
    moreover have "h \<le> y * 2 \<Longrightarrow> h \<le> 2 * (y + z)" for h y z :: nat by simp
    ultimately have low: "(2 :: nat) ^ height ?p \<le> 2 * (2 ^ d + length xs)" by blast
    have e: "length (inorder p @ v # xs) = 2 ^ d + length xs" using "2.prems"(3) pos by simp
    have "list_to_tree p (v # xs) d = ?p" using Nil r by simp
    then show ?thesis unfolding e using low by (simp only:)
  next
    case (Cons w ws)
    have "length (inorder r) = length xs - length rest" using h(3) by (metis diff_add_inverse2 length_append)
    then have "length (inorder ?p) = 2 ^ (d + 1) - 1"
      using h(2) Cons "2.prems"(3) pos by simp
    then have "2 ^ height (list_to_tree ?p rest (d + 1)) \<le> 2 * length (inorder ?p @ rest)"
      using "2.IH" [OF r [symmetric] refl] hp by simp
    moreover have "inorder ?p @ rest = inorder p @ v # xs" using h(3) by simp
    moreover have "list_to_tree p (v # xs) d = list_to_tree ?p rest (d + 1)" using r by simp
    ultimately show ?thesis by (simp only:)
  qed
qed

lemma ListToTree_spec:
  assumes "xs \<noteq> []"
  shows "inorder (rowSetListToTree xs) = xs" "2 ^ height (rowSetListToTree xs) \<le> 2 * length xs"
proof -
  show "inorder (rowSetListToTree xs) = xs"
    using assms by (simp add: rowSetListToTree_def list_to_tree_inorder)
  show "2 ^ height (rowSetListToTree xs) \<le> 2 * length xs"
    using list_to_tree_height [of 1 "Node Leaf (hd xs) Leaf" "tl xs"] assms by (simp add: rowSetListToTree_def)
qed

lemma bst_inorder: "bst (t :: int tree) \<longleftrightarrow> increasing (inorder t)"
  by (rule bst_iff_sorted_wrt_less)

lemma tree_lookup_set: "bst t \<Longrightarrow> tree_lookup t i \<longleftrightarrow> i \<in> set_tree t"
  by (induction t) auto

section \<open>The contents of a row set\<close>

definition seen :: "RowSet \<Rightarrow> int set" where
  "seen p = \<Union> (set_tree ` set (pForest p))"

definition pending :: "RowSet \<Rightarrow> int set" where
  "pending p = set (pEntry p)"

text \<open>The search trees of the forest are as low as can be for their sizes.\<close>

definition tree_ok :: "int tree \<Rightarrow> bool" where
  "tree_ok t \<longleftrightarrow> bst t \<and> (t = Leaf \<or> 2 ^ height t \<le> 2 * size t)"

definition rowset_ok :: "RowSet \<Rightarrow> bool" where
  "rowset_ok p \<longleftrightarrow> list_all tree_ok (pForest p) \<and> (rs_sorted p \<longrightarrow> increasing (pEntry p))"

lemma ListToTree_ok: "increasing xs \<Longrightarrow> xs \<noteq> [] \<Longrightarrow> tree_ok (rowSetListToTree xs) \<and> set_tree (rowSetListToTree xs) = set xs"
  using ListToTree_spec [of xs] set_inorder [of "rowSetListToTree xs"] length_inorder [of "rowSetListToTree xs"]
  by (simp add: tree_ok_def bst_inorder)

lemma Alloc_fields:
  assumes "rowSetEntryAlloc ok p = (b, q)"
  shows "pEntry q = pEntry p" "pForest q = pForest p" "rs_sorted q = rs_sorted p" "rs_next q = rs_next p"
    "iBatch q = iBatch p" "(\<forall>k. ok k) \<Longrightarrow> b"
  using assms by (auto simp: rowSetEntryAlloc_def split: if_splits)

lemma increasing_snoc: "increasing xs \<Longrightarrow> xs = [] \<or> last xs < v \<Longrightarrow> increasing (xs @ [v])"
  by (cases xs rule: rev_cases) (auto simp: sorted_wrt_append)

lemma Insert_spec:
  assumes p: "rowset_ok p"
  shows "rowset_ok (sqlite3RowSetInsert ok p v)" "pForest (sqlite3RowSetInsert ok p v) = pForest p"
    "iBatch (sqlite3RowSetInsert ok p v) = iBatch p" "rs_next (sqlite3RowSetInsert ok p v) = rs_next p"
    "pEntry (sqlite3RowSetInsert ok p v) \<in> {pEntry p, pEntry p @ [v]}"
    "(\<forall>k. ok k) \<Longrightarrow> pEntry (sqlite3RowSetInsert ok p v) = pEntry p @ [v]"
proof -
  obtain b q where a: "rowSetEntryAlloc ok p = (b, q)" by fastforce
  note f = Alloc_fields [OF a]
  let ?q = "sqlite3RowSetInsert ok p v"
  have e: "?q = (if b then (if pEntry p \<noteq> [] \<and> v \<le> last (pEntry p) then q\<lparr>rs_sorted := False\<rparr> else q)
      \<lparr>pEntry := pEntry p @ [v]\<rparr> else q)"
    using f by (cases b) (simp_all add: sqlite3RowSetInsert_def a Let_def)
  show "rowset_ok ?q"
    using p f increasing_snoc [of "pEntry p" v] unfolding e by (auto simp: rowset_ok_def not_le)
  show "pForest ?q = pForest p" "iBatch ?q = iBatch p" "rs_next ?q = rs_next p"
    "pEntry ?q \<in> {pEntry p, pEntry p @ [v]}" "(\<forall>k. ok k) \<Longrightarrow> pEntry ?q = pEntry p @ [v]"
    using f unfolding e by auto
qed

lemma place_list_spec:
  "increasing p \<Longrightarrow> p \<noteq> [] \<Longrightarrow> list_all tree_ok ts \<Longrightarrow> place_list p ts = (us, r) \<Longrightarrow>
    list_all tree_ok us \<and> (case r of
        None \<Rightarrow> \<Union> (set_tree ` set us) = set p \<union> \<Union> (set_tree ` set ts)
      | Some q \<Rightarrow> increasing q \<and> q \<noteq> [] \<and> \<Union> (set_tree ` set us) = {} \<and> set q = set p \<union> \<Union> (set_tree ` set ts))"
proof (induction p ts arbitrary: us r rule: place_list.induct)
  case (2 p t ts)
  show ?case
  proof (cases "t = Leaf")
    case True
    then show ?thesis using 2 ListToTree_ok [of p] by auto
  next
    case False
    let ?m = "rowSetEntryMerge (rowSetTreeToList t) p"
    have t: "increasing (inorder t)" using "2.prems"(3) by (simp add: tree_ok_def bst_inorder)
    have m: "increasing ?m" "?m \<noteq> []" "set ?m = set_tree t \<union> set p"
      using t "2.prems"(1,2) merge_nonempty [of "inorder t" p]
      by (auto simp: TreeToList_inorder merge_increasing merge_set)
    obtain vs r' where v: "place_list ?m ts = (vs, r')" by fastforce
    then have u: "us = Leaf # vs" "r = r'" using "2.prems"(4) False by auto
    have "tree_ok Leaf" by (simp add: tree_ok_def)
    then show ?thesis
      using "2.IH" [OF False m(1,2) _ v] "2.prems"(3) m(3) unfolding u by (auto split: option.splits)
  qed
qed auto

lemma new_batch_spec:
  assumes p: "rowset_ok p" and n: "length (pEntry p) < 2 ^ 40"
  shows "rowset_ok (new_batch ok p)" "pEntry (new_batch ok p) = []" "rs_next (new_batch ok p) = rs_next p"
    "seen (new_batch ok p) \<subseteq> seen p \<union> pending p"
    "(\<forall>k. ok k) \<Longrightarrow> seen (new_batch ok p) = seen p \<union> pending p"
proof -
  let ?s = "new_batch ok p"
  have "rowset_ok ?s \<and> pEntry ?s = [] \<and> rs_next ?s = rs_next p \<and> seen ?s \<subseteq> seen p \<union> pending p
    \<and> ((\<forall>k. ok k) \<longrightarrow> seen ?s = seen p \<union> pending p)"
  proof (cases "pEntry p = []")
    case True
    then show ?thesis using p by (simp add: new_batch_def pending_def)
  next
    case False
    define xs where "xs = (if \<not> rs_sorted p then rowSetEntrySort (pEntry p) else pEntry p)"
    have set_xs: "set xs = pending p" using EntrySort_spec(2) [OF n] by (simp add: xs_def pending_def)
    have "xs \<noteq> []" using set_xs False by (auto simp: pending_def)
    have inc: "increasing xs" using EntrySort_spec(1) [OF n] p by (simp add: xs_def rowset_ok_def)
    obtain us r where u: "place_list xs (pForest p) = (us, r)" by fastforce
    have pl: "list_all tree_ok us" "case r of
        None \<Rightarrow> \<Union> (set_tree ` set us) = pending p \<union> seen p
      | Some q \<Rightarrow> increasing q \<and> q \<noteq> [] \<and> \<Union> (set_tree ` set us) = {} \<and> set q = pending p \<union> seen p"
      using place_list_spec [OF inc \<open>xs \<noteq> []\<close> _ u] p set_xs
      by (cases r; auto simp: rowset_ok_def seen_def)+
    show ?thesis
    proof (cases r)
      case None
      have "?s = p\<lparr>pForest := us, pEntry := [], rs_sorted := True\<rparr>"
        using False u None by (simp add: new_batch_def xs_def [symmetric] Let_def)
      then show ?thesis using pl None by (auto simp: rowset_ok_def seen_def)
    next
      case (Some q)
      obtain b t where a: "rowSetEntryAlloc ok p = (b, t)" by fastforce
      note f = Alloc_fields [OF a]
      have "?s = t\<lparr>pForest := (if b then us @ [rowSetListToTree q] else us), pEntry := [], rs_sorted := True\<rparr>"
        using False u Some a by (cases b) (simp_all add: new_batch_def xs_def [symmetric] Let_def)
      then show ?thesis
        using pl Some f(4,6) ListToTree_ok [of q] by (cases b) (auto simp: rowset_ok_def seen_def)
    qed
  qed
  then show "rowset_ok ?s" "pEntry ?s = []" "rs_next ?s = rs_next p" "seen ?s \<subseteq> seen p \<union> pending p"
    "(\<forall>k. ok k) \<Longrightarrow> seen ?s = seen p \<union> pending p" by auto
qed

lemma Test_spec:
  assumes p: "rowset_ok p" and n: "length (pEntry p) < 2 ^ 40" and t: "sqlite3RowSetTest ok p b v = (r, q)"
  shows "rowset_ok q" "iBatch q = b" "r \<longleftrightarrow> v \<in> seen q"
    "b = iBatch p \<Longrightarrow> q = p" "b \<noteq> iBatch p \<Longrightarrow> pending q = {}" "seen q \<subseteq> seen p \<union> pending p"
    "b \<noteq> iBatch p \<Longrightarrow> (\<forall>k. ok k) \<Longrightarrow> seen q = seen p \<union> pending p" "length (pEntry q) \<le> length (pEntry p)"
proof -
  note nb = new_batch_spec [OF p n, of ok]
  have q: "q = (if b \<noteq> iBatch p then (new_batch ok p)\<lparr>iBatch := b\<rparr> else p)"
    and r: "r = list_ex (\<lambda>t. tree_lookup t v) (pForest q)"
    using t by (auto simp: sqlite3RowSetTest_def Let_def)
  show ok: "rowset_ok q" using nb p unfolding q by (simp add: rowset_ok_def)
  have "tree_lookup t v \<longleftrightarrow> v \<in> set_tree t" if "t \<in> set (pForest q)" for t
    using ok that by (intro tree_lookup_set) (auto simp: rowset_ok_def list_all_iff tree_ok_def)
  then show "r \<longleftrightarrow> v \<in> seen q" unfolding r by (auto simp: seen_def list_ex_iff)
  show "iBatch q = b" "b = iBatch p \<Longrightarrow> q = p" "b \<noteq> iBatch p \<Longrightarrow> pending q = {}"
    "seen q \<subseteq> seen p \<union> pending p" "b \<noteq> iBatch p \<Longrightarrow> (\<forall>k. ok k) \<Longrightarrow> seen q = seen p \<union> pending p"
    "length (pEntry q) \<le> length (pEntry p)"
    using nb unfolding q by (auto simp: pending_def seen_def)
qed

section \<open>The interface: a set tested batch by batch\<close>

text \<open>
  Sequences of operations, their answers, and what the answers have to be: \<open>old\<close> holds what was
  inserted before the last change of the batch number, \<open>new\<close> what was inserted after it.
\<close>

datatype rowset_op = Ins int | Tst int int

fun run_ops :: "('s \<Rightarrow> int \<Rightarrow> 's) \<Rightarrow> ('s \<Rightarrow> int \<Rightarrow> int \<Rightarrow> bool \<times> 's) \<Rightarrow> 's \<Rightarrow> rowset_op list \<Rightarrow> bool list \<times> 's" where
  "run_ops ins test s [] = ([], s)"
| "run_ops ins test s (Ins v # ops) = run_ops ins test (ins s v) ops"
| "run_ops ins test s (Tst b v # ops) =
     (case test s b v of (r, t) \<Rightarrow> apfst (Cons r) (run_ops ins test t ops))"

fun answers :: "int \<Rightarrow> int set \<Rightarrow> int set \<Rightarrow> rowset_op list \<Rightarrow> bool list" where
  "answers b old new [] = []"
| "answers b old new (Ins v # ops) = answers b old (insert v new) ops"
| "answers b old new (Tst b' v # ops) =
     (let (old, new) = (if b' \<noteq> b then (old \<union> new, {}) else (old, new)) in
      (v \<in> old) # answers b' old new ops)"

fun insertions :: "rowset_op list \<Rightarrow> nat" where
  "insertions [] = 0"
| "insertions (Ins v # ops) = insertions ops + 1"
| "insertions (Tst b v # ops) = insertions ops"

locale batch_set =
  fixes inv :: "'s \<Rightarrow> bool"
    and shown :: "'s \<Rightarrow> int set"
    and hidden :: "'s \<Rightarrow> int set"
    and batch :: "'s \<Rightarrow> int"
    and load :: "'s \<Rightarrow> nat"
    and limit :: nat
    and ins :: "'s \<Rightarrow> int \<Rightarrow> 's"
    and test :: "'s \<Rightarrow> int \<Rightarrow> int \<Rightarrow> bool \<times> 's"
  assumes ins_law: "inv s \<Longrightarrow> inv (ins s v) \<and> shown (ins s v) = shown s
      \<and> hidden (ins s v) = insert v (hidden s) \<and> batch (ins s v) = batch s \<and> load (ins s v) \<le> load s + 1"
    and test_law: "inv s \<Longrightarrow> load s < limit \<Longrightarrow> test s b v = (r, t) \<Longrightarrow>
      inv t \<and> batch t = b \<and> load t \<le> load s \<and> (r \<longleftrightarrow> v \<in> shown t)
      \<and> (if b = batch s then shown t = shown s \<and> hidden t = hidden s
         else shown t = shown s \<union> hidden s \<and> hidden t = {})"
begin

lemma ins_list:
  "inv s \<Longrightarrow> inv (foldl ins s vs) \<and> shown (foldl ins s vs) = shown s
    \<and> hidden (foldl ins s vs) = hidden s \<union> set vs \<and> batch (foldl ins s vs) = batch s
    \<and> load (foldl ins s vs) \<le> load s + length vs"
proof (induction vs arbitrary: s)
  case (Cons v vs)
  show ?case using Cons.IH [of "ins s v"] ins_law [OF Cons.prems, of v] by auto
qed simp

text \<open>Every test sees what was inserted before the last change of the batch, and nothing else.\<close>

lemma run_answers:
  "inv s \<Longrightarrow> load s + insertions ops < limit \<Longrightarrow> run_ops ins test s ops = (rs, t) \<Longrightarrow>
     rs = answers (batch s) (shown s) (hidden s) ops \<and> inv t"
proof (induction ops arbitrary: s rs t)
  case (Cons p ops)
  show ?case
  proof (cases p)
    case (Ins v)
    then show ?thesis
      using Cons.IH [of "ins s v" rs t] Cons.prems ins_law [OF Cons.prems(1), of v] by simp
  next
    case (Tst b v)
    obtain r u where u: "test s b v = (r, u)" by fastforce
    obtain rs' where rs: "run_ops ins test u ops = (rs', t)" "rs = r # rs'"
      using Cons.prems(3) u Tst by (cases "run_ops ins test u ops") auto
    have law: "inv u \<and> batch u = b \<and> load u \<le> load s \<and> (r \<longleftrightarrow> v \<in> shown u)
      \<and> (if b = batch s then shown u = shown s \<and> hidden u = hidden s
         else shown u = shown s \<union> hidden s \<and> hidden u = {})"
      by (rule test_law [OF Cons.prems(1) _ u]) (use Cons.prems(2) in simp)
    then show ?thesis
      using Cons.IH [of u rs' t] rs Cons.prems(2) Tst by (auto split: if_splits)
  qed
qed simp

end

interpretation rowset: batch_set rowset_ok seen pending iBatch "\<lambda>p. length (pEntry p)" "2 ^ 40"
  "sqlite3RowSetInsert (\<lambda>k. True)" "sqlite3RowSetTest (\<lambda>k. True)"
proof
  fix s t :: RowSet and v b :: int and r
  assume s: "rowset_ok s"
  note i = Insert_spec [OF s, where ok = "\<lambda>k. True"]
  show "rowset_ok (sqlite3RowSetInsert (\<lambda>k. True) s v) \<and> seen (sqlite3RowSetInsert (\<lambda>k. True) s v) = seen s
    \<and> pending (sqlite3RowSetInsert (\<lambda>k. True) s v) = insert v (pending s)
    \<and> iBatch (sqlite3RowSetInsert (\<lambda>k. True) s v) = iBatch s
    \<and> length (pEntry (sqlite3RowSetInsert (\<lambda>k. True) s v)) \<le> length (pEntry s) + 1"
    using i(1) [of v] i(2) [of v] i(3) [of v] i(6) [of v] by (simp add: seen_def pending_def)
  assume n: "length (pEntry s) < 2 ^ 40" and t: "sqlite3RowSetTest (\<lambda>k. True) s b v = (r, t)"
  note T = Test_spec [OF s n t]
  show "rowset_ok t \<and> iBatch t = b \<and> length (pEntry t) \<le> length (pEntry s) \<and> (r \<longleftrightarrow> v \<in> seen t)
    \<and> (if b = iBatch s then seen t = seen s \<and> pending t = pending s
       else seen t = seen s \<union> pending s \<and> pending t = {})"
    using T by simp
qed

section \<open>Draining\<close>

text \<open>Up to \<open>n\<close> calls of \<open>sqlite3RowSetNext\<close>, until one returns 0.\<close>

fun drain :: "nat \<Rightarrow> RowSet \<Rightarrow> int list" where
  "drain 0 p = []"
| "drain (Suc n) p = (case sqlite3RowSetNext p of (None, q) \<Rightarrow> [] | (Some v, q) \<Rightarrow> v # drain n q)"

lemma drain_clear: "drain n (sqlite3RowSetClear p) = []"
  by (cases n) (simp_all add: sqlite3RowSetNext_def sqlite3RowSetClear_def Let_def)

lemma drain_next: "rs_next p \<Longrightarrow> drain n p = take n (pEntry p)"
proof (induction n arbitrary: p)
  case (Suc n)
  show ?case
  proof (cases "pEntry p")
    case (Cons v rest)
    then show ?thesis
      using Suc.IH [of "p\<lparr>pEntry := rest\<rparr>"] Suc.prems
      by (cases "rest = []") (simp_all add: sqlite3RowSetNext_def drain_clear)
  qed (use Suc.prems in \<open>simp add: sqlite3RowSetNext_def\<close>)
qed simp

lemma drain_first:
  assumes "\<not> rs_next p"
  shows "drain n p = take n (if rs_sorted p then pEntry p else rowSetEntrySort (pEntry p))"
proof (cases n)
  case (Suc m)
  let ?q = "(if \<not> rs_sorted p then p\<lparr>pEntry := rowSetEntrySort (pEntry p)\<rparr> else p)\<lparr>rs_sorted := True, rs_next := True\<rparr>"
  have "sqlite3RowSetNext p = sqlite3RowSetNext ?q"
    using assms by (simp add: sqlite3RowSetNext_def)
  then have "drain n p = drain n ?q" by (simp add: Suc)
  also have "\<dots> = take n (pEntry ?q)" by (rule drain_next) simp
  finally show ?thesis by simp
qed simp

lemma increasing_sorted_list: "increasing xs \<Longrightarrow> sorted_list_of_set (set xs) = xs"
  by (simp add: sorted_list_of_set.idem_if_sorted_distinct strict_sorted_iff)

text \<open>
  C28. In every sequence of insertions and tests on a new row set, with any batch numbers,
  each sqlite3RowSetTest reports exactly whether the row identifier was inserted before the
  last change of the batch number, provided allocations succeed and the sequence has fewer
  than 2^40 insertions; the row set stays in order and its search trees are as low as their
  sizes allow.
\<close>

theorem rowset_test_sees_earlier_batches:
  assumes "\<forall>k. ok k" "insertions ops < 2 ^ 40"
    and "run_ops (sqlite3RowSetInsert ok) (sqlite3RowSetTest ok) (new_rowset n) ops = (rs, q)"
  shows "rs = answers 0 {} {} ops \<and> rowset_ok q
    \<and> (\<forall>t \<in> set (pForest q). bst t \<and> (t = Leaf \<or> 2 ^ height t \<le> 2 * size t))"
proof -
  have ok: "rowset_ok (new_rowset n)" "pEntry (new_rowset n) = []" "iBatch (new_rowset n) = 0"
    "seen (new_rowset n) = {}" "pending (new_rowset n) = {}"
    by (simp_all add: new_rowset_def rowset_ok_def seen_def pending_def)
  have "ok = (\<lambda>k. True)" using assms(1) by auto
  then show ?thesis
    using rowset.run_answers [OF ok(1) _ assms(3) [unfolded \<open>ok = (\<lambda>k. True)\<close>]] assms(2) ok(2-5)
    by (simp add: rowset_ok_def tree_ok_def list_all_iff)
qed

text \<open>A value is reported once the batch number has changed after its insertion, and from then on.\<close>

theorem rowset_test_sees_earlier_batches_witness:
  "fst (run_ops (sqlite3RowSetInsert (\<lambda>k. True)) (sqlite3RowSetTest (\<lambda>k. True)) (new_rowset 3)
     [Ins 5, Ins 2, Tst 0 5, Tst 1 5, Ins 9, Tst 1 9, Tst 1 2, Tst 2 9]) = [False, True, False, True, True]"
proof -
  let ?ops = "[Ins 5, Ins 2, Tst 0 5, Tst 1 5, Ins 9, Tst 1 9, Tst 1 2, Tst 2 9]"
  obtain rs q where r: "run_ops (sqlite3RowSetInsert (\<lambda>k. True)) (sqlite3RowSetTest (\<lambda>k. True)) (new_rowset 3) ?ops = (rs, q)"
    by fastforce
  have "rs = answers 0 {} {} ?ops"
    using rowset_test_sees_earlier_batches [OF _ _ r] by simp
  then show ?thesis unfolding r by simp
qed

text \<open>
  C29. On a well-formed row set with fewer than 2^40 entries, calling sqlite3RowSetNext until
  it returns 0 yields the row identifiers it holds in increasing order, each once, whatever
  the order and the repetitions of the insertions.
\<close>

theorem rowset_drains_in_order:
  assumes "rowset_ok p" "\<not> rs_next p" "length (pEntry p) < 2 ^ 40" "length (pEntry p) \<le> n"
  shows "drain n p = sorted_list_of_set (pending p)"
proof -
  let ?xs = "if rs_sorted p then pEntry p else rowSetEntrySort (pEntry p)"
  have xs: "increasing ?xs" "set ?xs = pending p"
    using assms(1) EntrySort_spec [OF assms(3)] by (auto simp: rowset_ok_def pending_def)
  have "distinct ?xs" using xs(1) strict_sorted_iff [of ?xs] by blast
  then have "length ?xs = card (pending p)" using xs(2) by (metis distinct_card)
  also have "\<dots> \<le> n" using card_length [of "pEntry p"] assms(4) by (simp add: pending_def)
  finally have "drain n p = ?xs" using drain_first [OF assms(2), of n] by simp
  then show ?thesis using increasing_sorted_list [OF xs(1)] xs(2) by simp
qed

theorem rowset_drains_in_order_witness:
  "drain 9 (foldl (sqlite3RowSetInsert (\<lambda>k. True)) (new_rowset 3) [5, 2, 9, 2, -4]) = [-4, 2, 5, 9]"
proof -
  let ?p = "foldl (sqlite3RowSetInsert (\<lambda>k. True)) (new_rowset 3) [5, 2, 9, 2, -4]"
  have ok: "rowset_ok (new_rowset 3)" by (simp add: new_rowset_def rowset_ok_def)
  have e: "pEntry ?p = [5, 2, 9, 2, -4]" "\<not> rs_next ?p"
    by (simp_all add: new_rowset_def sqlite3RowSetInsert_def rowSetEntryAlloc_def Let_def)
  have "drain 9 ?p = sorted_list_of_set (pending ?p)"
    using rowset.ins_list [OF ok, of "[5, 2, 9, 2, -4]"] e by (intro rowset_drains_in_order) simp_all
  also have "pending ?p = set [-4, 2, 5, 9]" unfolding pending_def e(1) by auto
  also have "sorted_list_of_set (set [-4, 2, 5, 9 :: int]) = [-4, 2, 5, 9]"
    by (rule increasing_sorted_list) simp
  finally show ?thesis .
qed
end
