(* ===== verification/Sqlite_Utf.thy ===== *)
theory Sqlite_Utf
  imports Sqlite_Varint Sqlite_Numtext
begin

text \<open>
  Text encodings of the bundled SQLite (the \<open>utf.c\<close> part of \<open>native/sqlite3/sqlite3.c\<close>, with the
  memory operations of \<open>vdbemem.c\<close> that it calls): the macros that read and write a character in
  UTF-8 and UTF-16, the translation of a value between the encodings, the byte-order mark and
  the counting of characters. An input iterator is the list of the bytes from \<open>zIn\<close> to \<open>zTerm\<close>
  (for a zero-terminated string: up to and including the zero), an output iterator the list of
  the bytes written.
\<close>

section \<open>Single characters\<close>

definition sqlite3Utf8Trans1 :: "byte list" where
  "sqlite3Utf8Trans1 =
    [0x00, 0x01, 0x02, 0x03, 0x04, 0x05, 0x06, 0x07,
     0x08, 0x09, 0x0a, 0x0b, 0x0c, 0x0d, 0x0e, 0x0f,
     0x10, 0x11, 0x12, 0x13, 0x14, 0x15, 0x16, 0x17,
     0x18, 0x19, 0x1a, 0x1b, 0x1c, 0x1d, 0x1e, 0x1f,
     0x00, 0x01, 0x02, 0x03, 0x04, 0x05, 0x06, 0x07,
     0x08, 0x09, 0x0a, 0x0b, 0x0c, 0x0d, 0x0e, 0x0f,
     0x00, 0x01, 0x02, 0x03, 0x04, 0x05, 0x06, 0x07,
     0x00, 0x01, 0x02, 0x03, 0x00, 0x01, 0x00, 0x00]"

definition WRITE_UTF8 :: "u32 \<Rightarrow> byte list" where
  "WRITE_UTF8 c =
     (if c < 0x00080 then [ucast (c AND 0xFF)]
      else if c < 0x00800 then
        [0xC0 + ucast (drop_bit 6 c AND 0x1F),
         0x80 + ucast (c AND 0x3F)]
      else if c < 0x10000 then
        [0xE0 + ucast (drop_bit 12 c AND 0x0F),
         0x80 + ucast (drop_bit 6 c AND 0x3F),
         0x80 + ucast (c AND 0x3F)]
      else
        [0xF0 + ucast (drop_bit 18 c AND 0x07),
         0x80 + ucast (drop_bit 12 c AND 0x3F),
         0x80 + ucast (drop_bit 6 c AND 0x3F),
         0x80 + ucast (c AND 0x3F)])"

definition WRITE_UTF16LE :: "u32 \<Rightarrow> byte list" where
  "WRITE_UTF16LE c =
     (if c \<le> 0xFFFF then
        [ucast (c AND 0x00FF),
         ucast (drop_bit 8 c AND 0x00FF)]
      else
        [ucast ((drop_bit 10 c AND 0x003F) + (drop_bit 10 (c - 0x10000) AND 0x00C0)),
         ucast (0x00D8 + (drop_bit 18 (c - 0x10000) AND 0x03)),
         ucast (c AND 0x00FF),
         ucast (0x00DC + (drop_bit 8 c AND 0x03))])"

definition WRITE_UTF16BE :: "u32 \<Rightarrow> byte list" where
  "WRITE_UTF16BE c =
     (if c \<le> 0xFFFF then
        [ucast (drop_bit 8 c AND 0x00FF),
         ucast (c AND 0x00FF)]
      else
        [ucast (0x00D8 + (drop_bit 18 (c - 0x10000) AND 0x03)),
         ucast ((drop_bit 10 c AND 0x003F) + (drop_bit 10 (c - 0x10000) AND 0x00C0)),
         ucast (0x00DC + (drop_bit 8 c AND 0x03)),
         ucast (c AND 0x00FF)])"

text \<open>The return value with the bytes stored from \<open>zOut\<close> on.\<close>

definition sqlite3AppendOneUtf8Character :: "u32 \<Rightarrow> nat \<times> byte list" where
  "sqlite3AppendOneUtf8Character v =
     (if v < 0x00080 then (1, [ucast (v AND 0xff)])
      else if v < 0x00800 then
        (2, [0xc0 + ucast (drop_bit 6 v AND 0x1f), 0x80 + ucast (v AND 0x3f)])
      else if v < 0x10000 then
        (3, [0xe0 + ucast (drop_bit 12 v AND 0x0f), 0x80 + ucast (drop_bit 6 v AND 0x3f),
             0x80 + ucast (v AND 0x3f)])
      else
        (4, [0xf0 + ucast (drop_bit 18 v AND 0x07), 0x80 + ucast (drop_bit 12 v AND 0x3f),
             0x80 + ucast (drop_bit 6 v AND 0x3f), 0x80 + ucast (v AND 0x3f)]))"

text \<open>The loop over the continuation bytes.\<close>

fun utf8_cont :: "u32 \<Rightarrow> byte list \<Rightarrow> u32 \<times> byte list" where
  "utf8_cont c [] = (c, [])"
| "utf8_cont c (b # z) =
     (if b AND 0xc0 = 0x80 then utf8_cont (push_bit 6 c + ucast (0x3f AND b)) z else (c, b # z))"

definition utf8_replace :: "u32 \<Rightarrow> u32" where
  "utf8_replace c =
     (if c < 0x80 \<or> c AND 0xFFFFF800 = 0xD800 \<or> c AND 0xFFFFFFFE = 0xFFFE then 0xFFFD else c)"

fun READ_UTF8 :: "byte list \<Rightarrow> u32 \<times> byte list" where
  "READ_UTF8 [] = (0, [])"
| "READ_UTF8 (b # z) =
     (let c = ucast b in
      if c \<ge> 0xc0 then
        (case utf8_cont (ucast (sqlite3Utf8Trans1 ! unat (c - 0xc0))) z of
           (c, z) \<Rightarrow> (utf8_replace c, z))
      else (c, z))"

text \<open>
  \<open>sqlite3Utf8Read\<close> has no \<open>zTerm\<close>: the loop stops at the latest at the zero that ends the
  string, which is not a continuation byte.
\<close>

fun sqlite3Utf8Read :: "byte list \<Rightarrow> u32 \<times> byte list" where
  "sqlite3Utf8Read [] = (0, [])"
| "sqlite3Utf8Read (b # z) =
     (let c = ucast b in
      if c \<ge> 0xc0 then
        (case utf8_cont (ucast (sqlite3Utf8Trans1 ! unat (c - 0xc0))) z of
           (c, z) \<Rightarrow>
             (if c < 0x80 \<or> c AND 0xFFFFF800 = 0xD800 \<or> c AND 0xFFFFFFFE = 0xFFFE
              then 0xFFFD else c, z))
      else (c, z))"

text \<open>The loop of \<open>sqlite3Utf8ReadLimited\<close>: \<open>z\<close> is the memory at \<open>z[i]\<close>.\<close>

fun utf8_limited :: "nat \<Rightarrow> nat \<Rightarrow> u32 \<Rightarrow> byte list \<Rightarrow> nat \<times> u32" where
  "utf8_limited i n c [] = (i, c)"
| "utf8_limited i n c (b # z) =
     (if i < n \<and> b AND 0xc0 = 0x80
      then utf8_limited (i + 1) n (push_bit 6 c + ucast (0x3f AND b)) z else (i, c))"

fun sqlite3Utf8ReadLimited :: "byte list \<Rightarrow> nat \<Rightarrow> nat \<times> u32" where
  "sqlite3Utf8ReadLimited [] n = (1, 0)"
| "sqlite3Utf8ReadLimited (b # z) n =
     (let c = ucast b in
      if c \<ge> 0xc0 then
        utf8_limited 1 (if n > 4 then 4 else n) (ucast (sqlite3Utf8Trans1 ! unat (c - 0xc0))) z
      else (1, c))"

text \<open>\<open>SQLITE_SKIP_UTF8\<close>.\<close>

fun SQLITE_SKIP_UTF8 :: "byte list \<Rightarrow> byte list" where
  "SQLITE_SKIP_UTF8 [] = []"
| "SQLITE_SKIP_UTF8 (b # z) =
     (if b \<ge> 0xc0 then dropWhile (\<lambda>b. b AND 0xc0 = 0x80) z else z)"

section \<open>Counting\<close>

text \<open>
  \<open>sqlite3Utf8CharLen\<close>: \<open>left\<close> is the distance from \<open>z\<close> to \<open>zTerm\<close>, \<open>None\<close> for the
  \<open>zTerm\<close> of a negative \<open>nByte\<close>. The end of the list stands for the terminating zero.
\<close>

lemma SKIP_UTF8_le: "z \<noteq> [] \<Longrightarrow> length (SQLITE_SKIP_UTF8 z) < length z"
  by (cases z) (auto simp: less_Suc_eq_le length_dropWhile_le)

function utf8CharLen_loop :: "byte list \<Rightarrow> int option \<Rightarrow> nat \<Rightarrow> nat" where
  "utf8CharLen_loop z left r =
     (if z \<noteq> [] \<and> hd z \<noteq> 0 \<and> (case left of None \<Rightarrow> True | Some k \<Rightarrow> 0 < k)
      then utf8CharLen_loop (SQLITE_SKIP_UTF8 z)
             (map_option (\<lambda>k. k - (int (length z) - int (length (SQLITE_SKIP_UTF8 z)))) left) (r + 1)
      else r)"
  by pat_completeness auto
termination
  by (relation "measure (\<lambda>(z, left, r). length z)") (auto intro: SKIP_UTF8_le)

declare utf8CharLen_loop.simps [simp del]

definition sqlite3Utf8CharLen :: "byte list \<Rightarrow> int \<Rightarrow> nat" where
  "sqlite3Utf8CharLen zIn nByte =
     utf8CharLen_loop zIn (if nByte \<ge> 0 then Some nByte else None) 0"

text \<open>
  \<open>sqlite3Utf16ByteLen\<close> on the little-endian machine: \<open>z\<close> is an index into \<open>zIn\<close> and
  \<open>z <= zEnd\<close> says \<open>z < nByte\<close>; \<open>k\<close> is \<open>nChar - n\<close>.
\<close>

fun utf16ByteLen_loop :: "byte list \<Rightarrow> nat \<Rightarrow> nat \<Rightarrow> nat \<Rightarrow> nat" where
  "utf16ByteLen_loop zIn nByte z 0 = z"
| "utf16ByteLen_loop zIn nByte z (Suc k) =
     (if z < nByte then
        let c = zIn ! z; z = z + 2 in
        utf16ByteLen_loop zIn nByte
          (if c \<ge> 0xd8 \<and> c < 0xdc \<and> z < nByte \<and> zIn ! z \<ge> 0xdc \<and> zIn ! z < 0xe0 then z + 2 else z) k
      else z)"

definition sqlite3Utf16ByteLen :: "byte list \<Rightarrow> nat \<Rightarrow> nat \<Rightarrow> nat" where
  "sqlite3Utf16ByteLen zIn nByte nChar = utf16ByteLen_loop zIn nByte 1 nChar - 1"

section \<open>Values in memory\<close>

definition MEM_Null :: u16 where "MEM_Null = 0x0001"
definition MEM_Str :: u16 where "MEM_Str = 0x0002"
definition MEM_Blob :: u16 where "MEM_Blob = 0x0010"
definition MEM_AffMask :: u16 where "MEM_AffMask = 0x003f"
definition MEM_Term :: u16 where "MEM_Term = 0x0200"
definition MEM_Zero :: u16 where "MEM_Zero = 0x0400"
definition MEM_Subtype :: u16 where "MEM_Subtype = 0x0800"
definition MEM_Dyn :: u16 where "MEM_Dyn = 0x1000"
definition MEM_Static :: u16 where "MEM_Static = 0x2000"
definition MEM_Ephem :: u16 where "MEM_Ephem = 0x4000"

text \<open>The mask \<open>MEM_Dyn|MEM_Ephem|MEM_Static\<close> that \<open>sqlite3VdbeMemGrow\<close> clears.\<close>

definition MEM_Owner :: u16 where "MEM_Owner = MEM_Dyn OR MEM_Ephem OR MEM_Static"

lemmas MEM_defs = MEM_Owner_def MEM_Null_def MEM_Str_def MEM_Blob_def MEM_AffMask_def MEM_Term_def
  MEM_Zero_def MEM_Subtype_def MEM_Dyn_def MEM_Static_def MEM_Ephem_def

definition SQLITE_OK :: int where "SQLITE_OK = 0"
definition SQLITE_NOMEM :: int where "SQLITE_NOMEM = 7"

text \<open>
  The text and blob fields of \<open>Mem\<close>. \<open>m_z\<close> is the initialised memory at \<open>z\<close>, at least the
  \<open>n\<close> bytes of the value; \<open>m_own\<close> says \<open>z == zMalloc\<close>. The allocator is a parameter: the size
  of the block a request gets, \<open>0\<close> where it fails. Destructor calls are not recorded.
\<close>

record mem =
  m_flags :: u16
  m_enc :: nat
  m_n :: nat
  m_nZero :: nat
  m_z :: "byte list"
  m_szMalloc :: nat
  m_own :: bool

type_synonym allocator = "nat \<Rightarrow> nat"

text \<open>Stores \<open>bs\<close> at \<open>z[i]\<close>.\<close>

definition store_at :: "nat \<Rightarrow> byte list \<Rightarrow> byte list \<Rightarrow> byte list" where
  "store_at i bs z = take i z @ bs @ drop (i + length bs) z"

definition sqlite3VdbeMemGrow :: "allocator \<Rightarrow> mem \<Rightarrow> nat \<Rightarrow> bool \<Rightarrow> int \<times> mem" where
  "sqlite3VdbeMemGrow malloc p n bPreserve =
     (let realloc = m_szMalloc p > 0 \<and> bPreserve \<and> m_own p in
      if malloc n = 0 then
        (SQLITE_NOMEM, p\<lparr>m_flags := MEM_Null, m_z := [], m_szMalloc := 0, m_own := False\<rparr>)
      else
        (SQLITE_OK,
         p\<lparr>m_z := (if realloc then take n (m_z p) else if bPreserve then take (m_n p) (m_z p) else []),
           m_szMalloc := malloc n, m_own := True,
           m_flags := m_flags p AND NOT MEM_Owner\<rparr>))"

definition vdbeMemAddTerminator :: "allocator \<Rightarrow> mem \<Rightarrow> int \<times> mem" where
  "vdbeMemAddTerminator malloc p =
     (case sqlite3VdbeMemGrow malloc p (m_n p + 3) True of
        (rc, p) \<Rightarrow>
          if rc \<noteq> 0 then (SQLITE_NOMEM, p)
          else (SQLITE_OK, p\<lparr>m_z := store_at (m_n p) [0, 0, 0] (m_z p),
                             m_flags := m_flags p OR MEM_Term\<rparr>))"

definition sqlite3VdbeMemNulTerminate :: "allocator \<Rightarrow> mem \<Rightarrow> int \<times> mem" where
  "sqlite3VdbeMemNulTerminate malloc p =
     (if m_flags p AND (MEM_Term OR MEM_Str) \<noteq> MEM_Str then (SQLITE_OK, p)
      else vdbeMemAddTerminator malloc p)"

definition sqlite3VdbeMemExpandBlob :: "allocator \<Rightarrow> mem \<Rightarrow> int \<times> mem" where
  "sqlite3VdbeMemExpandBlob malloc p =
     (let nByte = m_n p + m_nZero p in
      if nByte = 0 \<and> m_flags p AND MEM_Blob = 0 then (SQLITE_OK, p)
      else
        case sqlite3VdbeMemGrow malloc p (if nByte = 0 then 1 else nByte) True of
          (rc, p) \<Rightarrow>
            if rc \<noteq> 0 then (SQLITE_NOMEM, p)
            else (SQLITE_OK, p\<lparr>m_z := store_at (m_n p) (replicate (m_nZero p) 0) (m_z p),
                               m_n := m_n p + m_nZero p,
                               m_flags := m_flags p AND NOT (MEM_Zero OR MEM_Term)\<rparr>))"

text \<open>The macro \<open>ExpandBlob\<close>.\<close>

definition ExpandBlob :: "allocator \<Rightarrow> mem \<Rightarrow> int \<times> mem" where
  "ExpandBlob malloc p =
     (if m_flags p AND MEM_Zero \<noteq> 0 then sqlite3VdbeMemExpandBlob malloc p else (0, p))"

definition sqlite3VdbeMemMakeWriteable :: "allocator \<Rightarrow> mem \<Rightarrow> int \<times> mem" where
  "sqlite3VdbeMemMakeWriteable malloc p =
     (case (if m_flags p AND (MEM_Str OR MEM_Blob) \<noteq> 0 then
              case ExpandBlob malloc p of
                (rc, p) \<Rightarrow>
                  if rc \<noteq> 0 then (SQLITE_NOMEM, p)
                  else if m_szMalloc p = 0 \<or> \<not> m_own p then vdbeMemAddTerminator malloc p
                  else (SQLITE_OK, p)
            else (SQLITE_OK, p)) of
        (rc, p) \<Rightarrow>
          if rc \<noteq> 0 then (rc, p)
          else (SQLITE_OK, p\<lparr>m_flags := m_flags p AND NOT MEM_Ephem\<rparr>))"

section \<open>Translation between the encodings\<close>

text \<open>The loop that swaps the bytes of each unit.\<close>

fun swap_units :: "byte list \<Rightarrow> byte list" where
  "swap_units (a # b # z) = b # a # swap_units z"
| "swap_units z = z"

text \<open>UTF-8 to UTF-16, with the macro that writes a character.\<close>

lemma utf8_cont_le: "length (snd (utf8_cont c z)) \<le> length z"
  by (induction z arbitrary: c) (auto simp: le_Suc_eq)

lemma READ_UTF8_le: "z \<noteq> [] \<Longrightarrow> length (snd (READ_UTF8 z)) < length z"
  by (cases z) (simp_all add: Let_def case_prod_beta less_Suc_eq_le utf8_cont_le)

function utf8_to_16 :: "(u32 \<Rightarrow> byte list) \<Rightarrow> byte list \<Rightarrow> byte list" where
  "utf8_to_16 WRITE_UTF16 zIn =
     (if zIn = [] then []
      else WRITE_UTF16 (fst (READ_UTF8 zIn)) @ utf8_to_16 WRITE_UTF16 (snd (READ_UTF8 zIn)))"
  by pat_completeness auto
termination
  by (relation "measure (\<lambda>(w, z). length z)") (auto intro: READ_UTF8_le)

declare utf8_to_16.simps [simp del]

text \<open>
  UTF-16 to UTF-8: \<open>unit\<close> puts the two bytes of a unit together in the order of the encoding.
  The length of the input is even, \<open>pMem->n &= ~1\<close>.
\<close>

definition unitLE :: "byte \<Rightarrow> byte \<Rightarrow> u32" where
  "unitLE b0 b1 = ucast b0 + push_bit 8 (ucast b1)"

definition unitBE :: "byte \<Rightarrow> byte \<Rightarrow> u32" where
  "unitBE b0 b1 = push_bit 8 (ucast b0) + ucast b1"

definition surrogate_pair :: "u32 \<Rightarrow> u32 \<Rightarrow> u32" where
  "surrogate_pair c c2 =
     (c2 AND 0x03FF) + push_bit 10 (c AND 0x003F) + push_bit 10 ((c AND 0x03C0) + 0x0040)"

fun utf16_to_8 :: "(byte \<Rightarrow> byte \<Rightarrow> u32) \<Rightarrow> byte list \<Rightarrow> byte list" where
  "utf16_to_8 unit (b0 # b1 # zIn) =
     (let c = unit b0 b1 in
      if c \<ge> 0xd800 \<and> c < 0xe000 then
        case zIn of
          b2 # b3 # zIn \<Rightarrow> WRITE_UTF8 (surrogate_pair c (unit b2 b3)) @ utf16_to_8 unit zIn
        | _ \<Rightarrow> WRITE_UTF8 c
      else WRITE_UTF8 c @ utf16_to_8 unit zIn)"
| "utf16_to_8 unit _ = []"

definition sqlite3VdbeMemTranslate :: "allocator \<Rightarrow> mem \<Rightarrow> nat \<Rightarrow> int \<times> mem" where
  "sqlite3VdbeMemTranslate malloc p desiredEnc =
     (if m_enc p \<noteq> SQLITE_UTF8 \<and> desiredEnc \<noteq> SQLITE_UTF8 then
        (case sqlite3VdbeMemMakeWriteable malloc p of
           (rc, p) \<Rightarrow>
             if rc \<noteq> SQLITE_OK then (SQLITE_NOMEM, p)
             else
               let n = m_n p - m_n p mod 2 in
               (SQLITE_OK,
                p\<lparr>m_z := swap_units (take n (m_z p)) @ drop n (m_z p), m_enc := desiredEnc\<rparr>))
      else
        let p = (if desiredEnc = SQLITE_UTF8 then p\<lparr>m_n := m_n p - m_n p mod 2\<rparr> else p);
            len = (if desiredEnc = SQLITE_UTF8 then 2 * m_n p + 1 else 2 * m_n p + 2);
            zIn = take (m_n p) (m_z p) in
        if malloc len = 0 then (SQLITE_NOMEM, p)
        else
          let (n, zOut) =
            (if m_enc p = SQLITE_UTF8 then
               let out = (if desiredEnc = SQLITE_UTF16LE then utf8_to_16 WRITE_UTF16LE zIn
                          else utf8_to_16 WRITE_UTF16BE zIn)
               in (length out, out @ [0])
             else
               let out = (if m_enc p = SQLITE_UTF16LE then utf16_to_8 unitLE zIn
                          else utf16_to_8 unitBE zIn)
               in (length out, out)) in
          (SQLITE_OK,
           p\<lparr>m_n := n, m_z := zOut @ [0],
             m_flags := MEM_Str OR MEM_Term OR (m_flags p AND (MEM_AffMask OR MEM_Subtype)),
             m_enc := desiredEnc, m_own := True, m_szMalloc := malloc len\<rparr>))"

definition sqlite3VdbeChangeEncoding :: "allocator \<Rightarrow> mem \<Rightarrow> nat \<Rightarrow> int \<times> mem" where
  "sqlite3VdbeChangeEncoding malloc p desiredEnc =
     (if m_flags p AND MEM_Str = 0 then (SQLITE_OK, p\<lparr>m_enc := desiredEnc\<rparr>)
      else if m_enc p = desiredEnc then (SQLITE_OK, p)
      else sqlite3VdbeMemTranslate malloc p desiredEnc)"

definition sqlite3VdbeMemHandleBom :: "allocator \<Rightarrow> mem \<Rightarrow> int \<times> mem" where
  "sqlite3VdbeMemHandleBom malloc p =
     (let b1 = m_z p ! 0; b2 = m_z p ! 1;
          bom = (if m_n p > 1 \<and> b1 = 0xFE \<and> b2 = 0xFF then SQLITE_UTF16BE
                 else if m_n p > 1 \<and> b1 = 0xFF \<and> b2 = 0xFE then SQLITE_UTF16LE else 0) in
      if bom \<noteq> 0 then
        case sqlite3VdbeMemMakeWriteable malloc p of
          (rc, p) \<Rightarrow>
            if rc = SQLITE_OK then
              let n = m_n p - 2 in
              (rc, p\<lparr>m_n := n,
                     m_z := store_at n [0, 0] (store_at 0 (take n (drop 2 (m_z p))) (m_z p)),
                     m_flags := m_flags p OR MEM_Term, m_enc := bom\<rparr>)
            else (rc, p)
      else (SQLITE_OK, p))"

section \<open>The self test\<close>

text \<open>The assertions of \<open>sqlite3UtfSelfTest\<close> for one \<open>i\<close>.\<close>

definition sqlite3UtfSelfTest_at :: "u32 \<Rightarrow> bool" where
  "sqlite3UtfSelfTest_at i =
     (let z = WRITE_UTF8 i; n = length z; (c, rest) = sqlite3Utf8Read (z @ [0]);
          t = (if i \<ge> 0xD800 \<and> i \<le> 0xDFFF then 0xFFFD else i);
          t = (if i AND 0xFFFFFFFE = 0xFFFE then 0xFFFD else t) in
      n > 0 \<and> n \<le> 4 \<and> c = t \<and> length z + 1 - length rest = n)"

section \<open>Bytes of a character\<close>

lemma unat_and_mask: "unat ((c :: u32) AND mask n) = unat c mod 2 ^ n"
  unfolding take_bit_eq_mask [symmetric] unsigned_take_bit_eq by (rule take_bit_eq_mod)

lemma unat_masks [simp]:
  "unat (c AND 0x03) = unat (c :: u32) mod 4" "unat (c AND 0x07) = unat c mod 8"
  "unat (c AND 0x0F) = unat c mod 16" "unat (c AND 0x1F) = unat c mod 32"
  "unat (c AND 0x3F) = unat c mod 64" "unat (c AND 0xFF) = unat c mod 256"
  "unat (c AND 0x3FF) = unat c mod 1024"
  using unat_and_mask [of c 2] unat_and_mask [of c 3] unat_and_mask [of c 4]
    unat_and_mask [of c 5] unat_and_mask [of c 6] unat_and_mask [of c 8] unat_and_mask [of c 10]
  by (simp_all add: mask_eq_exp_minus_1)

lemma unat_drop: "unat (drop_bit n c) = unat (c :: u32) div 2 ^ n"
  unfolding unat_drop_bit_eq by (rule drop_bit_eq_div)

lemma cont_byte:
  "0xc0 AND (0x80 + (0x3f AND (y :: byte))) = 0x80"
  "0x3f AND (0x80 + (0x3f AND y)) = 0x3f AND y"
  "0x80 \<le> 0x80 + (0x3f AND y) \<and> 0x80 + (0x3f AND y) < 0xc0"
  by (rule all_bytesI [of "\<lambda>y. 0xc0 AND (0x80 + (0x3f AND y)) = 0x80"], code_simp,
      rule all_bytesI [of "\<lambda>y. 0x3f AND (0x80 + (0x3f AND y)) = 0x3f AND y"], code_simp,
      rule all_bytesI [of "\<lambda>y. 0x80 \<le> 0x80 + (0x3f AND y) \<and> 0x80 + (0x3f AND y) < 0xc0"], code_simp)

definition lead_ok :: "byte \<Rightarrow> bool" where
  "lead_ok b = (b \<ge> 0xc0 \<longrightarrow> unat (sqlite3Utf8Trans1 ! (unat b - 0xc0)) =
     (if b < 0xe0 then unat b - 0xc0 else if b < 0xf0 then unat b - 0xe0
      else if b < 0xf8 then unat b - 0xf0 else if b < 0xfc then unat b - 0xf8
      else if b = 0xfd then 1 else 0))"

lemma lead_byte: "lead_ok b"
  by (rule all_bytesI [of lead_ok]) code_simp

text \<open>The low bits of \<open>c\<close> as a continuation byte.\<close>

definition cont :: "u32 \<Rightarrow> byte" where
  "cont c = 0x80 + ucast (c AND 0x3f)"

lemma ucast_and_mask: "(ucast ((c :: u32) AND 0x3f) :: byte) = ucast c AND 0x3f"
  by (rule byte_eqI) (simp add: upt_0_8 bit_simps)

lemma utf8_cont_cont [simp]:
  "utf8_cont c (cont d # z) = utf8_cont (push_bit 6 c + (d AND 0x3f)) z"
proof -
  have "(ucast ((ucast d :: byte) AND 0x3f) :: u32) = d AND 0x3f"
    by (rule u32_eqI) (simp add: upt_0_32 bit_simps byte_bit_False)
  then show ?thesis
    using cont_byte(1,2) [of "ucast d"] by (simp add: cont_def ucast_and_mask and.commute)
qed


definition not_cont :: "byte list \<Rightarrow> bool" where
  "not_cont z = (z = [] \<or> hd z AND 0xc0 \<noteq> 0x80)"

lemma utf8_cont_stop: "not_cont z \<Longrightarrow> utf8_cont c z = (c, z)"
  by (cases z) (auto simp: not_cont_def)

lemma push_drop: "push_bit 6 (drop_bit 6 c) + (c AND 0x3f) = (c :: u32)"
  using bits_ident [of 6 c] take_bit_eq_mask [of 6 c] by (simp add: mask_eq_exp_minus_1)

lemma and_mask_less: "unat (c :: u32) < 2 ^ n \<Longrightarrow> c AND mask n = c"
  by (rule word_unat_eq_iff [THEN iffD2]) (simp add: unat_and_mask)

definition trans1 :: "byte \<Rightarrow> u32" where
  "trans1 b = ucast (sqlite3Utf8Trans1 ! unat ((ucast b :: u32) - 0xc0))"

lemma unat_byte_less: "unat (b :: byte) < 256"
  by (rule order_less_le_trans [OF unsigned_less]) simp

lemma take_bit_32_byte [simp]: "take_bit 32 (unat (b :: byte)) = unat b"
  by (rule take_bit_nat_eq_self, rule order_less_trans [OF unat_byte_less]) simp

lemma unat_ucast_byte_32 [simp]: "unat (ucast (b :: byte) :: u32) = unat b"
  by (simp add: unsigned_ucast_eq)

lemma READ_UTF8_lead:
  assumes "b \<ge> 0xc0"
  shows "READ_UTF8 (b # z) = (case utf8_cont (trans1 b) z of (c, z) \<Rightarrow> (utf8_replace c, z))"
  using assms by (simp add: trans1_def Let_def word_le_nat_alt)

lemma unat_trans1: "b \<ge> 0xc0 \<Longrightarrow> unat (trans1 b) = unat (sqlite3Utf8Trans1 ! (unat b - 0xc0))"
  by (simp add: trans1_def unat_sub word_le_nat_alt)

lemma trans1_eqI:
  assumes "unat b = n + unat c"
    "n = 0xC0 \<and> unat c < 32 \<or> n = 0xE0 \<and> unat c < 16 \<or> n = 0xF0 \<and> unat c < 8"
  shows "b \<ge> 0xc0 \<and> trans1 b = c"
proof -
  have b: "b \<ge> 0xc0"
    using assms by (auto simp: word_le_nat_alt)
  have "unat (trans1 b) = unat c"
    using lead_byte [of b] assms b unfolding lead_ok_def unat_trans1 [OF b]
    by (auto simp: word_less_nat_alt)
  then show ?thesis
    using b by (simp add: word_unat_eq_iff)
qed

lemma unat_ucast_u32_byte: "unat (c :: u32) < 256 \<Longrightarrow> unat (ucast c :: byte) = unat c"
  by (simp add: unsigned_ucast_eq take_bit_eq_mod)

lemma lead_trans1:
  "unat c < 32 \<Longrightarrow> 0xc0 \<le> 0xC0 + (ucast c :: byte) \<and> trans1 (0xC0 + ucast c) = c"
  "unat c < 16 \<Longrightarrow> 0xc0 \<le> 0xE0 + (ucast c :: byte) \<and> trans1 (0xE0 + ucast c) = c"
  "unat c < 8 \<Longrightarrow> 0xc0 \<le> 0xF0 + (ucast c :: byte) \<and> trans1 (0xF0 + ucast c) = c"
proof -
  show "unat c < 32 \<Longrightarrow> 0xc0 \<le> 0xC0 + (ucast c :: byte) \<and> trans1 (0xC0 + ucast c) = c"
    by (rule trans1_eqI [where n = "0xC0"]) (simp_all add: unat_word_ariths unat_ucast_u32_byte)
  show "unat c < 16 \<Longrightarrow> 0xc0 \<le> 0xE0 + (ucast c :: byte) \<and> trans1 (0xE0 + ucast c) = c"
    by (rule trans1_eqI [where n = "0xE0"]) (simp_all add: unat_word_ariths unat_ucast_u32_byte)
  show "unat c < 8 \<Longrightarrow> 0xc0 \<le> 0xF0 + (ucast c :: byte) \<and> trans1 (0xF0 + ucast c) = c"
    by (rule trans1_eqI [where n = "0xF0"]) (simp_all add: unat_word_ariths unat_ucast_u32_byte)
qed

text \<open>The bytes written, with the masks that do not cut anything left out.\<close>

lemma drop_drop6: "drop_bit 12 c = drop_bit 6 (drop_bit 6 (c :: u32))"
  "drop_bit 18 c = drop_bit 6 (drop_bit 6 (drop_bit 6 c))"
  by simp_all

lemma WRITE_UTF8_bytes:
  "unat c < 0x80 \<Longrightarrow> WRITE_UTF8 c = [ucast c]"
  "0x80 \<le> unat c \<Longrightarrow> unat c < 0x800 \<Longrightarrow> WRITE_UTF8 c = [0xC0 + ucast (drop_bit 6 c), cont c]"
  "0x800 \<le> unat c \<Longrightarrow> unat c < 0x10000 \<Longrightarrow>
     WRITE_UTF8 c = [0xE0 + ucast (drop_bit 12 c), cont (drop_bit 6 c), cont c]"
  "0x10000 \<le> unat c \<Longrightarrow> unat c < 0x200000 \<Longrightarrow>
     WRITE_UTF8 c = [0xF0 + ucast (drop_bit 18 c), cont (drop_bit 12 c), cont (drop_bit 6 c), cont c]"
proof -
  have m: "unat c < 0x80 \<Longrightarrow> c AND 0xFF = c" "unat c < 0x800 \<Longrightarrow> drop_bit 6 c AND 0x1F = drop_bit 6 c"
    "unat c < 0x10000 \<Longrightarrow> drop_bit 12 c AND 0x0F = drop_bit 12 c"
    "unat c < 0x200000 \<Longrightarrow> drop_bit 18 c AND 0x07 = drop_bit 18 c"
    by (simp_all only: word_unat_eq_iff) (simp_all add: unat_drop)
  show "unat c < 0x80 \<Longrightarrow> WRITE_UTF8 c = [ucast c]"
    using m(1) by (simp add: WRITE_UTF8_def word_less_nat_alt)
  show "0x80 \<le> unat c \<Longrightarrow> unat c < 0x800 \<Longrightarrow> WRITE_UTF8 c = [0xC0 + ucast (drop_bit 6 c), cont c]"
    using m(2) by (simp add: WRITE_UTF8_def word_less_nat_alt cont_def)
  show "0x800 \<le> unat c \<Longrightarrow> unat c < 0x10000 \<Longrightarrow>
     WRITE_UTF8 c = [0xE0 + ucast (drop_bit 12 c), cont (drop_bit 6 c), cont c]"
    using m(3) by (simp add: WRITE_UTF8_def word_less_nat_alt cont_def)
  show "0x10000 \<le> unat c \<Longrightarrow> unat c < 0x200000 \<Longrightarrow>
     WRITE_UTF8 c = [0xF0 + ucast (drop_bit 18 c), cont (drop_bit 12 c), cont (drop_bit 6 c), cont c]"
    using m(4) by (simp add: WRITE_UTF8_def word_less_nat_alt cont_def)
qed

lemma WRITE_UTF8_lengths:
  "length (WRITE_UTF8 c) = (if unat c < 0x80 then 1 else if unat c < 0x800 then 2
     else if unat c < 0x10000 then 3 else 4)"
  by (simp add: WRITE_UTF8_def word_less_nat_alt)

lemma AppendOne_WRITE: "sqlite3AppendOneUtf8Character c = (length (WRITE_UTF8 c), WRITE_UTF8 c)"
  by (simp add: WRITE_UTF8_def sqlite3AppendOneUtf8Character_def)

lemma READ_WRITE_UTF8:
  assumes "unat c < 0x200000" "not_cont z"
  shows "READ_UTF8 (WRITE_UTF8 c @ z) = (if unat c < 0x80 then c else utf8_replace c, z)"
proof -
  have push: "push_bit 6 (push_bit 6 (drop_bit 6 (drop_bit 6 c)) + (drop_bit 6 c AND 0x3f)) + (c AND 0x3f) = c"
    "push_bit 6 (push_bit 6 (push_bit 6 (drop_bit 6 (drop_bit 6 (drop_bit 6 c))) + (drop_bit 6 (drop_bit 6 c) AND 0x3f))
       + (drop_bit 6 c AND 0x3f)) + (c AND 0x3f) = c"
    by (simp_all only: push_drop)
  consider "unat c < 0x80" | "0x80 \<le> unat c" "unat c < 0x800" | "0x800 \<le> unat c" "unat c < 0x10000"
    | "0x10000 \<le> unat c" by linarith
  then show ?thesis
  proof cases
    case 1
    then have "unat (ucast c :: byte) < 0x80"
      by (simp add: unat_ucast_u32_byte)
    moreover have "ucast (ucast c :: byte) = c"
      using 1 by (simp add: word_unat_eq_iff unat_ucast_u32_byte)
    ultimately show ?thesis
      using 1 WRITE_UTF8_bytes(1) [OF 1] by (simp add: Let_def word_le_nat_alt)
  next
    case 2
    have "unat (drop_bit 6 c) < 32"
      using 2 by (simp add: unat_drop)
    from lead_trans1(1) [OF this] show ?thesis
      using 2 WRITE_UTF8_bytes(2) [OF 2] assms(2)
      by (simp add: READ_UTF8_lead utf8_cont_stop push_drop del: READ_UTF8.simps utf8_cont.simps(2))
  next
    case 3
    have "unat (drop_bit 12 c) < 16"
      using 3 by (simp add: unat_drop)
    from lead_trans1(2) [OF this] show ?thesis
      using 3 WRITE_UTF8_bytes(3) [OF 3] assms(2) push(1)
      by (simp add: READ_UTF8_lead utf8_cont_stop del: READ_UTF8.simps utf8_cont.simps(2))
  next
    case 4
    have "unat (drop_bit 18 c) < 8"
      using assms(1) by (simp add: unat_drop)
    from lead_trans1(3) [OF this] show ?thesis
      using 4 WRITE_UTF8_bytes(4) [OF 4 assms(1)] assms(2) push(2)
      by (simp add: READ_UTF8_lead utf8_cont_stop del: READ_UTF8.simps utf8_cont.simps(2))
  qed
qed


text \<open>What is written starts a new character: it ends the reading of the one before.\<close>

lemma byte_stop: "0xc0 \<le> b \<or> unat b < 0x80 \<Longrightarrow> (b :: byte) AND 0xc0 \<noteq> 0x80"
  by (rule all_bytesI [of "\<lambda>b. 0xc0 \<le> b \<or> unat b < 0x80 \<longrightarrow> b AND 0xc0 \<noteq> 0x80", THEN mp]) code_simp

lemma WRITE_UTF8_not_cont: "unat c < 0x200000 \<Longrightarrow> not_cont (WRITE_UTF8 c @ z)"
proof -
  assume c: "unat c < 0x200000"
  consider "unat c < 0x80" | "0x80 \<le> unat c" "unat c < 0x800" | "0x800 \<le> unat c" "unat c < 0x10000"
    | "0x10000 \<le> unat c" by linarith
  then show ?thesis
  proof cases
    case 1
    then have "unat (ucast c :: byte) < 0x80"
      by (simp add: unat_ucast_u32_byte)
    then show ?thesis
      by (simp add: WRITE_UTF8_bytes(1) [OF 1] not_cont_def byte_stop)
  next
    case 2
    then have "unat (drop_bit 6 c) < 32" by (simp add: unat_drop)
    then show ?thesis
      using lead_trans1(1) by (simp add: WRITE_UTF8_bytes(2) [OF 2] not_cont_def byte_stop)
  next
    case 3
    then have "unat (drop_bit 12 c) < 16" by (simp add: unat_drop)
    then show ?thesis
      using lead_trans1(2) by (simp add: WRITE_UTF8_bytes(3) [OF 3] not_cont_def byte_stop)
  next
    case 4
    from c have "unat (drop_bit 18 c) < 8" by (simp add: unat_drop)
    then show ?thesis
      using lead_trans1(3) by (simp add: WRITE_UTF8_bytes(4) [OF 4 c] not_cont_def byte_stop)
  qed
qed

text \<open>
  The code points: \<open>scalar\<close> leaves out what \<open>READ_UTF8\<close> replaces, the surrogates and the
  values that end in \<open>FFFE\<close> and \<open>FFFF\<close> of the first plane.
\<close>

definition scalar :: "u32 \<Rightarrow> bool" where
  "scalar c = (unat c < 0x110000 \<and> \<not> (0xD800 \<le> unat c \<and> unat c < 0xE000) \<and> unat c \<noteq> 0xFFFE \<and> unat c \<noteq> 0xFFFF)"

lemma unat_high_mask:
  fixes c m :: u32
  assumes "m = NOT (mask n)"
  shows "unat (c AND m) = unat c div 2 ^ n * 2 ^ n"
proof -
  have "c AND m = c - (c AND mask n)"
  proof -
    have "c AND m = push_bit n (drop_bit n c)"
      unfolding assms by (rule bit_eqI) (auto simp: bit_simps)
    then show ?thesis
      using bits_ident [of n c] by (simp add: take_bit_eq_mask eq_diff_eq)
  qed
  moreover have "c AND mask n \<le> c"
    by (rule word_and_le2)
  ultimately have "unat (c AND m) = unat c - unat c mod 2 ^ n"
    by (simp add: unat_sub unat_and_mask)
  then show ?thesis
    by (simp add: minus_mod_eq_div_mult)
qed

lemma surrogate_mask: "(c :: u32) AND 0xFFFFF800 = 0xD800 \<longleftrightarrow> 0xD800 \<le> unat c \<and> unat c < 0xE000"
proof -
  have "unat (c AND 0xFFFFF800) = unat c div 2 ^ 11 * 2 ^ 11"
    by (rule unat_high_mask) (simp add: mask_eq_exp_minus_1)
  then have "c AND 0xFFFFF800 = 0xD800 \<longleftrightarrow> unat c div 2 ^ 11 * 2 ^ 11 = 27 * 2 ^ 11"
    by (simp add: word_unat_eq_iff)
  also have "\<dots> \<longleftrightarrow> unat c div 2 ^ 11 = 27"
    by simp
  also have "\<dots> \<longleftrightarrow> 0xD800 \<le> unat c \<and> unat c < 0xE000"
    using div_mult_mod_eq [of "unat c" "2 ^ 11"] by (auto intro!: div_nat_eqI)
  finally show ?thesis .
qed

lemma noncharacter_mask: "(c :: u32) AND 0xFFFFFFFE = 0xFFFE \<longleftrightarrow> unat c = 0xFFFE \<or> unat c = 0xFFFF"
proof -
  have "unat (c AND 0xFFFFFFFE) = unat c div 2 ^ 1 * 2 ^ 1"
    by (rule unat_high_mask) (simp add: mask_eq_exp_minus_1)
  then show ?thesis
    by (simp add: word_unat_eq_iff) presburger
qed

lemma utf8_replace_scalar: "scalar c \<Longrightarrow> 0x80 \<le> unat c \<Longrightarrow> utf8_replace c = c"
  by (auto simp: utf8_replace_def scalar_def surrogate_mask noncharacter_mask word_less_nat_alt)

lemma READ_WRITE_scalar: "scalar c \<Longrightarrow> not_cont z \<Longrightarrow> READ_UTF8 (WRITE_UTF8 c @ z) = (c, z)"
  using READ_WRITE_UTF8 [of c z] utf8_replace_scalar [of c] by (simp add: scalar_def)

definition utf8 :: "u32 list \<Rightarrow> byte list" where
  "utf8 cs = concat (map WRITE_UTF8 cs)"

definition utf16 :: "(u32 \<Rightarrow> byte list) \<Rightarrow> u32 list \<Rightarrow> byte list" where
  "utf16 W cs = concat (map W cs)"

lemma utf8_not_cont: "list_all scalar cs \<Longrightarrow> not_cont z \<Longrightarrow> not_cont (utf8 cs @ z)"
  by (cases cs) (auto simp: utf8_def WRITE_UTF8_not_cont scalar_def)

lemma WRITE_UTF8_ne [simp]: "WRITE_UTF8 c \<noteq> []"
  by (simp add: WRITE_UTF8_def)

lemma utf8_to_16_utf8:
  "list_all scalar cs \<Longrightarrow> utf8_to_16 W (utf8 cs) = utf16 W cs"
proof (induction cs)
  case Nil
  then show ?case by (simp add: utf8_def utf16_def utf8_to_16.simps [of W "[]"])
next
  case (Cons c cs)
  have "not_cont (utf8 cs)"
    using utf8_not_cont [of cs "[]"] Cons.prems by (simp add: not_cont_def)
  then have "READ_UTF8 (WRITE_UTF8 c @ utf8 cs) = (c, utf8 cs)"
    using Cons.prems by (intro READ_WRITE_scalar) simp_all
  moreover have "utf8 (c # cs) = WRITE_UTF8 c @ utf8 cs" "utf16 W (c # cs) = W c @ utf16 W cs"
    by (simp_all add: utf8_def utf16_def)
  ultimately show ?case
    using Cons by (simp add: utf8_to_16.simps [of W "WRITE_UTF8 c @ utf8 cs"])
qed


section \<open>UTF-16 units\<close>

lemma unat_unitLE: "unat (unitLE a b) = unat a + 256 * unat b"
proof -
  have "unat (push_bit 8 (ucast b) :: u32) = 256 * unat b"
    using unat_byte_less [of b]
    by (simp add: push_bit_eq_mult unat_word_ariths)
  then show ?thesis
    using unat_byte_less [of b] unat_byte_less [of a]
    by (simp add: unitLE_def unat_word_ariths)
qed

lemma unitBE_LE: "unitBE a b = unitLE b a"
  by (simp add: unitBE_def unitLE_def add.commute)

lemma unat_mask_c0: "unat ((c :: u32) AND 0xC0) = unat c div 64 mod 4 * 64"
proof -
  have "c AND 0xC0 = push_bit 6 (drop_bit 6 c AND 0x03)"
    by (rule u32_eqI) (simp add: upt_0_32 bit_simps)
  then show ?thesis
    by (simp add: push_bit_eq_mult unat_word_ariths unat_drop del: push_bit_and)
qed

lemma unat_mask_3c0: "unat ((c :: u32) AND 0x3C0) = unat c div 64 mod 16 * 64"
proof -
  have "c AND 0x3C0 = push_bit 6 (drop_bit 6 c AND 0x0F)"
    by (rule u32_eqI) (simp add: upt_0_32 bit_simps)
  then show ?thesis
    by (simp add: push_bit_eq_mult unat_word_ariths unat_drop del: push_bit_and)
qed

lemma ucast_small: "unat (c :: u32) = n \<Longrightarrow> n < 256 \<Longrightarrow> unat (ucast c :: byte) = n"
  by (simp add: unat_ucast_u32_byte)

lemma WRITE_UTF16LE_small:
  assumes "unat c \<le> 0xFFFF"
  obtains b0 b1 where "WRITE_UTF16LE c = [b0, b1]" "unat b0 = unat c mod 256" "unat b1 = unat c div 256"
proof
  show "WRITE_UTF16LE c = [ucast (c AND 0xFF), ucast (drop_bit 8 c AND 0xFF)]"
    using assms by (simp add: WRITE_UTF16LE_def word_le_nat_alt)
  show "unat (ucast (c AND 0xFF) :: byte) = unat c mod 256"
    by (rule ucast_small) simp_all
  show "unat (ucast (drop_bit 8 c AND 0xFF) :: byte) = unat c div 256"
    using assms by (intro ucast_small) (simp_all add: unat_drop)
qed

lemma WRITE_UTF16LE_large:
  assumes "0x10000 \<le> unat c" "unat c < 0x110000" "q = (unat c - 0x10000) div 1024"
  obtains b0 b1 b2 b3 where "WRITE_UTF16LE c = [b0, b1, b2, b3]" "unat b0 = q mod 256"
    "unat b1 = 0xD8 + q div 256" "unat b2 = unat c mod 256" "unat b3 = 0xDC + unat c div 256 mod 4"
proof
  have w: "unat (c - 0x10000) = unat c - 0x10000"
    using assms by (simp add: unat_sub word_le_nat_alt)
  have q: "q < 1024" "unat c div 1024 = q + 64"
    using assms by linarith+
  have c18: "(unat c - 65536) div 262144 = q div 256"
    unfolding assms(3) by (simp flip: div_mult2_eq)
  show "WRITE_UTF16LE c =
    [ucast ((drop_bit 10 c AND 0x003F) + (drop_bit 10 (c - 0x10000) AND 0x00C0)),
     ucast (0x00D8 + (drop_bit 18 (c - 0x10000) AND 0x03)), ucast (c AND 0x00FF),
     ucast (0x00DC + (drop_bit 8 c AND 0x03))]"
    using assms by (simp add: WRITE_UTF16LE_def word_le_nat_alt)
  show "unat (ucast ((drop_bit 10 c AND 0x003F) + (drop_bit 10 (c - 0x10000) AND 0x00C0)) :: byte) = q mod 256"
  proof (rule ucast_small)
    have "unat ((drop_bit 10 c AND 0x003F) + (drop_bit 10 (c - 0x10000) AND 0x00C0)) =
      (q + 64) mod 64 + q div 64 mod 4 * 64"
    proof -
      have "(q + 64) mod 64 + q div 64 mod 4 * 64 < 4294967296"
        by (rule le_less_trans [of _ "63 + 3 * 64"]) (simp_all add: add_mono)
      then show ?thesis
        unfolding unat_word_ariths unat_masks unat_mask_c0 unat_drop w
        using q assms(3) by simp
    qed
    also have "\<dots> = q mod 256"
      using mod_mult2_eq [of q 64 4] by simp
    finally show "unat ((drop_bit 10 c AND 0x003F) + (drop_bit 10 (c - 0x10000) AND 0x00C0)) = q mod 256" .
  qed simp
  show "unat (ucast (0x00D8 + (drop_bit 18 (c - 0x10000) AND 0x03)) :: byte) = 0xD8 + q div 256"
    using q by (intro ucast_small) (simp_all add: unat_word_ariths unat_drop w c18)
  show "unat (ucast (c AND 0x00FF) :: byte) = unat c mod 256"
    by (rule ucast_small) simp_all
  have "unat c div 256 mod 4 < 4" by simp
  then show "unat (ucast (0x00DC + (drop_bit 8 c AND 0x03)) :: byte) = 0xDC + unat c div 256 mod 4"
    by (intro ucast_small) (simp_all add: unat_word_ariths unat_drop)
qed

lemma unat_surrogate_pair:
  "unat (surrogate_pair c d) =
     unat d mod 1024 + unat c mod 64 * 1024 + (unat c div 64 mod 16 * 64 + 64) * 1024"
proof -
  have "unat (push_bit 10 (c AND 0x3F)) = unat c mod 64 * 1024"
    by (simp add: push_bit_eq_mult unat_word_ariths del: push_bit_and)
  moreover have "unat (push_bit 10 ((c AND 0x3C0) + 0x40)) = (unat c div 64 mod 16 * 64 + 64) * 1024"
    by (simp add: push_bit_eq_mult unat_word_ariths unat_mask_3c0 del: push_bit_and)
  moreover have "unat d mod 1024 + unat c mod 64 * 1024 + (unat c div 64 mod 16 * 64 + 64) * 1024 < 2 ^ 32"
    by simp
  ultimately show ?thesis
    unfolding surrogate_pair_def by (simp add: unat_word_ariths del: push_bit_and)
qed


lemma utf16_to_8_small:
  "\<not> (unat (unit b0 b1) \<ge> 0xd800 \<and> unat (unit b0 b1) < 0xe000) \<Longrightarrow>
   utf16_to_8 unit (b0 # b1 # z) = WRITE_UTF8 (unit b0 b1) @ utf16_to_8 unit z"
  by (auto simp: Let_def word_le_nat_alt word_less_nat_alt)

lemma utf16_to_8_pair:
  "unat (unit b0 b1) \<ge> 0xd800 \<Longrightarrow> unat (unit b0 b1) < 0xe000 \<Longrightarrow>
   utf16_to_8 unit (b0 # b1 # b2 # b3 # z) =
     WRITE_UTF8 (surrogate_pair (unit b0 b1) (unit b2 b3)) @ utf16_to_8 unit z"
  by (simp add: Let_def word_le_nat_alt word_less_nat_alt)

lemma utf16_to_8_WRITE:
  assumes "scalar c"
  shows "utf16_to_8 unitLE (WRITE_UTF16LE c @ z) = WRITE_UTF8 c @ utf16_to_8 unitLE z"
proof (cases "unat c \<le> 0xFFFF")
  case True
  then obtain b0 b1 where b: "WRITE_UTF16LE c = [b0, b1]" "unat b0 = unat c mod 256" "unat b1 = unat c div 256"
    by (rule WRITE_UTF16LE_small)
  then have "unitLE b0 b1 = c"
    by (simp add: word_unat_eq_iff unat_unitLE)
  then show ?thesis
    using assms b(1) utf16_to_8_small [of unitLE b0 b1 z] by (simp add: scalar_def)
next
  case False
  define q where "q = (unat c - 0x10000) div 1024"
  have q: "q < 1024" "unat c div 1024 = q + 64"
    using assms False unfolding q_def scalar_def by linarith+
  have "0x10000 \<le> unat c" "unat c < 0x110000"
    using False assms by (simp_all add: scalar_def)
  from WRITE_UTF16LE_large [OF this q_def]
  obtain b0 b1 b2 b3 where b: "WRITE_UTF16LE c = [b0, b1, b2, b3]" "unat b0 = q mod 256"
    "unat b1 = 0xD8 + q div 256" "unat b2 = unat c mod 256" "unat b3 = 0xDC + unat c div 256 mod 4"
    by metis
  have u0: "unat (unitLE b0 b1) = 0xD800 + q"
    using b div_mult_mod_eq [of q 256] by (simp add: unat_unitLE)
  have u2: "unat (unitLE b2 b3) = 0xDC00 + unat c mod 1024"
    using b mod_mult2_eq [of "unat c" 256 4] by (simp add: unat_unitLE)
  have "unat (surrogate_pair (unitLE b0 b1) (unitLE b2 b3)) =
    unat c mod 1024 + q mod 64 * 1024 + (q div 64 * 64 + 64) * 1024"
  proof -
    have "(0xDC00 + unat c mod 1024) mod 1024 = unat c mod 1024" "(0xD800 + q) mod 64 = q mod 64"
      "(0xD800 + q) div 64 mod 16 = q div 64"
      using mod_mult_self3 [of 55 1024 "unat c mod 1024"] mod_mult_self3 [of 864 64 q]
        div_mult_self3 [of 64 864 q] mod_mult_self3 [of 54 16 "q div 64"] q(1) by simp_all
    then show ?thesis
      by (simp add: unat_surrogate_pair u0 u2)
  qed
  also have "\<dots> = unat c mod 1024 + (q + 64) * 1024"
  proof -
    have "a + m * 1024 + (d * 64 + 64) * 1024 = a + (d * 64 + m + 64) * 1024" for a m d :: nat
      by simp
    then show ?thesis
      using div_mult_mod_eq [of q 64] by metis
  qed
  also have "\<dots> = unat c"
    using q(2) div_mult_mod_eq [of "unat c" 1024] by simp
  finally have "surrogate_pair (unitLE b0 b1) (unitLE b2 b3) = c"
    by (simp add: word_unat_eq_iff)
  then show ?thesis
    using b(1) u0 q(1) utf16_to_8_pair [of unitLE b0 b1 b2 b3 z] by (simp del: utf16_to_8.simps)
qed

lemma utf16_to_8_utf16: "list_all scalar cs \<Longrightarrow> utf16_to_8 unitLE (utf16 WRITE_UTF16LE cs) = utf8 cs"
  by (induction cs) (simp_all add: utf16_def utf8_def utf16_to_8_WRITE)

text \<open>Big-endian text is little-endian text with its units swapped.\<close>

lemma WRITE_UTF16BE_swap: "swap_units (WRITE_UTF16LE c @ z) = WRITE_UTF16BE c @ swap_units z"
  by (simp add: WRITE_UTF16BE_def WRITE_UTF16LE_def)

lemma utf16_swap: "swap_units (utf16 WRITE_UTF16LE cs) = utf16 WRITE_UTF16BE cs"
  by (induction cs) (simp_all add: utf16_def WRITE_UTF16BE_swap)

lemma swap_swap [simp]: "swap_units (swap_units z) = z"
  by (induction z rule: swap_units.induct) simp_all

lemma length_swap [simp]: "length (swap_units z) = length z"
  by (induction z rule: swap_units.induct) simp_all

lemma utf16_to_8_BE: "even (length z) \<Longrightarrow> utf16_to_8 unitBE z = utf16_to_8 unitLE (swap_units z)"
  by (induction unitBE z rule: utf16_to_8.induct)
    (auto simp: unitBE_LE Let_def split: list.splits)


section \<open>Values\<close>

text \<open>
  The well-formed text values: the encoding is one of the three, the value lies inside the
  known memory, \<open>MEM_Term\<close> is true of the memory, and an own buffer is not smaller than what
  has been written to it.
\<close>

definition terminated :: "mem \<Rightarrow> bool" where
  "terminated p = (m_n p < length (m_z p) \<and> m_z p ! m_n p = 0 \<and>
     (m_enc p \<noteq> SQLITE_UTF8 \<longrightarrow> m_n p + 1 < length (m_z p) \<and> m_z p ! (m_n p + 1) = 0))"

definition text_ok :: "mem \<Rightarrow> bool" where
  "text_ok p =
     (m_enc p \<in> {SQLITE_UTF8, SQLITE_UTF16LE, SQLITE_UTF16BE} \<and>
      m_flags p AND MEM_Str \<noteq> 0 \<and> m_flags p AND MEM_Zero = 0 \<and> m_n p \<le> length (m_z p) \<and>
      (m_flags p AND MEM_Term \<noteq> 0 \<longrightarrow> terminated p) \<and>
      (m_own p \<and> m_szMalloc p > 0 \<longrightarrow> length (m_z p) \<le> m_szMalloc p))"

definition mem_text :: "mem \<Rightarrow> byte list" where
  "mem_text p = take (m_n p) (m_z p)"

text \<open>An allocator returns blocks of at least the size asked for, or fails.\<close>

definition allocates :: "allocator \<Rightarrow> bool" where
  "allocates malloc = (\<forall>n. malloc n = 0 \<or> n \<le> malloc n)"

text \<open>Flag arithmetic.\<close>

lemma u16_eqI: "list_all (\<lambda>n. bit a n = bit b n) [0, 1, 2, 3, 4, 5, 6, 7, 8, 9, 10, 11, 12, 13, 14, 15] \<Longrightarrow> a = (b :: u16)"
proof (rule bit_word_eqI)
  fix n assume *: "list_all (\<lambda>n. bit a n = bit b n) [0, 1, 2, 3, 4, 5, 6, 7, 8, 9, 10, 11, 12, 13, 14, 15]"
    and n: "n < LENGTH(16)"
  have "n \<in> set [0..<16]" using n by simp
  also have "[0..<16] = [0, 1, 2, 3, 4, 5, 6, 7, 8, 9, 10, 11, 12, 13, 14, 15]"
    by (simp add: upt_rec)
  finally show "bit a n = bit b n"
    using * unfolding list_all_iff by blast
qed

lemma flag_masks:
  "(f AND NOT MEM_Owner) AND MEM_Str = f AND MEM_Str"
  "(f AND NOT MEM_Owner) AND MEM_Zero = f AND MEM_Zero"
  "(f AND NOT MEM_Owner) AND MEM_Term = f AND MEM_Term"
  "(f OR MEM_Term) AND MEM_Str = f AND MEM_Str"
  "(f OR MEM_Term) AND MEM_Zero = f AND MEM_Zero"
  "(f AND NOT MEM_Ephem) AND MEM_Str = f AND MEM_Str"
  "(f AND NOT MEM_Ephem) AND MEM_Zero = f AND MEM_Zero"
  "(f AND NOT MEM_Ephem) AND MEM_Term = f AND MEM_Term"
  "(MEM_Str OR MEM_Term OR (f AND (MEM_AffMask OR MEM_Subtype))) AND MEM_Zero = 0"
  by (rule u16_eqI, simp add: MEM_defs bit_simps)+

lemma bit_nonzero: "bit (x :: u16) n \<Longrightarrow> x \<noteq> 0"
  by auto

lemma flag_nonzero:
  "(MEM_Str OR MEM_Term OR f) AND MEM_Str \<noteq> 0"
  "(MEM_Str OR MEM_Term OR f) AND MEM_Term \<noteq> 0" "(f OR MEM_Term) AND MEM_Term \<noteq> 0"
  by (rule bit_nonzero [where n = 1], simp add: MEM_defs bit_simps,
      (rule bit_nonzero [where n = 9], simp add: MEM_defs bit_simps)+)

lemma MEM_nonzero: "MEM_Str \<noteq> 0" "MEM_Term \<noteq> 0"
  by (simp_all add: MEM_defs)

lemmas flag_simps = flag_masks flag_nonzero MEM_nonzero

lemma str_or_blob: "f AND MEM_Str \<noteq> 0 \<Longrightarrow> f AND (MEM_Str OR MEM_Blob) \<noteq> 0"
proof
  assume "f AND MEM_Str \<noteq> 0" "f AND (MEM_Str OR MEM_Blob) = 0"
  moreover have "(f AND (MEM_Str OR MEM_Blob)) AND MEM_Str = f AND MEM_Str"
    by (rule u16_eqI) (simp add: MEM_defs bit_simps)
  ultimately show False by simp
qed

lemma store_at_simps:
  "length (store_at i bs z) = min i (length z) + length bs + (length z - (i + length bs))"
  "i \<le> length z \<Longrightarrow> take i (store_at i bs z) = take i z"
  "i \<le> length z \<Longrightarrow> k < length bs \<Longrightarrow> store_at i bs z ! (i + k) = bs ! k"
  by (simp_all add: store_at_def nth_append)

lemma zeros_3: "k < 3 \<Longrightarrow> [0, 0, 0 :: byte] ! k = 0"
  by (auto simp: less_Suc_eq numeral_3_eq_3)

lemma AddTerminator_ok:
  assumes "text_ok p" "allocates malloc"
  shows "case vdbeMemAddTerminator malloc p of (rc, q) \<Rightarrow>
    rc = (if malloc (m_n p + 3) = 0 then SQLITE_NOMEM else SQLITE_OK) \<and>
    (rc = SQLITE_OK \<longrightarrow> text_ok q \<and> terminated q \<and> m_own q \<and> m_szMalloc q > 0 \<and> mem_text q = mem_text p \<and>
       m_n q = m_n p \<and> m_enc q = m_enc p)"
proof (cases "malloc (m_n p + 3) = 0")
  case True
  then show ?thesis
    by (simp add: vdbeMemAddTerminator_def sqlite3VdbeMemGrow_def SQLITE_NOMEM_def SQLITE_OK_def)
next
  case False
  define z where "z = (if m_szMalloc p > 0 \<and> m_own p then take (m_n p + 3) (m_z p) else take (m_n p) (m_z p))"
  define q where "q = p\<lparr>m_z := store_at (m_n p) [0, 0, 0] z, m_szMalloc := malloc (m_n p + 3), m_own := True,
    m_flags := (m_flags p AND NOT MEM_Owner) OR MEM_Term\<rparr>"
  have q: "vdbeMemAddTerminator malloc p = (SQLITE_OK, q)"
    using False
    by (simp add: vdbeMemAddTerminator_def sqlite3VdbeMemGrow_def SQLITE_NOMEM_def SQLITE_OK_def z_def q_def)
  have n: "m_n p \<le> length (m_z p)"
    using assms(1) by (simp add: text_ok_def)
  then have z: "m_n p \<le> length z" "length z \<le> m_n p + 3" "take (m_n p) z = take (m_n p) (m_z p)"
    by (simp_all add: z_def)
  have len: "length (m_z q) = m_n p + 3"
    using z by (simp add: q_def store_at_simps)
  have "m_z q ! (m_n p) = 0" "m_z q ! (m_n p + 1) = 0"
    using store_at_simps(3) [OF z(1), of 0 "[0, 0, 0]"] store_at_simps(3) [OF z(1), of 1 "[0, 0, 0]"]
    by (simp_all add: q_def)
  then have t: "terminated q"
    using len by (simp add: terminated_def) (simp add: q_def)
  moreover have "text_ok q"
  proof -
    have "m_n p + 3 \<le> malloc (m_n p + 3)"
      using assms(2) False spec [of "\<lambda>n. malloc n = 0 \<or> n \<le> malloc n" "m_n p + 3"]
      by (simp add: allocates_def)
    then show ?thesis
      using assms(1) len t unfolding text_ok_def by (simp add: q_def flag_simps)
  qed
  moreover have "mem_text q = mem_text p" "m_n q = m_n p" "m_enc q = m_enc p" "m_own q" "m_szMalloc q > 0"
    using z False by (simp_all add: mem_text_def q_def store_at_simps)
  ultimately show ?thesis
    using False by (simp add: q)
qed


lemma MakeWriteable_ok:
  assumes "text_ok p" "allocates malloc"
  shows "case sqlite3VdbeMemMakeWriteable malloc p of (rc, q) \<Rightarrow>
    (rc \<noteq> SQLITE_OK \<longrightarrow> rc = SQLITE_NOMEM) \<and> (malloc (m_n p + 3) \<noteq> 0 \<longrightarrow> rc = SQLITE_OK) \<and>
    (rc = SQLITE_OK \<longrightarrow> text_ok q \<and> m_own q \<and> m_szMalloc q > 0 \<and> mem_text q = mem_text p \<and>
       m_n q = m_n p \<and> m_enc q = m_enc p)"
proof -
  have expand: "ExpandBlob malloc p = (0, p)" "m_flags p AND (MEM_Str OR MEM_Blob) \<noteq> 0"
    using assms(1) str_or_blob by (auto simp: text_ok_def ExpandBlob_def)
  have clear: "text_ok (q\<lparr>m_flags := m_flags q AND NOT MEM_Ephem\<rparr>)" if "text_ok q" for q
    using that by (simp add: text_ok_def terminated_def flag_simps)
  show ?thesis
  proof (cases "m_szMalloc p = 0 \<or> \<not> m_own p")
    case True
    obtain rc q where q: "vdbeMemAddTerminator malloc p = (rc, q)"
      by (cases "vdbeMemAddTerminator malloc p")
    show ?thesis
      using AddTerminator_ok [OF assms] True expand q clear [of q]
      by (auto simp: sqlite3VdbeMemMakeWriteable_def SQLITE_OK_def SQLITE_NOMEM_def mem_text_def)
  next
    case False
    then show ?thesis
      using expand clear [OF assms(1)] assms(1)
      by (simp add: sqlite3VdbeMemMakeWriteable_def SQLITE_OK_def mem_text_def)
  qed
qed

text \<open>Output bounds.\<close>

definition lead_small :: "byte \<Rightarrow> bool" where
  "lead_small b = (b \<ge> 0xc0 \<longrightarrow> unat (sqlite3Utf8Trans1 ! (unat b - 0xc0)) < 0x80)"

lemma lead_small: "lead_small b"
  by (rule all_bytesI [of lead_small]) code_simp

lemma utf8_cont_unread: "length z \<le> length (snd (utf8_cont c z)) \<Longrightarrow> utf8_cont c z = (c, z)"
  using utf8_cont_le by (cases "(c, z)" rule: utf8_cont.cases) (fastforce simp: not_less_eq_eq [symmetric])+

lemma READ_UTF8_single:
  assumes "length z \<le> length (snd (READ_UTF8 (b # z)))"
  shows "unat (fst (READ_UTF8 (b # z))) \<le> 0xFFFF"
proof (cases "b \<ge> 0xc0")
  case True
  have r: "READ_UTF8 (b # z) = (utf8_replace (fst (utf8_cont (trans1 b) z)), snd (utf8_cont (trans1 b) z))"
    using READ_UTF8_lead [OF True] by (simp add: case_prod_beta)
  then have "utf8_cont (trans1 b) z = (trans1 b, z)"
    using assms by (intro utf8_cont_unread) simp
  moreover have "unat (trans1 b) < 0x80"
    using lead_small [of b] True by (simp add: lead_small_def unat_trans1)
  ultimately show ?thesis
    using r by (simp add: utf8_replace_def word_less_nat_alt)
next
  case False
  then show ?thesis
    using unat_byte_less [of b] by (simp add: Let_def word_le_nat_alt)
qed

lemma WRITE_UTF16_lengths:
  "length (WRITE_UTF16LE c) = (if unat c \<le> 0xFFFF then 2 else 4)"
  "length (WRITE_UTF16BE c) = (if unat c \<le> 0xFFFF then 2 else 4)"
  by (simp_all add: WRITE_UTF16LE_def WRITE_UTF16BE_def word_le_nat_alt)

definition writes_units :: "(u32 \<Rightarrow> byte list) \<Rightarrow> bool" where
  "writes_units W = (\<forall>c. length (W c) = (if unat c \<le> 0xFFFF then 2 else 4))"

lemma writes_units: "writes_units WRITE_UTF16LE" "writes_units WRITE_UTF16BE"
  by (simp_all add: writes_units_def WRITE_UTF16_lengths)

lemma utf8_to_16_length: "writes_units W \<Longrightarrow> length (utf8_to_16 W z) \<le> 2 * length z"
proof (induction W z rule: utf8_to_16.induct)
  case (1 W z)
  show ?case
  proof (cases z)
    case Nil
    then show ?thesis by (simp add: utf8_to_16.simps [of W "[]"])
  next
    case (Cons b z')
    define c where "c = fst (READ_UTF8 z)"
    define r where "r = snd (READ_UTF8 z)"
    have "length (utf8_to_16 W r) \<le> 2 * length r"
      using 1 Cons by (simp add: r_def)
    moreover have "length r < length z"
      using READ_UTF8_le [of z] Cons by (simp add: r_def)
    moreover have "length r < length z' \<or> unat c \<le> 0xFFFF"
      using READ_UTF8_single [of z' b] Cons unfolding c_def r_def by (metis not_le)
    moreover have "length (W c) = (if unat c \<le> 0xFFFF then 2 else 4)"
      using 1(2) by (simp add: writes_units_def)
    moreover have "utf8_to_16 W z = W c @ utf8_to_16 W r"
      using Cons unfolding c_def r_def by (subst utf8_to_16.simps) (simp del: READ_UTF8.simps)
    ultimately show ?thesis
      using Cons by (simp split: if_splits)
  qed
qed

lemma utf16_to_8_length: "length (utf16_to_8 unit z) \<le> 2 * length z"
proof (induction "unit" z rule: utf16_to_8.induct)
  case (1 "unit" b0 b1 z)
  have w: "length (WRITE_UTF8 c) \<le> 4" for c
    by (simp add: WRITE_UTF8_lengths)
  show ?case
  proof (cases "unit b0 b1 \<ge> 0xd800 \<and> unit b0 b1 < 0xe000")
    case False
    then show ?thesis
      using 1(2) [OF refl] w [of "unit b0 b1"] by (auto simp: Let_def)
  next
    case True
    note pair = True
    show ?thesis
    proof (cases "\<exists>b2 b3 z'. z = b2 # b3 # z'")
      case True
      then obtain b2 b3 z' where z: "z = b2 # b3 # z'" by blast
      then have "length (utf16_to_8 unit z') \<le> 2 * length z'"
        using 1(1) [OF refl pair] by blast
      then show ?thesis
        using pair z w [of "surrogate_pair (unit b0 b1) (unit b2 b3)"] by (simp add: Let_def)
    next
      case False
      then show ?thesis
        using pair w [of "unit b0 b1"] by (auto simp: Let_def split: list.splits)
    qed
  qed
qed simp_all


section \<open>The translation of a value\<close>

definition encodings :: "nat set" where
  "encodings = {SQLITE_UTF8, SQLITE_UTF16LE, SQLITE_UTF16BE}"

definition even_part :: "byte list \<Rightarrow> byte list" where
  "even_part t = take (length t - length t mod 2) t"

text \<open>What becomes of the text.\<close>

definition convert :: "nat \<Rightarrow> nat \<Rightarrow> byte list \<Rightarrow> byte list" where
  "convert e e' t =
     (if e \<noteq> SQLITE_UTF8 \<and> e' \<noteq> SQLITE_UTF8 then
        swap_units (even_part t) @ drop (length t - length t mod 2) t
      else if e = SQLITE_UTF8 then
        utf8_to_16 (if e' = SQLITE_UTF16LE then WRITE_UTF16LE else WRITE_UTF16BE) t
      else utf16_to_8 (if e = SQLITE_UTF16LE then unitLE else unitBE) (even_part t))"

lemma SQLITE_enc_distinct [simp]:
  "SQLITE_UTF16LE \<noteq> SQLITE_UTF8" "SQLITE_UTF16BE \<noteq> SQLITE_UTF8" "SQLITE_UTF16BE \<noteq> SQLITE_UTF16LE"
  "SQLITE_UTF8 \<noteq> SQLITE_UTF16LE" "SQLITE_UTF8 \<noteq> SQLITE_UTF16BE" "SQLITE_UTF16LE \<noteq> SQLITE_UTF16BE"
  by (simp_all add: SQLITE_UTF8_def SQLITE_UTF16LE_def SQLITE_UTF16BE_def)

lemma length_mem_text: "text_ok p \<Longrightarrow> length (mem_text p) = m_n p"
  by (simp add: text_ok_def mem_text_def)

lemma even_part_mem: "text_ok p \<Longrightarrow> even_part (mem_text p) = take (m_n p - m_n p mod 2) (m_z p)"
  by (simp add: even_part_def length_mem_text) (simp add: mem_text_def min_def)

lemma allocated: "allocates malloc \<Longrightarrow> malloc n \<noteq> 0 \<Longrightarrow> n \<le> malloc n"
  by (metis allocates_def)

lemma swap_ok:
  assumes "text_ok p" "m_enc p \<noteq> SQLITE_UTF8" "e \<in> {SQLITE_UTF16LE, SQLITE_UTF16BE}"
    "n = m_n p - m_n p mod 2" "q = p\<lparr>m_z := swap_units (take n (m_z p)) @ drop n (m_z p), m_enc := e\<rparr>"
  shows "text_ok q \<and> mem_text q = convert (m_enc p) e (mem_text p)"
proof -
  have n: "n \<le> m_n p" "m_n p \<le> length (m_z p)"
    using assms by (simp_all add: text_ok_def)
  have e: "e \<noteq> SQLITE_UTF8" using assms(3) by auto
  have nth: "m_z q ! k = m_z p ! k" if "m_n p \<le> k" for k
    using that n by (simp add: assms(5) nth_append)
  have len: "length (m_z q) = length (m_z p)"
    using n by (simp add: assms(5))
  have "terminated p \<Longrightarrow> terminated q"
    using assms(2) e nth [of "m_n p"] nth [of "m_n p + 1"] len
    by (simp add: terminated_def) (simp add: assms(5))
  then have "text_ok q"
    using assms(1,3) n len unfolding text_ok_def by (auto simp: assms(5))
  moreover have "mem_text q = swap_units (take n (m_z p)) @ take (m_n p - n) (drop n (m_z p))"
    using n by (simp add: mem_text_def assms(5))
  moreover have "take (m_n p - n) (drop n (m_z p)) = drop n (mem_text p)"
    by (simp add: mem_text_def drop_take)
  ultimately show ?thesis
    using assms(1,2) e even_part_mem [OF assms(1)]
    by (simp add: convert_def length_mem_text assms(4))
qed

definition translated :: "mem \<Rightarrow> nat \<Rightarrow> mem \<Rightarrow> bool" where
  "translated p e q = (text_ok q \<and> m_enc q = e \<and> mem_text q = convert (m_enc p) e (mem_text p))"

lemma translate_swap:
  assumes "text_ok p" "allocates malloc" "m_enc p \<noteq> SQLITE_UTF8" "e \<in> {SQLITE_UTF16LE, SQLITE_UTF16BE}"
  shows "case sqlite3VdbeMemTranslate malloc p e of (rc, q) \<Rightarrow>
    (rc \<noteq> SQLITE_OK \<longrightarrow> rc = SQLITE_NOMEM) \<and> (malloc (m_n p + 3) \<noteq> 0 \<longrightarrow> rc = SQLITE_OK) \<and>
    (rc = SQLITE_OK \<longrightarrow> translated p e q)"
proof -
  obtain rc q where q: "sqlite3VdbeMemMakeWriteable malloc p = (rc, q)"
    by (cases "sqlite3VdbeMemMakeWriteable malloc p")
  have e: "e \<noteq> SQLITE_UTF8" using assms(4) by auto
  from MakeWriteable_ok [OF assms(1,2)] q
  have rc: "malloc (m_n p + 3) \<noteq> 0 \<longrightarrow> rc = SQLITE_OK"
    and ok: "rc = SQLITE_OK \<longrightarrow> text_ok q \<and> mem_text q = mem_text p \<and> m_enc q = m_enc p"
    by auto
  show ?thesis
  proof (cases "rc = SQLITE_OK")
    case True
    then have t: "text_ok q" "mem_text q = mem_text p" "m_enc q = m_enc p"
      using ok by auto
    have "translated p e
      (q\<lparr>m_z := swap_units (take (m_n q - m_n q mod 2) (m_z q)) @ drop (m_n q - m_n q mod 2) (m_z q), m_enc := e\<rparr>)"
      using swap_ok [OF t(1) _ assms(4) refl refl] assms(3) t unfolding translated_def by simp
    then show ?thesis
      using True q assms(3) e by (simp add: sqlite3VdbeMemTranslate_def Let_def)
  next
    case False
    then show ?thesis
      using q rc assms(3) e by (simp add: sqlite3VdbeMemTranslate_def SQLITE_OK_def SQLITE_NOMEM_def)
  qed
qed


text \<open>The new value of the two copying cases, \<open>k\<close> the number of zeros put at its end.\<close>

lemma new_text_ok:
  assumes "text_ok p" "e \<in> encodings" "k = (if e = SQLITE_UTF8 then 1 else 2)"
    "length out + k \<le> sz"
    "q = p\<lparr>m_n := length out, m_z := out @ replicate k 0,
           m_flags := MEM_Str OR MEM_Term OR f, m_enc := e, m_own := True, m_szMalloc := sz\<rparr>"
    "(MEM_Str OR MEM_Term OR f) AND MEM_Zero = 0"
  shows "text_ok q \<and> m_enc q = e \<and> mem_text q = out"
proof -
  have "terminated q"
    using assms(3) by (simp add: terminated_def assms(5) nth_append)
  then show ?thesis
    using assms(2,3,4,6) unfolding text_ok_def encodings_def
    by (simp add: assms(5) mem_text_def flag_simps)
qed

lemma translate_copy:
  assumes "text_ok p" "allocates malloc" "m_enc p = SQLITE_UTF8 \<or> e = SQLITE_UTF8" "e \<in> encodings"
    "m_enc p \<noteq> e"
  shows "case sqlite3VdbeMemTranslate malloc p e of (rc, q) \<Rightarrow>
    (rc \<noteq> SQLITE_OK \<longrightarrow> rc = SQLITE_NOMEM) \<and> ((\<forall>n. malloc n \<noteq> 0) \<longrightarrow> rc = SQLITE_OK) \<and>
    (rc = SQLITE_OK \<longrightarrow> translated p e q)"
proof -
  define n where "n = (if e = SQLITE_UTF8 then m_n p - m_n p mod 2 else m_n p)"
  define len where "len = (if e = SQLITE_UTF8 then 2 * n + 1 else 2 * n + 2)"
  define out where "out = convert (m_enc p) e (mem_text p)"
  define k where "k = (if e = SQLITE_UTF8 then 1 else 2 :: nat)"
  define f where "f = m_flags p AND (MEM_AffMask OR MEM_Subtype)"
  define q where "q = p\<lparr>m_n := length out, m_z := out @ replicate k 0,
    m_flags := MEM_Str OR MEM_Term OR f, m_enc := e, m_own := True, m_szMalloc := malloc len\<rparr>"
  have n: "length (mem_text p) = m_n p" "take n (m_z p) = (if e = SQLITE_UTF8 then even_part (mem_text p) else mem_text p)"
    using assms(1) by (simp_all add: length_mem_text even_part_mem n_def) (simp add: mem_text_def)
  have out: "out = (if e = SQLITE_UTF8 then
      (if m_enc p = SQLITE_UTF16LE then utf16_to_8 unitLE (take n (m_z p)) else utf16_to_8 unitBE (take n (m_z p)))
    else (if e = SQLITE_UTF16LE then utf8_to_16 WRITE_UTF16LE (take n (m_z p)) else utf8_to_16 WRITE_UTF16BE (take n (m_z p))))"
    using assms(3,5) n by (auto simp: out_def convert_def)
  have "length (take n (m_z p)) \<le> n" by simp
  then have "length out \<le> 2 * n"
    unfolding out using writes_units
    by (auto intro: order_trans [OF utf16_to_8_length] order_trans [OF utf8_to_16_length])
  then have len: "length out + k \<le> len"
    by (simp add: len_def k_def)
  have res: "sqlite3VdbeMemTranslate malloc p e =
    (if malloc len = 0 then (SQLITE_NOMEM, if e = SQLITE_UTF8 then p\<lparr>m_n := m_n p - m_n p mod 2\<rparr> else p)
     else (SQLITE_OK, q))"
    using assms(3,5) out
    by (auto simp: sqlite3VdbeMemTranslate_def Let_def len_def n_def q_def k_def f_def numeral_2_eq_2)
  show ?thesis
  proof (cases "malloc len = 0")
    case True
    then show ?thesis
      unfolding res by (auto simp: SQLITE_OK_def SQLITE_NOMEM_def)
  next
    case False
    have "text_ok q \<and> m_enc q = e \<and> mem_text q = out"
      by (rule new_text_ok [OF assms(1,4) k_def _ q_def])
        (use len allocated [OF assms(2) False] in \<open>simp_all add: f_def flag_simps\<close>)
    then show ?thesis
      using False unfolding res by (simp add: translated_def out_def)
  qed
qed

lemma translate_ok:
  assumes "text_ok p" "allocates malloc" "e \<in> encodings" "m_enc p \<noteq> e"
  shows "case sqlite3VdbeMemTranslate malloc p e of (rc, q) \<Rightarrow>
    (rc \<noteq> SQLITE_OK \<longrightarrow> rc = SQLITE_NOMEM) \<and> ((\<forall>n. malloc n \<noteq> 0) \<longrightarrow> rc = SQLITE_OK) \<and>
    (rc = SQLITE_OK \<longrightarrow> translated p e q)"
proof (cases "m_enc p = SQLITE_UTF8 \<or> e = SQLITE_UTF8")
  case True
  then show ?thesis by (rule translate_copy [OF assms(1,2) _ assms(3,4)])
next
  case False
  then have "e \<in> {SQLITE_UTF16LE, SQLITE_UTF16BE}"
    using assms(3) by (auto simp: encodings_def)
  from translate_swap [OF assms(1,2) _ this] False show ?thesis
    by (cases "sqlite3VdbeMemTranslate malloc p e") simp
qed

text \<open>The encodings of a list of characters.\<close>

definition encode :: "nat \<Rightarrow> u32 list \<Rightarrow> byte list" where
  "encode e cs = (if e = SQLITE_UTF8 then utf8 cs
     else if e = SQLITE_UTF16LE then utf16 WRITE_UTF16LE cs else utf16 WRITE_UTF16BE cs)"

lemma even_utf16: "writes_units W \<Longrightarrow> even (length (utf16 W cs))"
  by (induction cs) (simp_all add: utf16_def writes_units_def)

lemma even_part_even [simp]: "even (length t) \<Longrightarrow> even_part t = t"
  by (simp add: even_part_def)

lemma utf16_swap': "swap_units (utf16 WRITE_UTF16BE cs) = utf16 WRITE_UTF16LE cs"
  using swap_swap [of "utf16 WRITE_UTF16LE cs"] by (simp add: utf16_swap)

lemma convert_encode:
  assumes "list_all scalar cs" "e \<in> encodings" "e' \<in> encodings" "e \<noteq> e'"
  shows "convert e e' (encode e cs) = encode e' cs"
proof -
  have even: "even (length (utf16 WRITE_UTF16LE cs))" "even (length (utf16 WRITE_UTF16BE cs))"
    by (simp_all add: even_utf16 writes_units)
  have drop: "even (length t) \<Longrightarrow> drop (length t - length t mod 2) t = []" for t :: "byte list"
    by simp
  show ?thesis
    using assms even drop [OF even(1)] drop [OF even(2)]
    by (auto simp: convert_def encode_def encodings_def utf8_to_16_utf8 utf16_to_8_utf16 utf16_to_8_BE
        utf16_swap utf16_swap')
qed


text \<open>The byte-order mark.\<close>

definition bom_of :: "byte list \<Rightarrow> nat" where
  "bom_of t = (if length t > 1 \<and> t ! 0 = 0xFE \<and> t ! 1 = 0xFF then SQLITE_UTF16BE
     else if length t > 1 \<and> t ! 0 = 0xFF \<and> t ! 1 = 0xFE then SQLITE_UTF16LE else 0)"

lemma bom_of_enc: "bom_of t \<noteq> 0 \<Longrightarrow> bom_of t \<in> encodings \<and> bom_of t \<noteq> SQLITE_UTF8 \<and> length t > 1"
  by (simp add: bom_of_def encodings_def split: if_splits)

lemma drop_bom_ok:
  assumes "text_ok p" "m_n p > 1" "e \<in> encodings" "n = m_n p - 2"
    "q = p\<lparr>m_n := n, m_z := store_at n [0, 0] (store_at 0 (take n (drop 2 (m_z p))) (m_z p)),
           m_flags := m_flags p OR MEM_Term, m_enc := e\<rparr>"
  shows "text_ok q \<and> m_enc q = e \<and> mem_text q = drop 2 (mem_text p)"
proof -
  have n: "n + 2 = m_n p" "n + 2 \<le> length (m_z p)"
    using assms(1,2,4) unfolding text_ok_def by linarith+
  define z where "z = store_at 0 (take n (drop 2 (m_z p))) (m_z p)"
  have z: "length z = length (m_z p)" "take n z = take n (drop 2 (m_z p))"
    using n by (simp_all add: z_def store_at_def)
  have nz: "n \<le> length z" using z n by simp
  have len: "length (m_z q) = length (m_z p)"
    using n z by (simp add: assms(5) store_at_simps flip: z_def)
  have zero: "m_z q ! n = 0" "m_z q ! (n + 1) = 0"
    using store_at_simps(3) [OF nz, of 0 "[0, 0]"] store_at_simps(3) [OF nz, of 1 "[0, 0]"]
    by (simp_all add: assms(5) flip: z_def)
  have "terminated q"
    using zero len n by (simp add: terminated_def) (simp add: assms(5))
  then have "text_ok q"
    using assms(1,3) len n unfolding text_ok_def encodings_def by (auto simp: assms(5) flag_simps)
  moreover have "mem_text q = take n (drop 2 (m_z p))"
    using z nz by (simp add: mem_text_def assms(5) store_at_simps(2) flip: z_def)
  ultimately show ?thesis
    by (simp add: mem_text_def drop_take assms(4)) (simp add: assms(5))
qed

lemma HandleBom_ok:
  assumes "text_ok p" "allocates malloc"
  shows "case sqlite3VdbeMemHandleBom malloc p of (rc, q) \<Rightarrow>
    (rc \<noteq> SQLITE_OK \<longrightarrow> rc = SQLITE_NOMEM) \<and>
    (rc = SQLITE_OK \<longrightarrow> text_ok q \<and>
       (if bom_of (mem_text p) = 0 then q = p
        else m_enc q = bom_of (mem_text p) \<and> mem_text q = drop 2 (mem_text p)))"
proof -
  have nth: "m_n p > 1 \<Longrightarrow> m_z p ! 0 = mem_text p ! 0 \<and> m_z p ! 1 = mem_text p ! 1"
    by (simp add: mem_text_def)
  have bom: "(if m_n p > 1 \<and> m_z p ! 0 = 0xFE \<and> m_z p ! 1 = 0xFF then SQLITE_UTF16BE
      else if m_n p > 1 \<and> m_z p ! 0 = 0xFF \<and> m_z p ! 1 = 0xFE then SQLITE_UTF16LE else 0) = bom_of (mem_text p)"
    using nth length_mem_text [OF assms(1)] by (auto simp: bom_of_def)
  have H: "sqlite3VdbeMemHandleBom malloc p =
    (if bom_of (mem_text p) \<noteq> 0 then
       case sqlite3VdbeMemMakeWriteable malloc p of
         (rc, p') \<Rightarrow>
           if rc = SQLITE_OK then
             (rc, p'\<lparr>m_n := m_n p' - 2,
                    m_z := store_at (m_n p' - 2) [0, 0] (store_at 0 (take (m_n p' - 2) (drop 2 (m_z p'))) (m_z p')),
                    m_flags := m_flags p' OR MEM_Term, m_enc := bom_of (mem_text p)\<rparr>)
           else (rc, p')
     else (SQLITE_OK, p))"
    unfolding sqlite3VdbeMemHandleBom_def Let_def bom ..
  show ?thesis
  proof (cases "bom_of (mem_text p) = 0")
    case True
    then show ?thesis
      using assms(1) by (simp add: H)
  next
    case False
    obtain rc q where q: "sqlite3VdbeMemMakeWriteable malloc p = (rc, q)"
      by (cases "sqlite3VdbeMemMakeWriteable malloc p")
    from bom_of_enc [OF False] have e: "bom_of (mem_text p) \<in> encodings" "m_n p > 1"
      using length_mem_text [OF assms(1)] by simp_all
    have q_ok: "rc \<noteq> SQLITE_OK \<longrightarrow> rc = SQLITE_NOMEM"
      "rc = SQLITE_OK \<longrightarrow> text_ok q \<and> mem_text q = mem_text p \<and> m_n q = m_n p"
      using MakeWriteable_ok [OF assms] q by simp_all
    show ?thesis
    proof (cases "rc = SQLITE_OK")
      case True
      then have "text_ok q" "m_n q > 1" "mem_text q = mem_text p"
        using q_ok e by simp_all
      from drop_bom_ok [OF this(1,2) e(1) refl refl] this show ?thesis
        using True False q by (simp add: H)
    next
      case nomem: False
      then show ?thesis
        using False q q_ok(1) by (simp add: H)
    qed
  qed
qed

text \<open>Results: no memory, or a well-formed value.\<close>

definition kept :: "int \<times> mem \<Rightarrow> (mem \<Rightarrow> bool) \<Rightarrow> bool" where
  "kept r P = (fst r = SQLITE_NOMEM \<or> fst r = SQLITE_OK \<and> text_ok (snd r) \<and> P (snd r))"

lemma already_terminated:
  assumes "f AND MEM_Str \<noteq> 0" "f AND (MEM_Term OR MEM_Str) \<noteq> MEM_Str"
  shows "f AND MEM_Term \<noteq> 0"
proof
  assume *: "f AND MEM_Term = 0"
  have "bit f 1"
  proof (rule ccontr)
    assume "\<not> bit f 1"
    then have "f AND MEM_Str = 0"
      by (intro u16_eqI) (simp add: MEM_defs bit_simps)
    then show False using assms(1) by simp
  qed
  moreover have "\<not> bit (f AND MEM_Term) 9"
    using * by simp
  ultimately have "f AND (MEM_Term OR MEM_Str) = MEM_Str"
    by (intro u16_eqI) (simp add: MEM_defs bit_simps)
  then show False using assms(2) by simp
qed

text \<open>
  C31. For any bytes, valid text or not, changing the encoding, adding a terminator, making
  the value writeable and removing a byte-order mark either report SQLITE_NOMEM or give a
  value whose encoding is the one asked for, whose flags tell the truth about its terminator
  and whose bytes fit the allocated buffer.
\<close>

theorem text_operations_keep_values_well_formed:
  assumes "text_ok p" "allocates malloc" "e \<in> encodings"
  shows "kept (sqlite3VdbeChangeEncoding malloc p e) (\<lambda>q. m_enc q = e) \<and>
    kept (sqlite3VdbeMemNulTerminate malloc p) (\<lambda>q. terminated q \<and> mem_text q = mem_text p) \<and>
    kept (sqlite3VdbeMemMakeWriteable malloc p) (\<lambda>q. m_own q \<and> mem_text q = mem_text p) \<and>
    kept (sqlite3VdbeMemHandleBom malloc p)
      (\<lambda>q. if bom_of (mem_text p) = 0 then q = p
           else m_enc q = bom_of (mem_text p) \<and> mem_text q = drop 2 (mem_text p))"
proof (intro conjI)
  show "kept (sqlite3VdbeChangeEncoding malloc p e) (\<lambda>q. m_enc q = e)"
  proof (cases "m_enc p = e")
    case True
    then show ?thesis
      using assms(1) by (auto simp: sqlite3VdbeChangeEncoding_def kept_def text_ok_def terminated_def)
  next
    case False
    then show ?thesis
      using translate_ok [OF assms False] assms(1)
      by (auto simp: sqlite3VdbeChangeEncoding_def kept_def translated_def text_ok_def [of p] split: prod.splits)
  qed
  show "kept (sqlite3VdbeMemMakeWriteable malloc p) (\<lambda>q. m_own q \<and> mem_text q = mem_text p)"
    using MakeWriteable_ok [OF assms(1,2)] by (auto simp: kept_def split: prod.splits)
  show "kept (sqlite3VdbeMemHandleBom malloc p)
      (\<lambda>q. if bom_of (mem_text p) = 0 then q = p
           else m_enc q = bom_of (mem_text p) \<and> mem_text q = drop 2 (mem_text p))"
    using HandleBom_ok [OF assms(1,2)] by (auto simp: kept_def split: prod.splits)
  show "kept (sqlite3VdbeMemNulTerminate malloc p) (\<lambda>q. terminated q \<and> mem_text q = mem_text p)"
    using AddTerminator_ok [OF assms(1,2)] already_terminated [of "m_flags p"] assms(1)
    by (auto simp: kept_def sqlite3VdbeMemNulTerminate_def text_ok_def [of p] split: prod.splits if_splits)
qed


text \<open>A value in little-endian UTF-16, and an allocator with blocks of a fixed size.\<close>

definition sample_value :: mem where
  "sample_value = \<lparr>m_flags = MEM_Str, m_enc = SQLITE_UTF16LE, m_n = 4, m_nZero = 0,
     m_z = [0xFF, 0xFE, 0x41, 0x00], m_szMalloc = 0, m_own = False\<rparr>"

definition sample_malloc :: allocator where
  "sample_malloc n = n + 8"

lemma sample_ok: "text_ok sample_value" "allocates sample_malloc"
  by (simp_all add: text_ok_def sample_value_def MEM_defs allocates_def sample_malloc_def)

theorem text_operations_keep_values_well_formed_witness:
  "kept (sqlite3VdbeChangeEncoding sample_malloc sample_value SQLITE_UTF8) (\<lambda>q. m_enc q = SQLITE_UTF8)"
  using text_operations_keep_values_well_formed [OF sample_ok, of SQLITE_UTF8]
  by (simp add: encodings_def)

text \<open>
  C30. A well-formed value that holds the encoding of a list of characters (below 0x110000,
  without surrogates, FFFE and FFFF) in one of the three encodings is translated to the
  encoding of the same characters in any other, and translating back gives the original bytes,
  when allocations succeed.
\<close>

theorem utf_translation_roundtrip:
  assumes "text_ok p" "m_enc p = e" "mem_text p = encode e cs" "list_all scalar cs"
    "e \<in> encodings" "e' \<in> encodings" "e \<noteq> e'" "allocates malloc" "\<forall>n. malloc n \<noteq> 0"
  shows "\<exists>q r. sqlite3VdbeMemTranslate malloc p e' = (SQLITE_OK, q) \<and>
    m_enc q = e' \<and> mem_text q = encode e' cs \<and>
    sqlite3VdbeMemTranslate malloc q e = (SQLITE_OK, r) \<and> m_enc r = e \<and> mem_text r = mem_text p"
proof -
  obtain rc q where q: "sqlite3VdbeMemTranslate malloc p e' = (rc, q)"
    by (cases "sqlite3VdbeMemTranslate malloc p e'")
  have "rc = SQLITE_OK \<and> translated p e' q"
    using translate_ok [OF assms(1,8,6)] q assms(2,7,9) by auto
  then have rc: "rc = SQLITE_OK" and t: "text_ok q" "m_enc q = e'" "mem_text q = encode e' cs"
    using assms(2,3) convert_encode [OF assms(4-7)] by (simp_all add: translated_def)
  obtain rd r where r: "sqlite3VdbeMemTranslate malloc q e = (rd, r)"
    by (cases "sqlite3VdbeMemTranslate malloc q e")
  have "rd = SQLITE_OK \<and> translated q e r"
    using translate_ok [OF t(1) assms(8,5)] r t(2) assms(7,9) by auto
  then have "rd = SQLITE_OK" "m_enc r = e" "mem_text r = encode e cs"
    using t convert_encode [OF assms(4,6,5)] assms(7) by (simp_all add: translated_def)
  then show ?thesis
    using q r rc t assms(3) by (intro exI [of _ q] exI [of _ r]) simp
qed

theorem utf_translation_roundtrip_witness:
  "\<exists>q r. sqlite3VdbeMemTranslate sample_malloc
       (sample_value\<lparr>m_enc := SQLITE_UTF8, m_n := 2, m_z := [0x41, 0x42]\<rparr>) SQLITE_UTF16BE = (SQLITE_OK, q) \<and>
    m_enc q = SQLITE_UTF16BE \<and> mem_text q = [0, 0x41, 0, 0x42] \<and>
    sqlite3VdbeMemTranslate sample_malloc q SQLITE_UTF8 = (SQLITE_OK, r) \<and>
    m_enc r = SQLITE_UTF8 \<and> mem_text r = [0x41, 0x42]"
proof -
  let ?p = "sample_value\<lparr>m_enc := SQLITE_UTF8, m_n := 2, m_z := [0x41, 0x42]\<rparr>"
  have "text_ok ?p" "m_enc ?p = SQLITE_UTF8" "\<forall>n. sample_malloc n \<noteq> 0" "mem_text ?p = [0x41, 0x42]"
    by (simp_all add: text_ok_def sample_value_def MEM_defs sample_malloc_def mem_text_def)
  moreover have "encode SQLITE_UTF8 [0x41, 0x42] = [0x41, 0x42]" "encode SQLITE_UTF16BE [0x41, 0x42] = [0, 0x41, 0, 0x42]"
    by (simp_all add: encode_def utf8_def utf16_def WRITE_UTF8_def WRITE_UTF16BE_def)
  ultimately show ?thesis
    using utf_translation_roundtrip [of ?p SQLITE_UTF8 "[0x41, 0x42]" SQLITE_UTF16BE sample_malloc]
      sample_ok(2)
    by (simp add: encodings_def scalar_def)
qed

section \<open>Reading back and counting\<close>

lemma Utf8Read_eq: "sqlite3Utf8Read z = READ_UTF8 z"
  by (cases z) (simp_all add: utf8_replace_def Let_def)

lemma selftest:
  assumes "unat i < 0x110000"
  shows "sqlite3UtfSelfTest_at i"
proof -
  have "not_cont [0]" by (simp add: not_cont_def)
  from READ_WRITE_UTF8 [OF _ this, of i] assms
  have r: "sqlite3Utf8Read (WRITE_UTF8 i @ [0]) = (if unat i < 0x80 then i else utf8_replace i, [0])"
    by (simp add: Utf8Read_eq)
  have "(if unat i < 0x80 then i else utf8_replace i) =
    (if i AND 0xFFFFFFFE = 0xFFFE then 0xFFFD else if i \<ge> 0xD800 \<and> i \<le> 0xDFFF then 0xFFFD else i)"
    by (auto simp: utf8_replace_def surrogate_mask noncharacter_mask word_less_nat_alt word_le_nat_alt)
  then show ?thesis
    by (simp add: sqlite3UtfSelfTest_at_def Let_def r WRITE_UTF8_lengths)
qed

lemma utf8_cont_dropWhile: "snd (utf8_cont c z) = dropWhile (\<lambda>b. b AND 0xc0 = 0x80) z"
  by (induction z arbitrary: c) simp_all

lemma SKIP_READ: "SQLITE_SKIP_UTF8 z = snd (READ_UTF8 z)"
  by (cases z) (simp_all add: Let_def case_prod_beta utf8_cont_dropWhile word_le_nat_alt)

lemma SKIP_WRITE: "scalar c \<Longrightarrow> not_cont z \<Longrightarrow> SQLITE_SKIP_UTF8 (WRITE_UTF8 c @ z) = z"
  by (simp add: SKIP_READ READ_WRITE_scalar)

lemma hd_WRITE_nonzero:
  assumes "scalar c" "c \<noteq> 0"
  shows "hd (WRITE_UTF8 c @ z) \<noteq> 0"
proof
  assume *: "hd (WRITE_UTF8 c @ z) = 0"
  obtain b w where w: "WRITE_UTF8 c = b # w"
    using WRITE_UTF8_ne [of c] by (cases "WRITE_UTF8 c") auto
  then have "fst (READ_UTF8 (WRITE_UTF8 c @ [])) = 0"
    using * by (simp add: Let_def)
  moreover have "READ_UTF8 (WRITE_UTF8 c @ []) = (c, [])"
    by (rule READ_WRITE_scalar [OF assms(1)]) (simp add: not_cont_def)
  ultimately show False
    using assms(2) by simp
qed

definition plain_text :: "u32 list \<Rightarrow> bool" where
  "plain_text cs = list_all (\<lambda>c. scalar c \<and> c \<noteq> 0) cs"

lemma CharLen_loop:
  "plain_text cs \<Longrightarrow> not_cont z \<Longrightarrow> left = None \<and> (z = [] \<or> hd z = 0) \<or> left = Some (int (length (utf8 cs))) \<Longrightarrow>
   utf8CharLen_loop (utf8 cs @ z) left r = r + length cs"
proof (induction cs arbitrary: left r)
  case Nil
  then show ?case
    by (auto simp: utf8_def utf8CharLen_loop.simps [of z])
next
  case (Cons c cs)
  have c: "scalar c" "c \<noteq> 0" and cs: "plain_text cs"
    using Cons.prems(1) by (simp_all add: plain_text_def)
  have nc: "not_cont (utf8 cs @ z)"
    using utf8_not_cont [of cs z] cs Cons.prems(2) by (simp add: plain_text_def list_all_iff)
  have u: "utf8 (c # cs) @ z = WRITE_UTF8 c @ utf8 cs @ z"
    by (simp add: utf8_def)
  define left' where "left' = map_option (\<lambda>k. k - int (length (WRITE_UTF8 c))) left"
  have pos: "0 < int (length (WRITE_UTF8 c)) + int m" for m
    by (simp add: WRITE_UTF8_lengths)
  have "utf8CharLen_loop (utf8 (c # cs) @ z) left r = utf8CharLen_loop (utf8 cs @ z) left' (r + 1)"
    unfolding u using pos hd_WRITE_nonzero [OF c] Cons.prems(3) SKIP_WRITE [OF c(1) nc]
    by (subst utf8CharLen_loop.simps) (auto simp: left'_def utf8_def)
  also have "\<dots> = r + 1 + length cs"
    using Cons.prems(3) by (intro Cons.IH [OF cs Cons.prems(2)]) (auto simp: left'_def utf8_def)
  finally show ?case by simp
qed


text \<open>The high bytes of the units decide what \<open>sqlite3Utf16ByteLen\<close> skips.\<close>

lemma ByteLen_loop:
  "list_all scalar cs \<Longrightarrow> n = length pre + length (utf16 WRITE_UTF16LE cs) \<Longrightarrow>
   utf16ByteLen_loop (pre @ utf16 WRITE_UTF16LE cs @ post) n (length pre + 1) k =
     length pre + 1 + length (utf16 WRITE_UTF16LE (take k cs))"
proof (induction cs arbitrary: pre k)
  case Nil
  then show ?case by (cases k) (simp_all add: utf16_def)
next
  case (Cons c cs)
  show ?case
  proof (cases k)
    case 0
    then show ?thesis by (simp add: utf16_def)
  next
    case (Suc k')
    let ?rest = "utf16 WRITE_UTF16LE cs @ post"
    have u: "utf16 WRITE_UTF16LE (c # cs) = WRITE_UTF16LE c @ utf16 WRITE_UTF16LE cs" for cs
      by (simp add: utf16_def)
    have c: "scalar c" and cs: "list_all scalar cs"
      using Cons.prems(1) by simp_all
    have "utf16ByteLen_loop (pre @ WRITE_UTF16LE c @ ?rest) n (length pre + 1) k =
      utf16ByteLen_loop (pre @ WRITE_UTF16LE c @ ?rest) n (length (pre @ WRITE_UTF16LE c) + 1) k'"
    proof (cases "unat c \<le> 0xFFFF")
      case True
      then obtain b0 b1 where b: "WRITE_UTF16LE c = [b0, b1]" "unat b0 = unat c mod 256" "unat b1 = unat c div 256"
        by (rule WRITE_UTF16LE_small)
      have "\<not> (b1 \<ge> 0xd8 \<and> b1 < 0xdc)"
        using c b(3) by (simp add: scalar_def word_le_nat_alt word_less_nat_alt) linarith
      then show ?thesis
        using Cons.prems(2) by (auto simp: Suc b(1) u nth_append)
    next
      case False
      define q where "q = (unat c - 0x10000) div 1024"
      have r: "0x10000 \<le> unat c" "unat c < 0x110000"
        using False c by (simp_all add: scalar_def)
      have q: "q < 1024"
        using r by (simp add: q_def)
      from WRITE_UTF16LE_large [OF r q_def]
      obtain b0 b1 b2 b3 where b: "WRITE_UTF16LE c = [b0, b1, b2, b3]"
        "unat b1 = 0xD8 + q div 256" "unat b3 = 0xDC + unat c div 256 mod 4"
        by metis
      have "b1 \<ge> 0xd8 \<and> b1 < 0xdc" "b3 \<ge> 0xdc \<and> b3 < 0xe0"
        using q b(2,3) by (simp_all add: word_le_nat_alt word_less_nat_alt)
      then show ?thesis
        using Cons.prems(2) by (simp add: Suc b(1) u nth_append numeral_eq_Suc)
    qed
    also have "\<dots> = length pre + 1 + length (utf16 WRITE_UTF16LE (take k (c # cs)))"
      using Cons.IH [OF cs, of "pre @ WRITE_UTF16LE c" k'] Cons.prems(2) by (simp add: Suc u)
    finally show ?thesis
      by (simp add: u)
  qed
qed

text \<open>
  The assertions of sqlite3UtfSelfTest hold for every code point,
  sqlite3AppendOneUtf8Character writes what WRITE_UTF8 writes, and on text without NUL
  sqlite3Utf8CharLen counts the characters and sqlite3Utf16ByteLen gives the byte length of
  the first k of them.
\<close>

theorem utf_primitives_read_back_and_count:
  "(\<forall>i. sqlite3UtfSelfTest_at i \<or> 0x110000 \<le> unat i) \<and>
   (\<forall>c. sqlite3AppendOneUtf8Character c = (length (WRITE_UTF8 c), WRITE_UTF8 c)) \<and>
   (plain_text cs \<longrightarrow>
      sqlite3Utf8CharLen (utf8 cs @ 0 # rest) (-1) = length cs \<and>
      sqlite3Utf8CharLen (utf8 cs @ 0 # rest) (int (length (utf8 cs))) = length cs \<and>
      sqlite3Utf16ByteLen (utf16 WRITE_UTF16LE cs @ rest) (length (utf16 WRITE_UTF16LE cs)) k =
        length (utf16 WRITE_UTF16LE (take k cs)))"
proof -
  have "not_cont (0 # rest)" by (simp add: not_cont_def)
  then have "plain_text cs \<Longrightarrow> sqlite3Utf8CharLen (utf8 cs @ 0 # rest) (-1) = length cs \<and>
      sqlite3Utf8CharLen (utf8 cs @ 0 # rest) (int (length (utf8 cs))) = length cs"
    by (simp add: sqlite3Utf8CharLen_def CharLen_loop)
  moreover have "plain_text cs \<Longrightarrow>
      sqlite3Utf16ByteLen (utf16 WRITE_UTF16LE cs @ rest) (length (utf16 WRITE_UTF16LE cs)) k =
        length (utf16 WRITE_UTF16LE (take k cs))"
    using ByteLen_loop [of cs "length (utf16 WRITE_UTF16LE cs)" "[]" rest k]
    by (simp add: sqlite3Utf16ByteLen_def plain_text_def list_all_iff)
  ultimately show ?thesis
    using selftest by (auto simp: AppendOne_WRITE not_less)
qed

theorem utf_primitives_read_back_and_count_witness:
  "sqlite3UtfSelfTest_at 0x20AC \<and> sqlite3Utf8CharLen (utf8 [0x41, 0x20AC] @ [0]) (-1) = 2"
  using utf_primitives_read_back_and_count [of "[0x41, 0x20AC]" "[]" 1]
  by (auto simp: plain_text_def scalar_def)

end
