(* ===== verification/Sqlite_Memjournal.thy ===== *)
theory Sqlite_Memjournal
  imports Adou_Prelude
begin

text \<open>
  The in-memory journal of the bundled SQLite (the \<open>memjournal.c\<close> part of
  \<open>native/sqlite3/sqlite3.c\<close>). The chain of chunks from \<open>pFirst\<close> is the list of their
  \<open>zChunk\<close> arrays and a chunk pointer is the position of the chunk in that chain, \<open>None\<close> for
  \<open>NULL\<close>. The allocator is a parameter: the \<open>k\<close>-th call fails or gives a block with some bytes
  in it. The files of the operating system, into which a journal spills, are parameters too.
\<close>

section \<open>State\<close>

definition MJ_OK :: int where "MJ_OK = 0"
definition SQLITE_IOERR_SHORT_READ :: int where "SQLITE_IOERR_SHORT_READ = 522"
definition SQLITE_IOERR_NOMEM :: int where "SQLITE_IOERR_NOMEM = 3082"
definition MEMJOURNAL_DFLT_FILECHUNKSIZE :: nat where "MEMJOURNAL_DFLT_FILECHUNKSIZE = 1024"

text \<open>\<open>sizeof(FileChunk)\<close> on the 64-bit platforms: a pointer and eight bytes.\<close>

definition sizeof_FileChunk :: nat where "sizeof_FileChunk = 16"

definition fileChunkSize :: "nat \<Rightarrow> nat" where
  "fileChunkSize nChunkSize = sizeof_FileChunk + (nChunkSize - 8)"

record file_point =
  iOffset :: nat
  pChunk :: "nat option"

record mem_journal =
  nChunkSize :: nat
  nSpill :: int
  chain :: "byte list list"
  endpoint :: file_point
  readpoint :: file_point
  j_flags :: int
  zJournal :: string
  allocs :: nat

type_synonym chunk_alloc = "nat \<Rightarrow> (nat \<Rightarrow> byte) option"

definition no_point :: file_point where
  "no_point = \<lparr>iOffset = 0, pChunk = None\<rparr>"

text \<open>The file behind a handle: a memory journal, or a real file after it has spilled.\<close>

datatype jfile = Memory mem_journal | Real_file

text \<open>The operations of the underlying VFS on the real file of the handle, with their state.\<close>

record 'w os_ops =
  os_open :: "'w \<Rightarrow> string \<Rightarrow> int \<Rightarrow> int \<times> 'w"
  os_write :: "'w \<Rightarrow> byte list \<Rightarrow> nat \<Rightarrow> int \<times> 'w"
  os_close :: "'w \<Rightarrow> 'w"

section \<open>Reading\<close>

text \<open>The \<open>for\<close> loop that looks for the chunk of an offset.\<close>

fun seek_chunk :: "nat \<Rightarrow> nat \<Rightarrow> byte list list \<Rightarrow> nat \<Rightarrow> nat \<Rightarrow> nat option" where
  "seek_chunk n iOfst [] i iOff = None"
| "seek_chunk n iOfst (c # cs) i iOff =
     (if iOff + n \<le> iOfst then seek_chunk n iOfst cs (i + 1) (iOff + n) else Some i)"

text \<open>
  The \<open>do ... while\<close> loop, on the chain from \<open>pChunk\<close> on, the \<open>i\<close>-th: the bytes copied and the
  last value of \<open>pChunk\<close>.
\<close>

fun read_chunks :: "nat \<Rightarrow> byte list list \<Rightarrow> nat \<Rightarrow> nat \<Rightarrow> int \<Rightarrow> byte list \<times> nat option" where
  "read_chunks n [] i off nRead = ([], None)"
| "read_chunks n (c # cs) i off nRead =
     (let iSpace = int n - int off;
          nCopy = nat (min nRead iSpace);
          out = take nCopy (drop off c);
          nRead = nRead - iSpace in
      if nRead \<ge> 0 then
        (if cs = [] then (out, None)
         else if nRead > 0 then
           (case read_chunks n cs (i + 1) 0 nRead of (out2, q) \<Rightarrow> (out @ out2, q))
         else (out, Some (i + 1)))
      else (out, Some i))"

definition memjrnlRead :: "mem_journal \<Rightarrow> nat \<Rightarrow> nat \<Rightarrow> int \<times> byte list \<times> mem_journal" where
  "memjrnlRead p iAmt iOfst =
     (if iAmt + iOfst > iOffset (endpoint p) then (SQLITE_IOERR_SHORT_READ, [], p)
      else
        let pc = (if iOffset (readpoint p) \<noteq> iOfst \<or> iOfst = 0
                  then seek_chunk (nChunkSize p) iOfst (chain p) 0 0
                  else pChunk (readpoint p));
            iChunkOffset = iOfst mod nChunkSize p;
            (out, pc) = (case pc of
                None \<Rightarrow> ([], None)
              | Some i \<Rightarrow> read_chunks (nChunkSize p) (drop i (chain p)) i iChunkOffset (int iAmt)) in
        (MJ_OK, out,
         p\<lparr>readpoint := \<lparr>iOffset = (if pc \<noteq> None then iOfst + iAmt else 0), pChunk = pc\<rparr>\<rparr>))"

section \<open>Truncating, writing, spilling\<close>

text \<open>The loop that finds the last chunk to keep.\<close>

fun last_kept :: "nat \<Rightarrow> nat \<Rightarrow> byte list list \<Rightarrow> nat \<Rightarrow> nat \<Rightarrow> nat option" where
  "last_kept n fsize [] i iOff = None"
| "last_kept n fsize (c # cs) i iOff =
     (if iOff < fsize then last_kept n fsize cs (i + 1) (iOff + n) else Some i)"

definition memjrnlTruncate :: "mem_journal \<Rightarrow> nat \<Rightarrow> int \<times> mem_journal" where
  "memjrnlTruncate p fsize =
     (if fsize < iOffset (endpoint p) then
        let pIter = (if fsize = 0 then None else last_kept (nChunkSize p) fsize (chain p) 0 (nChunkSize p));
            cs = (if fsize = 0 then []
                  else case pIter of None \<Rightarrow> chain p | Some i \<Rightarrow> take (i + 1) (chain p)) in
        (MJ_OK, p\<lparr>chain := cs, endpoint := \<lparr>iOffset = fsize, pChunk = pIter\<rparr>, readpoint := no_point\<rparr>)
      else (MJ_OK, p))"

text \<open>\<open>memcpy\<close> into a chunk.\<close>

definition put_bytes :: "nat \<Rightarrow> byte list \<Rightarrow> byte list \<Rightarrow> byte list" where
  "put_bytes off bs c = take off c @ bs @ drop (off + length bs) c"

text \<open>
  The loop that appends; \<open>zWrite\<close> holds the \<open>nWrite\<close> bytes still to be written. A chunk size of
  zero does not occur.
\<close>

function append_loop :: "chunk_alloc \<Rightarrow> mem_journal \<Rightarrow> byte list \<Rightarrow> int \<times> mem_journal" where
  "append_loop alloc p zWrite =
     (if zWrite = [] \<or> nChunkSize p = 0 then (MJ_OK, p)
      else
        let iChunkOffset = iOffset (endpoint p) mod nChunkSize p;
            iSpace = min (length zWrite) (nChunkSize p - iChunkOffset);
            q = (if iChunkOffset = 0 then
                   (case alloc (allocs p) of
                      None \<Rightarrow> Inl (p\<lparr>allocs := allocs p + 1\<rparr>)
                    | Some junk \<Rightarrow>
                        Inr (p\<lparr>chain := chain p @ [map junk [0..<nChunkSize p]],
                               endpoint := (endpoint p)\<lparr>pChunk := Some (length (chain p))\<rparr>,
                               allocs := allocs p + 1\<rparr>))
                 else Inr p) in
        case q of
          Inl p \<Rightarrow> (SQLITE_IOERR_NOMEM, p)
        | Inr p2 \<Rightarrow>
            let i = the (pChunk (endpoint p2)) in
            append_loop alloc
              (p2\<lparr>chain := (chain p2)[i := put_bytes iChunkOffset (take iSpace zWrite) (chain p2 ! i)],
                  endpoint := (endpoint p2)\<lparr>iOffset := iOffset (endpoint p2) + iSpace\<rparr>\<rparr>)
              (drop iSpace zWrite))"
  by pat_completeness auto
termination
  by (relation "measure (\<lambda>(a, p, z). length z)") (auto simp: mod_less_divisor)

declare append_loop.simps [simp del]

text \<open>The branch of \<open>memjrnlWrite\<close> that keeps the contents in memory.\<close>

definition write_memory :: "chunk_alloc \<Rightarrow> mem_journal \<Rightarrow> byte list \<Rightarrow> nat \<Rightarrow> int \<times> mem_journal" where
  "write_memory alloc p zBuf iOfst =
     (let p = (if iOfst > 0 \<and> iOfst \<noteq> iOffset (endpoint p) then snd (memjrnlTruncate p iOfst) else p) in
      if iOfst = 0 \<and> chain p \<noteq> [] then
        (MJ_OK, p\<lparr>chain := (chain p)[0 := put_bytes 0 zBuf (chain p ! 0)]\<rparr>)
      else append_loop alloc p zBuf)"

text \<open>The loop that copies the chunks to the real file.\<close>

fun spill_chunks :: "('w, 'x) os_ops_scheme \<Rightarrow> 'w \<Rightarrow> nat \<Rightarrow> nat \<Rightarrow> nat \<Rightarrow> byte list list \<Rightarrow> int \<times> 'w" where
  "spill_chunks os w nChunk iOff fsize [] = (MJ_OK, w)"
| "spill_chunks os w nChunk iOff fsize (c # cs) =
     (let nChunk = (if iOff + nChunk > fsize then fsize - iOff else nChunk) in
      case os_write os w (take nChunk c) iOff of
        (rc, w) \<Rightarrow> if rc \<noteq> 0 then (rc, w) else spill_chunks os w nChunk (iOff + nChunk) fsize cs)"

definition memjrnlCreateFile ::
    "('w, 'x) os_ops_scheme \<Rightarrow> 'w \<Rightarrow> mem_journal \<Rightarrow> int \<times> jfile \<times> 'w" where
  "memjrnlCreateFile os w p =
     (let copy = p;
          (rc, w) = os_open os w (zJournal copy) (j_flags copy);
          (rc, w) = (if rc = MJ_OK
                     then spill_chunks os w (nChunkSize copy) 0 (iOffset (endpoint copy)) (chain copy)
                     else (rc, w)) in
      if rc \<noteq> MJ_OK then (rc, Memory copy, os_close os w) else (rc, Real_file, w))"

definition memjrnlWrite ::
    "('w, 'x) os_ops_scheme \<Rightarrow> chunk_alloc \<Rightarrow> 'w \<Rightarrow> mem_journal \<Rightarrow> byte list \<Rightarrow> nat \<Rightarrow> int \<times> jfile \<times> 'w" where
  "memjrnlWrite os alloc w p zBuf iOfst =
     (if nSpill p > 0 \<and> int (length zBuf + iOfst) > nSpill p then
        (case memjrnlCreateFile os w p of
           (rc, f, w) \<Rightarrow>
             if rc = MJ_OK then (case os_write os w zBuf iOfst of (rc, w) \<Rightarrow> (rc, f, w)) else (rc, f, w))
      else (case write_memory alloc p zBuf iOfst of (rc, p) \<Rightarrow> (rc, Memory p, w)))"

text \<open>Closing gives the chunks back to the allocator, which ends the life of the journal.\<close>

definition memjrnlClose :: "mem_journal \<Rightarrow> int" where
  "memjrnlClose p = MJ_OK"

definition memjrnlSync :: "mem_journal \<Rightarrow> int" where
  "memjrnlSync p = MJ_OK"

definition memjrnlFileSize :: "mem_journal \<Rightarrow> int \<times> nat" where
  "memjrnlFileSize p = (MJ_OK, iOffset (endpoint p))"

section \<open>Opening\<close>

definition sqlite3JournalOpen ::
    "('w, 'x) os_ops_scheme \<Rightarrow> 'w \<Rightarrow> string \<Rightarrow> int \<Rightarrow> int \<Rightarrow> int \<times> jfile option \<times> 'w" where
  "sqlite3JournalOpen os w zName flags spill =
     (if spill = 0 then
        (case os_open os w zName flags of
           (rc, w) \<Rightarrow> (rc, if rc = MJ_OK then Some Real_file else None, w))
      else
        (MJ_OK,
         Some (Memory \<lparr>nChunkSize = (if spill > 0 then nat spill
                                    else 8 + MEMJOURNAL_DFLT_FILECHUNKSIZE - sizeof_FileChunk),
                       nSpill = spill, chain = [], endpoint = no_point, readpoint = no_point,
                       j_flags = flags, zJournal = zName, allocs = 0\<rparr>), w))"

definition sqlite3JournalIsInMemory :: "jfile \<Rightarrow> bool" where
  "sqlite3JournalIsInMemory f = (case f of Memory p \<Rightarrow> True | Real_file \<Rightarrow> False)"


section \<open>The journal as a byte array\<close>

text \<open>
  The invariant: all chunks have the size of the journal, the end of the file lies in the last
  one, to which \<open>endpoint\<close> points, and the position of the last read, when it is not zero, lies
  in the chunk recorded with it.
\<close>

definition end_ok :: "mem_journal \<Rightarrow> bool" where
  "end_ok p =
     (if chain p = [] then endpoint p = no_point
      else pChunk (endpoint p) = Some (length (chain p) - 1) \<and>
           (length (chain p) - 1) * nChunkSize p < iOffset (endpoint p) \<and>
           iOffset (endpoint p) \<le> length (chain p) * nChunkSize p)"

definition read_ok :: "mem_journal \<Rightarrow> bool" where
  "read_ok p = (iOffset (readpoint p) \<noteq> 0 \<longrightarrow>
     pChunk (readpoint p) = Some (iOffset (readpoint p) div nChunkSize p) \<and>
     iOffset (readpoint p) div nChunkSize p < length (chain p))"

definition sized :: "nat \<Rightarrow> byte list list \<Rightarrow> bool" where
  "sized n cs = (\<forall>c \<in> set cs. length c = n)"

definition jinv :: "mem_journal \<Rightarrow> bool" where
  "jinv p = (0 < nChunkSize p \<and> sized (nChunkSize p) (chain p) \<and> end_ok p \<and> read_ok p)"

definition jcontent :: "mem_journal \<Rightarrow> byte list" where
  "jcontent p = take (iOffset (endpoint p)) (concat (chain p))"

lemma sized_simps [simp]:
  "sized n []" "sized n (c # cs) \<longleftrightarrow> length c = n \<and> sized n cs"
  "sized n (cs @ ds) \<longleftrightarrow> sized n cs \<and> sized n ds"
  by (auto simp: sized_def)

lemma length_sized: "sized n cs \<Longrightarrow> length (concat cs) = length cs * n"
  by (induction cs) simp_all

lemma drop_sized: "sized n cs \<Longrightarrow> i \<le> length cs \<Longrightarrow> drop (i * n) (concat cs) = concat (drop i cs)"
  by (induction i arbitrary: cs) (auto simp: neq_Nil_conv dest!: Suc_le_D intro: sym
      simp: Suc_le_length_iff)

lemma sized_drop: "sized n cs \<Longrightarrow> sized n (drop i cs)"
  by (auto simp: sized_def dest: in_set_dropD)

lemma sized_take: "sized n cs \<Longrightarrow> sized n (take i cs)"
  by (auto simp: sized_def dest: in_set_takeD)

lemma take_sized: "sized n cs \<Longrightarrow> i \<le> length cs \<Longrightarrow> take (i * n) (concat cs) = concat (take i cs)"
proof (induction i arbitrary: cs)
  case (Suc i)
  then show ?case by (cases cs) simp_all
qed simp

lemma length_jcontent: "jinv p \<Longrightarrow> length (jcontent p) = iOffset (endpoint p)"
  by (auto simp: jinv_def jcontent_def end_ok_def length_sized no_point_def min_def split: if_splits)

subsection \<open>Reading\<close>

lemma read_chunks_spec:
  assumes "sized n cs" "off < n" "0 < a" "off + a \<le> length cs * n"
  shows "read_chunks n cs i off (int a) =
    (take a (drop off (concat cs)),
     if (off + a) div n < length cs then Some (i + (off + a) div n) else None)"
  using assms
proof (induction cs arbitrary: i off a)
  case Nil
  then show ?case by simp
next
  case (Cons c cs)
  have c: "length c = n" "sized n cs"
    using Cons.prems(1) by simp_all
  have space: "int n - int off = int (n - off)"
    using Cons.prems(2) by simp
  show ?case
  proof (cases "a < n - off")
    case True
    then have "int a < int n - int off" by simp
    then show ?thesis
      using True c Cons.prems(2) by (simp add: Let_def min_def)
  next
    case False
    define a' where "a' = a - (n - off)"
    have a: "a = (n - off) + a'" "off + a = n + a'"
      using False Cons.prems(2) by (simp_all add: a'_def)
    have bytes: "take a (drop off (concat (c # cs))) = drop off c @ take a' (concat cs)"
      using c Cons.prems(2) a by simp
    have step: "take (nat (min (int a) (int n - int off))) (drop off c) = drop off c"
    proof -
      have "nat (int n - int off) = n - off" by linarith
      then show ?thesis
        using c a Cons.prems(2) by (simp add: min_def)
    qed
    have rest: "int a - (int n - int off) = int a'"
      using a Cons.prems(2) by simp
    have n: "(off + a) div n = Suc (a' div n)"
      using Cons.prems(2) by (simp add: a(2) div_add_self1)
    consider "cs = []" | "cs \<noteq> []" "a' = 0" | "cs \<noteq> []" "0 < a'" by blast
    then show ?thesis
    proof cases
      case 1
      then have "a' = 0"
        using Cons.prems(4) a by simp
      then show ?thesis
        using 1 bytes step rest n by (simp add: Let_def)
    next
      case 2
      then show ?thesis
        using bytes step rest n Cons.prems(2) by (simp add: Let_def)
    next
      case 3
      have "0 + a' \<le> length cs * n"
        using Cons.prems(4) a by simp
      from Cons.IH [OF c(2) _ 3(2) this, of "i + 1"] Cons.prems(2)
      have "read_chunks n cs (i + 1) 0 (int a') =
        (take a' (concat cs), if a' div n < length cs then Some (i + 1 + a' div n) else None)"
        by simp
      then show ?thesis
        using 3 bytes step rest n by (simp add: Let_def)
    qed
  qed
qed

lemma seek_chunk_spec:
  "0 < n \<Longrightarrow> iOff \<le> ofs \<Longrightarrow> seek_chunk n ofs cs i iOff =
     (if (ofs - iOff) div n < length cs then Some (i + (ofs - iOff) div n) else None)"
proof (induction cs arbitrary: i iOff)
  case (Cons c cs)
  show ?case
  proof (cases "iOff + n \<le> ofs")
    case True
    then have "(ofs - iOff) div n = Suc ((ofs - (iOff + n)) div n)"
      using Cons.prems by (simp add: le_div_geq)
    then show ?thesis
      using True Cons by simp
  next
    case False
    then have "(ofs - iOff) div n = 0"
      using Cons.prems by simp
    then show ?thesis
      using False by simp
  qed
qed simp

lemma memjrnlRead_spec:
  assumes "jinv p" "0 < amt" "ofs + amt \<le> length (jcontent p)"
  obtains q where "memjrnlRead p amt ofs = (MJ_OK, take amt (drop ofs (jcontent p)), q)"
    "jinv q" "jcontent q = jcontent p"
proof -
  let ?n = "nChunkSize p"
  define i where "i = ofs div ?n"
  define off where "off = ofs mod ?n"
  have inv: "0 < ?n" "sized ?n (chain p)" "end_ok p" "read_ok p"
    using assms(1) by (simp_all add: jinv_def)
  have e: "ofs + amt \<le> iOffset (endpoint p)"
    using assms by (simp add: length_jcontent)
  moreover have "iOffset (endpoint p) \<le> length (chain p) * ?n"
    using inv(3) by (auto simp: end_ok_def no_point_def split: if_splits)
  ultimately have len: "ofs + amt \<le> length (chain p) * ?n" by simp
  then have "ofs < length (chain p) * ?n"
    using assms(2) by simp
  then have i: "i < length (chain p)"
    by (simp add: i_def less_mult_imp_div_less)
  have ofs: "ofs = i * ?n + off" "off < ?n"
    using inv(1) by (simp_all add: i_def off_def)
  have start: "(if iOffset (readpoint p) \<noteq> ofs \<or> ofs = 0 then seek_chunk ?n ofs (chain p) 0 0
      else pChunk (readpoint p)) = Some i"
    using inv(1,4) i seek_chunk_spec [of ?n 0 ofs "chain p" 0] by (auto simp: read_ok_def i_def)
  have bound: "off + amt \<le> length (drop i (chain p)) * ?n"
    using len ofs(1) i by (simp add: diff_mult_distrib)
  note r = read_chunks_spec [OF sized_drop [OF inv(2)] ofs(2) assms(2) bound, of i]
  have bytes: "take amt (drop off (concat (drop i (chain p)))) = take amt (drop ofs (jcontent p))"
    using drop_sized [OF inv(2), of i] i e by (simp add: jcontent_def ofs(1) drop_take add.commute min_def flip: drop_drop)
  have next_chunk: "i + (off + amt) div ?n = (ofs + amt) div ?n"
    using inv(1) by (simp add: ofs(1) add.assoc)
  define pc where "pc = (if (off + amt) div ?n < length (drop i (chain p)) then Some (i + (off + amt) div ?n) else None)"
  define q where "q = p\<lparr>readpoint := \<lparr>iOffset = (if pc \<noteq> None then ofs + amt else 0), pChunk = pc\<rparr>\<rparr>"
  show ?thesis
  proof
    show "memjrnlRead p amt ofs = (MJ_OK, take amt (drop ofs (jcontent p)), q)"
      using e start r bytes unfolding memjrnlRead_def
      by (simp add: off_def [symmetric] q_def pc_def add.commute)
    have "read_ok q"
      using next_chunk by (auto simp: read_ok_def q_def pc_def)
    moreover have "end_ok q = end_ok p"
      by (simp add: end_ok_def q_def)
    ultimately show "jinv q"
      using inv by (simp add: jinv_def) (simp add: q_def)
    show "jcontent q = jcontent p"
      by (simp add: jcontent_def q_def)
  qed
qed


subsection \<open>Truncating\<close>

lemma last_kept_spec:
  "0 < n \<Longrightarrow> cs \<noteq> [] \<Longrightarrow> s \<le> iOff + (length cs - 1) * n \<Longrightarrow>
   \<exists>k < length cs. last_kept n s cs i iOff = Some (i + k) \<and> s \<le> iOff + k * n \<and>
     (k = 0 \<or> iOff + (k - 1) * n < s)"
proof (induction cs arbitrary: i iOff)
  case (Cons c cs)
  show ?case
  proof (cases "iOff < s")
    case True
    then have "cs \<noteq> []" "s \<le> (iOff + n) + (length cs - 1) * n"
      using Cons.prems by (cases cs; simp)+
    from Cons.IH [OF Cons.prems(1) this, of "i + 1"]
    obtain k where k: "k < length cs" "last_kept n s cs (i + 1) (iOff + n) = Some (i + 1 + k)"
      "s \<le> iOff + n + k * n" "k = 0 \<or> iOff + n + (k - 1) * n < s" by blast
    have "iOff + (Suc k - 1) * n < s"
      using k(4) True by (cases k) (auto simp: add.assoc)
    then show ?thesis
      using True k by (intro exI [of _ "Suc k"]) (simp add: add.assoc)
  next
    case False
    then show ?thesis by (intro exI [of _ 0]) simp
  qed
qed simp

lemma memjrnlTruncate_spec:
  assumes "jinv p"
  obtains q where "memjrnlTruncate p s = (MJ_OK, q)" "jinv q" "jcontent q = take s (jcontent p)"
    "nChunkSize q = nChunkSize p" "nSpill q = nSpill p" "zJournal q = zJournal p" "j_flags q = j_flags p"
proof -
  have inv: "0 < nChunkSize p" "sized (nChunkSize p) (chain p)" "end_ok p" "read_ok p"
    using assms by (simp_all add: jinv_def)
  show ?thesis
  proof (cases "s < iOffset (endpoint p)")
    case False
    then have "length (jcontent p) \<le> s"
      using assms by (simp add: length_jcontent)
    then show ?thesis
      using False assms by (intro that [of p]) (simp_all add: memjrnlTruncate_def)
  next
    case small: True
    show ?thesis
    proof (cases "s = 0")
      case True
      define q where "q = p\<lparr>chain := [], endpoint := \<lparr>iOffset = 0, pChunk = None\<rparr>, readpoint := no_point\<rparr>"
      show ?thesis
        using small True inv(1)
        by (intro that [of q])
          (simp_all add: memjrnlTruncate_def q_def jinv_def end_ok_def read_ok_def no_point_def jcontent_def)
    next
      case False
      let ?n = "nChunkSize p"
      have cs: "chain p \<noteq> []" "s \<le> ?n + (length (chain p) - 1) * ?n"
        using small inv(3) by (auto simp: end_ok_def no_point_def neq_Nil_conv split: if_splits)
      from last_kept_spec [OF inv(1) this, of 0]
      obtain k where k: "k < length (chain p)" "last_kept ?n s (chain p) 0 ?n = Some k"
        "s \<le> ?n + k * ?n" "k = 0 \<or> ?n + (k - 1) * ?n < s" by auto
      define q where "q = p\<lparr>chain := take (k + 1) (chain p), endpoint := \<lparr>iOffset = s, pChunk = Some k\<rparr>, readpoint := no_point\<rparr>"
      have len: "length (take (k + 1) (chain p)) = Suc k"
        using k(1) by simp
      have "k * ?n < s"
        using k(4) False by (cases k) (simp_all add: algebra_simps)
      then have "end_ok q"
        using k(3) cs len by (simp add: end_ok_def q_def min_def)
      then have "jinv q"
        using inv sized_take [OF inv(2), of "k + 1"] by (simp add: jinv_def read_ok_def q_def no_point_def)
      moreover have "jcontent q = take s (jcontent p)"
      proof -
        have "take s (concat (take (k + 1) (chain p))) = take s (take ((k + 1) * ?n) (concat (chain p)))"
          using k(1) by (simp add: take_sized [OF inv(2)] del: mult_Suc)
        then show ?thesis
          using k(3) small by (simp add: jcontent_def q_def min_def)
      qed
      ultimately show ?thesis
        using small False k(2) by (intro that [of q]) (simp_all add: memjrnlTruncate_def q_def)
    qed
  qed
qed


subsection \<open>Appending\<close>

text \<open>One round of the loop that has a chunk to write to.\<close>

definition round :: "mem_journal \<Rightarrow> nat \<Rightarrow> byte list \<Rightarrow> mem_journal" where
  "round p off bs =
     (let i = the (pChunk (endpoint p)) in
      p\<lparr>chain := (chain p)[i := put_bytes off bs (chain p ! i)],
        endpoint := (endpoint p)\<lparr>iOffset := iOffset (endpoint p) + length bs\<rparr>\<rparr>)"

text \<open>The journal with a new chunk, which nothing has been written to.\<close>

definition new_chunk :: "mem_journal \<Rightarrow> (nat \<Rightarrow> byte) \<Rightarrow> mem_journal" where
  "new_chunk p junk =
     p\<lparr>chain := chain p @ [map junk [0..<nChunkSize p]],
       endpoint := (endpoint p)\<lparr>pChunk := Some (length (chain p))\<rparr>, allocs := allocs p + 1\<rparr>"

lemma append_loop_Nil [simp]: "append_loop alloc p [] = (MJ_OK, p)"
  by (simp add: append_loop.simps)

lemma append_loop_step:
  assumes "z \<noteq> []" "0 < nChunkSize p" "off = iOffset (endpoint p) mod nChunkSize p"
    "sp = min (length z) (nChunkSize p - off)"
  shows "append_loop alloc p z =
    (if off = 0 then
       (case alloc (allocs p) of
          None \<Rightarrow> (SQLITE_IOERR_NOMEM, p\<lparr>allocs := allocs p + 1\<rparr>)
        | Some junk \<Rightarrow> append_loop alloc (round (new_chunk p junk) off (take sp z)) (drop sp z))
     else append_loop alloc (round p off (take sp z)) (drop sp z))"
proof -
  have "sp = length (take sp z)"
    by (simp add: assms(4))
  then show ?thesis
    using assms(1,2) unfolding append_loop.simps [of alloc p z] assms(3) [symmetric] assms(4) [symmetric] Let_def
    by (auto simp: round_def new_chunk_def Let_def split: option.splits)
qed

text \<open>
  A journal whose last chunk \<open>c\<close> holds \<open>r\<close> bytes of the file; \<open>r = 0\<close> only between the two
  halves of a round.
\<close>

definition last_chunk :: "mem_journal \<Rightarrow> byte list list \<Rightarrow> byte list \<Rightarrow> nat \<Rightarrow> bool" where
  "last_chunk p cs c r =
     (chain p = cs @ [c] \<and> 0 < nChunkSize p \<and> sized (nChunkSize p) (chain p) \<and> r \<le> nChunkSize p \<and>
      iOffset (endpoint p) = length cs * nChunkSize p + r \<and> pChunk (endpoint p) = Some (length cs) \<and>
      read_ok p \<and> jcontent p = concat cs @ take r c)"

lemma last_chunk_jinv: "last_chunk p cs c r \<Longrightarrow> 0 < r \<Longrightarrow> jinv p"
  by (auto simp: last_chunk_def jinv_def end_ok_def)

lemma jinv_last_chunk:
  assumes "jinv p" "chain p \<noteq> []"
  obtains cs c r where "last_chunk p cs c r" "0 < r"
proof -
  let ?n = "nChunkSize p"
  define cs where "cs = butlast (chain p)"
  define c where "c = last (chain p)"
  define r where "r = iOffset (endpoint p) - length cs * ?n"
  have ch: "chain p = cs @ [c]"
    using assms(2) by (simp add: cs_def c_def)
  have e: "length cs * ?n < iOffset (endpoint p)" "iOffset (endpoint p) \<le> Suc (length cs) * ?n"
    "pChunk (endpoint p) = Some (length cs)"
    using assms unfolding jinv_def end_ok_def ch by simp_all
  have "length (concat cs) = length cs * ?n"
    using assms(1) length_sized [of ?n cs] by (simp add: jinv_def ch)
  then have "jcontent p = concat cs @ take r c"
    using less_imp_le [OF e(1)] by (simp add: jcontent_def ch r_def)
  then have "last_chunk p cs c r"
    using assms(1) e ch by (auto simp: last_chunk_def jinv_def r_def)
  then show ?thesis
    using e(1) by (intro that [of cs c r]) (simp_all add: r_def)
qed

lemma round_spec:
  assumes "last_chunk p cs c r" "r + length bs \<le> nChunkSize p"
  shows "last_chunk (round p r bs) cs (put_bytes r bs c) (r + length bs) \<and>
    jcontent (round p r bs) = jcontent p @ bs"
proof -
  let ?n = "nChunkSize p"
  have p: "chain p = cs @ [c]" "0 < ?n" "sized ?n cs" "length c = ?n"
    "iOffset (endpoint p) = length cs * ?n + r" "pChunk (endpoint p) = Some (length cs)" "read_ok p"
    "jcontent p = concat cs @ take r c"
    using assms(1) by (auto simp: last_chunk_def)
  define q where "q = round p r bs"
  have q: "q = p\<lparr>chain := cs @ [put_bytes r bs c],
      endpoint := (endpoint p)\<lparr>iOffset := length cs * ?n + (r + length bs)\<rparr>\<rparr>"
    by (simp add: q_def round_def p add.assoc)
  have len: "length (put_bytes r bs c) = ?n" "take (r + length bs) (put_bytes r bs c) = take r c @ bs"
    using assms(2) p(4) by (simp_all add: put_bytes_def)
  have content: "jcontent q = concat cs @ take r c @ bs"
    using length_sized [OF p(3)] len(2) by (simp add: jcontent_def q)
  have "read_ok q"
    using p(7) by (simp add: read_ok_def q p(1))
  then have "last_chunk q cs (put_bytes r bs c) (r + length bs)"
    using p len content assms(2) by (simp add: last_chunk_def) (simp add: q)
  then show ?thesis
    using content p(8) by (simp add: q_def)
qed

lemma new_chunk_spec:
  assumes "jinv p" "iOffset (endpoint p) mod nChunkSize p = 0"
  shows "last_chunk (new_chunk p junk) (chain p) (map junk [0..<nChunkSize p]) 0 \<and>
    jcontent (new_chunk p junk) = jcontent p"
proof -
  let ?n = "nChunkSize p"
  have inv: "0 < ?n" "sized ?n (chain p)" "end_ok p" "read_ok p"
    using assms(1) by (simp_all add: jinv_def)
  have e: "iOffset (endpoint p) = length (chain p) * ?n"
  proof (cases "chain p = []")
    case True
    then show ?thesis using inv(3) by (simp add: end_ok_def no_point_def)
  next
    case False
    then obtain cs c r where l: "last_chunk p cs c r" "0 < r"
      using jinv_last_chunk [OF assms(1)] by blast
    then have "r mod ?n = 0" "r \<le> ?n"
      using assms(2) by (simp_all add: last_chunk_def)
    then have "r = ?n"
      using l(2) inv(1) by (metis le_neq_implies_less mod_less not_gr_zero)
    then show ?thesis
      using l(1) by (simp add: last_chunk_def)
  qed
  define q where "q = new_chunk p junk"
  have q: "q = p\<lparr>chain := chain p @ [map junk [0..<?n]],
       endpoint := (endpoint p)\<lparr>pChunk := Some (length (chain p))\<rparr>, allocs := allocs p + 1\<rparr>"
    by (simp add: q_def new_chunk_def)
  have content: "jcontent q = concat (chain p)" "jcontent p = concat (chain p)"
    using e length_sized [OF inv(2)] by (simp_all add: jcontent_def q)
  have "read_ok q"
    using inv(4) by (auto simp: read_ok_def q)
  then have "last_chunk q (chain p) (map junk [0..<?n]) 0"
    using inv e content(1) by (simp add: last_chunk_def) (simp add: q)
  then show ?thesis
    using content by (simp add: q_def)
qed


text \<open>What does not change.\<close>

definition same_file :: "mem_journal \<Rightarrow> mem_journal \<Rightarrow> bool" where
  "same_file p q = (nChunkSize q = nChunkSize p \<and> nSpill q = nSpill p \<and> zJournal q = zJournal p \<and>
     j_flags q = j_flags p)"

lemma same_file_simps [simp]:
  "same_file p p" "same_file p (round q off bs) = same_file p q" "same_file p (new_chunk q junk) = same_file p q"
  by (simp_all add: same_file_def round_def new_chunk_def Let_def)

lemma same_file_trans: "same_file p q \<Longrightarrow> same_file q r \<Longrightarrow> same_file p r"
  by (simp add: same_file_def)

text \<open>The result of an append: all bytes, or a prefix of them when an allocation fails.\<close>

definition appended :: "mem_journal \<Rightarrow> byte list \<Rightarrow> int \<times> mem_journal \<Rightarrow> bool" where
  "appended p bs r = (case r of (rc, q) \<Rightarrow>
     jinv q \<and> same_file p q \<and>
     (rc = MJ_OK \<and> jcontent q = jcontent p @ bs \<or>
      rc = SQLITE_IOERR_NOMEM \<and> (\<exists>k < length bs. jcontent q = jcontent p @ take k bs)))"

lemma appended_step:
  assumes "appended p' (drop k bs) r" "jcontent p' = jcontent p @ take k bs" "same_file p p'"
  shows "appended p bs r"
proof -
  obtain rc q where r: "r = (rc, q)" by (cases r)
  have q: "jinv q" "same_file p q"
    using assms(1,3) same_file_trans by (auto simp: appended_def r)
  consider "rc = MJ_OK" "jcontent q = jcontent p' @ drop k bs"
    | j where "rc = SQLITE_IOERR_NOMEM" "j < length (drop k bs)" "jcontent q = jcontent p' @ take j (drop k bs)"
    using assms(1) by (auto simp: appended_def r)
  then show ?thesis
  proof cases
    case 1
    then show ?thesis
      using q by (simp add: appended_def r assms(2))
  next
    case 2
    then have "k + j < length bs" "jcontent q = jcontent p @ take (k + j) bs"
      by (simp_all add: assms(2) take_add)
    then show ?thesis
      using q 2(1) by (auto simp: appended_def r)
  qed
qed

lemma jinv_allocs [simp]: "jinv (p\<lparr>allocs := k\<rparr>) = jinv p"
  by (simp add: jinv_def end_ok_def read_ok_def)

lemma append_loop_spec: "jinv p \<Longrightarrow> appended p z (append_loop alloc p z)"
proof (induction "length z" arbitrary: p z rule: less_induct)
  case less
  let ?n = "nChunkSize p"
  have n: "0 < ?n" using less.prems by (simp add: jinv_def)
  show ?case
  proof (cases "z = []")
    case True
    then show ?thesis
      using less.prems by (simp add: appended_def)
  next
    case False
    define off where "off = iOffset (endpoint p) mod ?n"
    define sp where "sp = min (length z) (?n - off)"
    have sp: "0 < sp" "sp \<le> ?n - off" "length (take sp z) = sp"
      using False n by (simp_all add: sp_def off_def)
    have less_z: "length (drop sp z) < length z"
      using sp(1) False by simp
    note step = append_loop_step [OF False n off_def sp_def, of alloc]
    have go: "appended p z (append_loop alloc (round p' off (take sp z)) (drop sp z))"
      if "last_chunk p' cs c off" "jcontent p' = jcontent p" "same_file p p'" for p' cs c
    proof -
      have "nChunkSize p' = ?n" using that(3) by (simp add: same_file_def)
      then have "off + length (take sp z) \<le> nChunkSize p'"
        using sp n off_def by (simp add: mod_less_divisor less_imp_le)
      from round_spec [OF that(1) this] sp
      have r: "jinv (round p' off (take sp z))" "jcontent (round p' off (take sp z)) = jcontent p @ take sp z"
        using that(2) last_chunk_jinv by auto
      from appended_step [OF less.hyps [OF less_z r(1)] r(2)] that(3) show ?thesis
        by simp
    qed
    show ?thesis
    proof (cases "off = 0")
      case True
      show ?thesis
      proof (cases "alloc (allocs p)")
        case None
        show ?thesis
          using None True step False less.prems
          by (auto simp: appended_def same_file_def jcontent_def intro!: exI [of _ 0])
      next
        case (Some junk)
        have "iOffset (endpoint p) mod ?n = 0"
          using True by (simp add: off_def)
        from new_chunk_spec [OF less.prems this, of junk] True
        show ?thesis
          using Some step go [of "new_chunk p junk"] by auto
      qed
    next
      case nz: False
      then have "chain p \<noteq> []"
        using less.prems by (auto simp: off_def jinv_def end_ok_def no_point_def)
      then obtain cs c r where l: "last_chunk p cs c r" "0 < r"
        using jinv_last_chunk [OF less.prems] by blast
      have "off = r mod ?n" "r \<le> ?n"
        using l(1) by (simp_all add: off_def last_chunk_def)
      then have "off = r"
        using nz by (metis le_neq_implies_less mod_less mod_self)
      then show ?thesis
        using go [of p cs c] l(1) nz step by simp
    qed
  qed
qed

lemma append_loop_ok: "\<forall>k. alloc k \<noteq> None \<Longrightarrow> fst (append_loop alloc p z) = MJ_OK"
proof (induction alloc p z rule: append_loop.induct)
  case (1 alloc p z)
  then obtain junk where "alloc (allocs p) = Some junk" by blast
  then show ?case
    using 1 by (subst append_loop.simps) (auto simp: Let_def)
qed


subsection \<open>Writing\<close>

text \<open>
  What a write at \<open>ofs\<close> makes of a file: at the start of a file that is not empty it replaces
  the first bytes without moving the end, elsewhere it cuts the file at \<open>ofs\<close> and appends.
\<close>

definition abs_write :: "byte list \<Rightarrow> byte list \<Rightarrow> nat \<Rightarrow> byte list" where
  "abs_write c bs ofs = (if ofs = 0 \<and> c \<noteq> [] then take (length c) (bs @ drop (length bs) c) else take ofs c @ bs)"

text \<open>The writes the assertions of \<open>memjrnlWrite\<close> admit.\<close>

definition writable :: "mem_journal \<Rightarrow> byte list \<Rightarrow> nat \<Rightarrow> bool" where
  "writable p bs ofs = (ofs \<le> length (jcontent p) \<and>
     (ofs = 0 \<and> jcontent p \<noteq> [] \<longrightarrow> length bs < nChunkSize p))"

lemma jcontent_Nil: "jinv p \<Longrightarrow> jcontent p = [] \<longleftrightarrow> chain p = []"
  using length_jcontent [of p] by (auto simp: jinv_def end_ok_def no_point_def split: if_splits)

lemma write_head_spec:
  assumes "jinv p" "chain p \<noteq> []" "length bs < nChunkSize p"
    "q = p\<lparr>chain := (chain p)[0 := put_bytes 0 bs (chain p ! 0)]\<rparr>"
  shows "jinv q \<and> jcontent q = take (length (jcontent p)) (bs @ drop (length bs) (jcontent p))"
proof -
  obtain c cs where ch: "chain p = c # cs"
    using assms(2) by (cases "chain p") auto
  have c: "length c = nChunkSize p" "sized (nChunkSize p) cs"
    using assms(1) by (simp_all add: jinv_def ch)
  have q: "q = p\<lparr>chain := (bs @ drop (length bs) c) # cs\<rparr>"
    by (simp add: assms(4) ch put_bytes_def)
  have "jinv q"
    using assms(1,3) c unfolding jinv_def end_ok_def read_ok_def by (simp add: q ch)
  moreover have "jcontent q = take (length (jcontent p)) (bs @ drop (length bs) (jcontent p))"
  proof -
    have "concat (chain q) = bs @ drop (length bs) (concat (chain p))"
      using assms(3) c by (simp add: q ch)
    moreover have "take n (bs @ drop k (take n xs)) = take n (bs @ drop k xs)" if "length bs = k" for n k and xs :: "byte list"
      using that by (simp add: drop_take)
    ultimately show ?thesis
      unfolding length_jcontent [OF assms(1)] by (simp add: jcontent_def) (simp add: q)
  qed
  ultimately show ?thesis by simp
qed

lemma write_memory_spec:
  assumes "jinv p" "writable p bs ofs"
  shows "case write_memory alloc p bs ofs of (rc, q) \<Rightarrow> jinv q \<and> same_file p q \<and>
    (rc = MJ_OK \<and> jcontent q = abs_write (jcontent p) bs ofs \<or>
     rc = SQLITE_IOERR_NOMEM \<and> (\<exists>k < length bs. jcontent q = take ofs (jcontent p) @ take k bs))"
proof (cases "ofs = 0 \<and> chain p \<noteq> []")
  case True
  then have "length bs < nChunkSize p"
    using assms by (auto simp: writable_def jcontent_Nil)
  then show ?thesis
    using write_head_spec [OF assms(1) _ _ refl] True jcontent_Nil [OF assms(1)]
    by (simp add: write_memory_def abs_write_def same_file_def)
next
  case False
  define p1 where "p1 = (if ofs > 0 \<and> ofs \<noteq> iOffset (endpoint p) then snd (memjrnlTruncate p ofs) else p)"
  have w: "abs_write (jcontent p) bs ofs = take ofs (jcontent p) @ bs"
    using False jcontent_Nil [OF assms(1)] by (auto simp: abs_write_def)
  obtain q where q: "memjrnlTruncate p ofs = (MJ_OK, q)" "jinv q" "jcontent q = take ofs (jcontent p)" "same_file p q"
    using memjrnlTruncate_spec [OF assms(1), of ofs] unfolding same_file_def by metis
  have "ofs = 0 \<Longrightarrow> jcontent p = []"
    using False jcontent_Nil [OF assms(1)] by simp
  then have p1: "jinv p1" "jcontent p1 = take ofs (jcontent p)" "same_file p p1"
    using q assms(1) length_jcontent [OF assms(1)] by (auto simp: p1_def)
  have "write_memory alloc p bs ofs = append_loop alloc p1 bs"
    using False by (auto simp: write_memory_def p1_def Let_def)
  then show ?thesis
    using append_loop_spec [OF p1(1), of bs alloc] p1 w same_file_trans
    by (auto simp: appended_def)
qed

section \<open>The interface of a journal file\<close>

text \<open>
  What the pager relies on: reads inside the file return its bytes, a successful write at the
  end appends, and truncating cuts.
\<close>

locale byte_file =
  fixes inv :: "'p \<Rightarrow> bool"
    and content :: "'p \<Rightarrow> byte list"
    and get :: "'p \<Rightarrow> nat \<Rightarrow> nat \<Rightarrow> int \<times> byte list \<times> 'p"
    and put :: "'p \<Rightarrow> byte list \<Rightarrow> nat \<Rightarrow> int \<times> 'p"
    and trunc :: "'p \<Rightarrow> nat \<Rightarrow> int \<times> 'p"
  assumes read_law: "inv p \<Longrightarrow> 0 < a \<Longrightarrow> ofs + a \<le> length (content p) \<Longrightarrow> get p a ofs = (rc, bs, q) \<Longrightarrow>
      rc = 0 \<and> bs = take a (drop ofs (content p)) \<and> inv q \<and> content q = content p"
    and write_law: "inv p \<Longrightarrow> put p bs (length (content p)) = (0, q) \<Longrightarrow>
      inv q \<and> (bs \<noteq> [] \<longrightarrow> content q = content p @ bs)"
    and trunc_law: "inv p \<Longrightarrow> trunc p n = (rc, q) \<Longrightarrow> rc = 0 \<and> inv q \<and> content q = take n (content p)"
begin

lemma read_back:
  assumes "inv p" "bs \<noteq> []" "put p bs (length (content p)) = (0, q)"
  shows "fst (get q (length bs) (length (content p))) = 0 \<and> fst (snd (get q (length bs) (length (content p)))) = bs"
proof -
  obtain rc out r where r: "get q (length bs) (length (content p)) = (rc, out, r)"
    by (cases "get q (length bs) (length (content p))")
  have q: "inv q" "content q = content p @ bs"
    using write_law [OF assms(1,3)] assms(2) by auto
  show ?thesis
    using read_law [OF q(1) _ _ r] assms(2) q(2) by (simp add: r)
qed

lemma earlier_bytes:
  assumes "inv p" "bs \<noteq> []" "put p bs (length (content p)) = (0, q)" "0 < a" "ofs + a \<le> length (content p)"
  shows "fst (snd (get q a ofs)) = fst (snd (get p a ofs))"
proof -
  obtain rc out r where r: "get q a ofs = (rc, out, r)" by (cases "get q a ofs")
  obtain rc' out' r' where r': "get p a ofs = (rc', out', r')" by (cases "get p a ofs")
  have q: "inv q" "content q = content p @ bs"
    using write_law [OF assms(1,3)] assms(2) by auto
  then show ?thesis
    using read_law [OF q(1) assms(4) _ r] read_law [OF assms(1,4,5) r'] assms(5) by (simp add: r r')
qed

lemma rollback:
  assumes "inv p" "bs \<noteq> []" "put p bs (length (content p)) = (0, q)"
  shows "content (snd (trunc q (length (content p)))) = content p \<and> inv (snd (trunc q (length (content p))))"
proof -
  obtain rc r where r: "trunc q (length (content p)) = (rc, r)" by (cases "trunc q (length (content p))")
  have q: "inv q" "content q = content p @ bs"
    using write_law [OF assms(1,3)] assms(2) by auto
  then show ?thesis
    using trunc_law [OF q(1) r] by (simp add: r)
qed

end

interpretation memj: byte_file jinv jcontent memjrnlRead "write_memory alloc" memjrnlTruncate
proof
  show "rc = 0 \<and> bs = take a (drop ofs (jcontent p)) \<and> jinv q \<and> jcontent q = jcontent p"
    if "jinv p" "0 < a" "ofs + a \<le> length (jcontent p)" "memjrnlRead p a ofs = (rc, bs, q)"
    for p a ofs rc bs q
    using memjrnlRead_spec [OF that(1-3)] that(4) by (metis MJ_OK_def Pair_inject)
  show "jinv q \<and> (bs \<noteq> [] \<longrightarrow> jcontent q = jcontent p @ bs)"
    if "jinv p" "write_memory alloc p bs (length (jcontent p)) = (0, q)" for p bs q
  proof -
    have "writable p bs (length (jcontent p))"
      by (simp add: writable_def)
    from write_memory_spec [OF that(1) this, of alloc] that(2) show ?thesis
      by (auto simp: MJ_OK_def SQLITE_IOERR_NOMEM_def abs_write_def)
  qed
  show "rc = 0 \<and> jinv q \<and> jcontent q = take n (jcontent p)"
    if "jinv p" "memjrnlTruncate p n = (rc, q)" for p n rc q
    using memjrnlTruncate_spec [OF that(1), of n] that(2) by (metis MJ_OK_def Pair_inject)
qed


section \<open>The journal kept in memory\<close>

lemma opened_jinv:
  assumes "spill \<noteq> 0" "sqlite3JournalOpen os w zName flags spill = (rc, f, w')"
  shows "\<exists>p. rc = MJ_OK \<and> f = Some (Memory p) \<and> jinv p \<and> jcontent p = [] \<and> nSpill p = spill"
  using assms by (auto simp: sqlite3JournalOpen_def jinv_def end_ok_def read_ok_def no_point_def jcontent_def
      MEMJOURNAL_DFLT_FILECHUNKSIZE_def sizeof_FileChunk_def)

lemma short_read:
  "jinv p \<Longrightarrow> length (jcontent p) < ofs + a \<Longrightarrow> memjrnlRead p a ofs = (SQLITE_IOERR_SHORT_READ, [], p)"
  by (simp add: memjrnlRead_def length_jcontent)

text \<open>The outcomes of each operation, over the contents of the file.\<close>

definition read_outcome :: "mem_journal \<Rightarrow> nat \<Rightarrow> nat \<Rightarrow> bool" where
  "read_outcome p a ofs =
     (case memjrnlRead p a ofs of (rc, out, q) \<Rightarrow>
        jinv q \<and> jcontent q = jcontent p \<and>
        (if ofs + a \<le> length (jcontent p) then rc = MJ_OK \<and> out = take a (drop ofs (jcontent p))
         else rc = SQLITE_IOERR_SHORT_READ \<and> out = []))"

definition write_outcome :: "chunk_alloc \<Rightarrow> mem_journal \<Rightarrow> byte list \<Rightarrow> nat \<Rightarrow> bool" where
  "write_outcome alloc p bs ofs =
     (case write_memory alloc p bs ofs of (rc, q) \<Rightarrow>
        jinv q \<and>
        (rc = MJ_OK \<and> jcontent q = abs_write (jcontent p) bs ofs \<or>
         rc = SQLITE_IOERR_NOMEM \<and> (\<exists>k < length bs. jcontent q = take ofs (jcontent p) @ take k bs)))"

definition truncate_outcome :: "mem_journal \<Rightarrow> nat \<Rightarrow> bool" where
  "truncate_outcome p n =
     (case memjrnlTruncate p n of (rc, q) \<Rightarrow> rc = MJ_OK \<and> jinv q \<and> jcontent q = take n (jcontent p))"

lemma read_outcome: "jinv p \<Longrightarrow> 0 < a \<Longrightarrow> read_outcome p a ofs"
proof (cases "ofs + a \<le> length (jcontent p)")
  case True
  assume "jinv p" "0 < a"
  from memjrnlRead_spec [OF this True] obtain q where
    "memjrnlRead p a ofs = (MJ_OK, take a (drop ofs (jcontent p)), q)" "jinv q" "jcontent q = jcontent p"
    by blast
  with True show ?thesis
    by (simp add: read_outcome_def)
next
  case False
  assume "jinv p" "0 < a"
  with False show ?thesis
    by (simp add: read_outcome_def short_read)
qed

lemma write_outcome: "jinv p \<Longrightarrow> writable p bs ofs \<Longrightarrow> write_outcome alloc p bs ofs"
  using write_memory_spec [of p bs ofs alloc] by (auto simp: write_outcome_def)

lemma truncate_outcome: "jinv p \<Longrightarrow> truncate_outcome p n"
  using memj.trunc_law [of p n] by (auto simp: truncate_outcome_def MJ_OK_def split: prod.splits)

text \<open>
  C32. For every well-formed journal the chunked operations act on its contents as a byte
  array: reads return the bytes asked for or SQLITE_IOERR_SHORT_READ, writes append, or
  replace the head by less than a chunk without moving the end, and on a failed allocation
  keep a prefix, truncation cuts; a record appended can be read back and rolled back.
\<close>

theorem memory_journal_refines_byte_array:
  assumes "jinv p" "0 < a" "writable p bs ofs"
  shows "read_outcome p a r \<and> write_outcome alloc p bs ofs \<and> truncate_outcome p n \<and>
    memjrnlFileSize p = (MJ_OK, length (jcontent p)) \<and>
    (\<forall>q. bs \<noteq> [] \<and> write_memory alloc p bs (length (jcontent p)) = (MJ_OK, q) \<longrightarrow>
      fst (snd (memjrnlRead q (length bs) (length (jcontent p)))) = bs \<and>
      jcontent (snd (memjrnlTruncate q (length (jcontent p)))) = jcontent p)"
proof (intro conjI allI impI)
  show "memjrnlFileSize p = (MJ_OK, length (jcontent p))"
    by (simp add: memjrnlFileSize_def length_jcontent [OF assms(1)])
  fix q assume q: "bs \<noteq> [] \<and> write_memory alloc p bs (length (jcontent p)) = (MJ_OK, q)"
  then show "fst (snd (memjrnlRead q (length bs) (length (jcontent p)))) = bs"
    using memj.read_back [OF assms(1), of bs alloc q] by (simp add: MJ_OK_def)
  show "jcontent (snd (memjrnlTruncate q (length (jcontent p)))) = jcontent p"
    using q memj.rollback [OF assms(1), of bs alloc q] by (simp add: MJ_OK_def)
qed (use read_outcome [OF assms(1,2)] write_outcome [OF assms(1,3)] truncate_outcome [OF assms(1)] in simp_all)

text \<open>A journal of two chunks of four bytes that holds six, and an allocator that never fails.\<close>

definition sample_journal :: mem_journal where
  "sample_journal = \<lparr>nChunkSize = 4, nSpill = 4, chain = [[1, 2, 3, 4], [5, 6, 0, 0]],
     endpoint = \<lparr>iOffset = 6, pChunk = Some 1\<rparr>, readpoint = no_point,
     j_flags = 0, zJournal = ''j'', allocs = 2\<rparr>"

lemma sample_journal_ok: "jinv sample_journal" "jcontent sample_journal = [1, 2, 3, 4, 5, 6]"
  by (simp_all add: sample_journal_def jinv_def end_ok_def read_ok_def no_point_def jcontent_def)

theorem memory_journal_refines_byte_array_witness:
  "read_outcome sample_journal 3 2 \<and> write_outcome (\<lambda>k. Some (\<lambda>i. 0)) sample_journal [7, 8, 9] 6 \<and>
   truncate_outcome sample_journal 5"
  using memory_journal_refines_byte_array [OF sample_journal_ok(1), of 3 "[7, 8, 9]" 6 2 "\<lambda>k. Some (\<lambda>i. 0)" 5]
  by (simp add: writable_def sample_journal_ok(2))

section \<open>Spilling to a file\<close>

text \<open>
  What is relied on of the real file: a write that reports success has stored its bytes. What
  opening leaves in the file is not assumed.
\<close>

definition os_file :: "('w, 'x) os_ops_scheme \<Rightarrow> ('w \<Rightarrow> byte list) \<Rightarrow> bool" where
  "os_file os cont =
     (\<forall>w bs ofs w'. ofs \<le> length (cont w) \<longrightarrow> os_write os w bs ofs = (MJ_OK, w') \<longrightarrow>
        cont w' = put_bytes ofs bs (cont w))"

lemma os_write_law:
  "os_file os cont \<Longrightarrow> ofs \<le> length (cont w) \<Longrightarrow> os_write os w bs ofs = (MJ_OK, w') \<Longrightarrow>
   cont w' = put_bytes ofs bs (cont w)"
  by (simp add: os_file_def)

text \<open>The chunks replace the beginning of what the file holds.\<close>

lemma spill_chunks_spec:
  assumes "os_file os cont" "sized n cs" "cont w = pre @ old" "length pre = ofs" "k = n \<or> ofs = e" "ofs \<le> e"
    "e \<le> ofs + length (concat cs)" "spill_chunks os w k ofs e cs = (MJ_OK, w')"
  shows "cont w' = pre @ take (e - ofs) (concat cs) @ drop (e - ofs) old"
  using assms
proof (induction cs arbitrary: w pre old ofs k)
  case Nil
  then show ?case by simp
next
  case (Cons c cs)
  define k' where "k' = (if ofs + k > e then e - ofs else k)"
  obtain rc w1 where w1: "os_write os w (take k' c) ofs = (rc, w1)"
    by (cases "os_write os w (take k' c) ofs")
  then have rc: "rc = 0" "spill_chunks os w1 k' (ofs + k') e cs = (MJ_OK, w')"
    using Cons.prems(8) by (auto simp: k'_def Let_def MJ_OK_def split: if_splits)
  have c: "length c = n" "sized n cs"
    using Cons.prems(2) by simp_all
  have k': "k' \<le> n" "ofs + k' \<le> e" "k' = n \<or> ofs + k' = e"
    using Cons.prems(5,6) by (auto simp: k'_def)
  have w1_c: "cont w1 = (pre @ take k' c) @ drop k' old"
    using os_write_law [OF Cons.prems(1) _ w1 [unfolded rc(1) MJ_OK_def [symmetric]]] Cons.prems(3,4) c(1) k'(1)
    by (simp add: put_bytes_def)
  have "e \<le> ofs + k' + length (concat cs)"
    using Cons.prems(7) c(1) k'(3) by auto
  moreover have "length (pre @ take k' c) = ofs + k'"
    using Cons.prems(4) c(1) k'(1) by simp
  ultimately have "cont w' = (pre @ take k' c) @ take (e - (ofs + k')) (concat cs) @ drop (e - (ofs + k')) (drop k' old)"
    by (intro Cons.IH [OF Cons.prems(1) c(2) w1_c _ k'(3,2) _ rc(2)])
  moreover have "take k' c @ take (e - (ofs + k')) (concat cs) = take (e - ofs) (concat (c # cs))"
    using k' c(1) by auto
  moreover have "drop (e - (ofs + k')) (drop k' old) = drop (e - ofs) old"
    using k'(2) by simp
  ultimately show ?case by simp
qed

lemma CreateFile_spec:
  assumes "jinv p" "os_file os cont" "memjrnlCreateFile os w p = (rc, f, w')"
  shows "if rc = MJ_OK
    then f = Real_file \<and> fst (os_open os w (zJournal p) (j_flags p)) = MJ_OK \<and>
      cont w' = put_bytes 0 (jcontent p) (cont (snd (os_open os w (zJournal p) (j_flags p))))
    else f = Memory p"
proof -
  obtain r1 w1 where w1: "os_open os w (zJournal p) (j_flags p) = (r1, w1)"
    by (cases "os_open os w (zJournal p) (j_flags p)")
  obtain r2 w2 where w2: "spill_chunks os w1 (nChunkSize p) 0 (iOffset (endpoint p)) (chain p) = (r2, w2)"
    by (cases "spill_chunks os w1 (nChunkSize p) 0 (iOffset (endpoint p)) (chain p)")
  show ?thesis
  proof (cases "r1 = MJ_OK \<and> r2 = MJ_OK")
    case True
    have n: "sized (nChunkSize p) (chain p)" "length (jcontent p) = iOffset (endpoint p)"
      using assms(1) length_jcontent by (simp_all add: jinv_def)
    then have "iOffset (endpoint p) \<le> length (concat (chain p))" by (metis jcontent_def length_take min.cobounded1)
    then have "cont w2 = jcontent p @ drop (iOffset (endpoint p)) (cont w1)"
      using spill_chunks_spec [OF assms(2) n(1), of w1 "[]" "cont w1" 0 "nChunkSize p" "iOffset (endpoint p)" w2] w2 True
      by (simp add: jcontent_def)
    then show ?thesis
      using assms(3) True w1 w2 n(2) by (auto simp: memjrnlCreateFile_def put_bytes_def)
  next
    case False
    then show ?thesis
      using assms(3) w1 w2 by (auto simp: memjrnlCreateFile_def split: if_splits)
  qed
qed

text \<open>
  C33. A write past nSpill opens the real file under the name and flags of the journal, and
  when it succeeds the journal and then the written bytes are in it at their offsets; what
  lies behind them is what opening left there, so a file that held no more than the journal is
  exactly the journal. Of the file only this is assumed: a successful write stores its bytes.
  When creating or filling the file fails the memory journal is still there unchanged and an
  error is reported.
\<close>

theorem spilling_keeps_the_journal:
  assumes "jinv p" "os_file os cont" "ofs \<le> length (jcontent p)"
    "0 < nSpill p" "nSpill p < int (length bs + ofs)"
    "os_open os w (zJournal p) (j_flags p) = (r1, w1)"
    "memjrnlWrite os alloc w p bs ofs = (rc, f, w')"
  shows "(rc = MJ_OK \<longrightarrow> r1 = MJ_OK \<and> f = Real_file \<and>
      cont w' = put_bytes ofs bs (put_bytes 0 (jcontent p) (cont w1)) \<and>
      (length (cont w1) \<le> length (jcontent p) \<longrightarrow> cont w' = put_bytes ofs bs (jcontent p))) \<and>
    (if fst (memjrnlCreateFile os w p) = MJ_OK then \<not> sqlite3JournalIsInMemory f
     else rc \<noteq> MJ_OK \<and> f = Memory p)"
proof -
  obtain r f1 w2 where c: "memjrnlCreateFile os w p = (r, f1, w2)"
    by (cases "memjrnlCreateFile os w p")
  obtain r2 w3 where o: "os_write os w2 bs ofs = (r2, w3)"
    by (cases "os_write os w2 bs ofs")
  note spec = CreateFile_spec [OF assms(1,2) c]
  show ?thesis
  proof (cases "r = MJ_OK")
    case True
    then have f1: "f1 = Real_file" "r1 = MJ_OK" "cont w2 = put_bytes 0 (jcontent p) (cont w1)"
      using spec assms(6) by simp_all
    then have "ofs \<le> length (cont w2)" using assms(3) by (simp add: put_bytes_def)
    then have "r2 = MJ_OK \<longrightarrow> cont w3 = put_bytes ofs bs (put_bytes 0 (jcontent p) (cont w1))"
      using os_write_law [OF assms(2), of ofs w2 bs w3] o f1(3) by simp
    moreover have "length (cont w1) \<le> length (jcontent p) \<longrightarrow> put_bytes 0 (jcontent p) (cont w1) = jcontent p"
      by (simp add: put_bytes_def)
    ultimately show ?thesis
      using assms(4,5,7) c o True f1 by (auto simp: memjrnlWrite_def sqlite3JournalIsInMemory_def)
  next
    case False
    then show ?thesis
      using assms(4,5,7) c spec by (auto simp: memjrnlWrite_def)
  qed
qed

text \<open>A file system whose state is the contents of one file.\<close>

definition sample_os :: "byte list os_ops" where
  "sample_os = \<lparr>os_open = (\<lambda>w name fl. (0, w)), os_write = (\<lambda>w bs ofs. (0, put_bytes ofs bs w)),
     os_close = (\<lambda>w. w)\<rparr>"

text \<open>A file that was empty, and one that held more than the journal.\<close>

theorem spilling_keeps_the_journal_witness:
  "snd (snd (memjrnlWrite sample_os (\<lambda>k. None) [] sample_journal [7, 8] 6)) = [1, 2, 3, 4, 5, 6, 7, 8] \<and>
   snd (snd (memjrnlWrite sample_os (\<lambda>k. None) (replicate 9 0) sample_journal [7, 8] 6)) = [1, 2, 3, 4, 5, 6, 7, 8, 0]"
proof -
  have run: "snd (snd (memjrnlWrite sample_os (\<lambda>k. None) w sample_journal [7, 8] 6)) =
      put_bytes 6 [7, 8] (put_bytes 0 [1, 2, 3, 4, 5, 6] w)" for w
  proof -
    obtain rc f w' where r: "memjrnlWrite sample_os (\<lambda>k. None) w sample_journal [7, 8] 6 = (rc, f, w')"
      by (cases "memjrnlWrite sample_os (\<lambda>k. None) w sample_journal [7, 8] 6")
    have rc: "rc = MJ_OK"
      using r by (simp add: memjrnlWrite_def memjrnlCreateFile_def sample_os_def sample_journal_def MJ_OK_def
          Let_def)
    have os: "os_file sample_os (\<lambda>w. w)" "6 \<le> length (jcontent sample_journal)"
      "0 < nSpill sample_journal" "nSpill sample_journal < int (length [7, 8 :: byte] + 6)"
      by (simp_all add: os_file_def sample_os_def sample_journal_ok(2) MJ_OK_def) (simp_all add: sample_journal_def)
    have "os_open sample_os w (zJournal sample_journal) (j_flags sample_journal) = (0, w)" by (simp add: sample_os_def)
    from spilling_keeps_the_journal [OF sample_journal_ok(1) os this r] show ?thesis
      using rc by (simp add: r sample_journal_ok(2))
  qed
  show ?thesis unfolding run by (simp add: put_bytes_def)
qed

end
