(* ===== verification/Sqlite_Like.thy ===== *)
theory Sqlite_Like
  imports Sqlite_Utf
begin

text \<open>
  LIKE and GLOB matching of the bundled SQLite (the pattern part of \<open>func.c\<close> in
  \<open>native/sqlite3/sqlite3.c\<close>): \<open>patternCompare\<close> with its character sets, and the interfaces
  \<open>sqlite3_strglob\<close> and \<open>sqlite3_strlike\<close>. A C string is the list of its bytes without the
  terminator, and the end of the list reads as 0.
\<close>

section \<open>The matcher\<close>

record compareInfo =
  matchAll :: u8
  matchOne :: u8
  matchSet :: u8
  noCase :: bool

definition globInfo :: compareInfo where
  "globInfo = \<lparr>matchAll = 42, matchOne = 63, matchSet = 91, noCase = False\<rparr>"

definition likeInfoNorm :: compareInfo where
  "likeInfoNorm = \<lparr>matchAll = 37, matchOne = 95, matchSet = 0, noCase = True\<rparr>"

definition likeInfoAlt :: compareInfo where
  "likeInfoAlt = \<lparr>matchAll = 37, matchOne = 95, matchSet = 0, noCase = False\<rparr>"

definition SQLITE_MATCH :: int where "SQLITE_MATCH = 0"
definition SQLITE_NOMATCH :: int where "SQLITE_NOMATCH = 1"
definition SQLITE_NOWILDCARDMATCH :: int where "SQLITE_NOWILDCARDMATCH = 2"

text \<open>The macro \<open>Utf8Read\<close>.\<close>

fun Utf8Read :: "byte list \<Rightarrow> u32 \<times> byte list" where
  "Utf8Read [] = (0, [])"
| "Utf8Read (b # z) = (if b < 0x80 then (ucast b, z) else sqlite3Utf8Read (b # z))"

lemma Utf8Read_eq_READ: "Utf8Read z = READ_UTF8 z"
proof (cases z)
  case (Cons b r)
  have "\<not> (0xc0 :: u32) \<le> ucast b" if "b < 0x80"
    using that by (simp add: word_le_nat_alt word_less_nat_alt)
  then show ?thesis
    using Cons by (auto simp: Utf8Read_eq Let_def simp del: sqlite3Utf8Read.simps)
qed simp

lemma Utf8Read_le: "z \<noteq> [] \<Longrightarrow> length (snd (Utf8Read z)) < length z"
  by (simp add: Utf8Read_eq_READ READ_UTF8_le)

lemma Utf8Read_suffix: "length (snd (Utf8Read z)) \<le> length z"
  using Utf8Read_le [of z] by (cases "z = []") auto

lemma Utf8Read_less: "(c, r) = Utf8Read z \<Longrightarrow> z \<noteq> [] \<Longrightarrow> length r < length z"
  by (metis Utf8Read_le snd_conv)

lemma Utf8Read_nonzero: "(c, r) = Utf8Read z \<Longrightarrow> c \<noteq> 0 \<Longrightarrow> length r < length z"
  by (cases "z = []") (auto intro: Utf8Read_less)

text \<open>
  The loop that skips wildcards after a \<open>matchAll\<close> and takes a character of the string for each
  \<open>matchOne\<close>: \<open>None\<close> when the string ends, otherwise \<open>c\<close>, the pattern and the string.
\<close>

function star_skip :: "compareInfo \<Rightarrow> byte list \<Rightarrow> byte list \<Rightarrow> (u32 \<times> byte list \<times> byte list) option" where
  "star_skip info zPattern zString =
     (if zPattern = [] then Some (0, [], zString)
      else
        let (c, zPattern2) = Utf8Read zPattern in
        if c = ucast (matchAll info) \<or> c = ucast (matchOne info) \<and> ucast (matchOne info) \<noteq> (0 :: u32) then
          if c = ucast (matchOne info) then
            (let (s, zString2) = sqlite3Utf8Read zString in
             if s = 0 then None else star_skip info zPattern2 zString2)
          else star_skip info zPattern2 zString
        else Some (c, zPattern2, zString))"
  by pat_completeness auto
termination
  by (relation "measure (\<lambda>(i, p, s). length p)") (auto dest: Utf8Read_less)

declare star_skip.simps [simp del]

lemma star_skip_less:
  "star_skip info p z = Some (c, p2, z2) \<Longrightarrow> c \<noteq> 0 \<Longrightarrow> length p2 < length p"
proof (induction info p z rule: star_skip.induct)
  case (1 info p z)
  show ?case
  proof (cases "p = []")
    case True
    then show ?thesis using "1.prems" by (simp add: star_skip.simps [of info "[]" z])
  next
    case False
    obtain d r where r: "Utf8Read p = (d, r)" by (cases "Utf8Read p")
    have less: "length r < length p"
      using False r by (metis Utf8Read_less)
    obtain x z' where x: "sqlite3Utf8Read z = (x, z')" by (cases "sqlite3Utf8Read z")
    show ?thesis
      using "1.prems" False r x less "1.IH"(1) [OF False r [symmetric] refl _ _ x [symmetric] refl]
        "1.IH"(2) [OF False r [symmetric] refl]
      by (simp add: star_skip.simps [of info p z] split: if_splits)
  qed
qed

text \<open>The positions of \<open>zString\<close> that the slow search for a set tries.\<close>

function skip_suffixes :: "byte list \<Rightarrow> byte list list" where
  "skip_suffixes z = (if z = [] then [] else z # skip_suffixes (SQLITE_SKIP_UTF8 z))"
  by pat_completeness auto
termination
  by (relation "measure length") (auto intro: SKIP_UTF8_le)

declare skip_suffixes.simps [simp del]

text \<open>The positions after each byte of \<open>zStop\<close>, found with \<open>strcspn\<close>.\<close>

fun after_bytes :: "byte list \<Rightarrow> byte list \<Rightarrow> byte list list" where
  "after_bytes zStop [] = []"
| "after_bytes zStop (b # z) = (if b \<in> set zStop then z # after_bytes zStop z else after_bytes zStop z)"

text \<open>The positions after each character \<open>c\<close>.\<close>

function after_chars :: "u32 \<Rightarrow> byte list \<Rightarrow> byte list list" where
  "after_chars c z =
     (if z = [] then []
      else let (c2, z2) = Utf8Read z in
        if c2 = 0 then [] else if c2 \<noteq> c then after_chars c z2 else z2 # after_chars c z2)"
  by pat_completeness auto
termination
  by (relation "measure (\<lambda>(c, z). length z)") (auto dest: Utf8Read_less Utf8Read_less [OF sym] split: prod.splits)

declare after_chars.simps [simp del]

text \<open>The loops that return the first result that is not \<open>SQLITE_NOMATCH\<close>.\<close>

fun first_result :: "(byte list \<Rightarrow> int) \<Rightarrow> byte list list \<Rightarrow> int" where
  "first_result f [] = SQLITE_NOWILDCARDMATCH"
| "first_result f (z # zs) =
     (let bMatch = f z in if bMatch \<noteq> SQLITE_NOMATCH then bMatch else first_result f zs)"

lemma read_progress: "(d, r) = sqlite3Utf8Read z \<Longrightarrow> length r + (if d = 0 then 0 else 1) \<le> length z"
  using Utf8Read_less [of d r z] by (cases "z = []") (auto simp: Utf8Read_eq_READ Utf8Read_eq)

text \<open>The loop over a character set; \<open>c2\<close> has been read from the pattern.\<close>

function set_loop :: "u32 \<Rightarrow> u32 \<Rightarrow> byte list \<Rightarrow> u32 \<Rightarrow> bool \<Rightarrow> u32 \<times> byte list \<times> bool" where
  "set_loop c c2 zPattern prior_c seen =
     (if c2 = 0 \<or> c2 = 93 then (c2, zPattern, seen)
      else if c2 = 45 \<and> cstr zPattern 0 \<noteq> 93 \<and> cstr zPattern 0 \<noteq> 0 \<and> prior_c > 0 then
        let (c2, zPattern) = sqlite3Utf8Read zPattern;
            seen = (seen \<or> c \<ge> prior_c \<and> c \<le> c2);
            (c2, zPattern) = sqlite3Utf8Read zPattern
        in set_loop c c2 zPattern 0 seen
      else
        let seen = (seen \<or> c = c2); prior_c = c2;
            (c2, zPattern) = sqlite3Utf8Read zPattern
        in set_loop c c2 zPattern prior_c seen)"
  by pat_completeness auto
termination
  by (relation "measure (\<lambda>(c, c2, z, pr, seen). length z + (if c2 = 0 then 0 else 1))")
    (auto dest!: read_progress split: if_splits)


declare set_loop.simps [simp del]

text \<open>
  A set after its bracket: \<open>None\<close> where the comparison ends without a match, otherwise the
  pattern after the set and the string after the character.
\<close>

definition match_set :: "byte list \<Rightarrow> byte list \<Rightarrow> (byte list \<times> byte list) option" where
  "match_set zPattern zString =
     (let (c, zString) = sqlite3Utf8Read zString in
      if c = 0 then None
      else
        let (c2, zPattern) = sqlite3Utf8Read zPattern;
            invert = (c2 = 94);
            (c2, zPattern) = (if c2 = 94 then sqlite3Utf8Read zPattern else (c2, zPattern));
            seen = (c2 = 93 \<and> c = 93);
            (c2, zPattern) = (if c2 = 93 then sqlite3Utf8Read zPattern else (c2, zPattern));
            (c2, zPattern, seen) = set_loop c c2 zPattern 0 seen
        in if c2 = 0 \<or> seen = invert then None else Some (zPattern, zString))"

lemma sqlite3Utf8Read_le: "length (snd (sqlite3Utf8Read z)) \<le> length z"
  using Utf8Read_suffix [of z] by (simp add: Utf8Read_eq_READ Utf8Read_eq)

lemma set_loop_le: "length (fst (snd (set_loop c c2 z prior_c seen))) \<le> length z"
proof (induction c c2 z prior_c seen rule: set_loop.induct)
  case (1 c c2 z prior_c seen)
  obtain x r where r: "sqlite3Utf8Read z = (x, r)" by (cases "sqlite3Utf8Read z")
  obtain y t where t: "sqlite3Utf8Read r = (y, t)" by (cases "sqlite3Utf8Read r")
  have "length r \<le> length z" "length t \<le> length r"
    using sqlite3Utf8Read_le [of z] sqlite3Utf8Read_le [of r] by (simp_all add: r t)
  then show ?case
    using "1.IH"(1) [OF _ _ r [symmetric] refl refl t [symmetric] refl]
      "1.IH"(2) [OF _ _ refl refl r [symmetric] refl]
    by (subst set_loop.simps) (auto simp: r t intro: order_trans)
qed

lemma match_set_le: "match_set p z = Some (p2, z2) \<Longrightarrow> length p2 \<le> length p"
proof -
  assume m: "match_set p z = Some (p2, z2)"
  define a where "a = sqlite3Utf8Read p"
  define b where "b = (if fst a = 94 then sqlite3Utf8Read (snd a) else a)"
  define d where "d = (if fst b = 93 then sqlite3Utf8Read (snd b) else b)"
  have "\<exists>c seen. p2 = fst (snd (set_loop c (fst d) (snd d) 0 seen))"
    using m unfolding match_set_def d_def b_def a_def
    by (auto simp: Let_def case_prod_beta split: if_splits)
  then have "length p2 \<le> length (snd d)"
    using set_loop_le by auto
  also have "\<dots> \<le> length (snd b)" by (simp add: d_def sqlite3Utf8Read_le)
  also have "\<dots> \<le> length (snd a)" by (simp add: b_def sqlite3Utf8Read_le)
  also have "\<dots> \<le> length p" by (simp add: a_def sqlite3Utf8Read_le)
  finally show ?thesis .
qed

lemma Utf8Read_again: "(c, r) = Utf8Read z \<Longrightarrow> (d, q) = Utf8Read z \<Longrightarrow> c \<noteq> 0 \<Longrightarrow> length q < length z"
  by (metis Utf8Read_nonzero Pair_inject)

text \<open>
  \<open>patternCompare\<close>, one call of the function for each round of its main loop. The test
  \<open>zPattern != zEscaped\<close> fails exactly in the round that has read an escaped character.
\<close>

function patternCompare :: "compareInfo \<Rightarrow> u32 \<Rightarrow> byte list \<Rightarrow> byte list \<Rightarrow> int" where
  "patternCompare info matchOther zPattern zString =
     (let (c, zPattern) = Utf8Read zPattern in
      if c = 0 then (if zString = [] then SQLITE_MATCH else SQLITE_NOMATCH)
      else if c = ucast (matchAll info) then
        (case star_skip info zPattern zString of
           None \<Rightarrow> SQLITE_NOWILDCARDMATCH
         | Some (c, zPattern, zString) \<Rightarrow>
             if c = 0 then SQLITE_MATCH
             else if c = matchOther \<and> matchSet info \<noteq> 0 then
               first_result (\<lambda>z. patternCompare info matchOther (ucast c # zPattern) z)
                 (skip_suffixes zString)
             else
               let (c, zPattern) = (if c = matchOther then sqlite3Utf8Read zPattern else (c, zPattern)) in
               if c = 0 then SQLITE_NOWILDCARDMATCH
               else
                 first_result (\<lambda>z. patternCompare info matchOther zPattern z)
                   (if c < 0x80 then
                      after_bytes
                        (if noCase info then [sqlite3Toupper (ucast c), UpperToLower (ucast c)] else [ucast c])
                        zString
                    else after_chars c zString))
      else if c = matchOther \<and> matchSet info \<noteq> 0 then
        (case match_set zPattern zString of
           None \<Rightarrow> SQLITE_NOMATCH
         | Some (zPattern, zString) \<Rightarrow> patternCompare info matchOther zPattern zString)
      else
        let escaped = (c = matchOther);
            (c, zPattern) = (if escaped then sqlite3Utf8Read zPattern else (c, zPattern)) in
        if escaped \<and> c = 0 then SQLITE_NOMATCH
        else
          let (c2, zString) = Utf8Read zString in
          if c = c2
             \<or> noCase info \<and> UpperToLower (ucast c) = UpperToLower (ucast c2) \<and> c < 0x80 \<and> c2 < 0x80
             \<or> c = ucast (matchOne info) \<and> \<not> escaped \<and> c2 \<noteq> 0
          then patternCompare info matchOther zPattern zString
          else SQLITE_NOMATCH)"
  by pat_completeness auto
termination
  by (relation "measure (\<lambda>(i, m, p, z). length p)")
    (auto dest!: star_skip_less match_set_le read_progress
      dest: Utf8Read_nonzero Utf8Read_again split: if_splits)

declare patternCompare.simps [simp del]

section \<open>The interfaces\<close>

text \<open>A null pointer is \<open>None\<close>.\<close>

definition sqlite3_strglob :: "byte list option \<Rightarrow> byte list option \<Rightarrow> int" where
  "sqlite3_strglob zGlobPattern zString =
     (case zString of
        None \<Rightarrow> if zGlobPattern \<noteq> None then 1 else 0
      | Some z \<Rightarrow> (case zGlobPattern of None \<Rightarrow> 1 | Some p \<Rightarrow> patternCompare globInfo 91 p z))"

definition sqlite3_strlike :: "byte list option \<Rightarrow> byte list option \<Rightarrow> u32 \<Rightarrow> int" where
  "sqlite3_strlike zPattern zStr esc =
     (case zStr of
        None \<Rightarrow> if zPattern \<noteq> None then 1 else 0
      | Some z \<Rightarrow> (case zPattern of None \<Rightarrow> 1 | Some p \<Rightarrow> patternCompare likeInfoNorm esc p z))"

text \<open>
  The SQL functions \<open>like\<close> and \<open>glob\<close>: a value is its text, \<open>None\<close> for NULL, of which C sees the
  part before the first zero; \<open>limit\<close> is \<open>SQLITE_LIMIT_LIKE_PATTERN_LENGTH\<close>; the third argument is
  \<open>None\<close> when there is none. The build does not define \<open>SQLITE_LIKE_DOESNT_MATCH_BLOBS\<close>.
\<close>

datatype like_result = No_result | Pattern_too_complex | Bad_escape | Result bool

definition c_string :: "byte list \<Rightarrow> byte list" where
  "c_string z = takeWhile (\<lambda>b. b \<noteq> 0) z"

text \<open>A wildcard that is the escape character is no wildcard.\<close>

definition without_escape :: "compareInfo \<Rightarrow> u32 \<Rightarrow> compareInfo" where
  "without_escape pInfo escape =
     pInfo\<lparr>matchAll := if escape = ucast (matchAll pInfo) then 0 else matchAll pInfo,
       matchOne := if escape = ucast (matchOne pInfo) then 0 else matchOne pInfo\<rparr>"

definition likeFunc ::
  "compareInfo \<Rightarrow> nat \<Rightarrow> byte list option \<Rightarrow> byte list option \<Rightarrow> byte list option option \<Rightarrow> like_result" where
  "likeFunc pInfo limit zB zA esc =
     (if (case zB of None \<Rightarrow> 0 | Some z \<Rightarrow> length z) > limit then Pattern_too_complex
      else
        let compare = (\<lambda>pInfo escape. case (zA, zB) of
            (Some a, Some b) \<Rightarrow> Result (patternCompare pInfo escape (c_string b) (c_string a) = SQLITE_MATCH)
          | _ \<Rightarrow> No_result) in
        case esc of
          None \<Rightarrow> compare pInfo (ucast (matchSet pInfo))
        | Some None \<Rightarrow> No_result
        | Some (Some zEsc) \<Rightarrow>
            if sqlite3Utf8CharLen (c_string zEsc) (- 1) \<noteq> 1 then Bad_escape
            else
              let escape = fst (sqlite3Utf8Read (c_string zEsc)) in
              compare (without_escape pInfo escape) escape)"

section \<open>What a pattern means\<close>

text \<open>
  The specification, on texts of code points. \<open>e\<close> is the escape character of LIKE; GLOB
  patterns are covered as far as they have no character set.
\<close>

definition letter :: "u32 \<Rightarrow> byte" where
  "letter c = UpperToLower (ucast c)"

definition same :: "compareInfo \<Rightarrow> u32 \<Rightarrow> u32 \<Rightarrow> bool" where
  "same info p x = (p = x \<or> noCase info \<and> letter p = letter x \<and> p < 0x80 \<and> x < 0x80)"

function like :: "compareInfo \<Rightarrow> u32 \<Rightarrow> u32 list \<Rightarrow> u32 list \<Rightarrow> bool" where
  "like info e [] s = (s = [])"
| "like info e (p # ps) s =
     (if p = e then
        (case ps of [] \<Rightarrow> False
         | q # qs \<Rightarrow> (case s of [] \<Rightarrow> False | x # xs \<Rightarrow> same info q x \<and> like info e qs xs))
      else if p = ucast (matchAll info) then \<exists>k \<le> length s. like info e ps (drop k s)
      else
        (case s of [] \<Rightarrow> False
         | x # xs \<Rightarrow> (same info p x \<or> p = ucast (matchOne info)) \<and> like info e ps xs))"
  by pat_completeness auto
termination
  by (relation "measure (\<lambda>(i, e, p, s). length p)") auto

declare like.simps(2) [simp del]

text \<open>What the wildcards need: they differ from each other and from the escape.\<close>

definition wild_ok :: "compareInfo \<Rightarrow> u32 \<Rightarrow> bool" where
  "wild_ok info e = (matchAll info \<noteq> matchOne info \<and> e \<noteq> ucast (matchAll info) \<and> e \<noteq> ucast (matchOne info))"

definition no_sets :: "compareInfo \<Rightarrow> u32 \<Rightarrow> u32 list \<Rightarrow> bool" where
  "no_sets info e ps = (matchSet info = 0 \<or> e \<notin> set ps)"

section \<open>Reading code points\<close>

lemma plain_text_simps [simp]:
  "plain_text []" "plain_text (c # cs) \<longleftrightarrow> scalar c \<and> c \<noteq> 0 \<and> plain_text cs"
  by (simp_all add: plain_text_def)

lemma plain_text_drop: "plain_text s \<Longrightarrow> plain_text (drop k s)"
  by (auto simp: plain_text_def list_all_iff dest: in_set_dropD)

lemma utf8_Nil [simp]: "utf8 [] = []"
  by (simp add: utf8_def)

lemma utf8_Cons: "utf8 (c # cs) = WRITE_UTF8 c @ utf8 cs"
  by (simp add: utf8_def)

lemma utf8_eq_Nil [simp]: "utf8 cs = [] \<longleftrightarrow> cs = []"
  by (cases cs) (simp_all add: utf8_Cons)

lemma plain_not_cont: "plain_text cs \<Longrightarrow> not_cont (utf8 cs)"
  using utf8_not_cont [of cs "[]"] by (simp add: plain_text_def list_all_iff not_cont_def)

lemma read_utf8 [simp]:
  assumes "plain_text (c # cs)"
  shows "READ_UTF8 (utf8 (c # cs)) = (c, utf8 cs)" "Utf8Read (utf8 (c # cs)) = (c, utf8 cs)"
    "sqlite3Utf8Read (utf8 (c # cs)) = (c, utf8 cs)"
  using assms READ_WRITE_scalar [of c "utf8 cs"] plain_not_cont [of cs]
  by (simp_all add: utf8_Cons Utf8Read_eq_READ Utf8Read_eq del: READ_UTF8.simps sqlite3Utf8Read.simps)

lemma read_Nil [simp]: "Utf8Read (utf8 []) = (0, [])" "sqlite3Utf8Read (utf8 []) = (0, [])"
  by simp_all

lemma ucast_byte_eq: "(ucast (a :: byte) :: u32) = ucast b \<longleftrightarrow> a = b"
  by (simp add: word_unat_eq_iff)

lemma ucast_byte_0: "(ucast (a :: byte) :: u32) = 0 \<longleftrightarrow> a = 0"
  by (simp add: word_unat_eq_iff)

section \<open>Wildcards\<close>

definition wild :: "compareInfo \<Rightarrow> u32 \<Rightarrow> bool" where
  "wild info p = (p = ucast (matchAll info) \<or> p = ucast (matchOne info))"

definition after_wild :: "compareInfo \<Rightarrow> u32 list \<Rightarrow> u32 list" where
  "after_wild info ps = dropWhile (wild info) ps"

definition ones :: "compareInfo \<Rightarrow> u32 list \<Rightarrow> nat" where
  "ones info ps = count_list (takeWhile (wild info) ps) (ucast (matchOne info))"

lemma wild_simps:
  "after_wild info [] = []" "ones info [] = 0"
  "after_wild info (p # ps) = (if wild info p then after_wild info ps else p # ps)"
  "ones info (p # ps) =
     (if wild info p then (if p = ucast (matchOne info) then 1 else 0) + ones info ps else 0)"
  by (simp_all add: after_wild_def ones_def)

lemma star_skip_utf8:
  assumes "wild_ok info e"
  shows "plain_text ps \<Longrightarrow> plain_text s \<Longrightarrow> star_skip info (utf8 ps) (utf8 s) =
    (if length s < ones info ps then None
     else case after_wild info ps of
       [] \<Rightarrow> Some (0, [], utf8 (drop (ones info ps) s))
     | c # cs \<Rightarrow> Some (c, utf8 cs, utf8 (drop (ones info ps) s)))"
proof (induction ps arbitrary: s)
  case Nil
  then show ?case by (simp add: star_skip.simps wild_simps)
next
  case (Cons p ps)
  have info: "ucast (matchAll info) \<noteq> (ucast (matchOne info) :: u32)"
    using assms by (simp add: wild_ok_def ucast_byte_eq)
  have "p \<noteq> 0" using Cons.prems(1) by simp
  have ps: "plain_text ps" using Cons.prems(1) by simp
  have step: "star_skip info (utf8 (p # ps)) (utf8 s) =
    (if wild info p then
       if p = ucast (matchOne info) then
         (case sqlite3Utf8Read (utf8 s) of (x, s2) \<Rightarrow> if x = 0 then None else star_skip info (utf8 ps) s2)
       else star_skip info (utf8 ps) (utf8 s)
     else Some (p, utf8 ps, utf8 s))"
    using read_utf8(2) [OF Cons.prems(1)] \<open>p \<noteq> 0\<close>
    by (subst star_skip.simps) (auto simp: wild_def)
  consider "\<not> wild info p" | "p = ucast (matchAll info)" | "p = ucast (matchOne info)" "s = []"
    | x xs where "p = ucast (matchOne info)" "s = x # xs"
    by (cases s) (auto simp: wild_def)
  then show ?case
  proof cases
    case 1
    then show ?thesis by (simp add: step wild_simps)
  next
    case 2
    then have "wild info p" "p \<noteq> ucast (matchOne info)"
      using info by (simp_all add: wild_def)
    then have o: "ones info (p # ps) = ones info ps" "after_wild info (p # ps) = after_wild info ps"
      by (simp_all add: wild_simps)
    show ?thesis
      unfolding o Cons.IH [OF ps Cons.prems(2), symmetric]
      using \<open>wild info p\<close> \<open>p \<noteq> ucast (matchOne info)\<close> by (simp add: step)
  next
    case 3
    then show ?thesis using step by (simp add: wild_simps wild_def)
  next
    case 4
    then have x: "plain_text xs" "x \<noteq> 0" and w: "wild info p"
      using Cons.prems(2) by (simp_all add: wild_def)
    have "star_skip info (utf8 (p # ps)) (utf8 s) = star_skip info (utf8 ps) (utf8 xs)"
      using 4 x w read_utf8(3) [of x xs] Cons.prems(2) unfolding step by simp
    moreover have "ones info (p # ps) = Suc (ones info ps)" "after_wild info (p # ps) = after_wild info ps"
      using 4(1) w by (simp_all add: wild_simps)
    ultimately show ?thesis
      unfolding Cons.IH [OF ps x(1)] 4(2) by (simp cong: list.case_cong)
  qed
qed

text \<open>A match somewhere after the first \<open>m\<close> characters.\<close>

definition starlike :: "compareInfo \<Rightarrow> u32 \<Rightarrow> u32 list \<Rightarrow> nat \<Rightarrow> u32 list \<Rightarrow> bool" where
  "starlike info e ps m s = (\<exists>j. m + j \<le> length s \<and> like info e ps (drop (m + j) s))"

lemma like_all: "wild_ok info e \<Longrightarrow> like info e (ucast (matchAll info) # ps) s = starlike info e ps 0 s"
  by (auto simp: starlike_def like.simps wild_ok_def)

lemma starlike_all:
  assumes "wild_ok info e"
  shows "starlike info e (ucast (matchAll info) # ps) m s = starlike info e ps m s"
proof
  assume "starlike info e (ucast (matchAll info) # ps) m s"
  then obtain j k where "m + j \<le> length s" "k \<le> length (drop (m + j) s)" "like info e ps (drop k (drop (m + j) s))"
    using assms by (auto simp: starlike_def like.simps wild_ok_def)
  then show "starlike info e ps m s"
    unfolding starlike_def by (intro exI [of _ "j + k"]) (auto simp: add_ac)
next
  assume "starlike info e ps m s"
  then obtain j where "m + j \<le> length s" "like info e ps (drop (m + j) s)"
    by (auto simp: starlike_def)
  then show "starlike info e (ucast (matchAll info) # ps) m s"
    using assms unfolding starlike_def by (intro exI [of _ j]) (auto simp: like.simps wild_ok_def intro: exI [of _ 0])
qed

lemma starlike_one:
  assumes "wild_ok info e"
  shows "starlike info e (ucast (matchOne info) # ps) m s = starlike info e ps (m + 1) s"
proof -
  have n: "ucast (matchOne info) \<noteq> (ucast (matchAll info) :: u32)" "ucast (matchOne info) \<noteq> e"
    using assms by (auto simp: wild_ok_def ucast_byte_eq)
  have one: "like info e (ucast (matchOne info) # ps) t \<longleftrightarrow> t \<noteq> [] \<and> like info e ps (tl t)" for t
    using n by (cases t) (simp_all add: like.simps)
  have "like info e (ucast (matchOne info) # ps) (drop (m + j) s) \<longleftrightarrow>
      m + j < length s \<and> like info e ps (drop (m + 1 + j) s)" for j
    unfolding one by (simp add: tl_drop flip: drop_Suc) (auto simp: not_le)
  then show ?thesis
    unfolding starlike_def by (simp add: Suc_le_eq) (metis less_imp_le)
qed


lemma starlike_after_wild:
  assumes "wild_ok info e"
  shows "starlike info e ps m s = starlike info e (after_wild info ps) (m + ones info ps) s"
proof (induction ps arbitrary: m)
  case (Cons p ps)
  have n: "ucast (matchOne info) \<noteq> (ucast (matchAll info) :: u32)"
    using assms by (auto simp: wild_ok_def ucast_byte_eq)
  consider "\<not> wild info p" | "p = ucast (matchAll info)" | "p = ucast (matchOne info)"
    by (auto simp: wild_def)
  then show ?case
  proof cases
    case 2
    then show ?thesis
      using Cons.IH n by (simp add: wild_simps wild_def starlike_all [OF assms])
  next
    case 3
    then show ?thesis
      using Cons.IH [of "m + 1"] starlike_one [OF assms] n by (simp add: wild_simps wild_def)
  qed (simp add: wild_simps)
qed (simp add: wild_simps)

section \<open>Searching\<close>

text \<open>The rests after each character that the literal \<open>q\<close> matches.\<close>

fun afters :: "compareInfo \<Rightarrow> u32 \<Rightarrow> u32 list \<Rightarrow> u32 list list" where
  "afters info q [] = []"
| "afters info q (x # xs) = (if same info q x then xs # afters info q xs else afters info q xs)"

lemma afters_drop: "set (afters info q (drop k s)) \<subseteq> set (afters info q s)"
proof (induction s arbitrary: k)
  case (Cons x s)
  then show ?case by (cases k) auto
qed simp

lemma afters_suffix: "t \<in> set (afters info q s) \<Longrightarrow> \<exists>k. t = drop k s"
proof (induction s)
  case (Cons x s)
  then consider "t = s" | k where "t = drop k s" by (auto split: if_splits)
  then show ?case
    by cases (metis drop0 drop_Suc_Cons)+
qed simp

lemma afters_like:
  "(\<exists>t \<in> set (afters info q s). P t) \<longleftrightarrow> (\<exists>j < length s. same info q (s ! j) \<and> P (drop (Suc j) s))"
proof (induction s)
  case (Cons x s)
  have "(\<exists>j < length (x # s). same info q ((x # s) ! j) \<and> P (drop (Suc j) (x # s))) \<longleftrightarrow>
    same info q x \<and> P s \<or> (\<exists>j < length s. same info q (s ! j) \<and> P (drop (Suc j) s))"
    by (auto simp: less_Suc_eq_0_disj)
  then show ?case
    using Cons by auto
qed simp

lemma WRITE_high_bytes: "scalar x \<Longrightarrow> 0x80 \<le> unat x \<Longrightarrow> b \<in> set (WRITE_UTF8 x) \<Longrightarrow> 0x80 \<le> unat b"
proof -
  assume x: "scalar x" "0x80 \<le> unat x" "b \<in> set (WRITE_UTF8 x)"
  have c: "0x80 \<le> unat (cont d)" for d
    using cont_byte(3) [of "ucast d"] by (simp add: cont_def ucast_and_mask and.commute word_le_nat_alt)
  consider "unat x < 0x800" | "0x800 \<le> unat x" "unat x < 0x10000" | "0x10000 \<le> unat x" by linarith
  then show ?thesis
  proof cases
    case 1
    then have "unat (drop_bit 6 x) < 32" by (simp add: unat_drop)
    then show ?thesis
      using x c lead_trans1(1) [of "drop_bit 6 x"] WRITE_UTF8_bytes(2) [OF x(2) 1] by (auto simp: word_le_nat_alt)
  next
    case 2
    then have "unat (drop_bit 12 x) < 16" by (simp add: unat_drop)
    then show ?thesis
      using x c lead_trans1(2) [of "drop_bit 12 x"] WRITE_UTF8_bytes(3) [OF 2] by (auto simp: word_le_nat_alt)
  next
    case 3
    have 4: "unat x < 0x200000" using x(1) by (simp add: scalar_def)
    then have "unat (drop_bit 18 x) < 8" by (simp add: unat_drop)
    then show ?thesis
      using x c lead_trans1(3) [of "drop_bit 18 x"] WRITE_UTF8_bytes(4) [OF 3 4] by (auto simp: word_le_nat_alt)
  qed
qed

lemma WRITE_ascii: "x < 0x80 \<Longrightarrow> WRITE_UTF8 x = [ucast x]"
  by (simp add: WRITE_UTF8_bytes(1) word_less_nat_alt)

lemma after_bytes_append: "set bs \<inter> set zStop = {} \<Longrightarrow> after_bytes zStop (bs @ z) = after_bytes zStop z"
  by (induction bs) auto

definition stops :: "compareInfo \<Rightarrow> u32 \<Rightarrow> byte list" where
  "stops info c = (if noCase info then [sqlite3Toupper (ucast c), UpperToLower (ucast c)] else [ucast c])"


text \<open>Case folding in numbers.\<close>

definition fold_ok :: "byte \<Rightarrow> bool" where
  "fold_ok b = (b < 0x80 \<longrightarrow>
     unat (UpperToLower b) = (if 65 \<le> unat b \<and> unat b \<le> 90 then unat b + 32 else unat b) \<and>
     unat (sqlite3Toupper b) = (if 97 \<le> unat b \<and> unat b \<le> 122 then unat b - 32 else unat b))"

lemma fold_ok: "fold_ok b"
  by (rule all_bytesI [of fold_ok]) code_simp

lemma stop_bytes: "b < 0x80 \<Longrightarrow> d < 0x80 \<Longrightarrow>
  (b = sqlite3Toupper d \<or> b = UpperToLower d) = (UpperToLower d = UpperToLower b)"
proof -
  assume "b < 0x80" "d < 0x80"
  then have f: "unat (UpperToLower b) = (if 65 \<le> unat b \<and> unat b \<le> 90 then unat b + 32 else unat b)"
    "unat (UpperToLower d) = (if 65 \<le> unat d \<and> unat d \<le> 90 then unat d + 32 else unat d)"
    "unat (sqlite3Toupper d) = (if 97 \<le> unat d \<and> unat d \<le> 122 then unat d - 32 else unat d)"
    using fold_ok [of b] fold_ok [of d] by (simp_all add: fold_ok_def)
  show ?thesis
    unfolding word_unat_eq_iff f by auto
qed

lemma stop_high: "d < 0x80 \<Longrightarrow> sqlite3Toupper d < 0x80 \<and> UpperToLower d < 0x80"
  using fold_ok [of d] by (auto simp: fold_ok_def word_less_nat_alt)

lemma letter_0: "letter p = letter 0 \<Longrightarrow> p < 0x80 \<Longrightarrow> p = 0"
  using fold_ok [of "ucast p"] fold_ok [of 0]
  by (simp add: letter_def fold_ok_def word_unat_eq_iff word_less_nat_alt unat_ucast_u32_byte split: if_splits)

lemma in_stops:
  assumes "q < 0x80" "x < 0x80"
  shows "ucast x \<in> set (stops info q) \<longleftrightarrow> same info q x"
proof -
  have b: "(ucast q :: byte) < 0x80" "(ucast x :: byte) < 0x80"
    using assms by (simp_all add: word_less_nat_alt unat_ucast_u32_byte)
  have e: "(ucast x :: byte) = ucast q \<longleftrightarrow> q = x"
    using assms by (auto simp: word_unat_eq_iff word_less_nat_alt unat_ucast_u32_byte)
  show ?thesis
  proof (cases "noCase info")
    case True
    have "same info q x \<longleftrightarrow> UpperToLower (ucast q) = UpperToLower (ucast x)"
      using True assms unfolding same_def letter_def by blast
    moreover have "ucast x \<in> set (stops info q) \<longleftrightarrow>
        ucast x = sqlite3Toupper (ucast q) \<or> ucast x = UpperToLower (ucast q)"
      using True by (simp add: stops_def)
    ultimately show ?thesis
      unfolding stop_bytes [OF b(2,1), symmetric] by blast
  next
    case False
    then show ?thesis
      using e by (simp add: stops_def same_def)
  qed
qed

lemma after_bytes_utf8:
  assumes "q < 0x80"
  shows "plain_text s \<Longrightarrow> after_bytes (stops info q) (utf8 s) = map utf8 (afters info q s)"
proof (induction s)
  case (Cons x s)
  show ?case
  proof (cases "x < 0x80")
    case True
    then show ?thesis
      using Cons in_stops [OF assms True] by (simp add: utf8_Cons WRITE_ascii)
  next
    case False
    then have x: "0x80 \<le> unat x" "scalar x"
      using Cons.prems by (simp_all add: word_less_nat_alt)
    have "(ucast q :: byte) < 0x80"
      using assms by (simp add: word_less_nat_alt unat_ucast_u32_byte)
    then have "\<forall>b \<in> set (stops info q). unat b < 0x80"
      using stop_high by (auto simp: stops_def word_less_nat_alt)
    then have "set (WRITE_UTF8 x) \<inter> set (stops info q) = {}"
      using WRITE_high_bytes [OF x(2,1)] by (meson disjoint_iff not_le)
    moreover have "\<not> same info q x"
      using False assms by (auto simp: same_def)
    ultimately show ?thesis
      using Cons by (simp add: utf8_Cons after_bytes_append)
  qed
qed simp

lemma after_chars_utf8:
  assumes "\<not> q < 0x80"
  shows "plain_text s \<Longrightarrow> after_chars q (utf8 s) = map utf8 (afters info q s)"
proof (induction s)
  case Nil
  then show ?case by (simp add: after_chars.simps)
next
  case (Cons x s)
  have "same info q x \<longleftrightarrow> x = q"
    using assms by (auto simp: same_def)
  then show ?case
    using Cons read_utf8(2) [OF Cons.prems] by (subst after_chars.simps) simp
qed

section \<open>Correctness\<close>

text \<open>
  What a result says: a match, no match, or no match of the text or of any rest of it, so that
  a search further up can stop.
\<close>

definition says :: "int \<Rightarrow> (u32 list \<Rightarrow> bool) \<Rightarrow> u32 list \<Rightarrow> bool" where
  "says r P s = (r \<in> {SQLITE_MATCH, SQLITE_NOMATCH, SQLITE_NOWILDCARDMATCH} \<and>
     (r = SQLITE_MATCH \<longleftrightarrow> P s) \<and> (r = SQLITE_NOWILDCARDMATCH \<longrightarrow> (\<forall>k. \<not> P (drop k s))))"

lemmas result_defs = SQLITE_MATCH_def SQLITE_NOMATCH_def SQLITE_NOWILDCARDMATCH_def

definition all_say :: "(byte list \<Rightarrow> int) \<Rightarrow> (u32 list \<Rightarrow> bool) \<Rightarrow> bool" where
  "all_say f P = (\<forall>s. plain_text s \<longrightarrow> says (f (utf8 s)) P s)"

lemma first_result_says:
  assumes "all_say f P"
  shows "plain_text s \<Longrightarrow>
    first_result f (map utf8 (afters info q s)) \<in> {SQLITE_MATCH, SQLITE_NOWILDCARDMATCH} \<and>
    (first_result f (map utf8 (afters info q s)) = SQLITE_MATCH \<longleftrightarrow> (\<exists>t \<in> set (afters info q s). P t))"
proof (induction s)
  case Nil
  then show ?case by (simp add: result_defs)
next
  case (Cons x s)
  then have s: "plain_text s" by simp
  show ?case
  proof (cases "same info q x")
    case False
    then have "afters info q (x # s) = afters info q s" by simp
    then show ?thesis using Cons.IH [OF s] by (simp only:)
  next
    case True
    have f: "says (f (utf8 s)) P s"
      using assms s by (simp add: all_say_def)
    then consider "f (utf8 s) = SQLITE_MATCH" "P s" | "f (utf8 s) = SQLITE_NOMATCH" "\<not> P s"
      | "f (utf8 s) = SQLITE_NOWILDCARDMATCH" "\<forall>k. \<not> P (drop k s)"
      by (auto simp: says_def result_defs)
    then show ?thesis
    proof cases
      case 3
      have "\<not> P t" if "t \<in> set (afters info q s)" for t
        using afters_suffix [OF that] 3(2) by blast
      moreover have "\<not> P s" using 3(2) by (metis drop0)
      ultimately show ?thesis
        using 3(1) True by (auto simp: result_defs)
    qed (use True Cons.IH [OF s] in \<open>auto simp: result_defs\<close>)
  qed
qed


text \<open>A literal, then a pattern.\<close>

definition literal :: "compareInfo \<Rightarrow> u32 \<Rightarrow> (u32 list \<Rightarrow> bool) \<Rightarrow> u32 list \<Rightarrow> bool" where
  "literal info q P s = (s \<noteq> [] \<and> same info q (hd s) \<and> P (tl s))"

lemma search_says:
  assumes "all_say f Q" "plain_text s" "m \<le> length s"
    "\<And>t. P t \<longleftrightarrow> (\<exists>j. m + j \<le> length t \<and> literal info q Q (drop (m + j) t))"
  shows "says (first_result f (map utf8 (afters info q (drop m s)))) P s"
proof -
  have P: "P t \<longleftrightarrow> (\<exists>u \<in> set (afters info q (drop m t)). Q u)" for t
  proof -
    have "m + j \<le> length t \<and> literal info q Q (drop (m + j) t) \<longleftrightarrow>
      j < length (drop m t) \<and> same info q (drop m t ! j) \<and> Q (drop (Suc j) (drop m t))" for j
      by (auto simp: literal_def hd_drop_conv_nth tl_drop add.commute [of j m] simp flip: drop_Suc)
    then show ?thesis
      unfolding assms(4) afters_like by metis
  qed
  have "\<not> P (drop k s)" if "\<not> P s" for k
  proof -
    have "drop m (drop k s) = drop k (drop m s)" by (simp add: add.commute)
    then show ?thesis
      using that afters_drop [of info q k "drop m s"] unfolding P by auto
  qed
  then show ?thesis
    using first_result_says [OF assms(1) plain_text_drop [OF assms(2)], of info q m]
    unfolding says_def P by (auto simp: result_defs)
qed

lemma says_step:
  assumes "says r Q xs" "P (x # xs) \<longleftrightarrow> Q xs" "\<And>t. P t \<Longrightarrow> t \<noteq> [] \<and> Q (tl t)"
  shows "says r P (x # xs)"
proof -
  have "\<not> P (drop k (x # xs))" if "\<forall>k. \<not> Q (drop k xs)" for k
  proof
    assume "P (drop k (x # xs))"
    from assms(3) [OF this] have "Q (tl (drop k (x # xs)))" by simp
    moreover have "tl (drop k (x # xs)) = drop k xs" by (simp add: tl_drop)
    ultimately show False using that by simp
  qed
  then show ?thesis
    using assms(1,2) by (auto simp: says_def)
qed

lemma says_no: "\<not> P s \<Longrightarrow> says SQLITE_NOMATCH P s"
  "\<forall>k. \<not> P (drop k s) \<Longrightarrow> says SQLITE_NOWILDCARDMATCH P s" "P s \<Longrightarrow> says SQLITE_MATCH P s"
  by (auto simp: says_def result_defs dest: spec [of _ 0])

lemma like_literal:
  "p \<noteq> ucast (matchAll info) \<Longrightarrow> p \<noteq> e \<Longrightarrow> p \<noteq> ucast (matchOne info) \<Longrightarrow>
   like info e (p # ps) s \<longleftrightarrow> literal info p (like info e ps) s"
  by (cases s) (simp_all add: like.simps literal_def)

lemma like_escaped:
  "\<not> like info e [e] s"
  "like info e (e # q # ps) s \<longleftrightarrow> literal info q (like info e ps) s"
  by (cases s; simp add: like.simps literal_def)+

text \<open>The comparison of one character.\<close>

definition accepts :: "compareInfo \<Rightarrow> bool \<Rightarrow> u32 \<Rightarrow> u32 \<Rightarrow> bool" where
  "accepts info escaped c c2 = (c = c2
     \<or> noCase info \<and> UpperToLower (ucast c) = UpperToLower (ucast c2) \<and> c < 0x80 \<and> c2 < 0x80
     \<or> c = ucast (matchOne info) \<and> \<not> escaped \<and> c2 \<noteq> 0)"

lemma accepts_0: "c \<noteq> 0 \<Longrightarrow> \<not> accepts info escaped c 0"
  using letter_0 [of c] by (auto simp: accepts_def letter_def)

lemma accepts_same:
  "x \<noteq> 0 \<Longrightarrow> accepts info escaped c x \<longleftrightarrow> same info c x \<or> c = ucast (matchOne info) \<and> \<not> escaped"
  by (auto simp: accepts_def same_def letter_def)

lemma compare_says:
  assumes "all_say f Q" "plain_text s" "c \<noteq> 0"
    "\<And>t. P t \<longleftrightarrow> t \<noteq> [] \<and> (same info c (hd t) \<or> c = ucast (matchOne info) \<and> \<not> escaped) \<and> Q (tl t)"
  shows "says (case Utf8Read (utf8 s) of (c2, z) \<Rightarrow> if accepts info escaped c c2 then f z else SQLITE_NOMATCH) P s"
proof (cases s)
  case Nil
  then show ?thesis
    using accepts_0 [OF assms(3)] assms(4) by (simp add: says_no)
next
  case (Cons x xs)
  have r: "Utf8Read (utf8 s) = (x, utf8 xs)" and x: "x \<noteq> 0" "plain_text xs"
    using assms(2) read_utf8(2) [of x xs] by (simp_all add: Cons)
  show ?thesis
  proof (cases "accepts info escaped c x")
    case True
    have "says (f (utf8 xs)) Q xs"
      using assms(1) x(2) by (simp add: all_say_def)
    then have "says (f (utf8 xs)) P (x # xs)"
      by (rule says_step) (use assms(4) accepts_same [OF x(1)] True in auto)
    then show ?thesis
      using True r by (simp add: Cons)
  next
    case False
    then have "\<not> P s"
      using assms(4) accepts_same [OF x(1)] by (simp add: Cons)
    then show ?thesis
      using False r by (simp add: says_no)
  qed
qed


lemma no_sets_tl: "no_sets info e (p # ps) \<Longrightarrow> no_sets info e ps"
  by (auto simp: no_sets_def)

lemma after_wild_parts:
  "after_wild info ps = c # cs \<Longrightarrow> \<not> wild info c \<and> set (c # cs) \<subseteq> set ps \<and> length cs < length ps"
proof -
  assume a: "after_wild info ps = c # cs"
  then have "set (c # cs) \<subseteq> set ps" "length (c # cs) \<le> length ps"
    by (metis after_wild_def set_dropWhileD subsetI, metis after_wild_def length_dropWhile_le)
  moreover have "\<not> wild info c"
    using a hd_dropWhile [of "wild info" ps] by (simp add: after_wild_def)
  ultimately show ?thesis
    by simp
qed

lemma plain_text_set: "plain_text ps \<Longrightarrow> set qs \<subseteq> set ps \<Longrightarrow> plain_text qs"
  by (auto simp: plain_text_def list_all_iff)

lemma starlike_literal:
  assumes "\<And>t. like info e cs t \<longleftrightarrow> literal info q Q t"
  shows "starlike info e cs m t \<longleftrightarrow> (\<exists>j. m + j \<le> length t \<and> literal info q Q (drop (m + j) t))"
  by (simp add: starlike_def assms)

text \<open>The search for a literal after the wildcards.\<close>

lemma candidates:
  assumes "plain_text s" "c \<noteq> 0"
  shows "(if c < 0x80 then after_bytes (stops info c) (utf8 s) else after_chars c (utf8 s)) =
    map utf8 (afters info c s)"
  using assms by (simp add: after_bytes_utf8 after_chars_utf8)

lemma compare_all:
  assumes "plain_text (ucast (matchAll info) # ps)"
  shows "patternCompare info e (utf8 (ucast (matchAll info) # ps)) z =
    (case star_skip info (utf8 ps) z of
       None \<Rightarrow> SQLITE_NOWILDCARDMATCH
     | Some (c, p, z) \<Rightarrow>
         if c = 0 then SQLITE_MATCH
         else if c = e \<and> matchSet info \<noteq> 0 then
           first_result (\<lambda>z. patternCompare info e (ucast c # p) z) (skip_suffixes z)
         else
           let (c, p) = (if c = e then sqlite3Utf8Read p else (c, p)) in
           if c = 0 then SQLITE_NOWILDCARDMATCH
           else first_result (\<lambda>z. patternCompare info e p z)
             (if c < 0x80 then after_bytes (stops info c) z else after_chars c z))"
proof -
  have "ucast (matchAll info) \<noteq> (0 :: u32)"
    using assms by simp
  then show ?thesis
    using read_utf8(2) [OF assms] unfolding stops_def by (subst patternCompare.simps) simp
qed

text \<open>The case of a \<open>matchAll\<close>, given the rests of the pattern.\<close>

lemma star_says:
  assumes "wild_ok info e" "no_sets info e ps" "plain_text (ucast (matchAll info) # ps)" "plain_text s"
    and IH: "\<And>qs. length qs < length ps \<Longrightarrow> plain_text qs \<Longrightarrow> no_sets info e qs \<Longrightarrow>
      all_say (patternCompare info e (utf8 qs)) (like info e qs)"
  shows "says (patternCompare info e (utf8 (ucast (matchAll info) # ps)) (utf8 s))
    (like info e (ucast (matchAll info) # ps)) s"
proof -
  let ?P = "like info e (ucast (matchAll info) # ps)"
  define m where "m = ones info ps"
  have P: "?P t \<longleftrightarrow> starlike info e (after_wild info ps) m t" for t
    using starlike_after_wild [OF assms(1), of ps 0 t] by (simp add: like_all [OF assms(1)] m_def)
  have ps: "plain_text ps" using assms(3) by simp
  note skip = star_skip_utf8 [OF assms(1) ps assms(4), folded m_def]
  have search: "says (first_result (\<lambda>z. patternCompare info e (utf8 qs) z)
      (if q < 0x80 then after_bytes (stops info q) (utf8 (drop m s)) else after_chars q (utf8 (drop m s)))) ?P s"
    if "m \<le> length s" "q \<noteq> 0" "length qs < length ps" "plain_text qs" "no_sets info e qs"
      "\<And>t. like info e (after_wild info ps) t \<longleftrightarrow> literal info q (like info e qs) t" for q qs
    unfolding candidates [OF plain_text_drop [OF assms(4)] that(2)]
    by (rule search_says [OF IH [OF that(3-5)] assms(4) that(1)])
      (simp add: P starlike_literal [OF that(6)])
  consider "length s < m" | "m \<le> length s" "after_wild info ps = []"
    | c cs where "m \<le> length s" "after_wild info ps = c # cs"
    by (cases "after_wild info ps") fastforce+
  then show ?thesis
  proof cases
    case 1
    have "\<not> m + j \<le> length (drop k s)" for j k
      using 1 by simp
    then have "\<forall>k. \<not> ?P (drop k s)"
      unfolding P starlike_def by blast
    then show ?thesis
      using 1 skip by (simp add: compare_all [OF assms(3)] says_no)
  next
    case 2
    then have "?P s"
      unfolding P by (auto simp: starlike_def intro: exI [of _ "length s - m"])
    then show ?thesis
      using 2 skip by (simp add: compare_all [OF assms(3)] says_no)
  next
    case 3
    note w = after_wild_parts [OF 3(2)]
    then have ne: "c \<noteq> ucast (matchAll info)" "c \<noteq> ucast (matchOne info)"
      by (simp_all add: wild_def)
    have pc: "plain_text (c # cs)" and nc: "no_sets info e (c # cs)"
      using w plain_text_set [OF ps, of "c # cs"] assms(2) by (auto simp: no_sets_def)
    have sk: "star_skip info (utf8 ps) (utf8 s) = Some (c, utf8 cs, utf8 (drop m s))"
      using 3 skip by simp
    show ?thesis
    proof (cases "c = e")
      case False
      have "like info e (after_wild info ps) t \<longleftrightarrow> literal info c (like info e cs) t" for t
        unfolding 3(2) by (rule like_literal [OF ne(1) False ne(2)])
      from search [OF 3(1) _ _ _ _ this] show ?thesis
        using False w pc no_sets_tl [OF nc] by (simp add: compare_all [OF assms(3)] sk)
    next
      case True
      then have set0: "matchSet info = 0"
        using nc by (simp add: no_sets_def)
      show ?thesis
      proof (cases cs)
        case Nil
        then have "\<forall>k. \<not> ?P (drop k s)"
          using ne True like_escaped(1) [of info e] unfolding P 3(2) by (simp add: starlike_def)
        then show ?thesis
          using Nil True pc set0 by (simp add: compare_all [OF assms(3)] sk says_no)
      next
        case (Cons q qs)
        have lit: "like info e (after_wild info ps) t \<longleftrightarrow> literal info q (like info e qs) t" for t
          unfolding 3(2) Cons True by (rule like_escaped(2))
        have q: "plain_text qs" "q \<noteq> 0" "length qs < length ps" "no_sets info e qs"
          using pc w set0 by (simp_all add: Cons no_sets_def)
        have "sqlite3Utf8Read (utf8 cs) = (q, utf8 qs)"
          using pc by (simp add: Cons del: sqlite3Utf8Read.simps)
        with search [OF 3(1) q(2,3,1,4) lit] show ?thesis
          using True pc set0 q(2) by (simp add: compare_all [OF assms(3)] sk del: sqlite3Utf8Read.simps)
      qed
    qed
  qed
qed


lemma compare_other:
  assumes "plain_text (p # ps)" "p \<noteq> ucast (matchAll info)" "no_sets info e (p # ps)"
  shows "patternCompare info e (utf8 (p # ps)) z =
    (let escaped = (p = e);
         (c, r) = (if escaped then sqlite3Utf8Read (utf8 ps) else (p, utf8 ps)) in
     if escaped \<and> c = 0 then SQLITE_NOMATCH
     else case Utf8Read z of
       (c2, z) \<Rightarrow> if accepts info escaped c c2 then patternCompare info e r z else SQLITE_NOMATCH)"
proof -
  have "\<not> (p = e \<and> matchSet info \<noteq> 0)" "p \<noteq> 0"
    using assms(1,3) by (auto simp: no_sets_def)
  then show ?thesis
    using read_utf8(2) [OF assms(1)] assms(2) unfolding accepts_def
    by (subst patternCompare.simps) (cases "p = e"; simp add: Let_def case_prod_beta)
qed

lemma pattern_says:
  assumes "wild_ok info e"
  shows "plain_text ps \<Longrightarrow> no_sets info e ps \<Longrightarrow>
    all_say (patternCompare info e (utf8 ps)) (like info e ps)"
proof (induction "length ps" arbitrary: ps rule: less_induct)
  case less
  show ?case
    unfolding all_say_def
  proof (intro allI impI)
    fix s assume s: "plain_text s"
    show "says (patternCompare info e (utf8 ps) (utf8 s)) (like info e ps) s"
    proof (cases ps)
      case Nil
      then show ?thesis
        by (simp add: patternCompare.simps [of info e "[]"] says_no)
    next
      case (Cons p qs)
      note ps = less.prems [unfolded Cons]
      have IH: "all_say (patternCompare info e (utf8 rs)) (like info e rs)"
        if "length rs < Suc (length qs)" "plain_text rs" "no_sets info e rs" for rs
        using less.hyps [of rs] that by (simp add: Cons)
      show ?thesis
      proof (cases "p = ucast (matchAll info)")
        case True
        show ?thesis
          using star_says [OF assms no_sets_tl [OF ps(2)] _ s IH] ps(1)
          unfolding Cons True by simp
      next
        case other: False
        have qs: "plain_text qs" "no_sets info e qs"
          using ps no_sets_tl by auto
        show ?thesis
        proof (cases "p = e")
          case False
          have "says (case Utf8Read (utf8 s) of (c2, z) \<Rightarrow>
              if accepts info False p c2 then patternCompare info e (utf8 qs) z else SQLITE_NOMATCH)
              (like info e (p # qs)) s"
            by (rule compare_says [OF IH [OF _ qs] s])
              (use other False ps(1) in \<open>auto simp: like.simps neq_Nil_conv split: list.splits\<close>)
          then show ?thesis
            using False unfolding Cons compare_other [OF ps(1) other ps(2)] by simp
        next
          case True
          show ?thesis
          proof (cases qs)
            case Nil
            then have "\<not> like info e (p # qs) s"
              using True other by (simp add: like_escaped)
            then show ?thesis
              using True Nil unfolding Cons compare_other [OF ps(1) other ps(2)] by (simp add: says_no)
          next
            case (Cons q rs)
            have q: "q \<noteq> 0" "plain_text rs" "no_sets info e rs"
              using qs no_sets_tl by (auto simp: Cons)
            have r: "sqlite3Utf8Read (utf8 qs) = (q, utf8 rs)"
              using qs(1) by (simp add: Cons del: sqlite3Utf8Read.simps)
            have "says (case Utf8Read (utf8 s) of (c2, z) \<Rightarrow>
                if accepts info True q c2 then patternCompare info e (utf8 rs) z else SQLITE_NOMATCH)
                (like info e (p # qs)) s"
              by (rule compare_says [OF IH [OF _ q(2,3)] s q(1)])
                (use other True in \<open>auto simp: Cons like_escaped literal_def\<close>)
            then show ?thesis
              using True q(1) unfolding \<open>ps = p # qs\<close> compare_other [OF ps(1) other ps(2)]
              by (simp add: r del: sqlite3Utf8Read.simps)
          qed
        qed
      qed
    qed
  qed
qed


text \<open>Texts as C strings.\<close>

lemma WRITE_nonzero: "scalar c \<Longrightarrow> c \<noteq> 0 \<Longrightarrow> 0 \<notin> set (WRITE_UTF8 c)"
proof (cases "c < 0x80")
  case True
  moreover assume "c \<noteq> 0"
  ultimately have "(ucast c :: byte) \<noteq> 0"
    by (simp add: word_unat_eq_iff word_less_nat_alt unat_ucast_u32_byte)
  then show ?thesis using True by (simp add: WRITE_ascii)
next
  case False
  assume "scalar c"
  then show ?thesis using WRITE_high_bytes [of c 0] False by (auto simp: word_less_nat_alt)
qed

lemma utf8_nonzero: "plain_text cs \<Longrightarrow> 0 \<notin> set (utf8 cs)"
proof (induction cs)
  case (Cons c cs)
  have c: "scalar c" "c \<noteq> 0" "plain_text cs" using Cons.prems unfolding plain_text_simps by blast+
  note WRITE_nonzero [OF c(1,2)] Cons.IH [OF c(3)]
  then show ?case unfolding utf8_Cons set_append Un_iff by blast
qed simp

lemma c_string_utf8: "plain_text cs \<Longrightarrow> c_string (utf8 cs) = utf8 cs"
  unfolding c_string_def takeWhile_eq_all_conv using utf8_nonzero [of cs] by blast

lemma one_character: "plain_text [e] \<Longrightarrow> sqlite3Utf8CharLen (utf8 [e]) (- 1) = 1"
  using CharLen_loop [of "[e]" "[]" None 0] by (simp add: sqlite3Utf8CharLen_def not_cont_def)

text \<open>Clearing the wildcard that is the escape character changes nothing in the meaning.\<close>

lemma like_without_escape:
  "e \<noteq> 0 \<Longrightarrow> 0 \<notin> set ps \<Longrightarrow> like (without_escape info e) e ps s = like info e ps s"
proof (induction info e ps s rule: like.induct)
  case (2 info e p ps s)
  have same: "same (without_escape info e) = same info"
    by (simp add: fun_eq_iff same_def without_escape_def)
  show ?case
  proof (cases "p = e")
    case True
    then show ?thesis
      using 2(1) 2(4,5) same by (cases ps; cases s) (simp_all add: like.simps(2))
  next
    case False
    then have "p = ucast (matchAll (without_escape info e)) \<longleftrightarrow> p = ucast (matchAll info)"
      "p = ucast (matchOne (without_escape info e)) \<longleftrightarrow> p = ucast (matchOne info)"
      using 2(4,5) by (auto simp: without_escape_def)
    then show ?thesis
      using 2(2,3) 2(4,5) False same by (cases s) (simp_all add: like.simps(2))
  qed
qed simp

lemma likeFunc_text:
  assumes "plain_text ps" "plain_text s" "length (utf8 ps) \<le> limit"
  shows "likeFunc info limit (Some (utf8 ps)) (Some (utf8 s)) None =
      Result (patternCompare info (ucast (matchSet info)) (utf8 ps) (utf8 s) = SQLITE_MATCH)"
    "plain_text [e] \<Longrightarrow> likeFunc info limit (Some (utf8 ps)) (Some (utf8 s)) (Some (Some (utf8 [e]))) =
      Result (patternCompare (without_escape info e) e (utf8 ps) (utf8 s) = SQLITE_MATCH)"
proof -
  show "likeFunc info limit (Some (utf8 ps)) (Some (utf8 s)) None =
      Result (patternCompare info (ucast (matchSet info)) (utf8 ps) (utf8 s) = SQLITE_MATCH)"
    using assms by (simp add: likeFunc_def c_string_utf8)
  assume e: "plain_text [e]"
  have "fst (sqlite3Utf8Read (utf8 [e])) = e" using read_utf8(3) [OF e] by (simp only: fst_conv)
  then show "likeFunc info limit (Some (utf8 ps)) (Some (utf8 s)) (Some (Some (utf8 [e]))) =
      Result (patternCompare (without_escape info e) e (utf8 ps) (utf8 s) = SQLITE_MATCH)"
    using assms one_character [OF e] c_string_utf8 [OF e]
    by (simp add: likeFunc_def c_string_utf8 del: sqlite3Utf8Read.simps)
qed

text \<open>
  C34. On well-formed UTF-8 texts and patterns within the limit, LIKE with any ESCAPE
  character, also one that is a wildcard, and without one, with and without case folding, and
  GLOB without character sets report a match exactly when the declarative meaning of the
  pattern holds, in which the escape character comes before the wildcards: the search loops
  and their early stop lose no match and invent none. The same holds for sqlite3_strlike
  without an escape character or with one that is neither % nor _, and for sqlite3_strglob.
\<close>

theorem like_and_glob_match_their_specification:
  assumes "plain_text ps" "plain_text s" "plain_text [e]" "length (utf8 ps) \<le> limit"
  shows "likeFunc likeInfoNorm limit (Some (utf8 ps)) (Some (utf8 s)) (Some (Some (utf8 [e]))) =
      Result (like likeInfoNorm e ps s) \<and>
    likeFunc likeInfoAlt limit (Some (utf8 ps)) (Some (utf8 s)) (Some (Some (utf8 [e]))) =
      Result (like likeInfoAlt e ps s) \<and>
    likeFunc likeInfoNorm limit (Some (utf8 ps)) (Some (utf8 s)) None = Result (like likeInfoNorm 0 ps s) \<and>
    likeFunc likeInfoAlt limit (Some (utf8 ps)) (Some (utf8 s)) None = Result (like likeInfoAlt 0 ps s) \<and>
    (e \<noteq> 37 \<and> e \<noteq> 95 \<longrightarrow>
      (sqlite3_strlike (Some (utf8 ps)) (Some (utf8 s)) e = 0 \<longleftrightarrow> like likeInfoNorm e ps s)) \<and>
    (sqlite3_strlike (Some (utf8 ps)) (Some (utf8 s)) 0 = 0 \<longleftrightarrow> like likeInfoNorm 0 ps s) \<and>
    (91 \<notin> set ps \<longrightarrow>
      likeFunc globInfo limit (Some (utf8 ps)) (Some (utf8 s)) None = Result (like globInfo 91 ps s) \<and>
      (sqlite3_strglob (Some (utf8 ps)) (Some (utf8 s)) = 0 \<longleftrightarrow> like globInfo 91 ps s))"
proof -
  have spec: "patternCompare info d (utf8 ps) (utf8 s) = SQLITE_MATCH \<longleftrightarrow> like info d ps s"
    if "wild_ok info d" "no_sets info d ps" for info d
    using pattern_says [OF that(1) assms(1) that(2)] assms(2) by (simp add: all_say_def says_def)
  have e: "e \<noteq> 0" and ps: "0 \<notin> set ps" using assms(1,3) by (auto simp: plain_text_def list_all_iff)
  have wild: "wild_ok likeInfoNorm 0" "wild_ok likeInfoAlt 0" "wild_ok globInfo 91"
    "e \<noteq> 37 \<and> e \<noteq> 95 \<Longrightarrow> wild_ok likeInfoNorm e"
    "wild_ok (without_escape likeInfoNorm e) e" "wild_ok (without_escape likeInfoAlt e) e"
    using e by (simp_all add: wild_ok_def likeInfoNorm_def likeInfoAlt_def globInfo_def without_escape_def)
  moreover have "no_sets likeInfoNorm d ps" "no_sets likeInfoAlt d ps" "no_sets (without_escape likeInfoNorm d) d ps"
    "no_sets (without_escape likeInfoAlt d) d ps" "91 \<notin> set ps \<Longrightarrow> no_sets globInfo 91 ps" for d
    by (simp_all add: no_sets_def likeInfoNorm_def likeInfoAlt_def without_escape_def)
  moreover have "matchSet likeInfoNorm = 0" "matchSet likeInfoAlt = 0" "matchSet globInfo = 91"
    by (simp_all add: likeInfoNorm_def likeInfoAlt_def globInfo_def)
  ultimately show ?thesis
    using spec likeFunc_text [OF assms(1,2,4)] assms(3) like_without_escape [OF e ps]
    by (simp add: sqlite3_strlike_def sqlite3_strglob_def SQLITE_MATCH_def)
qed

text \<open>\<open>a%_\<close> against \<open>Abc\<close>; \<open>a%%\<close> against \<open>a%\<close> and \<open>abc\<close>, where the percent sign is the escape character.\<close>

theorem like_and_glob_match_their_specification_witness:
  "sqlite3_strlike (Some (utf8 [97, 37, 95])) (Some (utf8 [65, 98, 99])) 92 = 0 \<and>
   likeFunc likeInfoNorm 9 (Some (utf8 [97, 37, 37])) (Some (utf8 [97, 37])) (Some (Some (utf8 [37]))) = Result True \<and>
   likeFunc likeInfoNorm 9 (Some (utf8 [97, 37, 37])) (Some (utf8 [97, 98, 99])) (Some (Some (utf8 [37]))) = Result False"
proof -
  have texts: "plain_text [97, 37, 95]" "plain_text [65, 98, 99]" "plain_text [97, 37, 37]" "plain_text [97, 37]"
    "plain_text [97, 98, 99]" "plain_text [92]" "plain_text [37]"
    by (simp_all add: scalar_def)
  have bytes: "length (utf8 [97, 37, 95]) \<le> 9" "length (utf8 [97, 37, 37]) \<le> 9"
    by (simp_all add: utf8_Cons WRITE_ascii)
  have "like likeInfoNorm 92 [97, 37, 95] [65, 98, 99]" "like likeInfoNorm 37 [97, 37, 37] [97, 37]"
    "\<not> like likeInfoNorm 37 [97, 37, 37] [97, 98, 99]"
    by code_simp+
  then show ?thesis
    using like_and_glob_match_their_specification [OF texts(1,2,6) bytes(1)]
      like_and_glob_match_their_specification [OF texts(3,4,7) bytes(2)]
      like_and_glob_match_their_specification [OF texts(3,5,7) bytes(2)] by simp
qed

text \<open>\<open>sqlite3_strlike\<close> does not clear the wildcards: it takes the escape character \<open>%\<close> for a wildcard.\<close>

lemma strlike_percent_escape:
  "sqlite3_strlike (Some (utf8 [97, 37, 37])) (Some (utf8 [97, 98, 99])) 37 = 0 \<and>
   \<not> like likeInfoNorm 37 [97, 37, 37] [97, 98, 99]"
  by code_simp

end
