(* ===== verification/Sqlite_Complete.thy ===== *)
theory Sqlite_Complete
  imports Sqlite_Chars
begin

text \<open>
  \<open>sqlite3_complete\<close> of the bundled SQLite (the \<open>complete.c\<close> part of
  \<open>native/sqlite3/sqlite3.c\<close>): the reading of a token and the state machine that recognises
  the end of a statement. A C string is the list of its bytes without the terminator, read by
  \<open>cstr\<close> as 0 beyond its end.
\<close>

section \<open>Tokens\<close>

datatype token = tkSEMI | tkWS | tkOTHER | tkEXPLAIN | tkCREATE | tkTEMP | tkTRIGGER | tkEND

fun tk :: "token \<Rightarrow> nat" where
  "tk tkSEMI = 0" | "tk tkWS = 1" | "tk tkOTHER = 2" | "tk tkEXPLAIN = 3"
| "tk tkCREATE = 4" | "tk tkTEMP = 5" | "tk tkTRIGGER = 6" | "tk tkEND = 7"

definition trans :: "nat list list" where
  "trans =
    [[1, 0, 2, 3, 4, 2, 2, 2],
     [1, 1, 2, 3, 4, 2, 2, 2],
     [1, 2, 2, 2, 2, 2, 2, 2],
     [1, 3, 3, 2, 4, 2, 2, 2],
     [1, 4, 2, 2, 2, 4, 5, 2],
     [6, 5, 5, 5, 5, 5, 5, 5],
     [6, 6, 5, 5, 5, 5, 5, 7],
     [1, 7, 5, 5, 5, 5, 5, 5]]"

definition step :: "nat \<Rightarrow> token \<Rightarrow> nat" where
  "step state t = trans ! state ! tk t"

text \<open>
  A round of the loop: the token and the text after it, or one of the two returns from inside
  the loop, \<open>return 0\<close> and \<open>return state==1\<close>.
\<close>

datatype reading = Token token "byte list" | Return_0 | Return_state

text \<open>The loop that looks for the end of a C-style comment.\<close>

fun comment_end :: "byte list \<Rightarrow> byte list" where
  "comment_end [] = []"
| "comment_end (a # z) = (if a \<noteq> 42 \<or> cstr z 0 \<noteq> 47 then comment_end z else a # z)"

definition kw_create :: "byte list" where "kw_create = [99, 114, 101, 97, 116, 101]"
definition kw_trigger :: "byte list" where "kw_trigger = [116, 114, 105, 103, 103, 101, 114]"
definition kw_temp :: "byte list" where "kw_temp = [116, 101, 109, 112]"
definition kw_temporary :: "byte list" where
  "kw_temporary = [116, 101, 109, 112, 111, 114, 97, 114, 121]"
definition kw_end :: "byte list" where "kw_end = [101, 110, 100]"
definition kw_explain :: "byte list" where "kw_explain = [101, 120, 112, 108, 97, 105, 110]"

text \<open>The token of a word of \<open>nId\<close> bytes.\<close>

definition keyword_token :: "byte list \<Rightarrow> nat \<Rightarrow> token" where
  "keyword_token z nId =
     (let c = cstr z 0; is = (\<lambda>w. sqlite3_strnicmp (Some z) (Some w) (int (length w)) = 0) in
      if c = 99 \<or> c = 67 then
        (if nId = 6 \<and> is kw_create then tkCREATE else tkOTHER)
      else if c = 116 \<or> c = 84 then
        (if nId = 7 \<and> is kw_trigger then tkTRIGGER
         else if nId = 4 \<and> is kw_temp then tkTEMP
         else if nId = 9 \<and> is kw_temporary then tkTEMP
         else tkOTHER)
      else if c = 101 \<or> c = 69 then
        (if nId = 3 \<and> is kw_end then tkEND
         else if nId = 7 \<and> is kw_explain then tkEXPLAIN
         else tkOTHER)
      else tkOTHER)"

text \<open>The body of the loop for \<open>*zSql = c\<close> and the text \<open>z\<close> after it.\<close>

definition read_token :: "byte \<Rightarrow> byte list \<Rightarrow> reading" where
  "read_token c z =
     (if c = 59 then Token tkSEMI z
      else if c \<in> {32, 13, 9, 10, 12} then Token tkWS z
      else if c = 47 then
        (if cstr z 0 \<noteq> 42 then Token tkOTHER z
         else let r = comment_end (drop 1 z) in
           if r = [] then Return_0 else Token tkWS (drop 2 r))
      else if c = 45 then
        (if cstr z 0 \<noteq> 45 then Token tkOTHER z
         else let r = dropWhile (\<lambda>b. b \<noteq> 10) (c # z) in
           if r = [] then Return_state else Token tkWS (tl r))
      else if c = 91 then
        (let r = dropWhile (\<lambda>b. b \<noteq> 93) z in
         if r = [] then Return_0 else Token tkOTHER (tl r))
      else if c = 96 \<or> c = 34 \<or> c = 39 then
        (let r = dropWhile (\<lambda>b. b \<noteq> c) z in
         if r = [] then Return_0 else Token tkOTHER (tl r))
      else if IdChar c then
        (let nId = 1 + length (takeWhile IdChar z) in
         Token (keyword_token (c # z) nId) (drop nId (c # z)))
      else Token tkOTHER z)"

lemma comment_end_le: "length (comment_end z) \<le> length z"
  by (induction z) auto

lemma read_token_le: "read_token c z = Token t r \<Longrightarrow> length r \<le> length z"
  using comment_end_le [of "drop 1 z"] length_dropWhile_le [of "\<lambda>b. b \<noteq> 10" "z"]
    length_dropWhile_le [of "\<lambda>b. b \<noteq> 93" z] length_dropWhile_le [of "\<lambda>b. b \<noteq> c" z]
  by (auto simp: read_token_def Let_def split: if_splits)

function complete_loop :: "nat \<Rightarrow> byte list \<Rightarrow> bool" where
  "complete_loop state [] = (state = 1)"
| "complete_loop state (c # z) =
     (case read_token c z of
        Return_0 \<Rightarrow> False
      | Return_state \<Rightarrow> state = 1
      | Token t r \<Rightarrow> complete_loop (step state t) r)"
  by pat_completeness auto
termination
  by (relation "measure (\<lambda>(s, z). length z)") (auto simp: less_Suc_eq_le dest: read_token_le)

definition sqlite3_complete :: "byte list \<Rightarrow> bool" where
  "sqlite3_complete zSql = complete_loop 0 zSql"

section \<open>What a complete text is\<close>

text \<open>The tokens of a text, and whether it ends inside a comment, a name or a string.\<close>

function tokens :: "byte list \<Rightarrow> token list \<times> bool" where
  "tokens [] = ([], False)"
| "tokens (c # z) =
     (case read_token c z of
        Return_0 \<Rightarrow> ([], True)
      | Return_state \<Rightarrow> ([], False)
      | Token t r \<Rightarrow> (case tokens r of (ts, b) \<Rightarrow> (t # ts, b)))"
  by pat_completeness auto
termination
  by (relation "measure length") (auto simp: less_Suc_eq_le dest: read_token_le)

text \<open>After the semicolon of an ordinary statement.\<close>

fun after_semi :: "token list \<Rightarrow> token list option" where
  "after_semi [] = None"
| "after_semi (t # ts) = (if t = tkSEMI then Some ts else after_semi ts)"

text \<open>After the first \<open>;END;\<close>.\<close>

fun after_end :: "token list \<Rightarrow> token list option" where
  "after_end (tkSEMI # tkEND # tkSEMI # ts) = Some ts"
| "after_end (t # ts) = after_end ts"
| "after_end [] = None"

text \<open>
  The body of a trigger definition: \<open>CREATE\<close>, any \<open>TEMP\<close> and \<open>TRIGGER\<close>, after an optional
  \<open>EXPLAIN\<close> with other words behind it.
\<close>

definition create_trigger :: "token list \<Rightarrow> token list option" where
  "create_trigger ts =
     (case ts of tkCREATE # us \<Rightarrow>
        (case dropWhile (\<lambda>t. t = tkTEMP) us of tkTRIGGER # vs \<Rightarrow> Some vs | _ \<Rightarrow> None)
      | _ \<Rightarrow> None)"

definition trigger_body :: "token list \<Rightarrow> token list option" where
  "trigger_body ts =
     create_trigger (case ts of tkEXPLAIN # us \<Rightarrow> dropWhile (\<lambda>t. t = tkOTHER) us | _ \<Rightarrow> ts)"

definition after_statement :: "token list \<Rightarrow> token list option" where
  "after_statement ts =
     (case trigger_body ts of Some us \<Rightarrow> after_end us | None \<Rightarrow> after_semi ts)"


lemma after_semi_less: "after_semi ts = Some us \<Longrightarrow> length us < length ts"
  by (induction ts) (auto split: if_splits)

lemma after_end_less: "after_end ts = Some us \<Longrightarrow> length us < length ts"
  by (induction ts rule: after_end.induct) auto

lemma create_trigger_less: "create_trigger ts = Some us \<Longrightarrow> length us < length ts"
proof -
  assume c: "create_trigger ts = Some us"
  then obtain vs where vs: "ts = tkCREATE # vs" "dropWhile (\<lambda>t. t = tkTEMP) vs = tkTRIGGER # us"
    by (auto simp: create_trigger_def split: list.splits token.splits)
  then show ?thesis
    using length_dropWhile_le [of "\<lambda>t. t = tkTEMP" vs] by simp
qed

lemma trigger_body_less: "trigger_body ts = Some us \<Longrightarrow> length us < length ts"
proof -
  assume t: "trigger_body ts = Some us"
  have "length (case ts of tkEXPLAIN # us \<Rightarrow> dropWhile (\<lambda>t. t = tkOTHER) us | _ \<Rightarrow> ts) \<le> length ts"
    by (auto split: list.splits token.splits intro: le_SucI length_dropWhile_le)
  then show ?thesis
    using create_trigger_less t unfolding trigger_body_def by (meson less_le_trans)
qed

lemma after_statement_less: "after_statement ts = Some us \<Longrightarrow> length us < length ts"
  by (auto simp: after_statement_def dest!: after_semi_less after_end_less trigger_body_less split: option.splits)

text \<open>A text is complete when it consists of one or more whole statements.\<close>

function statements :: "token list \<Rightarrow> bool" where
  "statements ts = (case after_statement ts of None \<Rightarrow> False | Some us \<Rightarrow> us = [] \<or> statements us)"
  by pat_completeness auto
termination
  by (relation "measure length") (auto dest: after_statement_less)

declare statements.simps [simp del]

section \<open>The state machine\<close>

definition ends :: "nat \<Rightarrow> token list \<Rightarrow> bool" where
  "ends state ts = (foldl step state ts = 1)"

text \<open>\<open>m\<close> gives the rest of the tokens after which the machine is back in its start state.\<close>

definition rest_ends :: "token list option \<Rightarrow> bool" where
  "rest_ends m = (case m of None \<Rightarrow> False | Some us \<Rightarrow> ends 1 us)"

definition no_ws :: "token list \<Rightarrow> bool" where
  "no_ws ts = (tkWS \<notin> set ts)"

lemma ends_simps [simp]:
  "ends s [] = (s = 1)" "ends s (t # ts) = ends (step s t) ts"
  "rest_ends None = False" "rest_ends (Some us) = ends 1 us"
  "no_ws []" "no_ws (t # ts) \<longleftrightarrow> t \<noteq> tkWS \<and> no_ws ts"
  by (auto simp: ends_def rest_ends_def no_ws_def)

lemma step_simps [simp]:
  "step 0 t = (case t of tkSEMI \<Rightarrow> 1 | tkWS \<Rightarrow> 0 | tkEXPLAIN \<Rightarrow> 3 | tkCREATE \<Rightarrow> 4 | _ \<Rightarrow> 2)"
  "step (Suc 0) t = (case t of tkSEMI \<Rightarrow> 1 | tkWS \<Rightarrow> 1 | tkEXPLAIN \<Rightarrow> 3 | tkCREATE \<Rightarrow> 4 | _ \<Rightarrow> 2)"
  "step 2 t = (case t of tkSEMI \<Rightarrow> 1 | _ \<Rightarrow> 2)"
  "step 3 t = (case t of tkSEMI \<Rightarrow> 1 | tkWS \<Rightarrow> 3 | tkOTHER \<Rightarrow> 3 | tkCREATE \<Rightarrow> 4 | _ \<Rightarrow> 2)"
  "step 4 t = (case t of tkSEMI \<Rightarrow> 1 | tkWS \<Rightarrow> 4 | tkTEMP \<Rightarrow> 4 | tkTRIGGER \<Rightarrow> 5 | _ \<Rightarrow> 2)"
  "step 5 t = (case t of tkSEMI \<Rightarrow> 6 | _ \<Rightarrow> 5)"
  "step 6 t = (case t of tkSEMI \<Rightarrow> 6 | tkWS \<Rightarrow> 6 | tkEND \<Rightarrow> 7 | _ \<Rightarrow> 5)"
  "step 7 t = (case t of tkSEMI \<Rightarrow> 1 | tkWS \<Rightarrow> 7 | _ \<Rightarrow> 5)"
  by (cases t; simp add: step_def trans_def)+

lemma ends_normal: "no_ws ts \<Longrightarrow> ends 2 ts \<longleftrightarrow> rest_ends (after_semi ts)"
proof (induction ts)
  case (Cons t ts)
  then show ?case by (cases t) simp_all
qed simp

lemma ends_trigger: "no_ws ts \<Longrightarrow> (ends 5 ts \<longleftrightarrow> rest_ends (after_end ts)) \<and>
  (ends 6 ts \<longleftrightarrow> rest_ends (after_end (tkSEMI # ts))) \<and>
  (ends 7 ts \<longleftrightarrow> rest_ends (after_end (tkSEMI # tkEND # ts)))"
proof (induction ts)
  case (Cons t ts)
  have tl: "t \<noteq> tkSEMI \<Longrightarrow> after_end (t # ts) = after_end ts" for t ts
    by (cases t) simp_all
  show ?case
    using Cons by (cases t) (simp_all add: tl)
qed simp

lemma create_trigger_simps:
  "create_trigger (tkCREATE # tkTEMP # ts) = create_trigger (tkCREATE # ts)"
  "create_trigger (tkCREATE # tkTRIGGER # ts) = Some ts"
  "create_trigger [tkCREATE] = None" "create_trigger [] = None"
  "t \<noteq> tkTEMP \<Longrightarrow> t \<noteq> tkTRIGGER \<Longrightarrow> create_trigger (tkCREATE # t # ts) = None"
  "t \<noteq> tkCREATE \<Longrightarrow> create_trigger (t # ts) = None"
  by (cases t; simp add: create_trigger_def)+

definition ends_after :: "token list option \<Rightarrow> token list \<Rightarrow> bool" where
  "ends_after body ts =
     (case body of Some us \<Rightarrow> rest_ends (after_end us) | None \<Rightarrow> rest_ends (after_semi ts))"

lemma ends_create: "no_ws ts \<Longrightarrow> ends 4 ts \<longleftrightarrow> ends_after (create_trigger (tkCREATE # ts)) ts"
proof (induction ts)
  case Nil
  then show ?case by (simp add: create_trigger_simps ends_after_def)
next
  case (Cons t ts)
  have IH: "ends 4 ts \<longleftrightarrow> ends_after (create_trigger (tkCREATE # ts)) ts"
    using Cons by simp
  show ?case
    using Cons.prems IH ends_normal [of ts] ends_trigger [of ts]
    by (cases t) (simp_all add: create_trigger_simps ends_after_def split: option.splits)
qed

lemma ends_explain:
  "no_ws ts \<Longrightarrow> ends 3 ts \<longleftrightarrow> ends_after (create_trigger (dropWhile (\<lambda>t. t = tkOTHER) ts)) ts"
proof (induction ts)
  case Nil
  then show ?case by (simp add: create_trigger_simps ends_after_def)
next
  case (Cons t ts)
  have IH: "ends 3 ts \<longleftrightarrow> ends_after (create_trigger (dropWhile (\<lambda>t. t = tkOTHER) ts)) ts"
    using Cons by simp
  have c: "ends_after b (t # ts) = ends_after b ts" if "t \<noteq> tkSEMI" for b
    using that by (simp add: ends_after_def split: option.split)
  show ?case
    using Cons.prems IH c ends_normal [of ts] ends_create [of ts]
    by (cases t) (simp_all add: create_trigger_simps, simp_all add: ends_after_def)
qed

lemma ends_start: "no_ws ts \<Longrightarrow> ends 1 ts \<longleftrightarrow> ts = [] \<or> rest_ends (after_statement ts)"
proof (cases ts)
  case (Cons t us)
  assume "no_ws ts"
  then have us: "no_ws us" "t \<noteq> tkWS" by (simp_all add: Cons)
  have a: "rest_ends (after_statement ts) \<longleftrightarrow> ends_after (trigger_body ts) ts"
    by (simp add: after_statement_def ends_after_def split: option.split)
  show ?thesis
    unfolding a
    using us ends_normal [OF us(1)] ends_create [OF us(1)] ends_explain [OF us(1)]
    by (cases t) (simp_all add: Cons trigger_body_def create_trigger_simps ends_after_def split: option.splits)
qed simp

lemma after_set:
  "after_semi ts = Some us \<Longrightarrow> set us \<subseteq> set ts" "after_end ts = Some us \<Longrightarrow> set us \<subseteq> set ts"
proof -
  show "after_semi ts = Some us \<Longrightarrow> set us \<subseteq> set ts"
    by (induction ts) (auto split: if_splits)
  show "after_end ts = Some us \<Longrightarrow> set us \<subseteq> set ts"
    by (induction ts rule: after_end.induct) auto
qed

lemma create_trigger_set: "create_trigger ts = Some us \<Longrightarrow> set us \<subseteq> set ts"
proof -
  assume c: "create_trigger ts = Some us"
  then obtain vs where vs: "ts = tkCREATE # vs" "dropWhile (\<lambda>t. t = tkTEMP) vs = tkTRIGGER # us"
    by (auto simp: create_trigger_def split: list.splits token.splits)
  have "set us \<subseteq> set (dropWhile (\<lambda>t. t = tkTEMP) vs)"
    by (auto simp: vs(2))
  then show ?thesis
    using vs(1) by (auto dest: set_dropWhileD)
qed

lemma trigger_body_set: "trigger_body ts = Some us \<Longrightarrow> set us \<subseteq> set ts"
proof -
  assume t: "trigger_body ts = Some us"
  have "set (case ts of tkEXPLAIN # us \<Rightarrow> dropWhile (\<lambda>t. t = tkOTHER) us | _ \<Rightarrow> ts) \<subseteq> set ts"
    by (auto split: list.splits token.splits dest: set_dropWhileD)
  then show ?thesis
    using create_trigger_set t unfolding trigger_body_def by (meson subset_trans)
qed

lemma no_ws_after: "no_ws ts \<Longrightarrow> after_statement ts = Some us \<Longrightarrow> no_ws us"
  using after_set [of ts us] after_set(2) [of _ us] trigger_body_set [of ts]
  by (fastforce simp: no_ws_def after_statement_def split: option.splits)

lemma no_statement: "\<not> statements []"
  by (simp add: statements.simps after_statement_def trigger_body_def create_trigger_simps)

lemma ends_statements: "no_ws ts \<Longrightarrow> ts \<noteq> [] \<Longrightarrow> ends 1 ts \<longleftrightarrow> statements ts"
proof (induction ts rule: statements.induct)
  case (1 ts)
  show ?case
  proof (cases "after_statement ts")
    case None
    then show ?thesis
      using ends_start [OF "1.prems"(1)] "1.prems"(2) by (simp add: statements.simps [of ts])
  next
    case (Some us)
    then show ?thesis
      using ends_start [OF "1.prems"(1)] "1.prems"(2) "1.IH" [OF Some] no_ws_after [OF "1.prems"(1) Some]
      by (cases "us = []") (simp_all add: statements.simps [of ts])
  qed
qed

lemma ends_from_0: "no_ws ts \<Longrightarrow> ends 0 ts \<longleftrightarrow> statements ts"
proof (cases ts)
  case Nil
  then show ?thesis by (simp add: no_statement)
next
  case (Cons t us)
  assume "no_ws ts"
  moreover from this have "step 0 t = step 1 t"
    by (cases t) (simp_all add: Cons)
  ultimately show ?thesis
    using ends_statements [of ts] by (simp add: Cons)
qed

text \<open>White space does not change the state.\<close>

definition states :: "nat set" where "states = {0, 1, 2, 3, 4, 5, 6, 7}"

lemma step_states: "s \<in> states \<Longrightarrow> step s t \<in> states \<and> step s tkWS = s"
  unfolding states_def by (cases t) auto

lemma ends_ws: "s \<in> states \<Longrightarrow> ends s (filter (\<lambda>t. t \<noteq> tkWS) ts) = ends s ts"
proof (induction ts arbitrary: s)
  case (Cons t ts)
  then show ?case
    using step_states [OF Cons.prems, of t] step_states [OF Cons.prems, of tkWS]
    by (cases "t = tkWS") (simp_all del: step_simps)
qed simp

lemma complete_loop_tokens:
  "s \<in> states \<Longrightarrow> complete_loop s z \<longleftrightarrow> \<not> snd (tokens z) \<and> ends s (fst (tokens z))"
proof (induction s z rule: complete_loop.induct)
  case (2 s c z)
  then show ?case
    using step_states by (auto simp del: step_simps split: reading.splits prod.splits)
qed simp

text \<open>
  C35. sqlite3_complete accepts a text exactly when no comment, quoted name or string is left
  open in it and its significant tokens are one or more whole statements, where a trigger
  definition, also behind EXPLAIN and TEMP, ends only at ;END; and any other statement at its
  first semicolon.
\<close>

theorem complete_recognises_statements:
  "sqlite3_complete zSql \<longleftrightarrow>
     \<not> snd (tokens zSql) \<and> statements (filter (\<lambda>t. t \<noteq> tkWS) (fst (tokens zSql)))"
proof -
  have "no_ws (filter (\<lambda>t. t \<noteq> tkWS) (fst (tokens zSql)))" "0 \<in> states"
    by (simp_all add: no_ws_def states_def)
  then show ?thesis
    using complete_loop_tokens [of 0 zSql] ends_ws [of 0 "fst (tokens zSql)"]
      ends_from_0 [of "filter (\<lambda>t. t \<noteq> tkWS) (fst (tokens zSql))"]
    by (simp add: sqlite3_complete_def)
qed


section \<open>Every text can be completed\<close>

text \<open>\<open>;END;\<close>, after what ends an open comment, name or string.\<close>

definition semi_end_semi :: "byte list" where "semi_end_semi = [59, 69, 78, 68, 59]"

function closing :: "byte list \<Rightarrow> byte list" where
  "closing [] = semi_end_semi"
| "closing (c # z) =
     (case read_token c z of
        Token t r \<Rightarrow> closing r
      | Return_0 \<Rightarrow> (if c = 47 then [42, 47] else if c = 91 then [93] else [c]) @ semi_end_semi
      | Return_state \<Rightarrow> 10 # semi_end_semi)"
  by pat_completeness auto
termination
  by (relation "measure length") (auto simp: less_Suc_eq_le dest: read_token_le)

lemma comment_end_found: "comment_end z \<noteq> [] \<Longrightarrow> comment_end (z @ y) = comment_end z @ y"
proof (induction z)
  case (Cons a z)
  then show ?case by (cases z) (auto simp: cstr_def split: if_splits)
qed simp

lemma comment_end_open: "comment_end z = [] \<Longrightarrow> comment_end (z @ 42 # 47 # y) = 42 # 47 # y"
proof (induction z)
  case (Cons a z)
  then show ?case by (cases z) (auto simp: cstr_def split: if_splits)
qed (simp add: cstr_def)

lemma dropWhile_found: "dropWhile P z \<noteq> [] \<Longrightarrow> dropWhile P (z @ y) = dropWhile P z @ y"
  by (induction z) auto

lemma dropWhile_open: "dropWhile P z = [] \<Longrightarrow> \<not> P a \<Longrightarrow> dropWhile P (z @ a # y) = a # y"
  by (induction z) (auto split: if_splits)

lemma strnicmp_append: "n \<le> length z \<Longrightarrow> strnicmp_loop n (z @ y) w = strnicmp_loop n z w"
proof (induction n z w rule: strnicmp_loop.induct)
  case (4 n bs)
  then show ?case by simp
qed auto

lemma keyword_append:
  "nId \<le> length z \<Longrightarrow> z \<noteq> [] \<Longrightarrow> keyword_token (z @ y) nId = keyword_token z nId"
proof -
  assume n: "nId \<le> length z" "z \<noteq> []"
  have c: "cstr (z @ y) 0 = cstr z 0"
    using n by (simp add: cstr_def nth_append)
  have w: "length w = k \<Longrightarrow> (nId = k \<and> sqlite3_strnicmp (Some (z @ y)) (Some w) (int (length w)) = 0) =
    (nId = k \<and> sqlite3_strnicmp (Some z) (Some w) (int (length w)) = 0)" for w k
    using n strnicmp_append [of "length w" z y w] by (auto simp: sqlite3_strnicmp_def)
  have l: "length kw_create = 6" "length kw_trigger = 7" "length kw_temp = 4" "length kw_temporary = 9"
    "length kw_end = 3" "length kw_explain = 7"
    by (simp_all add: kw_create_def kw_trigger_def kw_temp_def kw_temporary_def kw_end_def kw_explain_def)
  note k = w [OF l(1)] w [OF l(2)] w [OF l(3)] w [OF l(4)] w [OF l(5)] w [OF l(6)]
  show ?thesis
    unfolding keyword_token_def Let_def c k ..
qed

lemma takeWhile_length_append:
  "drop (length (takeWhile P z)) z \<noteq> [] \<or> y \<noteq> [] \<and> \<not> P (hd y) \<Longrightarrow> takeWhile P (z @ y) = takeWhile P z"
  by (induction z) (auto simp: neq_Nil_conv)

lemma cstr_append: "z \<noteq> [] \<Longrightarrow> cstr (z @ y) 0 = cstr z 0"
  by (simp add: cstr_def nth_append)

lemma read_token_append:
  assumes "read_token c z = Token t r" "r \<noteq> [] \<or> y \<noteq> [] \<and> hd y = 59"
  shows "read_token c (z @ y) = Token t (r @ y)"
proof -
  have first: "cstr (z @ y) 0 \<noteq> b" if f: "cstr z 0 \<noteq> b" "r = z" "b \<noteq> 59" for b
  proof (cases z)
    case Nil
    then obtain y' where "y = 59 # y'" using f(2) assms(2) by (cases y) auto
    then show ?thesis using f(3) Nil by (simp add: cstr_def)
  next
    case (Cons d z')
    then show ?thesis using f(1) by (simp add: cstr_def)
  qed
  have id: "\<not> IdChar 59" by code_simp
  consider "c = 59 \<or> c = 32 \<or> c = 13 \<or> c = 9 \<or> c = 10 \<or> c = 12" | "c = 47" | "c = 45" | "c = 91"
    | "c = 96 \<or> c = 34 \<or> c = 39" | "c \<notin> {59, 32, 13, 9, 10, 12, 47, 45, 91, 96, 34, 39}"
    by blast
  then show ?thesis
  proof cases
    case 1
    then show ?thesis using assms(1) by (elim disjE; simp add: read_token_def)
  next
    case 2
    show ?thesis
    proof (cases "cstr z 0 = 42")
      case True
      then obtain w where w: "z = 42 # w" by (cases z) (auto simp: cstr_def)
      have "comment_end w \<noteq> []" "r = drop 2 (comment_end w)" "t = tkWS"
        using 2 True assms(1) by (auto simp: read_token_def w Let_def split: if_splits)
      moreover from this(1) have "\<exists>x. comment_end w = 42 # 47 # x"
        by (induction w) (auto simp: cstr_def neq_Nil_conv split: if_splits list.splits)
      ultimately show ?thesis
        using 2 True comment_end_found [of w y] by (auto simp: read_token_def w cstr_def Let_def)
    next
      case False
      then have "t = tkOTHER" "r = z" using 2 assms(1) by (simp_all add: read_token_def)
      then show ?thesis using 2 first [OF False] by (simp add: read_token_def)
    qed
  next
    case 3
    show ?thesis
    proof (cases "cstr z 0 = 45")
      case True
      then have z: "z \<noteq> []" by (auto simp: cstr_def)
      have "dropWhile (\<lambda>b. b \<noteq> 10) z \<noteq> []" "r = tl (dropWhile (\<lambda>b. b \<noteq> 10) z)" "t = tkWS"
        using 3 True assms(1) by (auto simp: read_token_def Let_def split: if_splits)
      then show ?thesis
        using 3 True dropWhile_found [of "\<lambda>b. b \<noteq> 10" z y] z by (simp add: read_token_def cstr_append Let_def)
    next
      case False
      then have "t = tkOTHER" "r = z" using 3 assms(1) by (simp_all add: read_token_def)
      then show ?thesis using 3 first [OF False] by (simp add: read_token_def)
    qed
  next
    case 4
    then show ?thesis
      using assms(1) dropWhile_found [of "\<lambda>b. b \<noteq> 93" z y] by (auto simp: read_token_def Let_def split: if_splits)
  next
    case 5
    then have q: "read_token c w = (let r = dropWhile (\<lambda>b. b \<noteq> c) w in
      if r = [] then Return_0 else Token tkOTHER (tl r))" for w
      by (elim disjE; simp add: read_token_def)
    show ?thesis
      using assms(1) dropWhile_found [of "\<lambda>b. b \<noteq> c" z y] by (simp add: q Let_def split: if_splits)
  next
    case 6
    show ?thesis
    proof (cases "IdChar c")
      case True
      define n where "n = length (takeWhile IdChar z)"
      have n: "n \<le> length z" by (simp add: n_def length_takeWhile_le)
      have r: "t = keyword_token (c # z) (1 + n)" "r = drop n z"
        using 6 True assms(1) by (simp_all add: read_token_def n_def)
      have "takeWhile IdChar (z @ y) = takeWhile IdChar z"
        using assms(2) id r(2) by (intro takeWhile_length_append) (auto simp: n_def)
      then show ?thesis
        using 6 True r n keyword_append [of "1 + n" "c # z" y] by (simp add: read_token_def n_def [symmetric])
    next
      case False
      then show ?thesis
        using 6 assms(1) by (simp add: read_token_def)
    qed
  qed
qed


lemma semi_end_semi_completes: "s \<in> states \<Longrightarrow> complete_loop s semi_end_semi"
proof -
  have "list_all (\<lambda>s. complete_loop s semi_end_semi) [0, 1, 2, 3, 4, 5, 6, 7]"
    by code_simp
  then show "s \<in> states \<Longrightarrow> complete_loop s semi_end_semi"
    by (auto simp: states_def)
qed

lemma closing_Nil_hd: "closing [] \<noteq> [] \<and> hd (closing []) = 59"
  by (simp add: semi_end_semi_def)

lemma read_token_open:
  assumes "read_token c z = Return_0"
  shows "\<exists>t. read_token c (z @ closing (c # z)) = Token t semi_end_semi"
proof -
  consider "c = 47" "cstr z 0 = 42" "comment_end (drop 1 z) = []" | "c = 91" "dropWhile (\<lambda>b. b \<noteq> 93) z = []"
    | "c \<in> {96, 34, 39}" "dropWhile (\<lambda>b. b \<noteq> c) z = []"
    using assms by (auto simp: read_token_def Let_def split: if_splits)
  then show ?thesis
  proof cases
    case 1
    then obtain w where w: "z = 42 # w" by (cases z) (auto simp: cstr_def)
    show ?thesis
      using 1 assms comment_end_open [of w semi_end_semi]
      by (simp add: read_token_def w cstr_def Let_def)
  next
    case 2
    then show ?thesis
      using assms dropWhile_open [OF 2(2), of 93 semi_end_semi] by (simp add: read_token_def Let_def)
  next
    case 3
    then consider "c = 96" | "c = 34" | "c = 39" by blast
    then show ?thesis
      using assms dropWhile_open [OF 3(2), of c semi_end_semi]
      by cases (simp_all add: read_token_def Let_def)
  qed
qed

lemma read_token_comment:
  assumes "read_token c z = Return_state"
  shows "read_token c (z @ closing (c # z)) = Token tkWS semi_end_semi"
proof -
  have "c = 45" "cstr z 0 = 45" "dropWhile (\<lambda>b. b \<noteq> 10) z = []"
    using assms by (auto simp: read_token_def Let_def split: if_splits)
  moreover from this have "z \<noteq> []" by (auto simp: cstr_def)
  ultimately show ?thesis
    using assms dropWhile_open [of "\<lambda>b. b \<noteq> 10" z 10 semi_end_semi]
    by (simp add: read_token_def cstr_append Let_def)
qed

lemma closing_completes: "s \<in> states \<Longrightarrow> complete_loop s (z @ closing z)"
proof (induction z arbitrary: s rule: closing.induct)
  case 1
  then show ?case by (simp add: semi_end_semi_completes)
next
  case (2 c z)
  show ?case
  proof (cases "read_token c z")
    case (Token t r)
    have "r \<noteq> [] \<or> closing r \<noteq> [] \<and> hd (closing r) = 59"
      using closing_Nil_hd by auto
    from read_token_append [OF Token this]
    show ?thesis
      using 2 Token step_states [OF "2.prems", of t] by (simp del: step_simps)
  next
    case Return_0
    then show ?thesis
      using read_token_open [OF Return_0] step_states [OF "2.prems"] semi_end_semi_completes
      by (auto simp del: step_simps closing.simps)
  next
    case Return_state
    have "complete_loop (step s tkWS) semi_end_semi"
      using semi_end_semi_completes step_states [OF "2.prems"] by metis
    then show ?thesis
      using read_token_comment [OF Return_state] by (simp del: step_simps closing.simps)
  qed
qed

text \<open>
  From every text a complete one can be reached: closing an open comment, name or string
  and typing ;END; makes sqlite3_complete accept, so no input leaves the machine in a state it
  cannot leave.
\<close>

theorem any_text_can_be_completed: "sqlite3_complete (zSql @ closing zSql)"
  using closing_completes [of 0 zSql] by (simp add: sqlite3_complete_def states_def)

end
