(* ===== verification/Sqlite_Keyword.thy ===== *)
theory Sqlite_Keyword
  imports Sqlite_Chars
begin

text \<open>
  The keyword table of the bundled SQLite (the generated \<open>keywordhash.h\<close> part of
  \<open>native/sqlite3/sqlite3.c\<close>): the token codes, the overlapping keyword texts, the hash table
  and \<open>keywordCode\<close> with the interfaces over it.
\<close>

section \<open>Token codes\<close>

definition TK_SEMI :: int where "TK_SEMI = 1"
definition TK_EXPLAIN :: int where "TK_EXPLAIN = 2"
definition TK_QUERY :: int where "TK_QUERY = 3"
definition TK_PLAN :: int where "TK_PLAN = 4"
definition TK_BEGIN :: int where "TK_BEGIN = 5"
definition TK_TRANSACTION :: int where "TK_TRANSACTION = 6"
definition TK_DEFERRED :: int where "TK_DEFERRED = 7"
definition TK_IMMEDIATE :: int where "TK_IMMEDIATE = 8"
definition TK_EXCLUSIVE :: int where "TK_EXCLUSIVE = 9"
definition TK_COMMIT :: int where "TK_COMMIT = 10"
definition TK_END :: int where "TK_END = 11"
definition TK_ROLLBACK :: int where "TK_ROLLBACK = 12"
definition TK_SAVEPOINT :: int where "TK_SAVEPOINT = 13"
definition TK_RELEASE :: int where "TK_RELEASE = 14"
definition TK_TO :: int where "TK_TO = 15"
definition TK_TABLE :: int where "TK_TABLE = 16"
definition TK_CREATE :: int where "TK_CREATE = 17"
definition TK_IF :: int where "TK_IF = 18"
definition TK_NOT :: int where "TK_NOT = 19"
definition TK_EXISTS :: int where "TK_EXISTS = 20"
definition TK_TEMP :: int where "TK_TEMP = 21"
definition TK_LP :: int where "TK_LP = 22"
definition TK_RP :: int where "TK_RP = 23"
definition TK_AS :: int where "TK_AS = 24"
definition TK_COMMA :: int where "TK_COMMA = 25"
definition TK_WITHOUT :: int where "TK_WITHOUT = 26"
definition TK_ABORT :: int where "TK_ABORT = 27"
definition TK_ACTION :: int where "TK_ACTION = 28"
definition TK_AFTER :: int where "TK_AFTER = 29"
definition TK_ANALYZE :: int where "TK_ANALYZE = 30"
definition TK_ASC :: int where "TK_ASC = 31"
definition TK_ATTACH :: int where "TK_ATTACH = 32"
definition TK_BEFORE :: int where "TK_BEFORE = 33"
definition TK_BY :: int where "TK_BY = 34"
definition TK_CASCADE :: int where "TK_CASCADE = 35"
definition TK_CAST :: int where "TK_CAST = 36"
definition TK_CONFLICT :: int where "TK_CONFLICT = 37"
definition TK_DATABASE :: int where "TK_DATABASE = 38"
definition TK_DESC :: int where "TK_DESC = 39"
definition TK_DETACH :: int where "TK_DETACH = 40"
definition TK_EACH :: int where "TK_EACH = 41"
definition TK_FAIL :: int where "TK_FAIL = 42"
definition TK_OR :: int where "TK_OR = 43"
definition TK_AND :: int where "TK_AND = 44"
definition TK_IS :: int where "TK_IS = 45"
definition TK_MATCH :: int where "TK_MATCH = 47"
definition TK_LIKE_KW :: int where "TK_LIKE_KW = 48"
definition TK_BETWEEN :: int where "TK_BETWEEN = 49"
definition TK_IN :: int where "TK_IN = 50"
definition TK_ISNULL :: int where "TK_ISNULL = 51"
definition TK_NOTNULL :: int where "TK_NOTNULL = 52"
definition TK_NE :: int where "TK_NE = 53"
definition TK_EQ :: int where "TK_EQ = 54"
definition TK_GT :: int where "TK_GT = 55"
definition TK_LE :: int where "TK_LE = 56"
definition TK_LT :: int where "TK_LT = 57"
definition TK_GE :: int where "TK_GE = 58"
definition TK_ESCAPE :: int where "TK_ESCAPE = 59"
definition TK_ID :: int where "TK_ID = 60"
definition TK_COLUMNKW :: int where "TK_COLUMNKW = 61"
definition TK_DO :: int where "TK_DO = 62"
definition TK_FOR :: int where "TK_FOR = 63"
definition TK_IGNORE :: int where "TK_IGNORE = 64"
definition TK_INITIALLY :: int where "TK_INITIALLY = 65"
definition TK_INSTEAD :: int where "TK_INSTEAD = 66"
definition TK_NO :: int where "TK_NO = 67"
definition TK_KEY :: int where "TK_KEY = 68"
definition TK_OF :: int where "TK_OF = 69"
definition TK_OFFSET :: int where "TK_OFFSET = 70"
definition TK_PRAGMA :: int where "TK_PRAGMA = 71"
definition TK_RAISE :: int where "TK_RAISE = 72"
definition TK_RECURSIVE :: int where "TK_RECURSIVE = 73"
definition TK_REPLACE :: int where "TK_REPLACE = 74"
definition TK_RESTRICT :: int where "TK_RESTRICT = 75"
definition TK_ROW :: int where "TK_ROW = 76"
definition TK_ROWS :: int where "TK_ROWS = 77"
definition TK_TRIGGER :: int where "TK_TRIGGER = 78"
definition TK_VACUUM :: int where "TK_VACUUM = 79"
definition TK_VIEW :: int where "TK_VIEW = 80"
definition TK_VIRTUAL :: int where "TK_VIRTUAL = 81"
definition TK_WITH :: int where "TK_WITH = 82"
definition TK_NULLS :: int where "TK_NULLS = 83"
definition TK_FIRST :: int where "TK_FIRST = 84"
definition TK_LAST :: int where "TK_LAST = 85"
definition TK_CURRENT :: int where "TK_CURRENT = 86"
definition TK_FOLLOWING :: int where "TK_FOLLOWING = 87"
definition TK_PARTITION :: int where "TK_PARTITION = 88"
definition TK_PRECEDING :: int where "TK_PRECEDING = 89"
definition TK_RANGE :: int where "TK_RANGE = 90"
definition TK_UNBOUNDED :: int where "TK_UNBOUNDED = 91"
definition TK_EXCLUDE :: int where "TK_EXCLUDE = 92"
definition TK_GROUPS :: int where "TK_GROUPS = 93"
definition TK_OTHERS :: int where "TK_OTHERS = 94"
definition TK_TIES :: int where "TK_TIES = 95"
definition TK_GENERATED :: int where "TK_GENERATED = 96"
definition TK_ALWAYS :: int where "TK_ALWAYS = 97"
definition TK_MATERIALIZED :: int where "TK_MATERIALIZED = 98"
definition TK_REINDEX :: int where "TK_REINDEX = 99"
definition TK_RENAME :: int where "TK_RENAME = 100"
definition TK_CTIME_KW :: int where "TK_CTIME_KW = 101"
definition TK_BITAND :: int where "TK_BITAND = 103"
definition TK_BITOR :: int where "TK_BITOR = 104"
definition TK_LSHIFT :: int where "TK_LSHIFT = 105"
definition TK_RSHIFT :: int where "TK_RSHIFT = 106"
definition TK_PLUS :: int where "TK_PLUS = 107"
definition TK_MINUS :: int where "TK_MINUS = 108"
definition TK_STAR :: int where "TK_STAR = 109"
definition TK_SLASH :: int where "TK_SLASH = 110"
definition TK_REM :: int where "TK_REM = 111"
definition TK_CONCAT :: int where "TK_CONCAT = 112"
definition TK_PTR :: int where "TK_PTR = 113"
definition TK_COLLATE :: int where "TK_COLLATE = 114"
definition TK_BITNOT :: int where "TK_BITNOT = 115"
definition TK_ON :: int where "TK_ON = 116"
definition TK_INDEXED :: int where "TK_INDEXED = 117"
definition TK_STRING :: int where "TK_STRING = 118"
definition TK_JOIN_KW :: int where "TK_JOIN_KW = 119"
definition TK_CONSTRAINT :: int where "TK_CONSTRAINT = 120"
definition TK_DEFAULT :: int where "TK_DEFAULT = 121"
definition TK_NULL :: int where "TK_NULL = 122"
definition TK_PRIMARY :: int where "TK_PRIMARY = 123"
definition TK_UNIQUE :: int where "TK_UNIQUE = 124"
definition TK_CHECK :: int where "TK_CHECK = 125"
definition TK_REFERENCES :: int where "TK_REFERENCES = 126"
definition TK_AUTOINCR :: int where "TK_AUTOINCR = 127"
definition TK_INSERT :: int where "TK_INSERT = 128"
definition TK_DELETE :: int where "TK_DELETE = 129"
definition TK_UPDATE :: int where "TK_UPDATE = 130"
definition TK_SET :: int where "TK_SET = 131"
definition TK_DEFERRABLE :: int where "TK_DEFERRABLE = 132"
definition TK_FOREIGN :: int where "TK_FOREIGN = 133"
definition TK_DROP :: int where "TK_DROP = 134"
definition TK_UNION :: int where "TK_UNION = 135"
definition TK_ALL :: int where "TK_ALL = 136"
definition TK_EXCEPT :: int where "TK_EXCEPT = 137"
definition TK_INTERSECT :: int where "TK_INTERSECT = 138"
definition TK_SELECT :: int where "TK_SELECT = 139"
definition TK_VALUES :: int where "TK_VALUES = 140"
definition TK_DISTINCT :: int where "TK_DISTINCT = 141"
definition TK_DOT :: int where "TK_DOT = 142"
definition TK_FROM :: int where "TK_FROM = 143"
definition TK_JOIN :: int where "TK_JOIN = 144"
definition TK_USING :: int where "TK_USING = 145"
definition TK_ORDER :: int where "TK_ORDER = 146"
definition TK_GROUP :: int where "TK_GROUP = 147"
definition TK_HAVING :: int where "TK_HAVING = 148"
definition TK_LIMIT :: int where "TK_LIMIT = 149"
definition TK_WHERE :: int where "TK_WHERE = 150"
definition TK_RETURNING :: int where "TK_RETURNING = 151"
definition TK_INTO :: int where "TK_INTO = 152"
definition TK_NOTHING :: int where "TK_NOTHING = 153"
definition TK_FLOAT :: int where "TK_FLOAT = 154"
definition TK_BLOB :: int where "TK_BLOB = 155"
definition TK_INTEGER :: int where "TK_INTEGER = 156"
definition TK_VARIABLE :: int where "TK_VARIABLE = 157"
definition TK_CASE :: int where "TK_CASE = 158"
definition TK_WHEN :: int where "TK_WHEN = 159"
definition TK_THEN :: int where "TK_THEN = 160"
definition TK_ELSE :: int where "TK_ELSE = 161"
definition TK_INDEX :: int where "TK_INDEX = 162"
definition TK_ALTER :: int where "TK_ALTER = 163"
definition TK_ADD :: int where "TK_ADD = 164"
definition TK_WINDOW :: int where "TK_WINDOW = 165"
definition TK_OVER :: int where "TK_OVER = 166"
definition TK_FILTER :: int where "TK_FILTER = 167"
definition TK_QNUMBER :: int where "TK_QNUMBER = 183"
definition TK_SPACE :: int where "TK_SPACE = 184"
definition TK_COMMENT :: int where "TK_COMMENT = 185"
definition TK_ILLEGAL :: int where "TK_ILLEGAL = 186"

lemmas TK_defs =
  TK_SEMI_def TK_EXPLAIN_def TK_QUERY_def TK_PLAN_def TK_BEGIN_def TK_TRANSACTION_def
  TK_DEFERRED_def TK_IMMEDIATE_def TK_EXCLUSIVE_def TK_COMMIT_def TK_END_def TK_ROLLBACK_def
  TK_SAVEPOINT_def TK_RELEASE_def TK_TO_def TK_TABLE_def TK_CREATE_def TK_IF_def TK_NOT_def
  TK_EXISTS_def TK_TEMP_def TK_LP_def TK_RP_def TK_AS_def TK_COMMA_def TK_WITHOUT_def
  TK_ABORT_def TK_ACTION_def TK_AFTER_def TK_ANALYZE_def TK_ASC_def TK_ATTACH_def TK_BEFORE_def
  TK_BY_def TK_CASCADE_def TK_CAST_def TK_CONFLICT_def TK_DATABASE_def TK_DESC_def TK_DETACH_def
  TK_EACH_def TK_FAIL_def TK_OR_def TK_AND_def TK_IS_def TK_MATCH_def TK_LIKE_KW_def
  TK_BETWEEN_def TK_IN_def TK_ISNULL_def TK_NOTNULL_def TK_NE_def TK_EQ_def TK_GT_def TK_LE_def
  TK_LT_def TK_GE_def TK_ESCAPE_def TK_ID_def TK_COLUMNKW_def TK_DO_def TK_FOR_def TK_IGNORE_def
  TK_INITIALLY_def TK_INSTEAD_def TK_NO_def TK_KEY_def TK_OF_def TK_OFFSET_def TK_PRAGMA_def
  TK_RAISE_def TK_RECURSIVE_def TK_REPLACE_def TK_RESTRICT_def TK_ROW_def TK_ROWS_def
  TK_TRIGGER_def TK_VACUUM_def TK_VIEW_def TK_VIRTUAL_def TK_WITH_def TK_NULLS_def TK_FIRST_def
  TK_LAST_def TK_CURRENT_def TK_FOLLOWING_def TK_PARTITION_def TK_PRECEDING_def TK_RANGE_def
  TK_UNBOUNDED_def TK_EXCLUDE_def TK_GROUPS_def TK_OTHERS_def TK_TIES_def TK_GENERATED_def
  TK_ALWAYS_def TK_MATERIALIZED_def TK_REINDEX_def TK_RENAME_def TK_CTIME_KW_def TK_BITAND_def
  TK_BITOR_def TK_LSHIFT_def TK_RSHIFT_def TK_PLUS_def TK_MINUS_def TK_STAR_def TK_SLASH_def
  TK_REM_def TK_CONCAT_def TK_PTR_def TK_COLLATE_def TK_BITNOT_def TK_ON_def TK_INDEXED_def
  TK_STRING_def TK_JOIN_KW_def TK_CONSTRAINT_def TK_DEFAULT_def TK_NULL_def TK_PRIMARY_def
  TK_UNIQUE_def TK_CHECK_def TK_REFERENCES_def TK_AUTOINCR_def TK_INSERT_def TK_DELETE_def
  TK_UPDATE_def TK_SET_def TK_DEFERRABLE_def TK_FOREIGN_def TK_DROP_def TK_UNION_def TK_ALL_def
  TK_EXCEPT_def TK_INTERSECT_def TK_SELECT_def TK_VALUES_def TK_DISTINCT_def TK_DOT_def
  TK_FROM_def TK_JOIN_def TK_USING_def TK_ORDER_def TK_GROUP_def TK_HAVING_def TK_LIMIT_def
  TK_WHERE_def TK_RETURNING_def TK_INTO_def TK_NOTHING_def TK_FLOAT_def TK_BLOB_def
  TK_INTEGER_def TK_VARIABLE_def TK_CASE_def TK_WHEN_def TK_THEN_def TK_ELSE_def TK_INDEX_def
  TK_ALTER_def TK_ADD_def TK_WINDOW_def TK_OVER_def TK_FILTER_def TK_QNUMBER_def TK_SPACE_def
  TK_COMMENT_def TK_ILLEGAL_def

section \<open>The tables\<close>

definition zKWText :: "byte list" where
  "zKWText = map of_char (concat
    [''REINDEXEDESCAPEACHECKEYBEFOREIGNOREGEXPLAINSTEADDATABASELECTABLEFT'',
     ''HENDEFERRABLELSEXCLUDELETEMPORARYISNULLSAVEPOINTERSECTIESNOTNULLIK'',
     ''EXCEPTRANSACTIONATURALTERAISEXCLUSIVEXISTSCONSTRAINTOFFSETRIGGERAN'',
     ''GENERATEDETACHAVINGLOBEGINNEREFERENCESUNIQUERYWITHOUTERELEASEATTAC'',
     ''HBETWEENOTHINGROUPSCASCADEFAULTCASECOLLATECREATECURRENT_DATEIMMEDI'',
     ''ATEJOINSERTMATCHPLANALYZEPRAGMATERIALIZEDEFERREDISTINCTUPDATEVALUE'',
     ''SVIRTUALWAYSWHENWHERECURSIVEABORTAFTERENAMEANDROPARTITIONAUTOINCRE'',
     ''MENTCASTCOLUMNCOMMITCONFLICTCROSSCURRENT_TIMESTAMPRECEDINGFAILASTF'',
     ''ILTEREPLACEFIRSTFOLLOWINGFROMFULLIMITIFORDERESTRICTOTHERSOVERETURN'',
     ''INGRIGHTROLLBACKROWSUNBOUNDEDUNIONUSINGVACUUMVIEWINDOWBYINITIALLYP'',
     ''RIMARY''])"

definition aKWHash :: "nat list" where
  "aKWHash =
    [84, 92, 134, 82, 105, 29, 0, 0, 94, 0, 85, 72, 0, 53, 35, 86, 15, 0, 42, 97, 54, 89,
     135, 19, 0, 0, 140, 0, 40, 129, 0, 22, 107, 0, 9, 0, 0, 123, 80, 0, 78, 6, 0, 65, 103,
     147, 0, 136, 115, 0, 0, 48, 0, 90, 24, 0, 17, 0, 27, 70, 23, 26, 5, 60, 142, 110, 122,
     0, 73, 91, 71, 145, 61, 120, 74, 0, 49, 0, 11, 41, 0, 113, 0, 0, 0, 109, 10, 111, 116,
     125, 14, 50, 124, 0, 100, 0, 18, 121, 144, 56, 130, 139, 88, 83, 37, 30, 126, 0, 0, 108,
     51, 131, 128, 0, 34, 0, 0, 132, 0, 98, 38, 39, 0, 20, 45, 117, 93]"

definition aKWNext :: "nat list" where
  "aKWNext =
    [0, 0, 0, 0, 0, 4, 0, 43, 0, 0, 106, 114, 0, 0, 0, 2, 0, 0, 143, 0, 0, 0, 13, 0, 0, 0, 0,
     141, 0, 0, 119, 52, 0, 0, 137, 12, 0, 0, 62, 0, 138, 0, 133, 0, 0, 36, 0, 0, 28, 77, 0,
     0, 0, 0, 59, 0, 47, 0, 0, 0, 0, 0, 0, 0, 0, 0, 0, 69, 0, 0, 0, 0, 0, 146, 3, 0, 58, 0,
     1, 75, 0, 0, 0, 31, 0, 0, 0, 0, 0, 127, 0, 104, 0, 64, 66, 63, 0, 0, 0, 0, 0, 46, 0, 16,
     8, 0, 0, 0, 0, 0, 0, 0, 0, 0, 0, 81, 101, 0, 112, 21, 7, 67, 0, 79, 96, 118, 0, 0, 68,
     0, 0, 99, 44, 0, 55, 0, 76, 0, 95, 32, 33, 57, 25, 0, 102, 0, 0, 87]"

definition aKWLen :: "nat list" where
  "aKWLen =
    [0, 7, 7, 5, 4, 6, 4, 5, 3, 6, 7, 3, 6, 6, 7, 7, 3, 8, 2, 6, 5, 4, 4, 3, 10, 4, 7, 6, 9,
     4, 2, 6, 5, 9, 9, 4, 7, 3, 2, 4, 4, 6, 11, 6, 2, 7, 5, 5, 9, 6, 10, 4, 6, 2, 3, 7, 5, 9,
     6, 6, 4, 5, 5, 10, 6, 5, 7, 4, 5, 7, 6, 7, 7, 6, 5, 7, 3, 7, 4, 7, 6, 12, 9, 4, 6, 5, 4,
     7, 6, 12, 8, 8, 2, 6, 6, 7, 6, 4, 5, 9, 5, 5, 6, 3, 4, 9, 13, 2, 2, 4, 6, 6, 8, 5, 17,
     12, 7, 9, 4, 4, 6, 7, 5, 9, 4, 4, 5, 2, 5, 8, 6, 4, 9, 5, 8, 4, 3, 9, 5, 5, 6, 4, 6, 2,
     2, 9, 3, 7]"

definition aKWOffset :: "nat list" where
  "aKWOffset =
    [0, 0, 2, 2, 8, 9, 14, 16, 20, 23, 25, 25, 29, 33, 36, 41, 46, 48, 53, 54, 59, 62, 65,
     67, 69, 78, 81, 86, 90, 90, 94, 99, 101, 105, 111, 119, 123, 123, 123, 126, 129, 132,
     137, 142, 146, 147, 152, 156, 160, 168, 174, 181, 184, 184, 187, 189, 195, 198, 206,
     211, 216, 219, 222, 226, 236, 239, 244, 244, 248, 252, 259, 265, 271, 277, 277, 283,
     284, 288, 295, 299, 306, 312, 324, 333, 335, 341, 346, 348, 355, 359, 370, 377, 378,
     385, 391, 397, 402, 408, 412, 415, 424, 429, 433, 439, 441, 444, 453, 455, 457, 466,
     470, 476, 482, 490, 495, 495, 495, 511, 520, 523, 527, 532, 539, 544, 553, 557, 560,
     565, 567, 571, 579, 585, 588, 597, 602, 610, 610, 614, 623, 628, 633, 639, 642, 645,
     648, 650, 655, 659]"

definition aKWCode :: "int list" where
  "aKWCode =
    [0, TK_REINDEX, TK_INDEXED, TK_INDEX, TK_DESC, TK_ESCAPE, TK_EACH, TK_CHECK, TK_KEY,
     TK_BEFORE, TK_FOREIGN, TK_FOR, TK_IGNORE, TK_LIKE_KW, TK_EXPLAIN, TK_INSTEAD, TK_ADD,
     TK_DATABASE, TK_AS, TK_SELECT, TK_TABLE, TK_JOIN_KW, TK_THEN, TK_END, TK_DEFERRABLE,
     TK_ELSE, TK_EXCLUDE, TK_DELETE, TK_TEMP, TK_TEMP, TK_OR, TK_ISNULL, TK_NULLS,
     TK_SAVEPOINT, TK_INTERSECT, TK_TIES, TK_NOTNULL, TK_NOT, TK_NO, TK_NULL, TK_LIKE_KW,
     TK_EXCEPT, TK_TRANSACTION, TK_ACTION, TK_ON, TK_JOIN_KW, TK_ALTER, TK_RAISE,
     TK_EXCLUSIVE, TK_EXISTS, TK_CONSTRAINT, TK_INTO, TK_OFFSET, TK_OF, TK_SET, TK_TRIGGER,
     TK_RANGE, TK_GENERATED, TK_DETACH, TK_HAVING, TK_LIKE_KW, TK_BEGIN, TK_JOIN_KW,
     TK_REFERENCES, TK_UNIQUE, TK_QUERY, TK_WITHOUT, TK_WITH, TK_JOIN_KW, TK_RELEASE,
     TK_ATTACH, TK_BETWEEN, TK_NOTHING, TK_GROUPS, TK_GROUP, TK_CASCADE, TK_ASC, TK_DEFAULT,
     TK_CASE, TK_COLLATE, TK_CREATE, TK_CTIME_KW, TK_IMMEDIATE, TK_JOIN, TK_INSERT, TK_MATCH,
     TK_PLAN, TK_ANALYZE, TK_PRAGMA, TK_MATERIALIZED, TK_DEFERRED, TK_DISTINCT, TK_IS,
     TK_UPDATE, TK_VALUES, TK_VIRTUAL, TK_ALWAYS, TK_WHEN, TK_WHERE, TK_RECURSIVE, TK_ABORT,
     TK_AFTER, TK_RENAME, TK_AND, TK_DROP, TK_PARTITION, TK_AUTOINCR, TK_TO, TK_IN, TK_CAST,
     TK_COLUMNKW, TK_COMMIT, TK_CONFLICT, TK_JOIN_KW, TK_CTIME_KW, TK_CTIME_KW, TK_CURRENT,
     TK_PRECEDING, TK_FAIL, TK_LAST, TK_FILTER, TK_REPLACE, TK_FIRST, TK_FOLLOWING, TK_FROM,
     TK_JOIN_KW, TK_LIMIT, TK_IF, TK_ORDER, TK_RESTRICT, TK_OTHERS, TK_OVER, TK_RETURNING,
     TK_JOIN_KW, TK_ROLLBACK, TK_ROWS, TK_ROW, TK_UNBOUNDED, TK_UNION, TK_USING, TK_VACUUM,
     TK_VIEW, TK_WINDOW, TK_DO, TK_BY, TK_INITIALLY, TK_ALL, TK_PRIMARY]"

section \<open>The search\<close>

text \<open>How far the collision chain of each keyword goes, the measure of the loop over it.\<close>

definition chain_depth :: "nat list" where
  "chain_depth =
    [0, 1, 1, 1, 1, 2, 1, 2, 1, 1, 2, 2, 1, 1, 1, 2, 1, 1, 2, 1, 1, 1, 2, 1, 1, 1, 1, 3, 1,
     1, 3, 2, 1, 1, 2, 2, 1, 1, 2, 1, 4, 1, 2, 1, 1, 2, 1, 1, 2, 2, 1, 1, 1, 1, 2, 1, 2, 1,
     1, 1, 1, 1, 1, 1, 1, 1, 1, 2, 1, 1, 1, 1, 1, 2, 2, 1, 2, 1, 2, 2, 1, 1, 1, 3, 1, 1, 1,
     1, 1, 2, 1, 3, 1, 2, 2, 2, 1, 1, 1, 1, 1, 2, 1, 2, 2, 1, 1, 1, 1, 1, 1, 1, 1, 1, 1, 2,
     3, 1, 2, 2, 3, 3, 1, 3, 2, 3, 1, 1, 2, 1, 1, 2, 2, 1, 2, 1, 3, 1, 3, 2, 2, 2, 2, 1, 2,
     1, 1, 2]"

text \<open>The loop that compares the characters after the second.\<close>

function match_loop :: "byte list \<Rightarrow> byte list \<Rightarrow> nat \<Rightarrow> nat \<Rightarrow> nat" where
  "match_loop z zKW n j =
     (if j < n \<and> cstr z j AND NOT 0x20 = cstr zKW j then match_loop z zKW n (j + 1) else j)"
  by pat_completeness auto
termination
  by (relation "measure (\<lambda>(z, zKW, n, j). n - j)") auto

declare match_loop.simps [simp del]

text \<open>The body of the loop: none of its \<open>continue\<close> statements is taken.\<close>

definition kw_matches :: "byte list \<Rightarrow> nat \<Rightarrow> nat \<Rightarrow> bool" where
  "kw_matches z n i =
     (let zKW = drop (aKWOffset ! i) zKWText in
      aKWLen ! i = n \<and>
      cstr z 0 AND NOT 0x20 = cstr zKW 0 \<and>
      cstr z 1 AND NOT 0x20 = cstr zKW 1 \<and>
      \<not> match_loop z zKW n 2 < n)"

lemma chain_decreases:
  "i \<noteq> 0 \<Longrightarrow> i < 148 \<Longrightarrow> chain_depth ! (aKWNext ! i) < chain_depth ! i \<and> aKWNext ! i < 148"
proof -
  have "list_all2 (\<lambda>d j. chain_depth ! j < d \<and> j < 148) (tl chain_depth) (tl aKWNext)"
    by code_simp
  moreover have "length chain_depth = 148" "length aKWNext = 148"
    by (simp_all add: chain_depth_def aKWNext_def)
  moreover assume "i \<noteq> 0" "i < 148"
  ultimately show "chain_depth ! (aKWNext ! i) < chain_depth ! i \<and> aKWNext ! i < 148"
    by (cases i) (auto simp: list_all2_conv_all_nth nth_tl)
qed

text \<open>The loop along a chain; the tables have 148 entries.\<close>

function kw_search :: "byte list \<Rightarrow> nat \<Rightarrow> nat \<Rightarrow> nat option" where
  "kw_search z n i =
     (if i = 0 \<or> 148 \<le> i then None
      else if kw_matches z n i then Some i
      else kw_search z n (aKWNext ! i))"
  by pat_completeness auto
termination
  by (relation "measure (\<lambda>(z, n, i). chain_depth ! i)") (auto simp: chain_decreases not_le)

declare kw_search.simps [simp del]

definition kw_hash :: "byte list \<Rightarrow> nat \<Rightarrow> nat" where
  "kw_hash z n =
     ((unat (UpperToLower (cstr z 0)) * 4) XOR (unat (UpperToLower (cstr z (n - 1))) * 3) XOR n) mod 127"

definition keywordCode :: "byte list \<Rightarrow> nat \<Rightarrow> int \<Rightarrow> int" where
  "keywordCode z n pType =
     (case kw_search z n (aKWHash ! kw_hash z n) of Some i \<Rightarrow> aKWCode ! i | None \<Rightarrow> pType)"

definition sqlite3KeywordCode :: "byte list \<Rightarrow> nat \<Rightarrow> int" where
  "sqlite3KeywordCode z n = (if 2 \<le> n then keywordCode z n TK_ID else TK_ID)"

definition SQLITE_N_KEYWORD :: int where "SQLITE_N_KEYWORD = 147"

text \<open>The text at the pointer the call stores, and the length it stores, or \<open>SQLITE_ERROR\<close>.\<close>

definition sqlite3_keyword_name :: "int \<Rightarrow> (byte list \<times> nat) option" where
  "sqlite3_keyword_name i =
     (if i < 0 \<or> SQLITE_N_KEYWORD \<le> i then None
      else Some (drop (aKWOffset ! nat (i + 1)) zKWText, aKWLen ! nat (i + 1)))"

definition sqlite3_keyword_count :: int where "sqlite3_keyword_count = SQLITE_N_KEYWORD"

definition sqlite3_keyword_check :: "byte list \<Rightarrow> nat \<Rightarrow> bool" where
  "sqlite3_keyword_check zName nName = (TK_ID \<noteq> sqlite3KeywordCode zName nName)"

section \<open>What the tables hold\<close>

lemma zKWText_bytes [code]:
  "zKWText =
    [82, 69, 73, 78, 68, 69, 88, 69, 68, 69, 83, 67, 65, 80, 69, 65, 67, 72, 69, 67, 75, 69,
     89, 66, 69, 70, 79, 82, 69, 73, 71, 78, 79, 82, 69, 71, 69, 88, 80, 76, 65, 73, 78, 83,
     84, 69, 65, 68, 68, 65, 84, 65, 66, 65, 83, 69, 76, 69, 67, 84, 65, 66, 76, 69, 70, 84,
     72, 69, 78, 68, 69, 70, 69, 82, 82, 65, 66, 76, 69, 76, 83, 69, 88, 67, 76, 85, 68, 69,
     76, 69, 84, 69, 77, 80, 79, 82, 65, 82, 89, 73, 83, 78, 85, 76, 76, 83, 65, 86, 69, 80,
     79, 73, 78, 84, 69, 82, 83, 69, 67, 84, 73, 69, 83, 78, 79, 84, 78, 85, 76, 76, 73, 75,
     69, 88, 67, 69, 80, 84, 82, 65, 78, 83, 65, 67, 84, 73, 79, 78, 65, 84, 85, 82, 65, 76,
     84, 69, 82, 65, 73, 83, 69, 88, 67, 76, 85, 83, 73, 86, 69, 88, 73, 83, 84, 83, 67, 79,
     78, 83, 84, 82, 65, 73, 78, 84, 79, 70, 70, 83, 69, 84, 82, 73, 71, 71, 69, 82, 65, 78,
     71, 69, 78, 69, 82, 65, 84, 69, 68, 69, 84, 65, 67, 72, 65, 86, 73, 78, 71, 76, 79, 66,
     69, 71, 73, 78, 78, 69, 82, 69, 70, 69, 82, 69, 78, 67, 69, 83, 85, 78, 73, 81, 85, 69,
     82, 89, 87, 73, 84, 72, 79, 85, 84, 69, 82, 69, 76, 69, 65, 83, 69, 65, 84, 84, 65, 67,
     72, 66, 69, 84, 87, 69, 69, 78, 79, 84, 72, 73, 78, 71, 82, 79, 85, 80, 83, 67, 65, 83,
     67, 65, 68, 69, 70, 65, 85, 76, 84, 67, 65, 83, 69, 67, 79, 76, 76, 65, 84, 69, 67, 82,
     69, 65, 84, 69, 67, 85, 82, 82, 69, 78, 84, 95, 68, 65, 84, 69, 73, 77, 77, 69, 68, 73,
     65, 84, 69, 74, 79, 73, 78, 83, 69, 82, 84, 77, 65, 84, 67, 72, 80, 76, 65, 78, 65, 76,
     89, 90, 69, 80, 82, 65, 71, 77, 65, 84, 69, 82, 73, 65, 76, 73, 90, 69, 68, 69, 70, 69,
     82, 82, 69, 68, 73, 83, 84, 73, 78, 67, 84, 85, 80, 68, 65, 84, 69, 86, 65, 76, 85, 69,
     83, 86, 73, 82, 84, 85, 65, 76, 87, 65, 89, 83, 87, 72, 69, 78, 87, 72, 69, 82, 69, 67,
     85, 82, 83, 73, 86, 69, 65, 66, 79, 82, 84, 65, 70, 84, 69, 82, 69, 78, 65, 77, 69, 65,
     78, 68, 82, 79, 80, 65, 82, 84, 73, 84, 73, 79, 78, 65, 85, 84, 79, 73, 78, 67, 82, 69,
     77, 69, 78, 84, 67, 65, 83, 84, 67, 79, 76, 85, 77, 78, 67, 79, 77, 77, 73, 84, 67, 79,
     78, 70, 76, 73, 67, 84, 67, 82, 79, 83, 83, 67, 85, 82, 82, 69, 78, 84, 95, 84, 73, 77,
     69, 83, 84, 65, 77, 80, 82, 69, 67, 69, 68, 73, 78, 71, 70, 65, 73, 76, 65, 83, 84, 70,
     73, 76, 84, 69, 82, 69, 80, 76, 65, 67, 69, 70, 73, 82, 83, 84, 70, 79, 76, 76, 79, 87,
     73, 78, 71, 70, 82, 79, 77, 70, 85, 76, 76, 73, 77, 73, 84, 73, 70, 79, 82, 68, 69, 82,
     69, 83, 84, 82, 73, 67, 84, 79, 84, 72, 69, 82, 83, 79, 86, 69, 82, 69, 84, 85, 82, 78,
     73, 78, 71, 82, 73, 71, 72, 84, 82, 79, 76, 76, 66, 65, 67, 75, 82, 79, 87, 83, 85, 78,
     66, 79, 85, 78, 68, 69, 68, 85, 78, 73, 79, 78, 85, 83, 73, 78, 71, 86, 65, 67, 85, 85,
     77, 86, 73, 69, 87, 73, 78, 68, 79, 87, 66, 89, 73, 78, 73, 84, 73, 65, 76, 76, 89, 80,
     82, 73, 77, 65, 82, 89]"
  by code_simp

definition keyword :: "nat \<Rightarrow> byte list" where
  "keyword i = take (aKWLen ! i) (drop (aKWOffset ! i) zKWText)"

text \<open>The letters as the comparison sees them.\<close>

definition kw_fold :: "byte list \<Rightarrow> byte list" where
  "kw_fold w = map (\<lambda>b. b AND NOT 0x20) w"

function chain :: "nat \<Rightarrow> nat list" where
  "chain i = (if i = 0 \<or> 148 \<le> i then [] else i # chain (aKWNext ! i))"
  by pat_completeness auto
termination
  by (relation "measure (\<lambda>i. chain_depth ! i)") (auto simp: chain_decreases not_le)

declare chain.simps [simp del]

text \<open>The keywords, cut out of the text one after the other.\<close>

fun cut :: "byte list \<Rightarrow> (nat \<times> nat) list \<Rightarrow> byte list list" where
  "cut z [] = []"
| "cut z ((d, l) # ps) = (let y = drop d z in take l y # cut y ps)"

fun offsets :: "nat \<Rightarrow> (nat \<times> nat) list \<Rightarrow> (nat \<times> nat) list" where
  "offsets p [] = []"
| "offsets p ((d, l) # ps) = (p + d, l) # offsets (p + d) ps"

lemma cut_offsets: "cut (drop p z) ps = map (\<lambda>(p, l). take l (drop p z)) (offsets p ps)"
  by (induction ps arbitrary: p) (auto simp: Let_def add.commute)

definition steps :: "(nat \<times> nat) list" where
  "steps =
    [(0, 7), (2, 7), (0, 5), (6, 4), (1, 6), (5, 4), (2, 5), (4, 3), (3, 6), (2, 7), (0, 3),
     (4, 6), (4, 6), (3, 7), (5, 7), (5, 3), (2, 8), (5, 2), (1, 6), (5, 5), (3, 4), (3, 4),
     (2, 3), (2, 10), (9, 4), (3, 7), (5, 6), (4, 9), (0, 4), (4, 2), (5, 6), (2, 5), (4, 9),
     (6, 9), (8, 4), (4, 7), (0, 3), (0, 2), (3, 4), (3, 4), (3, 6), (5, 11), (5, 6), (4, 2),
     (1, 7), (5, 5), (4, 5), (4, 9), (8, 6), (6, 10), (7, 4), (3, 6), (0, 2), (3, 3), (2, 7),
     (6, 5), (3, 9), (8, 6), (5, 6), (5, 4), (3, 5), (3, 5), (4, 10), (10, 6), (3, 5), (5,
     7), (0, 4), (4, 5), (4, 7), (7, 6), (6, 7), (6, 7), (6, 6), (0, 5), (6, 7), (1, 3), (4,
     7), (7, 4), (4, 7), (7, 6), (6, 12), (12, 9), (9, 4), (2, 6), (6, 5), (5, 4), (2, 7),
     (7, 6), (4, 12), (11, 8), (7, 8), (1, 2), (7, 6), (6, 6), (6, 7), (5, 6), (6, 4), (4,
     5), (3, 9), (9, 5), (5, 5), (4, 6), (6, 3), (2, 4), (3, 9), (9, 13), (2, 2), (2, 2), (9,
     4), (4, 6), (6, 6), (6, 8), (8, 5), (5, 17), (0, 12), (0, 7), (16, 9), (9, 4), (3, 4),
     (4, 6), (5, 7), (7, 5), (5, 9), (9, 4), (4, 4), (3, 5), (5, 2), (2, 5), (4, 8), (8, 6),
     (6, 4), (3, 9), (9, 5), (5, 8), (8, 4), (0, 3), (4, 9), (9, 5), (5, 5), (5, 6), (6, 4),
     (3, 6), (3, 2), (3, 2), (2, 9), (5, 3), (4, 7)]"

definition kw_list :: "byte list list" where
  "kw_list =
    [[82, 69, 73, 78, 68, 69, 88],
     [73, 78, 68, 69, 88, 69, 68],
     [73, 78, 68, 69, 88],
     [68, 69, 83, 67],
     [69, 83, 67, 65, 80, 69],
     [69, 65, 67, 72],
     [67, 72, 69, 67, 75],
     [75, 69, 89],
     [66, 69, 70, 79, 82, 69],
     [70, 79, 82, 69, 73, 71, 78],
     [70, 79, 82],
     [73, 71, 78, 79, 82, 69],
     [82, 69, 71, 69, 88, 80],
     [69, 88, 80, 76, 65, 73, 78],
     [73, 78, 83, 84, 69, 65, 68],
     [65, 68, 68],
     [68, 65, 84, 65, 66, 65, 83, 69],
     [65, 83],
     [83, 69, 76, 69, 67, 84],
     [84, 65, 66, 76, 69],
     [76, 69, 70, 84],
     [84, 72, 69, 78],
     [69, 78, 68],
     [68, 69, 70, 69, 82, 82, 65, 66, 76, 69],
     [69, 76, 83, 69],
     [69, 88, 67, 76, 85, 68, 69],
     [68, 69, 76, 69, 84, 69],
     [84, 69, 77, 80, 79, 82, 65, 82, 89],
     [84, 69, 77, 80],
     [79, 82],
     [73, 83, 78, 85, 76, 76],
     [78, 85, 76, 76, 83],
     [83, 65, 86, 69, 80, 79, 73, 78, 84],
     [73, 78, 84, 69, 82, 83, 69, 67, 84],
     [84, 73, 69, 83],
     [78, 79, 84, 78, 85, 76, 76],
     [78, 79, 84],
     [78, 79],
     [78, 85, 76, 76],
     [76, 73, 75, 69],
     [69, 88, 67, 69, 80, 84],
     [84, 82, 65, 78, 83, 65, 67, 84, 73, 79, 78],
     [65, 67, 84, 73, 79, 78],
     [79, 78],
     [78, 65, 84, 85, 82, 65, 76],
     [65, 76, 84, 69, 82],
     [82, 65, 73, 83, 69],
     [69, 88, 67, 76, 85, 83, 73, 86, 69],
     [69, 88, 73, 83, 84, 83],
     [67, 79, 78, 83, 84, 82, 65, 73, 78, 84],
     [73, 78, 84, 79],
     [79, 70, 70, 83, 69, 84],
     [79, 70],
     [83, 69, 84],
     [84, 82, 73, 71, 71, 69, 82],
     [82, 65, 78, 71, 69],
     [71, 69, 78, 69, 82, 65, 84, 69, 68],
     [68, 69, 84, 65, 67, 72],
     [72, 65, 86, 73, 78, 71],
     [71, 76, 79, 66],
     [66, 69, 71, 73, 78],
     [73, 78, 78, 69, 82],
     [82, 69, 70, 69, 82, 69, 78, 67, 69, 83],
     [85, 78, 73, 81, 85, 69],
     [81, 85, 69, 82, 89],
     [87, 73, 84, 72, 79, 85, 84],
     [87, 73, 84, 72],
     [79, 85, 84, 69, 82],
     [82, 69, 76, 69, 65, 83, 69],
     [65, 84, 84, 65, 67, 72],
     [66, 69, 84, 87, 69, 69, 78],
     [78, 79, 84, 72, 73, 78, 71],
     [71, 82, 79, 85, 80, 83],
     [71, 82, 79, 85, 80],
     [67, 65, 83, 67, 65, 68, 69],
     [65, 83, 67],
     [68, 69, 70, 65, 85, 76, 84],
     [67, 65, 83, 69],
     [67, 79, 76, 76, 65, 84, 69],
     [67, 82, 69, 65, 84, 69],
     [67, 85, 82, 82, 69, 78, 84, 95, 68, 65, 84, 69],
     [73, 77, 77, 69, 68, 73, 65, 84, 69],
     [74, 79, 73, 78],
     [73, 78, 83, 69, 82, 84],
     [77, 65, 84, 67, 72],
     [80, 76, 65, 78],
     [65, 78, 65, 76, 89, 90, 69],
     [80, 82, 65, 71, 77, 65],
     [77, 65, 84, 69, 82, 73, 65, 76, 73, 90, 69, 68],
     [68, 69, 70, 69, 82, 82, 69, 68],
     [68, 73, 83, 84, 73, 78, 67, 84],
     [73, 83],
     [85, 80, 68, 65, 84, 69],
     [86, 65, 76, 85, 69, 83],
     [86, 73, 82, 84, 85, 65, 76],
     [65, 76, 87, 65, 89, 83],
     [87, 72, 69, 78],
     [87, 72, 69, 82, 69],
     [82, 69, 67, 85, 82, 83, 73, 86, 69],
     [65, 66, 79, 82, 84],
     [65, 70, 84, 69, 82],
     [82, 69, 78, 65, 77, 69],
     [65, 78, 68],
     [68, 82, 79, 80],
     [80, 65, 82, 84, 73, 84, 73, 79, 78],
     [65, 85, 84, 79, 73, 78, 67, 82, 69, 77, 69, 78, 84],
     [84, 79],
     [73, 78],
     [67, 65, 83, 84],
     [67, 79, 76, 85, 77, 78],
     [67, 79, 77, 77, 73, 84],
     [67, 79, 78, 70, 76, 73, 67, 84],
     [67, 82, 79, 83, 83],
     [67, 85, 82, 82, 69, 78, 84, 95, 84, 73, 77, 69, 83, 84, 65, 77, 80],
     [67, 85, 82, 82, 69, 78, 84, 95, 84, 73, 77, 69],
     [67, 85, 82, 82, 69, 78, 84],
     [80, 82, 69, 67, 69, 68, 73, 78, 71],
     [70, 65, 73, 76],
     [76, 65, 83, 84],
     [70, 73, 76, 84, 69, 82],
     [82, 69, 80, 76, 65, 67, 69],
     [70, 73, 82, 83, 84],
     [70, 79, 76, 76, 79, 87, 73, 78, 71],
     [70, 82, 79, 77],
     [70, 85, 76, 76],
     [76, 73, 77, 73, 84],
     [73, 70],
     [79, 82, 68, 69, 82],
     [82, 69, 83, 84, 82, 73, 67, 84],
     [79, 84, 72, 69, 82, 83],
     [79, 86, 69, 82],
     [82, 69, 84, 85, 82, 78, 73, 78, 71],
     [82, 73, 71, 72, 84],
     [82, 79, 76, 76, 66, 65, 67, 75],
     [82, 79, 87, 83],
     [82, 79, 87],
     [85, 78, 66, 79, 85, 78, 68, 69, 68],
     [85, 78, 73, 79, 78],
     [85, 83, 73, 78, 71],
     [86, 65, 67, 85, 85, 77],
     [86, 73, 69, 87],
     [87, 73, 78, 68, 79, 87],
     [68, 79],
     [66, 89],
     [73, 78, 73, 84, 73, 65, 76, 76, 89],
     [65, 76, 76],
     [80, 82, 73, 77, 65, 82, 89]]"

lemma steps_offsets: "offsets 0 steps = zip (tl aKWOffset) (tl aKWLen)"
  by (simp add: steps_def aKWOffset_def aKWLen_def)

lemma cut_keywords: "cut zKWText steps = kw_list"
  by code_simp

lemma all_keywords: "map keyword [1..<148] = kw_list"
proof -
  have "length aKWOffset = 148" "length aKWLen = 148"
    by (simp_all add: aKWOffset_def aKWLen_def)
  then have "map keyword [1..<148] = map (\<lambda>(p, l). take l (drop p zKWText)) (zip (tl aKWOffset) (tl aKWLen))"
    by (intro nth_equalityI) (auto simp: keyword_def nth_tl)
  then show ?thesis
    using cut_offsets [of 0 zKWText steps] by (simp add: steps_offsets cut_keywords)
qed

definition hashes :: "nat list" where
  "hashes =
    [40, 16, 74, 62, 62, 41, 73, 69, 34, 86, 78, 14, 31, 90, 16, 44, 56, 96, 23, 123, 105,
     31, 60, 54, 64, 61, 58, 51, 5, 105, 103, 101, 26, 114, 14, 124, 104, 120, 121, 28, 79,
     18, 73, 117, 124, 88, 99, 51, 76, 91, 110, 103, 13, 20, 2, 99, 58, 47, 20, 63, 72, 120,
     28, 126, 43, 8, 97, 112, 97, 59, 70, 11, 68, 74, 37, 47, 76, 40, 37, 38, 48, 3, 103, 0,
     10, 15, 45, 102, 21, 53, 69, 1, 126, 8, 28, 92, 19, 119, 111, 94, 88, 98, 44, 69, 4, 86,
     32, 109, 85, 65, 87, 89, 81, 78, 48, 88, 125, 89, 105, 73, 97, 66, 37, 92, 89, 106, 21,
     112, 29, 100, 111, 117, 18, 2, 22, 47, 114, 28, 101, 26, 58, 64, 96, 98, 71, 68, 45]"

definition end_hash :: "byte list \<Rightarrow> nat \<Rightarrow> nat" where
  "end_hash k n = ((unat (UpperToLower (hd k)) * 4) XOR (unat (UpperToLower (last k)) * 3) XOR n) mod 127"

lemma keyword_hashes: "map2 end_hash kw_list (tl aKWLen) = hashes"
  by (simp add: kw_list_def aKWLen_def hashes_def end_hash_def UpperToLower_table)

definition chains :: "nat list list" where
  "chains =
    [[84], [92], [134, 55], [82], [105], [29], [], [], [94, 66], [], [85], [72], [], [53],
     [35, 12], [86], [15, 2], [], [42, 133], [97], [54, 59], [89, 127], [135], [19], [], [],
     [140, 33], [], [40, 138, 95, 63], [129], [], [22, 13], [107], [], [9], [], [], [123, 79,
     75], [80], [], [78, 1], [6], [], [65], [103, 16], [147, 87], [], [136, 76, 58], [115,
     81], [], [], [48, 28], [], [90], [24], [], [17], [], [27, 141, 57], [70], [23], [26],
     [5, 4], [60], [142, 25], [110], [122], [], [73, 146], [91, 104, 8], [71], [145], [61],
     [120, 7, 43], [74, 3], [], [49, 77], [], [11, 114], [41], [], [113], [], [], [], [109],
     [10, 106], [111], [116, 101, 46], [125, 118, 112], [14], [50], [124, 96], [], [100], [],
     [18, 143], [121, 67, 69], [144, 102], [56, 47], [130], [139, 32], [88], [83, 31, 52],
     [37], [30, 119, 21], [126], [], [], [108], [51], [131, 99], [128, 68], [], [34, 137],
     [], [], [132, 44], [], [98], [38, 62], [39], [], [20], [45, 36], [117], [93, 64]]"

lemma hash_chains: "map chain aKWHash = chains"
  by code_simp

lemma keyword_in_chain: "list_all2 (\<lambda>i h. i \<in> set (chains ! h)) [1..<148] hashes"
  by code_simp

lemma chain_distinct: "list_all (\<lambda>c. distinct (map (\<lambda>i. kw_list ! (i - 1)) c)) chains"
  by code_simp

section \<open>The search finds exactly the keywords\<close>

definition letter :: "byte \<Rightarrow> bool" where "letter b \<longleftrightarrow> 65 \<le> b \<and> b \<le> 90"

definition keyword_ok :: "byte list \<Rightarrow> bool" where
  "keyword_ok k \<longleftrightarrow> 2 \<le> length k \<and> letter (hd k) \<and> letter (last k) \<and> kw_fold k = k"

lemma kw_list_ok: "list_all keyword_ok kw_list"
  by code_simp

lemma kw_list_lengths: "map length kw_list = tl aKWLen"
  by (simp add: kw_list_def aKWLen_def)

lemma codes_not_id: "list_all (\<lambda>c. c \<noteq> TK_ID) (tl aKWCode)"
  by code_simp

lemma table_lengths:
  "length kw_list = 147" "length hashes = 147" "length aKWLen = 148" "length aKWCode = 148"
  "length aKWHash = 127"
  by (simp_all add: kw_list_def hashes_def aKWLen_def aKWCode_def aKWHash_def)

lemma keyword_facts:
  assumes "1 \<le> i" "i < 148"
  shows "keyword i = kw_list ! (i - 1)" "length (keyword i) = aKWLen ! i" "2 \<le> length (keyword i)"
    "letter (hd (keyword i))" "letter (last (keyword i))" "kw_fold (keyword i) = keyword i"
    "aKWCode ! i \<noteq> TK_ID"
proof -
  have "map keyword [1..<148] ! (i - 1) = keyword i"
    using assms by (subst nth_map) auto
  then show k: "keyword i = kw_list ! (i - 1)"
    by (simp only: all_keywords)
  have "map length kw_list ! (i - 1) = tl aKWLen ! (i - 1)"
    by (simp only: kw_list_lengths)
  then show "length (keyword i) = aKWLen ! i"
    using assms by (simp add: k table_lengths nth_tl)
  show "2 \<le> length (keyword i)" "letter (hd (keyword i))" "letter (last (keyword i))"
    "kw_fold (keyword i) = keyword i"
    using assms kw_list_ok by (simp_all add: k keyword_ok_def list_all_length table_lengths)
  show "aKWCode ! i \<noteq> TK_ID"
    using assms list_all_length [of "\<lambda>c. c \<noteq> TK_ID" "tl aKWCode"] codes_not_id
    by (cases i) (simp_all add: table_lengths nth_tl)
qed

lemma kw_hash_ends:
  "w \<noteq> [] \<Longrightarrow> kw_hash (w @ y) (length w) = end_hash w (length w)"
proof -
  assume w: "w \<noteq> []"
  have "cstr (w @ y) 0 = hd w"
    using w by (cases w) (simp_all add: cstr_def)
  moreover have "cstr (w @ y) (length w - 1) = last w"
    using w by (cases w rule: rev_cases) (simp_all add: cstr_def nth_append)
  ultimately show ?thesis by (simp add: kw_hash_def end_hash_def)
qed

lemma letter_case: "letter (b AND NOT 0x20) \<Longrightarrow> UpperToLower (b AND NOT 0x20) = UpperToLower b"
proof -
  have "list_all (\<lambda>b. letter (b AND NOT 0x20) \<longrightarrow> UpperToLower (b AND NOT 0x20) = UpperToLower b) all_bytes"
    by code_simp
  then show "letter (b AND NOT 0x20) \<Longrightarrow> UpperToLower (b AND NOT 0x20) = UpperToLower b"
    using all_bytesI [of "\<lambda>b. letter (b AND NOT 0x20) \<longrightarrow> UpperToLower (b AND NOT 0x20) = UpperToLower b" b]
    by blast
qed

lemma end_hash_fold:
  assumes "w \<noteq> []" "letter (hd (kw_fold w))" "letter (last (kw_fold w))"
  shows "end_hash (kw_fold w) n = end_hash w n"
  using assms letter_case [of "hd w"] letter_case [of "last w"]
  by (simp add: end_hash_def kw_fold_def hd_map last_map)

lemma keyword_hash:
  assumes "1 \<le> i" "i < 148"
  shows "i \<in> set (chain (aKWHash ! end_hash (keyword i) (length (keyword i))))"
    "end_hash (keyword i) (length (keyword i)) < 127"
proof -
  have "map2 end_hash kw_list (tl aKWLen) ! (i - 1) = end_hash (keyword i) (length (keyword i))"
    using assms keyword_facts(1,2) [OF assms] by (simp add: table_lengths nth_tl)
  then have h: "end_hash (keyword i) (length (keyword i)) = hashes ! (i - 1)"
    by (simp only: keyword_hashes)
  show l: "end_hash (keyword i) (length (keyword i)) < 127"
    by (simp add: end_hash_def)
  have "i \<in> set (chains ! (hashes ! (i - 1)))"
    using assms list_all2_nthD [OF keyword_in_chain, of "i - 1"] by auto
  then show "i \<in> set (chain (aKWHash ! end_hash (keyword i) (length (keyword i))))"
    using l by (simp add: h table_lengths flip: hash_chains)
qed

lemma chain_range: "i \<in> set (chain j) \<Longrightarrow> 1 \<le> i \<and> i < 148"
proof (induction j rule: chain.induct)
  case (1 j)
  then show ?case by (subst (asm) chain.simps) (auto split: if_splits)
qed

lemma keyword_unique:
  assumes "1 \<le> i" "i < 148" "1 \<le> j" "j < 148" "keyword i = keyword j"
  shows "i = j"
proof -
  define c where "c = chain (aKWHash ! end_hash (keyword i) (length (keyword i)))"
  have c: "i \<in> set c" "j \<in> set c"
    using keyword_hash [of i] keyword_hash [of j] assms by (simp_all add: c_def)
  have "c \<in> set chains"
    using keyword_hash(2) [OF assms(1,2)] by (simp add: c_def table_lengths flip: hash_chains)
  then have "inj_on (\<lambda>i. kw_list ! (i - 1)) (set c)"
    using chain_distinct by (simp add: list_all_iff distinct_map)
  then show ?thesis
    using c assms keyword_facts(1) [of i] keyword_facts(1) [of j] by (auto dest: inj_onD)
qed

lemma match_loop_all:
  "\<not> match_loop z zKW n j < n \<longleftrightarrow> (\<forall>k. j \<le> k \<and> k < n \<longrightarrow> cstr z k AND NOT 0x20 = cstr zKW k)"
proof (induction z zKW n j rule: match_loop.induct)
  case (1 z zKW n j)
  show ?case
  proof (cases "j < n \<and> cstr z j AND NOT 0x20 = cstr zKW j")
    case True
    have "(\<forall>k. j \<le> k \<and> k < n \<longrightarrow> cstr z k AND NOT 0x20 = cstr zKW k) \<longleftrightarrow>
        (\<forall>k. j + 1 \<le> k \<and> k < n \<longrightarrow> cstr z k AND NOT 0x20 = cstr zKW k)"
      using True by (metis Suc_eq_plus1 Suc_leD le_antisym not_less_eq_eq)
    then show ?thesis
      using 1 [OF True] True by (subst match_loop.simps) simp
  next
    case False
    then show ?thesis by (subst match_loop.simps) auto
  qed
qed

lemma all_less_split:
  assumes "2 \<le> (n::nat)"
  shows "(\<forall>k<n. P k) \<longleftrightarrow> P 0 \<and> P 1 \<and> (\<forall>k. 2 \<le> k \<and> k < n \<longrightarrow> P k)"
proof
  assume "\<forall>k<n. P k"
  then show "P 0 \<and> P 1 \<and> (\<forall>k. 2 \<le> k \<and> k < n \<longrightarrow> P k)"
    using assms by simp
next
  assume r: "P 0 \<and> P 1 \<and> (\<forall>k. 2 \<le> k \<and> k < n \<longrightarrow> P k)"
  show "\<forall>k<n. P k"
  proof (intro allI impI)
    fix k assume "k < n"
    consider "k = 0" | "k = 1" | "2 \<le> k" by linarith
    then show "P k" using r \<open>k < n\<close> by cases auto
  qed
qed

lemma kw_matches_keyword:
  assumes "1 \<le> i" "i < 148" "2 \<le> length w"
  shows "kw_matches (w @ y) (length w) i \<longleftrightarrow> keyword i = kw_fold w"
proof -
  let ?K = "drop (aKWOffset ! i) zKWText"
  have "kw_matches (w @ y) (length w) i \<longleftrightarrow> aKWLen ! i = length w \<and>
      (\<forall>k < length w. cstr (w @ y) k AND NOT 0x20 = cstr ?K k)"
    unfolding kw_matches_def Let_def match_loop_all all_less_split [OF assms(3)] by blast
  moreover have "cstr (w @ y) k = w ! k" if "k < length w" for k
    using that by (simp add: cstr_def nth_append)
  moreover have "cstr ?K k = keyword i ! k" if "k < aKWLen ! i" for k
    using that keyword_facts(2) [OF assms(1,2)] by (auto simp: keyword_def cstr_def)
  ultimately show ?thesis
    using keyword_facts(2) [OF assms(1,2)] by (auto simp: list_eq_iff_nth_eq kw_fold_def)
qed

lemma kw_search_find: "kw_search z n i = find (kw_matches z n) (chain i)"
proof (induction z n i rule: kw_search.induct)
  case (1 z n i)
  then show ?case
    by (subst kw_search.simps, subst chain.simps) auto
qed

lemma find_unique:
  assumes "x \<in> set xs" "P x" "\<And>y. y \<in> set xs \<Longrightarrow> P y \<Longrightarrow> y = x"
  shows "find P xs = Some x"
proof (cases "find P xs")
  case None
  then show ?thesis using assms(1,2) by (auto simp: find_None_iff)
next
  case (Some z)
  then have "z \<in> set xs" "P z" by (auto simp: find_Some_iff)
  then show ?thesis using Some assms(3) [of z] by simp
qed

lemma search_keyword:
  assumes "2 \<le> length w"
  shows "kw_search (w @ y) (length w) (aKWHash ! kw_hash (w @ y) (length w)) =
    find (\<lambda>i. keyword i = kw_fold w) [1..<148]"
proof -
  define c where "c = chain (aKWHash ! kw_hash (w @ y) (length w))"
  have w: "w \<noteq> []" using assms by auto
  have m: "kw_matches (w @ y) (length w) i \<longleftrightarrow> keyword i = kw_fold w" if "i \<in> set c" for i
    using kw_matches_keyword [OF _ _ assms] chain_range that unfolding c_def by blast
  show ?thesis
  proof (cases "\<exists>i. 1 \<le> i \<and> i < 148 \<and> keyword i = kw_fold w")
    case True
    then obtain i where i: "1 \<le> i" "i < 148" "keyword i = kw_fold w" by blast
    have "end_hash w (length w) = end_hash (keyword i) (length (keyword i))"
      using keyword_facts(4,5) [OF i(1,2)] end_hash_fold [OF w, of "length w"]
      by (simp add: i(3)) (simp add: kw_fold_def)
    then have ic: "i \<in> set c"
      using keyword_hash(1) [OF i(1,2)] by (simp add: c_def kw_hash_ends [OF w])
    have "find (kw_matches (w @ y) (length w)) c = Some i"
    proof (rule find_unique)
      show "i \<in> set c" "kw_matches (w @ y) (length w) i"
        using ic i(3) m [OF ic] by simp_all
      show "j = i" if j: "j \<in> set c" "kw_matches (w @ y) (length w) j" for j
      proof (rule keyword_unique)
        show "1 \<le> j" "j < 148" using chain_range j(1) unfolding c_def by blast+
        show "1 \<le> i" "i < 148" by (rule i)+
        show "keyword j = keyword i" using m [OF j(1)] j(2) i(3) by simp
      qed
    qed
    moreover have "find (\<lambda>i. keyword i = kw_fold w) [1..<148] = Some i"
    proof (rule find_unique)
      show "i \<in> set [1..<148]" "keyword i = kw_fold w" using i by simp_all
      show "j = i" if "j \<in> set [1..<148]" "keyword j = kw_fold w" for j
        using that i keyword_unique [of j i] by simp
    qed
    ultimately show ?thesis
      by (simp add: kw_search_find c_def)
  next
    case False
    then have "find (kw_matches (w @ y) (length w)) c = None"
      using m chain_range unfolding c_def find_None_iff by blast
    moreover have "find (\<lambda>i. keyword i = kw_fold w) [1..<148] = None"
      using False by (auto simp: find_None_iff)
    ultimately show ?thesis
      by (simp add: kw_search_find c_def)
  qed
qed

lemma keyword_code:
  "sqlite3KeywordCode (w @ y) (length w) =
    (case find (\<lambda>i. keyword i = kw_fold w) [1..<148] of None \<Rightarrow> TK_ID | Some i \<Rightarrow> aKWCode ! i)"
proof (cases "2 \<le> length w")
  case True
  then show ?thesis
    by (simp add: sqlite3KeywordCode_def keywordCode_def search_keyword split: option.splits)
next
  case False
  have "keyword i \<noteq> kw_fold w" if "i \<in> set [1..<148]" for i
    using that False keyword_facts(3) [of i] by (auto simp: kw_fold_def)
  then have "find (\<lambda>i. keyword i = kw_fold w) [1..<148] = None"
    by (simp only: find_None_iff) blast
  then show ?thesis
    using False by (simp add: sqlite3KeywordCode_def)
qed

lemma keyword_name:
  assumes "0 \<le> i" "i < 147"
  shows "\<exists>y. sqlite3_keyword_name i =
    Some (keyword (nat i + 1) @ y, length (keyword (nat i + 1)))"
proof -
  let ?j = "nat i + 1"
  have j: "1 \<le> ?j" "?j < 148" using assms by auto
  have "drop (aKWOffset ! ?j) zKWText = keyword ?j @ drop (aKWLen ! ?j) (drop (aKWOffset ! ?j) zKWText)"
    unfolding keyword_def by (rule append_take_drop_id [symmetric])
  then show ?thesis
    using assms keyword_facts(2) [OF j]
    by (auto simp: sqlite3_keyword_name_def SQLITE_N_KEYWORD_def nat_add_distrib intro!: exI)
qed

lemma keyword_itself:
  assumes "1 \<le> i" "i < 148"
  shows "sqlite3KeywordCode (keyword i @ y) (length (keyword i)) = aKWCode ! i"
proof -
  have "find (\<lambda>j. keyword j = kw_fold (keyword i)) [1..<148] = Some i"
  proof (rule find_unique)
    show "i \<in> set [1..<148]" "keyword i = kw_fold (keyword i)"
      using assms keyword_facts(6) [OF assms] by simp_all
    show "j = i" if "j \<in> set [1..<148]" "keyword j = kw_fold (keyword i)" for j
      using that assms keyword_facts(6) [OF assms] keyword_unique [of j i] by simp
  qed
  then show ?thesis by (simp only: keyword_code option.case)
qed

lemma keyword_check:
  "sqlite3_keyword_check (w @ y) (length w) \<longleftrightarrow> (\<exists>i \<in> {1..<148}. keyword i = kw_fold w)"
proof (cases "find (\<lambda>i. keyword i = kw_fold w) [1..<148]")
  case None
  then have "\<not> (\<exists>i \<in> {1..<148}. keyword i = kw_fold w)"
    by (auto simp: find_None_iff)
  then show ?thesis
    unfolding sqlite3_keyword_check_def keyword_code None by simp
next
  case (Some i)
  then have i: "1 \<le> i" "i < 148" "keyword i = kw_fold w"
    by (auto simp: find_Some_iff)
  then have "\<exists>i \<in> {1..<148}. keyword i = kw_fold w" by auto
  then show ?thesis
    using keyword_facts(7) [OF i(1,2)] unfolding sqlite3_keyword_check_def keyword_code Some by simp
qed

lemma keyword_name_cases:
  "case sqlite3_keyword_name i of
     None \<Rightarrow> i \<notin> {0..<sqlite3_keyword_count}
   | Some (z, n) \<Rightarrow> i \<in> {0..<sqlite3_keyword_count} \<and> take n z = keyword (nat i + 1) \<and>
       sqlite3KeywordCode z n = aKWCode ! (nat i + 1) \<and> sqlite3_keyword_check z n"
proof (cases "0 \<le> i \<and> i < 147")
  case True
  then have j: "1 \<le> nat i + 1" "nat i + 1 < 148" by auto
  obtain y where "sqlite3_keyword_name i = Some (keyword (nat i + 1) @ y, length (keyword (nat i + 1)))"
    using keyword_name True by blast
  then show ?thesis
    using True keyword_itself [OF j] keyword_facts(7) [OF j]
    by (simp add: sqlite3_keyword_count_def SQLITE_N_KEYWORD_def sqlite3_keyword_check_def)
next
  case False
  then show ?thesis
    by (auto simp: sqlite3_keyword_name_def sqlite3_keyword_count_def SQLITE_N_KEYWORD_def)
qed
text \<open>
  C36. Whatever text follows, the search of the hash table gives a word the code of the
  keyword it equals up to the case mask and TK_ID otherwise, so it equals a search of all 147
  keywords; sqlite3_keyword_check holds of exactly those words, and sqlite3_keyword_name gives
  each keyword, which is recognised, for the indices below sqlite3_keyword_count and an error
  for all others.
\<close>

theorem keyword_lookup_is_exact:
  "sqlite3KeywordCode (w @ y) (length w) =
     (case find (\<lambda>i. keyword i = kw_fold w) [1..<148] of None \<Rightarrow> TK_ID | Some i \<Rightarrow> aKWCode ! i) \<and>
   (sqlite3_keyword_check (w @ y) (length w) \<longleftrightarrow> (\<exists>i \<in> {1..<148}. keyword i = kw_fold w)) \<and>
   (case sqlite3_keyword_name i of
      None \<Rightarrow> i \<notin> {0..<sqlite3_keyword_count}
    | Some (z, n) \<Rightarrow> i \<in> {0..<sqlite3_keyword_count} \<and> take n z = keyword (nat i + 1) \<and>
        sqlite3KeywordCode z n = aKWCode ! (nat i + 1) \<and> sqlite3_keyword_check z n)"
  by (intro conjI keyword_code keyword_check keyword_name_cases)

text \<open>The mask that folds the case also maps the byte 0x7F to the underscore.\<close>

lemma delete_is_underscore:
  "kw_fold [67, 85, 82, 82, 69, 78, 84, 0x7F, 68, 65, 84, 69] = keyword 81"
  unfolding keyword_facts(1) [of 81, simplified] by (simp add: kw_fold_def kw_list_def)

lemma keyword_check_accepts_delete:
  "sqlite3_keyword_check [67, 85, 82, 82, 69, 78, 84, 0x7F, 68, 65, 84, 69] 12"
proof -
  let ?w = "[67, 85, 82, 82, 69, 78, 84, 0x7F, 68, 65, 84, 69] :: byte list"
  have "sqlite3_keyword_check (?w @ []) (length ?w)"
    unfolding keyword_check delete_is_underscore by (intro bexI [of _ 81]) simp_all
  moreover have "length ?w = 12" by simp
  ultimately show ?thesis by (simp only: append_Nil2)
qed

end
