(* ===== verification/Sqlite_Token.thy ===== *)
theory Sqlite_Token
  imports Sqlite_Keyword
begin

text \<open>
  The tokenizer of the bundled SQLite (the \<open>tokenize.c\<close> part of \<open>native/sqlite3/sqlite3.c\<close>):
  the character classes, \<open>sqlite3GetToken\<close>, the treatment of \<open>WINDOW\<close>, \<open>OVER\<close> and \<open>FILTER\<close> and
  the loop of \<open>sqlite3RunParser\<close> that feeds the parser. The text is the list of its bytes before
  the NUL; a call returns the token code and the length of the token.
\<close>

section \<open>Character classes\<close>

definition CC_X :: nat where "CC_X = 0"
definition CC_KYWD0 :: nat where "CC_KYWD0 = 1"
definition CC_KYWD :: nat where "CC_KYWD = 2"
definition CC_DIGIT :: nat where "CC_DIGIT = 3"
definition CC_DOLLAR :: nat where "CC_DOLLAR = 4"
definition CC_VARALPHA :: nat where "CC_VARALPHA = 5"
definition CC_VARNUM :: nat where "CC_VARNUM = 6"
definition CC_SPACE :: nat where "CC_SPACE = 7"
definition CC_QUOTE :: nat where "CC_QUOTE = 8"
definition CC_QUOTE2 :: nat where "CC_QUOTE2 = 9"
definition CC_PIPE :: nat where "CC_PIPE = 10"
definition CC_MINUS :: nat where "CC_MINUS = 11"
definition CC_LT :: nat where "CC_LT = 12"
definition CC_GT :: nat where "CC_GT = 13"
definition CC_EQ :: nat where "CC_EQ = 14"
definition CC_BANG :: nat where "CC_BANG = 15"
definition CC_SLASH :: nat where "CC_SLASH = 16"
definition CC_LP :: nat where "CC_LP = 17"
definition CC_RP :: nat where "CC_RP = 18"
definition CC_SEMI :: nat where "CC_SEMI = 19"
definition CC_PLUS :: nat where "CC_PLUS = 20"
definition CC_STAR :: nat where "CC_STAR = 21"
definition CC_PERCENT :: nat where "CC_PERCENT = 22"
definition CC_COMMA :: nat where "CC_COMMA = 23"
definition CC_AND :: nat where "CC_AND = 24"
definition CC_TILDA :: nat where "CC_TILDA = 25"
definition CC_DOT :: nat where "CC_DOT = 26"
definition CC_ID :: nat where "CC_ID = 27"
definition CC_ILLEGAL :: nat where "CC_ILLEGAL = 28"
definition CC_NUL :: nat where "CC_NUL = 29"
definition CC_BOM :: nat where "CC_BOM = 30"

lemmas CC_defs =
  CC_X_def CC_KYWD0_def CC_KYWD_def CC_DIGIT_def CC_DOLLAR_def CC_VARALPHA_def CC_VARNUM_def
  CC_SPACE_def CC_QUOTE_def CC_QUOTE2_def CC_PIPE_def CC_MINUS_def CC_LT_def CC_GT_def CC_EQ_def
  CC_BANG_def CC_SLASH_def CC_LP_def CC_RP_def CC_SEMI_def CC_PLUS_def CC_STAR_def CC_PERCENT_def
  CC_COMMA_def CC_AND_def CC_TILDA_def CC_DOT_def CC_ID_def CC_ILLEGAL_def CC_NUL_def CC_BOM_def

definition aiClass :: "nat list" where
  "aiClass =
    [29, 28, 28, 28, 28, 28, 28, 28, 28, 7, 7, 28, 7, 7, 28, 28,
     28, 28, 28, 28, 28, 28, 28, 28, 28, 28, 28, 28, 28, 28, 28, 28,
     7, 15, 8, 5, 4, 22, 24, 8, 17, 18, 21, 20, 23, 11, 26, 16,
     3, 3, 3, 3, 3, 3, 3, 3, 3, 3, 5, 19, 12, 14, 13, 6,
     5, 1, 1, 1, 1, 1, 1, 1, 1, 1, 1, 1, 1, 1, 1, 1,
     1, 1, 1, 1, 1, 1, 1, 1, 0, 2, 2, 9, 28, 28, 28, 2,
     8, 1, 1, 1, 1, 1, 1, 1, 1, 1, 1, 1, 1, 1, 1, 1,
     1, 1, 1, 1, 1, 1, 1, 1, 0, 2, 2, 28, 10, 28, 25, 28,
     27, 27, 27, 27, 27, 27, 27, 27, 27, 27, 27, 27, 27, 27, 27, 27,
     27, 27, 27, 27, 27, 27, 27, 27, 27, 27, 27, 27, 27, 27, 27, 27,
     27, 27, 27, 27, 27, 27, 27, 27, 27, 27, 27, 27, 27, 27, 27, 27,
     27, 27, 27, 27, 27, 27, 27, 27, 27, 27, 27, 27, 27, 27, 27, 27,
     27, 27, 27, 27, 27, 27, 27, 27, 27, 27, 27, 27, 27, 27, 27, 27,
     27, 27, 27, 27, 27, 27, 27, 27, 27, 27, 27, 27, 27, 27, 27, 27,
     27, 27, 27, 27, 27, 27, 27, 27, 27, 27, 27, 27, 27, 27, 27, 30,
     27, 27, 27, 27, 27, 27, 27, 27, 27, 27, 27, 27, 27, 27, 27, 27]"

definition class_of :: "byte \<Rightarrow> nat" where "class_of c = aiClass ! unat c"

section \<open>The loops\<close>

text \<open>\<open>for(; p(z[i]); i++){}\<close>, for a \<open>p\<close> that does not hold of the NUL.\<close>

definition scan :: "(byte \<Rightarrow> bool) \<Rightarrow> byte list \<Rightarrow> nat \<Rightarrow> nat" where
  "scan p z i = i + length (takeWhile p (drop i z))"

text \<open>The end of a C-style comment: \<open>i\<close> and \<open>c\<close> after the loop, for the text from \<open>z[i]\<close> on.\<close>

fun slash_loop :: "byte \<Rightarrow> byte list \<Rightarrow> nat \<Rightarrow> nat \<times> byte" where
  "slash_loop c [] i = (i, 0)"
| "slash_loop c (d # z) i = (if c \<noteq> 42 \<or> d \<noteq> 47 then slash_loop d z (i + 1) else (i, c))"

fun quote_loop :: "byte \<Rightarrow> byte list \<Rightarrow> nat \<Rightarrow> nat \<times> byte" where
  "quote_loop delim [] i = (i, 0)"
| "quote_loop delim (c # z) i =
     (if c = delim then
        (case z of
           [] \<Rightarrow> (i, c)
         | d # y \<Rightarrow> if d = delim then quote_loop delim y (i + 2) else (i, c))
      else quote_loop delim z (i + 1))"

text \<open>A run of digits with separators: the token type and \<open>i\<close> after the loop.\<close>

fun digit_loop :: "(byte \<Rightarrow> bool) \<Rightarrow> byte list \<Rightarrow> int \<Rightarrow> nat \<Rightarrow> int \<times> nat" where
  "digit_loop p [] t i = (t, i)"
| "digit_loop p (c # z) t i =
     (if \<not> p c then (if c = 95 then digit_loop p z TK_QNUMBER (i + 1) else (t, i))
      else digit_loop p z t (i + 1))"

text \<open>The name of a variable: the token type, \<open>n\<close> and \<open>i\<close> after the loop.\<close>

fun var_loop :: "byte list \<Rightarrow> int \<Rightarrow> nat \<Rightarrow> nat \<Rightarrow> int \<times> nat \<times> nat" where
  "var_loop [] t n i = (t, n, i)"
| "var_loop (c # z) t n i =
     (if IdChar c then var_loop z t (n + 1) (i + 1)
      else if c = 40 \<and> 0 < n then
        (let k = length (takeWhile (\<lambda>c. \<not> sqlite3Isspace c \<and> c \<noteq> 41) z) in
         if cstr z k = 41 then (t, n, i + 1 + k + 1) else (TK_ILLEGAL, n, i + 1 + k))
      else if c = 58 \<and> cstr z 0 = 58 then var_loop (tl z) t n (i + 2)
      else (t, n, i))"

section \<open>The branches of sqlite3GetToken\<close>

definition token_id :: "byte list \<Rightarrow> nat \<Rightarrow> int \<times> nat" where
  "token_id z i = (TK_ID, scan IdChar z i)"

definition token_minus :: "byte list \<Rightarrow> int \<times> nat" where
  "token_minus z =
     (if cstr z 1 = 45 then (TK_COMMENT, scan (\<lambda>c. c \<noteq> 10) z 2)
      else if cstr z 1 = 62 then (TK_PTR, 2 + (if cstr z 2 = 62 then 1 else 0))
      else (TK_MINUS, 1))"

definition token_slash :: "byte list \<Rightarrow> int \<times> nat" where
  "token_slash z =
     (if cstr z 1 \<noteq> 42 \<or> cstr z 2 = 0 then (TK_SLASH, 1)
      else case slash_loop (cstr z 2) (drop 3 z) 3 of
        (i, c) \<Rightarrow> (TK_COMMENT, if c \<noteq> 0 then i + 1 else i))"

definition token_lt :: "byte list \<Rightarrow> int \<times> nat" where
  "token_lt z =
     (if cstr z 1 = 61 then (TK_LE, 2)
      else if cstr z 1 = 62 then (TK_NE, 2)
      else if cstr z 1 = 60 then (TK_LSHIFT, 2)
      else (TK_LT, 1))"

definition token_gt :: "byte list \<Rightarrow> int \<times> nat" where
  "token_gt z =
     (if cstr z 1 = 61 then (TK_GE, 2)
      else if cstr z 1 = 62 then (TK_RSHIFT, 2)
      else (TK_GT, 1))"

definition token_quote :: "byte list \<Rightarrow> int \<times> nat" where
  "token_quote z =
     (case quote_loop (cstr z 0) (drop 1 z) 1 of (i, c) \<Rightarrow>
        if c = 39 then (TK_STRING, i + 1)
        else if c \<noteq> 0 then (TK_ID, i + 1)
        else (TK_ILLEGAL, i))"

definition number_hex :: "byte list \<Rightarrow> int \<times> nat" where
  "number_hex z = digit_loop sqlite3Isxdigit (drop 3 z) TK_INTEGER 3"

definition number_fraction :: "byte list \<Rightarrow> int \<times> nat \<Rightarrow> int \<times> nat" where
  "number_fraction z = (\<lambda>(t, i).
     if cstr z i = 46 then
       digit_loop sqlite3IsDigit (drop (i + 1) z) (if t = TK_INTEGER then TK_FLOAT else t) (i + 1)
     else (t, i))"

definition number_exponent :: "byte list \<Rightarrow> int \<times> nat \<Rightarrow> int \<times> nat" where
  "number_exponent z = (\<lambda>(t, i).
     if (cstr z i = 101 \<or> cstr z i = 69) \<and>
        (sqlite3IsDigit (cstr z (i + 1)) \<or>
         (cstr z (i + 1) = 43 \<or> cstr z (i + 1) = 45) \<and> sqlite3IsDigit (cstr z (i + 2)))
     then digit_loop sqlite3IsDigit (drop (i + 2) z) (if t = TK_INTEGER then TK_FLOAT else t) (i + 2)
     else (t, i))"

definition number_tail :: "byte list \<Rightarrow> int \<times> nat \<Rightarrow> int \<times> nat" where
  "number_tail z = (\<lambda>(t, i). (if IdChar (cstr z i) then TK_ILLEGAL else t, scan IdChar z i))"

definition token_number :: "byte list \<Rightarrow> int \<times> nat" where
  "token_number z = number_tail z
     (if cstr z 0 = 48 \<and> (cstr z 1 = 120 \<or> cstr z 1 = 88) \<and> sqlite3Isxdigit (cstr z 2)
      then number_hex z
      else number_exponent z (number_fraction z (digit_loop sqlite3IsDigit z TK_INTEGER 0)))"

definition token_bracket :: "byte list \<Rightarrow> int \<times> nat" where
  "token_bracket z =
     (let i = scan (\<lambda>c. c \<noteq> 93) z 1 in
      if cstr z i = 93 then (TK_ID, i + 1) else (TK_ILLEGAL, i))"

definition token_variable :: "byte list \<Rightarrow> int \<times> nat" where
  "token_variable z =
     (case var_loop (drop 1 z) TK_VARIABLE 0 1 of (t, n, i) \<Rightarrow> (if n = 0 then TK_ILLEGAL else t, i))"

definition token_keyword :: "byte list \<Rightarrow> int \<times> nat" where
  "token_keyword z =
     (if CC_KYWD < class_of (cstr z 1) then token_id z 1
      else let i = scan (\<lambda>c. class_of c \<le> CC_KYWD) z 2 in
        if IdChar (cstr z i) then token_id z (i + 1)
        else (keywordCode z i TK_ID, i))"

definition token_blob :: "byte list \<Rightarrow> int \<times> nat" where
  "token_blob z =
     (let i = scan sqlite3Isxdigit z 2;
          (t, i) = (if cstr z i \<noteq> 39 \<or> odd i then (TK_ILLEGAL, scan (\<lambda>c. c \<noteq> 39) z i)
                    else (TK_BLOB, i)) in
      (t, if cstr z i \<noteq> 0 then i + 1 else i))"

section \<open>sqlite3GetToken\<close>

text \<open>The \<open>switch\<close> on the class of the first byte.\<close>

definition token_of_class :: "nat \<Rightarrow> byte list \<Rightarrow> int \<times> nat" where
  "token_of_class c z =
     (if c = CC_SPACE then (TK_SPACE, scan sqlite3Isspace z 1)
      else if c = CC_MINUS then token_minus z
      else if c = CC_LP then (TK_LP, 1)
      else if c = CC_RP then (TK_RP, 1)
      else if c = CC_SEMI then (TK_SEMI, 1)
      else if c = CC_PLUS then (TK_PLUS, 1)
      else if c = CC_STAR then (TK_STAR, 1)
      else if c = CC_SLASH then token_slash z
      else if c = CC_PERCENT then (TK_REM, 1)
      else if c = CC_EQ then (TK_EQ, 1 + (if cstr z 1 = 61 then 1 else 0))
      else if c = CC_LT then token_lt z
      else if c = CC_GT then token_gt z
      else if c = CC_BANG then (if cstr z 1 \<noteq> 61 then (TK_ILLEGAL, 1) else (TK_NE, 2))
      else if c = CC_PIPE then (if cstr z 1 \<noteq> 124 then (TK_BITOR, 1) else (TK_CONCAT, 2))
      else if c = CC_COMMA then (TK_COMMA, 1)
      else if c = CC_AND then (TK_BITAND, 1)
      else if c = CC_TILDA then (TK_BITNOT, 1)
      else if c = CC_QUOTE then token_quote z
      else if c = CC_DOT then (if \<not> sqlite3IsDigit (cstr z 1) then (TK_DOT, 1) else token_number z)
      else if c = CC_DIGIT then token_number z
      else if c = CC_QUOTE2 then token_bracket z
      else if c = CC_VARNUM then (TK_VARIABLE, scan sqlite3IsDigit z 1)
      else if c = CC_DOLLAR \<or> c = CC_VARALPHA then token_variable z
      else if c = CC_KYWD0 then token_keyword z
      else if c = CC_X then (if cstr z 1 = 39 then token_blob z else token_id z 1)
      else if c = CC_KYWD \<or> c = CC_ID then token_id z 1
      else if c = CC_BOM then
        (if cstr z 1 = 0xBB \<and> cstr z 2 = 0xBF then (TK_SPACE, 3) else token_id z 1)
      else if c = CC_NUL then (TK_ILLEGAL, 0)
      else (TK_ILLEGAL, 1))"

definition sqlite3GetToken :: "byte list \<Rightarrow> int \<times> nat" where
  "sqlite3GetToken z = token_of_class (class_of (cstr z 0)) z"

section \<open>A token lies inside the text\<close>

lemma scan_le: "i \<le> length z \<Longrightarrow> i \<le> scan p z i \<and> scan p z i \<le> length z"
  using length_takeWhile_le [of p "drop i z"] by (simp add: scan_def)

lemma cstr_in: "cstr z i \<noteq> 0 \<Longrightarrow> i < length z"
  by (auto simp: cstr_def split: if_splits)

lemma slash_loop_le:
  "slash_loop c z i = (j, d) \<Longrightarrow> i \<le> j \<and> j + (if d \<noteq> 0 then 1 else 0) \<le> i + length z"
  by (induction c z i rule: slash_loop.induct) (fastforce split: if_splits)+

lemma quote_loop_le:
  "quote_loop q z i = (j, d) \<Longrightarrow> i \<le> j \<and> j + (if d \<noteq> 0 then 1 else 0) \<le> i + length z"
  by (induction q z i rule: quote_loop.induct) (fastforce split: if_splits list.splits)+

lemma digit_loop_le: "digit_loop p z t i = (u, j) \<Longrightarrow> i \<le> j \<and> j \<le> i + length z"
  by (induction p z t i rule: digit_loop.induct) (fastforce split: if_splits)+

lemma var_loop_le: "var_loop z t n i = (u, m, j) \<Longrightarrow> i \<le> j \<and> j \<le> i + length z"
proof (induction z t n i rule: var_loop.induct)
  case (2 c z t n i)
  let ?k = "length (takeWhile (\<lambda>c. \<not> sqlite3Isspace c \<and> c \<noteq> 41) z)"
  have "cstr z ?k = 41 \<Longrightarrow> ?k < length z" "?k \<le> length z"
    using cstr_in [of z ?k] length_takeWhile_le by auto
  moreover have "cstr z 0 = 58 \<Longrightarrow> 0 < length z"
    using cstr_in [of z 0] by simp
  ultimately show ?case
    using 2 by (cases z) (auto simp: Let_def split: if_splits)
qed simp

definition inside :: "byte list \<Rightarrow> int \<times> nat \<Rightarrow> bool" where
  "inside z p \<longleftrightarrow> 1 \<le> snd p \<and> snd p \<le> length z"

lemma inside_intros:
  "(b \<Longrightarrow> inside z p) \<Longrightarrow> (\<not> b \<Longrightarrow> inside z q) \<Longrightarrow> inside z (if b then p else q)"
  "z \<noteq> [] \<Longrightarrow> inside z (t, 1)" "z \<noteq> [] \<Longrightarrow> inside z (t, Suc 0)"
  "cstr z 1 \<noteq> 0 \<Longrightarrow> inside z (t, 2)" "cstr z 2 \<noteq> 0 \<Longrightarrow> inside z (t, 3)"
  "1 \<le> i \<Longrightarrow> i \<le> length z \<Longrightarrow> inside z (t, scan P z i)"
  using scan_le [of i z P] by (auto simp: inside_def Suc_le_eq dest: cstr_in)

lemma token_id_inside: "1 \<le> i \<Longrightarrow> i \<le> length z \<Longrightarrow> inside z (token_id z i)"
  unfolding token_id_def by (rule inside_intros)

lemma token_minus_inside: "z \<noteq> [] \<Longrightarrow> inside z (token_minus z)"
  using cstr_in [of z 1] cstr_in [of z 2] scan_le [of 2 z "\<lambda>c. c \<noteq> 10"]
  by (auto simp: token_minus_def inside_def Suc_le_eq)

lemma token_slash_inside: "z \<noteq> [] \<Longrightarrow> inside z (token_slash z)"
proof -
  assume z: "z \<noteq> []"
  obtain i d where l: "slash_loop (cstr z 2) (drop 3 z) 3 = (i, d)" by fastforce
  show ?thesis
    using z slash_loop_le [OF l] cstr_in [of z 2]
    by (auto simp: token_slash_def inside_def l Suc_le_eq split: if_splits)
qed

lemma token_lt_gt_inside: "z \<noteq> [] \<Longrightarrow> inside z (token_lt z)" "z \<noteq> [] \<Longrightarrow> inside z (token_gt z)"
  by (auto simp: token_lt_def token_gt_def intro!: inside_intros)

lemma token_quote_inside: "z \<noteq> [] \<Longrightarrow> inside z (token_quote z)"
proof -
  assume z: "z \<noteq> []"
  obtain i d where l: "quote_loop (cstr z 0) (drop (Suc 0) z) (Suc 0) = (i, d)" by fastforce
  have "0 < length z" using z by simp
  then show ?thesis
    using quote_loop_le [OF l]
    by (auto simp: token_quote_def inside_def l Suc_le_eq split: if_splits)
qed

lemma digits_bound: "i \<le> length z \<Longrightarrow> digit_loop p (drop i z) t i = (u, j) \<Longrightarrow> i \<le> j \<and> j \<le> length z"
  using digit_loop_le [of p "drop i z" t i u j] by simp

lemma number_steps_bound:
  assumes "i \<le> length z"
  shows "number_fraction z (t, i) = (u, j) \<Longrightarrow> i \<le> j \<and> j \<le> length z"
    and "number_exponent z (t, i) = (u, j) \<Longrightarrow> i \<le> j \<and> j \<le> length z"
proof -
  show "number_fraction z (t, i) = (u, j) \<Longrightarrow> i \<le> j \<and> j \<le> length z"
    using assms cstr_in [of z i] digits_bound [of "i + 1" z sqlite3IsDigit _ u j]
    by (fastforce simp: number_fraction_def split: if_splits)
  have "sqlite3IsDigit (cstr z (i + 1)) \<Longrightarrow> cstr z (i + 1) \<noteq> 0"
    by (auto simp: ctype_classes)
  then have "sqlite3IsDigit (cstr z (i + 1)) \<or> cstr z (i + 1) = 43 \<or> cstr z (i + 1) = 45 \<Longrightarrow> i + 2 \<le> length z"
    using cstr_in [of z "i + 1"] by auto
  then show "number_exponent z (t, i) = (u, j) \<Longrightarrow> i \<le> j \<and> j \<le> length z"
    using assms digits_bound [of "i + 2" z sqlite3IsDigit _ u j]
    by (fastforce simp: number_exponent_def split: if_splits)
qed

lemma scan_here: "\<not> P (cstr z i) \<Longrightarrow> \<not> P 0 \<Longrightarrow> scan P z i = i"
  by (cases "i < length z") (auto simp: scan_def cstr_def takeWhile_eq_Nil_iff hd_drop_conv_nth)

lemma token_number_inside:
  assumes "sqlite3IsDigit (cstr z 0) \<or> cstr z 0 = 46 \<and> sqlite3IsDigit (cstr z 1)"
  shows "inside z (token_number z)"
proof -
  define h where "h \<longleftrightarrow> cstr z 0 = 48 \<and> (cstr z 1 = 120 \<or> cstr z 1 = 88) \<and> sqlite3Isxdigit (cstr z 2)"
  have nz: "\<not> sqlite3IsDigit 0" "\<not> sqlite3Isxdigit 0" by code_simp+
  have tail: "inside z (number_tail z (t, i))" if "1 \<le> i" "i \<le> length z" for t i
    using that scan_le [of i z IdChar] by (auto simp: number_tail_def inside_def)
  show ?thesis
  proof (cases h)
    case True
    then have "cstr z 2 \<noteq> 0" using nz by (auto simp: h_def)
    then have l: "3 \<le> length z" using cstr_in [of z 2] by simp
    obtain t i where "number_hex z = (t, i)" by fastforce
    moreover from this have "3 \<le> i \<and> i \<le> length z"
      using digits_bound [OF l] by (simp add: number_hex_def)
    ultimately show ?thesis
      using True tail [of i t] unfolding token_number_def h_def [symmetric] by simp
  next
    case False
    obtain t i where d: "digit_loop sqlite3IsDigit z TK_INTEGER 0 = (t, i)" by fastforce
    obtain u j where f: "number_fraction z (t, i) = (u, j)" by fastforce
    obtain v k where e: "number_exponent z (u, j) = (v, k)" by fastforce
    have i: "i \<le> length z" using digit_loop_le [OF d] by simp
    have j: "i \<le> j \<and> j \<le> length z" using number_steps_bound(1) [OF i f] .
    have k: "j \<le> k \<and> k \<le> length z" using number_steps_bound(2) [OF _ e] j by simp
    have "1 \<le> j"
    proof (cases "sqlite3IsDigit (cstr z 0)")
      case True
      then obtain c y where z: "z = c # y" "sqlite3IsDigit c"
        using nz by (cases z) (auto simp: cstr_def)
      then have "1 \<le> i" using d digit_loop_le [of sqlite3IsDigit y TK_INTEGER 1 t i] by simp
      then show ?thesis using j by simp
    next
      case False
      then obtain y where z: "z = 46 # y"
        using assms by (cases z) (auto simp: cstr_def)
      have "i = 0" using d False by (simp add: z cstr_def)
      then have "digit_loop sqlite3IsDigit y (if t = TK_INTEGER then TK_FLOAT else t) 1 = (u, j)"
        using f by (simp add: number_fraction_def z cstr_def)
      then show ?thesis using digit_loop_le by blast
    qed
    then show ?thesis
      using False k tail [of k v] unfolding token_number_def h_def [symmetric] by (simp add: d f e)
  qed
qed

lemma token_bracket_inside: "z \<noteq> [] \<Longrightarrow> inside z (token_bracket z)"
  using scan_le [of 1 z "\<lambda>c. c \<noteq> 93"] cstr_in [of z "scan (\<lambda>c. c \<noteq> 93) z 1"]
  by (auto simp: token_bracket_def inside_def Let_def Suc_le_eq)

lemma token_variable_inside: "z \<noteq> [] \<Longrightarrow> inside z (token_variable z)"
proof -
  assume z: "z \<noteq> []"
  obtain t n i where l: "var_loop (drop (Suc 0) z) TK_VARIABLE 0 (Suc 0) = (t, n, i)"
    using prod_cases3 by blast
  have "0 < length z" using z by simp
  then show ?thesis
    using var_loop_le [OF l] by (auto simp: token_variable_def inside_def l)
qed

lemma class_NUL: "class_of c = CC_NUL \<longleftrightarrow> c = 0"
  unfolding class_of_def CC_NUL_def
  by (rule table_entry [where P = "\<lambda>c m. m = 29 \<longleftrightarrow> c = 0"]; code_simp)

lemma class_digit: "class_of c = CC_DIGIT \<Longrightarrow> sqlite3IsDigit c"
proof -
  have "class_of c = CC_DIGIT \<longrightarrow> sqlite3IsDigit c"
    unfolding class_of_def CC_DIGIT_def
    by (rule table_entry [where P = "\<lambda>c m. m = 3 \<longrightarrow> sqlite3IsDigit c"]; code_simp)
  then show "class_of c = CC_DIGIT \<Longrightarrow> sqlite3IsDigit c" by simp
qed

lemma class_dot: "class_of c = CC_DOT \<longleftrightarrow> c = 46"
  unfolding class_of_def CC_DOT_def
  by (rule table_entry [where P = "\<lambda>c m. m = 26 \<longleftrightarrow> c = 46"]; code_simp)

lemma class_keyword: "class_of c \<le> CC_KYWD \<Longrightarrow> c \<noteq> 0"
  using class_NUL [of c] by (auto simp: CC_defs)

lemma token_keyword_inside: "z \<noteq> [] \<Longrightarrow> inside z (token_keyword z)"
proof (cases "CC_KYWD < class_of (cstr z 1)")
  case True
  assume "z \<noteq> []"
  then show ?thesis
    using True by (simp add: token_keyword_def token_id_inside Suc_le_eq)
next
  case False
  define i where "i = scan (\<lambda>c. class_of c \<le> CC_KYWD) z 2"
  have "2 \<le> length z"
    using False class_keyword [of "cstr z 1"] cstr_in [of z 1] by simp
  then have i: "2 \<le> i" "i \<le> length z"
    using scan_le [of 2 z] by (simp_all add: i_def)
  have "\<not> IdChar 0" by code_simp
  then have "IdChar (cstr z i) \<Longrightarrow> i < length z"
    using cstr_in [of z i] by metis
  then have "inside z (if IdChar (cstr z i) then token_id z (i + 1) else (keywordCode z i TK_ID, i))"
    using i token_id_inside [of "i + 1" z] by (auto simp: inside_def Suc_le_eq)
  then show ?thesis
    using False unfolding token_keyword_def Let_def i_def [symmetric] by simp
qed

lemma token_blob_inside: "cstr z 1 \<noteq> 0 \<Longrightarrow> inside z (token_blob z)"
proof -
  assume "cstr z 1 \<noteq> 0"
  then have z: "2 \<le> length z" using cstr_in [of z 1] by simp
  define i where "i = scan sqlite3Isxdigit z 2"
  define j where "j = (if cstr z i \<noteq> 39 \<or> odd i then scan (\<lambda>c. c \<noteq> 39) z i else i)"
  have i: "2 \<le> i" "i \<le> length z" using scan_le [OF z] by (simp_all add: i_def)
  have j: "2 \<le> j" "j \<le> length z"
    using i scan_le [OF i(2), of "\<lambda>c. c \<noteq> 39"] by (auto simp: j_def)
  have "snd (token_blob z) = (if cstr z j \<noteq> 0 then j + 1 else j)"
    by (simp add: token_blob_def i_def [symmetric] j_def Let_def)
  then show ?thesis
    using j cstr_in [of z j] by (auto simp: inside_def Suc_le_eq)
qed

lemma GetToken_inside: "cstr z 0 \<noteq> 0 \<Longrightarrow> inside z (sqlite3GetToken z)"
proof -
  assume c: "cstr z 0 \<noteq> 0"
  then have z: "z \<noteq> []" by (auto simp: cstr_def)
  then have l: "1 \<le> length z" by (simp add: Suc_le_eq)
  note parts = token_minus_inside [OF z] token_slash_inside [OF z] token_lt_gt_inside [OF z]
    token_quote_inside [OF z] token_bracket_inside [OF z] token_variable_inside [OF z]
    token_keyword_inside [OF z] token_id_inside [OF order_refl l] inside_intros(2-3) [OF z]
  note number = token_number_inside [of z] class_digit [of "cstr z 0"] class_dot [of "cstr z 0"]
  have e: "inside z (TK_EQ, 1 + (if cstr z 1 = 61 then 1 else 0))"
    using l cstr_in [of z 1] by (auto simp: inside_def Suc_le_eq)
  show ?thesis
    unfolding sqlite3GetToken_def token_of_class_def class_NUL
    by (intro inside_intros(1) parts inside_intros(4-6) token_blob_inside e)
      (use c l number in \<open>auto dest: class_digit\<close>)
qed

section \<open>A token before a space\<close>

lemma at_end:
  "\<not> sqlite3IsDigit 0" "\<not> sqlite3IsDigit 32" "\<not> sqlite3Isxdigit 0" "\<not> sqlite3Isxdigit 32"
  "\<not> IdChar 0" "\<not> IdChar 32" "\<not> sqlite3Isspace 0" "sqlite3Isspace 32"
  "\<not> class_of 0 \<le> CC_KYWD" "\<not> class_of 32 \<le> CC_KYWD"
  by code_simp+

lemma cstr_sp_P:
  "i \<le> length z \<Longrightarrow> \<not> P 0 \<Longrightarrow> \<not> P 32 \<Longrightarrow> P (cstr (z @ 32 # y) i) = P (cstr z i)"
  by (cases "i = length z") (auto simp: cstr_def nth_append)

lemma cstr_sp:
  "i \<le> length z \<Longrightarrow> b \<noteq> 0 \<Longrightarrow> b \<noteq> 32 \<Longrightarrow> (cstr (z @ 32 # y) i = b) = (cstr z i = b)"
  by (rule cstr_sp_P) auto

lemma cstr_in_append: "i < length z \<Longrightarrow> cstr (z @ y) i = cstr z i"
  by (simp add: cstr_def nth_append)

lemma takeWhile_before: "\<not> P a \<Longrightarrow> takeWhile P (xs @ a # ys) = takeWhile P xs"
  by (induction xs) auto

lemma takeWhile_found: "length (takeWhile P xs) < length xs \<Longrightarrow> takeWhile P (xs @ ys) = takeWhile P xs"
  by (induction xs) auto

lemma scan_sp: "i \<le> length z \<Longrightarrow> \<not> P 32 \<Longrightarrow> scan P (z @ 32 # y) i = scan P z i"
  by (simp add: scan_def takeWhile_before)

lemma scan_found: "i \<le> length z \<Longrightarrow> scan P z i < length z \<Longrightarrow> scan P (z @ y) i = scan P z i"
  using takeWhile_found [of P "drop i z" y] by (simp add: scan_def)

lemma digit_loop_sp: "\<not> p 32 \<Longrightarrow> digit_loop p (z @ 32 # y) t i = digit_loop p z t i"
  by (induction p z t i rule: digit_loop.induct) auto

lemma quote_loop_sp:
  "quote_loop q z i = (j, d) \<Longrightarrow> d \<noteq> 0 \<Longrightarrow> q \<noteq> 32 \<Longrightarrow> quote_loop q (z @ 32 # y) i = (j, d)"
  by (induction q z i rule: quote_loop.induct) (auto split: if_splits list.splits)

lemma var_loop_sp:
  "var_loop z t n i = (u, m, j) \<Longrightarrow> u \<noteq> TK_ILLEGAL \<Longrightarrow> var_loop (z @ 32 # y) t n i = (u, m, j)"
proof (induction z t n i rule: var_loop.induct)
  case (1 t n i)
  then show ?case using at_end by (simp add: cstr_def)
next
  case (2 c z t n i)
  let ?P = "\<lambda>c. \<not> sqlite3Isspace c \<and> c \<noteq> 41"
  have k: "cstr z (length (takeWhile ?P z)) = 41 \<Longrightarrow> takeWhile ?P (z @ 32 # y) = takeWhile ?P z \<and>
      cstr (z @ 32 # y) (length (takeWhile ?P z)) = 41"
    using cstr_in [of z "length (takeWhile ?P z)"] takeWhile_found [of ?P z "32 # y"]
      cstr_in_append [of "length (takeWhile ?P z)" z "32 # y"] by simp
  have f: "(cstr (z @ 32 # y) 0 = 58) = (cstr z 0 = 58)"
    by (rule cstr_sp) simp_all
  have t: "cstr z 0 = 58 \<Longrightarrow> tl (z @ 32 # y) = tl z @ 32 # y"
    by (cases z) (auto simp: cstr_def)
  consider "IdChar c" | "\<not> IdChar c" "c = 40 \<and> 0 < n" | "\<not> IdChar c" "\<not> (c = 40 \<and> 0 < n)" "c = 58 \<and> cstr z 0 = 58"
    | "\<not> IdChar c" "\<not> (c = 40 \<and> 0 < n)" "\<not> (c = 58 \<and> cstr z 0 = 58)" by blast
  then show ?case
  proof cases
    case 1
    then show ?thesis using "2.IH"(1) "2.prems" by simp
  next
    case 2
    then show ?thesis using "2.prems" k by (auto simp: Let_def split: if_splits)
  next
    case 3
    then show ?thesis using "2.IH"(2) "2.prems" t f by auto
  next
    case 4
    then show ?thesis using "2.prems" f by auto
  qed
qed

definition valid_type :: "int \<Rightarrow> bool" where
  "valid_type t \<longleftrightarrow> t \<notin> {TK_SPACE, TK_COMMENT, TK_ILLEGAL}"

text \<open>A token that takes the whole text and is complete is the same with a space behind it.\<close>

definition settled :: "byte list \<Rightarrow> (byte list \<Rightarrow> int \<times> nat) \<Rightarrow> bool" where
  "settled z f \<longleftrightarrow> (\<forall>y. valid_type (fst (f z)) \<and> snd (f z) = length z \<longrightarrow> f (z @ 32 # y) = f z)"

lemma settledI:
  "(\<And>y. valid_type (fst (f z)) \<Longrightarrow> snd (f z) = length z \<Longrightarrow> f (z @ 32 # y) = f z) \<Longrightarrow> settled z f"
  by (simp add: settled_def)

lemma settledD:
  "settled z f \<Longrightarrow> valid_type (fst (f z)) \<Longrightarrow> snd (f z) = length z \<Longrightarrow> f (z @ 32 # y) = f z"
  by (simp add: settled_def)

lemma settled_id: "i \<le> length z \<Longrightarrow> settled z (\<lambda>z. token_id z i)"
  by (rule settledI) (simp add: token_id_def scan_sp at_end)

lemma settled_minus: "z \<noteq> [] \<Longrightarrow> settled z token_minus"
proof (rule settledI)
  fix y assume z: "z \<noteq> []" "valid_type (fst (token_minus z))"
  then have l: "Suc 0 \<le> length z" by (simp add: Suc_le_eq)
  have "cstr z 1 \<noteq> 45" using z(2) by (auto simp: token_minus_def valid_type_def)
  moreover have "cstr z 1 = 62 \<Longrightarrow> (cstr (z @ 32 # y) 2 = 62) = (cstr z 2 = 62)"
    using cstr_in [of z 1] by (intro cstr_sp) auto
  ultimately show "token_minus (z @ 32 # y) = token_minus z"
    using l cstr_sp [of 1 z 45 y] cstr_sp [of 1 z 62 y] by (auto simp: token_minus_def)
qed

lemma settled_slash: "z \<noteq> [] \<Longrightarrow> settled z token_slash"
proof (rule settledI)
  fix y assume z: "z \<noteq> []" "valid_type (fst (token_slash z))" "snd (token_slash z) = length z"
  then have l: "Suc 0 \<le> length z" by (simp add: Suc_le_eq)
  have "cstr z 1 \<noteq> 42 \<or> cstr z 2 = 0"
    using z(2) by (auto simp: token_slash_def valid_type_def split: prod.splits if_splits)
  moreover have "cstr z 1 = 42 \<Longrightarrow> 1 < length z"
    by (rule cstr_in) simp
  moreover have "cstr z 1 \<noteq> 42 \<or> cstr z 2 = 0 \<Longrightarrow> length z = 1"
    using z(3) by (simp add: token_slash_def)
  ultimately have "cstr z 1 \<noteq> 42" by linarith
  then show "token_slash (z @ 32 # y) = token_slash z"
    using l cstr_sp [of 1 z 42 y] by (auto simp: token_slash_def)
qed

lemma settled_two:
  assumes "z \<noteq> []"
  shows "settled z token_lt" "settled z token_gt"
    "settled z (\<lambda>z. (TK_EQ, 1 + (if cstr z 1 = 61 then 1 else 0)))"
    "settled z (\<lambda>z. if cstr z 1 \<noteq> 61 then (TK_ILLEGAL, 1) else (TK_NE, 2))"
    "settled z (\<lambda>z. if cstr z 1 \<noteq> 124 then (TK_BITOR, 1) else (TK_CONCAT, 2))"
proof -
  have c: "b \<noteq> 0 \<Longrightarrow> b \<noteq> 32 \<Longrightarrow> (cstr (z @ 32 # y) 1 = b) = (cstr z 1 = b)" for b y
    using assms by (intro cstr_sp) (simp_all add: Suc_le_eq)
  show "settled z token_lt" "settled z token_gt"
    "settled z (\<lambda>z. (TK_EQ, 1 + (if cstr z 1 = 61 then 1 else 0)))"
    "settled z (\<lambda>z. if cstr z 1 \<noteq> 61 then (TK_ILLEGAL, 1) else (TK_NE, 2))"
    "settled z (\<lambda>z. if cstr z 1 \<noteq> 124 then (TK_BITOR, 1) else (TK_CONCAT, 2))"
    using c [of 60] c [of 61] c [of 62] c [of 124]
    by (auto simp: settled_def token_lt_def token_gt_def)
qed

lemma settled_quote: "z \<noteq> [] \<Longrightarrow> cstr z 0 \<noteq> 32 \<Longrightarrow> settled z token_quote"
proof (rule settledI)
  fix y assume z: "z \<noteq> []" "cstr z 0 \<noteq> 32" "valid_type (fst (token_quote z))"
  then obtain q w where w: "z = q # w" "q \<noteq> 32" by (cases z) (auto simp: cstr_def)
  obtain i d where l: "quote_loop q w 1 = (i, d)" by fastforce
  have "d \<noteq> 0"
    using z(3) by (auto simp: token_quote_def w(1) cstr_def valid_type_def l [simplified])
  then have "quote_loop q (w @ 32 # y) 1 = (i, d)"
    using quote_loop_sp [OF l] w(2) by simp
  then show "token_quote (z @ 32 # y) = token_quote z"
    using l by (simp add: token_quote_def w(1) cstr_def)
qed

lemma settled_variable: "z \<noteq> [] \<Longrightarrow> settled z token_variable"
proof (rule settledI)
  fix y assume z: "z \<noteq> []" "valid_type (fst (token_variable z))"
  then obtain q w where w: "z = q # w" by (cases z) auto
  obtain t n i where l: "var_loop w TK_VARIABLE 0 (Suc 0) = (t, n, i)"
    using prod_cases3 by blast
  have "t \<noteq> TK_ILLEGAL"
    using z(2) by (auto simp: token_variable_def w valid_type_def l)
  then show "token_variable (z @ 32 # y) = token_variable z"
    using var_loop_sp [OF l] by (simp add: token_variable_def w l)
qed

lemma settled_bracket: "z \<noteq> [] \<Longrightarrow> settled z token_bracket"
proof (rule settledI)
  fix y assume z: "z \<noteq> []" "valid_type (fst (token_bracket z))"
  let ?i = "scan (\<lambda>c. c \<noteq> 93) z 1"
  have c: "cstr z ?i = 93"
    using z(2) by (auto simp: token_bracket_def valid_type_def Let_def split: if_splits)
  then have i: "?i < length z" by (intro cstr_in) simp
  then have "scan (\<lambda>c. c \<noteq> 93) (z @ 32 # y) 1 = ?i"
    using z(1) by (intro scan_found) (simp_all add: Suc_le_eq)
  then show "token_bracket (z @ 32 # y) = token_bracket z"
    using c cstr_in_append [OF i] by (simp add: token_bracket_def Let_def)
qed

lemma keywordCode_take:
  "2 \<le> i \<Longrightarrow> i \<le> length z \<Longrightarrow> keywordCode (z @ y) i TK_ID = keywordCode z i TK_ID"
proof -
  assume i: "2 \<le> i" "i \<le> length z"
  have "sqlite3KeywordCode (z @ y) i = sqlite3KeywordCode z i"
    using i keyword_code [of "take i z" "drop i z @ y"] keyword_code [of "take i z" "drop i z"]
    by (simp add: append_assoc [symmetric] del: append_assoc)
  then show ?thesis using i by (simp add: sqlite3KeywordCode_def)
qed

lemma settled_keyword: "z \<noteq> [] \<Longrightarrow> settled z token_keyword"
proof (rule settledI)
  fix y assume "z \<noteq> []"
  then have l: "1 \<le> length z" by (simp add: Suc_le_eq)
  have c: "(class_of (cstr (z @ 32 # y) 1) \<le> CC_KYWD) = (class_of (cstr z 1) \<le> CC_KYWD)"
    using at_end by (intro cstr_sp_P [where P = "\<lambda>c. class_of c \<le> CC_KYWD"] l)
  show "token_keyword (z @ 32 # y) = token_keyword z"
  proof (cases "class_of (cstr z 1) \<le> CC_KYWD")
    case False
    then show ?thesis
      using l c by (simp add: token_keyword_def token_id_def scan_sp at_end not_le [symmetric])
  next
    case True
    define i where "i = scan (\<lambda>c. class_of c \<le> CC_KYWD) z 2"
    have two: "2 \<le> length z"
      using True class_keyword [of "cstr z 1"] cstr_in [of z 1] by simp
    then have i: "2 \<le> i" "i \<le> length z" using scan_le [of 2 z] by (simp_all add: i_def)
    have s: "scan (\<lambda>c. class_of c \<le> CC_KYWD) (z @ 32 # y) 2 = i"
      using at_end two by (simp add: scan_sp i_def)
    have d: "IdChar (cstr (z @ 32 # y) i) = IdChar (cstr z i)"
      using at_end i(2) by (intro cstr_sp_P)
    have "IdChar (cstr z i) \<Longrightarrow> i + 1 \<le> length z"
      using at_end(5) cstr_in [of z i] by (metis Suc_eq_plus1 Suc_leI)
    then have "IdChar (cstr z i) \<Longrightarrow> token_id (z @ 32 # y) (i + 1) = token_id z (i + 1)"
      by (simp add: token_id_def scan_sp at_end)
    then show ?thesis
      using True c d i keywordCode_take [OF i]
      unfolding token_keyword_def Let_def s i_def [symmetric] by (simp add: not_le [symmetric])
  qed
qed

lemma digit_loop_drop:
  "i \<le> length z \<Longrightarrow> \<not> p 32 \<Longrightarrow> digit_loop p (drop i (z @ 32 # y)) t j = digit_loop p (drop i z) t j"
  by (simp add: digit_loop_sp)

lemma number_steps_sp:
  assumes "i \<le> length z"
  shows "number_fraction (z @ 32 # y) (t, i) = number_fraction z (t, i)"
    "number_exponent (z @ 32 # y) (t, i) = number_exponent z (t, i)"
    "number_tail (z @ 32 # y) (t, i) = number_tail z (t, i)"
proof -
  have c: "b \<noteq> 0 \<Longrightarrow> b \<noteq> 32 \<Longrightarrow> (cstr (z @ 32 # y) i = b) = (cstr z i = b)" for b
    using assms by (rule cstr_sp)
  have "cstr z i = 46 \<Longrightarrow> i < length z"
    by (intro cstr_in) simp
  then show "number_fraction (z @ 32 # y) (t, i) = number_fraction z (t, i)"
    using c [of 46] digit_loop_drop [of "i + 1" z sqlite3IsDigit y] at_end
    by (auto simp: number_fraction_def)
  show "number_tail (z @ 32 # y) (t, i) = number_tail z (t, i)"
    using assms cstr_sp_P [of i z IdChar y] at_end by (simp add: number_tail_def scan_sp)
  show "number_exponent (z @ 32 # y) (t, i) = number_exponent z (t, i)"
  proof (cases "cstr z i = 101 \<or> cstr z i = 69")
    case False
    then show ?thesis using c [of 101] c [of 69] by (simp add: number_exponent_def)
  next
    case True
    then have "i < length z" by (intro cstr_in) auto
    then have i: "i + 1 \<le> length z" by simp
    have d: "sqlite3IsDigit (cstr (z @ 32 # y) (i + 1)) = sqlite3IsDigit (cstr z (i + 1))"
      using at_end by (intro cstr_sp_P i)
    have e: "(cstr (z @ 32 # y) (i + 1) = 43) = (cstr z (i + 1) = 43)"
      "(cstr (z @ 32 # y) (i + 1) = 45) = (cstr z (i + 1) = 45)"
      using i by (simp_all add: cstr_sp)
    have ci: "(cstr (z @ 32 # y) i = 101) = (cstr z i = 101)" "(cstr (z @ 32 # y) i = 69) = (cstr z i = 69)"
      using c [of 101] c [of 69] by simp_all
    show ?thesis
    proof (cases "cstr z (i + 1) = 0")
      case True
      then show ?thesis
        using d e at_end by (simp add: number_exponent_def)
    next
      case False
      then have l: "i + 2 \<le> length z" using cstr_in [of z "i + 1"] by simp
      have "sqlite3IsDigit (cstr (z @ 32 # y) (i + 2)) = sqlite3IsDigit (cstr z (i + 2))"
        using at_end by (intro cstr_sp_P l)
      then show ?thesis
        unfolding number_exponent_def prod.case ci d e
        by (simp only: digit_loop_drop [OF l] at_end(2) not_False_eq_True)
    qed
  qed
qed

lemma number_sp: "z \<noteq> [] \<Longrightarrow> token_number (z @ 32 # y) = token_number z"
proof -
  assume z: "z \<noteq> []"
  have c0: "cstr (z @ 32 # y) 0 = cstr z 0" using z by (intro cstr_in_append) simp
  have c1: "b \<noteq> 0 \<Longrightarrow> b \<noteq> 32 \<Longrightarrow> (cstr (z @ 32 # y) 1 = b) = (cstr z 1 = b)" for b
    using z by (intro cstr_sp) (simp_all add: Suc_le_eq)
  define h where "h \<longleftrightarrow> cstr z 0 = 48 \<and> (cstr z 1 = 120 \<or> cstr z 1 = 88) \<and> sqlite3Isxdigit (cstr z 2)"
  have h: "(cstr (z @ 32 # y) 0 = 48 \<and> (cstr (z @ 32 # y) 1 = 120 \<or> cstr (z @ 32 # y) 1 = 88) \<and>
      sqlite3Isxdigit (cstr (z @ 32 # y) 2)) = h"
  proof (cases "cstr z 1 = 120 \<or> cstr z 1 = 88")
    case True
    then have "1 < length z" by (intro cstr_in) auto
    then have "sqlite3Isxdigit (cstr (z @ 32 # y) 2) = sqlite3Isxdigit (cstr z 2)"
      using at_end by (intro cstr_sp_P) simp_all
    then show ?thesis using c0 c1 [of 120] c1 [of 88] by (simp add: h_def)
  next
    case False
    then show ?thesis using c1 [of 120] c1 [of 88] by (simp add: h_def)
  qed
  show ?thesis
  proof (cases h)
    case True
    then have "cstr z 2 \<noteq> 0" using at_end by (auto simp: h_def)
    then have l: "3 \<le> length z" using cstr_in [of z 2] by simp
    obtain t i where n: "number_hex z = (t, i)" by fastforce
    then have "i \<le> length z" using digits_bound [OF l] by (simp add: number_hex_def)
    moreover have "number_hex (z @ 32 # y) = number_hex z"
      using digit_loop_drop [OF l, of sqlite3Isxdigit y] at_end by (simp add: number_hex_def)
    ultimately show ?thesis
      using True n number_steps_sp(3) unfolding token_number_def h h_def [symmetric] by simp
  next
    case False
    obtain t i where d: "digit_loop sqlite3IsDigit z TK_INTEGER 0 = (t, i)" by fastforce
    obtain u j where f: "number_fraction z (t, i) = (u, j)" by fastforce
    obtain v k where e: "number_exponent z (u, j) = (v, k)" by fastforce
    have i: "i \<le> length z" using digit_loop_le [OF d] by simp
    have j: "j \<le> length z" using number_steps_bound(1) [OF i f] by simp
    have k: "k \<le> length z" using number_steps_bound(2) [OF j e] by simp
    have "digit_loop sqlite3IsDigit (z @ 32 # y) TK_INTEGER 0 = (t, i)"
      using d at_end by (simp add: digit_loop_sp)
    then show ?thesis
      using False unfolding token_number_def h h_def [symmetric]
      by (simp add: d f e number_steps_sp [OF i] number_steps_sp [OF j] number_steps_sp [OF k])
  qed
qed

lemma settled_number: "z \<noteq> [] \<Longrightarrow> settled z token_number"
  by (simp add: settled_def number_sp)

lemma settled_dot:
  "z \<noteq> [] \<Longrightarrow> settled z (\<lambda>z. if \<not> sqlite3IsDigit (cstr z 1) then (TK_DOT, 1) else token_number z)"
proof -
  assume z: "z \<noteq> []"
  have "sqlite3IsDigit (cstr (z @ 32 # y) 1) = sqlite3IsDigit (cstr z 1)" for y
    using at_end z by (intro cstr_sp_P) (simp_all add: Suc_le_eq)
  then show ?thesis unfolding settled_def by (simp only: number_sp [OF z]) blast
qed

lemma settled_blob:
  "z \<noteq> [] \<Longrightarrow> settled z (\<lambda>z. if cstr z 1 = 39 then token_blob z else token_id z 1)"
proof (rule settledI)
  fix y
  assume z: "z \<noteq> []"
    and v: "valid_type (fst (if cstr z 1 = 39 then token_blob z else token_id z 1))"
  have l: "1 \<le> length z" using z by (simp add: Suc_le_eq)
  have c: "(cstr (z @ 32 # y) 1 = 39) = (cstr z 1 = 39)"
    using l by (rule cstr_sp) simp_all
  show "(if cstr (z @ 32 # y) 1 = 39 then token_blob (z @ 32 # y) else token_id (z @ 32 # y) 1) =
    (if cstr z 1 = 39 then token_blob z else token_id z 1)"
  proof (cases "cstr z 1 = 39")
    case False
    then show ?thesis using l c by (simp add: token_id_def scan_sp at_end)
  next
    case True
    then have two: "2 \<le> length z" using cstr_in [of z 1] by simp
    define i where "i = scan sqlite3Isxdigit z 2"
    have s: "scan sqlite3Isxdigit (z @ 32 # y) 2 = i"
      using two at_end by (simp add: scan_sp i_def)
    have e: "cstr z i = 39" "even i"
      using v True unfolding token_blob_def Let_def i_def [symmetric]
      by (auto simp: valid_type_def split: if_splits)
    then have "cstr (z @ 32 # y) i = 39"
      using cstr_in [of z i] by (simp add: cstr_in_append)
    then have "token_blob (z @ 32 # y) = token_blob z"
      using e unfolding token_blob_def Let_def s i_def [symmetric] by simp
    then show ?thesis using True c by simp
  qed
qed

lemma settled_bom:
  "z \<noteq> [] \<Longrightarrow> settled z (\<lambda>z. if cstr z 1 = 0xBB \<and> cstr z 2 = 0xBF then (TK_SPACE, 3) else token_id z 1)"
proof (rule settledI)
  fix y
  assume z: "z \<noteq> []"
    and v: "valid_type (fst (if cstr z 1 = 0xBB \<and> cstr z 2 = 0xBF then (TK_SPACE, 3) else token_id z 1))"
  have l: "1 \<le> length z" using z by (simp add: Suc_le_eq)
  have n: "\<not> (cstr z 1 = 0xBB \<and> cstr z 2 = 0xBF)"
    using v by (auto simp: valid_type_def split: if_splits)
  have "\<not> (cstr (z @ 32 # y) 1 = 0xBB \<and> cstr (z @ 32 # y) 2 = 0xBF)"
  proof (cases "cstr z 1 = 0xBB")
    case True
    then have "2 \<le> length z" using cstr_in [of z 1] by simp
    then show ?thesis using n True cstr_sp [of 2 z "0xBF" y] by simp
  next
    case False
    then show ?thesis using cstr_sp [of 1 z "0xBB" y] l by simp
  qed
  then show "(if cstr (z @ 32 # y) 1 = 0xBB \<and> cstr (z @ 32 # y) 2 = 0xBF then (TK_SPACE, 3)
      else token_id (z @ 32 # y) 1) =
    (if cstr z 1 = 0xBB \<and> cstr z 2 = 0xBF then (TK_SPACE, 3) else token_id z 1)"
    using l n by (auto simp: token_id_def scan_sp at_end)
qed

lemma settled_if:
  "(b \<Longrightarrow> settled z f) \<Longrightarrow> (\<not> b \<Longrightarrow> settled z g) \<Longrightarrow> settled z (\<lambda>z. if b then f z else g z)"
  by (cases b) simp_all

lemma settled_simple: "settled z (\<lambda>z. (t, n))" "settled z (\<lambda>z. (TK_SPACE, f z))"
  by (simp_all add: settled_def valid_type_def)

lemma settled_varnum: "z \<noteq> [] \<Longrightarrow> settled z (\<lambda>z. (TK_VARIABLE, scan sqlite3IsDigit z 1))"
  by (simp add: settled_def scan_sp at_end Suc_le_eq)

lemma GetToken_settled: "z \<noteq> [] \<Longrightarrow> settled z sqlite3GetToken"
proof -
  assume z: "z \<noteq> []"
  then have l: "1 \<le> length z" by (simp add: Suc_le_eq)
  have q: "class_of (cstr z 0) = CC_QUOTE \<Longrightarrow> cstr z 0 \<noteq> 32"
  proof
    assume "class_of (cstr z 0) = CC_QUOTE" "cstr z 0 = 32"
    then show False by (simp add: class_of_def aiClass_def CC_QUOTE_def)
  qed
  have "settled z (token_of_class (class_of (cstr z 0)))"
    unfolding token_of_class_def
    by (intro settled_if settled_simple settled_minus settled_slash settled_two settled_quote
        settled_dot settled_number settled_bracket settled_variable settled_keyword settled_blob
        settled_bom settled_varnum settled_id l z q)
  moreover have "cstr (z @ 32 # y) 0 = cstr z 0" for y
    using z by (intro cstr_in_append) simp
  ultimately show ?thesis
    by (simp add: settled_def sqlite3GetToken_def)
qed

section \<open>The tokens of a text\<close>

function lex :: "byte list \<Rightarrow> (int \<times> byte list) list" where
  "lex z =
     (if cstr z 0 = 0 then []
      else case sqlite3GetToken z of (t, n) \<Rightarrow> (t, take n z) # lex (drop n z))"
  by pat_completeness auto
termination
proof (relation "measure length")
  fix z t n
  assume "cstr z 0 \<noteq> 0" "(t, n) = sqlite3GetToken z"
  then show "(drop n z, z) \<in> measure length"
    using GetToken_inside [of z] by (auto simp: inside_def dest: sym)
qed simp

declare lex.simps [simp del]

lemma lex_tiles: "0 \<notin> set z \<Longrightarrow> concat (map snd (lex z)) = z"
proof (induction z rule: lex.induct)
  case (1 z)
  show ?case
  proof (cases "z = []")
    case True
    then show ?thesis by (subst lex.simps) (simp add: cstr_def)
  next
    case False
    then have c: "cstr z 0 \<noteq> 0"
      using 1(2) by (cases z) (auto simp: cstr_def)
    obtain t n where tn: "sqlite3GetToken z = (t, n)" by fastforce
    have "0 \<notin> set (drop n z)" using 1(2) by (meson in_set_dropD)
    from 1(1) [OF c tn [symmetric] this] show ?thesis
      using c by (subst lex.simps) (simp add: tn)
  qed
qed

text \<open>A text that is one complete token.\<close>

definition lexeme :: "byte list \<Rightarrow> bool" where
  "lexeme w \<longleftrightarrow> w \<noteq> [] \<and> 0 \<notin> set w \<and> snd (sqlite3GetToken w) = length w \<and>
     valid_type (fst (sqlite3GetToken w))"

lemma space_class: "sqlite3Isspace c \<Longrightarrow> class_of c = CC_SPACE \<or> class_of c = CC_ILLEGAL"
proof -
  have "sqlite3Isspace c \<longrightarrow> class_of c = CC_SPACE \<or> class_of c = CC_ILLEGAL"
    unfolding class_of_def CC_SPACE_def CC_ILLEGAL_def
    by (rule table_entry [where P = "\<lambda>c m. sqlite3Isspace c \<longrightarrow> m = 7 \<or> m = 28"]; code_simp)
  then show "sqlite3Isspace c \<Longrightarrow> class_of c = CC_SPACE \<or> class_of c = CC_ILLEGAL" by simp
qed

lemma lexeme_no_space: "lexeme (c # w) \<Longrightarrow> \<not> sqlite3Isspace c"
proof
  assume l: "lexeme (c # w)" and "sqlite3Isspace c"
  then have "class_of c = CC_SPACE \<or> class_of c = CC_ILLEGAL" by (intro space_class)
  then show False
    using l by (auto simp: lexeme_def sqlite3GetToken_def cstr_def token_of_class_def CC_defs valid_type_def)
qed

lemma GetToken_lexeme:
  "lexeme w \<Longrightarrow> sqlite3GetToken (w @ 32 # y) = (fst (sqlite3GetToken w), length w)"
  using settledD [OF GetToken_settled, of w y] by (auto simp: lexeme_def prod_eq_iff)

lemma GetToken_space:
  assumes "y = [] \<or> \<not> sqlite3Isspace (hd y)"
  shows "sqlite3GetToken (32 # y) = (TK_SPACE, 1)"
proof -
  have "class_of 32 = CC_SPACE" by (simp add: class_of_def aiClass_def CC_SPACE_def)
  moreover have "takeWhile sqlite3Isspace y = []"
    using assms by (auto simp: takeWhile_eq_Nil_iff)
  ultimately show ?thesis
    by (simp add: sqlite3GetToken_def token_of_class_def cstr_def scan_def)
qed

definition spaced :: "byte list list \<Rightarrow> byte list" where
  "spaced ws = concat (map (\<lambda>w. w @ [32]) ws)"

lemma lex_spaced:
  assumes "list_all lexeme ws"
  shows "lex (spaced ws) = concat (map (\<lambda>w. [(fst (sqlite3GetToken w), w), (TK_SPACE, [32])]) ws)"
  using assms
proof (induction ws)
  case Nil
  then show ?case by (subst lex.simps) (simp add: spaced_def cstr_def)
next
  case (Cons w ws)
  let ?y = "spaced ws"
  have w: "lexeme w" using Cons.prems by simp
  have s: "spaced (w # ws) = w @ 32 # ?y" by (simp add: spaced_def)
  have c: "cstr (w @ 32 # ?y) 0 \<noteq> 0"
    using w by (cases w) (auto simp: lexeme_def cstr_def)
  have "?y = [] \<or> \<not> sqlite3Isspace (hd ?y)"
  proof (cases ws)
    case (Cons v vs)
    then have v: "lexeme v" using Cons.prems by simp
    then obtain d u where "v = d # u" by (cases v) (auto simp: lexeme_def)
    then show ?thesis using v lexeme_no_space [of d u] by (simp add: spaced_def Cons)
  qed (simp add: spaced_def)
  then have "lex (32 # ?y) = (TK_SPACE, [32]) # lex ?y"
    by (subst lex.simps) (simp add: GetToken_space cstr_def)
  then have "lex (w @ 32 # ?y) = (fst (sqlite3GetToken w), w) # (TK_SPACE, [32]) # lex ?y"
    using c GetToken_lexeme [OF w] by (subst lex.simps) simp
  then show ?case using Cons.IH Cons.prems by (simp add: s)
qed

text \<open>
  C37. Complete tokens written with spaces between them are read back as the same tokens with
  the same texts, whatever their kinds, and the tokens of any text, spaces and comments
  included, put together give the text back.
\<close>

theorem tokens_read_back:
  assumes "list_all lexeme ws" "0 \<notin> set z"
  shows "filter (\<lambda>(t, w). t \<noteq> TK_SPACE) (lex (spaced ws)) = map (\<lambda>w. (fst (sqlite3GetToken w), w)) ws \<and>
    concat (map snd (lex z)) = z"
proof -
  have "filter (\<lambda>(t, w). t \<noteq> TK_SPACE)
      (concat (map (\<lambda>w. [(fst (sqlite3GetToken w), w), (TK_SPACE, [32])]) ws)) =
    map (\<lambda>w. (fst (sqlite3GetToken w), w)) ws"
    using assms(1) by (induction ws) (auto simp: lexeme_def valid_type_def)
  then show ?thesis
    using lex_tiles [OF assms(2)] by (simp add: lex_spaced [OF assms(1)])
qed

text \<open>The texts \<open>a1\<close>, \<open>'it''s'\<close>, \<open>1.5e3\<close>, \<open>->>\<close> and \<open>x'0F'\<close>.\<close>

definition sample :: "byte list list" where
  "sample = [[97, 49], [39, 105, 116, 39, 39, 115, 39], [49, 46, 53, 101, 51], [45, 62, 62],
     [120, 39, 48, 70, 39]]"

lemma sample_lexemes: "list_all lexeme sample"
  by code_simp

lemma tokens_read_back_witness:
  "filter (\<lambda>(t, w). t \<noteq> TK_SPACE) (lex (spaced sample)) = map (\<lambda>w. (fst (sqlite3GetToken w), w)) sample \<and>
   concat (map snd (lex [97, 32, 49])) = [97, 32, 49]"
  using tokens_read_back [OF sample_lexemes, of "[97, 32, 49]"] by simp

section \<open>WINDOW, OVER and FILTER\<close>

definition yyFallback :: "int list" where
  "yyFallback =
    [0, 0, 60, 60, 60, 60, 0, 60, 60, 60, 0, 60, 60, 60, 60, 0, 0, 0, 60, 0, 0, 60, 0, 0, 0,
     0, 60, 60, 60, 60, 60, 60, 60, 60, 60, 60, 60, 60, 60, 60, 60, 60, 60, 0, 0, 0, 0, 60,
     60, 0, 0, 0, 0, 0, 0, 0, 0, 0, 0, 0, 0, 60, 60, 60, 60, 60, 60, 60, 60, 60, 60, 60, 60,
     60, 60, 60, 60, 60, 60, 60, 60, 60, 60, 60, 60, 60, 60, 60, 60, 60, 60, 60, 60, 60, 60,
     60, 60, 60, 60, 60, 60, 60, 0, 0, 0, 0, 0, 0, 0, 0, 0, 0, 0, 0, 0, 0, 0, 0, 0, 0, 0, 0,
     0, 0, 0, 0, 0, 0, 0, 0, 0, 0, 0, 0, 0, 0, 0, 0, 0, 0, 0, 0, 0, 0, 0, 0, 0, 0, 0, 0, 0,
     0, 0, 0, 0, 0, 0, 0, 0, 0, 0, 0, 0, 0, 0, 0, 0, 0, 0, 0, 0, 0, 0, 0, 0, 0, 0, 0, 0, 0,
     0, 0, 0, 0, 0, 0, 0]"

definition sqlite3ParserFallback :: "int \<Rightarrow> int" where
  "sqlite3ParserFallback iToken = yyFallback ! nat iToken"

lemma GetToken_NUL: "cstr z 0 = 0 \<Longrightarrow> sqlite3GetToken z = (TK_ILLEGAL, 0)"
proof -
  assume "cstr z 0 = 0"
  then have "class_of (cstr z 0) = CC_NUL" by (simp add: class_NUL)
  then show ?thesis by (simp add: sqlite3GetToken_def token_of_class_def CC_defs)
qed

lemma GetToken_progress:
  assumes "sqlite3GetToken z = (t, n)" "t = TK_SPACE \<or> t = TK_COMMENT \<or> cstr z 0 \<noteq> 0"
  shows "cstr z 0 \<noteq> 0 \<and> 1 \<le> n \<and> n \<le> length z"
proof -
  have "cstr z 0 \<noteq> 0"
    using assms GetToken_NUL [of z] by (auto simp: TK_SPACE_def TK_COMMENT_def TK_ILLEGAL_def)
  then show ?thesis using GetToken_inside [of z] assms(1) by (simp add: inside_def)
qed

text \<open>The loop of \<open>getToken\<close>: the first token that is neither space nor comment.\<close>

function next_token :: "byte list \<Rightarrow> int \<times> byte list" where
  "next_token z =
     (case sqlite3GetToken z of (t, n) \<Rightarrow>
        if t = TK_SPACE \<or> t = TK_COMMENT then next_token (drop n z) else (t, drop n z))"
  by pat_completeness auto
termination
proof (relation "measure length")
  fix z t n
  assume "(t, n) = sqlite3GetToken z" "t = TK_SPACE \<or> t = TK_COMMENT"
  then show "(drop n z, z) \<in> measure length"
    using GetToken_progress [of z t n] by (auto dest: sym)
qed simp

declare next_token.simps [simp del]

definition getToken :: "byte list \<Rightarrow> int \<times> byte list" where
  "getToken z =
     (case next_token z of (t, r) \<Rightarrow>
        (if t = TK_ID \<or> t = TK_STRING \<or> t = TK_JOIN_KW \<or> t = TK_WINDOW \<or> t = TK_OVER \<or>
            sqlite3ParserFallback t = TK_ID then TK_ID else t, r))"

definition analyzeWindowKeyword :: "byte list \<Rightarrow> int" where
  "analyzeWindowKeyword z =
     (case getToken z of (t, r) \<Rightarrow>
        if t \<noteq> TK_ID then TK_ID
        else if fst (getToken r) \<noteq> TK_AS then TK_ID
        else TK_WINDOW)"

definition analyzeOverKeyword :: "byte list \<Rightarrow> int \<Rightarrow> int" where
  "analyzeOverKeyword z lastToken =
     (if lastToken = TK_RP \<and> (fst (getToken z) = TK_LP \<or> fst (getToken z) = TK_ID)
      then TK_OVER else TK_ID)"

definition analyzeFilterKeyword :: "byte list \<Rightarrow> int \<Rightarrow> int" where
  "analyzeFilterKeyword z lastToken =
     (if lastToken = TK_RP \<and> fst (getToken z) = TK_LP then TK_FILTER else TK_ID)"

section \<open>The loop of sqlite3RunParser\<close>

datatype stop = Too_big | Interrupted | Unrecognized "byte list" | Parser_rc int | Finished

datatype decision = Skip | Feed int nat | Stop stop

text \<open>
  What the loop does with a token \<open>(tokenType, n)\<close>: \<open>interrupted\<close> is the value read from
  \<open>isInterrupted\<close>, \<open>comments\<close> whether comments are allowed.
\<close>

definition decide :: "bool \<Rightarrow> bool \<Rightarrow> byte list \<Rightarrow> int \<Rightarrow> int \<times> nat \<Rightarrow> decision" where
  "decide interrupted comments zSql lastTokenParsed = (\<lambda>(tokenType, n).
     if TK_WINDOW \<le> tokenType then
       if interrupted then Stop Interrupted
       else if tokenType = TK_SPACE then Skip
       else if cstr zSql 0 = 0 then
         (if lastTokenParsed = TK_SEMI then Feed 0 0
          else if lastTokenParsed = 0 then Stop Finished
          else Feed TK_SEMI 0)
       else if tokenType = TK_WINDOW then Feed (analyzeWindowKeyword (drop 6 zSql)) n
       else if tokenType = TK_OVER then Feed (analyzeOverKeyword (drop 4 zSql) lastTokenParsed) n
       else if tokenType = TK_FILTER then Feed (analyzeFilterKeyword (drop 6 zSql) lastTokenParsed) n
       else if tokenType = TK_COMMENT \<and> comments then Skip
       else if tokenType \<noteq> TK_QNUMBER then Stop (Unrecognized (take n zSql))
       else Feed tokenType n
     else Feed tokenType n)"

definition stage :: "int \<Rightarrow> nat" where
  "stage l = (if l = 0 then 0 else if l = TK_SEMI then 1 else 2)"

lemma decide_progress:
  assumes "sqlite3GetToken z = (t, n)"
  shows "decide i c z l (t, n) = Skip \<Longrightarrow> cstr z 0 \<noteq> 0 \<and> 1 \<le> n \<and> n \<le> length z"
    and "decide i c z l (t, n) = Feed u m \<Longrightarrow> cstr z 0 \<noteq> 0 \<and> m = n \<and> 1 \<le> n \<and> n \<le> length z \<or>
      cstr z 0 = 0 \<and> m = 0 \<and> (l = TK_SEMI \<and> u = 0 \<or> l \<noteq> TK_SEMI \<and> l \<noteq> 0 \<and> u = TK_SEMI)"
proof -
  show "decide i c z l (t, n) = Skip \<Longrightarrow> cstr z 0 \<noteq> 0 \<and> 1 \<le> n \<and> n \<le> length z"
    using GetToken_progress [OF assms] by (auto simp: decide_def split: if_splits)
  show "decide i c z l (t, n) = Feed u m \<Longrightarrow> cstr z 0 \<noteq> 0 \<and> m = n \<and> 1 \<le> n \<and> n \<le> length z \<or>
      cstr z 0 = 0 \<and> m = 0 \<and> (l = TK_SEMI \<and> u = 0 \<or> l \<noteq> TK_SEMI \<and> l \<noteq> 0 \<and> u = TK_SEMI)"
  proof (cases "cstr z 0 = 0")
    case True
    then have "t = TK_ILLEGAL" using GetToken_NUL assms by simp
    then show "decide i c z l (t, n) = Feed u m \<Longrightarrow> ?thesis"
      using True by (auto simp: decide_def TK_ILLEGAL_def TK_WINDOW_def TK_SPACE_def split: if_splits)
  next
    case False
    then show "decide i c z l (t, n) = Feed u m \<Longrightarrow> ?thesis"
      using GetToken_progress [OF assms] by (auto simp: decide_def split: if_splits)
  qed
qed

text \<open>
  The loop, for any parser \<open>feed\<close> (its state, the token and its text give the new state and
  \<open>pParse->rc\<close>) and any values \<open>intr k\<close> read from \<open>isInterrupted\<close> in round \<open>k\<close>: why it stopped,
  the text left, the state of the parser and the tokens it was fed.
\<close>

function run_loop :: "('p \<Rightarrow> int \<Rightarrow> byte list \<Rightarrow> 'p \<times> int) \<Rightarrow> (nat \<Rightarrow> bool) \<Rightarrow> bool \<Rightarrow> nat \<Rightarrow>
    byte list \<Rightarrow> int \<Rightarrow> int \<Rightarrow> 'p \<Rightarrow> stop \<times> byte list \<times> 'p \<times> (int \<times> byte list) list" where
  "run_loop feed intr comments k zSql mxSqlLen lastTokenParsed p =
     (case sqlite3GetToken zSql of (tokenType, n) \<Rightarrow>
        if mxSqlLen - int n < 0 then (Too_big, zSql, p, [])
        else case decide (intr k) comments zSql lastTokenParsed (tokenType, n) of
          Stop s \<Rightarrow> (s, zSql, p, [])
        | Skip \<Rightarrow>
            run_loop feed intr comments (k + 1) (drop n zSql) (mxSqlLen - int n) lastTokenParsed p
        | Feed t m \<Rightarrow>
            (case feed p t (take m zSql) of (p', rc) \<Rightarrow>
               if rc \<noteq> 0 then (Parser_rc rc, drop m zSql, p', [(t, take m zSql)])
               else case run_loop feed intr comments (k + 1) (drop m zSql) (mxSqlLen - int n) t p' of
                 (s, zTail, q, fed) \<Rightarrow> (s, zTail, q, (t, take m zSql) # fed)))"
  by pat_completeness auto
termination
proof (relation "measure (\<lambda>(f, i, c, k, z, m, l, p). 3 * length z + stage l)")
  fix feed :: "'p \<Rightarrow> int \<Rightarrow> byte list \<Rightarrow> 'p \<times> int"
  fix intr :: "nat \<Rightarrow> bool" and comments :: bool and k n :: nat and z :: "byte list"
    and mx l t :: int and p :: 'p
  assume "(t, n) = sqlite3GetToken z" "decide (intr k) comments z l (t, n) = Skip"
  then show "((feed, intr, comments, k + 1, drop n z, mx - int n, l, p),
      (feed, intr, comments, k, z, mx, l, p)) \<in> measure (\<lambda>(f, i, c, k, z, m, l, p). 3 * length z + stage l)"
    using decide_progress(1) [of z t n "intr k" comments l] by auto
next
  fix feed :: "'p \<Rightarrow> int \<Rightarrow> byte list \<Rightarrow> 'p \<times> int"
  fix intr :: "nat \<Rightarrow> bool" and comments :: bool and k n m :: nat and z :: "byte list"
    and mx l t u rc :: int and p p' :: 'p
  assume "(t, n) = sqlite3GetToken z" "decide (intr k) comments z l (t, n) = Feed u m"
  then show "((feed, intr, comments, k + 1, drop m z, mx - int n, u, p'),
      (feed, intr, comments, k, z, mx, l, p)) \<in> measure (\<lambda>(f, i, c, k, z, m, l, p). 3 * length z + stage l)"
    using decide_progress(2) [of z t n "intr k" comments l u m]
    by (auto simp: stage_def TK_SEMI_def)
qed simp

declare run_loop.simps [simp del]

section \<open>What the parser is fed\<close>

lemma digit_loop_type: "digit_loop p z t i = (u, j) \<Longrightarrow> 0 < t \<Longrightarrow> 0 < u"
  by (induction p z t i rule: digit_loop.induct) (auto simp: TK_QNUMBER_def split: if_splits)

lemma var_loop_type: "var_loop z t n i = (u, m, j) \<Longrightarrow> 0 < t \<Longrightarrow> 0 < u"
  by (induction z t n i rule: var_loop.induct) (auto simp: TK_ILLEGAL_def Let_def split: if_splits)

lemma keywordCode_type: "0 < keywordCode z n TK_ID"
proof (cases "kw_search z n (aKWHash ! kw_hash z n)")
  case None
  then show ?thesis by (simp add: keywordCode_def TK_ID_def)
next
  case (Some i)
  then have "i \<in> set (chain (aKWHash ! kw_hash z n))"
    unfolding kw_search_find find_Some_iff by (auto intro: nth_mem)
  then have "1 \<le> i \<and> i < 148" by (rule chain_range)
  moreover have "list_all (\<lambda>c. 0 < c) (tl aKWCode)" by code_simp
  ultimately have "0 < aKWCode ! i"
    by (cases i) (auto simp: list_all_length nth_tl table_lengths)
  then show ?thesis by (simp add: keywordCode_def Some)
qed

lemma number_type: "0 < fst (token_number z)"
proof -
  obtain t i where d: "digit_loop sqlite3IsDigit z TK_INTEGER 0 = (t, i)" by fastforce
  obtain u j where f: "number_fraction z (t, i) = (u, j)" by fastforce
  obtain v k where e: "number_exponent z (u, j) = (v, k)" by fastforce
  obtain x l where h: "number_hex z = (x, l)" by fastforce
  have pos: "0 < TK_INTEGER" "0 < TK_FLOAT" "0 < TK_ILLEGAL"
    by (simp_all add: TK_INTEGER_def TK_FLOAT_def TK_ILLEGAL_def)
  have "0 < t" by (rule digit_loop_type [OF d pos(1)])
  then have "0 < u"
    using f pos digit_loop_type [of sqlite3IsDigit "drop (i + 1) z" _ "i + 1" u j]
    by (auto simp: number_fraction_def split: if_splits)
  then have v: "0 < v"
    using e pos digit_loop_type [of sqlite3IsDigit "drop (j + 2) z" _ "j + 2" v k]
    by (auto simp: number_exponent_def split: if_splits)
  have "0 < x"
    using h pos digit_loop_type unfolding number_hex_def by blast
  then show ?thesis
    using v pos by (auto simp: token_number_def number_tail_def d f e h)
qed

lemma type_if: "0 < fst p \<Longrightarrow> 0 < fst q \<Longrightarrow> 0 < fst (if b then p else (q :: int \<times> nat))"
  by simp

lemma type_pair: "0 < t \<Longrightarrow> 0 < fst (t :: int, n :: nat)"
  by simp

lemma quote_types: "0 < fst (token_slash z)" "0 < fst (token_quote z)" "0 < fst (token_bracket z)" "0 < fst (token_blob z)"
  by (auto simp: token_slash_def token_quote_def token_bracket_def token_blob_def Let_def TK_SLASH_def
      TK_COMMENT_def TK_STRING_def TK_ID_def TK_ILLEGAL_def TK_BLOB_def split: prod.splits)

lemma GetToken_type: "0 < fst (sqlite3GetToken z)"
proof -
  obtain t n i where v: "var_loop (drop 1 z) TK_VARIABLE 0 1 = (t, n, i)"
    using prod_cases3 by blast
  then have "0 < t" using var_loop_type by (fastforce simp: TK_VARIABLE_def)
  then have "0 < fst (token_variable z)"
    using v unfolding token_variable_def by (simp add: TK_ILLEGAL_def)
  moreover have "0 < fst (token_keyword z)"
    using keywordCode_type by (simp add: token_keyword_def token_id_def Let_def TK_ID_def)
  ultimately show ?thesis
    unfolding sqlite3GetToken_def token_of_class_def token_minus_def token_lt_def token_gt_def token_id_def
    by (intro type_if type_pair quote_types number_type; simp add: TK_defs)
qed

lemma window_types:
  "analyzeWindowKeyword z \<in> {TK_ID, TK_WINDOW}" "analyzeOverKeyword z l \<in> {TK_ID, TK_OVER}"
  "analyzeFilterKeyword z l \<in> {TK_ID, TK_FILTER}"
  by (auto simp: analyzeWindowKeyword_def analyzeOverKeyword_def analyzeFilterKeyword_def
      split: prod.splits)

lemma decide_type:
  assumes "sqlite3GetToken z = (t, n)" "decide i c z l (t, n) = Feed u m"
  shows "valid_type u" "u = 0 \<Longrightarrow> cstr z 0 = 0" "cstr z 0 \<noteq> 0 \<Longrightarrow> t \<noteq> TK_SPACE \<and> t \<noteq> TK_COMMENT"
proof -
  have t: "0 < t" using GetToken_type [of z] assms(1) by simp
  show "valid_type u"
    using assms(2) t window_types(1) [of "drop 6 z"] window_types(2) [of "drop 4 z" l]
      window_types(3) [of "drop 6 z" l]
    by (auto simp: decide_def valid_type_def TK_SPACE_def TK_COMMENT_def TK_ILLEGAL_def TK_WINDOW_def
        TK_OVER_def TK_FILTER_def TK_QNUMBER_def TK_ID_def TK_SEMI_def split: if_splits)
  show "u = 0 \<Longrightarrow> cstr z 0 = 0"
    using assms(2) t window_types(1) [of "drop 6 z"] window_types(2) [of "drop 4 z" l]
      window_types(3) [of "drop 6 z" l]
    by (auto simp: decide_def TK_WINDOW_def TK_OVER_def TK_FILTER_def TK_ID_def TK_QNUMBER_def
        split: if_splits)
  show "cstr z 0 \<noteq> 0 \<Longrightarrow> t \<noteq> TK_SPACE \<and> t \<noteq> TK_COMMENT"
    using assms(2) by (auto simp: decide_def TK_SPACE_def TK_COMMENT_def TK_WINDOW_def TK_OVER_def
        TK_FILTER_def TK_QNUMBER_def split: if_splits)
qed

definition significant :: "byte list \<Rightarrow> byte list list" where
  "significant z = map snd (filter (\<lambda>(t, w). t \<noteq> TK_SPACE \<and> t \<noteq> TK_COMMENT) (lex z))"

text \<open>How the sequence of tokens ends when the loop is left at the end of the text.\<close>

definition ends_ok :: "int \<Rightarrow> int list \<Rightarrow> bool" where
  "ends_ok l ts \<longleftrightarrow> ts = [] \<and> l = 0 \<or> ts = [0] \<and> l = TK_SEMI \<or> (\<exists>us. ts = us @ [TK_SEMI, 0])"

definition run_ok :: "byte list \<Rightarrow> int \<Rightarrow> int \<Rightarrow> stop \<Rightarrow> byte list \<Rightarrow> (int \<times> byte list) list \<Rightarrow> bool" where
  "run_ok z mx l s r fed \<longleftrightarrow>
     list_all (\<lambda>(t, w). valid_type t) fed \<and>
     0 \<notin> set (butlast (map fst fed)) \<and>
     (s = Finished \<longrightarrow> ends_ok l (map fst fed) \<and> filter (\<lambda>w. w \<noteq> []) (map snd fed) = significant z) \<and>
     (if s = Too_big then mx < int (length z) else int (length z) - int (length r) \<le> mx)"

lemma significant_NUL: "cstr z 0 = 0 \<Longrightarrow> significant z = []"
  by (simp add: significant_def lex.simps)

lemma significant_step:
  "cstr z 0 \<noteq> 0 \<Longrightarrow> sqlite3GetToken z = (t, n) \<Longrightarrow> significant z =
    (if t \<noteq> TK_SPACE \<and> t \<noteq> TK_COMMENT then [take n z] else []) @ significant (drop n z)"
  by (simp add: significant_def lex.simps [of z])

lemma decide_stop:
  "decide i c z l (t, n) = Stop s \<Longrightarrow> s \<noteq> Too_big \<and> (s = Finished \<longrightarrow> l = 0 \<and> cstr z 0 = 0)"
  by (auto simp: decide_def split: if_splits)

lemma decide_skip_type: "decide i c z l (t, n) = Skip \<Longrightarrow> t = TK_SPACE \<or> t = TK_COMMENT"
  by (auto simp: decide_def split: if_splits)

lemma run_after_end:
  assumes "cstr z 0 = 0" "run_loop feed intr c k z mx 0 p = (s, r, q, fed)"
  shows "fed = []"
proof -
  have "decide (intr k) c z 0 (TK_ILLEGAL, 0) = Stop (if intr k then Interrupted else Finished)"
    using assms(1) by (simp add: decide_def TK_defs)
  then show ?thesis
    using assms(2) GetToken_NUL [OF assms(1)] by (subst (asm) run_loop.simps) (auto split: if_splits)
qed

lemma run_ok_feed:
  assumes ok: "run_ok (drop n z) (mx - int n) u s r fed" and u: "valid_type u" "u = 0 \<Longrightarrow> fed = []"
    and sig: "significant z = (if n = 0 then [] else [take n z]) @ significant (drop n z)"
    and ends: "ends_ok u (map fst fed) \<Longrightarrow> ends_ok l (u # map fst fed)"
    and n: "n \<le> length z"
  shows "run_ok z mx l s r ((u, take n z) # fed)"
  unfolding run_ok_def
proof (intro conjI impI)
  show "list_all (\<lambda>(t, w). valid_type t) ((u, take n z) # fed)"
    using ok u(1) by (simp add: run_ok_def)
  show "0 \<notin> set (butlast (map fst ((u, take n z) # fed)))"
    using ok u(2) by (cases "fed = []") (auto simp: run_ok_def)
  assume f: "s = Finished"
  show "ends_ok l (map fst ((u, take n z) # fed))"
    using ok f ends by (simp add: run_ok_def)
  have "take n z = [] \<longleftrightarrow> n = 0" using n by auto
  then show "filter (\<lambda>w. w \<noteq> []) (map snd ((u, take n z) # fed)) = significant z"
    using ok f by (subst sig) (simp add: run_ok_def)
next
  show "if s = Too_big then mx < int (length z) else int (length z) - int (length r) \<le> mx"
  proof -
    have "if s = Too_big then mx - int n < int (length (drop n z))
      else int (length (drop n z)) - int (length r) \<le> mx - int n"
      using ok unfolding run_ok_def by blast
    moreover have "int (length (drop n z)) = int (length z) - int n" using n by simp
    ultimately show ?thesis by (cases "s = Too_big") simp_all
  qed
qed

lemma run_loop_ok: "run_loop feed intr c k z mx l p = (s, r, q, fed) \<Longrightarrow> run_ok z mx l s r fed"
proof (induction feed intr c k z mx l p arbitrary: s r q fed rule: run_loop.induct)
  case (1 feed intr c k z mx l p)
  obtain t n where tn: "sqlite3GetToken z = (t, n)" by fastforce
  have n: "n \<le> length z"
    using GetToken_progress [OF tn] GetToken_NUL [of z] tn by (cases "cstr z 0 = 0") auto
  show ?case
  proof (cases "mx - int n < 0")
    case True
    then have "s = Too_big" "r = z" "fed = []"
      using "1.prems" by (simp_all add: run_loop.simps [of feed intr c k z] tn)
    then show ?thesis using True n by (simp add: run_ok_def)
  next
    case False
    show ?thesis
    proof (cases "decide (intr k) c z l (t, n)")
      case (Stop x)
      then have "s = x" "r = z" "fed = []"
        using "1.prems" False by (simp_all add: run_loop.simps [of feed intr c k z] tn)
      then show ?thesis
        using False n decide_stop [OF Stop] significant_NUL [of z] by (auto simp: run_ok_def ends_ok_def)
    next
      case Skip
      have "run_loop feed intr c (k + 1) (drop n z) (mx - int n) l p = (s, r, q, fed)"
        using "1.prems" False by (simp add: run_loop.simps [of feed intr c k z] tn Skip)
      then have "run_ok (drop n z) (mx - int n) l s r fed"
        by (rule "1.IH"(1) [OF tn [symmetric] False Skip])
      moreover have "significant z = significant (drop n z)"
        using significant_step [OF _ tn] decide_progress(1) [OF tn Skip] decide_skip_type [OF Skip] by auto
      ultimately show ?thesis
        using n False by (auto simp: run_ok_def split: if_splits)
    next
      case (Feed u m)
      obtain p' rc where f: "feed p u (take m z) = (p', rc)" by fastforce
      note d = decide_progress(2) [OF tn Feed]
      note u = decide_type [OF tn Feed]
      have m: "m \<le> n" using d by auto
      show ?thesis
      proof (cases "rc = 0")
        case False
        then have "s = Parser_rc rc" "r = drop m z" "fed = [(u, take m z)]"
          using "1.prems" \<open>\<not> mx - int n < 0\<close>
          by (simp_all add: run_loop.simps [of feed intr c k z] tn Feed f)
        then show ?thesis
          using m n u(1) \<open>\<not> mx - int n < 0\<close> by (simp add: run_ok_def)
      next
        case True
        obtain s' r' q' fed' where x:
          "run_loop feed intr c (k + 1) (drop m z) (mx - int n) u p' = (s', r', q', fed')"
          using prod_cases4 by blast
        then have res: "s = s'" "r = r'" "fed = (u, take m z) # fed'"
          using "1.prems" False True by (simp_all add: run_loop.simps [of feed intr c k z] tn Feed f)
        have IH: "run_ok (drop m z) (mx - int n) u s r fed'"
          using "1.IH"(2) [OF tn [symmetric] False Feed f [symmetric] _ x] True res by simp
        have last: "u = 0 \<Longrightarrow> fed' = []"
          using run_after_end [of "drop m z"] x d u(2) by auto
        have sig: "significant z = (if m = 0 then [] else [take m z]) @ significant (drop m z)"
          using d u(3) significant_step [OF _ tn] significant_NUL [of z] by auto
        have e: "ends_ok u (map fst fed') \<Longrightarrow> ends_ok l (u # map fst fed')"
          using d u(2) by (auto simp: ends_ok_def TK_SEMI_def)
        have "m = n" using d GetToken_NUL [of z] tn by auto
        show ?thesis
          unfolding res(3) \<open>m = n\<close>
          by (rule run_ok_feed; use IH u(1) last sig e n \<open>m = n\<close> in blast)
      qed
    qed
  qed
qed

text \<open>
  C38. For every parser and every sequence of interrupts, the loop of sqlite3RunParser never
  feeds a space, a comment or an illegal token and nothing after the end marker; when it
  reaches the end of the text the last tokens were a semicolon and the end marker and the
  texts fed are exactly those of the tokens that are neither spaces nor comments; and it reads
  no more than the length limit, reporting a text as too big only when it is longer than the
  limit.
\<close>

theorem parser_is_fed_the_tokens:
  assumes "run_loop feed intr comments 0 zSql mxSqlLen (- 1) p = (s, zTail, q, fed)"
  shows "(\<forall>(t, w) \<in> set fed. t \<noteq> TK_SPACE \<and> t \<noteq> TK_COMMENT \<and> t \<noteq> TK_ILLEGAL) \<and>
    0 \<notin> set (butlast (map fst fed)) \<and>
    (s = Finished \<longrightarrow> (\<exists>us. map fst fed = us @ [TK_SEMI, 0]) \<and>
      filter (\<lambda>w. w \<noteq> []) (map snd fed) = significant zSql) \<and>
    (if s = Too_big then mxSqlLen < int (length zSql)
     else int (length zSql) - int (length zTail) \<le> mxSqlLen)"
  using run_loop_ok [OF assms]
  by (auto simp: run_ok_def ends_ok_def list_all_iff valid_type_def TK_SEMI_def)

lemma run_two_statements:
  "run_loop (\<lambda>p t w. (p, 0)) (\<lambda>k. False) True 0 [49, 59, 32, 50] 100 (- 1) () =
    (Finished, [], (), [(TK_INTEGER, [49]), (TK_SEMI, [59]), (TK_INTEGER, [50]), (TK_SEMI, []), (0, [])])"
  by code_simp

lemma parser_is_fed_the_tokens_witness:
  "filter (\<lambda>w. w \<noteq> []) (map snd
    [(TK_INTEGER, [49]), (TK_SEMI, [59]), (TK_INTEGER, [50]), (TK_SEMI, []), (0, [])]) =
   significant [49, 59, 32, 50]"
  using parser_is_fed_the_tokens [OF run_two_statements] by blast

end
