(* ===== verification/Sqlite_Double.thy ===== *)
theory Sqlite_Double
  imports Adou_Prelude Complex_Main
begin

text \<open>
  The arithmetic of C's \<open>double\<close>: a value is the rational number it stands for, and an operation is
  the exact operation followed by \<open>fl\<close>, which rounds to 53 significant bits, to nearest and to even
  on a tie. Infinities, subnormal numbers and the sign of zero are left out: the values of the
  code that uses this theory are zero or of ordinary size.
\<close>

section \<open>Rounding\<close>

fun bits :: "nat \<Rightarrow> nat" where
  "bits n = (if n = 0 then 0 else Suc (bits (n div 2)))"

declare bits.simps [simp del]

definition pow2 :: "int \<Rightarrow> rat" where
  "pow2 k = (if 0 \<le> k then 2 ^ nat k else 1 / 2 ^ nat (- k))"

definition round_even :: "rat \<Rightarrow> int" where
  "round_even y =
     (let q = \<lfloor>y\<rfloor>; r = y - of_int q in
      if r < 1 / 2 then q else if r > 1 / 2 then q + 1 else if even q then q else q + 1)"

text \<open>The exponent of the last place.\<close>

definition fl_exp :: "rat \<Rightarrow> int" where
  "fl_exp x =
     (let (n, d) = quotient_of x; k = int (bits (nat \<bar>n\<bar>)) - int (bits (nat d)) - 53 in
      if \<bar>x\<bar> \<ge> pow2 (k + 53) then k + 1 else k)"

definition fl :: "rat \<Rightarrow> rat" where
  "fl x = (if x = 0 then 0 else pow2 (fl_exp x) * of_int (round_even (x / pow2 (fl_exp x))))"

text \<open>The conversion to an integer type drops the fraction.\<close>

definition to_integer :: "rat \<Rightarrow> int" where
  "to_integer x = (if 0 \<le> x then \<lfloor>x\<rfloor> else \<lceil>x\<rceil>)"

section \<open>Error bound and exact values\<close>

lemma pow2_pos [simp]: "0 < pow2 k"
  by (simp add: pow2_def)

lemma pow2_nonzero [simp]: "pow2 k \<noteq> 0"
  using pow2_pos [of k] by linarith

lemma pow2_power_int: "pow2 k = 2 powi k"
  by (simp add: pow2_def power_int_def inverse_eq_divide power_one_over)

lemma pow2_add: "pow2 (a + b) = pow2 a * pow2 b"
  unfolding pow2_power_int by (simp add: power_int_add)

lemma pow2_nat: "pow2 (int n) = 2 ^ n"
  by (simp add: pow2_def)

lemma pow2_mono: "a \<le> b \<Longrightarrow> pow2 a \<le> pow2 b"
  unfolding pow2_power_int by (simp add: power_int_increasing)

lemma bits_bounds: "0 < n \<Longrightarrow> 2 ^ bits n \<le> 2 * n \<and> n < 2 ^ bits n"
proof (induction n rule: bits.induct)
  case (1 n)
  show ?case
  proof (cases "n div 2 = 0")
    case True
    then have "n = 1" using 1(2) by simp
    then show ?thesis by (simp add: bits.simps [of "Suc 0"] bits.simps [of 0])
  next
    case False
    have IH: "2 ^ bits (n div 2) \<le> 2 * (n div 2)" "n div 2 < 2 ^ bits (n div 2)" using 1(1) False by simp_all
    moreover have "bits n = Suc (bits (n div 2))" using 1(2) by (subst bits.simps) simp
    moreover have "2 * (n div 2) \<le> n" "n < 2 * (n div 2) + 2" by linarith+
    ultimately show ?thesis using IH by (simp only: power_Suc) linarith
  qed
qed

lemma fl_exp_bounds:
  assumes "x \<noteq> 0"
  shows "pow2 (fl_exp x + 52) \<le> \<bar>x\<bar>" "\<bar>x\<bar> < pow2 (fl_exp x + 53)"
proof -
  obtain n d where nd: "quotient_of x = (n, d)" by fastforce
  have d: "0 < d" and x: "x = of_int n / of_int d"
    using quotient_of_denom_pos [OF nd] quotient_of_div [OF nd] by simp_all
  then have n: "n \<noteq> 0" using assms by auto
  define a b where "a = bits (nat \<bar>n\<bar>)" and "b = bits (nat d)"
  have "2 ^ a \<le> 2 * nat \<bar>n\<bar>" "nat \<bar>n\<bar> < 2 ^ a" "2 ^ b \<le> 2 * nat d" "nat d < 2 ^ b"
    using bits_bounds [of "nat \<bar>n\<bar>"] bits_bounds [of "nat d"] n d by (simp_all add: a_def b_def)
  then have "of_nat (2 ^ a) \<le> (of_nat (2 * nat \<bar>n\<bar>) :: rat)" "of_nat (nat \<bar>n\<bar>) < (of_nat (2 ^ a) :: rat)"
    "of_nat (2 ^ b) \<le> (of_nat (2 * nat d) :: rat)" "of_nat (nat d) < (of_nat (2 ^ b) :: rat)"
    by (simp_all only: of_nat_le_iff of_nat_less_iff)
  then have ab: "2 ^ a \<le> 2 * \<bar>of_int n :: rat\<bar>" "\<bar>of_int n :: rat\<bar> < 2 ^ a"
      "2 ^ b \<le> 2 * (of_int d :: rat)" "of_int d < (2 ^ b :: rat)"
    using d by (simp_all add: of_nat_nat)
  define k where "k = int a - int b - 53"
  have abs_x: "\<bar>x\<bar> = \<bar>of_int n\<bar> / of_int d" using d x by simp
  have p: "pow2 (k + 53) = 2 ^ a / 2 ^ b"
    unfolding k_def pow2_power_int by (simp add: power_int_diff)
  have "2 ^ a * of_int d \<le> 2 * \<bar>of_int n :: rat\<bar> * 2 ^ b"
    using ab(1,4) d by (intro mult_mono) auto
  then have "pow2 (k + 53) / 2 \<le> \<bar>x\<bar>" using d by (simp add: p abs_x field_simps)
  moreover have "\<bar>of_int n :: rat\<bar> * 2 ^ b < 2 ^ a * (2 * of_int d)"
    using ab(2,3) n by (intro mult_less_le_imp_less) auto
  then have "\<bar>x\<bar> < pow2 (k + 53) * 2" using d by (simp add: p abs_x field_simps)
  moreover have "pow2 (k + 53) = pow2 (k + 52) * 2" "pow2 (k + 54) = pow2 (k + 53) * 2"
    using pow2_add [of "k + 52" 1] pow2_add [of "k + 53" 1] by (simp_all add: pow2_def [of 1] add.commute)
  moreover have "fl_exp x = (if \<bar>x\<bar> \<ge> pow2 (k + 53) then k + 1 else k)"
    by (simp add: fl_exp_def nd a_def b_def k_def)
  ultimately show "pow2 (fl_exp x + 52) \<le> \<bar>x\<bar>" "\<bar>x\<bar> < pow2 (fl_exp x + 53)"
    by (auto simp: add.commute add.left_commute split: if_splits)
qed

lemma round_even_error: "\<bar>of_int (round_even y) - y\<bar> \<le> 1 / 2"
proof -
  define r where "r = y - of_int \<lfloor>y\<rfloor>"
  have "0 \<le> r" "r < 1" by (simp_all add: r_def floor_correct) linarith
  moreover have "y = of_int \<lfloor>y\<rfloor> + r" by (simp add: r_def)
  ultimately show ?thesis
    by (auto simp: round_even_def Let_def r_def [symmetric])
qed

lemma round_even_int [simp]: "round_even (of_int n) = n"
  by (simp add: round_even_def)

text \<open>The relative error of an operation is at most the 53rd part of a power of two.\<close>

lemma fl_error: "\<bar>fl x - x\<bar> \<le> \<bar>x\<bar> / 2 ^ 53"
proof (cases "x = 0")
  case False
  let ?p = "pow2 (fl_exp x)"
  have "fl x - x = ?p * (of_int (round_even (x / ?p)) - x / ?p)"
    using False by (simp add: fl_def right_diff_distrib)
  then have "\<bar>fl x - x\<bar> = ?p * \<bar>of_int (round_even (x / ?p)) - x / ?p\<bar>"
    by (simp add: abs_mult less_imp_le)
  also have "\<dots> \<le> ?p * (1 / 2)" by (intro mult_left_mono round_even_error) (simp add: less_imp_le)
  also have "\<dots> \<le> \<bar>x\<bar> / 2 ^ 53"
    using fl_exp_bounds(1) [OF False] pow2_add [of "fl_exp x" 52] by (simp add: pow2_def [of 52])
  finally show ?thesis .
qed (simp add: fl_def)

lemma fl_exact: "fl x = x" if "x = of_int m * pow2 j" "\<bar>m\<bar> < 2 ^ 53"
proof (cases "x = 0")
  case False
  have "fl_exp x \<le> j"
  proof (rule ccontr)
    assume "\<not> fl_exp x \<le> j"
    then have "pow2 (j + 53) \<le> pow2 (fl_exp x + 52)" by (intro pow2_mono) simp
    also have "\<dots> \<le> \<bar>x\<bar>" by (rule fl_exp_bounds [OF False])
    also have "\<dots> = \<bar>of_int m\<bar> * pow2 j" using that(1) by (simp add: abs_mult less_imp_le abs_of_pos)
    also have "\<dots> < 2 ^ 53 * pow2 j"
    proof -
      have "\<bar>of_int m :: rat\<bar> < of_int (2 ^ 53)" using that(2) by (simp only: of_int_less_iff flip: of_int_abs)
      then show ?thesis by (intro mult_strict_right_mono) simp_all
    qed
    also have "\<dots> = pow2 (j + 53)" by (simp add: pow2_add pow2_def [of 53])
    finally show False by simp
  qed
  then obtain i where i: "j = fl_exp x + int i" by (metis zle_iff_zadd)
  have "x / pow2 (fl_exp x) = of_int (m * 2 ^ i)"
  proof -
    have "x = of_int (m * 2 ^ i) * pow2 (fl_exp x)"
      using that(1) i pow2_add [of "fl_exp x" "int i"] by (simp add: pow2_nat mult.commute mult.left_commute)
    then show ?thesis by (metis nonzero_mult_div_cancel_right pow2_nonzero)
  qed
  then have "round_even (x / pow2 (fl_exp x)) = m * 2 ^ i" by (simp only: round_even_int)
  then show ?thesis
    using False \<open>x / pow2 (fl_exp x) = _\<close> by (simp add: fl_def) (metis nonzero_eq_divide_eq mult.commute pow2_nonzero)
qed (simp add: fl_def)

lemma fl_of_int: "\<bar>m\<bar> < 2 ^ 53 \<Longrightarrow> fl (of_int m) = of_int m"
  using fl_exact [of "of_int m" m 0] by (simp add: pow2_def)

lemma fl_halves: "\<bar>m\<bar> < 2 ^ 53 \<Longrightarrow> fl (of_int m / 2) = of_int m / 2"
  using fl_exact [of "of_int m / 2" m "- 1"] by (simp add: pow2_def)

lemma fl_quarters: "\<bar>m\<bar> < 2 ^ 53 \<Longrightarrow> fl (of_int m / 4) = of_int m / 4"
  using fl_exact [of "of_int m / 4" m "- 2"] by (simp add: pow2_def)

text \<open>A value away from the next integers keeps its integer part.\<close>

lemma near_floor:
  assumes "\<bar>y - x\<bar> \<le> e" "of_int n + e \<le> x" "x + e < of_int n + 1" "0 \<le> n"
  shows "to_integer y = n"
proof -
  have "of_int n \<le> y" "y < of_int n + 1" using assms by linarith+
  moreover have "0 \<le> y" using calculation assms(4) of_int_0_le_iff [of n, where 'a = rat] by linarith
  ultimately show ?thesis by (simp add: to_integer_def floor_unique)
qed

end
