(* ===== verification/Sqlite_Date.thy ===== *)
theory Sqlite_Date
  imports Sqlite_Double Sqlite_Chars "HOL-Library.Signed_Division"
begin

text \<open>
  The date and time functions of the bundled SQLite (\<open>date.c\<close>): parsing of dates and times, the
  conversion between calendar fields and the Julian day number in milliseconds, the modifiers, and
  the texts of \<open>date()\<close>, \<open>time()\<close> and \<open>datetime()\<close>. Doubles are the values of \<open>Sqlite_Double\<close>; C's
  \<open>/\<close> and \<open>%\<close> are \<open>sdiv\<close> and \<open>smod\<close>, which truncate. The environment gives the statement's time,
  whether the function may use it, the conversion \<open>sqlite3AtoF\<close> of another file, and the local time
  of the operating system. A fraction of a second of more than 300 digits, whose scale is no longer
  an ordinary double, is outside the model.
\<close>

section \<open>State and environment\<close>

record DateTime =
  iJD :: int
  t_Y :: int
  t_M :: int
  t_D :: int
  t_h :: int
  t_m :: int
  tz :: int
  t_s :: rat
  validJD :: bool
  validYMD :: bool
  validHMS :: bool
  nFloor :: int
  rawS :: bool
  isError :: bool
  useSubsec :: bool
  isUtc :: bool
  isLocal :: bool

text \<open>\<open>memset(p, 0, sizeof( *p))\<close>.\<close>

definition dt_zero :: DateTime where
  "dt_zero = \<lparr>iJD = 0, t_Y = 0, t_M = 0, t_D = 0, t_h = 0, t_m = 0, tz = 0, t_s = 0, validJD = False,
     validYMD = False, validHMS = False, nFloor = 0, rawS = False, isError = False, useSubsec = False,
     isUtc = False, isLocal = False\<rparr>"

record tm =
  tm_year :: int
  tm_mon :: int
  tm_mday :: int
  tm_hour :: int
  tm_min :: int
  tm_sec :: int

record date_env =
  env_now :: int
  env_not_pure :: bool
  env_atof :: "byte list \<Rightarrow> int \<times> rat"
  env_localtime :: "int \<Rightarrow> tm option"

section \<open>Parsing\<close>

definition aMx :: "int list" where "aMx = [12, 14, 24, 31, 59, 14712]"

text \<open>The digits of one number; \<open>val\<close> is what has been read.\<close>

fun take_digits :: "nat \<Rightarrow> byte list \<Rightarrow> int \<Rightarrow> (int \<times> byte list) option" where
  "take_digits 0 z val = Some (val, z)"
| "take_digits (Suc n) z val =
     (if \<not> sqlite3IsDigit (cstr z 0) then None
      else take_digits n (drop 1 z) (val * 10 + int (unat (cstr z 0)) - 48))"

text \<open>\<open>getDigits\<close> returns the values it has stored.\<close>

fun getDigits :: "byte list \<Rightarrow> byte list \<Rightarrow> int list" where
  "getDigits zDate (N # minimum # letter # zFormat) =
     (let nextC = cstr zFormat 0; maximum = aMx ! unat (letter - 0x61) in
      case take_digits (unat (N - 0x30)) zDate 0 of
        None \<Rightarrow> []
      | Some (val, z) \<Rightarrow>
          if val < int (unat (minimum - 0x30)) \<or> val > maximum \<or> (nextC \<noteq> 0 \<and> nextC \<noteq> cstr z 0) then []
          else val # (if nextC \<noteq> 0 then getDigits (drop 1 z) (drop 1 zFormat) else []))"
| "getDigits zDate zFormat = []"

text \<open>The formats \<open>20b:20e\<close>, \<open>20c:20e\<close>, \<open>20e\<close>, \<open>40f-21a-21d\<close>, \<open>40f-20a-20d\<close>, \<open>50f-20a-20d\<close>, \<open>40f\<close> and
  \<open>50f\<close>.\<close>

definition fmt_20b_20e :: "byte list" where "fmt_20b_20e = [0x32, 0x30, 0x62, 0x3A, 0x32, 0x30, 0x65]"
definition fmt_20c_20e :: "byte list" where "fmt_20c_20e = [0x32, 0x30, 0x63, 0x3A, 0x32, 0x30, 0x65]"
definition fmt_20e :: "byte list" where "fmt_20e = [0x32, 0x30, 0x65]"
definition fmt_40f_21a_21d :: "byte list" where
  "fmt_40f_21a_21d = [0x34, 0x30, 0x66, 0x2D, 0x32, 0x31, 0x61, 0x2D, 0x32, 0x31, 0x64]"
definition fmt_40f_20a_20d :: "byte list" where
  "fmt_40f_20a_20d = [0x34, 0x30, 0x66, 0x2D, 0x32, 0x30, 0x61, 0x2D, 0x32, 0x30, 0x64]"
definition fmt_50f_20a_20d :: "byte list" where
  "fmt_50f_20a_20d = [0x35, 0x30, 0x66, 0x2D, 0x32, 0x30, 0x61, 0x2D, 0x32, 0x30, 0x64]"
definition fmt_40f :: "byte list" where "fmt_40f = [0x34, 0x30, 0x66]"
definition fmt_50f :: "byte list" where "fmt_50f = [0x35, 0x30, 0x66]"

text \<open>A parser returns whether it failed, and the structure it has changed.\<close>

definition zulu_time :: "byte list \<Rightarrow> DateTime \<Rightarrow> bool \<times> DateTime" where
  "zulu_time zDate p = (cstr (dropWhile sqlite3Isspace zDate) 0 \<noteq> 0, p)"

definition parseTimezone :: "byte list \<Rightarrow> DateTime \<Rightarrow> bool \<times> DateTime" where
  "parseTimezone zDate p =
     (let zDate = dropWhile sqlite3Isspace zDate;
          p = p\<lparr>tz := 0\<rparr>;
          c = cstr zDate 0 in
      if c = 0x2D \<or> c = 0x2B then
        let sgn = (if c = 0x2D then - 1 else 1); zDate = drop 1 zDate in
        (case getDigits zDate fmt_20b_20e of
           [nHr, nMn] \<Rightarrow> zulu_time (drop 5 zDate) (p\<lparr>tz := sgn * (nMn + nHr * 60)\<rparr>)
         | _ \<Rightarrow> (True, p))
      else if c = 0x5A \<or> c = 0x7A then
        zulu_time (drop 1 zDate) (p\<lparr>isLocal := False, isUtc := True\<rparr>)
      else (c \<noteq> 0, p))"

text \<open>The digits of a fraction, with their scale.\<close>

fun fraction :: "rat \<Rightarrow> rat \<Rightarrow> byte list \<Rightarrow> rat \<times> rat \<times> byte list" where
  "fraction ms rScale [] = (ms, rScale, [])"
| "fraction ms rScale (c # z) =
     (if sqlite3IsDigit c then fraction (fl (fl (fl (ms * 10) + of_nat (unat c)) - 48)) (fl (rScale * 10)) z
      else (ms, rScale, c # z))"

text \<open>The seconds and their fraction, \<open>None\<close> for an error.\<close>

definition parse_seconds :: "byte list \<Rightarrow> (int \<times> rat \<times> byte list) option" where
  "parse_seconds zDate =
     (if cstr zDate 0 = 0x3A then
        let zDate = drop 1 zDate in
        (case getDigits zDate fmt_20e of
           [s] \<Rightarrow>
             let zDate = drop 2 zDate in
             if cstr zDate 0 = 0x2E \<and> sqlite3IsDigit (cstr zDate 1) then
               let (ms, rScale, zDate) = fraction 0 1 (drop 1 zDate);
                   ms = fl (ms / rScale);
                   ms = (if ms > fl (999 / 1000) then fl (999 / 1000) else ms) in
               Some (s, ms, zDate)
             else Some (s, 0, zDate)
         | _ \<Rightarrow> None)
      else Some (0, 0, zDate))"

definition parseHhMmSs :: "byte list \<Rightarrow> DateTime \<Rightarrow> bool \<times> DateTime" where
  "parseHhMmSs zDate p =
     (case getDigits zDate fmt_20c_20e of
        [h, m] \<Rightarrow>
          (case parse_seconds (drop 5 zDate) of
             None \<Rightarrow> (True, p)
           | Some (s, ms, zDate) \<Rightarrow>
               parseTimezone zDate (p\<lparr>validJD := False, rawS := False, validHMS := True, t_h := h, t_m := m,
                 t_s := fl (of_int s + ms)\<rparr>))
      | _ \<Rightarrow> (True, p))"

section \<open>Julian day and calendar\<close>

definition datetimeError :: "DateTime \<Rightarrow> DateTime" where
  "datetimeError p = dt_zero\<lparr>isError := True\<rparr>"

text \<open>The number of the day that begins at noon, from \<open>X1\<close>, \<open>X2\<close>, \<open>D\<close> and \<open>B\<close> of \<open>computeJD\<close>, in
  milliseconds.\<close>

definition day_JD :: "int \<Rightarrow> int \<Rightarrow> int \<Rightarrow> int" where
  "day_JD Y M D =
     (let Y' = (if M \<le> 2 then Y - 1 else Y);
          M' = (if M \<le> 2 then M + 12 else M);
          A = (Y' + 4800) sdiv 100;
          B = 38 - A + A sdiv 4;
          X1 = 36525 * (Y' + 4716) sdiv 100;
          X2 = 306001 * (M' + 1) sdiv 10000 in
      to_integer (fl (fl (of_int (X1 + X2 + D + B) - 3049 / 2) * 86400000)))"

definition computeJD :: "DateTime \<Rightarrow> DateTime" where
  "computeJD p =
     (if validJD p then p
      else
        let Y = (if validYMD p then t_Y p else 2000);
            M = (if validYMD p then t_M p else 1);
            D = (if validYMD p then t_D p else 1) in
        if Y < - 4713 \<or> Y > 9999 \<or> rawS p then datetimeError p
        else
          let p = p\<lparr>iJD := day_JD Y M D, validJD := True\<rparr> in
          if validHMS p then
            let p = p\<lparr>iJD := iJD p + (t_h p * 3600000 + t_m p * 60000 + to_integer (fl (fl (t_s p * 1000) + 1 / 2)))\<rparr> in
            if tz p \<noteq> 0 then
              p\<lparr>iJD := iJD p - tz p * 60000, validYMD := False, validHMS := False, tz := 0, isUtc := True,
                isLocal := False\<rparr>
            else p
          else p)"

definition computeFloor :: "DateTime \<Rightarrow> DateTime" where
  "computeFloor p =
     (if t_D p \<le> 28 then p\<lparr>nFloor := 0\<rparr>
      else if bit (0x15AA :: int) (nat (t_M p)) then p\<lparr>nFloor := 0\<rparr>
      else if t_M p \<noteq> 2 then p\<lparr>nFloor := (if t_D p = 31 then 1 else 0)\<rparr>
      else if t_Y p smod 4 \<noteq> 0 \<or> (t_Y p smod 100 = 0 \<and> t_Y p smod 400 \<noteq> 0) then p\<lparr>nFloor := t_D p - 28\<rparr>
      else p\<lparr>nFloor := t_D p - 29\<rparr>)"

definition parseYyyyMmDd :: "byte list \<Rightarrow> DateTime \<Rightarrow> bool \<times> DateTime" where
  "parseYyyyMmDd zDate p =
     (let neg = (cstr zDate 0 = 0x2D);
          zDate = (if neg then drop 1 zDate else zDate) in
      case getDigits zDate fmt_40f_21a_21d of
        [Y, M, D] \<Rightarrow>
          let zDate = dropWhile (\<lambda>c. sqlite3Isspace c \<or> c = 0x54) (drop 10 zDate);
              (failed, p) = parseHhMmSs zDate p in
          if failed \<and> cstr zDate 0 \<noteq> 0 then (True, p)
          else
            let p = (if failed then p\<lparr>validHMS := False\<rparr> else p);
                p = computeFloor (p\<lparr>validJD := False, validYMD := True, t_Y := if neg then - Y else Y, t_M := M, t_D := D\<rparr>) in
            (False, if tz p \<noteq> 0 then computeJD p else p)
      | _ \<Rightarrow> (True, p))"

definition clearYMD_HMS_TZ :: "DateTime \<Rightarrow> DateTime" where
  "clearYMD_HMS_TZ p = p\<lparr>validYMD := False, validHMS := False, tz := 0\<rparr>"

definition setDateTimeToCurrent :: "date_env \<Rightarrow> DateTime \<Rightarrow> bool \<times> DateTime" where
  "setDateTimeToCurrent env p =
     (let p = p\<lparr>iJD := env_now env\<rparr> in
      if iJD p > 0 then (False, clearYMD_HMS_TZ (p\<lparr>validJD := True, isUtc := True, isLocal := False\<rparr>))
      else (True, p))"

definition setRawDateNumber :: "DateTime \<Rightarrow> rat \<Rightarrow> DateTime" where
  "setRawDateNumber p r =
     (let p = p\<lparr>t_s := r, rawS := True\<rparr> in
      if r \<ge> 0 \<and> r < 10746969 / 2 then
        p\<lparr>iJD := to_integer (fl (fl (r * 86400000) + 1 / 2)), validJD := True\<rparr>
      else p)"

text \<open>The texts \<open>now\<close>, \<open>subsec\<close> and \<open>subsecond\<close>.\<close>

definition str_now :: "byte list" where "str_now = [0x6E, 0x6F, 0x77]"
definition str_subsec :: "byte list" where "str_subsec = [0x73, 0x75, 0x62, 0x73, 0x65, 0x63]"
definition str_subsecond :: "byte list" where
  "str_subsecond = [0x73, 0x75, 0x62, 0x73, 0x65, 0x63, 0x6F, 0x6E, 0x64]"

definition parseDateOrTime :: "date_env \<Rightarrow> byte list \<Rightarrow> DateTime \<Rightarrow> bool \<times> DateTime" where
  "parseDateOrTime env zDate p =
     (let (failed, p) = parseYyyyMmDd zDate p in
      if \<not> failed then (False, p)
      else
        let (failed, p) = parseHhMmSs zDate p in
        if \<not> failed then (False, p)
        else if sqlite3StrICmp zDate str_now = 0 \<and> env_not_pure env then setDateTimeToCurrent env p
        else if fst (env_atof env zDate) > 0 then (False, setRawDateNumber p (snd (env_atof env zDate)))
        else if (sqlite3StrICmp zDate str_subsec = 0 \<or> sqlite3StrICmp zDate str_subsecond = 0) \<and> env_not_pure env then
          setDateTimeToCurrent env (p\<lparr>useSubsec := True\<rparr>)
        else (True, p))"

definition INT_464269060799999 :: int where
  "INT_464269060799999 = push_bit 32 0x1a640 OR 0x1072fdff"

definition validJulianDay :: "int \<Rightarrow> bool" where
  "validJulianDay jd \<longleftrightarrow> 0 \<le> jd \<and> jd \<le> INT_464269060799999"

text \<open>The calendar date of a Julian day in milliseconds: the arithmetic of \<open>computeYMD\<close>.\<close>

definition day_YMD :: "int \<Rightarrow> int \<times> int \<times> int" where
  "day_YMD jd =
     (let Z = (jd + 43200000) sdiv 86400000;
          alpha = to_integer (fl (fl (of_int Z + 128179 / 4) / (146097 / 4))) - 52;
          A = Z + 1 + alpha - (alpha + 100) sdiv 4 + 25;
          B = A + 1524;
          C = to_integer (fl (fl (of_int B - fl (1221 / 10)) / (1461 / 4)));
          D = (36525 * (C AND 32767)) sdiv 100;
          E = to_integer (fl (of_int (B - D) / fl (306001 / 10000)));
          X1 = to_integer (fl (fl (306001 / 10000) * of_int E));
          M = (if E < 14 then E - 1 else E - 13) in
      (if M > 2 then C - 4716 else C - 4715, M, B - D - X1))"

definition computeYMD :: "DateTime \<Rightarrow> DateTime" where
  "computeYMD p =
     (if validYMD p then p
      else if \<not> validJD p then p\<lparr>t_Y := 2000, t_M := 1, t_D := 1, validYMD := True\<rparr>
      else if \<not> validJulianDay (iJD p) then datetimeError p
      else
        let (Y, M, D) = day_YMD (iJD p) in
        p\<lparr>t_Y := Y, t_M := M, t_D := D, validYMD := True\<rparr>)"

definition computeHMS :: "DateTime \<Rightarrow> DateTime" where
  "computeHMS p =
     (if validHMS p then p
      else
        let p = computeJD p;
            day_ms = (iJD p + 43200000) smod 86400000;
            day_min = day_ms sdiv 60000 in
        p\<lparr>t_s := fl (of_int (day_ms smod 60000) / 1000), t_m := day_min smod 60, t_h := day_min sdiv 60,
          rawS := False, validHMS := True\<rparr>)"

definition computeYMD_HMS :: "DateTime \<Rightarrow> DateTime" where
  "computeYMD_HMS p = computeHMS (computeYMD p)"

section \<open>The rounded quotients are the exact ones\<close>

lemma fl_div_floor:
  assumes "0 \<le> N" "N < 2 ^ 53" "0 < d"
  shows "to_integer (fl (of_int N / of_int d)) = N div d"
proof (cases "N mod d = 0")
  case True
  then have N: "N = N div d * d" by (metis add.right_neutral div_mult_mod_eq)
  have "N div d * 1 \<le> N div d * d" using assms by (intro mult_left_mono) (simp_all add: pos_imp_zdiv_nonneg_iff)
  then have "N div d \<le> N" using N by simp
  moreover have "of_int N / of_int d = (of_int (N div d) :: rat)"
    using assms(3) by (subst N) (simp only: of_int_mult, simp)
  moreover have "0 \<le> N div d" using assms by (simp add: pos_imp_zdiv_nonneg_iff)
  ultimately show ?thesis using assms(2) fl_of_int [of "N div d"] by (simp add: to_integer_def)
next
  case False
  define q r where "q = N div d" and "r = N mod d"
  have r: "1 \<le> r" "r \<le> d - 1" using False pos_mod_bound [OF assms(3), of N] pos_mod_sign [OF assms(3), of N] unfolding r_def by linarith+
  have d: "(0 :: rat) < of_int d" using assms(3) by simp
  have x: "of_int N / of_int d = of_int q + (of_int r / of_int d :: rat)"
  proof -
    have "N = q * d + r" by (simp add: q_def r_def)
    then have "(of_int N :: rat) = of_int q * of_int d + of_int r" by (simp only: of_int_add of_int_mult)
    then show ?thesis using d by (simp add: field_simps)
  qed
  have lo: "1 / of_int d \<le> (of_int r / of_int d :: rat)" using r(1) d by (simp add: divide_le_cancel)
  have hi: "(of_int r / of_int d :: rat) \<le> 1 - 1 / of_int d"
  proof -
    have "(of_int r :: rat) \<le> of_int d - 1" using r(2) by (metis of_int_1 of_int_diff of_int_le_iff)
    then show ?thesis using d by (simp add: field_simps)
  qed
  let ?e = "of_int N / of_int d / 2 ^ 53 :: rat"
  have e: "?e < 1 / of_int d"
  proof -
    have "(of_int N :: rat) < of_int (2 ^ 53)" using assms(2) by (simp only: of_int_less_iff)
    then show ?thesis using d by (simp add: field_simps)
  qed
  have "0 \<le> q" using assms by (simp add: q_def pos_imp_zdiv_nonneg_iff)
  have "\<bar>fl (of_int N / of_int d) - of_int N / of_int d\<bar> \<le> ?e"
    using fl_error [of "of_int N / of_int d"] assms(1) d by simp
  then have "to_integer (fl (of_int N / of_int d)) = q"
    by (rule near_floor) (use x lo hi e \<open>0 \<le> q\<close> in linarith)+
  then show ?thesis by (simp add: q_def)
qed

text \<open>A computed value close to a fraction with a small denominator.\<close>

lemma near_fraction_floor:
  assumes "\<bar>y - of_int N / of_int d\<bar> < 1 / of_int d" "0 < d" "0 \<le> N" "N mod d \<noteq> 0"
  shows "to_integer y = N div d"
proof -
  define q r where "q = N div d" and "r = N mod d"
  have r: "1 \<le> r" "r \<le> d - 1" using assms(4) pos_mod_bound [OF assms(2), of N] pos_mod_sign [OF assms(2), of N] unfolding r_def by linarith+
  have d: "(0 :: rat) < of_int d" using assms(2) by simp
  have "N = q * d + r" by (simp add: q_def r_def)
  then have "(of_int N :: rat) = of_int q * of_int d + of_int r" by (simp only: of_int_add of_int_mult)
  then have x: "of_int N / of_int d = of_int q + (of_int r / of_int d :: rat)" using d by (simp add: field_simps)
  have lo: "1 / of_int d \<le> (of_int r / of_int d :: rat)" using r(1) d by (simp add: divide_le_cancel)
  have hi: "(of_int r / of_int d :: rat) \<le> 1 - 1 / of_int d"
  proof -
    have "(of_int r :: rat) \<le> of_int d - 1" using r(2) by (metis of_int_1 of_int_diff of_int_le_iff)
    then show ?thesis using d by (simp add: field_simps)
  qed
  have "0 \<le> q" using assms by (simp add: q_def pos_imp_zdiv_nonneg_iff)
  have "of_int q < y" "y < of_int q + 1" using assms(1) x lo hi by linarith+
  moreover have "0 \<le> y" using calculation(1) \<open>0 \<le> q\<close> of_int_0_le_iff [of q, where 'a = rat] by linarith
  ultimately have "to_integer y = q" by (simp add: to_integer_def floor_unique)
  then show ?thesis by (simp add: q_def)
qed

lemma day_alpha:
  assumes "0 \<le> Z" "Z < 2 ^ 40"
  shows "to_integer (fl (fl (of_int Z + 128179 / 4) / (146097 / 4))) = (4 * Z + 128179) div 146097"
proof -
  have Z: "of_int Z + 128179 / 4 = (of_int (4 * Z + 128179) / 4 :: rat)" by simp
  have "fl (of_int (4 * Z + 128179) / 4) = of_int (4 * Z + 128179) / 4"
    by (rule fl_quarters) (use assms in simp)
  then have "fl (of_int Z + 128179 / 4) / (146097 / 4) = of_int (4 * Z + 128179) / of_int 146097"
    unfolding Z by (simp only:) simp
  then show ?thesis using fl_div_floor [of "4 * Z + 128179" 146097] assms by (simp only:) simp
qed

lemma day_century:
  assumes "123 \<le> B" "B < 10000000"
  shows "to_integer (fl (fl (of_int B - fl (1221 / 10)) / (1461 / 4))) = (20 * B - 2442) div 7305"
proof (rule near_fraction_floor)
  define c where "c = fl (1221 / 10)"
  define u where "u = fl (of_int B - c)"
  have B: "(123 :: rat) \<le> of_int B" "of_int B < (10000000 :: rat)" 
    using of_int_le_iff [of 123 B, where 'a = rat] of_int_less_iff [of B 10000000, where 'a = rat] assms by simp_all
  have c: "\<bar>c - 1221 / 10\<bar> \<le> 1 / 100000000" using fl_error [of "1221 / 10"] by (simp add: c_def)
  then have "\<bar>c - 1221 / 10\<bar> \<le> 1 / 10" by simp
  then have "122 \<le> c" "c \<le> 123" unfolding abs_le_iff by linarith+
  then have "0 \<le> of_int B - c" "of_int B - c \<le> 10000000" using B by linarith+
  then have "\<bar>of_int B - c\<bar> / 2 ^ 53 \<le> 1 / 100000000" by simp
  then have u: "\<bar>u - (of_int B - c)\<bar> \<le> 1 / 100000000" unfolding u_def using fl_error [of "of_int B - c"] by linarith
  have "\<bar>u\<bar> \<le> 10000001" using u \<open>0 \<le> of_int B - c\<close> \<open>of_int B - c \<le> 10000000\<close> by linarith
  then have "\<bar>u / (1461 / 4)\<bar> / 2 ^ 53 \<le> 1 / 100000000" by (simp add: abs_mult)
  then have v: "\<bar>fl (u / (1461 / 4)) - u / (1461 / 4)\<bar> \<le> 1 / 100000000"
    using fl_error [of "u / (1461 / 4)"] by linarith
  have "of_int (20 * B - 2442) / of_int 7305 = ((of_int B - 1221 / 10) / (1461 / 4) :: rat)" by simp
  moreover have "\<bar>fl (u / (1461 / 4)) - (of_int B - 1221 / 10) / (1461 / 4)\<bar> < 1 / 7305"
  proof -
    define x where "x = u / (1461 / 4)"
    have x: "x * (1461 / 4) = u" by (simp add: x_def)
    define y where "y = (of_int B - 1221 / 10) / (1461 / 4 :: rat)"
    have y: "y * (1461 / 4) = of_int B - 1221 / 10" by (simp add: y_def)
    have "\<bar>x - y\<bar> \<le> 1 / 100000000" using x y c u by linarith
    then show ?thesis using v unfolding x_def [symmetric] y_def [symmetric] by linarith
  qed
  ultimately show "\<bar>fl (fl (of_int B - fl (1221 / 10)) / (1461 / 4)) - of_int (20 * B - 2442) / of_int 7305\<bar> < 1 / of_int 7305"
    unfolding c_def [symmetric] u_def [symmetric] by (simp only: of_int_numeral)
  have "(20 * B - 2442) mod 7305 mod 5 = (20 * B - 2442) mod 5" by (simp add: mod_mod_cancel)
  also have "\<dots> \<noteq> 0" by presburger
  finally show "(20 * B - 2442) mod 7305 \<noteq> 0" by auto
qed (use assms in simp_all)

lemma month_constant: "\<bar>fl (306001 / 10000) - 306001 / 10000\<bar> \<le> 1 / 1000000000"
  using fl_error [of "306001 / 10000"] by simp

lemma month_multiple:
  assumes "4 \<le> E" "E \<le> 15"
  shows "to_integer (fl (fl (306001 / 10000) * of_int E)) = (306001 * E) div 10000"
proof (rule near_fraction_floor)
  define f where "f = fl (306001 / 10000)"
  have E: "(4 :: rat) \<le> of_int E" "of_int E \<le> (15 :: rat)"
    using of_int_le_iff [of 4 E, where 'a = rat] of_int_le_iff [of E 15, where 'a = rat] assms by simp_all
  have f: "\<bar>f - 306001 / 10000\<bar> \<le> 1 / 1000000000" using month_constant by (simp add: f_def)
  have "f * of_int E - 306001 / 10000 * of_int E = (f - 306001 / 10000) * of_int E" by (simp add: algebra_simps)
  then have "\<bar>f * of_int E - 306001 / 10000 * of_int E\<bar> = \<bar>f - 306001 / 10000\<bar> * of_int E"
    using E by (simp add: abs_mult)
  also have "\<dots> \<le> 1 / 1000000000 * 15" using f E by (intro mult_mono) simp_all
  finally have p: "\<bar>f * of_int E - 306001 / 10000 * of_int E\<bar> \<le> 15 / 1000000000" by simp
  then have "\<bar>f * of_int E\<bar> \<le> 500" using E by linarith
  then have "\<bar>f * of_int E\<bar> / 2 ^ 53 \<le> 1 / 1000000000" by simp
  then have "\<bar>fl (f * of_int E) - f * of_int E\<bar> \<le> 1 / 1000000000" using fl_error [of "f * of_int E"] by linarith
  then have "\<bar>fl (f * of_int E) - 306001 / 10000 * of_int E\<bar> < 1 / 10000" using p by linarith
  moreover have "of_int (306001 * E) / of_int 10000 = (306001 / 10000 * of_int E :: rat)" by simp
  ultimately show "\<bar>fl (fl (306001 / 10000) * of_int E) - of_int (306001 * E) / of_int 10000\<bar> < 1 / of_int 10000"
    unfolding f_def [symmetric] by (simp only: of_int_numeral)
  have "E = 4 \<or> E = 5 \<or> E = 6 \<or> E = 7 \<or> E = 8 \<or> E = 9 \<or> E = 10 \<or> E = 11 \<or> E = 12 \<or> E = 13 \<or> E = 14 \<or> E = 15"
    using assms by presburger
  then show "306001 * E mod 10000 \<noteq> 0" by (elim disjE) simp_all
qed (use assms in simp_all)

lemma month_quotient:
  assumes "123 \<le> k" "k \<le> 490"
  shows "to_integer (fl (of_int k / fl (306001 / 10000))) = (10000 * k) div 306001"
proof (rule near_fraction_floor)
  define f where "f = fl (306001 / 10000)"
  define g where "g = (306001 / 10000 :: rat)"
  have k: "(123 :: rat) \<le> of_int k" "of_int k \<le> (490 :: rat)"
    using of_int_le_iff [of 123 k, where 'a = rat] of_int_le_iff [of k 490, where 'a = rat] assms by simp_all
  have f: "\<bar>f - g\<bar> \<le> 1 / 1000000000" using month_constant by (simp add: f_def g_def)
  then have "30 \<le> f" unfolding g_def by linarith
  have "of_int k / f - of_int k / g = of_int k * (g - f) / (f * g)"
    using \<open>30 \<le> f\<close> by (simp add: g_def field_simps)
  then have "\<bar>of_int k / f - of_int k / g\<bar> = of_int k * \<bar>f - g\<bar> / (f * g)"
    using \<open>30 \<le> f\<close> k by (simp add: abs_mult g_def abs_minus_commute)
  also have "\<dots> \<le> (490 * (1 / 1000000000)) / 900"
    using f k \<open>30 \<le> f\<close> mult_mono [of 30 f 30 g] by (intro frac_le mult_mono) (simp_all add: g_def)
  finally have p: "\<bar>of_int k / f - of_int k / g\<bar> \<le> 1 / 1000000000" by simp
  have "of_int k / f \<le> 490 / 30" using k \<open>30 \<le> f\<close> by (intro frac_le) simp_all
  moreover have "0 \<le> of_int k / f" using k \<open>30 \<le> f\<close> by simp
  ultimately have "\<bar>of_int k / f\<bar> / 2 ^ 53 \<le> 1 / 1000000000" by simp
  then have "\<bar>fl (of_int k / f) - of_int k / f\<bar> \<le> 1 / 1000000000" using fl_error [of "of_int k / f"] by linarith
  then have "\<bar>fl (of_int k / f) - of_int k / g\<bar> < 1 / 306001" using p by linarith
  moreover have "of_int (10000 * k) / of_int 306001 = (of_int k / g :: rat)" by (simp add: g_def)
  ultimately show "\<bar>fl (of_int k / fl (306001 / 10000)) - of_int (10000 * k) / of_int 306001\<bar> < 1 / of_int 306001"
    unfolding f_def [symmetric] by (simp only: of_int_numeral)
  show "10000 * k mod 306001 \<noteq> 0"
  proof
    assume "10000 * k mod 306001 = 0"
    then have "306001 dvd 10000 * k" by auto
    moreover have "coprime 306001 (10000 :: int)" by code_simp
    ultimately have "306001 dvd k" by (simp add: coprime_dvd_mult_right_iff)
    then show False using assms zdvd_imp_le [of 306001 k] by simp
  qed
qed (use assms in simp_all)

section \<open>The civil calendar\<close>

definition leap :: "int \<Rightarrow> bool" where
  "leap y \<longleftrightarrow> y mod 4 = 0 \<and> (y mod 100 \<noteq> 0 \<or> y mod 400 = 0)"

definition month_days :: "int \<Rightarrow> int \<Rightarrow> int" where
  "month_days Y M =
     (if M = 2 then (if leap Y then 29 else 28) else if M = 4 \<or> M = 6 \<or> M = 9 \<or> M = 11 then 30 else 31)"

fun valid_date :: "int \<times> int \<times> int \<Rightarrow> bool" where
  "valid_date (Y, M, D) \<longleftrightarrow> 1 \<le> M \<and> M \<le> 12 \<and> 1 \<le> D \<and> D \<le> month_days Y M"

fun next_day :: "int \<times> int \<times> int \<Rightarrow> int \<times> int \<times> int" where
  "next_day (Y, M, D) =
     (if D < month_days Y M then (Y, M, D + 1) else if M < 12 then (Y, M + 1, 1) else (Y + 1, 1, 1))"

text \<open>The days after the day on which Julian day numbers begin.\<close>

definition date_of_day :: "nat \<Rightarrow> int \<times> int \<times> int" where
  "date_of_day n = (next_day ^^ n) (- 4713, 11, 24)"

text \<open>The number of a date, with the year that begins in March.\<close>

definition jdn :: "int \<Rightarrow> int \<Rightarrow> int \<Rightarrow> int" where
  "jdn Y M D =
     (let y = (if M \<le> 2 then Y - 1 else Y);
          m = (if M \<le> 2 then M + 12 else M);
          A = (y + 4800) div 100 in
      36525 * (y + 4716) div 100 + 306001 * (m + 1) div 10000 + D + (38 - A + A div 4) - 1524)"

lemma month_cases:
  assumes "1 \<le> M" "M \<le> 12"
  shows "M = 1 \<or> M = 2 \<or> M = 3 \<or> M = 4 \<or> M = 5 \<or> M = 6 \<or> M = 7 \<or> M = 8 \<or> M = 9 \<or> M = 10 \<or> M = 11 \<or> M = (12 :: int)"
  using assms by presburger

lemma sdiv_nonneg: "0 \<le> a \<Longrightarrow> 0 < b \<Longrightarrow> a sdiv b = a div b" for a b :: int
  by (auto simp: signed_divide_int_def sgn_if)

lemma smod_nonneg: "0 \<le> a \<Longrightarrow> 0 < b \<Longrightarrow> a smod b = a mod b" for a b :: int
  by (cases "a = 0") (simp_all add: signed_modulo_int_def)

lemma to_integer_int [simp]: "to_integer (of_int z) = z"
  by (simp add: to_integer_def)

lemma day_JD_jdn:
  assumes "- 4713 \<le> Y" "Y \<le> 20000" "0 \<le> M" "M \<le> 12" "\<bar>D\<bar> \<le> 1000"
  shows "day_JD Y M D = jdn Y M D * 86400000 - 43200000"
proof -
  define n where "n = jdn Y M D"
  define y m where "y = (if M \<le> 2 then Y - 1 else Y)" and "m = (if M \<le> 2 then M + 12 else M)"
  have ym: "- 4714 \<le> y" "y \<le> 20000" "3 \<le> m" "m \<le> 14" using assms by (auto simp: y_def m_def)
  have "0 \<le> 36525 * (y + 4716) div 100" "36525 * (y + 4716) div 100 \<le> 9027519"
    "0 \<le> 306001 * (m + 1) div 10000" "306001 * (m + 1) div 10000 \<le> 459" "0 \<le> (y + 4800) div 100" "(y + 4800) div 100 \<le> 248"
    using ym zdiv_mono1 [of "36525 * (y + 4716)" "36525 * 24716" 100] zdiv_mono1 [of "306001 * (m + 1)" "306001 * 15" 10000]
      zdiv_mono1 [of "y + 4800" 24800 100] by simp_all
  moreover from this(5,6) have "0 \<le> (y + 4800) div 100 div 4" "(y + 4800) div 100 div 4 \<le> 62" by simp_all
  moreover have "n = 36525 * (y + 4716) div 100 + 306001 * (m + 1) div 10000 + D +
      (38 - (y + 4800) div 100 + (y + 4800) div 100 div 4) - 1524"
    unfolding n_def jdn_def Let_def y_def m_def by simp
  ultimately have "\<bar>n\<bar> < 10000000" using assms(5) by linarith
  have "day_JD Y M D = to_integer (fl (fl (of_int (n + 1524) - 3049 / 2) * 86400000))"
    using assms by (simp add: day_JD_def n_def jdn_def Let_def sdiv_nonneg algebra_simps)
  moreover have "of_int (n + 1524) - 3049 / 2 = (of_int (2 * n - 1) / 2 :: rat)" by simp
  moreover have "fl (of_int (2 * n - 1) / 2) = of_int (2 * n - 1) / 2"
    using \<open>\<bar>n\<bar> < _\<close> by (intro fl_halves) simp
  moreover have "of_int (2 * n - 1) / 2 * 86400000 = (of_int (n * 86400000 - 43200000) :: rat)" by simp
  moreover have "fl (of_int (n * 86400000 - 43200000)) = of_int (n * 86400000 - 43200000)"
    using \<open>\<bar>n\<bar> < _\<close> by (intro fl_of_int) simp
  ultimately show ?thesis by (simp only: n_def [symmetric] to_integer_int)
qed

lemma year_days: "36525 * w div 100 = (1461 * w) div 4" for w :: int
proof -
  have "36525 * w div 100 = (25 * (1461 * w)) div (25 * 4)" by simp
  then show ?thesis by (simp only: div_mult_mult1 zero_neq_numeral not_False_eq_True)
qed

lemma quarter_year:
  obtains u v x where "w = 4 * u + v" "(1461 * w) div 4 = 1461 * u + x"
    "v = 0 \<and> x = 0 \<or> v = 1 \<and> x = 365 \<or> v = 2 \<and> x = 730 \<or> v = 3 \<and> x = (1095 :: int)"
proof -
  define u v where "u = w div 4" and "v = w mod 4"
  have w: "w = 4 * u + v" by (simp add: u_def v_def)
  then have "1461 * w = 1461 * v + 4 * (1461 * u)" by simp
  then have x: "(1461 * w) div 4 = 1461 * u + (1461 * v) div 4" by (metis div_mult_self2 add.commute zero_neq_numeral)
  have "v = 0 \<or> v = 1 \<or> v = 2 \<or> v = 3" unfolding v_def by presburger
  then have "v = 0 \<and> (1461 * v) div 4 = 0 \<or> v = 1 \<and> (1461 * v) div 4 = 365 \<or>
      v = 2 \<and> (1461 * v) div 4 = 730 \<or> v = 3 \<and> (1461 * v) div 4 = 1095"
    by (elim disjE) simp_all
  then show thesis by (rule that [OF w x])
qed

text \<open>A day of the year that begins in March: \<open>k\<close> counts from 123.\<close>

definition year_day :: "int \<Rightarrow> int \<Rightarrow> bool" where
  "year_day y k \<longleftrightarrow> 123 \<le> k \<and> (k \<le> 487 \<or> k = 488 \<and> leap (y + 1))"

lemma year_quotient:
  assumes "year_day y k"
  shows "(20 * (36525 * (y + 4716) div 100 + k) - 2442) div 7305 = y + 4716"
proof -
  obtain u v x where w: "y + 4716 = 4 * u + v" and x: "(1461 * (y + 4716)) div 4 = 1461 * u + x"
    and v: "v = 0 \<and> x = 0 \<or> v = 1 \<and> x = 365 \<or> v = 2 \<and> x = 730 \<or> v = 3 \<and> x = 1095"
    by (rule quarter_year)
  have k: "123 \<le> k" "k \<le> 487 \<or> k = 488 \<and> v = 3"
  proof -
    show "123 \<le> k" using assms by (simp add: year_day_def)
    have "v = 3" if "(y + 1) mod 4 = 0"
    proof -
      have "y + 1 = v + 1 + 4 * (u - 1179)" using w by simp
      then have "(v + 1) mod 4 = 0" using that by (metis mod_mult_self2)
      then show ?thesis using v by auto
    qed
    then show "k \<le> 487 \<or> k = 488 \<and> v = 3" using assms by (auto simp: year_day_def leap_def)
  qed
  show ?thesis
    unfolding year_days x
    by (rule int_div_pos_eq [of _ _ _ "20 * x + 20 * k - 2442 - 7305 * v"]) (use w v k in auto)
qed

lemma century_quotient:
  assumes "year_day y k"
  defines "A \<equiv> (y + 4800) div 100"
  shows "(4 * (36525 * (y + 4716) div 100 + k + (38 - A + A div 4) - 1524) + 128179) div 146097 = A"
proof -
  define r where "r = (y + 4800) mod 100"
  define c e where "c = A div 4" and "e = A mod 4"
  have y: "y = 100 * A + r - 4800" "0 \<le> r" "r \<le> 99"
    by (simp_all add: A_def r_def minus_mod_eq_mult_div [symmetric] algebra_simps)
  have A: "A = 4 * c + e" "0 \<le> e" "e \<le> 3" by (simp_all add: c_def e_def)
  obtain u v x where w: "r = 4 * u + v" and x: "(1461 * r) div 4 = 1461 * u + x"
    and v: "v = 0 \<and> x = 0 \<or> v = 1 \<and> x = 365 \<or> v = 2 \<and> x = 730 \<or> v = 3 \<and> x = 1095"
    by (rule quarter_year)
  have "1461 * (y + 4716) = 4 * (36525 * A - 30681) + 1461 * r" using y by simp
  then have X1: "(1461 * (y + 4716)) div 4 = 36525 * A - 30681 + (1461 * u + x)"
    by (metis div_mult_self4 x zero_neq_numeral)
  have k: "123 \<le> k" "k \<le> 487 \<or> k = 488 \<and> v = 3 \<and> (u = 24 \<longrightarrow> e = 3)"
  proof -
    show "123 \<le> k" using assms(1) by (simp add: year_day_def)
    have "v = 3 \<and> (u = 24 \<longrightarrow> e = 3)" if "leap (y + 1)"
    proof -
      have "y + 1 = v + 1 + 4 * (100 * c + 25 * e + u - 1200)" using y A w by simp
      moreover have "(y + 1) mod 4 = 0" using that by (simp add: leap_def)
      ultimately have "(v + 1) mod 4 = 0" by (metis mod_mult_self2)
      then have "v = 3" using v by auto
      moreover have "e = 3" if "u = 24"
      proof -
        have y1: "y + 1 = 100 * (A - 47)" "y + 1 = 100 * e + 100 + 400 * (c - 12)"
          using y A w that \<open>v = 3\<close> by simp_all
        have "(y + 1) mod 100 = 0" unfolding y1(1) by simp
        then have "(y + 1) mod 400 = 0" using \<open>leap (y + 1)\<close> by (simp add: leap_def)
        then have "(100 * e + 100) mod 400 = 0" using y1(2) by (metis mod_mult_self2)
        moreover have "e = 0 \<or> e = 1 \<or> e = 2 \<or> e = 3" using A(2,3) by auto
        ultimately show ?thesis by auto
      qed
      ultimately show ?thesis by simp
    qed
    then show "k \<le> 487 \<or> k = 488 \<and> v = 3 \<and> (u = 24 \<longrightarrow> e = 3)"
      using assms(1) by (auto simp: year_day_def)
  qed
  have u: "0 \<le> u" "u \<le> 24" using w y(2,3) v by auto
  show ?thesis
    unfolding year_days X1 c_def [symmetric]
  proof (rule int_div_pos_eq [of _ _ _ "5844 * u + 4 * x + 4 * (k - 123) + 3 - e"])
    show "5844 * u + 4 * x + 4 * (k - 123) + 3 - e < 146097"
      using u k v A by (cases "u = 24") auto
  qed (use A u v k in auto)
qed

lemma month_quotients:
  assumes "3 \<le> m" "m \<le> 14" "1 \<le> D" "D \<le> 31"
    and "m = 4 \<or> m = 6 \<or> m = 9 \<or> m = 11 \<Longrightarrow> D \<le> 30" "m = 14 \<Longrightarrow> D \<le> (29 :: int)"
  shows "10000 * (306001 * (m + 1) div 10000 + D) div 306001 = m + 1"
    "123 \<le> 306001 * (m + 1) div 10000 + D" "306001 * (m + 1) div 10000 + D \<le> 488"
    "m \<noteq> 14 \<or> D \<le> 28 \<Longrightarrow> 306001 * (m + 1) div 10000 + D \<le> 487"
proof -
  define X where "X = 306001 * (m + 1) div 10000"
  have "m = 3 \<or> m = 4 \<or> m = 5 \<or> m = 6 \<or> m = 7 \<or> m = 8 \<or> m = 9 \<or> m = 10 \<or> m = 11 \<or> m = 12 \<or> m = 13 \<or> m = 14"
    using assms(1,2) by presburger
  then have table: "m = 3 \<and> X = 122 \<or> m = 4 \<and> X = 153 \<or> m = 5 \<and> X = 183 \<or> m = 6 \<and> X = 214 \<or> m = 7 \<and> X = 244 \<or>
      m = 8 \<and> X = 275 \<or> m = 9 \<and> X = 306 \<or> m = 10 \<and> X = 336 \<or> m = 11 \<and> X = 367 \<or> m = 12 \<and> X = 397 \<or>
      m = 13 \<and> X = 428 \<or> m = 14 \<and> X = 459"
    by (elim disjE) (simp_all add: X_def)
  have D: "m \<noteq> 4 \<and> m \<noteq> 6 \<and> m \<noteq> 9 \<and> m \<noteq> 11 \<or> D \<le> 30" "m \<noteq> 14 \<or> D \<le> 29" using assms(5,6) by blast+
  have "306001 * (m + 1) \<le> 10000 * (X + D)" "10000 * (X + D) < 306001 * (m + 1) + 306001"
    using table D assms(3,4) by auto
  then show "10000 * (306001 * (m + 1) div 10000 + D) div 306001 = m + 1"
    unfolding X_def [symmetric]
    by (intro int_div_pos_eq [of _ _ _ "10000 * (X + D) - 306001 * (m + 1)"]) simp_all
  show "123 \<le> 306001 * (m + 1) div 10000 + D" "306001 * (m + 1) div 10000 + D \<le> 488"
    "m \<noteq> 14 \<or> D \<le> 28 \<Longrightarrow> 306001 * (m + 1) div 10000 + D \<le> 487"
    unfolding X_def [symmetric] using table D assms(3,4) by auto
qed

text \<open>The two conversions are inverse to each other on the dates of the civil calendar.\<close>

lemma day_YMD_jdn:
  assumes "valid_date (Y, M, D)" "- 4713 \<le> Y" "Y \<le> 20000" "0 \<le> jdn Y M D" "0 \<le> t" "t < 86400000"
  shows "day_YMD (jdn Y M D * 86400000 - 43200000 + t) = (Y, M, D)"
proof -
  define y m where "y = (if M \<le> 2 then Y - 1 else Y)" and "m = (if M \<le> 2 then M + 12 else M)"
  define A where "A = (y + 4800) div 100"
  define X1 where "X1 = 36525 * (y + 4716) div 100"
  define X2 where "X2 = 306001 * (m + 1) div 10000"
  define Z where "Z = jdn Y M D"
  have Z: "Z = X1 + (X2 + D) + (38 - A + A div 4) - 1524"
    by (simp add: Z_def jdn_def Let_def y_def m_def A_def X1_def X2_def)
  have MD: "1 \<le> M" "M \<le> 12" "1 \<le> D" "D \<le> month_days Y M" using assms(1) by simp_all
  have m: "3 \<le> m" "m \<le> 14" "1 \<le> D" "D \<le> 31" "m = 4 \<or> m = 6 \<or> m = 9 \<or> m = 11 \<Longrightarrow> D \<le> 30" "m = 14 \<Longrightarrow> D \<le> 29"
    "m = 14 \<and> D = 29 \<longrightarrow> leap (y + 1)"
    using MD by (auto simp: m_def y_def month_days_def split: if_splits)
  note mq = month_quotients [OF m(1-6), folded X2_def]
  have k: "year_day y (X2 + D)"
  proof (cases "m \<noteq> 14 \<or> D \<le> 28")
    case True
    then show ?thesis using mq(2,4) by (simp add: year_day_def)
  next
    case False
    then show ?thesis using mq(2,3) m(6,7) by (auto simp: year_day_def)
  qed
  have cent: "(4 * Z + 128179) div 146097 = A"
    using century_quotient [OF k] by (simp only: Z X1_def A_def)
  have year: "(20 * (X1 + (X2 + D)) - 2442) div 7305 = y + 4716"
    using year_quotient [OF k] by (simp only: X1_def)
  have y: "- 4714 \<le> y" "y \<le> 20000" using assms(2,3) by (auto simp: y_def)
  then have X1: "0 \<le> X1" "X1 < 9100000" by (simp_all add: X1_def)
  have A: "0 \<le> A" "A \<le> 248" using y by (simp_all add: A_def)
  have "0 \<le> Z" "Z < 2 ^ 40" using assms(4) X1 A mq(3) by (simp_all add: Z_def [symmetric]) (simp add: Z)
  have "(Z * 86400000 - 43200000 + t + 43200000) sdiv 86400000 = (Z * 86400000 + t) div 86400000"
    using \<open>0 \<le> Z\<close> assms(5) by (subst sdiv_nonneg) simp_all
  also have "\<dots> = Z" using assms(5,6) by (intro int_div_pos_eq [of _ _ _ t]) simp_all
  finally have day: "(Z * 86400000 - 43200000 + t + 43200000) sdiv 86400000 = Z" .
  have "(A - 52 + 100) sdiv 4 = A div 4 + 12" using A by (simp add: sdiv_nonneg)
  then have B: "Z + 1 + (A - 52) - (A - 52 + 100) sdiv 4 + 25 + 1524 = X1 + (X2 + D)" using Z by simp
  have century: "to_integer (fl (fl (of_int (X1 + (X2 + D)) - fl (1221 / 10)) / (1461 / 4))) = y + 4716"
    using day_century [of "X1 + (X2 + D)"] X1 mq(2,3) year by simp
  have "(y + 4716) AND 32767 = y + 4716"
    using y take_bit_int_eq_self [of "y + 4716" 15] by (simp add: take_bit_eq_mask mask_eq_exp_minus_1)
  then have days: "(36525 * ((y + 4716) AND 32767)) sdiv 100 = X1"
    using y by (simp add: X1_def sdiv_nonneg)
  have month: "to_integer (fl (of_int (X2 + D) / fl (306001 / 10000))) = m + 1"
    using month_quotient [of "X2 + D"] mq by simp
  have months: "to_integer (fl (fl (306001 / 10000) * of_int (m + 1))) = X2"
    using month_multiple [of "m + 1"] m(1,2) by (simp add: X2_def)
  have "day_YMD (Z * 86400000 - 43200000 + t) =
    (let M = (if m + 1 < 14 then m + 1 - 1 else m + 1 - 13) in
     (if M > 2 then y + 4716 - 4716 else y + 4716 - 4715, M, X2 + D - X2))"
    unfolding day_YMD_def day day_alpha [OF \<open>0 \<le> Z\<close> \<open>Z < 2 ^ 40\<close>] cent Let_def B century days
    by (simp only: add_diff_cancel_left' month months)
  also have "\<dots> = (Y, M, D)" using MD(1,2) by (auto simp: Let_def y_def m_def)
  finally show ?thesis by (simp add: Z_def)
qed

lemma div_step: "0 < d \<Longrightarrow> (n + 1) div d = n div d + (if (n + 1) mod d = 0 then 1 else 0)" for n d :: int
proof -
  assume d: "0 < d"
  have n: "n = n div d * d + n mod d" "0 \<le> n mod d" "n mod d < d" using d by simp_all
  show ?thesis
  proof (cases "n mod d + 1 = d")
    case True
    then have "n + 1 = n div d * d + d" using n(1) by linarith
    then have "n + 1 = (n div d + 1) * d" by (simp add: distrib_right)
    then show ?thesis using d by simp
  next
    case False
    have "(n + 1) div d = n div d"
      by (rule int_div_pos_eq [of _ _ _ "n mod d + 1"]) (use n False in \<open>simp_all add: algebra_simps\<close>)
    moreover from this have "(n + 1) mod d = n mod d + 1" using n(1) by (simp add: minus_div_mult_eq_mod [symmetric])
    ultimately show ?thesis using n(2) by simp
  qed
qed

lemma leap_step: "(1461 * (w + 1)) div 4 = (1461 * w) div 4 + 365 + (if (w + 1) mod 4 = 0 then 1 else 0)" for w :: int
proof -
  have "1461 * v = 4 * (365 * v) + v" for v :: int by simp
  then have L: "(1461 * v) div 4 = 365 * v + v div 4" for v :: int by (metis div_mult_self4 zero_neq_numeral)
  show ?thesis unfolding L using div_step [of 4 w] by simp
qed

lemma march_step:
  "jdn (Y + 1) 3 1 = jdn (Y + 1) 2 (if leap (Y + 1) then 29 else 28) + 1"
proof -
  let ?A = "(Y + 4800) div 100"
  have m: "(Y + 1 + 4800) mod 100 = (Y + 1) mod 100"
    using mod_mult_self1 [of "Y + 1" 48 100] by simp
  have A: "(Y + 1 + 4800) div 100 = ?A + (if (Y + 1) mod 100 = 0 then 1 else 0)"
    using div_step [of 100 "Y + 4800"] m by (simp add: algebra_simps)
  have A4: "(?A + 1) mod 4 = 0 \<longleftrightarrow> (Y + 1) mod 400 = 0" if "(Y + 1) mod 100 = 0"
  proof -
    have "Y + 1 + 4800 = 100 * (?A + 1)"
      using A m that mult_div_mod_eq [of 100 "Y + 1 + 4800"] by simp
    then have eq: "Y + 1 = 100 * (?A + 1) + 400 * (- 12)" by simp
    have "(Y + 1) mod 400 = (100 * (?A + 1)) mod 400" by (subst eq) (rule mod_mult_self2)
    also have "\<dots> = (100 * (?A + 1)) mod (100 * 4)" by simp
    also have "\<dots> = 100 * ((?A + 1) mod 4)" by (rule mult_mod_right [symmetric])
    finally show ?thesis by simp
  qed
  have w: "(Y + 4716 + 1) mod 4 = (Y + 1) mod 4"
  proof -
    have "Y + 4716 + 1 = Y + 1 + 4 * 1179" by simp
    then show ?thesis by (metis mod_mult_self2)
  qed
  have X: "(1461 * (Y + 1 + 4716)) div 4 = (1461 * (Y + 4716)) div 4 + 365 + (if (Y + 1) mod 4 = 0 then 1 else 0)"
    using leap_step [of "Y + 4716"] w by (simp add: algebra_simps)
  define B where "B = ?A"
  define P where "P = (1461 * (Y + 4716)) div 4"
  have J1: "jdn (Y + 1) 3 1 = (1461 * (Y + 1 + 4716)) div 4 + 123 +
      (38 - (Y + 1 + 4800) div 100 + (Y + 1 + 4800) div 100 div 4) - 1524"
    unfolding jdn_def Let_def year_days by simp
  have J2: "jdn (Y + 1) 2 L = P + 459 + L + (38 - B + B div 4) - 1524" for L
    unfolding jdn_def Let_def year_days P_def B_def by simp
  have h: "(Y + 1) mod 4 = 0" if "(Y + 1) mod 100 = 0"
  proof -
    have "(Y + 1) mod 100 mod 4 = (Y + 1) mod 4" by (rule mod_mod_cancel) simp
    then show ?thesis using that by simp
  qed
  have "(B + 1) div 4 = B div 4 + (if (B + 1) mod 4 = 0 then 1 else 0)" by (simp add: div_step)
  moreover have "(B + 1) mod 4 = 0 \<longleftrightarrow> (Y + 1) mod 400 = 0" if "(Y + 1) mod 100 = 0" using A4 [OF that] by (simp add: B_def)
  ultimately have "(if (Y + 1) mod 4 = 0 then 1 else 0) - (if (Y + 1) mod 100 = 0 then 1 else 0) +
      (B + (if (Y + 1) mod 100 = 0 then 1 else 0)) div 4 = (if leap (Y + 1) then 1 else 0) + B div 4"
    using h by (cases "(Y + 1) mod 100 = 0") (simp_all add: leap_def)
  then show ?thesis
    unfolding J1 J2 X A P_def [symmetric] B_def [symmetric] by (cases "leap (Y + 1)") simp_all
qed

lemma month_step:
  assumes "3 \<le> m" "m \<le> 13"
  shows "306001 * (m + 2) div 10000 = 306001 * (m + 1) div 10000 +
    (if m = 4 \<or> m = 6 \<or> m = 9 \<or> m = 11 then 30 else (31 :: int))"
proof -
  have "m = 3 \<or> m = 4 \<or> m = 5 \<or> m = 6 \<or> m = 7 \<or> m = 8 \<or> m = 9 \<or> m = 10 \<or> m = 11 \<or> m = 12 \<or> m = 13"
    using assms by presburger
  then show ?thesis by (elim disjE) simp_all
qed

lemma jdn_next:
  assumes "valid_date (Y, M, D)" "next_day (Y, M, D) = (Y', M', D')"
  shows "jdn Y' M' D' = jdn Y M D + 1"
proof -
  have M: "1 \<le> M" "M \<le> 12" "D \<le> month_days Y M" using assms(1) by simp_all
  consider (same) "D < month_days Y M" | (feb) "D = month_days Y M" "M = 2"
    | (year) "D = month_days Y M" "M = 12" | (month) "D = month_days Y M" "M \<noteq> 2" "M \<noteq> 12"
    using M(3) by linarith
  then show ?thesis
  proof cases
    case same
    then show ?thesis using assms(2) by (auto simp: jdn_def Let_def)
  next
    case feb
    then show ?thesis using assms(2) march_step [of "Y - 1"] by (simp add: month_days_def)
  next
    case year
    then show ?thesis using assms(2) by (auto simp: jdn_def Let_def month_days_def algebra_simps)
  next
    case month
    then have "Y' = Y" "M' = M + 1" "D' = 1" using assms(2) M by auto
    then show ?thesis
      using month M month_step [of "if M \<le> 2 then M + 12 else M"]
      by (cases "M = 1") (simp_all add: jdn_def Let_def month_days_def add.commute)
  qed
qed

lemma next_day_valid:
  assumes "valid_date d"
  shows "valid_date (next_day d) \<and> fst d \<le> fst (next_day d)"
proof (cases d)
  case (fields Y M D)
  have "1 \<le> month_days y m" for y m by (simp add: month_days_def)
  then show ?thesis using assms by (auto simp: fields)
qed

text \<open>The day \<open>n\<close> has the number \<open>n\<close>.\<close>

lemma date_of_day_jdn:
  "valid_date (date_of_day n) \<and> - 4713 \<le> fst (date_of_day n) \<and>
   (case date_of_day n of (Y, M, D) \<Rightarrow> jdn Y M D) = int n"
proof (induction n)
  case 0
  show ?case by (simp add: date_of_day_def month_days_def jdn_def)
next
  case (Suc n)
  obtain Y M D where d: "date_of_day n = (Y, M, D)" by (metis prod_cases3)
  have s: "date_of_day (Suc n) = next_day (Y, M, D)" by (simp add: date_of_day_def d [unfolded date_of_day_def])
  obtain Y' M' D' where d': "next_day (Y, M, D) = (Y', M', D')" by (metis prod_cases3)
  show ?case
    using Suc next_day_valid [of "(Y, M, D)"] jdn_next [OF _ d'] d unfolding s d' by auto
qed

text \<open>The last day has the number 5373484.\<close>

lemma jdn_bound:
  assumes "valid_date (Y, M, D)" "10000 \<le> Y"
  shows "5373485 \<le> jdn Y M D"
proof -
  define y m where "y = (if M \<le> 2 then Y - 1 else Y)" and "m = (if M \<le> 2 then M + 12 else M)"
  define A where "A = (y + 4800) div 100"
  have MD: "1 \<le> M" "M \<le> 12" "1 \<le> D" using assms(1) by simp_all
  have "y = 9999 \<and> 13 \<le> m \<or> 10000 \<le> y \<and> 3 \<le> m" using MD assms(2) by (auto simp: y_def m_def)
  then show ?thesis
  proof (elim disjE conjE)
    assume "y = 9999" "13 \<le> m"
    then have "428 \<le> 306001 * (m + 1) div 10000" using zdiv_mono1 [of "306001 * 14" "306001 * (m + 1)" 10000] by simp
    then show ?thesis
      using \<open>y = 9999\<close> MD(3) by (simp add: jdn_def Let_def y_def [symmetric] m_def [symmetric])
  next
    assume y: "10000 \<le> y" and m: "3 \<le> m"
    have "122 \<le> 306001 * (m + 1) div 10000"
      using m zdiv_mono1 [of "306001 * 4" "306001 * (m + 1)" 10000] by simp
    moreover have "(1461 * (y + 4716)) div 4 - A + A div 4 \<ge> 5375004 - 148 + 37"
    proof -
      define P Q where "P = (1461 * (y + 4716)) div 4" and "Q = A div 4"
      have d: "x - 3 \<le> 4 * (x div 4)" for x :: int
        using mult_div_mod_eq [of 4 x] pos_mod_bound [of 4 x] by linarith
      have "1461 * (y + 4716) - 3 \<le> 4 * P" "A - 3 \<le> 4 * Q" unfolding P_def Q_def by (rule d)+
      moreover have "100 * A \<le> y + 4800" by (simp add: A_def)
      ultimately have "1461 * y + 6890070 - 3 * A \<le> 4 * (P - A + Q)" "3 * y + 14400 - 300 * A \<ge> 0"
        by (simp_all add: algebra_simps)
      then show ?thesis using y unfolding P_def [symmetric] Q_def [symmetric] by simp
    qed
    ultimately show ?thesis
      using MD(3) by (simp add: jdn_def Let_def y_def [symmetric] m_def [symmetric] A_def [symmetric] year_days)
  qed
qed

lemma date_of_day_range:
  assumes "n \<le> 5373484" "date_of_day n = (Y, M, D)"
  shows "valid_date (Y, M, D)" "- 4713 \<le> Y" "Y \<le> 9999" "jdn Y M D = int n"
proof -
  show *: "valid_date (Y, M, D)" "- 4713 \<le> Y" "jdn Y M D = int n"
    using date_of_day_jdn [of n] assms(2) by auto
  show "Y \<le> 9999"
  proof (rule ccontr)
    assume "\<not> Y \<le> 9999"
    then have "5373485 \<le> jdn Y M D" by (intro jdn_bound [OF *(1)]) simp
    then show False using *(3) assms(1) by simp
  qed
qed

lemma valid_max: "INT_464269060799999 = 464269060799999"
  by (simp add: INT_464269060799999_def push_bit_eq_mult)

text \<open>A time in milliseconds: its day and the milliseconds since the preceding midnight.\<close>

lemma valid_day:
  assumes "validJulianDay jd"
  obtains n t where "jd = int n * 86400000 - 43200000 + t" "0 \<le> t" "t < 86400000" "n \<le> 5373484"
proof (rule that [of "nat ((jd + 43200000) div 86400000)" "(jd + 43200000) mod 86400000"])
  have "0 \<le> jd" "jd \<le> 464269060799999" using assms by (simp_all add: validJulianDay_def valid_max)
  moreover from this have "0 \<le> (jd + 43200000) div 86400000" by simp
  ultimately show "jd = int (nat ((jd + 43200000) div 86400000)) * 86400000 - 43200000 + (jd + 43200000) mod 86400000"
    "nat ((jd + 43200000) div 86400000) \<le> 5373484"
    by (simp_all add: minus_mod_eq_div_mult [symmetric])
qed simp_all

text \<open>\<open>computeYMD\<close> finds the date by counting days in the civil calendar, and \<open>computeJD\<close> the number of
  the day from the date.\<close>

lemma day_in_range:
  "validJulianDay (int n * 86400000 - 43200000 + t) \<Longrightarrow> 0 \<le> t \<Longrightarrow> n \<le> 5373484"
  by (simp add: validJulianDay_def valid_max)

lemma computeYMD_date:
  assumes "validJulianDay (int n * 86400000 - 43200000 + t)" "0 \<le> t" "t < 86400000"
    and "date_of_day n = (Y, M, D)"
  shows "computeYMD (p\<lparr>iJD := int n * 86400000 - 43200000 + t, validJD := True, validYMD := False\<rparr>) =
      p\<lparr>iJD := int n * 86400000 - 43200000 + t, validJD := True, validYMD := True, t_Y := Y, t_M := M, t_D := D\<rparr>"
proof -
  note d = date_of_day_range [OF day_in_range [OF assms(1,2)] assms(4)]
  have "day_YMD (int n * 86400000 - 43200000 + t) = (Y, M, D)"
    using day_YMD_jdn [OF d(1,2) _ _ assms(2,3)] d(3,4) by simp
  then show ?thesis using assms(1) by (simp add: computeYMD_def)
qed

lemma day_JD_date:
  assumes "n \<le> 5373484" "date_of_day n = (Y, M, D)"
  shows "day_JD Y M D = int n * 86400000 - 43200000"
proof -
  note d = date_of_day_range [OF assms]
  have "1 \<le> M" "M \<le> 12" "1 \<le> D" "D \<le> 31"
    using d(1) by (auto simp: month_days_def split: if_splits)
  then show ?thesis using day_JD_jdn [of Y M D] d(2,3,4) by simp
qed

text \<open>
  C39. computeYMD finds from every valid Julian day number the date that counting days one at
  a time in the civil calendar from -4713-11-24 reaches, and computeJD finds from that date
  the number of the day, over the whole range to 9999-12-31 and with the roundings of the
  double arithmetic in both.
\<close>

theorem calendar_conversions:
  assumes "validJulianDay (int n * 86400000 - 43200000 + t)" "0 \<le> t" "t < 86400000"
    and "date_of_day n = (Y, M, D)"
  shows "computeYMD (p\<lparr>iJD := int n * 86400000 - 43200000 + t, validJD := True, validYMD := False\<rparr>) =
      p\<lparr>iJD := int n * 86400000 - 43200000 + t, validJD := True, validYMD := True, t_Y := Y, t_M := M, t_D := D\<rparr> \<and>
    computeJD (dt_zero\<lparr>validYMD := True, t_Y := Y, t_M := M, t_D := D\<rparr>) =
      dt_zero\<lparr>validYMD := True, t_Y := Y, t_M := M, t_D := D, iJD := int n * 86400000 - 43200000, validJD := True\<rparr>"
  using computeYMD_date [OF assms] day_in_range [OF assms(1,2)] date_of_day_range [OF _ assms(4)] day_JD_date [OF _ assms(4)]
  by (simp add: computeJD_def dt_zero_def)

theorem calendar_conversions_witness:
  "computeYMD (dt_zero\<lparr>iJD := 5317200001, validJD := True, validYMD := False\<rparr>) =
     dt_zero\<lparr>iJD := 5317200001, validJD := True, validYMD := True, t_Y := - 4712, t_M := 1, t_D := 25\<rparr>"
proof -
  have "date_of_day 62 = (- 4712, 1, 25)" by code_simp
  then show ?thesis
    using calendar_conversions [of 62 3600001 "- 4712" 1 25 dt_zero] by (simp add: validJulianDay_def valid_max)
qed

section \<open>Time of the day\<close>

text \<open>Seconds and milliseconds survive the conversion to a double and back.\<close>

lemma milliseconds_near:
  assumes "0 \<le> ms" "ms < 60000" and a: "\<bar>a * 1000 - of_int ms\<bar> \<le> 1 / 10000"
  shows "to_integer (fl (fl (a * 1000) + 1 / 2)) = ms"
proof -
  have m: "(0 :: rat) \<le> of_int ms" "of_int ms < (60000 :: rat)"
    using assms of_int_less_iff [of ms 60000, where 'a = rat] by simp_all
  define b c where "b = fl (a * 1000)" and "c = fl (b + 1 / 2)"
  have "\<bar>a * 1000\<bar> \<le> 70000" using m a unfolding abs_le_iff by simp
  then have "\<bar>a * 1000\<bar> / 2 ^ 53 \<le> 1 / 10000" by simp
  then have "\<bar>b - a * 1000\<bar> \<le> 1 / 10000" using fl_error [of "a * 1000"] by (simp add: b_def)
  then have b: "\<bar>b - of_int ms\<bar> \<le> 2 / 10000" using a by linarith
  then have "\<bar>b + 1 / 2\<bar> \<le> 70000" using m by linarith
  then have "\<bar>b + 1 / 2\<bar> / 2 ^ 53 \<le> 1 / 10000" by simp
  then have "\<bar>c - (b + 1 / 2)\<bar> \<le> 1 / 10000" using fl_error [of "b + 1 / 2"] by (simp add: c_def)
  then have "\<bar>c - (of_int ms + 1 / 2)\<bar> \<le> 1 / 4" using b by linarith
  then have "to_integer c = ms" by (rule near_floor) (use assms in simp_all)
  then show ?thesis by (simp add: b_def c_def)
qed

lemma thousandth_near:
  assumes "0 \<le> ms" "ms < 60000"
  shows "\<bar>fl (of_int ms / 1000) - of_int ms / 1000\<bar> \<le> 1 / 100000000"
proof -
  have m: "(0 :: rat) \<le> of_int ms" "of_int ms < (60000 :: rat)"
    using assms of_int_less_iff [of ms 60000, where 'a = rat] by simp_all
  then have "\<bar>of_int ms / 1000 :: rat\<bar> / 2 ^ 53 \<le> 1 / 100000000" by simp
  then show ?thesis using fl_error [of "of_int ms / 1000"] by linarith
qed

lemma millisecond_round_trip:
  assumes "0 \<le> ms" "ms < 60000"
  shows "to_integer (fl (fl (fl (of_int ms / 1000) * 1000) + 1 / 2)) = ms"
proof (rule milliseconds_near [OF assms])
  show "\<bar>fl (of_int ms / 1000) * 1000 - of_int ms\<bar> \<le> 1 / 10000"
    using thousandth_near [OF assms] unfolding abs_le_iff by simp
qed

lemma whole_seconds:
  assumes "0 \<le> s" "s < 100"
  shows "fl (of_int s) = of_int s" "to_integer (fl (fl (of_int s * 1000) + 1 / 2)) = s * 1000"
proof -
  show "fl (of_int s) = of_int s" by (rule fl_of_int) (use assms in simp)
  have "fl (of_int (s * 1000)) = of_int (s * 1000)" by (rule fl_of_int) (use assms in simp)
  moreover have "fl (of_int (2 * (s * 1000) + 1) / 2) = of_int (2 * (s * 1000) + 1) / 2"
    by (rule fl_halves) (use assms in simp)
  moreover have "of_int (2 * (s * 1000) + 1) / 2 = (of_int (s * 1000) + 1 / 2 :: rat)" by simp
  moreover have "to_integer (of_int (s * 1000) + 1 / 2) = s * 1000"
    by (rule near_floor [of _ "of_int (s * 1000) + 1 / 2" "1 / 4"]) (use assms in simp_all)
  ultimately show "to_integer (fl (fl (of_int s * 1000) + 1 / 2)) = s * 1000"
    by (simp only: of_int_mult of_int_numeral)
qed

text \<open>The fields of a time stamp: its day, and the hours, minutes and milliseconds since midnight.\<close>

lemma fields_of_JD:
  assumes "validJulianDay (int n * 86400000 - 43200000 + t)" "0 \<le> t" "t < 86400000"
    and "date_of_day n = (Y, M, D)"
  shows "computeYMD_HMS (p\<lparr>iJD := int n * 86400000 - 43200000 + t, validJD := True, validYMD := False, validHMS := False\<rparr>) =
    p\<lparr>iJD := int n * 86400000 - 43200000 + t, validJD := True, validYMD := True, t_Y := Y, t_M := M, t_D := D,
      validHMS := True, t_h := t div 3600000, t_m := t div 60000 mod 60, t_s := fl (of_int (t mod 60000) / 1000),
      rawS := False\<rparr>"
proof -
  let ?jd = "int n * 86400000 - 43200000 + t"
  have "(?jd + 43200000) smod 86400000 = (t + int n * 86400000) mod 86400000"
    using assms(2) by (subst smod_nonneg) simp_all
  also have "\<dots> = t" using assms(2,3) by simp
  finally have ms: "(?jd + 43200000) smod 86400000 = t" .
  have "t div 60000 div 60 = t div 3600000" by (simp add: zdiv_zmult2_eq [symmetric])
  then have hm: "t sdiv 60000 smod 60 = t div 60000 mod 60" "t sdiv 60000 sdiv 60 = t div 3600000" "t smod 60000 = t mod 60000"
    using assms(2) by (simp_all add: sdiv_nonneg smod_nonneg)
  have "computeYMD (p\<lparr>iJD := ?jd, validJD := True, validYMD := False, validHMS := False\<rparr>) =
      p\<lparr>iJD := ?jd, validJD := True, validYMD := True, validHMS := False, t_Y := Y, t_M := M, t_D := D\<rparr>"
    using computeYMD_date [OF assms, of "p\<lparr>validHMS := False\<rparr>"] by (cases p) simp
  moreover have "computeHMS q = q\<lparr>t_s := fl (of_int (t mod 60000) / 1000), t_m := t div 60000 mod 60,
      t_h := t div 3600000, rawS := False, validHMS := True\<rparr>" if "\<not> validHMS q" "validJD q" "iJD q = ?jd" for q
    using that ms hm by (simp add: computeHMS_def computeJD_def Let_def)
  ultimately show ?thesis by (simp add: computeYMD_HMS_def)
qed

lemma time_sum: "t div 3600000 * 3600000 + t div 60000 mod 60 * 60000 + t mod 60000 = t" for t :: int
proof -
  have "t div 60000 div 60 = t div 3600000" by (simp add: zdiv_zmult2_eq [symmetric])
  then have "t div 60000 = t div 3600000 * 60 + t div 60000 mod 60" by (metis div_mult_mod_eq)
  then show ?thesis using div_mult_mod_eq [of t 60000] by linarith
qed

lemma computeJD_fields:
  "\<not> validJD p \<Longrightarrow> validYMD p \<Longrightarrow> validHMS p \<Longrightarrow> \<not> rawS p \<Longrightarrow> tz p = 0 \<Longrightarrow> - 4713 \<le> t_Y p \<Longrightarrow> t_Y p \<le> 9999 \<Longrightarrow>
     computeJD p = p\<lparr>iJD := day_JD (t_Y p) (t_M p) (t_D p) +
       (t_h p * 3600000 + t_m p * 60000 + to_integer (fl (fl (t_s p * 1000) + 1 / 2))), validJD := True\<rparr>"
  by (simp add: computeJD_def)

text \<open>Splitting a time stamp into year, month, day, hour, minute and second and putting it together
  again gives the time stamp back, to the millisecond, over the whole range of dates.\<close>

theorem time_stamp_round_trip:
  assumes "validJulianDay jd"
  shows "iJD (computeJD ((computeYMD_HMS (p\<lparr>iJD := jd, validJD := True, validYMD := False, validHMS := False, tz := 0\<rparr>))
    \<lparr>validJD := False\<rparr>)) = jd"
proof -
  obtain n t where jd: "jd = int n * 86400000 - 43200000 + t" "0 \<le> t" "t < 86400000" "n \<le> 5373484"
    by (rule valid_day [OF assms])
  obtain Y M D where d: "date_of_day n = (Y, M, D)" by (metis prod_cases3)
  note r = date_of_day_range [OF jd(4) d]
  have "1 \<le> M" "M \<le> 12" "1 \<le> D" "D \<le> 31"
    using r(1) by (auto simp: month_days_def split: if_splits)
  then have JD: "day_JD Y M D = int n * 86400000 - 43200000" using day_JD_jdn [of Y M D] r by simp
  have ms: "to_integer (fl (fl (fl (of_int (t mod 60000) / 1000) * 1000) + 1 / 2)) = t mod 60000"
    by (rule millisecond_round_trip) simp_all
  have v: "validJulianDay (int n * 86400000 - 43200000 + t)" using assms jd(1) by simp
  have e: "p\<lparr>iJD := jd, validJD := True, validYMD := False, validHMS := False, tz := 0\<rparr> =
      (p\<lparr>tz := 0\<rparr>)\<lparr>iJD := int n * 86400000 - 43200000 + t, validJD := True, validYMD := False, validHMS := False\<rparr>"
    by (cases p) (simp add: jd(1))
  show ?thesis
    unfolding e fields_of_JD [OF v jd(2,3) d]
    using r(2,3) time_sum [of t] jd(1) by (simp add: computeJD_fields JD ms)
qed

end
