(* ===== verification/Sqlite_Datetime.thy ===== *)
theory Sqlite_Datetime
  imports Sqlite_Date
begin

text \<open>
  The modifiers of the bundled SQLite's date and time functions (\<open>parseModifier\<close>, \<open>toLocaltime\<close>,
  \<open>autoAdjustDate\<close> of \<open>date.c\<close>), the treatment of their arguments (\<open>isDate\<close>), and the functions
  \<open>julianday()\<close>, \<open>unixepoch()\<close>, \<open>date()\<close>, \<open>time()\<close> and \<open>datetime()\<close> with the days of the year and of the
  week. \<open>strftime()\<close> and \<open>timediff()\<close> format with \<open>printf\<close> and are left out.
\<close>

section \<open>Local time\<close>

text \<open>A result is \<open>True\<close> for an error, with the structure as it has been left.\<close>

definition toLocaltime :: "date_env \<Rightarrow> DateTime \<Rightarrow> bool \<times> DateTime" where
  "toLocaltime env p =
     (let p = computeJD p;
          (iYearDiff, t) =
            (if iJD p < 2108667600 * 100000 \<or> iJD p > 2130141456 * 100000 then
               let x = computeYMD_HMS p;
                   iYearDiff = (2000 + t_Y x smod 4) - t_Y x;
                   x = computeJD (x\<lparr>t_Y := t_Y x + iYearDiff, validJD := False\<rparr>) in
               (iYearDiff, iJD x sdiv 1000 - 21086676 * 10000)
             else (0, iJD p sdiv 1000 - 21086676 * 10000)) in
      case env_localtime env t of
        None \<Rightarrow> (True, p)
      | Some sLocal \<Rightarrow>
          (False, p\<lparr>t_Y := tm_year sLocal + 1900 - iYearDiff, t_M := tm_mon sLocal + 1, t_D := tm_mday sLocal,
             t_h := tm_hour sLocal, t_m := tm_min sLocal,
             t_s := fl (of_int (tm_sec sLocal) + fl (of_int (iJD p smod 1000) * fl (1 / 1000))),
             validYMD := True, validHMS := True, validJD := False, rawS := False, tz := 0, isError := False\<rparr>))"

text \<open>The table \<open>aXformType\<close>: name, largest value and seconds of a unit, the values as the \<open>float\<close>
  constants they are.\<close>

definition aXformType :: "(byte list \<times> rat \<times> rat) list" where
  "aXformType =
     [([0x73, 0x65, 0x63, 0x6F, 0x6E, 0x64], 464269992787968, 1),
      ([0x6D, 0x69, 0x6E, 0x75, 0x74, 0x65], 7737900007424, 60),
      ([0x68, 0x6F, 0x75, 0x72], 128969998336, 3600),
      ([0x64, 0x61, 0x79], 5373485, 86400),
      ([0x6D, 0x6F, 0x6E, 0x74, 0x68], 176546, 2592000),
      ([0x79, 0x65, 0x61, 0x72], 14713, 31536000)]"

definition autoAdjustDate :: "DateTime \<Rightarrow> DateTime" where
  "autoAdjustDate p =
     (if \<not> rawS p \<or> validJD p then p\<lparr>rawS := False\<rparr>
      else if t_s p \<ge> - 210866760000 \<and> t_s p \<le> 253402300799 then
        let r = fl (fl (t_s p * 1000) + 210866760000000) in
        (clearYMD_HMS_TZ p)\<lparr>iJD := to_integer (fl (r + 1 / 2)), validJD := True, rawS := False\<rparr>
      else p)"

section \<open>Modifiers\<close>

text \<open>Their names.\<close>

definition str_auto :: "byte list" where "str_auto = [0x61, 0x75, 0x74, 0x6F]"
definition str_ceiling :: "byte list" where "str_ceiling = [0x63, 0x65, 0x69, 0x6C, 0x69, 0x6E, 0x67]"
definition str_floor :: "byte list" where "str_floor = [0x66, 0x6C, 0x6F, 0x6F, 0x72]"
definition str_julianday :: "byte list" where
  "str_julianday = [0x6A, 0x75, 0x6C, 0x69, 0x61, 0x6E, 0x64, 0x61, 0x79]"
definition str_localtime :: "byte list" where
  "str_localtime = [0x6C, 0x6F, 0x63, 0x61, 0x6C, 0x74, 0x69, 0x6D, 0x65]"
definition str_unixepoch :: "byte list" where
  "str_unixepoch = [0x75, 0x6E, 0x69, 0x78, 0x65, 0x70, 0x6F, 0x63, 0x68]"
definition str_utc :: "byte list" where "str_utc = [0x75, 0x74, 0x63]"
definition str_weekday :: "byte list" where "str_weekday = [0x77, 0x65, 0x65, 0x6B, 0x64, 0x61, 0x79, 0x20]"
definition str_start_of :: "byte list" where
  "str_start_of = [0x73, 0x74, 0x61, 0x72, 0x74, 0x20, 0x6F, 0x66, 0x20]"
definition str_month :: "byte list" where "str_month = [0x6D, 0x6F, 0x6E, 0x74, 0x68]"
definition str_year :: "byte list" where "str_year = [0x79, 0x65, 0x61, 0x72]"
definition str_day :: "byte list" where "str_day = [0x64, 0x61, 0x79]"

definition same_word :: "byte list \<Rightarrow> byte list \<Rightarrow> bool" where
  "same_word z w \<longleftrightarrow> sqlite3_stricmp (Some z) (Some w) = 0"

text \<open>One definition for each case of the switch in \<open>parseModifier\<close>.\<close>

definition mod_auto :: "DateTime \<Rightarrow> int \<Rightarrow> byte list \<Rightarrow> bool \<times> DateTime" where
  "mod_auto p idx z =
     (if same_word z str_auto then if idx > 1 then (True, p) else (False, autoAdjustDate p) else (True, p))"

definition mod_ceiling :: "DateTime \<Rightarrow> byte list \<Rightarrow> bool \<times> DateTime" where
  "mod_ceiling p z =
     (if same_word z str_ceiling then (False, (clearYMD_HMS_TZ (computeJD p))\<lparr>nFloor := 0\<rparr>) else (True, p))"

definition mod_floor :: "DateTime \<Rightarrow> byte list \<Rightarrow> bool \<times> DateTime" where
  "mod_floor p z =
     (if same_word z str_floor then
        let p = computeJD p in
        (False, clearYMD_HMS_TZ (p\<lparr>iJD := iJD p - nFloor p * 86400000\<rparr>))
      else (True, p))"

definition mod_julianday :: "DateTime \<Rightarrow> int \<Rightarrow> byte list \<Rightarrow> bool \<times> DateTime" where
  "mod_julianday p idx z =
     (if same_word z str_julianday \<and> \<not> idx > 1 \<and> validJD p \<and> rawS p then (False, p\<lparr>rawS := False\<rparr>) else (True, p))"

definition mod_localtime :: "date_env \<Rightarrow> DateTime \<Rightarrow> byte list \<Rightarrow> bool \<times> DateTime" where
  "mod_localtime env p z =
     (if same_word z str_localtime \<and> env_not_pure env then
        let (failed, p) = (if isLocal p then (False, p) else toLocaltime env p) in
        (failed, p\<lparr>isUtc := False, isLocal := True\<rparr>)
      else (True, p))"

text \<open>The loop that guesses a UTC time; \<open>cnt\<close> counts down the repetitions left.\<close>

fun utc_loop :: "date_env \<Rightarrow> int \<Rightarrow> nat \<Rightarrow> int \<Rightarrow> int \<Rightarrow> int option" where
  "utc_loop env iOrigJD cnt iGuess iErr =
     (let iGuess = iGuess - iErr;
          (failed, new) = toLocaltime env (dt_zero\<lparr>iJD := iGuess, validJD := True\<rparr>) in
      if failed then None
      else
        let iErr = iJD (computeJD new) - iOrigJD in
        if iErr = 0 then Some iGuess
        else case cnt of 0 \<Rightarrow> Some iGuess | Suc c \<Rightarrow> utc_loop env iOrigJD c iGuess iErr)"

definition mod_unixepoch :: "DateTime \<Rightarrow> int \<Rightarrow> bool \<times> DateTime" where
  "mod_unixepoch p idx =
     (if idx > 1 then (True, p)
      else
        let r = fl (fl (t_s p * 1000) + 210866760000000) in
        if r \<ge> 0 \<and> r < 464269060800000 then
          (False, (clearYMD_HMS_TZ p)\<lparr>iJD := to_integer (fl (r + 1 / 2)), validJD := True, rawS := False\<rparr>)
        else (True, p))"

definition mod_utc :: "date_env \<Rightarrow> DateTime \<Rightarrow> bool \<times> DateTime" where
  "mod_utc env p =
     (if \<not> isUtc p then
        let p = computeJD p in
        case utc_loop env (iJD p) 3 (iJD p) 0 of
          None \<Rightarrow> (True, p)
        | Some iGuess \<Rightarrow> (False, dt_zero\<lparr>iJD := iGuess, validJD := True, isUtc := True, isLocal := False\<rparr>)
      else (False, p))"

definition mod_u :: "date_env \<Rightarrow> DateTime \<Rightarrow> int \<Rightarrow> byte list \<Rightarrow> bool \<times> DateTime" where
  "mod_u env p idx z =
     (if same_word z str_unixepoch \<and> rawS p then mod_unixepoch p idx
      else if same_word z str_utc \<and> env_not_pure env then mod_utc env p
      else (True, p))"

definition to_weekday :: "int \<Rightarrow> DateTime \<Rightarrow> DateTime" where
  "to_weekday n p =
     (let p = computeYMD_HMS p;
          p = computeJD (p\<lparr>tz := 0, validJD := False\<rparr>);
          Z = ((iJD p + 129600000) sdiv 86400000) smod 7;
          Z = (if Z > n then Z - 7 else Z) in
      clearYMD_HMS_TZ (p\<lparr>iJD := iJD p + (n - Z) * 86400000\<rparr>))"

definition mod_weekday :: "date_env \<Rightarrow> DateTime \<Rightarrow> byte list \<Rightarrow> bool \<times> DateTime" where
  "mod_weekday env p z =
     (let (ok, r) = env_atof env (drop 8 z) in
      if sqlite3_strnicmp (Some z) (Some str_weekday) 8 = 0 \<and> ok > 0 \<and> r \<ge> 0 \<and> r < 7 \<and>
          of_int (to_integer r) = r then
        (False, to_weekday (to_integer r) p)
      else (True, p))"

definition mod_start :: "DateTime \<Rightarrow> byte list \<Rightarrow> bool \<times> DateTime" where
  "mod_start p z =
     (if sqlite3_strnicmp (Some z) (Some str_start_of) 9 \<noteq> 0 then
        if same_word z str_subsec \<or> same_word z str_subsecond then (False, p\<lparr>useSubsec := True\<rparr>) else (True, p)
      else if \<not> validJD p \<and> \<not> validYMD p \<and> \<not> validHMS p then (True, p)
      else
        let z = drop 9 z;
            p = (computeYMD p)\<lparr>validHMS := True, t_h := 0, t_m := 0, t_s := 0, rawS := False, tz := 0, validJD := False\<rparr> in
        if same_word z str_month then (False, p\<lparr>t_D := 1\<rparr>)
        else if same_word z str_year then (False, p\<lparr>t_M := 1, t_D := 1\<rparr>)
        else if same_word z str_day then (False, p)
        else (True, p))"

text \<open>The end of the number in a modifier that starts with one.\<close>

function number_end :: "byte list \<Rightarrow> nat \<Rightarrow> nat" where
  "number_end z n =
     (if n \<ge> length z then n
      else if cstr z n = 0x3A then n
      else if sqlite3Isspace (cstr z n) then n
      else if cstr z n = 0x2D \<and> (n = 5 \<and> length (getDigits (drop 1 z) fmt_40f) = 1 \<or>
          n = 6 \<and> length (getDigits (drop 1 z) fmt_50f) = 1) then n
      else number_end z (n + 1))"
  by pat_completeness auto
termination
  by (relation "measure (\<lambda>(z, n). length z - n)") auto

text \<open>The month carried into the year.\<close>

definition carry_months :: "DateTime \<Rightarrow> DateTime" where
  "carry_months p =
     (let x = (if t_M p > 0 then (t_M p - 1) sdiv 12 else (t_M p - 12) sdiv 12) in
      p\<lparr>t_Y := t_Y p + x, t_M := t_M p - x * 12\<rparr>)"

text \<open>A modifier \<open>(+|-)YYYY-MM-DD\<close>: the years, months and days are added.\<close>

definition add_ymd :: "bool \<Rightarrow> int \<Rightarrow> int \<Rightarrow> int \<Rightarrow> DateTime \<Rightarrow> DateTime" where
  "add_ymd negative Y M D p =
     (let p = (computeYMD_HMS p)\<lparr>validJD := False\<rparr>;
          (p, D) = (if negative then (p\<lparr>t_Y := t_Y p - Y, t_M := t_M p - M\<rparr>, - D)
                    else (p\<lparr>t_Y := t_Y p + Y, t_M := t_M p + M\<rparr>, D));
          p = (computeJD (computeFloor (carry_months p)))\<lparr>validHMS := False, validYMD := False\<rparr> in
      p\<lparr>iJD := iJD p + D * 86400000\<rparr>)"

text \<open>A modifier \<open>(+|-)HH:MM:SS.FFF\<close>.\<close>

definition add_hms :: "bool \<Rightarrow> byte list \<Rightarrow> DateTime \<Rightarrow> bool \<times> DateTime" where
  "add_hms negative z2 p =
     (let z2 = (if \<not> sqlite3IsDigit (cstr z2 0) then drop 1 z2 else z2);
          (failed, tx) = parseHhMmSs z2 dt_zero in
      if failed then (True, p)
      else
        let jd = iJD (computeJD tx) - 43200000;
            day = jd sdiv 86400000;
            jd = jd - day * 86400000;
            jd = (if negative then - jd else jd);
            p = clearYMD_HMS_TZ (computeJD p) in
        (False, p\<lparr>iJD := iJD p + jd\<rparr>))"

text \<open>A modifier \<open>NNN unit\<close>: the units months and years have their own treatment.\<close>

definition add_unit :: "nat \<Rightarrow> rat \<Rightarrow> rat \<Rightarrow> rat \<Rightarrow> DateTime \<Rightarrow> DateTime" where
  "add_unit i rXform r rRounder p =
     (let (p, r) =
        (if i = 4 then
           let p = computeYMD_HMS p;
               p = carry_months (p\<lparr>t_M := t_M p + to_integer r\<rparr>) in
           ((computeFloor p)\<lparr>validJD := False\<rparr>, fl (r - of_int (to_integer r)))
         else if i = 5 then
           let p = computeYMD_HMS p in
           ((computeFloor (p\<lparr>t_Y := t_Y p + to_integer r\<rparr>))\<lparr>validJD := False\<rparr>, fl (r - of_int (to_integer r)))
         else (p, r));
        p = computeJD p in
      p\<lparr>iJD := iJD p + to_integer (fl (fl (fl (r * 1000) * rXform) + rRounder))\<rparr>)"

fun unit_loop :: "byte list \<Rightarrow> nat \<Rightarrow> rat \<Rightarrow> nat \<Rightarrow> (byte list \<times> rat \<times> rat) list \<Rightarrow> (nat \<times> rat) option" where
  "unit_loop z n r i [] = None"
| "unit_loop z n r i ((name, rLimit, rXform) # rest) =
     (if length name = n \<and> sqlite3_strnicmp (Some name) (Some z) (int n) = 0 \<and> r > - rLimit \<and> r < rLimit then
        Some (i, rXform)
      else unit_loop z n r (i + 1) rest)"

definition mod_units :: "byte list \<Rightarrow> rat \<Rightarrow> DateTime \<Rightarrow> bool \<times> DateTime" where
  "mod_units z r p =
     (let z = dropWhile sqlite3Isspace z;
          n = length z in
      if n < 3 \<or> n > 10 then (True, p)
      else
        let n = (if UpperToLower (cstr z (n - 1)) = 0x73 then n - 1 else n);
            p = (computeJD p)\<lparr>nFloor := 0\<rparr>;
            rRounder = (if r < 0 then - 1 / 2 else 1 / 2) in
        case unit_loop z n r 0 aXformType of
          None \<Rightarrow> (True, clearYMD_HMS_TZ p)
        | Some (i, rXform) \<Rightarrow> (False, clearYMD_HMS_TZ (add_unit i rXform r rRounder p)))"

text \<open>A modifier that begins with a sign or a digit. The part after a date is at byte 11 behind the
  first digit of the year, one byte further when the year has five digits.\<close>

definition mod_number :: "date_env \<Rightarrow> DateTime \<Rightarrow> byte list \<Rightarrow> bool \<times> DateTime" where
  "mod_number env p z =
     (let z0 = cstr z 0;
          n = number_end z 1;
          (ok, r) = env_atof env (take n z) in
      if ok \<le> 0 then (True, p)
      else if cstr z n = 0x2D then
        if z0 \<noteq> 0x2B \<and> z0 \<noteq> 0x2D then (True, p)
        else
          (case getDigits (drop 1 z) (if n = 5 then fmt_40f_20a_20d else fmt_50f_20a_20d) of
             [Y, M, D] \<Rightarrow>
               let z' = (if n = 5 then z else drop 1 z) in
               if M \<ge> 12 \<or> D \<ge> 31 then (True, p)
               else
                 let p = add_ymd (z0 = 0x2D) Y M D p in
                 if cstr z' 11 = 0 then (False, p)
                 else if sqlite3Isspace (cstr z' 11) \<and> length (getDigits (drop 12 z') fmt_20c_20e) = 2 then
                   if cstr z' (12 + 2) = 0x3A then add_hms (z0 = 0x2D) (drop 12 z') p
                   else mod_units (drop 2 z') r p
                 else (True, p)
           | _ \<Rightarrow> (True, p))
      else if cstr z n = 0x3A then add_hms (z0 = 0x2D) z p
      else mod_units (drop n z) r p)"

definition parseModifier :: "date_env \<Rightarrow> byte list \<Rightarrow> DateTime \<Rightarrow> int \<Rightarrow> bool \<times> DateTime" where
  "parseModifier env z p idx =
     (let c = UpperToLower (cstr z 0) in
      if c = 0x61 then mod_auto p idx z
      else if c = 0x63 then mod_ceiling p z
      else if c = 0x66 then mod_floor p z
      else if c = 0x6A then mod_julianday p idx z
      else if c = 0x6C then mod_localtime env p z
      else if c = 0x75 then mod_u env p idx z
      else if c = 0x77 then mod_weekday env p z
      else if c = 0x73 then mod_start p z
      else if c = 0x2B \<or> c = 0x2D \<or> 0x30 \<le> c \<and> c \<le> 0x39 then mod_number env p z
      else (True, p))"

section \<open>The functions\<close>

text \<open>An argument: whether its type is a number, its value as a double, and its text.\<close>

record date_arg =
  arg_numeric :: bool
  arg_double :: rat
  arg_text :: "byte list option"

fun modifiers :: "date_env \<Rightarrow> DateTime \<Rightarrow> int \<Rightarrow> date_arg list \<Rightarrow> DateTime option" where
  "modifiers env p i [] = Some p"
| "modifiers env p i (a # args) =
     (case arg_text a of
        None \<Rightarrow> None
      | Some z \<Rightarrow>
          let (failed, p) = parseModifier env z p i in
          if failed then None else modifiers env p (i + 1) args)"

definition isDate :: "date_env \<Rightarrow> date_arg list \<Rightarrow> DateTime option" where
  "isDate env argv =
     (case argv of
        [] \<Rightarrow>
          if \<not> env_not_pure env then None
          else let (failed, p) = setDateTimeToCurrent env dt_zero in if failed then None else Some p
      | a # args \<Rightarrow>
          let (failed, p) =
            (if arg_numeric a then (False, setRawDateNumber dt_zero (arg_double a))
             else case arg_text a of None \<Rightarrow> (True, dt_zero) | Some z \<Rightarrow> parseDateOrTime env z dt_zero) in
          if failed then None
          else
            case modifiers env p 1 args of
              None \<Rightarrow> None
            | Some p \<Rightarrow>
                let p = computeJD p in
                if isError p \<or> \<not> validJulianDay (iJD p) then None
                else if args = [] \<and> validYMD p \<and> t_D p > 28 then Some (p\<lparr>validYMD := False\<rparr>)
                else Some p)"

definition juliandayFunc :: "date_env \<Rightarrow> date_arg list \<Rightarrow> rat option" where
  "juliandayFunc env argv = map_option (\<lambda>x. fl (fl (of_int (iJD (computeJD x))) / 86400000)) (isDate env argv)"

text \<open>With the subsecond modifier the result is a double.\<close>

definition unixepochFunc :: "date_env \<Rightarrow> date_arg list \<Rightarrow> (rat + int) option" where
  "unixepochFunc env argv =
     map_option (\<lambda>x. let x = computeJD x in
       if useSubsec x then Inl (fl (fl (of_int (iJD x - 21086676 * 10000000)) / 1000))
       else Inr (iJD x sdiv 1000 - 21086676 * 10000)) (isDate env argv)"

definition digit :: "int \<Rightarrow> byte" where "digit n = of_int (0x30 + n smod 10)"

definition two_digits :: "int \<Rightarrow> byte list" where "two_digits n = [digit (n sdiv 10), digit n]"

definition date_text :: "DateTime \<Rightarrow> byte list" where
  "date_text x =
     (let Y = (if t_Y x < 0 then - t_Y x else t_Y x) in
      (if t_Y x < 0 then [0x2D] else []) @
      [digit (Y sdiv 1000), digit (Y sdiv 100), digit (Y sdiv 10), digit Y, 0x2D] @
      two_digits (t_M x) @ [0x2D] @ two_digits (t_D x))"

definition time_text :: "DateTime \<Rightarrow> byte list" where
  "time_text x =
     two_digits (t_h x) @ [0x3A] @ two_digits (t_m x) @ [0x3A] @
     (if useSubsec x then
        let s = to_integer (fl (fl (1000 * t_s x) + 1 / 2)) in
        [digit (s sdiv 10000), digit (s sdiv 1000), 0x2E, digit (s sdiv 100), digit (s sdiv 10), digit s]
      else
        let s = to_integer (t_s x) in two_digits s)"

definition datetimeFunc :: "date_env \<Rightarrow> date_arg list \<Rightarrow> byte list option" where
  "datetimeFunc env argv =
     map_option (\<lambda>x. let x = computeYMD_HMS x in date_text x @ [0x20] @ time_text x) (isDate env argv)"

definition timeFunc :: "date_env \<Rightarrow> date_arg list \<Rightarrow> byte list option" where
  "timeFunc env argv = map_option (\<lambda>x. time_text (computeHMS x)) (isDate env argv)"

definition dateFunc :: "date_env \<Rightarrow> date_arg list \<Rightarrow> byte list option" where
  "dateFunc env argv = map_option (\<lambda>x. date_text (computeYMD x)) (isDate env argv)"

definition daysAfterJan01 :: "DateTime \<Rightarrow> int" where
  "daysAfterJan01 p =
     (iJD p - iJD (computeJD (p\<lparr>validJD := False, t_M := 1, t_D := 1\<rparr>)) + 43200000) sdiv 86400000"

definition daysAfterMonday :: "DateTime \<Rightarrow> int" where
  "daysAfterMonday p = ((iJD p + 43200000) sdiv 86400000) smod 7"

definition daysAfterSunday :: "DateTime \<Rightarrow> int" where
  "daysAfterSunday p = ((iJD p + 129600000) sdiv 86400000) smod 7"

definition ctimeFunc :: "date_env \<Rightarrow> byte list option" where "ctimeFunc env = timeFunc env []"
definition cdateFunc :: "date_env \<Rightarrow> byte list option" where "cdateFunc env = dateFunc env []"
definition ctimestampFunc :: "date_env \<Rightarrow> byte list option" where "ctimestampFunc env = datetimeFunc env []"

section \<open>Texts that are read back\<close>

lemma sdiv_smod_digit: "0 \<le> n \<Longrightarrow> n sdiv 10 smod 10 = n div 10 mod 10" "0 \<le> n \<Longrightarrow> n smod 10 = n mod 10" for n :: int
  by (simp_all add: sdiv_nonneg smod_nonneg)

lemma digit_facts:
  assumes "0 \<le> n"
  shows "sqlite3IsDigit (digit n)" "uint (digit n) = 48 + n mod 10"
proof -
  have r: "0 \<le> n mod 10" "n mod 10 \<le> 9" by simp_all
  have "digit n = word_of_int (48 + n mod 10)" using assms by (simp add: digit_def smod_nonneg)
  moreover have "uint (word_of_int (48 + n mod 10) :: byte) = 48 + n mod 10"
    using r by (simp only: unsigned_of_int) (simp add: take_bit_int_eq_self)
  ultimately show u: "uint (digit n) = 48 + n mod 10" by simp
  then show "sqlite3IsDigit (digit n)"
    using r by (simp add: ctype_classes word_le_def)
qed

lemma take_digits_step:
  "0 \<le> n \<Longrightarrow> take_digits (Suc k) (digit n # z) v = take_digits k z (v * 10 + n mod 10)"
  by (simp add: cstr_def digit_facts)

declare take_digits.simps(2) [simp del]

lemma digits_value:
  "0 \<le> n \<Longrightarrow> n < 100 \<Longrightarrow> n div 10 mod 10 * 10 + n mod 10 = n"
  "0 \<le> n \<Longrightarrow> n < 10000 \<Longrightarrow> ((n div 1000 mod 10 * 10 + n div 100 mod 10) * 10 + n div 10 mod 10) * 10 + n mod 10 = n"
  for n :: int
proof -
  have d: "m div 10 mod 10 = m div 10 - m div 100 * 10" "m mod 10 = m - m div 10 * 10" for m :: int
    by (simp_all add: minus_div_mult_eq_mod [symmetric] zdiv_zmult2_eq [symmetric])
  show "0 \<le> n \<Longrightarrow> n < 100 \<Longrightarrow> n div 10 mod 10 * 10 + n mod 10 = n"
    unfolding d by simp
  have e: "n div 100 mod 10 = n div 100 - n div 1000 * 10" "n div 1000 mod 10 = n div 1000 - n div 10000 * 10"
    using d(2) [of "n div 100"] d(2) [of "n div 1000"] by (simp_all add: zdiv_zmult2_eq [symmetric])
  have ring: "(((a - 0 * 10) * 10 + (b - a * 10)) * 10 + (c - b * 10)) * 10 + (n - c * 10) = n" for a b c :: int
    by simp
  assume "0 \<le> n" "n < 10000"
  then have z: "n div 10000 = 0" by simp
  show "((n div 1000 mod 10 * 10 + n div 100 mod 10) * 10 + n div 10 mod 10) * 10 + n mod 10 = n"
    by (simp only: e d(1) [of n] d(2) [of n] z ring)
qed

lemma take_two_digits:
  "0 \<le> n \<Longrightarrow> n < 100 \<Longrightarrow> take_digits 2 (two_digits n @ z) 0 = Some (n, z)"
  using digits_value(1) [of n]
  by (simp add: two_digits_def numeral_2_eq_2 take_digits_step sdiv_nonneg)

lemma take_four_digits:
  assumes "0 \<le> n" "n < 10000"
  shows "take_digits 4 (digit (n sdiv 1000) # digit (n sdiv 100) # digit (n sdiv 10) # digit n # z) 0 = Some (n, z)"
proof -
  have four: "take_digits 4 z' v = take_digits (Suc (Suc (Suc (Suc 0)))) z' v" for z' v by (simp add: eval_nat_numeral)
  have s: "n sdiv 1000 = n div 1000" "n sdiv 100 = n div 100" "n sdiv 10 = n div 10"
    using assms by (simp_all add: sdiv_nonneg)
  have pos: "0 \<le> n div 1000" "0 \<le> n div 100" "0 \<le> n div 10" using assms by simp_all
  have "take_digits 4 (digit (n sdiv 1000) # digit (n sdiv 100) # digit (n sdiv 10) # digit n # z) 0 =
    Some ((((0 * 10 + n div 1000 mod 10) * 10 + n div 100 mod 10) * 10 + n div 10 mod 10) * 10 + n mod 10, z)"
    unfolding four s take_digits_step [OF pos(1)] take_digits_step [OF pos(2)] take_digits_step [OF pos(3)]
      take_digits_step [OF assms(1)] take_digits.simps(1) ..
  then show ?thesis unfolding mult_zero_left add_0 digits_value(2) [OF assms] .
qed

lemma two_digits_length [simp]: "length (two_digits n) = 2"
  by (simp add: two_digits_def)

text \<open>The formats, one number at a time.\<close>

lemma format_times:
  assumes "0 \<le> h" "h \<le> 24" "0 \<le> m" "m \<le> 59"
  shows "getDigits (two_digits h @ 0x3A # two_digits m @ z) fmt_20c_20e = [h, m]"
  using assms take_two_digits [of h "0x3A # two_digits m @ z"] take_two_digits [of m z]
  by (simp add: fmt_20c_20e_def aMx_def cstr_def)

lemma format_seconds:
  assumes "0 \<le> s" "s \<le> 59"
  shows "getDigits (two_digits s @ z) fmt_20e = [s]"
  using assms take_two_digits [of s z] by (simp add: fmt_20e_def aMx_def cstr_def)

lemma format_date:
  assumes "0 \<le> Y" "Y \<le> 9999" "1 \<le> M" "M \<le> 12" "1 \<le> D" "D \<le> 31"
  shows "getDigits ([digit (Y sdiv 1000), digit (Y sdiv 100), digit (Y sdiv 10), digit Y, 0x2D] @ two_digits M @
      [0x2D] @ two_digits D @ z) fmt_40f_21a_21d = [Y, M, D]"
  using assms take_four_digits [of Y "0x2D # two_digits M @ 0x2D # two_digits D @ z"]
    take_two_digits [of M "0x2D # two_digits D @ z"] take_two_digits [of D z]
  by (simp add: fmt_40f_21a_21d_def aMx_def cstr_def)

text \<open>The milliseconds in the fraction.\<close>

lemma fraction_digits:
  assumes "0 \<le> n" "n < 1000"
  shows "fraction 0 1 [digit (n sdiv 100), digit (n sdiv 10), digit n] = (of_int n, 1000, [])"
proof -
  have step: "fl (fl (fl (of_int a * 10) + of_nat (unat (digit b))) - 48) = of_int (a * 10 + b mod 10)"
    if "0 \<le> a" "a < 1000" "0 \<le> b" for a b
  proof -
    have "(of_nat (unat (digit b)) :: rat) = of_int (48 + b mod 10)"
      using digit_facts(2) [OF that(3)] by (metis of_int_of_nat_eq uint_nat)
    moreover have "0 \<le> b mod 10" "b mod 10 \<le> 9" by simp_all
    ultimately show ?thesis
      using that fl_of_int [of "a * 10"] fl_of_int [of "a * 10 + 48 + b mod 10"] fl_of_int [of "a * 10 + b mod 10"]
      by (simp add: algebra_simps)
  qed
  have scale: "fl (1 * 10) = 10" "fl (10 * 10) = 100" "fl (100 * 10) = 1000"
    using fl_of_int [of 10] fl_of_int [of 100] fl_of_int [of 1000] by simp_all
  have s: "n sdiv 100 = n div 100" "n sdiv 10 = n div 10" using assms by (simp_all add: sdiv_nonneg)
  have pos: "0 \<le> n div 100" "0 \<le> n div 10" using assms by simp_all
  have ab: "0 * 10 + n div 100 mod 10 = n div 100" "n div 100 * 10 + n div 10 mod 10 = n div 10" "n div 10 * 10 + n mod 10 = n"
    using digits_value(2) [of n] assms by simp_all
  have step1: "fl (fl (fl (of_int 0 * 10) + of_nat (unat (digit (n div 100)))) - 48) = of_int (n div 100)"
    using step [of 0 "n div 100"] pos ab(1) by (simp only:) simp?
  have step2: "fl (fl (fl (of_int (n div 100) * 10) + of_nat (unat (digit (n div 10)))) - 48) = of_int (n div 10)"
    using step [of "n div 100" "n div 10"] pos ab(2) assms by (simp only:) simp?
  have step3: "fl (fl (fl (of_int (n div 10) * 10) + of_nat (unat (digit n))) - 48) = of_int n"
    using step [of "n div 10" n] pos ab(3) assms by (simp only:) simp?
  have "fraction (of_int 0) 1 [digit (n div 100), digit (n div 10), digit n] = (of_int n, 1000, [])"
    by (simp only: fraction.simps digit_facts(1) [OF pos(1)] digit_facts(1) [OF pos(2)] digit_facts(1) [OF assms(1)]
        if_True step1 step2 step3 scale)
  then show ?thesis by (simp add: s)
qed

lemma thousandth_below:
  assumes "0 \<le> f" "f < 1000"
  shows "\<not> fl (of_int f / 1000) > fl (999 / 1000)"
proof (cases "f = 999")
  case False
  then have "(of_int f :: rat) \<le> of_int 998" using assms by (simp only: of_int_le_iff)
  then show ?thesis
    using thousandth_near [of f] thousandth_near [of 999] assms unfolding abs_le_iff by simp
qed simp

text \<open>The text of a time of the day is read back with its milliseconds.\<close>

lemma parse_seconds_text:
  assumes "0 \<le> s" "s < 60000"
  shows "parse_seconds (0x3A # [digit (s sdiv 10000), digit (s sdiv 1000), 0x2E, digit (s sdiv 100), digit (s sdiv 10), digit s]) =
    Some (s div 1000, fl (of_int (s mod 1000) / 1000), [])"
proof -
  let ?f = "s mod 1000"
  have f: "0 \<le> ?f" "?f < 1000" by simp_all
  have dig: "digit a = digit b" if "0 \<le> a" "0 \<le> b" "a mod 10 = b mod 10" for a b
    using that by (simp add: digit_def smod_nonneg)
  have "s div 100 mod 10 = ?f div 100 mod 10" "s div 10 mod 10 = ?f div 10 mod 10" "s mod 10 = ?f mod 10"
  proof -
    have split: "(f + 1000 * q) div 100 mod 10 = f div 100 mod 10 \<and> (f + 1000 * q) div 10 mod 10 = f div 10 mod 10 \<and>
        (f + 1000 * q) mod 10 = f mod 10" for f q :: int
    proof -
      have e: "f + 1000 * q = f + 100 * (10 * q)" "f + 1000 * q = f + 10 * (100 * q)" by simp_all
      have "(f + 1000 * q) div 100 = 10 * q + f div 100" unfolding e(1) by (rule div_mult_self2) simp
      moreover have "(f + 1000 * q) div 10 = 10 * (10 * q) + f div 10" unfolding e(2) by (subst div_mult_self2) simp_all
      moreover have "(f + 1000 * q) mod 10 = f mod 10" unfolding e(2) by (rule mod_mult_self2)
      moreover have "(10 * x + y) mod 10 = y mod 10" for x y :: int by (rule mod_mult_self4)
      ultimately show ?thesis by (simp only:) simp?
    qed
    have "s = s mod 1000 + 1000 * (s div 1000)" by (rule mod_mult_div_eq [symmetric])
    then show "s div 100 mod 10 = ?f div 100 mod 10" "s div 10 mod 10 = ?f div 10 mod 10" "s mod 10 = ?f mod 10"
      using split [of ?f "s div 1000"] by (simp_all only:)
  qed
  then have "digit (s div 100) = digit (?f div 100)" "digit (s div 10) = digit (?f div 10)" "digit s = digit ?f"
    using assms(1) f(1) by (intro dig; simp only: pos_imp_zdiv_nonneg_iff zero_less_numeral)+
  then have d: "digit (s sdiv 100) = digit (?f sdiv 100)" "digit (s sdiv 10) = digit (?f sdiv 10)" "digit s = digit ?f"
    using assms(1) f(1) by (simp_all only: sdiv_nonneg zero_less_numeral)
  have fraction: "fraction 0 1 [digit (s sdiv 100), digit (s sdiv 10), digit s] = (of_int ?f, 1000, [])"
    unfolding d by (rule fraction_digits [OF f])
  have two: "[digit (s sdiv 10000), digit (s sdiv 1000)] = two_digits (s div 1000)"
    using assms by (simp add: two_digits_def sdiv_nonneg zdiv_zmult2_eq [symmetric])
  have "getDigits (digit (s sdiv 10000) # digit (s sdiv 1000) # z) fmt_20e = [s div 1000]" for z
    using format_seconds [of "s div 1000" z] assms unfolding two [symmetric] by simp
  then show ?thesis
    using fraction thousandth_below [OF f] digit_facts(1) [of "s sdiv 100"] sdiv_nonneg [OF assms(1), of 100] assms(1)
    by (simp add: parse_seconds_def cstr_def numeral_2_eq_2)
qed

lemma two_digits_cons: "two_digits n = [digit (n sdiv 10), digit n]"
  by (simp add: two_digits_def)

text \<open>Seconds and thousandths, added as doubles.\<close>

lemma seconds_and_fraction:
  assumes "0 \<le> ms" "ms < 60000"
  shows "to_integer (fl (fl (fl (of_int (ms div 1000) + fl (of_int (ms mod 1000) / 1000)) * 1000) + 1 / 2)) = ms"
proof (rule milliseconds_near [OF assms])
  define s f where "s = ms div 1000" and "f = ms mod 1000"
  have ms: "ms = 1000 * s + f" "0 \<le> s" "s < 60" "0 \<le> f" "f < 1000"
    using assms by (simp_all add: s_def f_def)
  define a where "a = fl (of_int f / 1000)"
  have a: "\<bar>a - of_int f / 1000\<bar> \<le> 1 / 100000000" unfolding a_def by (rule thousandth_near) (use ms in simp_all)
  have m: "(0 :: rat) \<le> of_int s" "of_int s < (60 :: rat)" "(0 :: rat) \<le> of_int f" "of_int f < (1000 :: rat)"
    using ms of_int_less_iff [of s 60, where 'a = rat] of_int_less_iff [of f 1000, where 'a = rat] by simp_all
  have "\<bar>of_int s + a\<bar> \<le> 62" using a m unfolding abs_le_iff by simp
  then have "\<bar>of_int s + a\<bar> / 2 ^ 53 \<le> 1 / 100000000" by simp
  then have "\<bar>fl (of_int s + a) - (of_int s + a)\<bar> \<le> 1 / 100000000" using fl_error [of "of_int s + a"] by linarith
  then have "\<bar>fl (of_int s + a) * 1000 - (1000 * of_int s + of_int f)\<bar> \<le> 1 / 10000"
    using a unfolding abs_le_iff by simp
  then show "\<bar>fl (of_int (ms div 1000) + fl (of_int (ms mod 1000) / 1000)) * 1000 - of_int ms\<bar> \<le> 1 / 10000"
    unfolding s_def [symmetric] f_def [symmetric] a_def [symmetric] using ms(1) by simp
qed

lemma parse_time_text:
  assumes "0 \<le> t_h x" "t_h x \<le> 24" "0 \<le> t_m x" "t_m x \<le> 59" "useSubsec x" "0 \<le> ms" "ms < 60000"
    and "t_s x = fl (of_int ms / 1000)"
  shows "parseHhMmSs (time_text x) p = (False, p\<lparr>validJD := False, rawS := False, validHMS := True, t_h := t_h x,
    t_m := t_m x, t_s := fl (of_int (ms div 1000) + fl (of_int (ms mod 1000) / 1000)), tz := 0\<rparr>)"
proof -
  let ?sec = "[digit (ms sdiv 10000), digit (ms sdiv 1000), 0x2E, digit (ms sdiv 100), digit (ms sdiv 10), digit ms]"
  have "to_integer (fl (fl (1000 * t_s x) + 1 / 2)) = ms"
    using millisecond_round_trip [OF assms(6,7)] by (simp only: assms(8) mult.commute)
  then have shape: "time_text x = two_digits (t_h x) @ 0x3A # two_digits (t_m x) @ 0x3A # ?sec"
    using assms(5) by (simp add: time_text_def)
  have rest: "drop 5 (time_text x) = 0x3A # ?sec"
    by (simp add: shape two_digits_cons)
  have "parseTimezone [] q = (False, q\<lparr>tz := 0\<rparr>)" for q by (simp add: parseTimezone_def cstr_def)
  then show ?thesis
    unfolding parseHhMmSs_def rest parse_seconds_text [OF assms(6,7)]
    using format_times [OF assms(1-4)] by (simp add: shape)
qed

lemma parse_date_text:
  assumes "valid_date (Y, M, D)" "- 4713 \<le> Y" "Y \<le> 9999" "t_Y x = Y" "t_M x = M" "t_D x = D"
    and "parseHhMmSs z p = (False, q)" "sqlite3IsDigit (cstr z 0)" "tz q = 0"
  shows "parseYyyyMmDd (date_text x @ 0x20 # z) p =
    (False, computeFloor (q\<lparr>validJD := False, validYMD := True, t_Y := Y, t_M := M, t_D := D\<rparr>))"
proof -
  let ?Y = "if Y < 0 then - Y else Y"
  let ?body = "[digit (?Y sdiv 1000), digit (?Y sdiv 100), digit (?Y sdiv 10), digit ?Y, 0x2D] @ two_digits M @ [0x2D] @ two_digits D"
  have MD: "1 \<le> M" "M \<le> 12" "1 \<le> D" "D \<le> 31"
    using assms(1) by (auto simp: month_days_def split: if_splits)
  have shape: "date_text x @ 0x20 # z = (if Y < 0 then [0x2D] else []) @ ?body @ 0x20 # z"
    using assms(4-6) by (simp add: date_text_def)
  have Y: "0 \<le> ?Y" "?Y \<le> 9999" using assms(2,3) by auto
  have "digit (?Y sdiv 1000) \<noteq> 0x2D"
  proof
    assume "digit (?Y sdiv 1000) = 0x2D"
    moreover have "sqlite3IsDigit (digit (?Y sdiv 1000))" using digit_facts(1) Y by (simp add: sdiv_nonneg)
    ultimately show False by (simp add: ctype_classes)
  qed
  then have neg: "cstr (date_text x @ 0x20 # z) 0 = 0x2D \<longleftrightarrow> Y < 0"
    unfolding shape by (cases "Y < 0") (simp_all add: cstr_def)
  have body: "(if Y < 0 then drop 1 (date_text x @ 0x20 # z) else date_text x @ 0x20 # z) = ?body @ 0x20 # z"
    unfolding shape by simp
  have digits: "getDigits (?body @ 0x20 # z) fmt_40f_21a_21d = [?Y, M, D]"
    using format_date [OF Y MD, of "0x20 # z"] by simp
  have "\<not> (sqlite3Isspace (cstr z 0) \<or> cstr z 0 = 0x54)"
    using assms(8) by (auto simp: ctype_classes word_le_nat_alt)
  moreover have "z \<noteq> []" using assms(8) by (auto simp: cstr_def ctype_classes)
  ultimately have "dropWhile (\<lambda>c. sqlite3Isspace c \<or> c = 0x54) z = z" by (cases z) (auto simp: cstr_def)
  then have rest: "dropWhile (\<lambda>c. sqlite3Isspace c \<or> c = 0x54) (drop 10 (?body @ 0x20 # z)) = z"
    by (simp add: two_digits_cons ctype_classes)
  have tz: "tz (computeFloor (q\<lparr>validJD := False, validYMD := True, t_Y := Y, t_M := M, t_D := D\<rparr>)) = 0"
    using assms(9) by (simp add: computeFloor_def)
  show ?thesis
    unfolding parseYyyyMmDd_def Let_def neg body digits rest list.case assms(7)
    using tz by simp
qed


text \<open>\<open>computeFloor\<close> changes \<open>nFloor\<close> only.\<close>

lemma computeFloor_only:
  shows "validJD (computeFloor p) = validJD p" "validYMD (computeFloor p) = validYMD p"
    "validHMS (computeFloor p) = validHMS p" "rawS (computeFloor p) = rawS p" "tz (computeFloor p) = tz p"
    "isError (computeFloor p) = isError p" "t_Y (computeFloor p) = t_Y p" "t_M (computeFloor p) = t_M p"
    "t_D (computeFloor p) = t_D p" "t_h (computeFloor p) = t_h p" "t_m (computeFloor p) = t_m p" "t_s (computeFloor p) = t_s p"
  by (simp_all add: computeFloor_def)

text \<open>The text with milliseconds, read by the date parser, gives the time stamp back.\<close>

lemma parse_datetime_text:
  assumes "validJulianDay (iJD u)" "validJD u" "\<not> validYMD u" "\<not> validHMS u" "useSubsec u"
  defines "x \<equiv> computeYMD_HMS u"
  shows "\<exists>q. parseDateOrTime env (date_text x @ 0x20 # time_text x) dt_zero = (False, q) \<and>
    iJD (computeJD q) = iJD u \<and> \<not> isError (computeJD q)"
proof -
  obtain n t where jd: "iJD u = int n * 86400000 - 43200000 + t" "0 \<le> t" "t < 86400000" "n \<le> 5373484"
    by (rule valid_day [OF assms(1)])
  obtain Y M D where d: "date_of_day n = (Y, M, D)" by (metis prod_cases3)
  note r = date_of_day_range [OF jd(4) d]
  have MD: "1 \<le> M" "M \<le> 12" "1 \<le> D" "D \<le> 31"
    using r(1) by (auto simp: month_days_def split: if_splits)
  have v: "validJulianDay (int n * 86400000 - 43200000 + t)" using assms(1) jd(1) by simp
  have "u\<lparr>iJD := int n * 86400000 - 43200000 + t, validJD := True, validYMD := False, validHMS := False\<rparr> = u"
    using jd(1) assms(2-4) by (cases u) simp
  then have x: "t_Y x = Y" "t_M x = M" "t_D x = D" "t_h x = t div 3600000" "t_m x = t div 60000 mod 60"
    "t_s x = fl (of_int (t mod 60000) / 1000)" "useSubsec x"
    using fields_of_JD [OF v jd(2,3) d, of u] assms(5) by (simp_all add: x_def)
  let ?ms = "t mod 60000"
  have hm: "0 \<le> t_h x" "t_h x \<le> 24" "0 \<le> t_m x" "t_m x \<le> 59" "0 \<le> ?ms" "?ms < 60000"
    using jd(2,3) by (simp_all add: x)
  define S where "S = fl (of_int (?ms div 1000) + fl (of_int (?ms mod 1000) / 1000))"
  have S: "to_integer (fl (fl (S * 1000) + 1 / 2)) = ?ms"
    unfolding S_def by (rule seconds_and_fraction) simp_all
  define q where "q = dt_zero\<lparr>validJD := False, rawS := False, validHMS := True, t_h := t_h x, t_m := t_m x, t_s := S, tz := 0\<rparr>"
  have q: "parseHhMmSs (time_text x) dt_zero = (False, q)"
    unfolding q_def S_def by (rule parse_time_text [OF hm(1-4) x(7) hm(5,6) x(6)])
  have digit: "sqlite3IsDigit (cstr (time_text x) 0)"
    using digit_facts(1) [of "t_h x sdiv 10"] hm(1)
    by (simp add: time_text_def two_digits_def cstr_def sdiv_nonneg)
  define Q where "Q = computeFloor (q\<lparr>validJD := False, validYMD := True, t_Y := Y, t_M := M, t_D := D\<rparr>)"
  have "parseYyyyMmDd (date_text x @ 0x20 # time_text x) dt_zero = (False, Q)"
    unfolding Q_def by (rule parse_date_text [OF r(1-3) x(1-3) q digit]) (simp add: q_def)
  then have parse: "parseDateOrTime env (date_text x @ 0x20 # time_text x) dt_zero = (False, Q)"
    by (simp add: parseDateOrTime_def)
  have JD: "day_JD Y M D = int n * 86400000 - 43200000" using day_JD_jdn [of Y M D] r MD by simp
  have "\<not> validJD Q" "validYMD Q" "validHMS Q" "\<not> rawS Q" "tz Q = 0" "\<not> isError Q" "t_Y Q = Y" "t_M Q = M" "t_D Q = D"
    "t_h Q = t div 3600000" "t_m Q = t div 60000 mod 60" "t_s Q = S"
    unfolding Q_def computeFloor_only q_def x(4,5) dt_zero_def by simp_all
  then have "iJD (computeJD Q) = iJD u" "\<not> isError (computeJD Q)"
    using computeJD_fields [of Q] r(2,3) JD S time_sum [of t] jd(1) by simp_all
  then show ?thesis using parse by blast
qed

lemma isDate_valid: "argv \<noteq> [] \<Longrightarrow> isDate env argv = Some x \<Longrightarrow> validJulianDay (iJD x)"
  by (auto simp: isDate_def Let_def split: list.splits option.splits prod.splits if_splits)

text \<open>
  C40. A text that datetime() gives with subsecond precision for a time stamp whose calendar
  fields have not been cached is read by the date functions as the same time stamp, to the
  millisecond.
\<close>

theorem datetime_text_round_trip:
  assumes "argv \<noteq> []" "isDate env argv = Some x" "useSubsec x" "validJD x" "\<not> validYMD x" "\<not> validHMS x"
    and "datetimeFunc env argv = Some z"
  shows "\<exists>q. isDate env' [\<lparr>arg_numeric = False, arg_double = 0, arg_text = Some z\<rparr>] = Some q \<and> iJD q = iJD x"
proof -
  have v: "validJulianDay (iJD x)" by (rule isDate_valid [OF assms(1,2)])
  have z: "z = date_text (computeYMD_HMS x) @ 0x20 # time_text (computeYMD_HMS x)"
    using assms(2,7) by (simp add: datetimeFunc_def Let_def)
  obtain q where q: "parseDateOrTime env' z dt_zero = (False, q)" "iJD (computeJD q) = iJD x" "\<not> isError (computeJD q)"
    using parse_datetime_text [OF v assms(4-6,3), of env'] unfolding z by blast
  show ?thesis using v q(2,3) by (simp add: isDate_def q(1) Let_def)
qed

section \<open>Modifiers\<close>

text \<open>\<open>weekday N\<close> moves the date forward to the next date whose weekday number is \<open>N\<close>, by less than a
  week and by whole days.\<close>

lemma weekday_moves_forward:
  assumes "validJulianDay jd" "0 \<le> n" "n \<le> 6"
    and "q = to_weekday n (p\<lparr>iJD := jd, validJD := True, validYMD := False, validHMS := False, tz := 0\<rparr>)"
  shows "daysAfterSunday q = n \<and> iJD q mod 86400000 = jd mod 86400000 \<and> jd \<le> iJD q \<and> iJD q - jd < 7 * 86400000"
proof -
  define w where "w = (jd + 129600000) div 86400000 mod 7"
  have jd: "0 \<le> jd" using assms(1) by (simp add: validJulianDay_def)
  have w: "0 \<le> w" "w \<le> 6"
    using pos_mod_sign [of 7 "(jd + 129600000) div 86400000"] pos_mod_bound [of 7 "(jd + 129600000) div 86400000"]
    by (simp_all add: w_def)
  define x where "x = computeYMD_HMS (p\<lparr>iJD := jd, validJD := True, validYMD := False, validHMS := False, tz := 0\<rparr>)"
  have "tz x = 0"
    using assms(1) by (simp add: x_def computeYMD_HMS_def computeHMS_def computeYMD_def computeJD_def Let_def split: prod.split)
  then have "x\<lparr>tz := 0, validJD := False\<rparr> = x\<lparr>validJD := False\<rparr>" by (cases x) simp
  then have JD: "iJD (computeJD (x\<lparr>tz := 0, validJD := False\<rparr>)) = jd"
    using time_stamp_round_trip [OF assms(1), of p] by (simp add: x_def)
  have "(jd + 129600000) sdiv 86400000 smod 7 = w"
    using jd by (simp add: w_def sdiv_nonneg smod_nonneg pos_imp_zdiv_nonneg_iff)
  then have q: "iJD q = jd + (n - (if w > n then w - 7 else w)) * 86400000"
    unfolding assms(4) to_weekday_def Let_def x_def [symmetric] JD clearYMD_HMS_TZ_def by simp
  define k where "k = n - (if w > n then w - 7 else w)"
  have k: "0 \<le> k" "k \<le> 6" "(k + w) mod 7 = n" using w assms(2,3) by (auto simp: k_def)
  have e: "iJD q + 129600000 = jd + 129600000 + k * 86400000" using q by (simp add: k_def)
  have "(iJD q + 129600000) div 86400000 = k + (jd + 129600000) div 86400000"
    unfolding e by (rule div_mult_self1) simp
  then have "(iJD q + 129600000) div 86400000 mod 7 = n"
    using k(3) by (simp add: w_def mod_simps)
  moreover have "0 \<le> iJD q" using q k(1) jd by (simp add: k_def)
  ultimately have "daysAfterSunday q = n"
    by (simp add: daysAfterSunday_def sdiv_nonneg smod_nonneg pos_imp_zdiv_nonneg_iff)
  moreover have "iJD q mod 86400000 = jd mod 86400000" unfolding q by (rule mod_mult_self1)
  ultimately show ?thesis using q k(1,2) by (simp add: k_def)
qed

text \<open>The carry from the month into the year keeps the number of months.\<close>

lemma carry_months_keeps:
  "12 * t_Y (carry_months p) + t_M (carry_months p) = 12 * t_Y p + t_M p \<and>
   1 \<le> t_M (carry_months p) \<and> t_M (carry_months p) \<le> 12"
proof (cases "t_M p > 0")
  case True
  have "1 \<le> t_M p - (t_M p - 1) div 12 * 12" "t_M p - (t_M p - 1) div 12 * 12 \<le> 12"
    using minus_div_mult_eq_mod [of "t_M p - 1" 12] pos_mod_sign [of 12 "t_M p - 1"] pos_mod_bound [of 12 "t_M p - 1"]
    by linarith+
  then show ?thesis using True by (simp add: carry_months_def sdiv_nonneg Let_def)
next
  case False
  have "(t_M p - 12) sdiv 12 = - ((12 - t_M p) div 12)"
    using False by (simp add: signed_divide_int_def sgn_if)
  moreover have "1 \<le> t_M p + (12 - t_M p) div 12 * 12" "t_M p + (12 - t_M p) div 12 * 12 \<le> 12"
    using minus_div_mult_eq_mod [of "12 - t_M p" 12] pos_mod_sign [of 12 "12 - t_M p"] pos_mod_bound [of 12 "12 - t_M p"]
    by linarith+
  ultimately show ?thesis using False by (simp add: carry_months_def Let_def)
qed

text \<open>\<open>computeFloor\<close> counts the days of a date beyond the end of its month.\<close>

lemma smod_zero: "0 < b \<Longrightarrow> a smod b = 0 \<longleftrightarrow> a mod b = 0" for a b :: int
  by (auto simp: signed_modulo_int_def signed_divide_int_def sgn_if split: if_splits)

lemma computeFloor_excess:
  assumes "1 \<le> t_M p" "t_M p \<le> 12" "t_D p \<le> 31"
  shows "nFloor (computeFloor p) = max 0 (t_D p - month_days (t_Y p) (t_M p))"
  using month_cases [OF assms(1,2)] assms(3)
  by (elim disjE) (auto simp: computeFloor_def month_days_def leap_def smod_zero)

text \<open>The modifier \<open>floor\<close> after adding months: the last day of the month.\<close>

lemma floor_is_end_of_month:
  assumes "- 4713 \<le> t_Y p" "t_Y p \<le> 9999" "1 \<le> t_M p" "t_M p \<le> 12" "1 \<le> t_D p" "t_D p \<le> 31"
    and "\<not> validJD p" "validYMD p" "\<not> validHMS p" "\<not> rawS p" "same_word z str_floor"
  shows "iJD (snd (mod_floor (computeFloor p) z)) = day_JD (t_Y p) (t_M p) (min (t_D p) (month_days (t_Y p) (t_M p)))"
proof -
  let ?D = "min (t_D p) (month_days (t_Y p) (t_M p))"
  have jdn: "jdn (t_Y p) (t_M p) (t_D p) = jdn (t_Y p) (t_M p) ?D + (t_D p - ?D)" by (simp add: jdn_def Let_def)
  have "1 \<le> ?D" using assms(5) by (simp add: month_days_def)
  then have JD: "day_JD (t_Y p) (t_M p) d = jdn (t_Y p) (t_M p) d * 86400000 - 43200000" if "d = t_D p \<or> d = ?D" for d
    using assms(1-6) that by (intro day_JD_jdn) auto
  have "nFloor (computeFloor p) = t_D p - ?D" using computeFloor_excess [OF assms(3,4,6)] by simp
  then have "nFloor (computeJD (computeFloor p)) = t_D p - ?D"
    using assms by (simp add: computeJD_def computeFloor_only Let_def)
  moreover have "iJD (computeJD (computeFloor p)) = day_JD (t_Y p) (t_M p) (t_D p)"
    using assms by (simp add: computeJD_def computeFloor_only Let_def)
  ultimately have "iJD (snd (mod_floor (computeFloor p) z)) = day_JD (t_Y p) (t_M p) (t_D p) - (t_D p - ?D) * 86400000"
    using assms(11) by (simp only: mod_floor_def clearYMD_HMS_TZ_def Let_def if_True) simp
  also have "\<dots> = (jdn (t_Y p) (t_M p) (t_D p) - (t_D p - ?D)) * 86400000 - 43200000"
    unfolding JD [OF disjI1 [OF refl]] by (simp only: left_diff_distrib)
  also have "\<dots> = day_JD (t_Y p) (t_M p) ?D"
    unfolding JD [OF disjI2 [OF refl]] jdn by simp
  finally show ?thesis .
qed


section \<open>Instances\<close>

definition utc_env :: date_env where
  "utc_env = \<lparr>env_now = 0, env_not_pure = True, env_atof = (\<lambda>z. (0, 0)), env_localtime = (\<lambda>t. None)\<rparr>"

text \<open>The arguments of \<open>datetime(2440587.5, 'subsec')\<close>.\<close>

definition epoch_args :: "date_arg list" where
  "epoch_args =
     [\<lparr>arg_numeric = True, arg_double = 4881175 / 2, arg_text = None\<rparr>,
      \<lparr>arg_numeric = False, arg_double = 0, arg_text = Some str_subsec\<rparr>]"

lemma subsec_modifier: "parseModifier env str_subsec p i = (False, p\<lparr>useSubsec := True\<rparr>)"
proof -
  have "UpperToLower (cstr str_subsec 0) = 0x73" "same_word str_subsec str_subsec"
    "sqlite3_strnicmp (Some str_subsec) (Some str_start_of) 9 \<noteq> 0"
    by code_simp+
  then show ?thesis by (simp add: parseModifier_def mod_start_def)
qed

lemma epoch_args_date:
  "isDate utc_env epoch_args =
     Some (dt_zero\<lparr>t_s := 4881175 / 2, rawS := True, iJD := 210866760000000, validJD := True, useSubsec := True\<rparr>)"
proof -
  have "fl 210866760000000 = (210866760000000 :: rat)" using fl_of_int [of 210866760000000] by simp
  moreover have half: "fl (421733520000001 / 2) = (421733520000001 / 2 :: rat)" using fl_halves [of 421733520000001] by simp
  moreover have "to_integer (fl (421733520000001 / 2)) = 210866760000000"
    unfolding half by (simp add: to_integer_def floor_unique)
  ultimately show ?thesis
    by (simp add: Let_def epoch_args_def isDate_def setRawDateNumber_def subsec_modifier computeJD_def validJulianDay_def valid_max
        dt_zero_def)
qed

theorem datetime_text_round_trip_witness:
  "\<exists>z q. datetimeFunc utc_env epoch_args = Some z \<and>
    isDate utc_env [\<lparr>arg_numeric = False, arg_double = 0, arg_text = Some z\<rparr>] = Some q \<and> iJD q = 210866760000000"
proof -
  obtain z where z: "datetimeFunc utc_env epoch_args = Some z" by (simp add: datetimeFunc_def epoch_args_date)
  show ?thesis
    using datetime_text_round_trip [OF _ epoch_args_date _ _ _ _ z, of utc_env] z
    by (simp add: epoch_args_def dt_zero_def)
qed

end
