(* ===== verification/Spec2Isabelle.thy ===== *)
theory Spec2Isabelle
  imports Term_Client Auth_Store Native_Helpers Icu_Bridge Sse Streaming_Json Truncate Sqlite_Varint Sqlite_Numtext Sqlite_Bitvec Sqlite_Hash Sqlite_Rowset Sqlite_Utf Sqlite_Memjournal Sqlite_Like Sqlite_Complete Sqlite_Token Sqlite_Datetime
begin

text \<open>
  Verification of the native layer of Adou, a terminal coding agent, and of the text handling
  between its providers, tools and terminal.

  \<^bold>\<open>The program.\<close> Adou is written in Nature (\<open>src/\<close>: the agent loop, the providers of language
  models, sessions, tools, the terminal user interface) over a native layer in C (\<open>native/\<close>):
  small bridges to the operating system and to ICU, and the amalgamated source of SQLite
  (\<open>native/sqlite3/sqlite3.c\<close>), in which sessions are stored. The development covers the bridges
  completely, two of their Nature clients, the Nature modules through which every answer of a
  model and every tool output passes (event streams, unfinished JSON, UTF-8, truncation), and of
  SQLite the components that stand on their own: encodings, text, containers, journal and the
  front end up to the parser. The components
  interact as follows. The terminal object drives the one-shot calls of the terminal bridge in
  loops; the settings and the credentials are written through the file primitives of the
  credential store; the interface measures and segments text through the ICU bridge. A provider cuts its
  stream into events, whose partial tool arguments are repaired and parsed on every delta; tools
  decode the bytes they read, truncate them, and remove what a provider would reject. In SQLite a
  statement is completed by \<open>sqlite3_complete\<close>, cut into tokens by \<open>sqlite3GetToken\<close>, which asks
  the keyword table, and fed to the parser; identifiers live in hash tables; a transaction
  records its pages in a bitvec and its old contents in a journal, queries collect row
  identifiers in row sets, and records are made of varints and of texts in one of three
  encodings, which LIKE and GLOB search; the date functions read and print such texts.

  \<^bold>\<open>Environment.\<close> The kernel and ICU are parameters. A kernel (\<open>term_os\<close>, \<open>auth_os\<close>, the ones of
  \<open>Native_Helpers\<close>) answers every call as an arbitrary function of the history of calls made
  before it, so that a theorem holds for all interleavings with other processes, for signals,
  short writes and failures; the state of a descriptor or of the file system is read off the
  history. Allocation is a parameter in the same way: the \<open>k\<close>-th call may fail. What a theorem
  needs of the environment is one of its hypotheses, with a witness that it can hold.

  \<^bold>\<open>Theories.\<close>

  \<^item> \<open>Adou_Prelude\<close>: names of the C integer types, conversions, call histories, shared facts.
  \<^item> \<open>Term_Native\<close> (\<open>native/term.c\<close>): non-blocking writes and reads, raw mode, window size. Every
    operation is a definition over the history. Shown: the write lock is held exactly around a
    write; the status flags are restored when a write or a read returns a count, when a read is
    interrupted, would block or fails itself; the failure every return code of a read stands
    for, and what a count means; raw mode is left as it was found; at most one terminal is raw, by induction over
    all sequences of calls (\<open>raw_reach\<close>); a failure late in entering raw mode leaves the terminal
    raw, which is recorded as a finding.
  \<^item> \<open>Term_Client\<close> (\<open>src/tui/term.n\<close>): the write and read loops and the opening and restoring of
    the terminal. The loops take fuel; it is shown how much is enough for a kernel that answers
    within a bound, so the loops return.
  \<^item> \<open>Auth_Store\<close> (\<open>native/auth_store.c\<close>): the lock file and the atomic replacement of a file.
    Shown: an observer sees the old or the new content, whatever fails; descriptors are closed on
    every path; the calls return; which calls a lock session makes, and that it closes its
    descriptor. That the lock of the kernel excludes other processes is not part of the model.
  \<^item> \<open>Native_Helpers\<close> (\<open>native/fs_watch.c\<close>, \<open>clipboard_image.c\<close>, \<open>stdin_peek.c\<close>, \<open>regex.c\<close>,
    \<open>process_group_helper.c\<close>): one group of definitions per file, both variants of the watcher.
  \<^item> \<open>Icu_Bridge\<close> (\<open>native/unicode_icu.c\<close>, \<open>src/unicode/normalization.n\<close>): the table of entry
    points, normalization, word and grapheme segments, display width. Shown: normalization
    refines the one of ICU, handles are balanced, segments tile the text, the width of a text is
    the sum over its graphemes.
  \<^item> \<open>Unicode_Utf8\<close> (\<open>src/unicode/utf8.n\<close>, \<open>src/ai/sanitize_unicode.n\<close>): validation, decoding,
    lengths and prefixes. A text is the list of its bytes; \<open>encode\<close> is the definition of UTF-8 the
    code is compared with, \<open>to_utf16\<close> and \<open>from_utf16\<close> the one of UTF-16 that prefixes are cut in.
  \<^item> \<open>Sse\<close> (\<open>src/ai/sse.n\<close>): the parser of event streams as a record and the functions that change
    it, each returning the parser with an error or a result. Shown: how far it is
    independent of chunk boundaries, and which events a call that throws loses (\<open>feed_all\<close>, a
    finding); the framing by lines it is equal to; the bounds of what it keeps, an invariant
    (\<open>sse_ok\<close>) of all parsers that calls can lead to (\<open>reachable\<close>), those that threw included; what
    its events satisfy; the round trip of an event; that a finished parser takes nothing.
  \<^item> \<open>Streaming_Json\<close> (\<open>src/ai/streaming_json.n\<close>): repair of strings, completion of the last token and
    closing of brackets. Shown: the text given to the JSON parser has no open string, and balanced
    brackets (an inductive grammar, \<open>balanced\<close>) when those that arrived can be completed at all;
    which literals are completed, and which are spoiled (a finding).
  \<^item> \<open>Truncate\<close> (\<open>src/tools/truncate.n\<close>): the longest prefix or suffix of whole lines that fits.
  \<^item> \<open>Sqlite_Varint\<close>, \<open>Sqlite_Arith\<close>, \<open>Sqlite_Numtext\<close>, \<open>Sqlite_Chars\<close> (\<open>util.c\<close>, \<open>global.c\<close>):
    varints, with their unrolled readers equal to a byte-by-byte one (locale \<open>self_delimiting\<close>,
    interpreted twice); checked arithmetic and logarithmic estimates at their widths; reading and
    printing of integers; character tables and comparison without case.
  \<^item> \<open>Sqlite_Bitvec\<close> (\<open>bitvec.c\<close>): all operations and the built-in self test. The walk through
    nested bitmaps takes the fuel \<open>set_fuel\<close> = 9; a level divides the size by 62, so for sizes
    below \<open>2 ^ 32\<close> it is enough, which is part of the proof. Locale \<open>bounded_set\<close>.
  \<^item> \<open>Sqlite_Hash\<close> (\<open>hash.c\<close>): the table with its linked elements in an explicit store, refining a
    finite map (locale \<open>case_map\<close>). Counters are natural numbers.
  \<^item> \<open>Sqlite_Rowset\<close> (\<open>rowset.c\<close>): insertion, draining and batch tests; the merge sort with its 40
    buckets is exact for fewer than \<open>2 ^ 40\<close> entries, a hypothesis (locale \<open>batch_set\<close>). Whole
    sequences of insertions and tests are compared with sets (\<open>run_ops\<close>, \<open>answers\<close>).
  \<^item> \<open>Sqlite_Utf\<close> (\<open>utf.c\<close> with operations of \<open>vdbemem.c\<close>): characters in three encodings,
    translation of values, byte-order marks; the invariant that a value satisfies the assertions
    of the code is kept by every operation.
  \<^item> \<open>Sqlite_Memjournal\<close> (\<open>memjournal.c\<close>): the journal in chunks, refining an array of bytes, and
    its spilling into a file, of which only the effect of a successful write is assumed (locale
    \<open>byte_file\<close>).
  \<^item> \<open>Sqlite_Like\<close> (\<open>func.c\<close>): \<open>patternCompare\<close> equals a declarative meaning of patterns on
    well-formed texts, and with it \<open>likeFunc\<close> for every escape character; \<open>sqlite3_strlike\<close> with a
    wildcard as escape character differs from it (a finding). GLOB character sets are modelled, the
    equivalence leaves them out.
  \<^item> \<open>Sqlite_Complete\<close> (\<open>complete.c\<close>): \<open>sqlite3_complete\<close> accepts exactly the sequences of whole
    statements, and every text can be completed.
  \<^item> \<open>Sqlite_Keyword\<close> (\<open>keywordhash.h\<close>, \<open>parse.h\<close>): the tables as they are in the source; the hash
    search equals a search of the list of keywords. The collision chains end because
    \<open>chain_depth\<close> decreases along them, which is computed.
  \<^item> \<open>Sqlite_Token\<close> (\<open>tokenize.c\<close>): \<open>sqlite3GetToken\<close> on every character class, the look-ahead for
    WINDOW, OVER and FILTER, and the loop of \<open>sqlite3RunParser\<close> for an arbitrary parser.
  \<^item> \<open>Sqlite_Double\<close>, \<open>Sqlite_Date\<close>, \<open>Sqlite_Datetime\<close> (\<open>date.c\<close>): doubles as rational numbers rounded
    to 53 bits; parsing, the conversions between calendar and Julian day, the modifiers, and the
    functions that return a date or a time. Shown: the conversions agree with counting days in the
    civil calendar, roundings included; a time stamp survives its fields and its text; the weekday
    modifier, the carry of months and the end of the month. \<open>strftime()\<close> and \<open>timediff()\<close> are left out.

  \<^bold>\<open>Conventions.\<close> A function keeps the name of the C function; the branches of a long function
  are definitions of their own. C strings are lists of bytes without the terminator, and
  \<open>cstr z i\<close> reads the terminator behind them. Machine integers are words, or integers with the
  wrap-around written out where it can happen; out-parameters are components of the result;
  \<open>None\<close> is the null pointer or a failure, as the comment at the definition says. A loop whose
  end does not follow from the structure of its data has a termination proof with a measure.

  \<^bold>\<open>Not modelled.\<close> The rest of SQLite: its pager, write-ahead log and B-tree, the virtual machine,
  the generated parser and the code generator, allocators, formatting, the operating
  system layer and the optional extensions. They are one or two orders of magnitude larger than
  what is modelled, and depend on each other, so that a part of them taken alone would state
  little. The rest of the Nature code: it is driven by the answers of remote services, by
  JSON values and by the terminal, or assembles the parts that are modelled. The branches
  of the C code for platforms the program is not built for (EBCDIC, Windows). Data races between
  threads: the models run one call at a time, as the callers do.
\<close>

end
